(* ===== verification/Lzma_Prelude.thy ===== *)
theory Lzma_Prelude
  imports Main "HOL-Library.Word"
begin

unbundle bit_operations_syntax

text \<open>
  The prelude of the development: the machine types of the C code, the return
  codes of liblzma, byte buffers with the little-endian accessors of
  src/liblzma/src/common/tuklib_integer.h, and the lemmas on words and lists
  that the component theories share.

  A buffer is a list of bytes and a position in it a natural number, as
  \<open>in_pos\<close>, \<open>out_pos\<close> and \<open>size_t\<close> lengths are in the code. The code never forms
  a position beyond the length of the buffer it indexes, so the width of
  \<open>size_t\<close> plays no part. Sizes that the file format bounds
  (\<open>lzma_vli\<close>, \<open>uint32_t\<close>) are words of their width, with wrap-around.
\<close>

named_theorems word_to_nat \<open>facts that move words to natural numbers\<close>
named_theorems buffer_simps \<open>rewrite rules on byte buffers\<close>

type_synonym byte = "8 word"
type_synonym u32 = "32 word"
type_synonym u64 = "64 word"
type_synonym lzma_vli = "64 word"

subsection \<open>Return codes: api/lzma/base.h\<close>

datatype lzma_ret =
    LZMA_OK
  | LZMA_STREAM_END
  | LZMA_NO_CHECK
  | LZMA_UNSUPPORTED_CHECK
  | LZMA_GET_CHECK
  | LZMA_MEM_ERROR
  | LZMA_MEMLIMIT_ERROR
  | LZMA_FORMAT_ERROR
  | LZMA_OPTIONS_ERROR
  | LZMA_DATA_ERROR
  | LZMA_BUF_ERROR
  | LZMA_PROG_ERROR
  | LZMA_TIMED_OUT

subsection \<open>Constants of api/lzma/vli.h\<close>

abbreviation (input) LZMA_VLI_MAX :: lzma_vli where "LZMA_VLI_MAX \<equiv> 0x7FFFFFFFFFFFFFFF"
abbreviation (input) LZMA_VLI_UNKNOWN :: lzma_vli where "LZMA_VLI_UNKNOWN \<equiv> 0xFFFFFFFFFFFFFFFF"
abbreviation (input) LZMA_VLI_BYTES_MAX :: nat where "LZMA_VLI_BYTES_MAX \<equiv> 9"

definition lzma_vli_is_valid :: "lzma_vli \<Rightarrow> bool" where
  "lzma_vli_is_valid vli \<longleftrightarrow> vli \<le> LZMA_VLI_MAX \<or> vli = LZMA_VLI_UNKNOWN"

subsection \<open>Words as natural numbers\<close>

lemma unat_drop_bit_div [word_to_nat]: "unat (drop_bit n w) = unat w div 2 ^ n"
  by (subst unat_drop_bit_eq) (rule drop_bit_eq_div)

lemma unat_take_bit_mod [word_to_nat]:
  fixes w :: "'a::len word"
  shows "unat (take_bit n w) = unat w mod 2 ^ n"
proof -
  have "unat (take_bit n w) = take_bit n (unat w)"
    by transfer (simp add: nat_eq_iff take_bit_nat_eq ac_simps)
  then show ?thesis by (simp add: take_bit_eq_mod)
qed

lemma and_mask_take_bit: "w AND mask n = take_bit n w"
  by (simp add: take_bit_eq_mask)

lemma unat_and_7F [word_to_nat]: "unat ((b :: byte) AND 0x7F) = unat b mod 128"
  using unat_take_bit_mod [of 7 b] by (simp add: take_bit_eq_mask mask_eq_exp_minus_1)

lemma unat_ucast_up:
  fixes w :: "'a::len word"
  assumes "LENGTH('a) \<le> LENGTH('b::len)"
  shows "unat (ucast w :: 'b word) = unat w"
proof -
  have "unat w < 2 ^ LENGTH('b)"
    by (rule less_le_trans [OF unsigned_less]) (simp add: assms)
  then show ?thesis by (simp add: unsigned_ucast_eq take_bit_nat_eq_self_iff)
qed

lemma unat_push_bit_mult:
  fixes w :: "'a::len word"
  assumes "unat w * 2 ^ n < 2 ^ LENGTH('a)"
  shows "unat (push_bit n w) = unat w * 2 ^ n"
proof -
  have "unat (push_bit n w) = take_bit LENGTH('a) (push_bit n (unat w))"
    by (rule unsigned_push_bit_eq)
  also have "\<dots> = unat w * 2 ^ n"
    using assms by (simp add: push_bit_eq_mult take_bit_nat_eq_self_iff)
  finally show ?thesis .
qed

lemma unat_add_small:
  fixes a b :: "'a::len word"
  assumes "unat a + unat b < 2 ^ LENGTH('a)"
  shows "unat (a + b) = unat a + unat b"
  using assms by (simp add: unat_word_ariths)

lemma unat_byte_less: "unat (b :: byte) < 256"
  by (rule less_le_trans [OF unsigned_less]) simp

lemma even_div_128: "m < 256 \<Longrightarrow> even (m div 128) \<longleftrightarrow> m < (128 :: nat)"
proof (cases "m < 128")
  case False
  moreover assume "m < 256"
  ultimately have "m div 128 = 1" by (intro div_nat_eqI) auto
  with False show ?thesis by simp
qed simp

lemma unat_drop_bit_less:
  "drop_bit n w \<noteq> 0 \<Longrightarrow> 0 < n \<Longrightarrow> unat (drop_bit n w) < unat w"
proof -
  assume nz: "drop_bit n w \<noteq> 0" and n: "0 < n"
  have "0 < unat w div 2 ^ n"
    using nz unat_drop_bit_div [of n w] by (metis unat_gt_0)
  then have "0 < unat w" by (metis div_0 gr0I less_irrefl)
  moreover have "(1 :: nat) < 2 ^ n" by (rule one_less_power) (use n in auto)
  ultimately show ?thesis by (subst unat_drop_bit_div) (rule div_less_dividend)
qed

lemma drop_bit_7_nonzero: "0x80 \<le> (w :: u64) \<Longrightarrow> drop_bit 7 w \<noteq> 0"
proof
  assume "0x80 \<le> w" and "drop_bit 7 w = 0"
  then have "128 \<le> unat w" and "unat w div 128 = 0"
    using unat_drop_bit_div [of 7 w] by (simp_all add: word_le_nat_alt)
  then show False by simp
qed

lemma even_unat: "even (unat w) \<longleftrightarrow> even w"
  by transfer (simp add: even_nat_iff)

lemma bit_80_byte: "bit (0x80 :: byte) n \<longleftrightarrow> n = 7"
proof -
  have "bit (2 ^ 7 :: byte) n \<longleftrightarrow> n = 7"
    by (simp only: bit_exp_iff possible_bit_word) auto
  then show ?thesis by simp
qed

lemma bit_7F_byte: "bit (0x7F :: byte) n \<longleftrightarrow> n < 7"
proof -
  have "bit (mask 7 :: byte) n \<longleftrightarrow> n < 7"
    by (simp only: bit_mask_iff) auto
  then show ?thesis by (simp add: mask_eq_exp_minus_1)
qed

lemma and_80_eq_0_iff: "(b :: byte) AND 0x80 = 0 \<longleftrightarrow> unat b < 128"
proof -
  have "b AND 2 ^ 7 = 0 \<longleftrightarrow> \<not> bit b 7" by (rule and_exp_eq_0_iff_not_bit)
  also have "bit b 7 \<longleftrightarrow> odd (unat b div 128)"
    by (simp add: bit_iff_odd_drop_bit even_unat flip: unat_drop_bit_div [of 7, simplified])
  also have "\<dots> \<longleftrightarrow> \<not> unat b < 128"
    using even_div_128 [OF unat_byte_less [of b]] by simp
  finally show ?thesis by simp
qed

lemma or_80_unat: "unat ((b :: byte) OR 0x80) = unat b mod 128 + 128"
proof -
  have "b OR 0x80 = (b AND 0x7F) OR 0x80"
    by (rule bit_word_eqI) (auto simp: bit_or_iff bit_and_iff bit_80_byte bit_7F_byte
        simp del: bit_numeral_word_iff)
  also have "\<dots> = (b AND 0x7F) + 0x80"
    by (rule disjunctive_add [symmetric]) (auto simp: bit_and_iff bit_80_byte bit_7F_byte
        simp del: bit_numeral_word_iff)
  finally have "b OR 0x80 = (b AND 0x7F) + 0x80" .
  moreover have "unat (b AND 0x7F) + unat (0x80 :: byte) < 2 ^ LENGTH(8)"
    by (simp add: unat_and_7F)
  ultimately show ?thesis by (simp add: unat_add_small unat_and_7F)
qed

lemma unat_ucast_mod:
  fixes w :: "'a::len word"
  shows "unat (ucast w :: 'b::len word) = unat w mod 2 ^ LENGTH('b)"
  by (simp add: unsigned_ucast_eq take_bit_eq_mod)

subsection \<open>Byte buffers\<close>

text \<open>\<open>put_bytes out p bs\<close> is the buffer after the bytes \<open>bs\<close> were stored one by one
  from \<open>out[p]\<close> on, as \<open>memcpy(out + p, bs, length bs)\<close> does.\<close>

definition put_bytes :: "'a list \<Rightarrow> nat \<Rightarrow> 'a list \<Rightarrow> 'a list" where
  "put_bytes out p bs = take p out @ bs @ drop (p + length bs) out"

lemma put_bytes_Nil [simp]: "put_bytes out p [] = out"
  by (simp add: put_bytes_def)

lemma put_bytes_single [buffer_simps]:
  "p < length out \<Longrightarrow> put_bytes out p [b] = out[p := b]"
  by (simp add: put_bytes_def upd_conv_take_nth_drop)

lemma put_bytes_update [buffer_simps]:
  "p < length out \<Longrightarrow> put_bytes (out[p := b]) (Suc p) bs = put_bytes out p (b # bs)"
  by (simp add: put_bytes_def take_Suc_conv_app_nth drop_update_cancel)

lemma length_put_bytes [simp]:
  "p + length bs \<le> length out \<Longrightarrow> length (put_bytes out p bs) = length out"
  by (simp add: put_bytes_def)

lemma put_bytes_append:
  "p + length as \<le> length out \<Longrightarrow>
   put_bytes (put_bytes out p as) (p + length as) bs = put_bytes out p (as @ bs)"
  by (simp add: put_bytes_def ac_simps)

lemma take_put_bytes [simp]:
  "p \<le> length out \<Longrightarrow> take p (put_bytes out p bs) = take p out"
  by (simp add: put_bytes_def)

lemma slice_put_bytes [simp]:
  "p \<le> length out \<Longrightarrow> take (length bs) (drop p (put_bytes out p bs)) = bs"
  by (simp add: put_bytes_def)

lemma nth_put_bytes_before [simp]:
  "i < p \<Longrightarrow> p \<le> length out \<Longrightarrow> put_bytes out p bs ! i = out ! i"
  by (simp add: put_bytes_def nth_append)

lemma nth_put_bytes_in [simp]:
  "i < length bs \<Longrightarrow> p \<le> length out \<Longrightarrow> put_bytes out p bs ! (p + i) = bs ! i"
  by (simp add: put_bytes_def nth_append)

text \<open>The part of a buffer between two positions.\<close>

definition slice :: "nat \<Rightarrow> nat \<Rightarrow> 'a list \<Rightarrow> 'a list" where
  "slice a b xs = take (b - a) (drop a xs)"

lemma slice_same [simp]: "slice a a xs = []"
  by (simp add: slice_def)

lemma slice_0 [simp]: "slice 0 b xs = take b xs"
  by (simp add: slice_def)

lemma length_slice [simp]: "b \<le> length xs \<Longrightarrow> length (slice a b xs) = b - a"
  by (simp add: slice_def)

lemma slice_append_slice:
  assumes "a \<le> b" and "b \<le> c"
  shows "slice a b xs @ slice b c xs = slice a c xs"
proof -
  have "c - a = (b - a) + (c - b)" and "b - a + a = b" using assms by simp_all
  then show ?thesis by (simp only: slice_def take_add drop_drop)
qed

lemma slice_put_bytes_in:
  "p \<le> length out \<Longrightarrow> slice p (p + length bs) (put_bytes out p bs) = bs"
  by (simp add: slice_def)

lemma slice_cong_take:
  "take b xs = take b ys \<Longrightarrow> slice a b xs = slice a b ys"
  by (cases "a \<le> b") (simp_all add: slice_def take_drop)

lemma drop_put_bytes:
  "p + length bs \<le> n \<Longrightarrow> p \<le> length out \<Longrightarrow> drop n (put_bytes out p bs) = drop n out"
  by (simp add: put_bytes_def)

lemma take_put_bytes_before:
  "n \<le> p \<Longrightarrow> p \<le> length out \<Longrightarrow> take n (put_bytes out p bs) = take n out"
  by (simp add: put_bytes_def min_absorb1)

end
