(* ===== verification/Vli.thy ===== *)
theory Vli
  imports Lzma_Prelude
begin

unbundle bit_operations_syntax

text \<open>
  Variable-length integers: src/liblzma/src/liblzma/common/vli_size.c,
  vli_encoder.c and vli_decoder.c. The multi-call mode of the code (a non-NULL
  \<open>vli_pos\<close>) is \<open>Some pos\<close>, the single-call mode (NULL) is \<open>None\<close>; both loops
  keep the local position in a natural number. The results list what the C
  functions write through their pointers: the return code, the position in
  the integer, the output buffer (or the decoded value) and the buffer position.

  The reference encoding is \<open>vli_bytes\<close>; the lemmas show that the encoder writes
  exactly its bytes, however the output is split over calls, and that the decoder
  accepts exactly these encodings.
\<close>

subsection \<open>vli\_size.c\<close>

function vli_size_loop :: "lzma_vli \<Rightarrow> u32 \<Rightarrow> u32" where
  "vli_size_loop vli i =
     (let vli = drop_bit 7 vli; i = i + 1
      in if vli \<noteq> 0 then vli_size_loop vli i else i)"
  by pat_completeness auto
termination
  by (relation "measure (\<lambda>(vli, i). unat vli)") (auto intro: unat_drop_bit_less)

declare vli_size_loop.simps [simp del]

definition lzma_vli_size :: "lzma_vli \<Rightarrow> u32" where
  "lzma_vli_size vli = (if LZMA_VLI_MAX < vli then 0 else vli_size_loop vli 0)"

subsection \<open>vli\_encoder.c\<close>

function vli_encode_loop ::
  "bool \<Rightarrow> lzma_vli \<Rightarrow> nat \<Rightarrow> byte list \<Rightarrow> nat \<Rightarrow> nat \<Rightarrow> lzma_ret \<times> nat \<times> byte list \<times> nat" where
  "vli_encode_loop single vli vli_pos out out_pos out_size =
     (if 0x80 \<le> vli then
        let vli_pos = vli_pos + 1;
            out = out[out_pos := ucast vli OR 0x80];
            vli = drop_bit 7 vli;
            out_pos = out_pos + 1
        in if out_pos = out_size
           then (if single then LZMA_PROG_ERROR else LZMA_OK, vli_pos, out, out_pos)
           else vli_encode_loop single vli vli_pos out out_pos out_size
      else (if single then LZMA_OK else LZMA_STREAM_END,
            vli_pos + 1, out[out_pos := ucast vli], out_pos + 1))"
  by pat_completeness auto
termination
  by (relation "measure (\<lambda>(single, vli, rest). unat vli)")
    (auto intro!: unat_drop_bit_less simp: drop_bit_7_nonzero)

declare vli_encode_loop.simps [simp del]

definition lzma_vli_encode ::
  "lzma_vli \<Rightarrow> nat option \<Rightarrow> byte list \<Rightarrow> nat \<Rightarrow> nat \<Rightarrow> lzma_ret \<times> nat \<times> byte list \<times> nat" where
  "lzma_vli_encode vli vli_pos out out_pos out_size =
     (let single = (vli_pos = None);
          pos = (case vli_pos of None \<Rightarrow> 0 | Some p \<Rightarrow> p)
      in if out_size \<le> out_pos
         then (if single then LZMA_PROG_ERROR else LZMA_BUF_ERROR, pos, out, out_pos)
         else if LZMA_VLI_BYTES_MAX \<le> pos \<or> LZMA_VLI_MAX < vli
         then (LZMA_PROG_ERROR, pos, out, out_pos)
         else vli_encode_loop single (drop_bit (pos * 7) vli) pos out out_pos out_size)"

subsection \<open>vli\_decoder.c\<close>

function vli_decode_loop ::
  "bool \<Rightarrow> lzma_vli \<Rightarrow> nat \<Rightarrow> byte list \<Rightarrow> nat \<Rightarrow> nat \<Rightarrow> lzma_ret \<times> lzma_vli \<times> nat \<times> nat" where
  "vli_decode_loop single vli vli_pos inb in_pos in_size =
     (let b = inb ! in_pos;
          in_pos = in_pos + 1;
          vli = vli + push_bit (vli_pos * 7) (ucast (b AND 0x7F));
          vli_pos = vli_pos + 1
      in if b AND 0x80 = 0
         then (if b = 0 \<and> 1 < vli_pos then LZMA_DATA_ERROR
               else if single then LZMA_OK else LZMA_STREAM_END,
               vli, vli_pos, in_pos)
         else if vli_pos = LZMA_VLI_BYTES_MAX
         then (LZMA_DATA_ERROR, vli, vli_pos, in_pos)
         else if in_pos < in_size
         then vli_decode_loop single vli vli_pos inb in_pos in_size
         else (if single then LZMA_DATA_ERROR else LZMA_OK, vli, vli_pos, in_pos))"
  by pat_completeness auto
termination
  by (relation "measure (\<lambda>(single, vli, vli_pos, inb, in_pos, in_size). in_size - in_pos)") auto

declare vli_decode_loop.simps [simp del]

definition lzma_vli_decode ::
  "lzma_vli \<Rightarrow> nat option \<Rightarrow> byte list \<Rightarrow> nat \<Rightarrow> nat \<Rightarrow> lzma_ret \<times> lzma_vli \<times> nat \<times> nat" where
  "lzma_vli_decode vli vli_pos inb in_pos in_size =
     (case vli_pos of
        None \<Rightarrow>
          (if in_size \<le> in_pos then (LZMA_DATA_ERROR, 0, 0, in_pos)
           else vli_decode_loop True 0 0 inb in_pos in_size)
      | Some pos \<Rightarrow>
          (let vli = (if pos = 0 then 0 else vli)
           in if LZMA_VLI_BYTES_MAX \<le> pos \<or> drop_bit (pos * 7) vli \<noteq> 0
              then (LZMA_PROG_ERROR, vli, pos, in_pos)
              else if in_size \<le> in_pos then (LZMA_BUF_ERROR, vli, pos, in_pos)
              else vli_decode_loop False vli pos inb in_pos in_size))"

subsection \<open>The reference encoding\<close>

fun vli_bytes :: "nat \<Rightarrow> byte list" where
  "vli_bytes n =
     (if n < 128 then [word_of_nat n]
      else word_of_nat (n mod 128 + 128) # vli_bytes (n div 128))"

declare vli_bytes.simps [simp del]

lemma vli_bytes_small: "n < 128 \<Longrightarrow> vli_bytes n = [word_of_nat n]"
  by (subst vli_bytes.simps) simp

lemma vli_bytes_big:
  "128 \<le> n \<Longrightarrow> vli_bytes n = word_of_nat (n mod 128 + 128) # vli_bytes (n div 128)"
  by (subst vli_bytes.simps) simp

lemma vli_bytes_nonempty [simp]: "vli_bytes n \<noteq> []"
  by (subst vli_bytes.simps) simp

lemma vli_bytes_length_pos [simp]: "0 < length (vli_bytes n)"
  by simp

lemma vli_bytes_length_le: "n < 128 ^ Suc k \<Longrightarrow> length (vli_bytes n) \<le> Suc k"
proof (induction k arbitrary: n)
  case 0
  then show ?case by (simp add: vli_bytes_small)
next
  case (Suc k)
  show ?case
  proof (cases "n < 128")
    case False
    from Suc.prems have "n div 128 < 128 ^ Suc k"
      by (simp add: div_less_iff_less_mult mult.commute)
    with False show ?thesis using Suc.IH by (simp add: vli_bytes_big)
  qed (simp add: vli_bytes_small)
qed

lemma vli_bytes_value_bound: "n < 128 ^ length (vli_bytes n)"
proof (induction n rule: vli_bytes.induct)
  case (1 n)
  show ?case
  proof (cases "n < 128")
    case False
    then have "n div 128 < 128 ^ length (vli_bytes (n div 128))" using 1 by simp
    then have "n < 128 ^ length (vli_bytes (n div 128)) * 128"
      by (simp add: div_less_iff_less_mult)
    with False show ?thesis by (simp add: vli_bytes_big mult.commute)
  qed (simp add: vli_bytes_small)
qed

lemma vli_bytes_length_le_9: "n < 2 ^ 63 \<Longrightarrow> length (vli_bytes n) \<le> 9"
  using vli_bytes_length_le [of n 8] by simp

lemma drop_vli_bytes:
  "pos < length (vli_bytes n) \<Longrightarrow> drop pos (vli_bytes n) = vli_bytes (n div 128 ^ pos)"
proof (induction pos arbitrary: n)
  case (Suc pos)
  then have "128 \<le> n"
    by (cases "n < 128") (auto simp: vli_bytes_small)
  with Suc show ?case by (simp add: vli_bytes_big div_mult2_eq mult.commute)
qed simp

subsection \<open>The encoder writes the reference bytes\<close>

lemma ucast_or_80_byte: "(ucast (w :: u64) :: byte) OR 0x80 = word_of_nat (unat w mod 128 + 128)"
proof -
  have "unat ((ucast w :: byte) OR 0x80) = unat w mod 128 + 128"
    by (simp add: or_80_unat unat_ucast_mod mod_mod_cancel)
  then have "(word_of_nat (unat ((ucast w :: byte) OR 0x80)) :: byte) = word_of_nat (unat w mod 128 + 128)"
    by (rule arg_cong)
  then show ?thesis by simp
qed

lemma vli_encode_loop_last:
  "\<not> 0x80 \<le> vli \<Longrightarrow> vli_encode_loop single vli pos out out_pos out_size =
     (if single then LZMA_OK else LZMA_STREAM_END, Suc pos, out[out_pos := ucast vli], Suc out_pos)"
  by (subst vli_encode_loop.simps) simp

lemma vli_encode_loop_full:
  "0x80 \<le> vli \<Longrightarrow> Suc out_pos = out_size \<Longrightarrow> vli_encode_loop single vli pos out out_pos out_size =
     (if single then LZMA_PROG_ERROR else LZMA_OK, Suc pos, out[out_pos := ucast vli OR 0x80], Suc out_pos)"
  by (subst vli_encode_loop.simps) simp

lemma vli_encode_loop_next:
  "0x80 \<le> vli \<Longrightarrow> Suc out_pos \<noteq> out_size \<Longrightarrow> vli_encode_loop single vli pos out out_pos out_size =
     vli_encode_loop single (drop_bit 7 vli) (Suc pos) (out[out_pos := ucast vli OR 0x80]) (Suc out_pos) out_size"
  by (subst vli_encode_loop.simps) simp

lemma vli_encode_loop_eq:
  assumes "out_pos < out_size" and "out_size \<le> length out"
    and "bs = vli_bytes (unat vli)" and "k = min (length bs) (out_size - out_pos)"
  shows "vli_encode_loop single vli pos out out_pos out_size =
    (if length bs \<le> out_size - out_pos then (if single then LZMA_OK else LZMA_STREAM_END)
     else (if single then LZMA_PROG_ERROR else LZMA_OK),
     pos + k, put_bytes out out_pos (take k bs), out_pos + k)"
  using assms
proof (induction single vli pos out out_pos out_size arbitrary: bs k rule: vli_encode_loop.induct)
  case (1 single vli pos out out_pos out_size)
  show ?case
  proof (cases "0x80 \<le> vli")
    case False
    then have "unat vli < 128" by (simp add: word_le_nat_alt)
    with 1(2-5) show ?thesis
      by (simp add: vli_encode_loop_last [OF False] vli_bytes_small put_bytes_single)
  next
    case True
    let ?b = "ucast vli OR 0x80 :: byte"
    let ?bs = "vli_bytes (unat vli div 128)"
    have bs: "bs = ?b # ?bs"
      using True 1(4) by (simp add: word_le_nat_alt vli_bytes_big ucast_or_80_byte)
    show ?thesis
    proof (cases "Suc out_pos = out_size")
      case full: True
      then have "k = 1" and "\<not> length bs \<le> out_size - out_pos"
        using 1(5) by (auto simp: bs Suc_le_eq)
      with 1(2,3) show ?thesis
        by (simp add: vli_encode_loop_full [OF True full] bs put_bytes_single)
    next
      case more: False
      let ?k = "min (length ?bs) (out_size - Suc out_pos)"
      have lt: "Suc out_pos < out_size" using more 1(2) by simp
      have k: "k = Suc ?k" "length bs \<le> out_size - out_pos \<longleftrightarrow> length ?bs \<le> out_size - Suc out_pos"
        using lt 1(5) by (auto simp: bs)
      have "vli_encode_loop single (drop_bit 7 vli) (Suc pos) (out[out_pos := ?b]) (Suc out_pos) out_size =
          (if length ?bs \<le> out_size - Suc out_pos then (if single then LZMA_OK else LZMA_STREAM_END)
           else (if single then LZMA_PROG_ERROR else LZMA_OK),
           Suc pos + ?k, put_bytes (out[out_pos := ?b]) (Suc out_pos) (take ?k ?bs), Suc out_pos + ?k)"
        using 1(1) [OF True refl refl refl refl _ _ _ refl refl] more lt 1(3)
        by (simp add: unat_drop_bit_div [of 7, simplified])
      then show ?thesis
        using 1(2,3) by (simp add: vli_encode_loop_next [OF True more] k bs put_bytes_update; arith)
    qed
  qed
qed

lemma vli_size_loop_eq:
  "vli_size_loop vli i = i + word_of_nat (length (vli_bytes (unat vli)))"
proof (induction vli i rule: vli_size_loop.induct)
  case (1 vli i)
  have d: "unat (drop_bit 7 vli) = unat vli div 128" by (simp add: unat_drop_bit_div)
  show ?case
  proof (cases "drop_bit 7 vli = 0")
    case True
    with d have "unat vli < 128" by (metis div_eq_0_iff unat_0 zero_neq_numeral)
    with True show ?thesis by (subst vli_size_loop.simps) (simp add: vli_bytes_small)
  next
    case False
    with d have "128 \<le> unat vli" by (metis div_less not_le unat_eq_zero)
    with False 1 [OF refl refl] d show ?thesis
      by (subst vli_size_loop.simps) (simp add: vli_bytes_big ac_simps)
  qed
qed

lemma vli_valid_unat: "vli \<le> LZMA_VLI_MAX \<longleftrightarrow> unat vli < 2 ^ 63"
  by (simp add: word_le_nat_alt) arith

lemma lzma_vli_size_eq:
  "vli \<le> LZMA_VLI_MAX \<Longrightarrow> lzma_vli_size vli = word_of_nat (length (vli_bytes (unat vli)))"
  by (simp add: lzma_vli_size_def vli_size_loop_eq leD)

lemma unat_lzma_vli_size:
  assumes "vli \<le> LZMA_VLI_MAX"
  shows "unat (lzma_vli_size vli) = length (vli_bytes (unat vli))"
proof -
  have "length (vli_bytes (unat vli)) \<le> 9"
    using assms by (intro vli_bytes_length_le_9) (simp add: vli_valid_unat)
  then show ?thesis using assms by (simp add: lzma_vli_size_eq unat_of_nat)
qed

lemma lzma_vli_encode_single:
  assumes "vli \<le> LZMA_VLI_MAX" and "out_size \<le> length out"
    and "out_pos + length (vli_bytes (unat vli)) \<le> out_size"
  shows "lzma_vli_encode vli None out out_pos out_size =
    (LZMA_OK, length (vli_bytes (unat vli)), put_bytes out out_pos (vli_bytes (unat vli)),
     out_pos + length (vli_bytes (unat vli)))"
proof -
  have lt: "out_pos < out_size"
    using assms(3) vli_bytes_length_pos [of "unat vli"] by arith
  from lt assms(3) have le: "length (vli_bytes (unat vli)) \<le> out_size - out_pos" by arith
  show ?thesis
    using lt le assms by (simp add: lzma_vli_encode_def vli_encode_loop_eq [OF _ _ refl refl] not_less Let_def min_absorb1)
qed

lemma lzma_vli_encode_single_fails:
  assumes "out_size \<le> length out"
    and "LZMA_VLI_MAX < vli \<or> out_size < out_pos + length (vli_bytes (unat vli))"
  shows "fst (lzma_vli_encode vli None out out_pos out_size) = LZMA_PROG_ERROR"
  using assms by (auto simp: lzma_vli_encode_def vli_encode_loop_eq [OF _ _ refl refl] Let_def not_le not_less)

lemma lzma_vli_encode_multi:
  assumes "vli \<le> LZMA_VLI_MAX" and "pos < length (vli_bytes (unat vli))"
    and "out_pos < out_size" and "out_size \<le> length out"
  shows "lzma_vli_encode vli (Some pos) out out_pos out_size =
    (let bs = drop pos (vli_bytes (unat vli)); k = min (length bs) (out_size - out_pos)
     in (if length bs \<le> out_size - out_pos then LZMA_STREAM_END else LZMA_OK,
         pos + k, put_bytes out out_pos (take k bs), out_pos + k))"
proof -
  have "pos < 9"
    using assms(1,2) vli_bytes_length_le_9 [of "unat vli"] by (simp add: vli_valid_unat)
  moreover have "unat (drop_bit (pos * 7) vli) = unat vli div 128 ^ pos"
    by (simp add: unat_drop_bit_div power_mult [of 2 7, simplified] mult.commute [of pos])
  ultimately show ?thesis
    using assms
    by (simp add: lzma_vli_encode_def vli_encode_loop_eq [OF _ _ refl refl] drop_vli_bytes Let_def not_less)
qed

subsection \<open>The decoder accepts exactly the reference encodings\<close>

lemma vli_decode_loop_last:
  "inb ! in_pos AND 0x80 = 0 \<Longrightarrow> vli_decode_loop single vli pos inb in_pos in_size =
     (if inb ! in_pos = 0 \<and> 0 < pos then LZMA_DATA_ERROR
      else if single then LZMA_OK else LZMA_STREAM_END,
      vli + push_bit (pos * 7) (ucast (inb ! in_pos AND 0x7F)), Suc pos, Suc in_pos)"
  by (subst vli_decode_loop.simps) (simp add: Let_def)

lemma vli_decode_loop_long:
  "inb ! in_pos AND 0x80 \<noteq> 0 \<Longrightarrow> Suc pos = LZMA_VLI_BYTES_MAX \<Longrightarrow>
   vli_decode_loop single vli pos inb in_pos in_size =
     (LZMA_DATA_ERROR, vli + push_bit (pos * 7) (ucast (inb ! in_pos AND 0x7F)), Suc pos, Suc in_pos)"
  by (subst vli_decode_loop.simps) (simp add: Let_def)

lemma vli_decode_loop_next:
  "inb ! in_pos AND 0x80 \<noteq> 0 \<Longrightarrow> Suc pos \<noteq> LZMA_VLI_BYTES_MAX \<Longrightarrow> Suc in_pos < in_size \<Longrightarrow>
   vli_decode_loop single vli pos inb in_pos in_size =
     vli_decode_loop single (vli + push_bit (pos * 7) (ucast (inb ! in_pos AND 0x7F)))
       (Suc pos) inb (Suc in_pos) in_size"
  by (subst vli_decode_loop.simps) (simp add: Let_def)

lemma vli_decode_loop_stop:
  "inb ! in_pos AND 0x80 \<noteq> 0 \<Longrightarrow> Suc pos \<noteq> LZMA_VLI_BYTES_MAX \<Longrightarrow> \<not> Suc in_pos < in_size \<Longrightarrow>
   vli_decode_loop single vli pos inb in_pos in_size =
     (if single then LZMA_DATA_ERROR else LZMA_OK,
      vli + push_bit (pos * 7) (ucast (inb ! in_pos AND 0x7F)), Suc pos, Suc in_pos)"
  by (subst vli_decode_loop.simps) (simp add: Let_def)

lemma vli_acc_bounds:
  fixes vli :: lzma_vli and b :: byte
  assumes "unat vli < 128 ^ pos" and "pos < 9"
  shows "unat (vli + push_bit (pos * 7) (ucast (b AND 0x7F))) = unat vli + (unat b mod 128) * 128 ^ pos"
    and "unat vli + (unat b mod 128) * 128 ^ pos < 128 ^ Suc pos"
proof -
  have p: "(2 :: nat) ^ (pos * 7) = 128 ^ pos"
    by (simp add: power_mult [of 2 7, simplified] mult.commute [of pos])
  have "Suc (unat b mod 128) * 128 ^ pos \<le> 128 * 128 ^ pos"
    by (intro mult_right_mono) (auto simp: Suc_le_eq)
  then show lt: "unat vli + (unat b mod 128) * 128 ^ pos < 128 ^ Suc pos"
    using assms(1) unfolding mult_Suc power_Suc by arith
  have "(128 :: nat) ^ Suc pos \<le> 128 ^ 9"
    using assms(2) by (intro power_increasing) auto
  then have le: "(128 :: nat) ^ Suc pos \<le> 2 ^ 63" by simp
  have u: "unat (ucast (b AND 0x7F) :: lzma_vli) = unat b mod 128"
    by (simp add: unat_ucast_up unat_and_7F)
  have sh: "unat (push_bit (pos * 7) (ucast (b AND 0x7F) :: lzma_vli)) = (unat b mod 128) * 128 ^ pos"
    using lt le by (subst unat_push_bit_mult) (simp_all add: u p)
  show "unat (vli + push_bit (pos * 7) (ucast (b AND 0x7F))) = unat vli + (unat b mod 128) * 128 ^ pos"
    using lt le by (subst unat_add_small) (simp_all add: sh)
qed

lemma vli_decode_loop_sound:
  assumes "vli_decode_loop single vli pos inb in_pos in_size = (ret, v, pos', in_pos')"
    and "ret = (if single then LZMA_OK else LZMA_STREAM_END)" and "single \<or> ret \<noteq> LZMA_OK"
    and "unat vli < 128 ^ pos" and "pos < 9" and "in_pos < in_size" and "in_size \<le> length inb"
  shows "\<exists>n. unat v = unat vli + n * 128 ^ pos \<and> (0 < n \<or> pos = 0) \<and> n < 128 ^ (9 - pos)
    \<and> pos' = pos + length (vli_bytes n) \<and> in_pos' = in_pos + length (vli_bytes n)
    \<and> in_pos' \<le> in_size \<and> take (length (vli_bytes n)) (drop in_pos inb) = vli_bytes n"
  using assms
proof (induction single vli pos inb in_pos in_size rule: vli_decode_loop.induct)
  case (1 single vli pos inb in_pos in_size)
  let ?b = "inb ! in_pos"
  let ?vli = "vli + push_bit (pos * 7) (ucast (?b AND 0x7F)) :: lzma_vli"
  have dr: "drop in_pos inb = ?b # drop (Suc in_pos) inb"
    using 1(7,8) by (intro Cons_nth_drop_Suc [symmetric]) simp
  note acc = vli_acc_bounds [OF 1(5,6), of ?b]
  show ?case
  proof (cases "?b AND 0x80 = 0")
    case True
    then have small: "unat ?b < 128" by (simp add: and_80_eq_0_iff)
    have nz: "0 < unat ?b \<or> pos = 0"
      using 1(2,3) by (auto simp: vli_decode_loop_last [OF True] unat_gt_0 split: if_splits)
    have pw: "(128 :: nat) \<le> 128 ^ (9 - pos)"
      using 1(6) by (intro self_le_power) auto
    show ?thesis
      using 1(2,7) small nz acc pw
      by (intro exI [of _ "unat ?b"]) (auto simp: vli_decode_loop_last [OF True] vli_bytes_small dr)
  next
    case False
    have ret: "ret \<noteq> LZMA_DATA_ERROR" "single \<or> ret \<noteq> LZMA_OK" using 1(3,4) by (auto split: if_splits)
    have long: "Suc pos \<noteq> 9"
      using 1(2) ret by (auto simp: vli_decode_loop_long [OF False])
    have more: "Suc in_pos < in_size"
      using 1(2) ret long by (rule_tac ccontr) (auto simp: vli_decode_loop_stop [OF False] split: if_splits)
    have "\<exists>n. unat v = unat ?vli + n * 128 ^ Suc pos \<and> (0 < n \<or> Suc pos = 0) \<and> n < 128 ^ (9 - Suc pos)
        \<and> pos' = Suc pos + length (vli_bytes n) \<and> in_pos' = Suc in_pos + length (vli_bytes n)
        \<and> in_pos' \<le> in_size \<and> take (length (vli_bytes n)) (drop (Suc in_pos) inb) = vli_bytes n"
      using 1(1) [OF refl refl refl refl False] 1(2-8) long more acc
      by (simp add: vli_decode_loop_next [OF False long more])
    then obtain n where n: "unat v = unat ?vli + n * 128 ^ Suc pos" "0 < n" "n < 128 ^ (9 - Suc pos)"
        "pos' = Suc pos + length (vli_bytes n)" "in_pos' = Suc in_pos + length (vli_bytes n)"
        "in_pos' \<le> in_size" "take (length (vli_bytes n)) (drop (Suc in_pos) inb) = vli_bytes n"
      by auto
    define m where "m = unat ?b mod 128 + n * 128"
    have "128 \<le> unat ?b" using False by (simp add: and_80_eq_0_iff)
    then have "unat ?b mod 128 + 128 = unat ?b"
      using unat_byte_less [of ?b] by (simp add: le_mod_geq)
    then have b: "word_of_nat (unat ?b mod 128 + 128) = ?b" by simp
    have bs: "vli_bytes m = ?b # vli_bytes n"
      using n(2) b unfolding m_def by (subst vli_bytes_big) auto
    have "m < 128 * 128 ^ (9 - Suc pos)"
    proof -
      have "Suc n * 128 \<le> 128 ^ (9 - Suc pos) * 128"
        using n(3) by (intro mult_right_mono) auto
      then show ?thesis using mod_less_divisor [of 128 "unat ?b"] by (simp add: m_def)
    qed
    moreover have "9 - pos = Suc (9 - Suc pos)" using 1(6) by simp
    ultimately have m: "m < 128 ^ (9 - pos)" by (simp only: power_Suc)
    have v: "unat v = unat vli + m * 128 ^ pos"
      using n(1) acc(1) by (simp add: m_def algebra_simps)
    have "0 < m" using n(2) by (simp add: m_def)
    with n v m show ?thesis by (intro exI [of _ m]) (simp add: bs dr)
  qed
qed

lemma vli_decode_loop_prefix:
  assumes "in_pos < in_size" and "in_size \<le> length inb"
    and "bs = vli_bytes n" and "k = min (length bs) (in_size - in_pos)"
    and "0 < n \<or> pos = 0" and "unat vli < 128 ^ pos" and "pos + length bs \<le> 9"
    and "take k (drop in_pos inb) = take k bs"
  shows "vli_decode_loop single vli pos inb in_pos in_size =
    (if length bs \<le> in_size - in_pos then (if single then LZMA_OK else LZMA_STREAM_END)
     else (if single then LZMA_DATA_ERROR else LZMA_OK),
     word_of_nat (unat vli + (n mod 128 ^ k) * 128 ^ pos), pos + k, in_pos + k)"
  using assms
proof (induction single vli pos inb in_pos in_size arbitrary: n bs k rule: vli_decode_loop.induct)
  case (1 single vli pos inb in_pos in_size)
  let ?b = "inb ! in_pos"
  let ?vli = "vli + push_bit (pos * 7) (ucast (?b AND 0x7F)) :: lzma_vli"
  have dr: "drop in_pos inb = ?b # drop (Suc in_pos) inb"
    using 1(2,3) by (intro Cons_nth_drop_Suc [symmetric]) simp
  have p9: "pos < 9" using 1(4,8) vli_bytes_length_pos [of n] by arith
  note acc = vli_acc_bounds [OF 1(7) p9, of ?b]
  have vli: "?vli = word_of_nat (unat vli + (unat ?b mod 128) * 128 ^ pos)"
    by (simp only: acc(1) [symmetric] of_nat_unat ucast_id)
  have k0: "0 < k" using 1(2,4,5) by simp
  have b: "?b = hd bs" using arg_cong [OF 1(9), of hd] k0 by (simp add: dr)
  show ?case
  proof (cases "n < 128")
    case True
    then have bs: "bs = [word_of_nat n]" using 1(4) by (simp add: vli_bytes_small)
    then have bn: "unat ?b = n" using True by (simp add: b unat_of_nat)
    then have last: "?b AND 0x80 = 0" using True by (simp add: and_80_eq_0_iff)
    have k: "k = 1" using 1(2,5) bs by simp
    have "\<not> (?b = 0 \<and> 0 < pos)" using 1(6) bn by (auto simp: unat_eq_zero)
    with 1(2) bs bn True k vli show ?thesis by (simp add: vli_decode_loop_last [OF last])
  next
    case False
    let ?bs = "vli_bytes (n div 128)"
    have bs: "bs = word_of_nat (n mod 128 + 128) # ?bs" using False 1(4) by (simp add: vli_bytes_big)
    then have bn: "unat ?b = n mod 128 + 128" by (simp add: b unat_of_nat del: of_nat_add)
    then have cont: "?b AND 0x80 \<noteq> 0" by (simp add: and_80_eq_0_iff)
    have bm: "unat ?b mod 128 = n mod 128" using bn by simp
    have short: "Suc pos \<noteq> LZMA_VLI_BYTES_MAX"
      using 1(8) bs vli_bytes_length_pos [of "n div 128"] by auto
    show ?thesis
    proof (cases "Suc in_pos < in_size")
      case False
      then have sz: "in_size - in_pos = 1" using 1(2) by simp
      then have "k = 1" and "\<not> length bs \<le> in_size - in_pos" using 1(5) bs by (auto simp: Suc_le_eq)
      then show ?thesis using vli bm by (simp add: vli_decode_loop_stop [OF cont short False])
    next
      case more: True
      define k' where "k' = min (length ?bs) (in_size - Suc in_pos)"
      have k: "k = Suc k'" "length bs \<le> in_size - in_pos \<longleftrightarrow> length ?bs \<le> in_size - Suc in_pos"
        using more 1(5) by (auto simp: bs k'_def)
      have t: "take k' (drop (Suc in_pos) inb) = take k' ?bs" using 1(9) by (simp add: dr bs k)
      have "vli_decode_loop single ?vli (Suc pos) inb (Suc in_pos) in_size =
        (if length ?bs \<le> in_size - Suc in_pos then (if single then LZMA_OK else LZMA_STREAM_END)
         else (if single then LZMA_DATA_ERROR else LZMA_OK),
         word_of_nat (unat ?vli + (n div 128 mod 128 ^ k') * 128 ^ Suc pos), Suc pos + k', Suc in_pos + k')"
        using 1(1) [OF refl refl refl refl cont _ _ _ _ refl k'_def [unfolded Suc_eq_plus1]]
          short more 1(3,8) \<open>\<not> n < 128\<close> acc t by (simp add: bs)
      moreover have e: "unat ?vli + (n div 128 mod 128 ^ k') * 128 ^ Suc pos
          = unat vli + (n mod 128 ^ Suc k') * 128 ^ pos"
        by (simp add: acc(1) bm mod_mult2_eq algebra_simps)
      ultimately show ?thesis
        by (simp only: e vli_decode_loop_next [OF cont short more] k add_Suc add_Suc_right)
    qed
  qed
qed

subsection \<open>Properties of the calls\<close>

lemma lzma_vli_decode_single_accepts:
  assumes "v \<le> LZMA_VLI_MAX" and "in_size \<le> length inb"
    and "in_pos + length (vli_bytes (unat v)) \<le> in_size"
    and "take (length (vli_bytes (unat v))) (drop in_pos inb) = vli_bytes (unat v)"
  shows "lzma_vli_decode x None inb in_pos in_size =
    (LZMA_OK, v, length (vli_bytes (unat v)), in_pos + length (vli_bytes (unat v)))"
proof -
  let ?bs = "vli_bytes (unat v)"
  have lt: "in_pos < in_size" and le: "length ?bs \<le> in_size - in_pos"
    using assms(3) vli_bytes_length_pos [of "unat v"] by arith+
  have len: "length ?bs \<le> 9"
    using assms(1) by (intro vli_bytes_length_le_9) (simp add: vli_valid_unat)
  have "unat v mod 128 ^ length ?bs = unat v"
    by (simp add: vli_bytes_value_bound)
  then show ?thesis
    using vli_decode_loop_prefix [OF lt assms(2) refl refl, of "unat v" 0 0 True] lt le len assms(4)
    by (simp add: lzma_vli_decode_def min_absorb1)
qed

lemma lzma_vli_decode_single_sound:
  assumes "in_size \<le> length inb" and dec: "lzma_vli_decode x None inb in_pos in_size = (LZMA_OK, v, p, in_pos')"
  shows "v \<le> LZMA_VLI_MAX \<and> p = length (vli_bytes (unat v)) \<and> in_pos' = in_pos + p \<and> in_pos' \<le> in_size
    \<and> take p (drop in_pos inb) = vli_bytes (unat v)"
proof -
  from dec have lt: "in_pos < in_size"
    and loop: "vli_decode_loop True 0 0 inb in_pos in_size = (LZMA_OK, v, p, in_pos')"
    by (auto simp: lzma_vli_decode_def split: if_splits)
  then show ?thesis
    using vli_decode_loop_sound [OF loop _ _ _ _ lt assms(1)] by (auto simp: vli_valid_unat)
qed

text \<open>C8. Single-call decoding succeeds exactly on the canonical encodings of the
  integers up to \<open>LZMA_VLI_MAX\<close> that lie inside the input: overlong encodings
  (a zero last byte), encodings of more than nine bytes and truncated ones are
  all rejected, and the value and the new input position are the right ones.\<close>

theorem vli_decode_accepts_iff:
  assumes "in_size \<le> length inb"
  shows "(lzma_vli_decode x None inb in_pos in_size = (LZMA_OK, v, p, in_pos')) \<longleftrightarrow>
    v \<le> LZMA_VLI_MAX \<and> p = length (vli_bytes (unat v)) \<and> in_pos' = in_pos + p \<and> in_pos' \<le> in_size
    \<and> take p (drop in_pos inb) = vli_bytes (unat v)"
  using lzma_vli_decode_single_sound [OF assms] lzma_vli_decode_single_accepts [OF _ assms] by blast

theorem vli_decode_accepts_iff_witness:
  "lzma_vli_decode 7 None [0, 0xAC, 0x02] 1 3 = (LZMA_OK, 300, 2, 3)"
  by (subst vli_decode_accepts_iff) (simp_all add: vli_bytes_big vli_bytes_small)

text \<open>C13. Interrupted coding stays in step: at any position inside the encoding of an
  integer, a multi-call encoder that runs out of output after any number of bytes and
  a multi-call decoder that is given just these bytes return the same code and reach the
  same position, and the decoder holds the low bits of the integer that have been
  transferred so far.\<close>

theorem vli_multi_call_in_step:
  assumes v: "v \<le> LZMA_VLI_MAX" and pos: "pos < length (vli_bytes (unat v))"
    and sz: "out_pos < out_size" "out_size \<le> length out"
    and enc: "lzma_vli_encode v (Some pos) out out_pos out_size = (ret, pos', out', out_pos')"
  shows "lzma_vli_decode (word_of_nat (unat v mod 128 ^ pos)) (Some pos) out' out_pos out_pos' =
      (ret, word_of_nat (unat v mod 128 ^ pos'), pos', out_pos') \<and> out_pos < out_pos'
    \<and> (ret = LZMA_STREAM_END \<longrightarrow> unat v mod 128 ^ pos' = unat v)"
proof -
  let ?n = "unat v div 128 ^ pos" and ?bs = "drop pos (vli_bytes (unat v))"
  let ?vli = "word_of_nat (unat v mod 128 ^ pos) :: lzma_vli"
  define k where "k = min (length ?bs) (out_size - out_pos)"
  have bs: "?bs = vli_bytes ?n" and len: "length (vli_bytes (unat v)) \<le> 9"
    using v pos drop_vli_bytes vli_bytes_length_le_9 by (auto simp: vli_valid_unat)
  have res: "ret = (if length ?bs \<le> k then LZMA_STREAM_END else LZMA_OK)" "pos' = pos + k"
      "out' = put_bytes out out_pos (take k ?bs)" "out_pos' = out_pos + k"
    using enc lzma_vli_encode_multi [OF v pos sz] by (auto simp: k_def Let_def)
  have k: "0 < k" "k \<le> length ?bs" "out_pos + k \<le> length out'"
    using pos sz by (auto simp: k_def res(3))
  have "128 ^ pos \<le> unat v" if "0 < pos"
    using that pos vli_bytes_length_le [of "unat v" "pos - 1"] by (cases "unat v < 128 ^ pos") auto
  then have n: "0 < ?n \<or> pos = 0" by (auto simp: div_greater_zero_iff)
  have lt: "unat v mod 128 ^ pos < 2 ^ 64"
    using v by (intro le_less_trans [OF mod_less_eq_dividend]) (simp add: vli_valid_unat)
  then have u: "unat ?vli = unat v mod 128 ^ pos" by (simp add: unat_of_nat)
  then have "unat (drop_bit (pos * 7) ?vli) = 0"
    by (simp add: unat_drop_bit_div power_mult [of 2 7, simplified] mult.commute [of pos])
  then have d: "drop_bit (pos * 7) ?vli = 0" using unat_eq_zero by blast
  have "vli_decode_loop False ?vli pos out' out_pos out_pos' = (ret,
      word_of_nat (unat ?vli + (?n mod 128 ^ k) * 128 ^ pos), pos + k, out_pos + k)"
    using vli_decode_loop_prefix [OF _ _ bs refl n, where vli = ?vli
        and inb = out' and in_pos = out_pos and in_size = out_pos' and single = False] k sz u len pos
    by (auto simp: res min_absorb2 put_bytes_def)
  moreover have "unat ?vli + (?n mod 128 ^ k) * 128 ^ pos = unat v mod 128 ^ pos'"
    by (simp add: u res(2) power_add mod_mult2_eq)
  ultimately show ?thesis
    using d k pos len res vli_bytes_value_bound [of "unat v"]
    by (auto simp: lzma_vli_decode_def)
qed

theorem vli_multi_call_in_step_witness:
  "lzma_vli_decode (word_of_nat (300 mod 128 ^ 1)) (Some 1) [9, 0x02] 1 2 =
      (LZMA_STREAM_END, word_of_nat (300 mod 128 ^ 2), 2, 2)"
proof -
  have "lzma_vli_encode 300 (Some 1) [9, 0] 1 2 = (LZMA_STREAM_END, 2, [9, 0x02], 2)"
    by (simp add: lzma_vli_encode_def vli_encode_loop_last)
  then show ?thesis
    using vli_multi_call_in_step [of 300 1 1 2 "[9, 0]"]
    by (simp add: vli_bytes_big vli_bytes_small)
qed

end
