(* ===== verification/Byte_Order.thy ===== *)
theory Byte_Order
  imports Lzma_Prelude
begin

unbundle bit_operations_syntax

text \<open>
  Byte order: the accessors of src/liblzma/src/common/tuklib\_integer.h as they are on
  a little-endian machine, where \<open>conv32le\<close> is the identity and \<open>conv32be\<close> swaps bytes.
\<close>

text \<open>Four bytes, read as a little-endian \<open>uint32_t\<close>.\<close>

definition le32 :: "byte \<Rightarrow> byte \<Rightarrow> byte \<Rightarrow> byte \<Rightarrow> u32" where
  "le32 b0 b1 b2 b3 =
     ucast b0 OR push_bit 8 (ucast b1) OR push_bit 16 (ucast b2) OR push_bit 24 (ucast b3)"

definition bswap32 :: "u32 \<Rightarrow> u32" where
  "bswap32 num = push_bit 24 num OR (push_bit 8 num AND 0x00FF0000)
     OR (drop_bit 8 num AND 0x0000FF00) OR drop_bit 24 num"

definition u32_view :: "byte list \<Rightarrow> nat \<Rightarrow> u32" where
  "u32_view buf i = le32 (buf ! (4 * i)) (buf ! (4 * i + 1)) (buf ! (4 * i + 2)) (buf ! (4 * i + 3))"

definition le32_bytes :: "u32 \<Rightarrow> byte list" where
  "le32_bytes w = [ucast w, ucast (drop_bit 8 w), ucast (drop_bit 16 w), ucast (drop_bit 24 w)]"

definition be64_bytes :: "u64 \<Rightarrow> byte list" where
  "be64_bytes w = [ucast (drop_bit 56 w), ucast (drop_bit 48 w), ucast (drop_bit 40 w), ucast (drop_bit 32 w),
     ucast (drop_bit 24 w), ucast (drop_bit 16 w), ucast (drop_bit 8 w), ucast w]"

definition be32_bytes :: "u32 \<Rightarrow> byte list" where
  "be32_bytes w = [ucast (drop_bit 24 w), ucast (drop_bit 16 w), ucast (drop_bit 8 w), ucast w]"

definition le64_bytes :: "u64 \<Rightarrow> byte list" where
  "le64_bytes w = [ucast w, ucast (drop_bit 8 w), ucast (drop_bit 16 w), ucast (drop_bit 24 w),
     ucast (drop_bit 32 w), ucast (drop_bit 40 w), ucast (drop_bit 48 w), ucast (drop_bit 56 w)]"

definition read32le :: "byte list \<Rightarrow> nat \<Rightarrow> u32" where
  "read32le buf i = le32 (buf ! i) (buf ! (i + 1)) (buf ! (i + 2)) (buf ! (i + 3))"

subsection \<open>Lemmas\<close>

lemma length_le32_bytes [simp]: "length (le32_bytes w) = 4"
  by (simp add: le32_bytes_def)

lemma length_le64_bytes [simp]: "length (le64_bytes w) = 8"
  by (simp add: le64_bytes_def)

lemma le32_byte:
  "ucast (le32 b0 b1 b2 b3) = b0" "ucast (drop_bit 8 (le32 b0 b1 b2 b3)) = b1"
  "ucast (drop_bit 16 (le32 b0 b1 b2 b3)) = b2" "ucast (drop_bit 24 (le32 b0 b1 b2 b3)) = b3"
  by (rule bit_word_eqI; auto simp: le32_def bit_simps dest: bit_imp_le_length)+

lemma le32_inject:
  "le32 a0 a1 a2 a3 = le32 b0 b1 b2 b3 \<longleftrightarrow> [a0, a1, a2, a3] = [b0, b1, b2, b3]"
proof
  assume "le32 a0 a1 a2 a3 = le32 b0 b1 b2 b3"
  then show "[a0, a1, a2, a3] = [b0, b1, b2, b3]"
    using le32_byte [of a0 a1 a2 a3] le32_byte [of b0 b1 b2 b3] by simp
qed simp

lemma bswap32_le32: "bswap32 (le32 a b c d) = le32 d c b a"
proof (rule bit_word_eqI)
  fix n assume "n < LENGTH(32)"
  then consider "n < 8" | "8 \<le> n" "n < 16" | "16 \<le> n" "n < 24" | "24 \<le> n" "n < 32"
    by (auto simp: not_less) linarith
  moreover have m: "(0x00FF0000 :: u32) = push_bit 16 (mask 8)" "(0x0000FF00 :: u32) = push_bit 8 (mask 8)"
    by (simp_all add: mask_eq_exp_minus_1 push_bit_eq_mult)
  ultimately show "bit (bswap32 (le32 a b c d)) n = bit (le32 d c b a) n"
    unfolding bswap32_def m
    by cases (auto simp: le32_def bit_simps dest: bit_imp_le_length)
qed

lemma le32_of_bytes:
  "le32 (ucast w) (ucast (drop_bit 8 w)) (ucast (drop_bit 16 w)) (ucast (drop_bit 24 w)) = w"
proof -
  have "w = le32 (ucast w) (ucast (drop_bit 8 w)) (ucast (drop_bit 16 w)) (ucast (drop_bit 24 w))"
  proof (rule bit_word_eqI)
    fix n assume "n < LENGTH(32)"
    then consider "n < 8" | "8 \<le> n" "n < 16" | "16 \<le> n" "n < 24" | "24 \<le> n" "n < 32"
      by (auto simp: not_less) linarith
    then show "bit w n = bit (le32 (ucast w) (ucast (drop_bit 8 w)) (ucast (drop_bit 16 w)) (ucast (drop_bit 24 w))) n"
      by cases (auto simp: le32_def bit_simps dest: bit_imp_le_length)
  qed
  then show ?thesis by (rule sym)
qed

lemma le32_bytes_bswap32: "le32_bytes (bswap32 w) = be32_bytes w"
proof -
  obtain a b c d where w: "w = le32 a b c d" by (metis le32_of_bytes)
  show ?thesis unfolding w bswap32_le32 le32_bytes_def be32_bytes_def le32_byte ..
qed

lemma le32_bytes_le32: "le32_bytes (le32 a b c d) = [a, b, c, d]"
  unfolding le32_bytes_def le32_byte ..

lemma read32le_put [simp]:
  "i + 4 \<le> length out \<Longrightarrow> read32le (put_bytes out i (le32_bytes w)) i = w"
  by (simp add: read32le_def put_bytes_def le32_bytes_def nth_append le32_of_bytes)

lemma le32_bytes_read32le:
  "i + 4 \<le> length buf \<Longrightarrow> le32_bytes (read32le buf i) = take 4 (drop i buf)"
  by (rule nth_equalityI) (auto simp: read32le_def le32_bytes_le32 nth_Cons' less_Suc_eq numeral_eq_Suc)

end
