(* ===== verification/Crc.thy ===== *)
theory Crc
  imports Byte_Order
begin

unbundle bit_operations_syntax

text \<open>
  CRC32 and CRC64: src/liblzma/src/liblzma/check/crc32\_tablegen.c,
  crc32\_small.c, crc32\_fast.c and the crc64 files. A buffer is the list of its
  \<open>size\<close> bytes; \<open>addr\<close> is the address of its first byte, on which the
  alignment loop of the fast versions depends. The checksums are 32- and 64-bit
  words, computed on a little-endian machine.

  The reference is the bitwise CRC: eight times \<open>crc_step\<close> per byte. The
  lemmas show that \<open>crc_step\<close> is linear, so that slicing by eight (by four for
  CRC64) computes the same value as the byte-wise loop for every alignment,
  and that it is injective, so that no corruption within four consecutive bytes
  goes unnoticed.
\<close>

subsection \<open>The tables\<close>

abbreviation poly32 :: u32 where "poly32 \<equiv> 0xEDB88320"
abbreviation poly64 :: u64 where "poly64 \<equiv> 0xC96C5795D7870F42"

definition crc_step :: "'a::len word \<Rightarrow> 'a word \<Rightarrow> 'a word" where
  "crc_step poly r = (if r AND 1 \<noteq> 0 then drop_bit 1 r XOR poly else drop_bit 1 r)"

definition crc32_init :: "u32 list" where
  "crc32_init = map (\<lambda>b. (crc_step poly32 ^^ 8) (word_of_nat b)) [0..<256]"

definition crc64_init :: "u64 list" where
  "crc64_init = map (\<lambda>b. (crc_step poly64 ^^ 8) (word_of_nat b)) [0..<256]"

text \<open>The loop of the table generators: row \<open>s\<close> is made from row \<open>s - 1\<close>, the
  first one from the bytes themselves.\<close>

definition crc_table_rows :: "'a::len word \<Rightarrow> nat \<Rightarrow> 'a word list list" where
  "crc_table_rows poly n =
     foldl (\<lambda>table s. table @ [map (\<lambda>b. let r = (if s = 0 then word_of_nat b else table ! (s - 1) ! b)
                                       in (crc_step poly ^^ 8) r) [0..<256]]) [] [0..<n]"

definition init_crc32_table :: "u32 list list" where
  "init_crc32_table = crc_table_rows poly32 8"

definition init_crc64_table :: "u64 list list" where
  "init_crc64_table = crc_table_rows poly64 4"

text \<open>The tables \<open>lzma_crc32_table\<close> and \<open>lzma_crc64_table\<close> of crc32\_table\_le.h and
  crc64\_table\_le.h are the printed output of the generators.\<close>

abbreviation lzma_crc32_table :: "u32 list list" where "lzma_crc32_table \<equiv> init_crc32_table"
abbreviation lzma_crc64_table :: "u64 list list" where "lzma_crc64_table \<equiv> init_crc64_table"

subsection \<open>crc\_macros.h\<close>

definition crc_A :: "'a::len word \<Rightarrow> 'a word" where "crc_A x = x AND 0xFF"
definition crc_B :: "'a::len word \<Rightarrow> 'a word" where "crc_B x = drop_bit 8 x AND 0xFF"
definition crc_C :: "'a::len word \<Rightarrow> 'a word" where "crc_C x = drop_bit 16 x AND 0xFF"
definition crc_D :: "'a::len word \<Rightarrow> 'a word" where "crc_D x = drop_bit 24 x"
definition S8 :: "'a::len word \<Rightarrow> 'a word" where "S8 x = drop_bit 8 x"
definition S32 :: "'a::len word \<Rightarrow> 'a word" where "S32 x = drop_bit 32 x"

subsection \<open>crc32\_small.c and crc64\_small.c\<close>

fun crc32_small_loop :: "u32 \<Rightarrow> byte list \<Rightarrow> u32" where
  "crc32_small_loop crc [] = crc"
| "crc32_small_loop crc (b # buf) =
     crc32_small_loop (crc32_init ! unat (ucast b XOR (crc AND 0xFF)) XOR drop_bit 8 crc) buf"

definition lzma_crc32_small :: "byte list \<Rightarrow> u32 \<Rightarrow> u32" where
  "lzma_crc32_small buf crc = NOT (crc32_small_loop (NOT crc) buf)"

fun crc64_small_loop :: "u64 \<Rightarrow> byte list \<Rightarrow> u64" where
  "crc64_small_loop crc [] = crc"
| "crc64_small_loop crc (b # buf) =
     crc64_small_loop (crc64_init ! unat (ucast b XOR (crc AND 0xFF)) XOR drop_bit 8 crc) buf"

definition lzma_crc64_small :: "byte list \<Rightarrow> u64 \<Rightarrow> u64" where
  "lzma_crc64_small buf crc = NOT (crc64_small_loop (NOT crc) buf)"

subsection \<open>crc32\_fast.c\<close>

text \<open>The loop that fixes the alignment (\<open>while (buf & 7)\<close>), the loop over eight
  bytes at a time (it runs \<open>size / 8\<close> times, that is until fewer than eight bytes are
  left) and the loop over the remaining bytes.\<close>

fun crc32_align :: "nat \<Rightarrow> u32 \<Rightarrow> byte list \<Rightarrow> u32 \<times> byte list" where
  "crc32_align addr crc [] = (crc, [])"
| "crc32_align addr crc (b # buf) =
     (if addr mod 8 \<noteq> 0
      then crc32_align (addr + 1) (lzma_crc32_table ! 0 ! unat (ucast b XOR crc_A crc) XOR S8 crc) buf
      else (crc, b # buf))"

definition crc32_slice_by_8 :: "u32 \<Rightarrow> u32 \<Rightarrow> u32 \<Rightarrow> u32" where
  "crc32_slice_by_8 crc in0 in1 =
     (let crc = crc XOR in0;
          crc = lzma_crc32_table ! 7 ! unat (crc_A crc)
            XOR lzma_crc32_table ! 6 ! unat (crc_B crc)
            XOR lzma_crc32_table ! 5 ! unat (crc_C crc)
            XOR lzma_crc32_table ! 4 ! unat (crc_D crc);
          tmp = in1
      in lzma_crc32_table ! 3 ! unat (crc_A tmp)
         XOR lzma_crc32_table ! 2 ! unat (crc_B tmp)
         XOR crc
         XOR lzma_crc32_table ! 1 ! unat (crc_C tmp)
         XOR lzma_crc32_table ! 0 ! unat (crc_D tmp))"

fun crc32_blocks :: "u32 \<Rightarrow> byte list \<Rightarrow> u32 \<times> byte list" where
  "crc32_blocks crc (b0 # b1 # b2 # b3 # b4 # b5 # b6 # b7 # buf) =
     crc32_blocks (crc32_slice_by_8 crc (le32 b0 b1 b2 b3) (le32 b4 b5 b6 b7)) buf"
| "crc32_blocks crc buf = (crc, buf)"

fun crc32_tail :: "u32 \<Rightarrow> byte list \<Rightarrow> u32" where
  "crc32_tail crc [] = crc"
| "crc32_tail crc (b # buf) =
     crc32_tail (lzma_crc32_table ! 0 ! unat (ucast b XOR crc_A crc) XOR S8 crc) buf"

definition lzma_crc32_at :: "nat \<Rightarrow> byte list \<Rightarrow> u32 \<Rightarrow> u32" where
  "lzma_crc32_at addr buf crc =
     (let crc = NOT crc;
          (crc, buf) =
            (if 8 < length buf
             then (let (crc, buf) = crc32_align addr crc buf in crc32_blocks crc buf)
             else (crc, buf))
      in NOT (crc32_tail crc buf))"

subsection \<open>crc64\_fast.c\<close>

fun crc64_align :: "nat \<Rightarrow> u64 \<Rightarrow> byte list \<Rightarrow> u64 \<times> byte list" where
  "crc64_align addr crc [] = (crc, [])"
| "crc64_align addr crc (b # buf) =
     (if addr mod 4 \<noteq> 0
      then crc64_align (addr + 1) (lzma_crc64_table ! 0 ! unat (ucast b XOR crc_A crc) XOR S8 crc) buf
      else (crc, b # buf))"

definition crc64_slice_by_4 :: "u64 \<Rightarrow> u32 \<Rightarrow> u64" where
  "crc64_slice_by_4 crc in0 =
     (let tmp = ucast crc XOR in0
      in lzma_crc64_table ! 3 ! unat (crc_A tmp)
         XOR lzma_crc64_table ! 2 ! unat (crc_B tmp)
         XOR S32 crc
         XOR lzma_crc64_table ! 1 ! unat (crc_C tmp)
         XOR lzma_crc64_table ! 0 ! unat (crc_D tmp))"

fun crc64_blocks :: "u64 \<Rightarrow> byte list \<Rightarrow> u64 \<times> byte list" where
  "crc64_blocks crc (b0 # b1 # b2 # b3 # buf) =
     crc64_blocks (crc64_slice_by_4 crc (le32 b0 b1 b2 b3)) buf"
| "crc64_blocks crc buf = (crc, buf)"

fun crc64_tail :: "u64 \<Rightarrow> byte list \<Rightarrow> u64" where
  "crc64_tail crc [] = crc"
| "crc64_tail crc (b # buf) =
     crc64_tail (lzma_crc64_table ! 0 ! unat (ucast b XOR crc_A crc) XOR S8 crc) buf"

definition lzma_crc64_at :: "nat \<Rightarrow> byte list \<Rightarrow> u64 \<Rightarrow> u64" where
  "lzma_crc64_at addr buf crc =
     (let crc = NOT crc;
          (crc, buf) =
            (if 4 < length buf
             then (let (crc, buf) = crc64_align addr crc buf in crc64_blocks crc buf)
             else (crc, buf))
      in NOT (crc64_tail crc buf))"

subsection \<open>Linearity of the bitwise step\<close>

lemma and_one_word: "(r AND 1 \<noteq> 0) \<longleftrightarrow> bit (r :: 'a::len word) 0"
  by (simp add: and_one_eq bit_0 odd_iff_mod_2_eq_one)

lemma crc_step_bit: "crc_step p r = drop_bit 1 r XOR (if bit r 0 then p else 0)"
  by (simp add: crc_step_def and_one_word)

lemma drop_bit_xor_word: "drop_bit n (a XOR b) = drop_bit n a XOR drop_bit n (b :: 'a::len word)"
  by (rule bit_word_eqI) (auto simp: bit_simps)

lemma crc_step_xor: "crc_step p (a XOR b) = crc_step p a XOR crc_step p b"
  by (auto simp: crc_step_bit bit_xor_iff drop_bit_xor_word xor.assoc xor.left_commute)

lemma crc_steps_xor: "(crc_step p ^^ n) (a XOR b) = (crc_step p ^^ n) a XOR (crc_step p ^^ n) b"
  by (induction n) (simp_all add: crc_step_xor)

lemma crc_steps_drop: "take_bit n x = 0 \<Longrightarrow> (crc_step p ^^ n) x = drop_bit n x"
proof (induction n)
  case (Suc n)
  have low: "\<not> bit x k" if "k \<le> n" for k
    using Suc.prems that by (metis bit_take_bit_iff bit_0_eq bot_apply less_Suc_eq_le bot_bool_def)
  then have "take_bit n x = 0" by (intro bit_word_eqI) (auto simp: bit_simps)
  with Suc.IH have "(crc_step p ^^ Suc n) x = crc_step p (drop_bit n x)" by simp
  also have "\<dots> = drop_bit 1 (drop_bit n x)"
    using low [of n] by (simp add: crc_step_bit bit_drop_bit_eq)
  finally show ?case by (simp add: drop_bit_drop_bit)
qed simp

lemma crc_steps_push:
  fixes b :: byte
  assumes "n + 8 \<le> LENGTH('a::len)"
  shows "(crc_step p ^^ n) (push_bit n (ucast b)) = (ucast b :: 'a word)"
proof -
  have "take_bit n (push_bit n (ucast b :: 'a word)) = 0"
    by (rule bit_word_eqI) (auto simp: bit_simps)
  moreover have "drop_bit n (push_bit n (ucast b :: 'a word)) = ucast b"
    using assms by (intro bit_word_eqI) (auto simp: bit_simps dest: bit_imp_le_length)
  ultimately show ?thesis by (simp add: crc_steps_drop)
qed

lemma crc_steps_add: "(crc_step p ^^ m) ((crc_step p ^^ n) x) = (crc_step p ^^ (m + n)) x"
  by (simp add: funpow_add)

subsection \<open>The reference checksum\<close>

definition crc_byte :: "'a::len word \<Rightarrow> 'a word \<Rightarrow> byte \<Rightarrow> 'a word" where
  "crc_byte p crc b = (crc_step p ^^ 8) (crc XOR ucast b)"

definition crc_bytes :: "'a::len word \<Rightarrow> 'a word \<Rightarrow> byte list \<Rightarrow> 'a word" where
  "crc_bytes p crc buf = foldl (crc_byte p) crc buf"

lemma crc_bytes_Nil [simp]: "crc_bytes p crc [] = crc"
  by (simp add: crc_bytes_def)

lemma crc_bytes_Cons [simp]: "crc_bytes p crc (b # buf) = crc_bytes p (crc_byte p crc b) buf"
  by (simp add: crc_bytes_def)

lemma crc_bytes_append: "crc_bytes p crc (xs @ ys) = crc_bytes p (crc_bytes p crc xs) ys"
  by (simp add: crc_bytes_def)

subsection \<open>Table lookups compute powers of the step\<close>

lemma crc_table_rows_Suc:
  "crc_table_rows p (Suc n) = crc_table_rows p n @
     [map (\<lambda>b. let r = (if n = 0 then word_of_nat b else crc_table_rows p n ! (n - 1) ! b)
            in (crc_step p ^^ 8) r) [0..<256]]"
  by (simp add: crc_table_rows_def)

lemma length_crc_table_rows [simp]: "length (crc_table_rows p n) = n"
  by (induction n) (simp_all add: crc_table_rows_Suc, simp add: crc_table_rows_def)

lemma crc_table_rows_nth:
  "s < n \<Longrightarrow> b < 256 \<Longrightarrow> crc_table_rows p n ! s ! b = (crc_step p ^^ (8 * Suc s)) (word_of_nat b)"
proof (induction n arbitrary: s)
  case (Suc n)
  show ?case
  proof (cases "s = n")
    case True
    show ?thesis
    proof (cases n)
      case 0
      with True Suc.prems show ?thesis by (simp add: crc_table_rows_Suc nth_append)
    next
      case (Suc m)
      then have "crc_table_rows p n ! m ! b = (crc_step p ^^ (8 * Suc m)) (word_of_nat b)"
        using Suc.IH \<open>b < 256\<close> by simp
      with True Suc Suc.prems show ?thesis
        by (simp add: crc_table_rows_Suc [of p "Suc m"] nth_append crc_steps_add)
    qed
  next
    case False
    with Suc show ?thesis by (simp add: crc_table_rows_Suc nth_append)
  qed
qed simp

lemma crc_init_nth:
  "b < 256 \<Longrightarrow> crc32_init ! b = (crc_step poly32 ^^ 8) (word_of_nat b)"
  "b < 256 \<Longrightarrow> crc64_init ! b = (crc_step poly64 ^^ 8) (word_of_nat b)"
  by (simp_all add: crc32_init_def crc64_init_def)

lemma mask_8_word: "8 \<le> LENGTH('a::len) \<Longrightarrow> (0xFF :: 'a word) = mask 8"
  by (simp add: mask_eq_exp_minus_1)

lemma bit_FF_word: "8 \<le> LENGTH('a::len) \<Longrightarrow> bit (0xFF :: 'a word) n \<longleftrightarrow> n < 8"
  by (auto simp: mask_8_word bit_mask_iff simp del: bit_numeral_word_iff)

lemma unat_crc_index:
  fixes w :: u32
  shows "unat (crc_A w) < 256" "unat (crc_B w) < 256" "unat (crc_C w) < 256" "unat (crc_D w) < 256"
proof -
  have "unat (x AND 0xFF) < 256" for x :: u32
    using unat_take_bit_mod [of 8 x] by (simp add: take_bit_eq_mask mask_eq_exp_minus_1)
  then show "unat (crc_A w) < 256" "unat (crc_B w) < 256" "unat (crc_C w) < 256"
    by (simp_all only: crc_A_def crc_B_def crc_C_def)
  have "unat w < 2 ^ 32" by (rule less_le_trans [OF unsigned_less]) simp
  then show "unat (crc_D w) < 256"
    using unat_drop_bit_div [of 24 w] by (simp add: crc_D_def div_less_iff_less_mult)
qed

lemma unat_xor_index:
  "8 \<le> LENGTH('a::len) \<Longrightarrow> unat (ucast (b :: byte) XOR ((crc :: 'a word) AND 0xFF)) < 256"
proof -
  assume l: "8 \<le> LENGTH('a)"
  have "take_bit 8 (ucast b XOR (crc AND 0xFF)) = ucast b XOR (crc AND 0xFF)"
    by (rule bit_word_eqI)
      (auto simp: bit_simps bit_FF_word [OF l] simp del: bit_numeral_word_iff dest: bit_imp_le_length)
  then show ?thesis
    using unat_take_bit_mod [of 8 "ucast b XOR (crc AND 0xFF)"] by simp
qed

lemma crc_steps_shift:
  fixes x :: "'a::len word"
  assumes "drop_bit n (push_bit n x) = x"
  shows "(crc_step p ^^ (m + n)) (push_bit n x) = (crc_step p ^^ m) x"
proof -
  have "take_bit n (push_bit n x) = 0" by (rule bit_word_eqI) (auto simp: bit_simps)
  then have "(crc_step p ^^ n) (push_bit n x) = x" using assms by (simp add: crc_steps_drop)
  then show ?thesis by (simp flip: crc_steps_add)
qed

lemma drop_push_byte:
  "n + 8 \<le> LENGTH('a::len) \<Longrightarrow> unat (w :: u32) < 256 \<Longrightarrow>
   drop_bit n (push_bit n (ucast w :: 'a word)) = ucast w"
proof -
  assume n: "n + 8 \<le> LENGTH('a)" and w: "unat w < 256"
  have "take_bit 8 w = w" using w by (simp add: word_unat_eq_iff unat_take_bit_mod)
  then have hi: "k < 8" if "bit w k" for k
    using that by (metis bit_take_bit_iff)
  show ?thesis
    using n hi by (intro bit_word_eqI) (auto simp: bit_simps dest: hi)
qed

lemma split_u32:
  assumes "32 \<le> LENGTH('a::len)"
  shows "(ucast (w :: u32) :: 'a word) = ucast (crc_A w) XOR push_bit 8 (ucast (crc_B w))
    XOR push_bit 16 (ucast (crc_C w)) XOR push_bit 24 (ucast (crc_D w))"
proof (rule bit_word_eqI)
  fix n assume n: "n < LENGTH('a)"
  consider "n < 8" | "8 \<le> n" "n < 16" | "16 \<le> n" "n < 24" | "24 \<le> n" "n < 32" | "32 \<le> n"
    by linarith
  then show "bit (ucast w :: 'a word) n = bit (ucast (crc_A w) XOR push_bit 8 (ucast (crc_B w))
    XOR push_bit 16 (ucast (crc_C w)) XOR push_bit 24 (ucast (crc_D w)) :: 'a word) n"
    using n assms
    by cases (auto simp: crc_A_def crc_B_def crc_C_def crc_D_def bit_simps bit_FF_word
        simp del: bit_numeral_word_iff dest: bit_imp_le_length)
qed

lemma crc_four_lookups:
  fixes p :: "'a::len word" and w :: u32
  assumes "32 \<le> LENGTH('a)"
  shows "(crc_step p ^^ (m + 32)) (ucast w) =
    (crc_step p ^^ (m + 32)) (ucast (crc_A w)) XOR (crc_step p ^^ (m + 24)) (ucast (crc_B w))
    XOR (crc_step p ^^ (m + 16)) (ucast (crc_C w)) XOR (crc_step p ^^ (m + 8)) (ucast (crc_D w))"
proof -
  have sh: "(crc_step p ^^ (m + 32)) (push_bit n (ucast x)) = (crc_step p ^^ (m + (32 - n))) (ucast x)"
    if "n \<le> 24" "unat x < 256" for n and x :: u32
    using crc_steps_shift [where n = n and x = "ucast x" and p = p and m = "m + (32 - n)"] drop_push_byte [of n, where 'a = 'a] that assms
    by simp
  show ?thesis
    by (simp add: split_u32 [OF assms, of w] crc_steps_xor sh unat_crc_index)
qed

lemma crc_byte_lookup:
  fixes crc :: "'a::len word"
  assumes "8 \<le> LENGTH('a)"
  shows "(crc_step p ^^ 8) (ucast b XOR (crc AND 0xFF)) XOR drop_bit 8 crc = crc_byte p crc b"
proof -
  let ?hi = "push_bit 8 (drop_bit 8 crc)"
  note ff = bit_FF_word [OF assms]
  have crc: "crc = (crc AND 0xFF) XOR ?hi"
    by (rule bit_word_eqI)
      (auto simp: bit_simps ff simp del: bit_numeral_word_iff dest: bit_imp_le_length)
  have "take_bit 8 ?hi = 0"
    by (rule bit_word_eqI) (auto simp: bit_simps ff simp del: bit_numeral_word_iff dest: bit_imp_le_length)
  moreover have "drop_bit 8 ?hi = drop_bit 8 crc"
    by (rule bit_word_eqI) (auto simp: bit_simps ff simp del: bit_numeral_word_iff dest: bit_imp_le_length)
  ultimately have hi: "(crc_step p ^^ 8) ?hi = drop_bit 8 crc" by (simp add: crc_steps_drop)
  have "crc_byte p crc b = (crc_step p ^^ 8) ((ucast b XOR (crc AND 0xFF)) XOR ?hi)"
    unfolding crc_byte_def by (subst crc) (simp add: ac_simps)
  also have "\<dots> = (crc_step p ^^ 8) (ucast b XOR (crc AND 0xFF)) XOR (crc_step p ^^ 8) ?hi"
    by (rule crc_steps_xor)
  finally show ?thesis by (simp add: hi)
qed

subsection \<open>All implementations agree with the reference\<close>

lemma crc32_small_loop_eq: "crc32_small_loop crc buf = crc_bytes poly32 crc buf"
proof (induction crc buf rule: crc32_small_loop.induct)
  case (2 crc b buf)
  have "unat (ucast b XOR (crc AND 0xFF)) < 256" by (rule unat_xor_index) simp
  then show ?case using 2 crc_byte_lookup [of poly32 b crc] by (simp add: crc_init_nth)
qed simp

lemma crc64_small_loop_eq: "crc64_small_loop crc buf = crc_bytes poly64 crc buf"
proof (induction crc buf rule: crc64_small_loop.induct)
  case (2 crc b buf)
  have "unat (ucast b XOR (crc AND 0xFF)) < 256" by (rule unat_xor_index) simp
  then show ?case using 2 crc_byte_lookup [of poly64 b crc] by (simp add: crc_init_nth)
qed simp

lemma crc32_table_lookup:
  "s < 8 \<Longrightarrow> unat (w :: u32) < 256 \<Longrightarrow> lzma_crc32_table ! s ! unat w = (crc_step poly32 ^^ (8 * Suc s)) w"
  by (simp add: init_crc32_table_def crc_table_rows_nth)

lemma crc64_table_lookup:
  "s < 4 \<Longrightarrow> unat (w :: 'a::len word) < 256 \<Longrightarrow>
   lzma_crc64_table ! s ! unat w = (crc_step poly64 ^^ (8 * Suc s)) (ucast w)"
  by (simp add: init_crc64_table_def crc_table_rows_nth)

lemma crc32_byte_fast:
  "lzma_crc32_table ! 0 ! unat (ucast b XOR crc_A crc) XOR S8 crc = crc_byte poly32 crc b"
  using crc_byte_lookup [of poly32 b crc] unat_xor_index [of b crc]
  by (simp add: crc32_table_lookup crc_A_def S8_def)

lemma crc64_byte_fast:
  "lzma_crc64_table ! 0 ! unat (ucast b XOR crc_A crc) XOR S8 crc = crc_byte poly64 crc b"
  using crc_byte_lookup [of poly64 b crc] unat_xor_index [of b crc]
  by (simp add: crc64_table_lookup crc_A_def S8_def)

lemma crc_bytes_4:
  fixes crc :: "'a::len word"
  assumes "32 \<le> LENGTH('a)"
  shows "crc_bytes p crc [b0, b1, b2, b3] = (crc_step p ^^ 32) (crc XOR ucast (le32 b0 b1 b2 b3))"
proof -
  have push: "(ucast b :: 'a word) = (crc_step p ^^ n) (push_bit n (ucast b))" if "n \<le> 24" for n and b :: byte
    using crc_steps_push [of n p b] that assms by simp
  have le: "(ucast (le32 b0 b1 b2 b3) :: 'a word) =
      ucast b0 XOR push_bit 8 (ucast b1) XOR push_bit 16 (ucast b2) XOR push_bit 24 (ucast b3)"
  proof (rule bit_word_eqI)
    fix n assume n: "n < LENGTH('a)"
    consider "n < 8" | "8 \<le> n" "n < 16" | "16 \<le> n" "n < 24" | "24 \<le> n" "n < 32" | "32 \<le> n"
      by linarith
    then show "bit (ucast (le32 b0 b1 b2 b3) :: 'a word) n =
        bit (ucast b0 XOR push_bit 8 (ucast b1) XOR push_bit 16 (ucast b2) XOR push_bit 24 (ucast b3) :: 'a word) n"
      using n assms by cases (auto simp: le32_def bit_simps dest: bit_imp_le_length)
  qed
  have "crc_bytes p crc [b0, b1, b2, b3] =
    (crc_step p ^^ 8) ((crc_step p ^^ 8) ((crc_step p ^^ 8) ((crc_step p ^^ 8)
      (crc XOR ucast b0) XOR (crc_step p ^^ 8) (push_bit 8 (ucast b1)))
      XOR (crc_step p ^^ 16) (push_bit 16 (ucast b2))) XOR (crc_step p ^^ 24) (push_bit 24 (ucast b3)))"
    by (simp add: crc_byte_def flip: push)
  then show ?thesis by (simp add: crc_steps_xor crc_steps_add le ac_simps)
qed

lemma crc32_slice_by_8_eq:
  "crc32_slice_by_8 crc (le32 b0 b1 b2 b3) (le32 b4 b5 b6 b7) = crc_bytes poly32 crc [b0, b1, b2, b3, b4, b5, b6, b7]"
proof -
  let ?i0 = "le32 b0 b1 b2 b3" and ?i1 = "le32 b4 b5 b6 b7"
  have four: "crc_bytes poly32 c [a0, a1, a2, a3] = (crc_step poly32 ^^ 32) (c XOR le32 a0 a1 a2 a3)"
    for c a0 a1 a2 a3 using crc_bytes_4 [of poly32 c a0 a1 a2 a3] by simp
  have "crc_bytes poly32 crc [b0, b1, b2, b3, b4, b5, b6, b7] =
      (crc_step poly32 ^^ 32) ((crc_step poly32 ^^ 32) (crc XOR ?i0) XOR ?i1)"
    using crc_bytes_append [of poly32 crc "[b0, b1, b2, b3]" "[b4, b5, b6, b7]"]
    by (simp only: four append_Cons append_Nil)
  also have "\<dots> = (crc_step poly32 ^^ (32 + 32)) (crc XOR ?i0) XOR (crc_step poly32 ^^ (0 + 32)) ?i1"
    by (simp only: crc_steps_xor crc_steps_add) simp
  also have "\<dots> = crc32_slice_by_8 crc ?i0 ?i1"
    using crc_four_lookups [of 32 poly32 "crc XOR ?i0"] crc_four_lookups [of 0 poly32 ?i1]
    by (simp add: crc32_slice_by_8_def Let_def crc32_table_lookup unat_crc_index ac_simps)
  finally show ?thesis by simp
qed

lemma crc64_slice_by_4_eq:
  "crc64_slice_by_4 crc (le32 b0 b1 b2 b3) = crc_bytes poly64 crc [b0, b1, b2, b3]"
proof -
  let ?i = "le32 b0 b1 b2 b3" and ?hi = "push_bit 32 (drop_bit 32 crc)"
  have split: "crc XOR ucast ?i = ucast (ucast crc XOR ?i :: u32) XOR ?hi"
    by (rule bit_word_eqI) (auto simp: bit_simps dest: bit_imp_le_length)
  have "take_bit 32 ?hi = 0" "drop_bit 32 ?hi = drop_bit 32 crc"
    by (rule bit_word_eqI; auto simp: bit_simps dest: bit_imp_le_length)+
  then have hi: "(crc_step poly64 ^^ 32) ?hi = S32 crc" by (simp add: crc_steps_drop S32_def)
  have "crc_bytes poly64 crc [b0, b1, b2, b3] = (crc_step poly64 ^^ 32) (crc XOR ucast ?i)"
    by (rule crc_bytes_4) simp
  also have "\<dots> = (crc_step poly64 ^^ (0 + 32)) (ucast (ucast crc XOR ?i :: u32)) XOR S32 crc"
    by (simp only: split crc_steps_xor hi) simp
  also have "\<dots> = crc64_slice_by_4 crc ?i"
    using crc_four_lookups [of 0 poly64 "ucast crc XOR ?i"]
    by (simp add: crc64_slice_by_4_def Let_def crc64_table_lookup unat_crc_index ac_simps)
  finally show ?thesis by simp
qed

lemma crc32_align_eq:
  "crc32_align addr crc buf = (crc', buf') \<Longrightarrow> crc_bytes poly32 crc' buf' = crc_bytes poly32 crc buf"
  by (induction addr crc buf rule: crc32_align.induct)
    (auto simp: crc32_byte_fast split: if_splits)

lemma crc32_blocks_eq:
  "crc32_blocks crc buf = (crc', buf') \<Longrightarrow> crc_bytes poly32 crc' buf' = crc_bytes poly32 crc buf"
  by (induction crc buf rule: crc32_blocks.induct) (auto simp: crc32_slice_by_8_eq)

lemma crc32_tail_eq: "crc32_tail crc buf = crc_bytes poly32 crc buf"
  by (induction crc buf rule: crc32_tail.induct) (simp_all add: crc32_byte_fast)

lemma crc64_align_eq:
  "crc64_align addr crc buf = (crc', buf') \<Longrightarrow> crc_bytes poly64 crc' buf' = crc_bytes poly64 crc buf"
  by (induction addr crc buf rule: crc64_align.induct)
    (auto simp: crc64_byte_fast split: if_splits)

lemma crc64_blocks_eq:
  "crc64_blocks crc buf = (crc', buf') \<Longrightarrow> crc_bytes poly64 crc' buf' = crc_bytes poly64 crc buf"
  by (induction crc buf rule: crc64_blocks.induct) (auto simp: crc64_slice_by_4_eq)

lemma crc64_tail_eq: "crc64_tail crc buf = crc_bytes poly64 crc buf"
  by (induction crc buf rule: crc64_tail.induct) (simp_all add: crc64_byte_fast)

lemma lzma_crc32_at_ref: "lzma_crc32_at addr buf crc = NOT (crc_bytes poly32 (NOT crc) buf)"
  by (auto simp: lzma_crc32_at_def Let_def crc32_tail_eq dest!: crc32_blocks_eq crc32_align_eq
      split: prod.splits if_splits)

lemma lzma_crc64_at_ref: "lzma_crc64_at addr buf crc = NOT (crc_bytes poly64 (NOT crc) buf)"
  by (auto simp: lzma_crc64_at_def Let_def crc64_tail_eq dest!: crc64_blocks_eq crc64_align_eq
      split: prod.splits if_splits)

text \<open>C10. The slicing-by-eight CRC32 computes the same value as the byte-wise
  table-driven one, for every buffer, length, starting value and alignment of the
  buffer in memory.\<close>

theorem crc32_fast_eq_small: "lzma_crc32_at addr buf crc = lzma_crc32_small buf crc"
  by (simp add: lzma_crc32_at_ref lzma_crc32_small_def crc32_small_loop_eq)

text \<open>C11. The slicing-by-four CRC64 computes the same value as the byte-wise one.\<close>

theorem crc64_fast_eq_small: "lzma_crc64_at addr buf crc = lzma_crc64_small buf crc"
  by (simp add: lzma_crc64_at_ref lzma_crc64_small_def crc64_small_loop_eq)

text \<open>The callers do not control the address of the buffers they hand over; by the
  theorems above it does not matter.\<close>

definition lzma_crc32 :: "byte list \<Rightarrow> u32 \<Rightarrow> u32" where
  "lzma_crc32 buf crc = lzma_crc32_at 0 buf crc"

definition lzma_crc64 :: "byte list \<Rightarrow> u64 \<Rightarrow> u64" where
  "lzma_crc64 buf crc = lzma_crc64_at 0 buf crc"

lemma lzma_crc32_ref: "lzma_crc32 buf crc = NOT (crc_bytes poly32 (NOT crc) buf)"
  by (simp add: lzma_crc32_def lzma_crc32_at_ref)

lemma lzma_crc64_ref: "lzma_crc64 buf crc = NOT (crc_bytes poly64 (NOT crc) buf)"
  by (simp add: lzma_crc64_def lzma_crc64_at_ref)

lemma lzma_crc32_append: "lzma_crc32 (xs @ ys) crc = lzma_crc32 ys (lzma_crc32 xs crc)"
  by (simp add: lzma_crc32_ref crc_bytes_append)

lemma lzma_crc64_append: "lzma_crc64 (xs @ ys) crc = lzma_crc64 ys (lzma_crc64 xs crc)"
  by (simp add: lzma_crc64_ref crc_bytes_append)

subsection \<open>Error detection\<close>

lemma crc_step_inj:
  fixes p :: "'a::len word"
  assumes "bit p (LENGTH('a) - 1)"
  shows "crc_step p r = crc_step p r' \<longleftrightarrow> r = r'"
proof
  let ?m = "LENGTH('a) - 1"
  assume eq: "crc_step p r = crc_step p r'"
  have top: "bit (crc_step p x) ?m \<longleftrightarrow> bit x 0" for x
    using assms by (auto simp: crc_step_bit bit_simps dest: bit_imp_le_length)
  have b0: "bit r 0 \<longleftrightarrow> bit r' 0" using eq top by metis
  have "drop_bit 1 r = drop_bit 1 r'"
  proof (rule bit_word_eqI)
    fix n
    have "bit (crc_step p r) n = bit (crc_step p r') n" using eq by simp
    then show "bit (drop_bit 1 r) n = bit (drop_bit 1 r') n"
      using b0 by (auto simp: crc_step_bit bit_xor_iff split: if_splits)
  qed
  then have "bit r (Suc n) = bit r' (Suc n)" for n
    by (metis bit_drop_bit_eq comp_apply plus_1_eq_Suc)
  then have "bit r n = bit r' n" for n using b0 by (cases n) auto
  then show "r = r'" by (simp add: bit_word_eqI)
qed simp

lemma crc_steps_inj:
  fixes p :: "'a::len word"
  assumes "bit p (LENGTH('a) - 1)"
  shows "(crc_step p ^^ n) r = (crc_step p ^^ n) r' \<longleftrightarrow> r = r'"
  by (induction n) (simp_all add: crc_step_inj [OF assms])

lemma xor_right_cancel: "a XOR c = b XOR c \<longleftrightarrow> a = (b :: 'a::len word)"
  by (metis xor.assoc xor_self_eq xor.right_neutral)

lemma xor_left_cancel: "c XOR a = c XOR b \<longleftrightarrow> a = (b :: 'a::len word)"
  by (simp add: xor.commute [of c] xor_right_cancel)

lemma crc_bytes_inj:
  fixes p :: "'a::len word"
  assumes "bit p (LENGTH('a) - 1)"
  shows "crc_bytes p r buf = crc_bytes p r' buf \<longleftrightarrow> r = r'"
  by (induction buf arbitrary: r r') (simp_all add: crc_byte_def crc_steps_inj [OF assms] xor_right_cancel)

lemma bit_poly32: "bit poly32 (LENGTH(32) - 1)" and bit_poly64: "bit poly64 (LENGTH(64) - 1)"
  by simp_all

lemma crc_detects_burst:
  fixes p :: "'a::len word"
  assumes "bit p (LENGTH('a) - 1)" and "32 \<le> LENGTH('a)"
    and "[a0, a1, a2, a3] \<noteq> [b0, b1, b2, b3]"
  shows "crc_bytes p crc (xs @ [a0, a1, a2, a3] @ ys) \<noteq> crc_bytes p crc (xs @ [b0, b1, b2, b3] @ ys)"
proof -
  have "inj (ucast :: u32 \<Rightarrow> 'a word)"
  proof (rule injI)
    fix x y :: u32
    assume "(ucast x :: 'a word) = ucast y"
    then have "unat (ucast x :: 'a word) = unat (ucast y :: 'a word)" by simp
    then show "x = y" using assms(2) by (simp add: unat_ucast_up word_unat_eq_iff)
  qed
  then have "(ucast (le32 a0 a1 a2 a3) :: 'a word) \<noteq> ucast (le32 b0 b1 b2 b3)"
    using assms(3) le32_inject by (simp add: inj_eq)
  then show ?thesis
    by (simp only: crc_bytes_append crc_bytes_inj [OF assms(1)] crc_bytes_4 [OF assms(2)]
        crc_steps_inj [OF assms(1)] xor_left_cancel) simp
qed

text \<open>C12. Both checksums detect every corruption that is confined to four consecutive
  bytes of the data, wherever it is and whatever surrounds it.\<close>

theorem crc_detects_four_byte_corruption:
  assumes "[a0, a1, a2, a3] \<noteq> [b0, b1, b2, b3]"
  shows "lzma_crc32 (xs @ [a0, a1, a2, a3] @ ys) crc \<noteq> lzma_crc32 (xs @ [b0, b1, b2, b3] @ ys) crc
    \<and> lzma_crc64 (xs @ [a0, a1, a2, a3] @ ys) crc' \<noteq> lzma_crc64 (xs @ [b0, b1, b2, b3] @ ys) crc'"
proof
  show "lzma_crc32 (xs @ [a0, a1, a2, a3] @ ys) crc \<noteq> lzma_crc32 (xs @ [b0, b1, b2, b3] @ ys) crc"
    using crc_detects_burst [OF bit_poly32 _ assms, of "NOT crc" xs ys] by (simp add: lzma_crc32_ref)
  show "lzma_crc64 (xs @ [a0, a1, a2, a3] @ ys) crc' \<noteq> lzma_crc64 (xs @ [b0, b1, b2, b3] @ ys) crc'"
    using crc_detects_burst [OF bit_poly64 _ assms, of "NOT crc'" xs ys] by (simp add: lzma_crc64_ref)
qed

theorem crc_detects_four_byte_corruption_witness:
  "lzma_crc32 ([7] @ [1, 2, 3, 4] @ [9]) 0 \<noteq> lzma_crc32 ([7] @ [1, 2, 3, 5] @ [9]) 0
    \<and> lzma_crc64 ([7] @ [1, 2, 3, 4] @ [9]) 0 \<noteq> lzma_crc64 ([7] @ [1, 2, 3, 5] @ [9]) 0"
  by (rule crc_detects_four_byte_corruption) simp

end
