(* ===== verification/Sha256.thy ===== *)
theory Sha256
  imports Crc
begin

unbundle bit_operations_syntax

text \<open>
  SHA-256: src/liblzma/src/liblzma/check/sha256.c, and the state shared by all
  integrity checks (\<open>lzma_check_state\<close> of check.h). The union of check-specific
  states is kept as separate fields: the code only reads the member that the
  check type selects. The 64-byte buffer union is a list of bytes; its
  \<open>u32\<close> and \<open>u64\<close> views are read and written through the little-endian accessors.

  The reference is the compression function, the padding and the digest of FIPS
  180-4; the lemmas show that \<open>transform\<close>, with its rotating working array and its
  circular message schedule, is that compression function, and that init, update in
  any chunks and finish compute the standard digest.
\<close>

record lzma_check_state =
  buffer :: "byte list"
  crc32_state :: u32
  crc64_state :: u64
  sha256_state :: "u32 list"
  sha256_size :: u64

subsection \<open>sha256.c: the compression function\<close>

definition rotr_32 :: "u32 \<Rightarrow> nat \<Rightarrow> u32" where
  "rotr_32 num amount = drop_bit amount num OR push_bit (32 - amount) num"

definition Ch :: "u32 \<Rightarrow> u32 \<Rightarrow> u32 \<Rightarrow> u32" where "Ch x y z = z XOR (x AND (y XOR z))"
definition Maj :: "u32 \<Rightarrow> u32 \<Rightarrow> u32 \<Rightarrow> u32" where "Maj x y z = (x AND (y XOR z)) + (y AND z)"

definition sha_S0 :: "u32 \<Rightarrow> u32" where
  "sha_S0 x = rotr_32 (x XOR rotr_32 (x XOR rotr_32 x 9) 11) 2"
definition sha_S1 :: "u32 \<Rightarrow> u32" where
  "sha_S1 x = rotr_32 (x XOR rotr_32 (x XOR rotr_32 x 14) 5) 6"
definition sha_s0 :: "u32 \<Rightarrow> u32" where
  "sha_s0 x = rotr_32 (x XOR rotr_32 x 11) 7 XOR drop_bit 3 x"
definition sha_s1 :: "u32 \<Rightarrow> u32" where
  "sha_s1 x = rotr_32 (x XOR rotr_32 x 2) 17 XOR drop_bit 10 x"

definition SHA256_K :: "u32 list" where
  "SHA256_K = [
     0x428A2F98, 0x71374491, 0xB5C0FBCF, 0xE9B5DBA5,
     0x3956C25B, 0x59F111F1, 0x923F82A4, 0xAB1C5ED5,
     0xD807AA98, 0x12835B01, 0x243185BE, 0x550C7DC3,
     0x72BE5D74, 0x80DEB1FE, 0x9BDC06A7, 0xC19BF174,
     0xE49B69C1, 0xEFBE4786, 0x0FC19DC6, 0x240CA1CC,
     0x2DE92C6F, 0x4A7484AA, 0x5CB0A9DC, 0x76F988DA,
     0x983E5152, 0xA831C66D, 0xB00327C8, 0xBF597FC7,
     0xC6E00BF3, 0xD5A79147, 0x06CA6351, 0x14292967,
     0x27B70A85, 0x2E1B2138, 0x4D2C6DFC, 0x53380D13,
     0x650A7354, 0x766A0ABB, 0x81C2C92E, 0x92722C85,
     0xA2BFE8A1, 0xA81A664B, 0xC24B8B70, 0xC76C51A3,
     0xD192E819, 0xD6990624, 0xF40E3585, 0x106AA070,
     0x19A4C116, 0x1E376C08, 0x2748774C, 0x34B0BCB5,
     0x391C0CB3, 0x4ED8AA4A, 0x5B9CCA4F, 0x682E6FF3,
     0x748F82EE, 0x78A5636F, 0x84C87814, 0x8CC70208,
     0x90BEFFFA, 0xA4506CEB, 0xBEF9A3F7, 0xC67178F2]"

text \<open>The working variables \<open>a(i)\<close> to \<open>h(i)\<close> are the slots \<open>(n - i) & 7\<close> of \<open>T\<close>.\<close>

definition T_slot :: "nat \<Rightarrow> nat \<Rightarrow> nat" where
  "T_slot n i = nat ((int n - int i) mod 8)"

definition sha_R :: "u32 list \<Rightarrow> nat \<Rightarrow> nat \<Rightarrow> u32 \<Rightarrow> u32 list" where
  "sha_R T i j blk =
     (let a = T_slot 0 i; b = T_slot 1 i; c = T_slot 2 i; d = T_slot 3 i;
          e = T_slot 4 i; f = T_slot 5 i; g = T_slot 6 i; h = T_slot 7 i;
          T = T[h := T ! h + (sha_S1 (T ! e) + Ch (T ! e) (T ! f) (T ! g) + SHA256_K ! (i + j) + blk)];
          T = T[d := T ! d + T ! h]
      in T[h := T ! h + (sha_S0 (T ! a) + Maj (T ! a) (T ! b) (T ! c))])"

definition blk0 :: "u32 list \<Rightarrow> nat \<Rightarrow> u32 list \<Rightarrow> u32 list" where
  "blk0 data i W = W[i := bswap32 (data ! i)]"

definition W_slot :: "nat \<Rightarrow> nat \<Rightarrow> nat" where
  "W_slot i k = nat ((int i - int k) mod 16)"

definition blk2 :: "nat \<Rightarrow> u32 list \<Rightarrow> u32 list" where
  "blk2 i W = W[W_slot i 0 := W ! W_slot i 0
     + (sha_s1 (W ! W_slot i 2) + W ! W_slot i 7 + sha_s0 (W ! W_slot i 15))]"

definition sha_R0 :: "u32 list \<Rightarrow> nat \<Rightarrow> u32 list \<times> u32 list \<Rightarrow> u32 list \<times> u32 list" where
  "sha_R0 data i TW = (case TW of (T, W) \<Rightarrow>
     let W = blk0 data i W in (sha_R T i 0 (W ! i), W))"

definition sha_R2 :: "nat \<Rightarrow> nat \<Rightarrow> u32 list \<times> u32 list \<Rightarrow> u32 list \<times> u32 list" where
  "sha_R2 j i TW = (case TW of (T, W) \<Rightarrow>
     let W = blk2 i W in (sha_R T i j (W ! W_slot i 0), W))"

text \<open>The message schedule \<open>W\<close> is an uninitialised local array in the code; its first
  sixteen words are written before they are read, so its initial contents play no part.\<close>

definition transform :: "u32 list \<Rightarrow> u32 list \<Rightarrow> u32 list" where
  "transform state data =
     (let TW = (state, replicate 16 0);
          TW = fold (sha_R0 data) [0..<16] TW;
          TW = fold (\<lambda>j. fold (sha_R2 j) [0..<16]) [16, 32, 48] TW;
          T = fst TW
      in map (\<lambda>n. state ! n + T ! T_slot n 0) [0..<8])"

definition process :: "lzma_check_state \<Rightarrow> lzma_check_state" where
  "process check = check\<lparr>sha256_state :=
     transform (sha256_state check) (map (u32_view (buffer check)) [0..<16])\<rparr>"

subsection \<open>sha256.c: init, update, finish\<close>

definition lzma_sha256_init :: "lzma_check_state \<Rightarrow> lzma_check_state" where
  "lzma_sha256_init check = check\<lparr>
     sha256_state := [0x6A09E667, 0xBB67AE85, 0x3C6EF372, 0xA54FF53A,
                      0x510E527F, 0x9B05688C, 0x1F83D9AB, 0x5BE0CD19],
     sha256_size := 0\<rparr>"

lemma unat_and_3F: "unat ((w :: u64) AND 0x3F) = unat w mod 64"
  using unat_take_bit_mod [of 6 w] by (simp add: take_bit_eq_mask mask_eq_exp_minus_1)

function lzma_sha256_update :: "byte list \<Rightarrow> lzma_check_state \<Rightarrow> lzma_check_state" where
  "lzma_sha256_update buf check =
     (if buf = [] then check
      else let copy_start = unat (sha256_size check AND 0x3F);
               copy_size = min (64 - copy_start) (length buf);
               check = check\<lparr>buffer := put_bytes (buffer check) copy_start (take copy_size buf),
                             sha256_size := sha256_size check + word_of_nat copy_size\<rparr>;
               check = (if sha256_size check AND 0x3F = 0 then process check else check)
           in lzma_sha256_update (drop copy_size buf) check)"
  by pat_completeness auto
termination
  by (relation "measure (\<lambda>(buf, check). length buf)") (auto simp: unat_and_3F not_le)

declare lzma_sha256_update.simps [simp del]

text \<open>The padding loop runs at most 64 times from the positions 1 to 64 that it is
  entered with; the fuel is twice that.\<close>

fun sha256_pad_loop :: "nat \<Rightarrow> nat \<Rightarrow> lzma_check_state \<Rightarrow> lzma_check_state" where
  "sha256_pad_loop 0 pos check = check"
| "sha256_pad_loop (Suc fuel) pos check =
     (if pos \<noteq> 64 - 8
      then let (check, pos) = (if pos = 64 then (process check, 0) else (check, pos))
           in sha256_pad_loop fuel (pos + 1) (check\<lparr>buffer := (buffer check)[pos := 0]\<rparr>)
      else check)"

definition lzma_sha256_finish :: "lzma_check_state \<Rightarrow> lzma_check_state" where
  "lzma_sha256_finish check =
     (let pos = unat (sha256_size check AND 0x3F);
          check = check\<lparr>buffer := (buffer check)[pos := 0x80]\<rparr>;
          check = sha256_pad_loop 128 (pos + 1) check;
          check = check\<lparr>sha256_size := sha256_size check * 8\<rparr>;
          check = check\<lparr>buffer := put_bytes (buffer check) 56 (be64_bytes (sha256_size check))\<rparr>;
          check = process check
      in fold (\<lambda>i check. check\<lparr>buffer := put_bytes (buffer check) (4 * i)
                 (le32_bytes (bswap32 (sha256_state check ! i)))\<rparr>) [0..<8] check)"

subsection \<open>The reference: FIPS 180-4\<close>

definition fips_Sigma0 :: "u32 \<Rightarrow> u32" where
  "fips_Sigma0 x = word_rotr 2 x XOR word_rotr 13 x XOR word_rotr 22 x"
definition fips_Sigma1 :: "u32 \<Rightarrow> u32" where
  "fips_Sigma1 x = word_rotr 6 x XOR word_rotr 11 x XOR word_rotr 25 x"
definition fips_sigma0 :: "u32 \<Rightarrow> u32" where
  "fips_sigma0 x = word_rotr 7 x XOR word_rotr 18 x XOR drop_bit 3 x"
definition fips_sigma1 :: "u32 \<Rightarrow> u32" where
  "fips_sigma1 x = word_rotr 17 x XOR word_rotr 19 x XOR drop_bit 10 x"
definition fips_Ch :: "u32 \<Rightarrow> u32 \<Rightarrow> u32 \<Rightarrow> u32" where
  "fips_Ch x y z = (x AND y) XOR (NOT x AND z)"
definition fips_Maj :: "u32 \<Rightarrow> u32 \<Rightarrow> u32 \<Rightarrow> u32" where
  "fips_Maj x y z = (x AND y) XOR (x AND z) XOR (y AND z)"

fun fips_W :: "u32 list \<Rightarrow> nat \<Rightarrow> u32" where
  "fips_W M t =
     (if t < 16 then M ! t
      else fips_sigma1 (fips_W M (t - 2)) + fips_W M (t - 7) + fips_sigma0 (fips_W M (t - 15)) + fips_W M (t - 16))"

declare fips_W.simps [simp del]

fun fips_round :: "u32 \<Rightarrow> u32 list \<Rightarrow> u32 list" where
  "fips_round kw [a, b, c, d, e, f, g, h] =
     (let T1 = h + fips_Sigma1 e + fips_Ch e f g + kw;
          T2 = fips_Sigma0 a + fips_Maj a b c
      in [T1 + T2, a, b, c, d + T1, e, f, g])"
| "fips_round kw vs = vs"

definition fips_rounds :: "u32 list \<Rightarrow> u32 list \<Rightarrow> nat \<Rightarrow> u32 list" where
  "fips_rounds M H n = fold (\<lambda>t. fips_round (SHA256_K ! t + fips_W M t)) [0..<n] H"

definition fips_compress :: "u32 list \<Rightarrow> u32 list \<Rightarrow> u32 list" where
  "fips_compress H M = map2 (+) H (fips_rounds M H 64)"

lemma rotr_32_word_rotr: "0 < n \<Longrightarrow> n < 32 \<Longrightarrow> rotr_32 x n = word_rotr n x"
proof (rule bit_word_eqI)
  fix k assume n: "0 < n" "n < 32" and k: "k < LENGTH(32)"
  show "bit (rotr_32 x n) k = bit (word_rotr n x) k"
  proof (cases "k + n < 32")
    case True
    then show ?thesis using n k by (auto simp: rotr_32_def bit_simps ac_simps)
  next
    case False
    then have "(k + n) mod 32 = k - (32 - n)" using n k by (simp add: mod_if)
    then show ?thesis
      using n k False by (auto simp: rotr_32_def bit_simps ac_simps dest: bit_imp_le_length)
  qed
qed

lemma word_rotr_xor: "word_rotr n (a XOR b) = word_rotr n a XOR word_rotr n (b :: u32)"
  by (rule bit_word_eqI) (auto simp: bit_simps)

lemma word_rotr_word_rotr: "word_rotr m (word_rotr n x) = word_rotr (m + n) (x :: u32)"
  by (rule bit_word_eqI) (auto simp: bit_simps mod_simps ac_simps)

lemma sha_sigmas:
  "sha_S0 = fips_Sigma0" "sha_S1 = fips_Sigma1" "sha_s0 = fips_sigma0" "sha_s1 = fips_sigma1"
  by (rule ext; simp add: sha_S0_def sha_S1_def sha_s0_def sha_s1_def fips_Sigma0_def fips_Sigma1_def
      fips_sigma0_def fips_sigma1_def rotr_32_word_rotr word_rotr_xor word_rotr_word_rotr ac_simps)+

lemma Ch_fips: "Ch = fips_Ch"
  by (intro ext bit_word_eqI) (auto simp: Ch_def fips_Ch_def bit_simps)

lemma Maj_fips: "Maj = fips_Maj"
proof (intro ext)
  fix x y z :: u32
  have "Maj x y z = (x AND (y XOR z)) OR (y AND z)"
    unfolding Maj_def by (rule disjunctive_add) (auto simp: bit_simps)
  also have "\<dots> = fips_Maj x y z"
    by (rule bit_word_eqI) (auto simp: fips_Maj_def bit_simps)
  finally show "Maj x y z = fips_Maj x y z" .
qed

subsection \<open>transform is the FIPS compression function\<close>

definition T_view :: "nat \<Rightarrow> u32 list \<Rightarrow> u32 list" where
  "T_view i T = map (\<lambda>n. T ! T_slot n i) [0..<8]"

lemma length_8_cases:
  "length T = 8 \<Longrightarrow> \<exists>a b c d e f g h. T = [a, b, c, d, e, f, g, h]"
  by (simp add: length_Suc_conv numeral_eq_Suc) blast

lemma T_slot_mod8: "T_slot n (i mod 8) = T_slot n i"
  by (simp add: T_slot_def zmod_int mod_simps)

lemma sha_R_view_small:
  assumes "length T = 8" and "i < 8"
  shows "T_view (Suc i) (sha_R T i j blk) = fips_round (SHA256_K ! (i + j) + blk) (T_view i T)"
proof -
  obtain a b c d e f g h where T: "T = [a, b, c, d, e, f, g, h]"
    using length_8_cases [OF assms(1)] by blast
  have "i \<in> {0, 1, 2, 3, 4, 5, 6, 7}" using assms(2) by auto
  then show ?thesis
    by (auto simp: T T_view_def sha_R_def T_slot_def Let_def sha_sigmas Ch_fips Maj_fips
        upt_conv_Cons algebra_simps)
qed

lemma T_view_mod8: "i mod 8 = i' mod 8 \<Longrightarrow> T_view i T = T_view i' T"
  unfolding T_view_def by (subst (1 2) T_slot_mod8 [symmetric]) simp

lemma sha_R_mod8: "sha_R T i j blk = sha_R T (i mod 8) (i - i mod 8 + j) blk"
  by (simp add: sha_R_def T_slot_mod8)

lemma sha_R_view:
  assumes "length T = 8"
  shows "T_view (Suc i) (sha_R T i j blk) = fips_round (SHA256_K ! (i + j) + blk) (T_view i T)"
proof -
  have "T_view (Suc i) (sha_R T i j blk) =
      T_view (Suc (i mod 8)) (sha_R T (i mod 8) (i - i mod 8 + j) blk)"
    by (subst sha_R_mod8, rule T_view_mod8) (simp add: mod_Suc_eq)
  also have "\<dots> = fips_round (SHA256_K ! (i + j) + blk) (T_view (i mod 8) T)"
    using assms by (subst sha_R_view_small) simp_all
  also have "T_view (i mod 8) T = T_view i T" by (rule T_view_mod8) simp
  finally show ?thesis .
qed

lemma length_sha_R [simp]: "length (sha_R T i j blk) = length T"
  by (simp add: sha_R_def Let_def)

text \<open>The invariant after \<open>t\<close> rounds: the view of the working array is the FIPS state,
  and the circular schedule holds the last sixteen words.\<close>

definition sha_inv :: "u32 list \<Rightarrow> u32 list \<Rightarrow> nat \<Rightarrow> u32 list \<times> u32 list \<Rightarrow> bool" where
  "sha_inv M H t TW \<longleftrightarrow> (case TW of (T, W) \<Rightarrow>
     length T = 8 \<and> length W = 16 \<and> T_view t T = fips_rounds M H t
     \<and> (\<forall>k < t. t \<le> k + 16 \<longrightarrow> W ! (k mod 16) = fips_W M k))"

lemma fips_rounds_Suc:
  "fips_rounds M H (Suc t) = fips_round (SHA256_K ! t + fips_W M t) (fips_rounds M H t)"
  by (simp add: fips_rounds_def)

lemma sha_R0_inv:
  assumes "sha_inv M H i TW" and "i < 16" and "M = map bswap32 data" and "length data = 16"
  shows "sha_inv M H (Suc i) (sha_R0 data i TW)"
proof -
  obtain T W where TW: "TW = (T, W)" by force
  have W: "fips_W M i = bswap32 (data ! i)"
    using assms by (subst fips_W.simps) simp
  show ?thesis
    using assms(1,2) W unfolding TW sha_inv_def sha_R0_def blk0_def prod.case Let_def
    by (auto simp: sha_R_view fips_rounds_Suc nth_list_update less_Suc_eq)
qed

lemma W_slot_mod: "k \<le> t \<Longrightarrow> W_slot (t mod 16) k = (t - k) mod 16"
proof -
  assume k: "k \<le> t"
  have "(int (t mod 16) - int k) mod 16 = (int t - int k) mod 16"
    by (simp only: zmod_int mod_diff_left_eq of_nat_numeral)
  also have "\<dots> = int ((t - k) mod 16)"
    using k by (simp only: zmod_int of_nat_diff of_nat_numeral)
  finally show ?thesis by (simp only: W_slot_def nat_int)
qed

lemma mod_16_neq: "k < t \<Longrightarrow> t < k + 16 \<Longrightarrow> k mod 16 \<noteq> t mod (16 :: nat)"
proof
  assume "k < t" "t < k + 16" "k mod 16 = t mod 16"
  then have "16 dvd t - k" by (metis less_imp_le mod_eq_dvd_iff_nat)
  with \<open>k < t\<close> have "16 \<le> t - k" by (intro dvd_imp_le) auto
  with \<open>t < k + 16\<close> show False by simp
qed

lemma blk2_fips:
  assumes W: "\<And>k. k < i + j \<Longrightarrow> i + j \<le> k + 16 \<Longrightarrow> W ! (k mod 16) = fips_W M k"
    and "16 \<le> j" and im: "(i + j) mod 16 = i"
  shows "blk2 i W = W[i := fips_W M (i + j)]"
proof -
  let ?t = "i + j"
  have slot: "W ! W_slot i k = fips_W M (?t - k)" if "0 < k" "k \<le> 16" for k
  proof -
    have "W_slot i k = (?t - k) mod 16" using W_slot_mod [of k ?t] that assms(2) im by simp
    moreover have "?t - k < ?t" "?t \<le> ?t - k + 16" using that assms(2) by arith+
    ultimately show ?thesis using W [of "?t - k"] by simp
  qed
  have i: "i < 16" using im mod_less_divisor [of 16 ?t] by simp
  have s16: "W_slot i 16 = W_slot i 0" "W_slot i 0 = i"
    using i by (simp_all add: W_slot_def)
  have ref: "fips_W M ?t = fips_W M (?t - 16)
      + (fips_sigma1 (fips_W M (?t - 2)) + fips_W M (?t - 7) + fips_sigma0 (fips_W M (?t - 15)))"
    using assms(2) by (subst fips_W.simps) simp
  have "W ! i = fips_W M (?t - 16)" using slot [of 16] by (simp only: s16)
  then show ?thesis
    unfolding blk2_def ref s16(2) sha_sigmas using slot [of 2] slot [of 7] slot [of 15] by simp
qed

lemma j_mod8: "j mod 16 = 0 \<Longrightarrow> j mod 8 = (0 :: nat)"
  using mod_mod_cancel [of 8 16 j] by simp

lemma T_view_add: "j mod 16 = 0 \<Longrightarrow> T_view (i + j) T = T_view i T"
  using j_mod8 [of j] mod_add_right_eq [of i j 8] by (intro T_view_mod8) simp

lemma sha_R2_inv:
  assumes "sha_inv M H (i + j) (T, W)" and "i < 16" and "16 \<le> j" and "j mod 16 = 0"
  shows "sha_inv M H (Suc i + j) (sha_R2 j i (T, W))"
proof -
  let ?t = "i + j"
  have im: "?t mod 16 = i" using assms(2,4) mod_add_right_eq [of i j 16] by simp
  have T: "length T = 8" and lW: "length W = 16" and Tv: "T_view i T = fips_rounds M H ?t"
    and Wv: "\<And>k. k < ?t \<Longrightarrow> ?t \<le> k + 16 \<Longrightarrow> W ! (k mod 16) = fips_W M k"
    using assms(1) T_view_add [OF assms(4), of i] by (auto simp: sha_inv_def)
  have s0: "W_slot i 0 = i" using assms(2) by (simp add: W_slot_def)
  let ?W = "W[i := fips_W M ?t]"
  have new: "blk2 i W = ?W" by (rule blk2_fips [OF Wv assms(3) im])
  have upd: "?W ! (k mod 16) = fips_W M k" if "k < Suc ?t" "Suc ?t \<le> k + 16" for k
  proof (cases "k = ?t")
    case True then show ?thesis using im lW assms(2) by simp
  next
    case False
    then have "k mod 16 \<noteq> i" using that im mod_16_neq [of k ?t] by simp
    then show ?thesis using False that Wv [of k] by simp
  qed
  have step: "sha_R2 j i (T, W) = (sha_R T i j (fips_W M ?t), ?W)"
    using lW assms(2) by (simp add: sha_R2_def new s0)
  have "T_view (Suc i + j) (sha_R T i j (fips_W M ?t)) = fips_rounds M H (Suc i + j)"
    unfolding T_view_add [OF assms(4)] sha_R_view [OF T] Tv by (simp add: fips_rounds_Suc)
  then show ?thesis using T lW upd by (simp add: step sha_inv_def)
qed

lemma sha_R0_fold:
  assumes "length H = 8" and "M = map bswap32 data" and "length data = 16" and "n \<le> 16"
  shows "sha_inv M H n (fold (sha_R0 data) [0..<n] (H, replicate 16 0))"
  using assms(4)
proof (induction n)
  case 0
  have "T_view 0 H = H"
    using length_8_cases [OF assms(1)] by (auto simp: T_view_def T_slot_def upt_conv_Cons)
  then show ?case using assms(1) by (simp add: sha_inv_def fips_rounds_def)
next
  case (Suc n)
  then show ?case using sha_R0_inv [OF _ _ assms(2,3), of H n] by simp
qed

lemma sha_R2_fold:
  assumes "sha_inv M H j TW" and "16 \<le> j" and "j mod 16 = 0" and "n \<le> 16"
  shows "sha_inv M H (n + j) (fold (sha_R2 j) [0..<n] TW)"
  using assms(4)
proof (induction n)
  case (Suc n)
  obtain T W where "fold (sha_R2 j) [0..<n] TW = (T, W)" by force
  with Suc show ?case using sha_R2_inv [OF _ _ assms(2,3), of M H n T W] by simp
qed (use assms(1) in simp)

lemma map2_add_8: "length H = 8 \<Longrightarrow> map2 (+) H (map f [0..<8]) = map (\<lambda>n. H ! n + f n) [0..<8]"
  using length_8_cases [of H] by (auto simp: upt_conv_Cons)

lemma transform_fips:
  assumes "length H = 8" and "length data = 16"
  shows "transform H data = fips_compress H (map bswap32 data)"
proof -
  let ?M = "map bswap32 data"
  define X0 where "X0 = fold (sha_R0 data) [0..<16] (H, replicate 16 0)"
  define X1 where "X1 = fold (sha_R2 16) [0..<16] X0"
  define X2 where "X2 = fold (sha_R2 32) [0..<16] X1"
  define X3 where "X3 = fold (sha_R2 48) [0..<16] X2"
  have "sha_inv ?M H 16 X0"
    unfolding X0_def by (rule sha_R0_fold [OF assms(1) refl assms(2) order_refl])
  then have "sha_inv ?M H (16 + 16) X1" unfolding X1_def by (rule sha_R2_fold) simp_all
  then have "sha_inv ?M H (16 + 32) X2" unfolding X2_def by (intro sha_R2_fold) simp_all
  then have "sha_inv ?M H (16 + 48) X3" unfolding X3_def by (intro sha_R2_fold) simp_all
  then have "T_view 64 (fst X3) = fips_rounds ?M H 64" by (auto simp: sha_inv_def)
  then have v: "fips_rounds ?M H 64 = T_view 0 (fst X3)" using T_view_mod8 [of 64 0 "fst X3"] by simp
  have "transform H data = map (\<lambda>n. H ! n + fst X3 ! T_slot n 0) [0..<8]"
    by (simp only: transform_def Let_def fold_simps X0_def [symmetric] X1_def [symmetric]
        X2_def [symmetric] X3_def [symmetric])
  then show ?thesis
    unfolding fips_compress_def v T_view_def by (simp only: map2_add_8 [OF assms(1)])
qed

subsection \<open>The reference digest\<close>

definition fips_H0 :: "u32 list" where
  "fips_H0 = [0x6A09E667, 0xBB67AE85, 0x3C6EF372, 0xA54FF53A,
              0x510E527F, 0x9B05688C, 0x1F83D9AB, 0x5BE0CD19]"

lemma length_fips_H0 [simp]: "length fips_H0 = 8"
  by (simp add: fips_H0_def)

definition fips_words :: "byte list \<Rightarrow> u32 list" where
  "fips_words block =
     map (\<lambda>i. le32 (block ! (4 * i + 3)) (block ! (4 * i + 2)) (block ! (4 * i + 1)) (block ! (4 * i))) [0..<16]"

function fips_blocks :: "u32 list \<Rightarrow> byte list \<Rightarrow> u32 list" where
  "fips_blocks H msg =
     (if length msg < 64 then H
      else fips_blocks (fips_compress H (fips_words (take 64 msg))) (drop 64 msg))"
  by pat_completeness auto
termination
  by (relation "measure (\<lambda>(H, msg). length msg)") auto

declare fips_blocks.simps [simp del]

text \<open>The message, the bit 1, as few zero bytes as fill the block up to its last eight
  bytes, and the length in bits.\<close>

definition fips_pad :: "byte list \<Rightarrow> byte list" where
  "fips_pad msg = msg @ [0x80] @ replicate ((119 - length msg mod 64) mod 64) 0
     @ be64_bytes (word_of_nat (length msg) * 8)"

definition fips_sha256 :: "byte list \<Rightarrow> byte list" where
  "fips_sha256 msg = concat (map be32_bytes (fips_blocks fips_H0 (fips_pad msg)))"

lemma fips_blocks_append:
  "64 dvd length xs \<Longrightarrow> fips_blocks H (xs @ ys) = fips_blocks (fips_blocks H xs) ys"
proof (induction H xs rule: fips_blocks.induct)
  case (1 H xs)
  show ?case
  proof (cases "length xs < 64")
    case True
    with 1 have "xs = []" by (metis dvd_imp_le length_greater_0_conv not_le)
    then show ?thesis by (simp add: fips_blocks.simps [of H "[]"])
  next
    case False
    with 1 have "64 dvd length (drop 64 xs)" by (simp add: dvd_diff_nat)
    with 1 False show ?thesis
      by (subst fips_blocks.simps, subst (2) fips_blocks.simps) simp
  qed
qed

lemma fips_blocks_single:
  "length b = 64 \<Longrightarrow> fips_blocks H b = fips_compress H (fips_words b)"
  by (simp add: fips_blocks.simps [of H b] fips_blocks.simps [of _ "[]"])

lemma length_fips_round [simp]: "length (fips_round kw vs) = length vs"
  by (induction kw vs rule: fips_round.induct) (simp_all add: Let_def)

lemma length_fips_rounds [simp]: "length (fips_rounds M H n) = length H"
  by (induction n) (simp_all add: fips_rounds_Suc, simp add: fips_rounds_def)

lemma length_fips_compress [simp]: "length (fips_compress H M) = length H"
  by (simp add: fips_compress_def)

lemma length_fips_blocks [simp]: "length (fips_blocks H msg) = length H"
  by (induction H msg rule: fips_blocks.induct) (subst fips_blocks.simps, simp)

subsection \<open>The buffered state\<close>

text \<open>\<open>m\<close> has been hashed up to the last \<open>pos\<close> bytes, which are in the buffer.\<close>

definition sha_pending :: "byte list \<Rightarrow> nat \<Rightarrow> lzma_check_state \<Rightarrow> bool" where
  "sha_pending m pos check \<longleftrightarrow> length (buffer check) = 64 \<and> pos \<le> 64
     \<and> (\<exists>done. 64 dvd length done \<and> m = done @ take pos (buffer check)
          \<and> sha256_state check = fips_blocks fips_H0 done)"

lemma sha_pending_put:
  "sha_pending m pos check \<Longrightarrow> pos + length bs \<le> 64 \<Longrightarrow>
   sha_pending (m @ bs) (pos + length bs) (check\<lparr>buffer := put_bytes (buffer check) pos bs\<rparr>)"
  by (auto simp: sha_pending_def put_bytes_def)

lemma sha_pending_cong:
  "buffer c = buffer c' \<Longrightarrow> sha256_state c = sha256_state c' \<Longrightarrow> sha_pending m pos c = sha_pending m pos c'"
  by (simp add: sha_pending_def)

lemma sha_pending_process:
  assumes "sha_pending m 64 check"
  shows "sha_pending m 0 (process check)"
proof -
  let ?b = "buffer check"
  from assms obtain d where d: "64 dvd length d" "m = d @ ?b"
      "sha256_state check = fips_blocks fips_H0 d" and len: "length ?b = 64"
    by (auto simp: sha_pending_def)
  have "map bswap32 (map (u32_view ?b) [0..<16]) = fips_words ?b"
    by (simp add: fips_words_def u32_view_def bswap32_le32)
  then have "sha256_state (process check) = fips_compress (fips_blocks fips_H0 d) (fips_words ?b)"
    using transform_fips [of "fips_blocks fips_H0 d" "map (u32_view ?b) [0..<16]"]
    by (simp add: process_def d(3) del: map_map)
  also have "\<dots> = fips_blocks fips_H0 m"
    using d(1) len by (simp add: d(2) fips_blocks_append fips_blocks_single)
  finally have "sha256_state (process check) = fips_blocks fips_H0 m" .
  moreover have "64 dvd length m" using d(1) len by (simp add: d(2))
  ultimately show ?thesis using len by (simp add: sha_pending_def process_def)
qed

lemma sha_pending_mod: "sha_pending m pos check \<Longrightarrow> length m mod 64 = pos mod 64"
  by (auto simp: sha_pending_def)

lemma process_frame [simp]:
  "sha256_size (process check) = sha256_size check" "buffer (process check) = buffer check"
  by (simp_all add: process_def)

definition sha_absorbed :: "byte list \<Rightarrow> lzma_check_state \<Rightarrow> bool" where
  "sha_absorbed m check \<longleftrightarrow> sha_pending m (length m mod 64) check
     \<and> sha256_size check = word_of_nat (length m)"

lemma sha_absorbed_init:
  "length (buffer check) = 64 \<Longrightarrow> sha_absorbed [] (lzma_sha256_init check)"
  by (simp add: sha_absorbed_def sha_pending_def lzma_sha256_init_def fips_blocks.simps [of _ "[]"] fips_H0_def)

lemma size_mod_64: "unat (word_of_nat n AND 0x3F :: u64) = n mod 64"
  by (simp add: unat_and_3F unat_of_nat mod_mod_cancel)

lemma size_and_3F_eq_0: "(word_of_nat n AND 0x3F :: u64) = 0 \<longleftrightarrow> n mod 64 = 0"
  using size_mod_64 [of n] by (metis unat_eq_zero)

lemma lzma_sha256_update_absorbs:
  "sha_absorbed m check \<Longrightarrow> sha_absorbed (m @ buf) (lzma_sha256_update buf check)"
proof (induction buf check arbitrary: m rule: lzma_sha256_update.induct)
  case (1 buf check)
  show ?case
  proof (cases "buf = []")
    case True
    with 1 show ?thesis by (simp add: lzma_sha256_update.simps)
  next
    case False
    let ?r = "length m mod 64"
    define st where "st = unat (sha256_size check AND 0x3F)"
    define c where "c = min (64 - st) (length buf)"
    define c1 where "c1 = check\<lparr>buffer := put_bytes (buffer check) st (take c buf),
        sha256_size := sha256_size check + word_of_nat c\<rparr>"
    define c2 where "c2 = (if sha256_size c1 AND 0x3F = 0 then process c1 else c1)"
    have r: "?r < 64" by simp
    have st: "st = ?r" using 1(2) by (simp add: st_def sha_absorbed_def size_mod_64)
    have lc: "length (take c buf) = c" "?r + c \<le> 64" using r by (auto simp: c_def st)
    have size: "sha256_size c1 = word_of_nat (length (m @ take c buf))"
      using 1(2) lc by (simp add: c1_def sha_absorbed_def)
    have "sha_pending (m @ take c buf) (?r + c) (check\<lparr>buffer := put_bytes (buffer check) ?r (take c buf)\<rparr>)"
      using sha_pending_put [of m ?r check "take c buf"] 1(2) lc by (simp add: sha_absorbed_def)
    then have pend: "sha_pending (m @ take c buf) (?r + c) c1"
      by (simp add: sha_pending_def c1_def st)
    have mod: "length (m @ take c buf) mod 64 = (?r + c) mod 64"
      using lc by (simp add: mod_simps)
    have "sha_absorbed (m @ take c buf) c2"
    proof (cases "?r + c = 64")
      case True
      with mod have m0: "length (m @ take c buf) mod 64 = 0" by simp
      then have "c2 = process c1" by (simp add: c2_def size size_and_3F_eq_0 del: length_append)
      with sha_pending_process [of "m @ take c buf" c1] pend True m0 size show ?thesis
        by (simp add: sha_absorbed_def del: length_append)
    next
      case False
      have "0 < c" using \<open>buf \<noteq> []\<close> r by (simp add: c_def st)
      with False lc mod have "length (m @ take c buf) mod 64 = ?r + c"
        and ne: "length (m @ take c buf) mod 64 \<noteq> 0" by simp_all
      from ne have "c2 = c1" by (simp add: c2_def size size_and_3F_eq_0 del: length_append)
      with pend size \<open>length (m @ take c buf) mod 64 = ?r + c\<close> show ?thesis
        by (simp add: sha_absorbed_def del: length_append)
    qed
    then have "sha_absorbed ((m @ take c buf) @ drop c buf) (lzma_sha256_update (drop c buf) c2)"
      by (rule 1(1) [OF False st_def c_def c1_def c2_def])
    moreover have "lzma_sha256_update buf check = lzma_sha256_update (drop c buf) c2"
      using False by (subst lzma_sha256_update.simps) (simp only: Let_def st_def c_def c1_def c2_def if_False)
    ultimately show ?thesis by simp
  qed
qed

lemma sha256_pad_loop_pending:
  assumes "sha_pending m pos check" and "0 < pos"
    and "k = (if pos \<le> 56 then 56 - pos else 120 - pos)" and "k < fuel"
  shows "sha_pending (m @ replicate k 0) 56 (sha256_pad_loop fuel pos check)
    \<and> sha256_size (sha256_pad_loop fuel pos check) = sha256_size check"
  using assms
proof (induction fuel pos check arbitrary: m k rule: sha256_pad_loop.induct)
  case (2 fuel pos check)
  have le: "pos \<le> 64" using 2(2) by (simp add: sha_pending_def)
  show ?case
  proof (cases "pos = 56")
    case True
    with 2(2,4) show ?thesis by simp
  next
    case False
    define q where "q = (if pos = 64 then 0 else pos)"
    define c where "c = (if pos = 64 then process check else check)"
    have c: "sha_pending m q c" "sha256_size c = sha256_size check"
      using 2(2) sha_pending_process by (auto simp: q_def c_def)
    have q: "q < 64" using le by (auto simp: q_def)
    define k' where "k' = k - 1"
    have "0 < k" using 2(4) le False by (auto split: if_splits)
    then have "k = Suc k'" "k' < fuel" using 2(5) by (simp_all add: k'_def)
    moreover have "k' = (if Suc q \<le> 56 then 56 - Suc q else 120 - Suc q)"
      using 2(4) le False by (auto simp: q_def k'_def)
    ultimately have k: "k = Suc k'" "k' < fuel" "k' = (if Suc q \<le> 56 then 56 - Suc q else 120 - Suc q)"
      by blast+
    have len: "length (buffer c) = 64" using c(1) by (simp add: sha_pending_def)
    let ?c = "c\<lparr>buffer := (buffer c)[q := 0]\<rparr>"
    have pend: "sha_pending (m @ [0]) (q + 1) ?c"
      using sha_pending_put [OF c(1), of "[0]"] q len by (simp add: put_bytes_single)
    have cq: "(c, q) = (if pos = 64 then (process check, 0) else (check, pos))"
      by (simp add: q_def c_def)
    have "sha_pending ((m @ [0]) @ replicate k' 0) 56 (sha256_pad_loop fuel (q + 1) ?c)
        \<and> sha256_size (sha256_pad_loop fuel (q + 1) ?c) = sha256_size ?c"
      by (rule 2(1) [OF _ refl cq pend])
        (use False k in simp_all)
    moreover have "sha256_pad_loop (Suc fuel) pos check
        = sha256_pad_loop fuel (q + 1) ?c"
      using False by (simp add: cq [symmetric] Let_def)
    ultimately show ?thesis using c(2) by (simp add: k(1))
  qed
qed simp

lemma write_state_words:
  "n \<le> 8 \<Longrightarrow> length (buffer c) = 64 \<Longrightarrow>
   fold (\<lambda>i c. c\<lparr>buffer := put_bytes (buffer c) (4 * i) (le32_bytes (bswap32 (sha256_state c ! i)))\<rparr>) [0..<n] c
   = c\<lparr>buffer := put_bytes (buffer c) 0 (concat (map (\<lambda>i. be32_bytes (sha256_state c ! i)) [0..<n]))\<rparr>"
proof (induction n)
  case (Suc n)
  let ?f = "\<lambda>i. be32_bytes (sha256_state c ! i)"
  have len: "length (concat (map ?f [0..<n])) = 4 * n" for n
    by (induction n) (simp_all add: be32_bytes_def)
  show ?case
    using Suc put_bytes_append [of 0 "concat (map ?f [0..<n])" "buffer c" "?f n"]
    by (simp add: len le32_bytes_bswap32)
qed simp

lemma concat_nth_8: "length xs = 8 \<Longrightarrow> concat (map (\<lambda>i. f (xs ! i)) [0..<8]) = concat (map f xs)"
  by (rule arg_cong [of _ _ concat], rule nth_equalityI) simp_all

lemma lzma_sha256_finish_digest:
  assumes "sha_absorbed m check"
  shows "take 32 (buffer (lzma_sha256_finish check)) = fips_sha256 m"
proof -
  let ?r = "length m mod 64"
  define k where "k = (119 - ?r) mod 64"
  define c1 where "c1 = check\<lparr>buffer := (buffer check)[?r := 0x80]\<rparr>"
  define c2 where "c2 = sha256_pad_loop 128 (Suc ?r) c1"
  define c3' where "c3' = c2\<lparr>sha256_size := sha256_size c2 * 8\<rparr>"
  define c3 where "c3 = c3'\<lparr>buffer := put_bytes (buffer c3') 56 (be64_bytes (sha256_size c3'))\<rparr>"
  have p: "sha_pending m ?r check" and size: "sha256_size check = word_of_nat (length m)"
    using assms by (simp_all add: sha_absorbed_def)
  have len: "length (buffer check) = 64" using p by (simp add: sha_pending_def)
  have r: "?r < 64" by simp
  have p1: "sha_pending (m @ [0x80]) (Suc ?r) c1"
    using sha_pending_put [OF p, of "[0x80]"] len r by (simp add: c1_def put_bytes_single Suc_le_eq)
  have k: "k = (if Suc ?r \<le> 56 then 56 - Suc ?r else 120 - Suc ?r)"
  proof (cases "?r \<le> 55")
    case True
    then have "(119 - ?r) mod 64 = (55 - ?r) mod 64" by (subst le_mod_geq) simp_all
    with True show ?thesis by (simp add: k_def)
  qed (use r in \<open>simp add: k_def\<close>)
  have p2: "sha_pending ((m @ [0x80]) @ replicate k 0) 56 c2 \<and> sha256_size c2 = sha256_size c1"
    unfolding c2_def by (rule sha256_pad_loop_pending [OF p1 _ k]) (auto simp: k intro: le_less_trans [OF diff_le_self])
  have pad: "fips_pad m = ((m @ [0x80]) @ replicate k 0) @ be64_bytes (sha256_size c2 * 8)"
    using p2 size by (simp add: fips_pad_def k_def c1_def)
  have "sha_pending (fips_pad m) (56 + 8) (c2\<lparr>buffer := put_bytes (buffer c2) 56 (be64_bytes (sha256_size c2 * 8))\<rparr>)"
    using sha_pending_put [of "(m @ [0x80]) @ replicate k 0" 56 c2 "be64_bytes (sha256_size c2 * 8)"] p2
    unfolding pad by (simp add: be64_bytes_def)
  then have "sha_pending (fips_pad m) (56 + 8) c3"
    by (rule sha_pending_cong [THEN iffD1, rotated 2]) (simp_all add: c3_def c3'_def)
  then have "sha_pending (fips_pad m) 64 c3" by simp
  then have p4: "sha_pending (fips_pad m) 0 (process c3)" by (rule sha_pending_process)
  then have st: "sha256_state (process c3) = fips_blocks fips_H0 (fips_pad m)"
    and len4: "length (buffer (process c3)) = 64"
    by (auto simp: sha_pending_def)
  have buffer_upd: "buffer (c\<lparr>buffer := x\<rparr>) = x" for c :: lzma_check_state and x by simp
  have "lzma_sha256_finish check = fold (\<lambda>i c. c\<lparr>buffer := put_bytes (buffer c) (4 * i)
      (le32_bytes (bswap32 (sha256_state c ! i)))\<rparr>) [0..<8] (process c3)"
    by (simp only: lzma_sha256_finish_def Let_def size size_mod_64 Suc_eq_plus1 c1_def c2_def c3'_def c3_def)
  then have "buffer (lzma_sha256_finish check) = put_bytes (buffer (process c3)) 0
      (concat (map (\<lambda>i. be32_bytes (sha256_state (process c3) ! i)) [0..<8]))"
    by (simp only: write_state_words [OF order_refl len4] buffer_upd)
  then have "buffer (lzma_sha256_finish check) = put_bytes (buffer (process c3)) 0
      (concat (map be32_bytes (sha256_state (process c3))))"
    using concat_nth_8 [of "sha256_state (process c3)" be32_bytes] by (simp only: st length_fips_blocks length_fips_H0)
  moreover have "length (concat (map be32_bytes (fips_blocks fips_H0 (fips_pad m)))) = 32"
    by (simp add: length_concat be32_bytes_def sum_list_triv comp_def)
  ultimately show ?thesis by (simp add: fips_sha256_def st put_bytes_def)
qed

text \<open>C1. Initialising the SHA-256 state, feeding it the data in any number of calls
  of any sizes and finishing it leaves the FIPS 180-4 digest of the concatenated data
  in the first 32 bytes of the buffer.\<close>

theorem sha256_matches_fips:
  assumes "length (buffer check) = 64"
  shows "take 32 (buffer (lzma_sha256_finish
      (fold lzma_sha256_update chunks (lzma_sha256_init check)))) = fips_sha256 (concat chunks)"
proof -
  have "sha_absorbed (m @ concat chunks) (fold lzma_sha256_update chunks c)" if "sha_absorbed m c" for m c
    using that
  proof (induction chunks arbitrary: m c)
    case (Cons a chunks)
    then show ?case using Cons.IH [OF lzma_sha256_update_absorbs [OF Cons.prems, of a]] by simp
  qed simp
  from this [OF sha_absorbed_init [OF assms]] show ?thesis
    by (simp add: lzma_sha256_finish_digest)
qed

theorem sha256_matches_fips_witness:
  "take 32 (buffer (lzma_sha256_finish (fold lzma_sha256_update [[97], [98, 99]]
      (lzma_sha256_init \<lparr>buffer = replicate 64 0, crc32_state = 0, crc64_state = 0,
        sha256_state = [], sha256_size = 0\<rparr>)))) = fips_sha256 [97, 98, 99]"
  using sha256_matches_fips [of "\<lparr>buffer = replicate 64 0, crc32_state = 0, crc64_state = 0,
        sha256_state = [], sha256_size = 0\<rparr>" "[[97], [98, 99]]"] by simp

end
