(* ===== verification/Check.thy ===== *)
theory Check
  imports Sha256
begin

unbundle bit_operations_syntax

text \<open>
  The integrity checks: src/liblzma/src/liblzma/check/check.c. A check type is the
  \<open>unsigned int\<close> the code casts it to. The locale \<open>integrity_check\<close> is the contract the
  Block coders rely on: whatever was fed in, in calls of any sizes, finishing leaves the
  digest of all of it in the buffer. It is interpreted on the CRC32, CRC64 and SHA-256
  cases of \<open>lzma_check_init\<close>, \<open>lzma_check_update\<close> and \<open>lzma_check_finish\<close>.
\<close>

type_synonym lzma_check = u32

abbreviation (input) LZMA_CHECK_NONE :: lzma_check where "LZMA_CHECK_NONE \<equiv> 0"
abbreviation (input) LZMA_CHECK_CRC32 :: lzma_check where "LZMA_CHECK_CRC32 \<equiv> 1"
abbreviation (input) LZMA_CHECK_CRC64 :: lzma_check where "LZMA_CHECK_CRC64 \<equiv> 4"
abbreviation (input) LZMA_CHECK_SHA256 :: lzma_check where "LZMA_CHECK_SHA256 \<equiv> 10"
abbreviation (input) LZMA_CHECK_ID_MAX :: u32 where "LZMA_CHECK_ID_MAX \<equiv> 15"

definition lzma_check_is_supported :: "lzma_check \<Rightarrow> bool" where
  "lzma_check_is_supported type =
     (if LZMA_CHECK_ID_MAX < type then False
      else [True, True, False, False, True, False, False, False, False, False,
            True, False, False, False, False, False] ! unat type)"

definition lzma_check_size :: "lzma_check \<Rightarrow> u32" where
  "lzma_check_size type =
     (if LZMA_CHECK_ID_MAX < type then 0xFFFFFFFF
      else [0, 4, 4, 4, 8, 8, 8, 16, 16, 16, 32, 32, 32, 64, 64, 64] ! unat type)"

definition lzma_check_init :: "lzma_check \<Rightarrow> lzma_check_state \<Rightarrow> lzma_check_state" where
  "lzma_check_init type check =
     (if type = LZMA_CHECK_NONE then check
      else if type = LZMA_CHECK_CRC32 then check\<lparr>crc32_state := 0\<rparr>
      else if type = LZMA_CHECK_CRC64 then check\<lparr>crc64_state := 0\<rparr>
      else if type = LZMA_CHECK_SHA256 then lzma_sha256_init check
      else check)"

definition lzma_check_update :: "lzma_check \<Rightarrow> byte list \<Rightarrow> lzma_check_state \<Rightarrow> lzma_check_state" where
  "lzma_check_update type buf check =
     (if type = LZMA_CHECK_CRC32 then check\<lparr>crc32_state := lzma_crc32 buf (crc32_state check)\<rparr>
      else if type = LZMA_CHECK_CRC64 then check\<lparr>crc64_state := lzma_crc64 buf (crc64_state check)\<rparr>
      else if type = LZMA_CHECK_SHA256 then lzma_sha256_update buf check
      else check)"

definition lzma_check_finish :: "lzma_check \<Rightarrow> lzma_check_state \<Rightarrow> lzma_check_state" where
  "lzma_check_finish type check =
     (if type = LZMA_CHECK_CRC32
      then check\<lparr>buffer := put_bytes (buffer check) 0 (le32_bytes (crc32_state check))\<rparr>
      else if type = LZMA_CHECK_CRC64
      then check\<lparr>buffer := put_bytes (buffer check) 0 (le64_bytes (crc64_state check))\<rparr>
      else if type = LZMA_CHECK_SHA256 then lzma_sha256_finish check
      else check)"

subsection \<open>The contract of a running check\<close>

locale integrity_check =
  fixes init :: "'s \<Rightarrow> 's"
    and update :: "byte list \<Rightarrow> 's \<Rightarrow> 's"
    and finish :: "'s \<Rightarrow> 's"
    and result :: "'s \<Rightarrow> byte list"
    and ready :: "'s \<Rightarrow> bool"
    and absorbed :: "byte list \<Rightarrow> 's \<Rightarrow> bool"
    and digest :: "byte list \<Rightarrow> byte list"
  assumes init_absorbed: "ready s \<Longrightarrow> absorbed [] (init s)"
    and update_absorbed: "absorbed m s \<Longrightarrow> absorbed (m @ buf) (update buf s)"
    and finish_result: "absorbed m s \<Longrightarrow> result (finish s) = digest m"
begin

lemma fold_update_absorbed: "absorbed m s \<Longrightarrow> absorbed (m @ concat chunks) (fold update chunks s)"
proof (induction chunks arbitrary: m s)
  case (Cons a chunks)
  then show ?case using Cons.IH [OF update_absorbed [OF Cons.prems, of a]] by simp
qed simp

lemma streaming: "ready s \<Longrightarrow> result (finish (fold update chunks (init s))) = digest (concat chunks)"
  using fold_update_absorbed [OF init_absorbed] finish_result by fastforce

lemma chunking_irrelevant:
  "ready s \<Longrightarrow> concat xs = concat ys \<Longrightarrow>
   result (finish (fold update xs (init s))) = result (finish (fold update ys (init s)))"
  by (simp add: streaming)

end

abbreviation check_ready :: "lzma_check_state \<Rightarrow> bool" where
  "check_ready check \<equiv> length (buffer check) = 64"

definition check_value :: "lzma_check \<Rightarrow> lzma_check_state \<Rightarrow> byte list" where
  "check_value type check = take (unat (lzma_check_size type)) (buffer check)"

definition check_digest :: "lzma_check \<Rightarrow> byte list \<Rightarrow> byte list" where
  "check_digest type data =
     (if type = LZMA_CHECK_CRC32 then le32_bytes (lzma_crc32 data 0)
      else if type = LZMA_CHECK_CRC64 then le64_bytes (lzma_crc64 data 0)
      else if type = LZMA_CHECK_SHA256 then fips_sha256 data
      else [])"

lemma check_sizes [simp]:
  "lzma_check_size 0 = 0" "lzma_check_size 1 = 4" "lzma_check_size 4 = 8" "lzma_check_size 10 = 32"
  by (simp_all add: lzma_check_size_def)

lemma unat_lzma_check_size_le: "type \<le> LZMA_CHECK_ID_MAX \<Longrightarrow> unat (lzma_check_size type) \<le> 64"
proof -
  let ?xs = "[0, 4, 4, 4, 8, 8, 8, 16, 16, 16, 32, 32, 32, 64, 64, 64] :: u32 list"
  assume "type \<le> LZMA_CHECK_ID_MAX"
  then have "unat type < length ?xs" and le: "\<not> LZMA_CHECK_ID_MAX < type"
    by (auto simp: word_le_nat_alt word_less_nat_alt)
  then have "?xs ! unat type \<in> set ?xs" by (intro nth_mem)
  moreover have "\<forall>x \<in> set ?xs. unat x \<le> 64" by simp
  ultimately have "unat (?xs ! unat type) \<le> 64" by blast
  then show ?thesis using le by (simp only: lzma_check_size_def if_False)
qed

lemma put_bytes_prefix: "length bs \<le> length out \<Longrightarrow> take (length bs) (put_bytes out 0 bs) = bs"
  by (simp add: put_bytes_def)

interpretation crc32_check: integrity_check
  "lzma_check_init LZMA_CHECK_CRC32" "lzma_check_update LZMA_CHECK_CRC32"
  "lzma_check_finish LZMA_CHECK_CRC32" "check_value LZMA_CHECK_CRC32" check_ready
  "\<lambda>m check. check_ready check \<and> crc32_state check = lzma_crc32 m 0" "check_digest LZMA_CHECK_CRC32"
proof unfold_locales
  show "check_value 1 (lzma_check_finish 1 s) = check_digest 1 m"
    if "check_ready s \<and> crc32_state s = lzma_crc32 m 0" for m s
    using that put_bytes_prefix [of "le32_bytes (lzma_crc32 m 0)" "buffer s"]
    by (simp add: check_value_def lzma_check_finish_def check_digest_def)
qed (auto simp: lzma_check_init_def lzma_check_update_def lzma_crc32_append lzma_crc32_ref crc_bytes_append)

interpretation crc64_check: integrity_check
  "lzma_check_init LZMA_CHECK_CRC64" "lzma_check_update LZMA_CHECK_CRC64"
  "lzma_check_finish LZMA_CHECK_CRC64" "check_value LZMA_CHECK_CRC64" check_ready
  "\<lambda>m check. check_ready check \<and> crc64_state check = lzma_crc64 m 0" "check_digest LZMA_CHECK_CRC64"
proof unfold_locales
  show "check_value 4 (lzma_check_finish 4 s) = check_digest 4 m"
    if "check_ready s \<and> crc64_state s = lzma_crc64 m 0" for m s
    using that put_bytes_prefix [of "le64_bytes (lzma_crc64 m 0)" "buffer s"]
    by (simp add: check_value_def lzma_check_finish_def check_digest_def)
qed (auto simp: lzma_check_init_def lzma_check_update_def lzma_crc64_append lzma_crc64_ref crc_bytes_append)

interpretation sha256_check: integrity_check
  "lzma_check_init LZMA_CHECK_SHA256" "lzma_check_update LZMA_CHECK_SHA256"
  "lzma_check_finish LZMA_CHECK_SHA256" "check_value LZMA_CHECK_SHA256" check_ready
  sha_absorbed "check_digest LZMA_CHECK_SHA256"
  by unfold_locales
    (auto simp: lzma_check_init_def lzma_check_update_def lzma_check_finish_def check_value_def
      check_digest_def sha_absorbed_init lzma_sha256_update_absorbs lzma_sha256_finish_digest)

text \<open>C9. For every supported check type, the check computed over a sequence of
  calls of any sizes is the check of the concatenated data: CRC32 and CRC64 stored
  little-endian, the FIPS 180-4 digest for SHA-256, nothing for the check type None.\<close>

theorem lzma_check_streaming:
  assumes "lzma_check_is_supported type" and "length (buffer check) = 64"
  shows "take (unat (lzma_check_size type)) (buffer (lzma_check_finish type
      (fold (lzma_check_update type) chunks (lzma_check_init type check)))) = check_digest type (concat chunks)"
proof -
  have "unat type \<in> {0..15}"
    using assms(1) by (auto simp: lzma_check_is_supported_def word_le_nat_alt not_less split: if_splits)
  then have "unat type \<in> {0, 1, 4, 10}"
    using assms(1) by (auto simp: lzma_check_is_supported_def numeral_eq_Suc le_Suc_eq split: if_splits)
  then consider "type = 0" | "type = 1" | "type = 4" | "type = 10"
    by (auto simp: word_unat_eq_iff)
  then show ?thesis
  proof cases
    case 1 then show ?thesis by (simp add: check_digest_def)
  next
    case 2 then show ?thesis
      using crc32_check.streaming [OF assms(2), of chunks] by (simp add: check_value_def)
  next
    case 3 then show ?thesis
      using crc64_check.streaming [OF assms(2), of chunks] by (simp add: check_value_def)
  next
    case 4 then show ?thesis
      using sha256_check.streaming [OF assms(2), of chunks] by (simp add: check_value_def)
  qed
qed

theorem lzma_check_streaming_witness:
  "take 4 (buffer (lzma_check_finish 1 (fold (lzma_check_update 1) [[1, 2], [3]]
      (lzma_check_init 1 \<lparr>buffer = replicate 64 0, crc32_state = 7, crc64_state = 0,
        sha256_state = [], sha256_size = 0\<rparr>)))) = check_digest 1 [1, 2, 3]"
  using lzma_check_streaming [of 1 "\<lparr>buffer = replicate 64 0, crc32_state = 7, crc64_state = 0,
        sha256_state = [], sha256_size = 0\<rparr>" "[[1, 2], [3]]"]
  by (simp add: lzma_check_is_supported_def)

end
