(* ===== verification/Stream_Flags.thy ===== *)
theory Stream_Flags
  imports Vli Check
begin

unbundle bit_operations_syntax

text \<open>
  Stream Header and Stream Footer: src/liblzma/src/liblzma/common/stream\_flags\_common.c,
  stream\_flags\_encoder.c, stream\_flags\_decoder.c and stream\_flags\_common.h.
  An operation returns its code with the buffer (or the flags) it wrote; a failing call
  returns what it had written by then, as the C code leaves it in the caller's memory.
\<close>

record lzma_stream_flags =
  sf_version :: u32
  backward_size :: lzma_vli
  sf_check :: lzma_check

definition lzma_header_magic :: "byte list" where
  "lzma_header_magic = [0xFD, 0x37, 0x7A, 0x58, 0x5A, 0x00]"

definition lzma_footer_magic :: "byte list" where
  "lzma_footer_magic = [0x59, 0x5A]"

abbreviation LZMA_STREAM_HEADER_SIZE :: nat where "LZMA_STREAM_HEADER_SIZE \<equiv> 12"
abbreviation LZMA_STREAM_FLAGS_SIZE :: nat where "LZMA_STREAM_FLAGS_SIZE \<equiv> 2"
abbreviation LZMA_BACKWARD_SIZE_MIN :: lzma_vli where "LZMA_BACKWARD_SIZE_MIN \<equiv> 4"
abbreviation LZMA_BACKWARD_SIZE_MAX :: lzma_vli where "LZMA_BACKWARD_SIZE_MAX \<equiv> 0x400000000"

definition is_backward_size_valid :: "lzma_stream_flags \<Rightarrow> bool" where
  "is_backward_size_valid options \<longleftrightarrow> LZMA_BACKWARD_SIZE_MIN \<le> backward_size options
     \<and> backward_size options \<le> LZMA_BACKWARD_SIZE_MAX \<and> backward_size options AND 3 = 0"

definition lzma_stream_flags_compare :: "lzma_stream_flags \<Rightarrow> lzma_stream_flags \<Rightarrow> lzma_ret" where
  "lzma_stream_flags_compare a b =
     (if sf_version a \<noteq> 0 \<or> sf_version b \<noteq> 0 then LZMA_OPTIONS_ERROR
      else if LZMA_CHECK_ID_MAX < sf_check a \<or> LZMA_CHECK_ID_MAX < sf_check b then LZMA_PROG_ERROR
      else if sf_check a \<noteq> sf_check b then LZMA_DATA_ERROR
      else if backward_size a \<noteq> LZMA_VLI_UNKNOWN \<and> backward_size b \<noteq> LZMA_VLI_UNKNOWN
      then (if \<not> is_backward_size_valid a \<or> \<not> is_backward_size_valid b then LZMA_PROG_ERROR
            else if backward_size a \<noteq> backward_size b then LZMA_DATA_ERROR
            else LZMA_OK)
      else LZMA_OK)"

subsection \<open>stream\_flags\_encoder.c\<close>

text \<open>The pointer argument \<open>out + off\<close> is the buffer with the offset; the flag is the
  \<open>bool\<close> result (true on an invalid check type).\<close>

definition stream_flags_encode :: "lzma_stream_flags \<Rightarrow> byte list \<Rightarrow> nat \<Rightarrow> bool \<times> byte list" where
  "stream_flags_encode options out off =
     (if LZMA_CHECK_ID_MAX < sf_check options then (True, out)
      else (False, out[off := 0x00, off + 1 := ucast (sf_check options)]))"

definition lzma_stream_header_encode :: "lzma_stream_flags \<Rightarrow> byte list \<Rightarrow> lzma_ret \<times> byte list" where
  "lzma_stream_header_encode options out =
     (if sf_version options \<noteq> 0 then (LZMA_OPTIONS_ERROR, out)
      else
        let out = put_bytes out 0 lzma_header_magic;
            (failed, out) = stream_flags_encode options out (length lzma_header_magic)
        in if failed then (LZMA_PROG_ERROR, out)
           else
             let crc = lzma_crc32 (take LZMA_STREAM_FLAGS_SIZE (drop (length lzma_header_magic) out)) 0;
                 out = put_bytes out (length lzma_header_magic + LZMA_STREAM_FLAGS_SIZE) (le32_bytes crc)
             in (LZMA_OK, out))"

definition lzma_stream_footer_encode :: "lzma_stream_flags \<Rightarrow> byte list \<Rightarrow> lzma_ret \<times> byte list" where
  "lzma_stream_footer_encode options out =
     (if sf_version options \<noteq> 0 then (LZMA_OPTIONS_ERROR, out)
      else if \<not> is_backward_size_valid options then (LZMA_PROG_ERROR, out)
      else
        let out = put_bytes out 4 (le32_bytes (ucast (backward_size options div 4 - 1)));
            (failed, out) = stream_flags_encode options out (2 * 4)
        in if failed then (LZMA_PROG_ERROR, out)
           else
             let crc = lzma_crc32 (take (4 + LZMA_STREAM_FLAGS_SIZE) (drop 4 out)) 0;
                 out = put_bytes out 0 (le32_bytes crc);
                 out = put_bytes out (2 * 4 + LZMA_STREAM_FLAGS_SIZE) lzma_footer_magic
             in (LZMA_OK, out))"

subsection \<open>stream\_flags\_decoder.c\<close>

definition stream_flags_decode :: "lzma_stream_flags \<Rightarrow> byte list \<Rightarrow> nat \<Rightarrow> bool \<times> lzma_stream_flags" where
  "stream_flags_decode options inb off =
     (if inb ! off \<noteq> 0x00 \<or> inb ! (off + 1) AND 0xF0 \<noteq> 0 then (True, options)
      else (False, options\<lparr>sf_version := 0, sf_check := ucast (inb ! (off + 1) AND 0x0F)\<rparr>))"

definition lzma_stream_header_decode :: "lzma_stream_flags \<Rightarrow> byte list \<Rightarrow> lzma_ret \<times> lzma_stream_flags" where
  "lzma_stream_header_decode options inb =
     (if take (length lzma_header_magic) inb \<noteq> lzma_header_magic then (LZMA_FORMAT_ERROR, options)
      else
        let crc = lzma_crc32 (take LZMA_STREAM_FLAGS_SIZE (drop (length lzma_header_magic) inb)) 0
        in if crc \<noteq> read32le inb (length lzma_header_magic + LZMA_STREAM_FLAGS_SIZE)
           then (LZMA_DATA_ERROR, options)
           else
             let (failed, options) = stream_flags_decode options inb (length lzma_header_magic)
             in if failed then (LZMA_OPTIONS_ERROR, options)
                else (LZMA_OK, options\<lparr>backward_size := LZMA_VLI_UNKNOWN\<rparr>))"

definition lzma_stream_footer_decode :: "lzma_stream_flags \<Rightarrow> byte list \<Rightarrow> lzma_ret \<times> lzma_stream_flags" where
  "lzma_stream_footer_decode options inb =
     (if take (length lzma_footer_magic) (drop (4 * 2 + LZMA_STREAM_FLAGS_SIZE) inb) \<noteq> lzma_footer_magic
      then (LZMA_FORMAT_ERROR, options)
      else
        let crc = lzma_crc32 (take (4 + LZMA_STREAM_FLAGS_SIZE) (drop 4 inb)) 0
        in if crc \<noteq> read32le inb 0 then (LZMA_DATA_ERROR, options)
           else
             let (failed, options) = stream_flags_decode options inb (4 * 2)
             in if failed then (LZMA_OPTIONS_ERROR, options)
                else
                  let options = options\<lparr>backward_size := ucast (read32le inb 4)\<rparr>;
                      options = options\<lparr>backward_size := (backward_size options + 1) * 4\<rparr>
                  in (LZMA_OK, options))"

subsection \<open>Round trips\<close>

lemma list_12_cases:
  "12 \<le> length xs \<Longrightarrow> \<exists>a b c d e f g h i j k l ys. xs = a # b # c # d # e # f # g # h # i # j # k # l # ys"
  by (auto simp: Suc_le_length_iff numeral_eq_Suc)

lemma check_id_cases:
  assumes "c \<le> LZMA_CHECK_ID_MAX"
  shows "(ucast c :: byte) AND 0xF0 = 0" "ucast ((ucast c :: byte) AND 0x0F) = c"
proof -
  have "unat c \<in> set [0..<16]" using assms by (simp add: word_le_nat_alt)
  then have "c \<in> set (map word_of_nat [0..<16])" by (metis image_eqI list.set_map of_nat_unat ucast_id)
  then show "(ucast c :: byte) AND 0xF0 = 0" "ucast ((ucast c :: byte) AND 0x0F) = c"
    by (auto simp: upt_conv_Cons)
qed

lemma check_byte_valid:
  assumes "(b :: byte) AND 0xF0 = 0"
  shows "ucast (b AND 0x0F) \<le> LZMA_CHECK_ID_MAX" "ucast (ucast (b AND 0x0F) :: u32) = b"
proof -
  have m: "(0x0F :: byte) = mask 4" "(0xF0 :: byte) = push_bit 4 (mask 4)"
    by (simp_all add: mask_eq_exp_minus_1 push_bit_eq_mult)
  have hi: "k < 4" if "bit b k" for k
  proof (rule ccontr)
    assume "\<not> k < 4"
    then have "bit (b AND push_bit 4 (mask 4)) k"
      using that by (auto simp: bit_simps dest: bit_imp_le_length)
    then show False using assms by (simp only: m(2)) simp
  qed
  have b: "b AND 0x0F = b" unfolding m by (rule bit_word_eqI) (auto simp: bit_simps dest: hi)
  then have "take_bit 4 b = b" by (simp only: m take_bit_eq_mask)
  then have "unat b = unat b mod 16" using unat_take_bit_mod [of 4 b] by simp
  moreover have "unat b mod 16 < 16" by simp
  ultimately have "unat b < 16" by linarith
  then show "ucast (b AND 0x0F) \<le> LZMA_CHECK_ID_MAX" "ucast (ucast (b AND 0x0F) :: u32) = b"
    unfolding b by (simp_all add: word_le_nat_alt unat_ucast_up word_unat_eq_iff unat_ucast_mod)
qed

lemma backward_size_stored:
  assumes "is_backward_size_valid f"
  shows "(ucast (ucast (backward_size f div 4 - 1) :: u32) + 1) * 4 = backward_size f"
proof -
  let ?n = "unat (backward_size f)"
  have "take_bit 2 (backward_size f) = 0"
    using assms by (simp add: is_backward_size_valid_def take_bit_eq_mask mask_eq_exp_minus_1)
  then have "?n mod 4 = 0" using unat_take_bit_mod [of 2 "backward_size f"] by simp
  have n: "4 \<le> ?n" "?n \<le> 0x400000000"
    using assms by (simp_all add: is_backward_size_valid_def word_le_nat_alt)
  define q where "q = ?n div 4"
  have "?n = 4 * q" using \<open>?n mod 4 = 0\<close> mult_div_mod_eq [of 4 ?n] by (simp add: q_def)
  with n have q: "?n = 4 * q" "1 \<le> q" "q \<le> 0x100000000" by linarith+
  have d: "unat (backward_size f div 4 - 1) = q - 1"
    using q by (simp add: unat_sub word_le_nat_alt unat_div)
  have "unat (ucast (ucast (backward_size f div 4 - 1) :: u32) :: u64) = q - 1"
    using q by (simp add: unat_ucast_up unat_ucast_mod d)
  then have "unat ((ucast (ucast (backward_size f div 4 - 1) :: u32) + 1) * 4 :: u64) = 4 * q"
    using q by (simp add: unat_word_ariths)
  then show ?thesis using q by (simp add: word_unat_eq_iff)
qed

text \<open>The twelve bytes that the format prescribes.\<close>

definition stream_flags_bytes :: "lzma_stream_flags \<Rightarrow> byte list" where
  "stream_flags_bytes f = [0, ucast (sf_check f)]"

definition stream_header_bytes :: "lzma_stream_flags \<Rightarrow> byte list" where
  "stream_header_bytes f =
     lzma_header_magic @ stream_flags_bytes f @ le32_bytes (lzma_crc32 (stream_flags_bytes f) 0)"

definition stream_footer_bytes :: "lzma_stream_flags \<Rightarrow> byte list" where
  "stream_footer_bytes f =
     (let body = le32_bytes (ucast (backward_size f div 4 - 1)) @ stream_flags_bytes f
      in le32_bytes (lzma_crc32 body 0) @ body @ lzma_footer_magic)"

lemma stream_header_encode_bytes:
  assumes "sf_version f = 0" and "sf_check f \<le> LZMA_CHECK_ID_MAX" and "12 \<le> length out"
  shows "lzma_stream_header_encode f out = (LZMA_OK, put_bytes out 0 (stream_header_bytes f))"
  using list_12_cases [OF assms(3)] assms(1,2)
  by (auto simp: lzma_stream_header_encode_def stream_flags_encode_def stream_header_bytes_def Let_def
      stream_flags_bytes_def lzma_header_magic_def put_bytes_def not_less le32_bytes_def)

lemma stream_footer_encode_bytes:
  assumes "sf_version f = 0" and "sf_check f \<le> LZMA_CHECK_ID_MAX" and "is_backward_size_valid f"
    and "12 \<le> length out"
  shows "lzma_stream_footer_encode f out = (LZMA_OK, put_bytes out 0 (stream_footer_bytes f))"
  using list_12_cases [OF assms(4)] assms(1-3)
  by (auto simp: lzma_stream_footer_encode_def stream_flags_encode_def stream_footer_bytes_def Let_def
      stream_flags_bytes_def lzma_footer_magic_def put_bytes_def not_less le32_bytes_def)

lemma length_stream_header_bytes [simp]: "length (stream_header_bytes f) = 12"
  by (simp add: stream_header_bytes_def stream_flags_bytes_def lzma_header_magic_def)

lemma length_stream_footer_bytes [simp]: "length (stream_footer_bytes f) = 12"
  by (simp add: stream_footer_bytes_def Let_def stream_flags_bytes_def lzma_footer_magic_def)

lemma stream_header_decode_bytes:
  assumes "sf_version f = 0" and "sf_check f \<le> LZMA_CHECK_ID_MAX"
  shows "lzma_stream_header_decode opts (stream_header_bytes f @ rest)
    = (LZMA_OK, f\<lparr>backward_size := LZMA_VLI_UNKNOWN\<rparr>)"
  using assms
  by (simp add: lzma_stream_header_decode_def stream_flags_decode_def stream_header_bytes_def Let_def
      stream_flags_bytes_def lzma_header_magic_def le32_bytes_def read32le_def le32_of_bytes check_id_cases)

lemma stream_footer_decode_bytes:
  assumes "sf_version f = 0" and "sf_check f \<le> LZMA_CHECK_ID_MAX" and "is_backward_size_valid f"
  shows "lzma_stream_footer_decode opts (stream_footer_bytes f @ rest) = (LZMA_OK, f)"
  using assms backward_size_stored [OF assms(3)]
  by (simp add: lzma_stream_footer_decode_def stream_flags_decode_def stream_footer_bytes_def Let_def
      stream_flags_bytes_def lzma_footer_magic_def le32_bytes_def read32le_def le32_of_bytes check_id_cases)

text \<open>C5. Stream Header and Stream Footer round trip: encoding valid flags into any
  buffer of at least twelve bytes succeeds, writes only its first twelve bytes, and decoding
  them gives the flags back (the header does not store the Backward Size, which the decoder
  marks unknown).\<close>

theorem stream_flags_roundtrip:
  assumes "sf_version f = 0" and "sf_check f \<le> LZMA_CHECK_ID_MAX" and "is_backward_size_valid f"
    and "12 \<le> length out"
  shows "\<exists>hdr ftr. lzma_stream_header_encode f out = (LZMA_OK, hdr) \<and> drop 12 hdr = drop 12 out
      \<and> lzma_stream_header_decode opts hdr = (LZMA_OK, f\<lparr>backward_size := LZMA_VLI_UNKNOWN\<rparr>)
    \<and> lzma_stream_footer_encode f out = (LZMA_OK, ftr) \<and> drop 12 ftr = drop 12 out
      \<and> lzma_stream_footer_decode opts ftr = (LZMA_OK, f)"
  using assms
  by (simp add: stream_header_encode_bytes stream_footer_encode_bytes put_bytes_def
      stream_header_decode_bytes stream_footer_decode_bytes)

theorem stream_flags_roundtrip_witness:
  "\<exists>hdr ftr. lzma_stream_header_encode \<lparr>sf_version = 0, backward_size = 8, sf_check = 4\<rparr> (replicate 12 0) = (LZMA_OK, hdr)
      \<and> drop 12 hdr = drop 12 (replicate 12 0)
      \<and> lzma_stream_header_decode \<lparr>sf_version = 9, backward_size = 0, sf_check = 0\<rparr> hdr
          = (LZMA_OK, \<lparr>sf_version = 0, backward_size = LZMA_VLI_UNKNOWN, sf_check = 4\<rparr>)
    \<and> lzma_stream_footer_encode \<lparr>sf_version = 0, backward_size = 8, sf_check = 4\<rparr> (replicate 12 0) = (LZMA_OK, ftr)
      \<and> drop 12 ftr = drop 12 (replicate 12 0)
      \<and> lzma_stream_footer_decode \<lparr>sf_version = 9, backward_size = 0, sf_check = 0\<rparr> ftr
          = (LZMA_OK, \<lparr>sf_version = 0, backward_size = 8, sf_check = 4\<rparr>)"
  using stream_flags_roundtrip [of "\<lparr>sf_version = 0, backward_size = 8, sf_check = 4\<rparr>" "replicate 12 0"
      "\<lparr>sf_version = 9, backward_size = 0, sf_check = 0\<rparr>"]
  by (simp add: is_backward_size_valid_def)

lemma stored_backward_size:
  fixes w :: u32
  defines "v \<equiv> (ucast w + 1) * 4 :: lzma_vli"
  shows "LZMA_BACKWARD_SIZE_MIN \<le> v" "v \<le> LZMA_BACKWARD_SIZE_MAX" "v AND 3 = 0"
    "ucast (v div 4 - 1) = w"
proof -
  have w: "unat w < 0x100000000" by (rule less_le_trans [OF unsigned_less]) simp
  then have v: "unat v = (unat w + 1) * 4"
    by (simp add: v_def unat_word_ariths unat_ucast_up)
  show "LZMA_BACKWARD_SIZE_MIN \<le> v" "v \<le> LZMA_BACKWARD_SIZE_MAX"
    using v w by (simp_all add: word_le_nat_alt)
  have "unat (take_bit 2 v) = 0" by (simp add: unat_take_bit_mod v)
  then show "v AND 3 = 0" by (simp add: take_bit_eq_mask mask_eq_exp_minus_1 unat_eq_zero)
  have "unat (v div 4 - 1) = unat w" using v by (simp add: unat_sub word_le_nat_alt unat_div)
  then show "ucast (v div 4 - 1) = w"
    using w by (simp add: word_unat_eq_iff unat_ucast_mod)
qed

text \<open>C6. The footer decoder is canonical: whatever twelve bytes it accepts are
  exactly the bytes the encoder writes for the flags it returned, and these flags are valid
  for the encoder.\<close>

theorem stream_footer_decode_canonical:
  assumes "lzma_stream_footer_decode opts inb = (LZMA_OK, f)" and "length inb = 12" and "length out = 12"
  shows "is_backward_size_valid f \<and> sf_check f \<le> LZMA_CHECK_ID_MAX \<and> sf_version f = 0
    \<and> lzma_stream_footer_encode f out = (LZMA_OK, inb)"
proof -
  obtain a b c d e f' g h i j k l where inb: "inb = [a, b, c, d, e, f', g, h, i, j, k, l]"
    using list_12_cases [of inb] assms(2) by auto
  let ?w = "le32 e f' g h"
  have dec: "k = 0x59" "l = 0x5A" "i = 0" "j AND 0xF0 = 0"
      "lzma_crc32 [e, f', g, h, i, j] 0 = le32 a b c d"
      "f = opts\<lparr>sf_version := 0, sf_check := ucast (j AND 0x0F), backward_size := (ucast ?w + 1) * 4\<rparr>"
    using assms(1) by (auto simp: inb lzma_stream_footer_decode_def stream_flags_decode_def Let_def
        lzma_footer_magic_def read32le_def split: if_splits)
  have valid: "is_backward_size_valid f" "sf_check f \<le> LZMA_CHECK_ID_MAX" "sf_version f = 0"
    using stored_backward_size [of ?w] check_byte_valid(1) [OF dec(4)]
    by (simp_all add: dec(6) is_backward_size_valid_def)
  have "stream_footer_bytes f = inb"
    using stored_backward_size(4) [of ?w] check_byte_valid(2) [OF dec(4)] dec(1-5)
    by (simp add: stream_footer_bytes_def stream_flags_bytes_def dec(6) le32_bytes_le32 inb
        lzma_footer_magic_def Let_def)
  then show ?thesis
    using stream_footer_encode_bytes [OF valid(3,2,1), of out] valid assms(2,3)
    by (simp add: put_bytes_def)
qed

theorem stream_footer_decode_canonical_witness:
  "lzma_stream_footer_encode \<lparr>sf_version = 0, backward_size = 8, sf_check = 4\<rparr> (replicate 12 0)
    = (LZMA_OK, stream_footer_bytes \<lparr>sf_version = 0, backward_size = 8, sf_check = 4\<rparr>)"
  using stream_footer_decode_canonical [of "\<lparr>sf_version = 1, backward_size = 0, sf_check = 0\<rparr>"
      "stream_footer_bytes \<lparr>sf_version = 0, backward_size = 8, sf_check = 4\<rparr>"
      "\<lparr>sf_version = 0, backward_size = 8, sf_check = 4\<rparr>" "replicate 12 0"]
    stream_footer_decode_bytes [of "\<lparr>sf_version = 0, backward_size = 8, sf_check = 4\<rparr>" _ "[]"]
  by (simp add: is_backward_size_valid_def)

end
