(* ===== verification/Common.thy ===== *)
theory Common
  imports Lzma_Prelude
begin

text \<open>
  The coder interface and the application interface of liblzma:
  src/liblzma/src/liblzma/common/common.h and common.c.

  A coder is a function of the type \<open>lzma_code_function\<close>: it takes the state of the coder,
  the input with the position and the end of what may be read, the output with the
  position and the end of what may be written, and the action; it returns the code, the new
  state, the new input position, the output buffer and the new output position. The coders
  of a chain call each other through the \<open>next\<close> member of their state, so the type of the
  state of the next coder is a parameter. A null pointer is \<open>None\<close>. Allocation and freeing
  are not modelled as a heap: a function that allocates takes as an argument whether the
  allocation succeeds.

  The first locale states what every coder promises about its positions and buffers; the
  second what a filter promises about the data: that the bytes produced so far are a
  function of the bytes consumed so far, however the calls cut them up.
\<close>

subsection \<open>Types: api/lzma/base.h, common.h\<close>

datatype lzma_action = LZMA_RUN | LZMA_SYNC_FLUSH | LZMA_FULL_FLUSH | LZMA_FINISH | LZMA_FULL_BARRIER

type_synonym 's lzma_code_function =
  "'s \<Rightarrow> byte list \<Rightarrow> nat \<Rightarrow> nat \<Rightarrow> byte list \<Rightarrow> nat \<Rightarrow> nat \<Rightarrow> lzma_action
   \<Rightarrow> lzma_ret \<times> 's \<times> nat \<times> byte list \<times> nat"

record 's lzma_next_coder =
  nc_coder :: "'s option"
  nc_id :: lzma_vli
  nc_init :: "nat option"
  nc_code :: "'s lzma_code_function option"
  nc_get_progress :: "('s \<Rightarrow> u64 \<times> u64) option"
  nc_get_check :: "('s \<Rightarrow> u32) option"
  nc_memconfig :: "('s \<Rightarrow> u64 \<Rightarrow> lzma_ret \<times> 's \<times> u64 \<times> u64) option"

definition LZMA_NEXT_CODER_INIT :: "'s lzma_next_coder" where
  "LZMA_NEXT_CODER_INIT = \<lparr>nc_coder = None, nc_id = LZMA_VLI_UNKNOWN, nc_init = None, nc_code = None,
     nc_get_progress = None, nc_get_check = None, nc_memconfig = None\<rparr>"

text \<open>Filter-specific options: api/lzma/bcj.h, delta.h, lzma.h. The \<open>void *\<close> of the C
  code, whose type the Filter ID decides, is one datatype.\<close>

record lzma_options_delta =
  delta_type :: nat
  delta_dist :: u32

record lzma_options_lzma =
  dict_size :: u32
  preset_dict_size :: u32
  lc :: u32
  lp :: u32
  pb :: u32
  lzma_mode :: nat
  nice_len :: u32
  lzma_mf :: nat
  lzma_depth :: u32

datatype lzma_options =
    Opt_bcj u32
  | Opt_delta lzma_options_delta
  | Opt_lzma lzma_options_lzma

record lzma_filter =
  filter_id :: lzma_vli
  filter_options :: "lzma_options option"

lemma LZMA_NEXT_CODER_INIT_simps [simp]:
  "nc_coder LZMA_NEXT_CODER_INIT = None" "nc_code LZMA_NEXT_CODER_INIT = None"
  "nc_init LZMA_NEXT_CODER_INIT = None" "nc_id LZMA_NEXT_CODER_INIT = LZMA_VLI_UNKNOWN"
  by (simp_all add: LZMA_NEXT_CODER_INIT_def)

subsection \<open>common.c: copying\<close>

definition lzma_bufcpy ::
  "byte list \<Rightarrow> nat \<Rightarrow> nat \<Rightarrow> byte list \<Rightarrow> nat \<Rightarrow> nat \<Rightarrow> nat \<times> byte list \<times> nat" where
  "lzma_bufcpy inb in_pos in_size out out_pos out_size =
     (let in_avail = in_size - in_pos;
          out_avail = out_size - out_pos;
          copy_size = min in_avail out_avail
      in (in_pos + copy_size, put_bytes out out_pos (take copy_size (drop in_pos inb)), out_pos + copy_size))"

text \<open>Calling the next coder of the chain stores its new state.\<close>

definition call_next :: "'s lzma_code_function \<Rightarrow> 's lzma_next_coder \<Rightarrow> byte list \<Rightarrow> nat \<Rightarrow> nat
    \<Rightarrow> byte list \<Rightarrow> nat \<Rightarrow> nat \<Rightarrow> lzma_action \<Rightarrow> lzma_ret \<times> 's lzma_next_coder \<times> nat \<times> byte list \<times> nat" where
  "call_next code next inb in_pos in_size out out_pos out_size action =
     (let (ret, s, in_pos, out, out_pos) = code (the (nc_coder next)) inb in_pos in_size out out_pos out_size action
      in (ret, next\<lparr>nc_coder := Some s\<rparr>, in_pos, out, out_pos))"

subsection \<open>common.c: the next coder\<close>

text \<open>\<open>next->init\<close> holds the address of the initialisation function, here a number; an
  initialisation function is the pair of this number and the function.\<close>

definition lzma_next_end :: "'s lzma_next_coder \<Rightarrow> 's lzma_next_coder" where
  "lzma_next_end next = (if nc_init next \<noteq> None then LZMA_NEXT_CODER_INIT else next)"

definition lzma_next_coder_init :: "nat option \<Rightarrow> 's lzma_next_coder \<Rightarrow> 's lzma_next_coder" where
  "lzma_next_coder_init func next =
     (let next = (if func \<noteq> nc_init next then lzma_next_end next else next)
      in next\<lparr>nc_init := func\<rparr>)"

definition lzma_next_filter_init ::
  "lzma_vli \<Rightarrow> (nat \<times> ('s lzma_next_coder \<Rightarrow> lzma_ret \<times> 's lzma_next_coder)) option
   \<Rightarrow> 's lzma_next_coder \<Rightarrow> lzma_ret \<times> 's lzma_next_coder" where
  "lzma_next_filter_init fid init next =
     (let next = lzma_next_coder_init (map_option fst init) next;
          next = next\<lparr>nc_id := fid\<rparr>
      in case init of None \<Rightarrow> (LZMA_OK, next) | Some (_, f) \<Rightarrow> f next)"

text \<open>The end of a filter chain: \<open>filters[0].init\<close> is \<open>NULL\<close>.\<close>

definition next_filter_none :: "'s lzma_next_coder \<Rightarrow> lzma_ret \<times> 's lzma_next_coder" where
  "next_filter_none = lzma_next_filter_init LZMA_VLI_UNKNOWN None"

lemma next_filter_none_init [simp]: "next_filter_none LZMA_NEXT_CODER_INIT = (LZMA_OK, LZMA_NEXT_CODER_INIT)"
  by (simp add: next_filter_none_def lzma_next_filter_init_def lzma_next_coder_init_def LZMA_NEXT_CODER_INIT_def)

subsection \<open>What every coder promises\<close>

text \<open>The arguments of a call are in range: \<open>io_ok\<close>. The result is: \<open>io_step\<close>; the coder
  moves its positions forward inside the ranges it was given and writes only there.\<close>

definition io_ok :: "byte list \<Rightarrow> nat \<Rightarrow> nat \<Rightarrow> byte list \<Rightarrow> nat \<Rightarrow> nat \<Rightarrow> bool" where
  "io_ok inb in_pos in_size out out_pos out_size \<longleftrightarrow>
     in_pos \<le> in_size \<and> in_size \<le> length inb \<and> out_pos \<le> out_size \<and> out_size \<le> length out"

definition io_step :: "nat \<Rightarrow> nat \<Rightarrow> byte list \<Rightarrow> nat \<Rightarrow> nat \<Rightarrow> nat \<Rightarrow> byte list \<Rightarrow> nat \<Rightarrow> bool" where
  "io_step in_pos in_size out out_pos out_size in_pos' out' out_pos' \<longleftrightarrow>
     in_pos \<le> in_pos' \<and> in_pos' \<le> in_size \<and> out_pos \<le> out_pos' \<and> out_pos' \<le> out_size
     \<and> length out' = length out \<and> take out_pos out' = take out_pos out \<and> drop out_size out' = drop out_size out"

text \<open>The output part of a step, with the bytes it produced.\<close>

definition io_emit :: "byte list \<Rightarrow> nat \<Rightarrow> nat \<Rightarrow> byte list \<Rightarrow> nat \<Rightarrow> byte list \<Rightarrow> bool" where
  "io_emit out out_pos out_size out' out_pos' bs \<longleftrightarrow>
     out_pos \<le> out_pos' \<and> out_pos' \<le> out_size \<and> length out' = length out \<and> take out_pos out' = take out_pos out
     \<and> drop out_size out' = drop out_size out \<and> slice out_pos out_pos' out' = bs"

lemma io_step_emit:
  "io_step in_pos in_size out out_pos out_size in_pos' out' out_pos' \<longleftrightarrow>
     in_pos \<le> in_pos' \<and> in_pos' \<le> in_size \<and> io_emit out out_pos out_size out' out_pos' (slice out_pos out_pos' out')"
  by (auto simp: io_step_def io_emit_def)

lemma io_emit_refl: "out_pos \<le> out_size \<Longrightarrow> io_emit out out_pos out_size out out_pos []"
  by (simp add: io_emit_def)

lemma io_emit_trans:
  assumes "io_emit out p sz out1 p1 bs" and "io_emit out1 p1 sz out2 p2 bs'"
  shows "io_emit out p sz out2 p2 (bs @ bs')"
proof -
  have "take p1 out2 = take p1 out1" "p \<le> p1" "p1 \<le> p2" using assms by (auto simp: io_emit_def)
  moreover from this have "take p out2 = take p out1"
    by (metis min.absorb1 take_take)
  moreover have "slice p p1 out2 = slice p p1 out1" using calculation(1) by (rule slice_cong_take)
  moreover have "slice p p2 out2 = slice p p1 out2 @ slice p1 p2 out2"
    using calculation(2,3) by (simp add: slice_append_slice)
  ultimately show ?thesis using assms by (simp add: io_emit_def)
qed

lemma io_emit_put:
  "p + length bs \<le> sz \<Longrightarrow> sz \<le> length out \<Longrightarrow> io_emit out p sz (put_bytes out p bs) (p + length bs) bs"
  by (simp add: io_emit_def drop_put_bytes take_put_bytes slice_put_bytes_in)

lemma io_emit_rewrite:
  assumes "io_emit out p sz out1 p1 bs" and "length bs' = length bs" and "sz \<le> length out"
  shows "io_emit out p sz (put_bytes out1 p bs') p1 bs'"
proof -
  have "length bs = p1 - p" using assms by (auto simp: io_emit_def slice_def)
  then show ?thesis
    using assms slice_put_bytes_in [of p out1 bs']
    by (auto simp: io_emit_def drop_put_bytes take_put_bytes_before)
qed

lemma io_emit_shrink:
  assumes "io_emit out p sz out1 p1 bs" and "k \<le> length bs" and "sz \<le> length out"
  shows "io_emit out p sz out1 (p1 - k) (take (length bs - k) bs)" and "slice (p1 - k) p1 out1 = drop (length bs - k) bs"
proof -
  have len: "length bs = p1 - p" using assms by (auto simp: io_emit_def slice_def)
  then have "take (length bs - k) bs = slice p (p1 - k) out1"
    using assms by (auto simp: io_emit_def slice_def min_def add.commute)
  then show "io_emit out p sz out1 (p1 - k) (take (length bs - k) bs)"
    using assms len by (auto simp: io_emit_def)
  show "slice (p1 - k) p1 out1 = drop (length bs - k) bs"
    using assms len by (auto simp: io_emit_def slice_def drop_take)
qed

lemma lzma_bufcpy_emit:
  assumes "lzma_bufcpy inb in_pos in_size out out_pos out_size = (in_pos', out', out_pos')"
    and "io_ok inb in_pos in_size out out_pos out_size"
  shows "in_pos \<le> in_pos' \<and> in_pos' \<le> in_size \<and> io_emit out out_pos out_size out' out_pos' (slice in_pos in_pos' inb)
    \<and> (in_pos' = in_size \<or> out_pos' = out_size)"
proof -
  let ?n = "min (in_size - in_pos) (out_size - out_pos)"
  let ?bs = "take ?n (drop in_pos inb)"
  have len: "length ?bs = ?n" using assms(2) by (auto simp: io_ok_def)
  have r: "in_pos' = in_pos + ?n" "out' = put_bytes out out_pos ?bs" "out_pos' = out_pos + ?n"
    using assms(1) by (auto simp: lzma_bufcpy_def Let_def)
  have "io_emit out out_pos out_size (put_bytes out out_pos ?bs) (out_pos + length ?bs) ?bs"
    using assms(2) len by (intro io_emit_put) (auto simp: io_ok_def)
  moreover have "slice in_pos in_pos' inb = ?bs" by (simp add: r slice_def)
  ultimately show ?thesis using assms(2) unfolding len by (auto simp: r io_ok_def)
qed

text \<open>Any number of calls: each offers up to \<open>m\<close> more bytes of the input and a fresh
  output buffer of \<open>n\<close> bytes; the output is collected, and the calls end when the coder
  returns something else than \<open>LZMA_OK\<close>.\<close>

fun coder_calls :: "'s lzma_code_function \<Rightarrow> 's \<Rightarrow> byte list \<Rightarrow> (nat \<times> nat \<times> lzma_action) list
    \<Rightarrow> lzma_ret \<times> 's \<times> byte list \<times> byte list" where
  "coder_calls code s inb [] = (LZMA_OK, s, inb, [])"
| "coder_calls code s inb ((m, n, action) # calls) =
     (let (ret, s, in_pos, out, out_pos) = code s inb 0 (min m (length inb)) (replicate n 0) 0 n action
      in if ret = LZMA_OK
         then let (ret, s, rest, outs) = coder_calls code s (drop in_pos inb) calls
              in (ret, s, rest, take out_pos out @ outs)
         else (ret, s, drop in_pos inb, take out_pos out))"

text \<open>A coder whose invariant \<open>R c d s\<close> relates the bytes consumed and produced so far to
  its state, as long as it does not fail.\<close>

locale stream_coder =
  fixes code :: "'s lzma_code_function"
    and R :: "byte list \<Rightarrow> byte list \<Rightarrow> 's \<Rightarrow> bool"
    and fin :: "byte list \<Rightarrow> byte list \<Rightarrow> bool"
  assumes code_io: "\<lbrakk>io_ok inb in_pos in_size out out_pos out_size; R c d s;
        code s inb in_pos in_size out out_pos out_size action = (ret, s', in_pos', out', out_pos')\<rbrakk>
      \<Longrightarrow> io_step in_pos in_size out out_pos out_size in_pos' out' out_pos'"
    and code_keeps: "\<lbrakk>io_ok inb in_pos in_size out out_pos out_size; R c d s;
        code s inb in_pos in_size out out_pos out_size action = (LZMA_OK, s', in_pos', out', out_pos')\<rbrakk>
      \<Longrightarrow> R (c @ slice in_pos in_pos' inb) (d @ slice out_pos out_pos' out') s'"
    and code_finishes: "\<lbrakk>io_ok inb in_pos in_size out out_pos out_size; R c d s;
        code s inb in_pos in_size out out_pos out_size action = (LZMA_STREAM_END, s', in_pos', out', out_pos')\<rbrakk>
      \<Longrightarrow> fin (c @ slice in_pos in_pos' inb) (d @ slice out_pos out_pos' out')"

begin

lemma coder_calls_stream:
  assumes "R c d s" and "coder_calls code s inb calls = (ret, s', rest, outs)"
  shows "\<exists>used. inb = used @ rest
    \<and> (ret = LZMA_OK \<longrightarrow> R (c @ used) (d @ outs) s') \<and> (ret = LZMA_STREAM_END \<longrightarrow> fin (c @ used) (d @ outs))"
  using assms
proof (induction calls arbitrary: s inb c d ret s' rest outs)
  case (Cons call calls)
  obtain m n action where [simp]: "call = (m, n, action)" by (cases call) auto
  let ?k = "min m (length inb)"
  obtain r t ip out op where call: "code s inb 0 ?k (replicate n 0) 0 n action = (r, t, ip, out, op)"
    by (metis prod_cases5)
  have ok: "io_ok inb 0 ?k (replicate n 0) 0 n" by (simp add: io_ok_def)
  have R: "r = LZMA_OK \<Longrightarrow> R (c @ take ip inb) (d @ take op out) t"
    and F: "r = LZMA_STREAM_END \<Longrightarrow> fin (c @ take ip inb) (d @ take op out)"
    using code_keeps [OF ok Cons.prems(1)] code_finishes [OF ok Cons.prems(1)] call by auto
  show ?case
  proof (cases "r = LZMA_OK")
    case True
    with Cons.prems(2) call obtain outs' where rec: "coder_calls code t (drop ip inb) calls = (ret, s', rest, outs')"
      and [simp]: "outs = take op out @ outs'"
      by (auto split: prod.splits)
    from Cons.IH [OF R [OF True] rec] obtain used where used: "drop ip inb = used @ rest"
      and post: "ret = LZMA_OK \<longrightarrow> R ((c @ take ip inb) @ used) ((d @ take op out) @ outs') s'"
        "ret = LZMA_STREAM_END \<longrightarrow> fin ((c @ take ip inb) @ used) ((d @ take op out) @ outs')"
      by blast
    have "inb = (take ip inb @ used) @ rest"
      using used append_take_drop_id [of ip inb] by simp
    with post show ?thesis by (intro exI [of _ "take ip inb @ used"]) simp
  next
    case False
    with Cons.prems(2) call F show ?thesis
      by (intro exI [of _ "take ip inb"]) auto
  qed
qed simp

end

end
