(* ===== verification/Delta.thy ===== *)
theory Delta
  imports Common
begin

unbundle bit_operations_syntax

text \<open>
  The Delta filter: src/liblzma/src/liblzma/delta/delta\_common.c, delta\_encoder.c and
  delta\_decoder.c. The history is a ring of 256 bytes indexed by the byte \<open>pos\<close>, which counts
  down and wraps around; the loops over a buffer are recursions on the part of the buffer
  they process.

  The reference \<open>delta_ref\<close> subtracts from each byte the one \<open>dist\<close> positions before it. The
  encoder produces \<open>delta_ref dist\<close> of what it consumed, as the first filter of a chain or
  above another coder, and the decoder undoes it, for every distance, every chunking
  and every coder below.
\<close>

subsection \<open>delta\_private.h, delta\_common.c\<close>

record 's delta_coder =
  dl_next :: "'s lzma_next_coder"
  dl_distance :: nat
  dl_pos :: byte
  dl_history :: "byte list"

abbreviation (input) LZMA_DELTA_TYPE_BYTE :: nat where "LZMA_DELTA_TYPE_BYTE \<equiv> 0"
abbreviation (input) LZMA_DELTA_DIST_MIN :: u32 where "LZMA_DELTA_DIST_MIN \<equiv> 1"
abbreviation (input) LZMA_DELTA_DIST_MAX :: u32 where "LZMA_DELTA_DIST_MAX \<equiv> 256"
abbreviation (input) UINT64_MAX :: u64 where "UINT64_MAX \<equiv> 0xFFFFFFFFFFFFFFFF"

text \<open>\<open>sizeof(lzma_coder)\<close> of this filter is 344 on a machine with 64-bit pointers.\<close>

definition lzma_delta_coder_memusage :: "lzma_options_delta option \<Rightarrow> u64" where
  "lzma_delta_coder_memusage options =
     (case options of None \<Rightarrow> UINT64_MAX
      | Some opt \<Rightarrow>
          if delta_type opt \<noteq> LZMA_DELTA_TYPE_BYTE \<or> delta_dist opt < LZMA_DELTA_DIST_MIN
             \<or> LZMA_DELTA_DIST_MAX < delta_dist opt
          then UINT64_MAX else 344)"

text \<open>\<open>fresh\<close> is the content of newly allocated memory; \<open>init_rest\<close> is
  \<open>lzma_next_filter_init\<close> on the rest of the filter chain.\<close>

definition lzma_delta_coder_init ::
  "bool \<Rightarrow> 's delta_coder \<Rightarrow> ('s lzma_next_coder \<Rightarrow> lzma_ret \<times> 's lzma_next_coder)
   \<Rightarrow> lzma_options_delta option \<Rightarrow> 's delta_coder lzma_next_coder \<Rightarrow> lzma_ret \<times> 's delta_coder lzma_next_coder" where
  "lzma_delta_coder_init alloc_ok fresh init_rest options next =
     (if nc_coder next = None \<and> \<not> alloc_ok then (LZMA_MEM_ERROR, next)
      else let coder = (case nc_coder next of Some coder \<Rightarrow> coder
                        | None \<Rightarrow> fresh\<lparr>dl_next := LZMA_NEXT_CODER_INIT\<rparr>)
        in if lzma_delta_coder_memusage options = UINT64_MAX
           then (LZMA_OPTIONS_ERROR, next\<lparr>nc_coder := Some coder\<rparr>)
           else let coder = coder\<lparr>dl_distance := unat (delta_dist (the options)), dl_pos := 0,
                                  dl_history := replicate 256 0\<rparr>;
                    (ret, n) = init_rest (dl_next coder)
                in (ret, next\<lparr>nc_coder := Some (coder\<lparr>dl_next := n\<rparr>)\<rparr>))"

subsection \<open>delta\_encoder.c\<close>

definition delta_tmp :: "'s delta_coder \<Rightarrow> byte" where
  "delta_tmp coder = dl_history coder ! ((dl_distance coder + unat (dl_pos coder)) mod 256)"

definition delta_store :: "byte \<Rightarrow> 's delta_coder \<Rightarrow> 's delta_coder" where
  "delta_store b coder = coder\<lparr>dl_history := (dl_history coder)[unat (dl_pos coder) := b],
     dl_pos := dl_pos coder - 1\<rparr>"

fun copy_and_encode :: "'s delta_coder \<Rightarrow> byte list \<Rightarrow> 's delta_coder \<times> byte list" where
  "copy_and_encode coder [] = (coder, [])"
| "copy_and_encode coder (b # inb) =
     (let tmp = delta_tmp coder;
          coder = delta_store b coder;
          (coder, out) = copy_and_encode coder inb
      in (coder, (b - tmp) # out))"

fun encode_in_place :: "'s delta_coder \<Rightarrow> byte list \<Rightarrow> 's delta_coder \<times> byte list" where
  "encode_in_place coder [] = (coder, [])"
| "encode_in_place coder (b # buffer) =
     (let tmp = delta_tmp coder;
          coder = delta_store b coder;
          b = b - tmp;
          (coder, buffer) = encode_in_place coder buffer
      in (coder, b # buffer))"

definition delta_encode :: "'s delta_coder lzma_code_function" where
  "delta_encode coder inb in_pos in_size out out_pos out_size action =
     (case nc_code (dl_next coder) of
        None \<Rightarrow>
          (let in_avail = in_size - in_pos;
               out_avail = out_size - out_pos;
               size = min in_avail out_avail;
               (coder, bytes) = copy_and_encode coder (take size (drop in_pos inb));
               out = put_bytes out out_pos bytes;
               in_pos = in_pos + size;
               out_pos = out_pos + size
           in (if action \<noteq> LZMA_RUN \<and> in_pos = in_size then LZMA_STREAM_END else LZMA_OK,
               coder, in_pos, out, out_pos))
      | Some code \<Rightarrow>
          (let out_start = out_pos;
               (ret, n, in_pos, out, out_pos) =
                 call_next code (dl_next coder) inb in_pos in_size out out_pos out_size action;
               (coder, bytes) = encode_in_place (coder\<lparr>dl_next := n\<rparr>) (slice out_start out_pos out)
           in (ret, coder, in_pos, put_bytes out out_start bytes, out_pos)))"

definition lzma_delta_encoder_init ::
  "bool \<Rightarrow> 's delta_coder \<Rightarrow> ('s lzma_next_coder \<Rightarrow> lzma_ret \<times> 's lzma_next_coder)
   \<Rightarrow> lzma_options_delta option \<Rightarrow> 's delta_coder lzma_next_coder \<Rightarrow> lzma_ret \<times> 's delta_coder lzma_next_coder" where
  "lzma_delta_encoder_init alloc_ok fresh init_rest options next =
     lzma_delta_coder_init alloc_ok fresh init_rest options (next\<lparr>nc_code := Some delta_encode\<rparr>)"

definition lzma_delta_props_encode :: "lzma_options_delta option \<Rightarrow> byte list \<Rightarrow> lzma_ret \<times> byte list" where
  "lzma_delta_props_encode options out =
     (if lzma_delta_coder_memusage options = UINT64_MAX then (LZMA_PROG_ERROR, out)
      else (LZMA_OK, out[0 := ucast (delta_dist (the options) - LZMA_DELTA_DIST_MIN)]))"

subsection \<open>delta\_decoder.c\<close>

fun decode_buffer :: "'s delta_coder \<Rightarrow> byte list \<Rightarrow> 's delta_coder \<times> byte list" where
  "decode_buffer coder [] = (coder, [])"
| "decode_buffer coder (b # buffer) =
     (let b = b + delta_tmp coder;
          coder = delta_store b coder;
          (coder, buffer) = decode_buffer coder buffer
      in (coder, b # buffer))"

definition delta_decode :: "'s delta_coder lzma_code_function" where
  "delta_decode coder inb in_pos in_size out out_pos out_size action =
     (let out_start = out_pos;
          (ret, n, in_pos, out, out_pos) = call_next (the (nc_code (dl_next coder))) (dl_next coder)
             inb in_pos in_size out out_pos out_size action;
          (coder, bytes) = decode_buffer (coder\<lparr>dl_next := n\<rparr>) (slice out_start out_pos out)
      in (ret, coder, in_pos, put_bytes out out_start bytes, out_pos))"

definition lzma_delta_decoder_init ::
  "bool \<Rightarrow> 's delta_coder \<Rightarrow> ('s lzma_next_coder \<Rightarrow> lzma_ret \<times> 's lzma_next_coder)
   \<Rightarrow> lzma_options_delta option \<Rightarrow> 's delta_coder lzma_next_coder \<Rightarrow> lzma_ret \<times> 's delta_coder lzma_next_coder" where
  "lzma_delta_decoder_init alloc_ok fresh init_rest options next =
     lzma_delta_coder_init alloc_ok fresh init_rest options (next\<lparr>nc_code := Some delta_decode\<rparr>)"

definition lzma_delta_props_decode :: "bool \<Rightarrow> byte list \<Rightarrow> nat \<Rightarrow> lzma_ret \<times> lzma_options_delta option" where
  "lzma_delta_props_decode alloc_ok props props_size =
     (if props_size \<noteq> 1 then (LZMA_OPTIONS_ERROR, None)
      else if \<not> alloc_ok then (LZMA_MEM_ERROR, None)
      else (LZMA_OK, Some \<lparr>delta_type = LZMA_DELTA_TYPE_BYTE, delta_dist = ucast (props ! 0) + 1\<rparr>))"

subsection \<open>The reference and the history\<close>

definition delta_past :: "nat \<Rightarrow> byte list \<Rightarrow> byte" where
  "delta_past k xs = (if k \<le> length xs then xs ! (length xs - k) else 0)"

definition delta_ref :: "nat \<Rightarrow> byte list \<Rightarrow> byte list" where
  "delta_ref dist xs = map (\<lambda>i. xs ! i - delta_past dist (take i xs)) [0..<length xs]"

lemma delta_ref_Nil [simp]: "delta_ref dist [] = []"
  by (simp add: delta_ref_def)

lemma length_delta_ref [simp]: "length (delta_ref dist xs) = length xs"
  by (simp add: delta_ref_def)

lemma delta_ref_snoc: "delta_ref dist (xs @ [x]) = delta_ref dist xs @ [x - delta_past dist xs]"
  by (simp add: delta_ref_def nth_append)

lemma delta_ref_inject: "delta_ref dist xs = delta_ref dist ys \<longleftrightarrow> xs = ys"
proof (induction xs arbitrary: ys rule: rev_induct)
  case Nil
  show ?case by (metis delta_ref_Nil length_0_conv length_delta_ref)
next
  case (snoc x xs)
  show ?case by (cases ys rule: rev_cases) (auto simp: delta_ref_snoc snoc.IH)
qed

text \<open>After the bytes \<open>xs\<close> the byte \<open>k\<close> positions back is in the ring \<open>k\<close> slots above \<open>pos\<close>.\<close>

definition delta_ok :: "nat \<Rightarrow> byte list \<Rightarrow> 's delta_coder \<Rightarrow> bool" where
  "delta_ok dist xs coder \<longleftrightarrow> 1 \<le> dist \<and> dist \<le> 256 \<and> dl_distance coder = dist
     \<and> length (dl_history coder) = 256
     \<and> (\<forall>k\<in>{1..256}. dl_history coder ! ((k + unat (dl_pos coder)) mod 256) = delta_past k xs)"

lemma delta_ok_tmp: "delta_ok dist xs coder \<Longrightarrow> delta_tmp coder = delta_past dist xs"
  by (auto simp: delta_ok_def delta_tmp_def)

lemma delta_past_snoc: "1 \<le> k \<Longrightarrow> delta_past k (xs @ [x]) = (if k = 1 then x else delta_past (k - 1) xs)"
  by (auto simp: delta_past_def nth_append)

lemma unat_byte_pred: "(unat (p - 1 :: byte) + 1) mod 256 = unat p"
proof -
  have "unat (p - 1 + 1) = (unat (p - 1) + 1) mod 256" by (subst unat_word_ariths) simp
  then show ?thesis by simp
qed

lemma delta_ok_store:
  assumes "delta_ok dist xs coder"
  shows "delta_ok dist (xs @ [b]) (delta_store b coder)"
proof -
  let ?p = "unat (dl_pos coder)" and ?q = "unat (dl_pos coder - 1)"
  have ix: "(k + ?q) mod 256 = (k - 1 + ?p) mod 256" if "1 \<le> k" for k
  proof -
    have "(k + ?q) mod 256 = (k - 1 + (?q + 1) mod 256) mod 256"
      using that by (cases k) (simp_all add: mod_add_right_eq)
    then show ?thesis by (simp only: unat_byte_pred)
  qed
  have p: "?p < 256" by (rule unat_byte_less)
  have ne: "(k - 1 + ?p) mod 256 \<noteq> ?p" if "k \<in> {2..256}" for k
  proof (cases "k - 1 + ?p < 256")
    case False
    then have "(k - 1 + ?p) mod 256 = k - 1 + ?p - 256"
      using that p by (intro mod_nat_eqI) auto
    moreover have "k - 1 + ?p - 256 \<noteq> ?p" using that p False by auto
    ultimately show ?thesis by simp
  qed (use that in auto)
  have "dl_history (delta_store b coder) ! ((k + ?q) mod 256) = delta_past k (xs @ [b])"
    if k: "k \<in> {1..256}" for k
  proof (cases "k = 1")
    case True
    then show ?thesis using assms p ix [of 1] by (simp add: delta_ok_def delta_store_def delta_past_snoc)
  next
    case False
    with k have "k \<in> {2..256}" and "k - 1 \<in> {1..256}" by auto
    moreover from this have "dl_history coder ! ((k - 1 + ?p) mod 256) = delta_past (k - 1) xs"
      using assms unfolding delta_ok_def by blast
    ultimately show ?thesis
      using assms p ix [of k] ne [of k] k by (simp add: delta_ok_def delta_store_def delta_past_snoc)
  qed
  then show ?thesis using assms by (simp add: delta_ok_def delta_store_def)
qed

lemma delta_store_next [simp]: "dl_next (delta_store b coder) = dl_next coder"
  by (simp add: delta_store_def)

lemma encode_in_place_copy: "encode_in_place coder xs = copy_and_encode coder xs"
  by (induction coder xs rule: encode_in_place.induct) simp_all

lemma copy_and_encode_ref:
  assumes "delta_ok dist past coder" and "copy_and_encode coder xs = (coder', out)"
  shows "delta_ref dist (past @ xs) = delta_ref dist past @ out \<and> delta_ok dist (past @ xs) coder'
    \<and> dl_next coder' = dl_next coder \<and> length out = length xs"
  using assms
proof (induction coder xs arbitrary: past coder' out rule: copy_and_encode.induct)
  case (2 coder b xs)
  from 2(3) obtain out' where rec: "copy_and_encode (delta_store b coder) xs = (coder', out')"
    and out: "out = (b - delta_tmp coder) # out'"
    by (auto simp: Let_def split: prod.splits)
  show ?case
    using 2(1) [OF refl refl delta_ok_store [OF 2(2)] rec] delta_ok_tmp [OF 2(2)] out
    by (simp add: delta_ref_snoc)
qed simp

lemma decode_buffer_ref:
  assumes "delta_ok dist past coder" and "decode_buffer coder ys = (coder', out)"
  shows "delta_ref dist (past @ out) = delta_ref dist past @ ys \<and> delta_ok dist (past @ out) coder'
    \<and> dl_next coder' = dl_next coder \<and> length out = length ys"
  using assms
proof (induction coder ys arbitrary: past coder' out rule: decode_buffer.induct)
  case (2 coder b ys)
  let ?b = "b + delta_tmp coder"
  from 2(3) obtain out' where rec: "decode_buffer (delta_store ?b coder) ys = (coder', out')"
    and out: "out = ?b # out'"
    by (auto simp: Let_def split: prod.splits)
  show ?case
    using 2(1) [OF refl refl delta_ok_store [OF 2(2)] rec] delta_ok_tmp [OF 2(2)] out
    by (simp add: delta_ref_snoc)
qed simp

subsection \<open>The filter as the first of its chain, and above another coder\<close>

definition delta_first_R :: "nat \<Rightarrow> byte list \<Rightarrow> byte list \<Rightarrow> 's delta_coder \<Rightarrow> bool" where
  "delta_first_R dist c d s \<longleftrightarrow> nc_code (dl_next s) = None \<and> delta_ok dist c s \<and> d = delta_ref dist c"

lemma delta_encode_first_step:
  assumes io: "io_ok inb in_pos in_size out out_pos out_size" and R: "delta_first_R dist c d s"
    and call: "delta_encode s inb in_pos in_size out out_pos out_size action = (ret, s', in_pos', out', out_pos')"
  shows "io_step in_pos in_size out out_pos out_size in_pos' out' out_pos'
    \<and> delta_first_R dist (c @ slice in_pos in_pos' inb) (d @ slice out_pos out_pos' out') s'"
proof -
  let ?n = "min (in_size - in_pos) (out_size - out_pos)"
  let ?xs = "take ?n (drop in_pos inb)"
  obtain t bytes where enc: "copy_and_encode s ?xs = (t, bytes)" by (cases "copy_and_encode s ?xs")
  have res: "s' = t" "in_pos' = in_pos + ?n" "out' = put_bytes out out_pos bytes" "out_pos' = out_pos + ?n"
    using call R enc by (auto simp: delta_encode_def delta_first_R_def Let_def)
  have ref: "delta_ref dist (c @ ?xs) = delta_ref dist c @ bytes" "delta_ok dist (c @ ?xs) t"
      "dl_next t = dl_next s" "length bytes = ?n"
    using copy_and_encode_ref [OF _ enc, of dist c] R io by (auto simp: delta_first_R_def io_ok_def)
  have "slice in_pos in_pos' inb = ?xs" by (simp add: res slice_def)
  moreover have "slice out_pos out_pos' out' = bytes"
    using io ref(4) by (simp add: res slice_put_bytes_in io_ok_def flip: ref(4))
  ultimately show ?thesis
    using io R ref by (auto simp: res delta_first_R_def io_step_def io_ok_def drop_put_bytes)
qed

interpretation delta_first: stream_coder delta_encode "delta_first_R dist" "\<lambda>c d. d = delta_ref dist c" for dist
proof
  fix inb out :: "byte list" and in_pos in_size out_pos out_size in_pos' out_pos' action out'
    and c d and s s' :: "'a delta_coder"
  assume a: "io_ok inb in_pos in_size out out_pos out_size" "delta_first_R dist c d s"
  show "delta_encode s inb in_pos in_size out out_pos out_size action = (ret, s', in_pos', out', out_pos')
    \<Longrightarrow> io_step in_pos in_size out out_pos out_size in_pos' out' out_pos'" for ret
    using delta_encode_first_step [OF a] by blast
  show "delta_encode s inb in_pos in_size out out_pos out_size action = (LZMA_OK, s', in_pos', out', out_pos')
    \<Longrightarrow> delta_first_R dist (c @ slice in_pos in_pos' inb) (d @ slice out_pos out_pos' out') s'"
    using delta_encode_first_step [OF a] by blast
  show "delta_encode s inb in_pos in_size out out_pos out_size action = (LZMA_STREAM_END, s', in_pos', out', out_pos')
    \<Longrightarrow> d @ slice out_pos out_pos' out' = delta_ref dist (c @ slice in_pos in_pos' inb)"
    using delta_encode_first_step [OF a] by (blast dest: delta_first_R_def [THEN iffD1])
qed

text \<open>Above another coder that meets the contract, the encoder produces the differences of
  what that coder produces, and the decoder the bytes whose differences that coder
  produces; both meet the contract again.\<close>

definition delta_enc_R :: "'s lzma_code_function \<Rightarrow> (byte list \<Rightarrow> byte list \<Rightarrow> 's \<Rightarrow> bool) \<Rightarrow> nat
    \<Rightarrow> byte list \<Rightarrow> byte list \<Rightarrow> 's delta_coder \<Rightarrow> bool" where
  "delta_enc_R code R dist c p s \<longleftrightarrow> nc_code (dl_next s) = Some code \<and>
     (\<exists>t q. nc_coder (dl_next s) = Some t \<and> R c q t \<and> delta_ok dist q s \<and> p = delta_ref dist q)"

definition delta_dec_R :: "'s lzma_code_function \<Rightarrow> (byte list \<Rightarrow> byte list \<Rightarrow> 's \<Rightarrow> bool) \<Rightarrow> nat
    \<Rightarrow> byte list \<Rightarrow> byte list \<Rightarrow> 's delta_coder \<Rightarrow> bool" where
  "delta_dec_R code R dist c p s \<longleftrightarrow> nc_code (dl_next s) = Some code \<and>
     (\<exists>t. nc_coder (dl_next s) = Some t \<and> R c (delta_ref dist p) t \<and> delta_ok dist p s)"

lemma delta_ok_next [simp]: "delta_ok dist xs (s\<lparr>dl_next := n\<rparr>) \<longleftrightarrow> delta_ok dist xs s"
  by (simp add: delta_ok_def)

lemma io_step_rewrite_slice:
  assumes "io_step in_pos in_size out out_pos out_size in_pos' out' out_pos'" and "out_size \<le> length out"
    and "length bytes = out_pos' - out_pos"
  shows "io_step in_pos in_size out out_pos out_size in_pos' (put_bytes out' out_pos bytes) out_pos'"
    and "slice out_pos out_pos' (put_bytes out' out_pos bytes) = bytes"
  using assms slice_put_bytes_in [of out_pos out' bytes]
  by (auto simp: io_step_def drop_put_bytes take_put_bytes)

context stream_coder
begin

lemma delta_encode_over_step:
  assumes io: "io_ok inb in_pos in_size out out_pos out_size" and R: "delta_enc_R code R dist c d s"
    and call: "delta_encode s inb in_pos in_size out out_pos out_size action = (ret, s', in_pos', out', out_pos')"
  shows "io_step in_pos in_size out out_pos out_size in_pos' out' out_pos'"
    and "ret = LZMA_OK \<Longrightarrow> delta_enc_R code R dist (c @ slice in_pos in_pos' inb) (d @ slice out_pos out_pos' out') s'"
    and "ret = LZMA_STREAM_END \<Longrightarrow> \<exists>q. fin (c @ slice in_pos in_pos' inb) q \<and> d @ slice out_pos out_pos' out' = delta_ref dist q"
proof -
  obtain t q where n: "nc_code (dl_next s) = Some code" "nc_coder (dl_next s) = Some t" "R c q t"
      "delta_ok dist q s" "d = delta_ref dist q"
    using R unfolding delta_enc_R_def by blast
  obtain t' out1 where nx: "code t inb in_pos in_size out out_pos out_size action = (ret, t', in_pos', out1, out_pos')"
    using call n by (auto simp: delta_encode_def call_next_def split: prod.splits)
  let ?xs = "slice out_pos out_pos' out1" and ?s = "s\<lparr>dl_next := dl_next s\<lparr>nc_coder := Some t'\<rparr>\<rparr>"
  obtain u bytes where enc: "copy_and_encode ?s ?xs = (u, bytes)" by (cases "copy_and_encode ?s ?xs")
  have res: "s' = u" "out' = put_bytes out1 out_pos bytes"
    using call n nx enc by (auto simp: delta_encode_def call_next_def encode_in_place_copy Let_def)
  have step: "io_step in_pos in_size out out_pos out_size in_pos' out1 out_pos'"
    by (rule code_io [OF io n(3) nx])
  have ref: "delta_ref dist (q @ ?xs) = delta_ref dist q @ bytes" "delta_ok dist (q @ ?xs) u"
      "dl_next u = dl_next ?s" "length bytes = length ?xs"
    using copy_and_encode_ref [OF _ enc, of dist q] n(4) by simp_all
  have len: "length bytes = out_pos' - out_pos" "out_size \<le> length out"
    using ref(4) step io by (auto simp: io_step_def io_ok_def)
  note rw = io_step_rewrite_slice [OF step len(2,1)]
  show "io_step in_pos in_size out out_pos out_size in_pos' out' out_pos'"
    using rw(1) by (simp add: res)
  show "delta_enc_R code R dist (c @ slice in_pos in_pos' inb) (d @ slice out_pos out_pos' out') s'"
    if "ret = LZMA_OK"
    unfolding delta_enc_R_def res
    using code_keeps [OF io n(3)] nx that n ref rw(2)
    by (intro conjI exI [of _ t'] exI [of _ "q @ ?xs"]) simp_all
  show "\<exists>q. fin (c @ slice in_pos in_pos' inb) q \<and> d @ slice out_pos out_pos' out' = delta_ref dist q"
    if "ret = LZMA_STREAM_END"
    using code_finishes [OF io n(3)] nx that n ref rw(2) by (intro exI [of _ "q @ ?xs"]) (auto simp: res)
qed

lemma delta_decode_over_step:
  assumes io: "io_ok inb in_pos in_size out out_pos out_size" and R: "delta_dec_R code R dist c d s"
    and call: "delta_decode s inb in_pos in_size out out_pos out_size action = (ret, s', in_pos', out', out_pos')"
  shows "io_step in_pos in_size out out_pos out_size in_pos' out' out_pos'"
    and "ret = LZMA_OK \<Longrightarrow> delta_dec_R code R dist (c @ slice in_pos in_pos' inb) (d @ slice out_pos out_pos' out') s'"
    and "ret = LZMA_STREAM_END \<Longrightarrow> fin (c @ slice in_pos in_pos' inb) (delta_ref dist (d @ slice out_pos out_pos' out'))"
proof -
  obtain t where n: "nc_code (dl_next s) = Some code" "nc_coder (dl_next s) = Some t"
      "R c (delta_ref dist d) t" "delta_ok dist d s"
    using R unfolding delta_dec_R_def by blast
  obtain t' out1 where nx: "code t inb in_pos in_size out out_pos out_size action = (ret, t', in_pos', out1, out_pos')"
    using call n by (auto simp: delta_decode_def call_next_def split: prod.splits)
  let ?xs = "slice out_pos out_pos' out1" and ?s = "s\<lparr>dl_next := dl_next s\<lparr>nc_coder := Some t'\<rparr>\<rparr>"
  obtain u bytes where dec: "decode_buffer ?s ?xs = (u, bytes)" by (cases "decode_buffer ?s ?xs")
  have res: "s' = u" "out' = put_bytes out1 out_pos bytes"
    using call n nx dec by (auto simp: delta_decode_def call_next_def Let_def)
  have step: "io_step in_pos in_size out out_pos out_size in_pos' out1 out_pos'"
    by (rule code_io [OF io n(3) nx])
  have ref: "delta_ref dist (d @ bytes) = delta_ref dist d @ ?xs" "delta_ok dist (d @ bytes) u"
      "dl_next u = dl_next ?s" "length bytes = length ?xs"
    using decode_buffer_ref [OF _ dec, of dist d] n(4) by simp_all
  have len: "length bytes = out_pos' - out_pos" "out_size \<le> length out"
    using ref(4) step io by (auto simp: io_step_def io_ok_def)
  note rw = io_step_rewrite_slice [OF step len(2,1)]
  show "io_step in_pos in_size out out_pos out_size in_pos' out' out_pos'"
    using rw(1) by (simp add: res)
  show "delta_dec_R code R dist (c @ slice in_pos in_pos' inb) (d @ slice out_pos out_pos' out') s'"
    if "ret = LZMA_OK"
    using code_keeps [OF io n(3)] nx that n ref rw(2) by (auto simp: delta_dec_R_def res)
  show "fin (c @ slice in_pos in_pos' inb) (delta_ref dist (d @ slice out_pos out_pos' out'))"
    if "ret = LZMA_STREAM_END"
    using code_finishes [OF io n(3)] nx that ref rw(2) by (auto simp: res)
qed

end

locale delta_over_next = stream_coder +
  fixes dist :: nat

sublocale delta_over_next \<subseteq> delta_enc: stream_coder delta_encode "delta_enc_R code R dist"
    "\<lambda>c p. \<exists>q. fin c q \<and> p = delta_ref dist q"
  by unfold_locales (rule delta_encode_over_step; assumption?; simp)+

sublocale delta_over_next \<subseteq> delta_dec: stream_coder delta_decode "delta_dec_R code R dist"
    "\<lambda>c p. fin c (delta_ref dist p)"
  by unfold_locales (rule delta_decode_over_step; assumption?; simp)+

interpretation delta_on_delta: delta_over_next delta_encode "delta_first_R dist"
    "\<lambda>c d. d = delta_ref dist c" dist' for dist dist'
  by unfold_locales

subsection \<open>Initialisation\<close>

lemma delta_memusage_ok:
  "lzma_delta_coder_memusage (Some opt) \<noteq> UINT64_MAX \<longleftrightarrow>
     delta_type opt = LZMA_DELTA_TYPE_BYTE \<and> 1 \<le> unat (delta_dist opt) \<and> unat (delta_dist opt) \<le> 256"
  by (auto simp: lzma_delta_coder_memusage_def word_le_nat_alt word_less_nat_alt not_less not_le)

lemma delta_coder_init_ok:
  assumes "lzma_delta_coder_init alloc_ok fresh init_rest (Some opt) next = (LZMA_OK, next')"
  shows "\<exists>s. nc_coder next' = Some s \<and> nc_code next' = nc_code next \<and> delta_ok (unat (delta_dist opt)) [] s
    \<and> (nc_coder next = None \<longrightarrow> init_rest LZMA_NEXT_CODER_INIT = (LZMA_OK, dl_next s))"
proof -
  define c0 where "c0 = (case nc_coder next of Some coder \<Rightarrow> coder | None \<Rightarrow> fresh\<lparr>dl_next := LZMA_NEXT_CODER_INIT\<rparr>)"
  let ?c1 = "c0\<lparr>dl_distance := unat (delta_dist opt), dl_pos := 0, dl_history := replicate 256 0\<rparr>"
  have m: "lzma_delta_coder_memusage (Some opt) \<noteq> UINT64_MAX"
    using assms by (auto simp: lzma_delta_coder_init_def Let_def split: if_splits)
  then have d: "1 \<le> unat (delta_dist opt)" "unat (delta_dist opt) \<le> 256"
    by (simp_all only: delta_memusage_ok)
  obtain n where n: "init_rest (dl_next ?c1) = (LZMA_OK, n)"
    and next': "next' = next\<lparr>nc_coder := Some (?c1\<lparr>dl_next := n\<rparr>)\<rparr>"
    using assms m by (auto simp: lzma_delta_coder_init_def Let_def c0_def split: if_splits prod.splits)
  have "delta_ok (unat (delta_dist opt)) [] (?c1\<lparr>dl_next := n\<rparr>)"
    using d by (auto simp: delta_ok_def delta_past_def)
  then show ?thesis
    using n by (auto simp: next' c0_def)
qed

lemma delta_encoder_init_R:
  assumes "lzma_delta_encoder_init alloc_ok fresh next_filter_none (Some opt) LZMA_NEXT_CODER_INIT = (LZMA_OK, enc)"
  obtains s where "nc_coder enc = Some s" and "nc_code enc = Some delta_encode"
    and "delta_first_R (unat (delta_dist opt)) [] [] s"
  using delta_coder_init_ok [OF assms [unfolded lzma_delta_encoder_init_def]]
  by (auto simp: delta_first_R_def)

text \<open>C15. The Delta encoder, set up as the only filter, produces for every valid distance,
  over any number of calls with any amounts of input and output space, the byte
  differences at that distance of exactly the input it consumed.\<close>

theorem delta_encode_stream:
  assumes "lzma_delta_encoder_init alloc_ok fresh next_filter_none (Some opt) LZMA_NEXT_CODER_INIT = (LZMA_OK, enc)"
    and "coder_calls delta_encode (the (nc_coder enc)) inb calls = (ret, s, rest, outs)"
    and "ret = LZMA_OK \<or> ret = LZMA_STREAM_END"
  shows "\<exists>used. inb = used @ rest \<and> outs = delta_ref (unat (delta_dist opt)) used"
proof -
  obtain s0 where "nc_coder enc = Some s0" and R: "delta_first_R (unat (delta_dist opt)) [] [] s0"
    using delta_encoder_init_R [OF assms(1)] .
  then have "coder_calls delta_encode s0 inb calls = (ret, s, rest, outs)" using assms(2) by simp
  from delta_first.coder_calls_stream [OF R this] assms(3) show ?thesis
    by (auto simp: delta_first_R_def)
qed

theorem delta_encode_stream_witness:
  "\<exists>used. [10, 13, 15, 20] = used @ [20 :: byte] \<and> [10, 13, 5] = delta_ref 2 used"
proof -
  let ?fresh = "\<lparr>dl_next = LZMA_NEXT_CODER_INIT, dl_distance = 0, dl_pos = 0, dl_history = []\<rparr> :: unit delta_coder"
  let ?opt = "\<lparr>delta_type = 0, delta_dist = 2\<rparr>"
  let ?init = "lzma_delta_encoder_init True ?fresh next_filter_none (Some ?opt) LZMA_NEXT_CODER_INIT"
  let ?run = "coder_calls delta_encode (the (nc_coder (snd ?init))) [10, 13, 15, 20] [(2, 1, LZMA_RUN), (2, 9, LZMA_FINISH)]"
  have "fst ?init = LZMA_OK" by code_simp
  moreover have "fst ?run = LZMA_STREAM_END \<and> fst (snd (snd ?run)) = [20] \<and> snd (snd (snd ?run)) = [10, 13, 5]"
    by code_simp
  ultimately show ?thesis
    using delta_encode_stream [of True ?fresh ?opt "snd ?init" "[10, 13, 15, 20]"
        "[(2, 1, LZMA_RUN), (2, 9, LZMA_FINISH)]" LZMA_STREAM_END "fst (snd ?run)" "[20]" "[10, 13, 5]"]
    by (simp add: prod_eq_iff)
qed

text \<open>C14. A Delta decoder stacked on a Delta encoder of the same distance is the identity
  on the bytes consumed, however the calls cut up input and output.\<close>

theorem delta_decoder_undoes_encoder:
  assumes "lzma_delta_encoder_init alloc_ok fresh next_filter_none (Some opt) LZMA_NEXT_CODER_INIT = (LZMA_OK, enc)"
    and "lzma_delta_decoder_init alloc_ok' fresh' (\<lambda>_. (LZMA_OK, enc)) (Some opt) LZMA_NEXT_CODER_INIT = (LZMA_OK, dec)"
    and "coder_calls delta_decode (the (nc_coder dec)) inb calls = (ret, s, rest, outs)"
    and "ret = LZMA_OK \<or> ret = LZMA_STREAM_END"
  shows "inb = outs @ rest"
proof -
  let ?d = "unat (delta_dist opt)"
  obtain e where e: "nc_coder enc = Some e" "nc_code enc = Some delta_encode" "delta_first_R ?d [] [] e"
    using delta_encoder_init_R [OF assms(1)] .
  obtain s0 where s0: "nc_coder dec = Some s0" "delta_ok ?d [] s0" "dl_next s0 = enc"
    using delta_coder_init_ok [OF assms(2) [unfolded lzma_delta_decoder_init_def]] by auto
  have R: "delta_dec_R delta_encode (delta_first_R ?d) ?d [] [] s0"
    using e s0 by (simp add: delta_dec_R_def)
  have "coder_calls delta_decode s0 inb calls = (ret, s, rest, outs)" using assms(3) s0 by simp
  from delta_on_delta.delta_dec.coder_calls_stream [OF R this] assms(4) show ?thesis
    by (auto simp: delta_dec_R_def delta_first_R_def delta_ref_inject)
qed

theorem delta_decoder_undoes_encoder_witness: "[10, 13, 15, 20] = [10, 13, 15] @ [20 :: byte]"
proof -
  let ?fresh = "\<lparr>dl_next = LZMA_NEXT_CODER_INIT, dl_distance = 0, dl_pos = 0, dl_history = []\<rparr> :: unit delta_coder"
  let ?fresh' = "\<lparr>dl_next = LZMA_NEXT_CODER_INIT, dl_distance = 0, dl_pos = 0, dl_history = []\<rparr> :: unit delta_coder delta_coder"
  let ?opt = "\<lparr>delta_type = 0, delta_dist = 2\<rparr>"
  let ?enc = "snd (lzma_delta_encoder_init True ?fresh next_filter_none (Some ?opt) LZMA_NEXT_CODER_INIT)"
  let ?init = "lzma_delta_decoder_init True ?fresh' (\<lambda>_. (LZMA_OK, ?enc)) (Some ?opt) LZMA_NEXT_CODER_INIT"
  let ?run = "coder_calls delta_decode (the (nc_coder (snd ?init))) [10, 13, 15, 20] [(2, 1, LZMA_RUN), (2, 9, LZMA_FINISH)]"
  have "fst (lzma_delta_encoder_init True ?fresh next_filter_none (Some ?opt) LZMA_NEXT_CODER_INIT) = LZMA_OK"
    and "fst ?init = LZMA_OK" by code_simp+
  moreover have "fst ?run = LZMA_STREAM_END \<and> fst (snd (snd ?run)) = [20] \<and> snd (snd (snd ?run)) = [10, 13, 15]"
    by code_simp
  ultimately show ?thesis
    using delta_decoder_undoes_encoder [of True ?fresh ?opt ?enc True ?fresh' "snd ?init" "[10, 13, 15, 20]"
        "[(2, 1, LZMA_RUN), (2, 9, LZMA_FINISH)]" LZMA_STREAM_END "fst (snd ?run)" "[20]" "[10, 13, 15]"]
    by (simp add: prod_eq_iff)
qed

end
