(* ===== verification/Bcj.thy ===== *)
theory Bcj
  imports Byte_Order
begin

unbundle bit_operations_syntax

text \<open>
  The branch/call/jump filters for instruction sets whose filter keeps no state:
  src/liblzma/src/liblzma/simple/arm.c, armthumb.c, powerpc.c, sparc.c and ia64.c. Each
  converts the relative addresses of branch instructions to absolute ones (the encoder) or
  back, in place, and returns how many bytes it is done with. The buffer a filter is
  called with is a list, whose length is the \<open>size\<close> argument.

  The lemmas show what the loops compute, that filtering may be interrupted and resumed at
  any point without changing the result (what simple\_coder.c relies on) and
  that the decoder undoes the encoder.
\<close>

subsection \<open>arm.c\<close>

definition arm_convert :: "u32 \<Rightarrow> bool \<Rightarrow> byte list \<Rightarrow> nat \<Rightarrow> byte list" where
  "arm_convert now_pos is_encoder buffer i =
     (if buffer ! (i + 3) = 0xEB then
        let src = push_bit 16 (ucast (buffer ! (i + 2))) OR push_bit 8 (ucast (buffer ! (i + 1)))
                    OR ucast (buffer ! (i + 0)) :: u32;
            src = push_bit 2 src;
            dest = (if is_encoder then now_pos + word_of_nat i + 8 + src
                    else src - (now_pos + word_of_nat i + 8));
            dest = drop_bit 2 dest
        in buffer[i + 2 := ucast (drop_bit 16 dest), i + 1 := ucast (drop_bit 8 dest), i + 0 := ucast dest]
      else buffer)"

function arm_loop :: "u32 \<Rightarrow> bool \<Rightarrow> byte list \<Rightarrow> nat \<Rightarrow> byte list \<times> nat" where
  "arm_loop now_pos is_encoder buffer i =
     (if i + 4 \<le> length buffer
      then arm_loop now_pos is_encoder (arm_convert now_pos is_encoder buffer i) (i + 4)
      else (buffer, i))"
  by pat_completeness auto
termination
  by (relation "measure (\<lambda>(now_pos, is_encoder, buffer, i). length buffer - i)")
    (auto simp: arm_convert_def Let_def)

definition arm_code :: "'st \<Rightarrow> u32 \<Rightarrow> bool \<Rightarrow> byte list \<Rightarrow> 'st \<times> byte list \<times> nat" where
  "arm_code simple now_pos is_encoder buffer = (simple, arm_loop now_pos is_encoder buffer 0)"

subsection \<open>armthumb.c\<close>

definition armthumb_match :: "byte list \<Rightarrow> nat \<Rightarrow> bool" where
  "armthumb_match buffer i \<longleftrightarrow> buffer ! (i + 1) AND 0xF8 = 0xF0 \<and> buffer ! (i + 3) AND 0xF8 = 0xF8"

definition armthumb_convert :: "u32 \<Rightarrow> bool \<Rightarrow> byte list \<Rightarrow> nat \<Rightarrow> byte list" where
  "armthumb_convert now_pos is_encoder buffer i =
     (let src = push_bit 19 (ucast (buffer ! (i + 1)) AND 0x7) OR push_bit 11 (ucast (buffer ! (i + 0)))
                  OR push_bit 8 (ucast (buffer ! (i + 3)) AND 0x7) OR ucast (buffer ! (i + 2)) :: u32;
          src = push_bit 1 src;
          dest = (if is_encoder then now_pos + word_of_nat i + 4 + src
                  else src - (now_pos + word_of_nat i + 4));
          dest = drop_bit 1 dest
      in buffer[i + 1 := ucast (0xF0 OR (drop_bit 19 dest AND 0x7)), i + 0 := ucast (drop_bit 11 dest),
                i + 3 := ucast (0xF8 OR (drop_bit 8 dest AND 0x7)), i + 2 := ucast dest])"

function armthumb_loop :: "u32 \<Rightarrow> bool \<Rightarrow> byte list \<Rightarrow> nat \<Rightarrow> byte list \<times> nat" where
  "armthumb_loop now_pos is_encoder buffer i =
     (if i + 4 \<le> length buffer then
        if armthumb_match buffer i
        then armthumb_loop now_pos is_encoder (armthumb_convert now_pos is_encoder buffer i) (i + 2 + 2)
        else armthumb_loop now_pos is_encoder buffer (i + 2)
      else (buffer, i))"
  by pat_completeness auto
termination
  by (relation "measure (\<lambda>(now_pos, is_encoder, buffer, i). length buffer - i)")
    (auto simp: armthumb_convert_def Let_def)

definition armthumb_code :: "'st \<Rightarrow> u32 \<Rightarrow> bool \<Rightarrow> byte list \<Rightarrow> 'st \<times> byte list \<times> nat" where
  "armthumb_code simple now_pos is_encoder buffer = (simple, armthumb_loop now_pos is_encoder buffer 0)"

subsection \<open>powerpc.c\<close>

definition powerpc_convert :: "u32 \<Rightarrow> bool \<Rightarrow> byte list \<Rightarrow> nat \<Rightarrow> byte list" where
  "powerpc_convert now_pos is_encoder buffer i =
     (if drop_bit 2 (buffer ! i) = 0x12 \<and> buffer ! (i + 3) AND 3 = 1 then
        let src = push_bit 24 (ucast (buffer ! (i + 0)) AND 3) OR push_bit 16 (ucast (buffer ! (i + 1)))
                    OR push_bit 8 (ucast (buffer ! (i + 2))) OR (ucast (buffer ! (i + 3)) AND NOT 3) :: u32;
            dest = (if is_encoder then now_pos + word_of_nat i + src
                    else src - (now_pos + word_of_nat i));
            buffer = buffer[i + 0 := ucast (0x48 OR (drop_bit 24 dest AND 0x03)),
                            i + 1 := ucast (drop_bit 16 dest), i + 2 := ucast (drop_bit 8 dest)];
            buffer = buffer[i + 3 := buffer ! (i + 3) AND 0x03]
        in buffer[i + 3 := buffer ! (i + 3) OR ucast dest]
      else buffer)"

function powerpc_loop :: "u32 \<Rightarrow> bool \<Rightarrow> byte list \<Rightarrow> nat \<Rightarrow> byte list \<times> nat" where
  "powerpc_loop now_pos is_encoder buffer i =
     (if i + 4 \<le> length buffer
      then powerpc_loop now_pos is_encoder (powerpc_convert now_pos is_encoder buffer i) (i + 4)
      else (buffer, i))"
  by pat_completeness auto
termination
  by (relation "measure (\<lambda>(now_pos, is_encoder, buffer, i). length buffer - i)")
    (auto simp: powerpc_convert_def Let_def)

definition powerpc_code :: "'st \<Rightarrow> u32 \<Rightarrow> bool \<Rightarrow> byte list \<Rightarrow> 'st \<times> byte list \<times> nat" where
  "powerpc_code simple now_pos is_encoder buffer = (simple, powerpc_loop now_pos is_encoder buffer 0)"

subsection \<open>sparc.c\<close>

definition sparc_match :: "byte list \<Rightarrow> nat \<Rightarrow> bool" where
  "sparc_match buffer i \<longleftrightarrow> (buffer ! i = 0x40 \<and> buffer ! (i + 1) AND 0xC0 = 0x00)
     \<or> (buffer ! i = 0x7F \<and> buffer ! (i + 1) AND 0xC0 = 0xC0)"

definition sparc_convert :: "u32 \<Rightarrow> bool \<Rightarrow> byte list \<Rightarrow> nat \<Rightarrow> byte list" where
  "sparc_convert now_pos is_encoder buffer i =
     (if sparc_match buffer i then
        let src = push_bit 24 (ucast (buffer ! (i + 0))) OR push_bit 16 (ucast (buffer ! (i + 1)))
                    OR push_bit 8 (ucast (buffer ! (i + 2))) OR ucast (buffer ! (i + 3)) :: u32;
            src = push_bit 2 src;
            dest = (if is_encoder then now_pos + word_of_nat i + src
                    else src - (now_pos + word_of_nat i));
            dest = drop_bit 2 dest;
            dest = (push_bit 22 (0 - (drop_bit 22 dest AND 1)) AND 0x3FFFFFFF)
                     OR (dest AND 0x3FFFFF) OR 0x40000000
        in buffer[i + 0 := ucast (drop_bit 24 dest), i + 1 := ucast (drop_bit 16 dest),
                  i + 2 := ucast (drop_bit 8 dest), i + 3 := ucast dest]
      else buffer)"

function sparc_loop :: "u32 \<Rightarrow> bool \<Rightarrow> byte list \<Rightarrow> nat \<Rightarrow> byte list \<times> nat" where
  "sparc_loop now_pos is_encoder buffer i =
     (if i + 4 \<le> length buffer
      then sparc_loop now_pos is_encoder (sparc_convert now_pos is_encoder buffer i) (i + 4)
      else (buffer, i))"
  by pat_completeness auto
termination
  by (relation "measure (\<lambda>(now_pos, is_encoder, buffer, i). length buffer - i)")
    (auto simp: sparc_convert_def Let_def)

definition sparc_code :: "'st \<Rightarrow> u32 \<Rightarrow> bool \<Rightarrow> byte list \<Rightarrow> 'st \<times> byte list \<times> nat" where
  "sparc_code simple now_pos is_encoder buffer = (simple, sparc_loop now_pos is_encoder buffer 0)"

subsection \<open>ia64.c\<close>

definition ia64_BRANCH_TABLE :: "u32 list" where
  "ia64_BRANCH_TABLE = [
     0, 0, 0, 0, 0, 0, 0, 0,
     0, 0, 0, 0, 0, 0, 0, 0,
     4, 4, 6, 6, 0, 0, 7, 7,
     4, 4, 0, 0, 4, 4, 0, 0]"

definition ia64_read :: "byte list \<Rightarrow> nat \<Rightarrow> u64" where
  "ia64_read buffer p = fold (\<lambda>j instruction. instruction + push_bit (8 * j) (ucast (buffer ! (p + j)))) [0..<6] 0"

definition ia64_write :: "byte list \<Rightarrow> nat \<Rightarrow> u64 \<Rightarrow> byte list" where
  "ia64_write buffer p instruction =
     fold (\<lambda>j buffer. buffer[p + j := ucast (drop_bit (8 * j) instruction)]) [0..<6] buffer"

text \<open>The conversion of one slot of a bundle.\<close>

definition ia64_slot :: "u32 \<Rightarrow> bool \<Rightarrow> nat \<Rightarrow> nat \<Rightarrow> byte list \<Rightarrow> byte list" where
  "ia64_slot now_pos is_encoder i bit_pos buffer =
     (let byte_pos = bit_pos div 8;
          bit_res = bit_pos mod 8;
          instruction = ia64_read buffer (i + byte_pos);
          inst_norm = drop_bit bit_res instruction
      in if drop_bit 37 inst_norm AND 0xF = 0x5 \<and> drop_bit 9 inst_norm AND 0x7 = 0 then
           let src = ucast (drop_bit 13 inst_norm AND 0xFFFFF) :: u32;
               src = src OR ucast (push_bit 20 (drop_bit 36 inst_norm AND 1));
               src = push_bit 4 src;
               dest = (if is_encoder then now_pos + word_of_nat i + src
                       else src - (now_pos + word_of_nat i));
               dest = drop_bit 4 dest;
               inst_norm = inst_norm AND NOT (push_bit 13 0x8FFFFF);
               inst_norm = inst_norm OR push_bit 13 (ucast (dest AND 0xFFFFF));
               inst_norm = inst_norm OR push_bit (36 - 20) (ucast (dest AND 0x100000));
               instruction = instruction AND (push_bit bit_res 1 - 1);
               instruction = instruction OR push_bit bit_res inst_norm
           in ia64_write buffer (i + byte_pos) instruction
         else buffer)"

definition ia64_convert :: "u32 \<Rightarrow> bool \<Rightarrow> byte list \<Rightarrow> nat \<Rightarrow> byte list" where
  "ia64_convert now_pos is_encoder buffer i =
     (let instr_template = unat (buffer ! i AND 0x1F);
          msk = ia64_BRANCH_TABLE ! instr_template
      in fold (\<lambda>slot buffer. if drop_bit slot msk AND 1 = 0 then buffer
                             else ia64_slot now_pos is_encoder i (5 + 41 * slot) buffer) [0..<3] buffer)"

lemma length_ia64_write [simp]: "length (ia64_write buffer p instruction) = length buffer"
  by (simp add: ia64_write_def upt_rec)

lemma length_ia64_slot [simp]: "length (ia64_slot now_pos is_encoder i bit_pos buffer) = length buffer"
  by (simp add: ia64_slot_def Let_def)

lemma length_ia64_convert [simp]: "length (ia64_convert now_pos is_encoder buffer i) = length buffer"
  by (simp add: ia64_convert_def Let_def upt_rec)

function ia64_loop :: "u32 \<Rightarrow> bool \<Rightarrow> byte list \<Rightarrow> nat \<Rightarrow> byte list \<times> nat" where
  "ia64_loop now_pos is_encoder buffer i =
     (if i + 16 \<le> length buffer
      then ia64_loop now_pos is_encoder (ia64_convert now_pos is_encoder buffer i) (i + 16)
      else (buffer, i))"
  by pat_completeness auto
termination
  by (relation "measure (\<lambda>(now_pos, is_encoder, buffer, i). length buffer - i)") auto

definition ia64_code :: "'st \<Rightarrow> u32 \<Rightarrow> bool \<Rightarrow> byte list \<Rightarrow> 'st \<times> byte list \<times> nat" where
  "ia64_code simple now_pos is_encoder buffer = (simple, ia64_loop now_pos is_encoder buffer 0)"

declare arm_loop.simps [simp del] armthumb_loop.simps [simp del] powerpc_loop.simps [simp del]
  sparc_loop.simps [simp del] ia64_loop.simps [simp del]

subsection \<open>Scanning a buffer for instructions\<close>

text \<open>What the five loops have in common: at each position the filter looks at \<open>k\<close> bytes
  and is done with the first few of them, which it may have converted.\<close>

function scan :: "nat \<Rightarrow> (u32 \<Rightarrow> byte list \<Rightarrow> byte list) \<Rightarrow> u32 \<Rightarrow> byte list \<Rightarrow> byte list \<times> nat" where
  "scan k f now_pos buffer =
     (let out = f now_pos (take k buffer); m = length out
      in if 0 < k \<and> k \<le> length buffer \<and> 0 < m
         then let (rest, n) = scan k f (now_pos + word_of_nat m) (drop m buffer) in (out @ rest, m + n)
         else (buffer, 0))"
  by pat_completeness auto
termination
  by (relation "measure (\<lambda>(k, f, now_pos, buffer). length buffer)") (auto intro: diff_less)

declare scan.simps [simp del]

locale instruction_filter =
  fixes k :: nat
    and f :: "bool \<Rightarrow> u32 \<Rightarrow> byte list \<Rightarrow> byte list"
    and aligned :: "u32 \<Rightarrow> bool"
    and peek :: "byte list \<Rightarrow> bool"
  assumes k_pos: "0 < k"
    and f_length: "length w = k \<Longrightarrow> 0 < length (f e now_pos w) \<and> length (f e now_pos w) \<le> k"
    and f_aligned: "length w = k \<Longrightarrow> aligned now_pos \<Longrightarrow> aligned (now_pos + word_of_nat (length (f e now_pos w)))"
    and f_inverse: "\<lbrakk>aligned now_pos; k \<le> length w; out = f True now_pos (take k w); m = length out;
        length ys = length w - m; peek ys = peek (drop m w)\<rbrakk> \<Longrightarrow> f False now_pos (take k (out @ ys)) = take m w"
    and f_peek: "k \<le> length w \<Longrightarrow> peek (f True now_pos (take k w) @ ys) = peek w"
begin

lemma scan_short: "length xs < k \<Longrightarrow> scan k (f e) now_pos xs = (xs, 0)"
  by (subst scan.simps) (simp add: Let_def)

lemma scan_long:
  assumes "k \<le> length xs" and "out = f e now_pos (take k xs)" and "m = length out"
  shows "scan k (f e) now_pos xs =
    (out @ fst (scan k (f e) (now_pos + word_of_nat m) (drop m xs)),
     m + snd (scan k (f e) (now_pos + word_of_nat m) (drop m xs)))"
  using assms k_pos f_length [of "take k xs" e now_pos]
  by (subst scan.simps) (simp add: Let_def split: prod.splits)

lemma scan_induct [case_names short long]:
  assumes "\<And>now_pos xs. length xs < k \<Longrightarrow> P now_pos xs"
    and "\<And>now_pos xs out m. \<lbrakk>k \<le> length xs; out = f e now_pos (take k xs); m = length out; 0 < m; m \<le> k;
           P (now_pos + word_of_nat m) (drop m xs)\<rbrakk> \<Longrightarrow> P now_pos xs"
  shows "P now_pos xs"
proof (induction "length xs" arbitrary: now_pos xs rule: less_induct)
  case less
  show ?case
  proof (cases "length xs < k")
    case False
    then have kl: "k \<le> length xs" by simp
    then have out: "0 < length (f e now_pos (take k xs))" "length (f e now_pos (take k xs)) \<le> k"
      using f_length [of "take k xs" e now_pos] by simp_all
    have "P (now_pos + word_of_nat (length (f e now_pos (take k xs))))
        (drop (length (f e now_pos (take k xs))) xs)"
      by (rule less) (use kl out k_pos in \<open>auto intro: diff_less\<close>)
    then show ?thesis by (rule assms(2) [OF kl refl refl out])
  qed (rule assms(1))
qed

lemma scan_shape:
  "length (fst (scan k (f e) now_pos xs)) = length xs \<and> snd (scan k (f e) now_pos xs) \<le> length xs
   \<and> drop (snd (scan k (f e) now_pos xs)) (fst (scan k (f e) now_pos xs)) = drop (snd (scan k (f e) now_pos xs)) xs
   \<and> length xs - snd (scan k (f e) now_pos xs) < k"
proof (induction now_pos xs rule: scan_induct [where e = e])
  case (short now_pos xs)
  then show ?case by (simp add: scan_short)
next
  case (long now_pos xs out m)
  obtain R N where r: "scan k (f e) (now_pos + word_of_nat m) (drop m xs) = (R, N)" by fastforce
  then have "scan k (f e) now_pos xs = (out @ R, m + N)"
    by (simp add: scan_long [OF long(1-3)])
  with long(1,4-6) long(3) [symmetric] show ?case by (auto simp: r add.commute)
qed

lemma scan_append:
  "scan k (f e) now_pos (xs @ ys) =
     (let n = snd (scan k (f e) now_pos xs);
          r = scan k (f e) (now_pos + word_of_nat n) (drop n xs @ ys)
      in (take n (fst (scan k (f e) now_pos xs)) @ fst r, n + snd r))"
proof (induction now_pos xs rule: scan_induct [where e = e])
  case (short now_pos xs)
  then show ?case by (simp add: scan_short)
next
  case (long now_pos xs out m)
  obtain R N where r: "scan k (f e) (now_pos + word_of_nat m) (drop m xs) = (R, N)" by fastforce
  then have xs: "scan k (f e) now_pos xs = (out @ R, m + N)"
    by (simp add: scan_long [OF long(1-3)])
  from long(1,2) have "scan k (f e) now_pos (xs @ ys) =
    (out @ fst (scan k (f e) (now_pos + word_of_nat m) (drop m (xs @ ys))),
     m + snd (scan k (f e) (now_pos + word_of_nat m) (drop m (xs @ ys))))"
    by (intro scan_long long(3)) simp_all
  moreover have "drop m (xs @ ys) = drop m xs @ ys" using long(1,5) by simp
  ultimately show ?case
    using long(3) [symmetric] long(6) by (simp add: r xs Let_def add.assoc add.commute [of _ m])
qed

lemma scan_peek: "peek (fst (scan k (f True) now_pos xs)) = peek xs"
  by (cases "length xs < k") (simp_all add: scan_short scan_long [OF _ refl refl] f_peek not_less)

lemma scan_inverse:
  assumes "aligned now_pos"
  shows "scan k (f False) now_pos (fst (scan k (f True) now_pos xs)) = (xs, snd (scan k (f True) now_pos xs))"
  using assms
proof (induction now_pos xs rule: scan_induct [where e = True])
  case (short now_pos xs)
  then show ?case by (simp add: scan_short)
next
  case (long now_pos xs out m)
  let ?r = "scan k (f True) (now_pos + word_of_nat m) (drop m xs)"
  have len: "length (fst ?r) = length xs - m" and pk: "peek (fst ?r) = peek (drop m xs)"
    using scan_shape [of True "now_pos + word_of_nat m" "drop m xs"] by (simp_all add: scan_peek)
  have inv: "f False now_pos (take k (out @ fst ?r)) = take m xs"
    by (rule f_inverse [OF long(7) long(1,2,3) len pk])
  have "scan k (f False) now_pos (out @ fst ?r) =
      (take m xs @ fst (scan k (f False) (now_pos + word_of_nat m) (drop m (out @ fst ?r))),
       m + snd (scan k (f False) (now_pos + word_of_nat m) (drop m (out @ fst ?r))))"
    by (rule scan_long [OF _ inv [symmetric]])
      (use len long(1,5) long(3) [symmetric] in simp_all)
  moreover have "drop m (out @ fst ?r) = fst ?r" by (simp add: long(3))
  moreover have "aligned (now_pos + word_of_nat m)"
    using f_aligned [of "take k xs" now_pos True] long by simp
  ultimately show ?case
    using long(6) by (simp add: scan_long [OF long(1-3)])
qed

lemma scan_roundtrip:
  "scan k (f True) now_pos xs = (ys, n) \<Longrightarrow> aligned now_pos \<Longrightarrow> scan k (f False) now_pos ys = (xs, n)"
  using scan_inverse [of now_pos xs] by simp

lemma scan_resume:
  "scan k (f e) now_pos xs = (out, n) \<Longrightarrow> scan k (f e) (now_pos + word_of_nat n) (drop n xs @ ys) = (out', n')
   \<Longrightarrow> scan k (f e) now_pos (xs @ ys) = (take n out @ out', n + n')"
  using scan_append [of e now_pos xs ys] by simp

lemma scan_result:
  "scan k (f e) now_pos xs = (out, n)
   \<Longrightarrow> length out = length xs \<and> n \<le> length xs \<and> drop n out = drop n xs \<and> length xs - n \<le> k"
  using scan_shape [of e now_pos xs] by simp

end

text \<open>The filters that convert a whole group of \<open>k\<close> bytes at a time.\<close>

locale group_filter =
  fixes k :: nat
    and conv :: "u32 \<Rightarrow> bool \<Rightarrow> byte list \<Rightarrow> nat \<Rightarrow> byte list"
    and loop :: "u32 \<Rightarrow> bool \<Rightarrow> byte list \<Rightarrow> nat \<Rightarrow> byte list \<times> nat"
  assumes k_positive: "0 < k" and k_dvd: "k dvd 2 ^ 32"
    and loop_unfold: "loop now_pos e buffer i =
      (if i + k \<le> length buffer then loop now_pos e (conv now_pos e buffer i) (i + k) else (buffer, i))"
    and conv_local: "length w = k \<Longrightarrow> conv now_pos e (pre @ w @ post) (length pre) =
      pre @ conv (now_pos + word_of_nat (length pre)) e w 0 @ post"
    and conv_length: "length w = k \<Longrightarrow> length (conv now_pos e w 0) = k"
    and conv_inverse: "length w = k \<Longrightarrow> unat now_pos mod k = 0 \<Longrightarrow>
      conv now_pos False (conv now_pos True w 0) 0 = w"

lemma mod_add_word:
  assumes "k dvd 2 ^ LENGTH('a)"
  shows "unat (a + word_of_nat n :: 'a::len word) mod k = (unat a + n) mod k"
proof -
  have "unat (a + word_of_nat n) = (unat a + n) mod 2 ^ LENGTH('a)"
    by (simp add: unat_word_ariths unat_of_nat mod_add_right_eq)
  then show ?thesis using assms by (simp add: mod_mod_cancel)
qed

sublocale group_filter \<subseteq> grp: instruction_filter k "\<lambda>e now_pos w. conv now_pos e w 0"
    "\<lambda>now_pos. unat now_pos mod k = 0" "\<lambda>_. True"
proof
  fix now_pos :: u32 and w ys out :: "byte list" and m e
  show "0 < k" by (rule k_positive)
  show "length w = k \<Longrightarrow> 0 < length (conv now_pos e w 0) \<and> length (conv now_pos e w 0) \<le> k"
    using k_positive by (simp add: conv_length)
  show "length w = k \<Longrightarrow> unat now_pos mod k = 0 \<Longrightarrow>
      unat (now_pos + word_of_nat (length (conv now_pos e w 0))) mod k = 0"
    using k_dvd by (simp add: conv_length mod_add_word)
  show "conv now_pos False (take k (out @ ys)) 0 = take m w"
    if "unat now_pos mod k = 0" "k \<le> length w" "out = conv now_pos True (take k w) 0" "m = length out"
    using that by (simp add: conv_length conv_inverse)
qed simp

context group_filter
begin

lemma loop_scan_from:
  "now = now_pos + word_of_nat (length pre) \<Longrightarrow> loop now_pos e (pre @ xs) (length pre) =
     (pre @ fst (scan k (\<lambda>now_pos w. conv now_pos e w 0) now xs),
      length pre + snd (scan k (\<lambda>now_pos w. conv now_pos e w 0) now xs))"
proof (induction now xs arbitrary: pre rule: grp.scan_induct [where e = e])
  case (short now xs)
  then show ?case by (simp add: loop_unfold [of now_pos e "pre @ xs"] grp.scan_short)
next
  case (long now xs out m)
  have m: "m = k" and len: "length out = k" using long(1-3) by (simp_all add: conv_length)
  have "conv now_pos e (pre @ take k xs @ drop k xs) (length pre) = pre @ out @ drop k xs"
    using long(1,2,7) by (subst conv_local) simp_all
  then have "loop now_pos e (pre @ xs) (length pre) = loop now_pos e ((pre @ out) @ drop k xs) (length (pre @ out))"
    using long(1) len by (subst loop_unfold) simp
  also have "\<dots> = ((pre @ out) @ fst (scan k (\<lambda>now_pos w. conv now_pos e w 0) (now + word_of_nat m) (drop k xs)),
      length (pre @ out) + snd (scan k (\<lambda>now_pos w. conv now_pos e w 0) (now + word_of_nat m) (drop k xs)))"
    unfolding m by (rule long(6) [unfolded m]) (simp add: long(7) len add.assoc)
  finally show ?case
    unfolding grp.scan_long [OF long(1-3)] by (simp add: m len add.assoc)
qed

lemma loop_scan: "loop now_pos e xs 0 = scan k (\<lambda>now_pos w. conv now_pos e w 0) now_pos xs"
  using loop_scan_from [of now_pos now_pos "[]"] by (simp add: prod_eq_iff)

end

lemma length_4_cases:
  assumes "length w = 4" obtains b0 b1 b2 b3 where "w = [b0, b1, b2, b3]"
  using assms by (auto simp: numeral_eq_Suc length_Suc_conv)

subsection \<open>Words and bytes\<close>

lemma take_bit_add_word:
  fixes a b :: "'a::len word"
  shows "take_bit n (take_bit n a + b) = take_bit n (a + b)"
proof (cases "n < LENGTH('a)")
  case True
  then have "(2::nat) ^ n dvd 2 ^ LENGTH('a)" by (simp add: le_imp_power_dvd)
  then show ?thesis
    by (simp add: word_unat_eq_iff unat_take_bit_mod unat_word_ariths mod_mod_cancel mod_add_left_eq)
next
  case False
  then have "take_bit n a = a" by (intro bit_word_eqI) (auto simp: bit_simps)
  then show ?thesis by simp
qed

lemma take_bit_minus_word:
  fixes a b :: "'a::len word"
  shows "take_bit n (take_bit n a - b) = take_bit n (a - b)"
  using take_bit_add_word [of n a "- b"] by simp

lemma bcj_shift_inverse:
  fixes p s :: "'a::len word"
  assumes p: "take_bit n p = 0" and t: "take_bit m t = take_bit m (drop_bit n (p + push_bit n s))"
  shows "take_bit m (drop_bit n (push_bit n t - p)) = take_bit m (drop_bit n (push_bit n s))"
proof -
  let ?X = "p + push_bit n s"
  have "take_bit n ?X = take_bit n (take_bit n p + push_bit n s)" by (simp only: take_bit_add_word)
  also have "\<dots> = 0" using p by (simp add: take_bit_push_bit)
  finally have X: "push_bit n (drop_bit n ?X) = ?X" using bits_ident [of n ?X] by simp
  have "take_bit (n + m) (push_bit n t) = push_bit n (take_bit m t)"
    by (simp add: push_bit_take_bit add.commute)
  also have "\<dots> = take_bit (n + m) (push_bit n (drop_bit n ?X))"
    by (simp only: t) (simp add: push_bit_take_bit add.commute)
  also have "\<dots> = take_bit (n + m) ?X" by (simp only: X)
  finally have Y: "take_bit (n + m) (push_bit n t) = take_bit (n + m) ?X" .
  have "take_bit m (drop_bit n (push_bit n t - p)) = drop_bit n (take_bit (n + m) (push_bit n t - p))"
    by (simp add: take_bit_drop_bit add.commute)
  also have "take_bit (n + m) (push_bit n t - p) = take_bit (n + m) (take_bit (n + m) ?X - p)"
    by (simp only: Y [symmetric] take_bit_minus_word)
  also have "\<dots> = take_bit (n + m) (push_bit n s)" by (simp only: take_bit_minus_word) simp
  also have "drop_bit n \<dots> = take_bit m (drop_bit n (push_bit n s))"
    by (simp add: take_bit_drop_bit add.commute)
  finally show ?thesis .
qed

lemma take_drop_push:
  fixes s :: "'a::len word"
  assumes "n + m \<le> LENGTH('a)"
  shows "take_bit m (drop_bit n (push_bit n s)) = take_bit m s"
  using assms by (intro bit_word_eqI) (auto simp: bit_simps)

lemma take_bit_aligned: "unat p mod 2 ^ n = 0 \<Longrightarrow> take_bit n (p :: 'a::len word) = 0"
  using unat_take_bit_mod [of n p] by (simp add: unat_eq_zero)

lemma take_bit_0_bits: "take_bit m d = 0 \<Longrightarrow> n < m \<Longrightarrow> \<not> bit d n"
  by (metis bit_0_eq bit_take_bit_iff bot_apply bot_bool_def)

lemma bits_8:
  fixes a b :: byte
  assumes "bit a 0 = bit b 0" "bit a 1 = bit b 1" "bit a 2 = bit b 2" "bit a 3 = bit b 3" "bit a 4 = bit b 4" "bit a 5 = bit b 5" "bit a 6 = bit b 6" "bit a 7 = bit b 7"
  shows "a = b"
proof (rule bit_word_eqI)
  fix n assume "n < LENGTH(8)"
  then have "n \<in> {0, 1, 2, 3, 4, 5, 6, 7}" by auto
  then show "bit a n = bit b n" using assms by auto
qed

lemma bits_32:
  fixes a b :: u32
  assumes "bit a 0 = bit b 0" "bit a 1 = bit b 1" "bit a 2 = bit b 2" "bit a 3 = bit b 3" "bit a 4 = bit b 4" "bit a 5 = bit b 5" "bit a 6 = bit b 6" "bit a 7 = bit b 7" "bit a 8 = bit b 8" "bit a 9 = bit b 9" "bit a 10 = bit b 10" "bit a 11 = bit b 11" "bit a 12 = bit b 12" "bit a 13 = bit b 13" "bit a 14 = bit b 14" "bit a 15 = bit b 15" "bit a 16 = bit b 16" "bit a 17 = bit b 17" "bit a 18 = bit b 18" "bit a 19 = bit b 19" "bit a 20 = bit b 20" "bit a 21 = bit b 21" "bit a 22 = bit b 22" "bit a 23 = bit b 23" "bit a 24 = bit b 24" "bit a 25 = bit b 25" "bit a 26 = bit b 26" "bit a 27 = bit b 27" "bit a 28 = bit b 28" "bit a 29 = bit b 29" "bit a 30 = bit b 30" "bit a 31 = bit b 31"
  shows "a = b"
proof (rule bit_word_eqI)
  fix n assume "n < LENGTH(32)"
  then have "n \<in> set [0..<32]" by simp
  moreover have "[0..<32] = [0, 1, 2, 3, 4, 5, 6, 7, 8, 9, 10, 11, 12, 13, 14, 15, 16, 17, 18, 19, 20, 21, 22, 23, 24, 25, 26, 27, 28, 29, 30, 31]" by code_simp
  ultimately have "n \<in> set [0, 1, 2, 3, 4, 5, 6, 7, 8, 9, 10, 11, 12, 13, 14, 15, 16, 17, 18, 19, 20, 21, 22, 23, 24, 25, 26, 27, 28, 29, 30, 31]" by (simp only:)
  then show "bit a n = bit b n" using assms by auto
qed

lemma byte_eq_bits: "(a :: byte) = b \<longleftrightarrow> bit a 0 = bit b 0 \<and> bit a 1 = bit b 1 \<and> bit a 2 = bit b 2 \<and> bit a 3 = bit b 3 \<and> bit a 4 = bit b 4 \<and> bit a 5 = bit b 5 \<and> bit a 6 = bit b 6 \<and> bit a 7 = bit b 7"
  using bits_8 [of a b] by blast

lemma u32_eq_bits: "(a :: u32) = b \<longleftrightarrow> bit a 0 = bit b 0 \<and> bit a 1 = bit b 1 \<and> bit a 2 = bit b 2 \<and> bit a 3 = bit b 3 \<and> bit a 4 = bit b 4 \<and> bit a 5 = bit b 5 \<and> bit a 6 = bit b 6 \<and> bit a 7 = bit b 7 \<and> bit a 8 = bit b 8 \<and> bit a 9 = bit b 9 \<and> bit a 10 = bit b 10 \<and> bit a 11 = bit b 11 \<and> bit a 12 = bit b 12 \<and> bit a 13 = bit b 13 \<and> bit a 14 = bit b 14 \<and> bit a 15 = bit b 15 \<and> bit a 16 = bit b 16 \<and> bit a 17 = bit b 17 \<and> bit a 18 = bit b 18 \<and> bit a 19 = bit b 19 \<and> bit a 20 = bit b 20 \<and> bit a 21 = bit b 21 \<and> bit a 22 = bit b 22 \<and> bit a 23 = bit b 23 \<and> bit a 24 = bit b 24 \<and> bit a 25 = bit b 25 \<and> bit a 26 = bit b 26 \<and> bit a 27 = bit b 27 \<and> bit a 28 = bit b 28 \<and> bit a 29 = bit b 29 \<and> bit a 30 = bit b 30 \<and> bit a 31 = bit b 31"
  by (rule iffI, simp, rule bits_32) simp_all

lemma bit_byte_high [simp]: "8 \<le> n \<Longrightarrow> \<not> bit (b :: byte) n"
  using bit_imp_le_length [of b n] by auto

lemma list4:
  "[a, b, c, d] ! (0 + 0) = a" "[a, b, c, d] ! (0 + 1) = b" "[a, b, c, d] ! (0 + 2) = c" "[a, b, c, d] ! (0 + 3) = d"
  "[a, b, c, d] ! 0 = a" "[a, b, c, d] ! 1 = b" "[a, b, c, d] ! 2 = c" "[a, b, c, d] ! 3 = d"
  "[a, b, c, d][0 + 0 := x] = [x, b, c, d]" "[a, b, c, d][0 + 1 := x] = [a, x, c, d]"
  "[a, b, c, d][0 + 2 := x] = [a, b, x, d]" "[a, b, c, d][0 + 3 := x] = [a, b, c, x]"
  "[a, b, c, d][0 := x] = [x, b, c, d]" "[a, b, c, d][1 := x] = [a, x, c, d]"
  "[a, b, c, d][2 := x] = [a, b, x, d]" "[a, b, c, d][3 := x] = [a, b, c, x]"
  by (simp_all add: numeral_eq_Suc)

lemma local4:
  "(pre @ [a, b, c, d] @ post) ! (length pre + 0) = a" "(pre @ [a, b, c, d] @ post) ! (length pre + 1) = b"
  "(pre @ [a, b, c, d] @ post) ! (length pre + 2) = c" "(pre @ [a, b, c, d] @ post) ! (length pre + 3) = d"
  "(pre @ [a, b, c, d] @ post) ! length pre = a"
  "(pre @ [a, b, c, d] @ post)[length pre := x] = pre @ [x, b, c, d] @ post"
  "(pre @ [a, b, c, d] @ post)[length pre + 0 := x] = pre @ [x, b, c, d] @ post"
  "(pre @ [a, b, c, d] @ post)[length pre + 1 := x] = pre @ [a, x, c, d] @ post"
  "(pre @ [a, b, c, d] @ post)[length pre + 2 := x] = pre @ [a, b, x, d] @ post"
  "(pre @ [a, b, c, d] @ post)[length pre + 3 := x] = pre @ [a, b, c, x] @ post"
  by (simp_all add: nth_append list_update_append numeral_eq_Suc)

lemma add_word_of_nat_0: "(a :: 'a::len word) + word_of_nat 0 = a"
  by simp

lemmas convert4 = Let_def list4 add_word_of_nat_0 add_0_left add_0_right simp_thms if_True if_False

subsection \<open>ARM\<close>

definition le24 :: "byte \<Rightarrow> byte \<Rightarrow> byte \<Rightarrow> u32" where
 "le24 b0 b1 b2 = push_bit 16 (ucast b2) OR push_bit 8 (ucast b1) OR ucast b0"

lemma le24_bytes: "le24 (ucast d) (ucast (drop_bit 8 d)) (ucast (drop_bit 16 d)) = take_bit 24 d"
proof (rule bit_word_eqI)
  fix n :: nat
  consider "n < 8" | "8 \<le> n" "n < 16" | "16 \<le> n" "n < 24" | "24 \<le> n" by linarith
  then show "bit (le24 (ucast d) (ucast (drop_bit 8 d)) (ucast (drop_bit 16 d))) n = bit (take_bit 24 d) n"
    by cases (auto simp: le24_def bit_simps)
qed

lemma le24_byte:
  assumes "take_bit 24 d = le24 b0 b1 b2"
  shows "ucast d = b0 \<and> ucast (drop_bit 8 d) = b1 \<and> ucast (drop_bit 16 d) = b2"
proof -
  have "ucast d = (ucast (take_bit 24 d) :: byte)" "ucast (drop_bit 8 d) = (ucast (drop_bit 8 (take_bit 24 d)) :: byte)"
    "ucast (drop_bit 16 d) = (ucast (drop_bit 16 (take_bit 24 d)) :: byte)"
    by (rule bit_word_eqI; auto simp: bit_simps)+
  then show ?thesis unfolding assms
   by (auto simp: le24_def intro!: bit_word_eqI) (auto simp: bit_simps dest: bit_imp_le_length)
qed

lemma take_24_le24 [simp]: "take_bit 24 (le24 b0 b1 b2) = le24 b0 b1 b2"
  by (rule bit_word_eqI) (auto simp: le24_def bit_simps dest: bit_imp_le_length)

lemma take_bit_take_bit_24: "take_bit 24 (take_bit 24 (d :: u32)) = take_bit 24 d"
  by simp

lemma drop_push_le24: "take_bit 24 (drop_bit 2 (push_bit 2 (le24 b0 b1 b2))) = le24 b0 b1 b2"
  by (rule bit_word_eqI) (auto simp: le24_def bit_simps dest: bit_imp_le_length)

lemma arm_convert_4:
  "arm_convert now_pos e [b0, b1, b2, b3] 0 = (if b3 = 0xEB then
      let p = now_pos + 8; s = push_bit 2 (le24 b0 b1 b2); d = drop_bit 2 (if e then p + s else s - p)
      in [ucast d, ucast (drop_bit 8 d), ucast (drop_bit 16 d), b3] else [b0, b1, b2, b3])"
  by (simp only: arm_convert_def convert4 le24_def cong: if_cong)

interpretation arm: group_filter 4 arm_convert arm_loop
proof
  fix now_pos :: u32 and e i and buffer w pre post :: "byte list"
  show "arm_loop now_pos e buffer i =
      (if i + 4 \<le> length buffer then arm_loop now_pos e (arm_convert now_pos e buffer i) (i + 4) else (buffer, i))"
    by (rule arm_loop.simps)
  assume w: "length w = 4"
  then obtain b0 b1 b2 b3 where [simp]: "w = [b0, b1, b2, b3]" by (rule length_4_cases)
  show "arm_convert now_pos e (pre @ w @ post) (length pre) =
      pre @ arm_convert (now_pos + word_of_nat (length pre)) e w 0 @ post"
    by (simp add: arm_convert_def nth_append list_update_append Let_def numeral_eq_Suc)
  show "length (arm_convert now_pos e w 0) = 4"
    by (simp add: arm_convert_def Let_def)
  assume "unat now_pos mod 4 = 0"
  then have "unat (now_pos + word_of_nat 8) mod 4 = 0" by (subst mod_add_word) (simp, presburger)
  then have p: "take_bit 2 (now_pos + 8) = 0" by (intro take_bit_aligned) simp
  show "arm_convert now_pos False (arm_convert now_pos True w 0) 0 = w"
    using le24_byte [OF trans [OF bcj_shift_inverse [OF p take_bit_take_bit_24] drop_push_le24], of b0 b1 b2]
    by (simp only: \<open>w = _\<close> arm_convert_4 Let_def if_True if_False le24_bytes split: if_split)
      simp
qed simp_all

subsection \<open>PowerPC\<close>

definition ppc_word :: "byte \<Rightarrow> byte \<Rightarrow> byte \<Rightarrow> byte \<Rightarrow> u32" where
  "ppc_word b0 b1 b2 b3 = push_bit 24 (ucast b0 AND 3) OR push_bit 16 (ucast b1) OR push_bit 8 (ucast b2) OR (ucast b3 AND NOT 3)"

lemma ppc_word_bytes:
  fixes d :: u32
  assumes "take_bit 2 d = 0"
  shows "ppc_word (ucast (0x48 OR (drop_bit 24 d AND 3))) (ucast (drop_bit 16 d)) (ucast (drop_bit 8 d)) (1 OR ucast d) = take_bit 26 d"
  using take_bit_0_bits [OF assms, of 0] take_bit_0_bits [OF assms, of 1]
  by (intro bits_32) (simp_all add: ppc_word_def bit_simps)

lemma ppc_word_byte:
  fixes d :: u32
  assumes d: "take_bit 26 d = ppc_word b0 b1 b2 b3" and b: "drop_bit 2 b0 = 0x12" "b3 AND 3 = 1"
  shows "ucast (0x48 OR (drop_bit 24 d AND 3)) = b0 \<and> ucast (drop_bit 16 d) = b1 \<and> ucast (drop_bit 8 d) = b2 \<and> (1 OR ucast d) = b3"
proof -
  have bit: "bit d n = bit (ppc_word b0 b1 b2 b3) n" if "n < 26" for n
    using that by (metis bit_take_bit_iff d)
  have b0: "bit b0 (2 + n) = bit (0x12 :: byte) n" for n by (simp only: b(1) [symmetric] bit_drop_bit_eq o_def)
  have b3: "bit (b3 AND 3) n = bit (1 :: byte) n" for n by (simp only: b(2))
  show ?thesis
    using b0 [of 0] b0 [of 1] b0 [of 2] b0 [of 3] b0 [of 4] b0 [of 5] b3 [of 0] b3 [of 1]
    by (intro conjI bits_8) (simp_all add: bit_simps bit ppc_word_def)
qed

lemma powerpc_convert_4:
  "powerpc_convert p e [b0, b1, b2, b3] 0 = (if drop_bit 2 b0 = 0x12 \<and> b3 AND 3 = 1 then
      let s = ppc_word b0 b1 b2 b3; d = if e then p + s else s - p
      in [ucast (0x48 OR (drop_bit 24 d AND 3)), ucast (drop_bit 16 d), ucast (drop_bit 8 d), b3 AND 3 OR ucast d]
     else [b0, b1, b2, b3])"
  by (simp only: powerpc_convert_def convert4 ppc_word_def cong: if_cong)

lemma powerpc_still_matches:
  fixes d :: u32
  assumes "take_bit 2 d = 0"
  shows "drop_bit 2 (ucast (0x48 OR (drop_bit 24 d AND 3)) :: byte) = 0x12"
    and "(1 OR ucast d) AND 3 = (1 :: byte)"
  using take_bit_0_bits [OF assms, of 0] take_bit_0_bits [OF assms, of 1]
  by (intro bits_8; simp add: bit_simps)+

interpretation powerpc: group_filter 4 powerpc_convert powerpc_loop
proof
  fix now_pos :: u32 and e i and buffer w pre post :: "byte list"
  show "powerpc_loop now_pos e buffer i =
      (if i + 4 \<le> length buffer then powerpc_loop now_pos e (powerpc_convert now_pos e buffer i) (i + 4) else (buffer, i))"
    by (rule powerpc_loop.simps)
  assume w: "length w = 4"
  then obtain b0 b1 b2 b3 where [simp]: "w = [b0, b1, b2, b3]" by (rule length_4_cases)
  show "powerpc_convert now_pos e (pre @ w @ post) (length pre) =
      pre @ powerpc_convert (now_pos + word_of_nat (length pre)) e w 0 @ post"
    by (simp add: powerpc_convert_def nth_append list_update_append Let_def numeral_eq_Suc)
  show "length (powerpc_convert now_pos e w 0) = 4"
    by (simp add: powerpc_convert_def Let_def)
  assume "unat now_pos mod 4 = 0"
  then have p: "take_bit 2 now_pos = 0" by (intro take_bit_aligned) simp
  let ?s = "ppc_word b0 b1 b2 b3"
  let ?d = "now_pos + ?s"
  have s: "take_bit 2 ?s = 0" "take_bit 26 ?s = ?s"
    by (rule bits_32; simp add: ppc_word_def bit_simps)+
  have d: "take_bit 2 ?d = 0"
    using take_bit_add_word [of 2 now_pos ?s] p s(1) by simp
  have "take_bit 26 (take_bit 26 ?d - now_pos) = ?s"
    using take_bit_minus_word [of 26 ?d now_pos] s(2) by simp
  note bytes = ppc_word_byte [OF this]
  show "powerpc_convert now_pos False (powerpc_convert now_pos True w 0) 0 = w"
  proof (cases "drop_bit 2 b0 = 0x12 \<and> b3 AND 3 = 1")
    case True
    then have m: "drop_bit 2 b0 = 0x12" "b3 AND 3 = 1" by auto
    then have "powerpc_convert now_pos True w 0 = [ucast (0x48 OR (drop_bit 24 ?d AND 3)),
        ucast (drop_bit 16 ?d), ucast (drop_bit 8 ?d), 1 OR ucast ?d]"
      by (simp only: \<open>w = _\<close> powerpc_convert_4 Let_def if_True simp_thms)
    then show ?thesis
      using bytes [OF m]
      by (simp only: powerpc_convert_4 Let_def if_True if_False simp_thms ppc_word_bytes [OF d]
          powerpc_still_matches [OF d] \<open>w = _\<close>)
  qed (simp only: \<open>w = _\<close> powerpc_convert_4 if_False)
qed simp_all

subsection \<open>SPARC\<close>

definition sparc_word :: "byte \<Rightarrow> byte \<Rightarrow> byte \<Rightarrow> byte \<Rightarrow> u32" where
  "sparc_word b0 b1 b2 b3 =
     push_bit 24 (ucast b0) OR push_bit 16 (ucast b1) OR push_bit 8 (ucast b2) OR ucast b3"

definition sparc_extend :: "u32 \<Rightarrow> u32" where
  "sparc_extend d = (push_bit 22 (0 - (drop_bit 22 d AND 1)) AND 0x3FFFFFFF) OR (d AND 0x3FFFFF) OR 0x40000000"

lemma sparc_convert_4:
  "sparc_convert p e [b0, b1, b2, b3] 0 = (if sparc_match [b0, b1, b2, b3] 0 then
      let s = push_bit 2 (sparc_word b0 b1 b2 b3); d = sparc_extend (drop_bit 2 (if e then p + s else s - p))
      in [ucast (drop_bit 24 d), ucast (drop_bit 16 d), ucast (drop_bit 8 d), ucast d]
     else [b0, b1, b2, b3])"
  by (simp only: sparc_convert_def convert4 sparc_word_def sparc_extend_def cong: if_cong)

lemma and_1_bit: "(w :: 'a::len word) AND 1 = (if bit w 0 then 1 else 0)"
  by (simp add: and_one_eq bit_0 mod_2_eq_odd)

lemma sparc_extend_bit:
  "sparc_extend d = (if bit d 22 then take_bit 22 d OR 0x7FC00000 else take_bit 22 d OR 0x40000000)"
  by (rule bits_32) (simp_all add: sparc_extend_def and_1_bit bit_simps)

lemma sparc_extend_cong: "take_bit 23 d = take_bit 23 d' \<Longrightarrow> sparc_extend d = sparc_extend d'"
proof -
  assume t: "take_bit 23 d = take_bit 23 d'"
  have "bit d n = bit d' n" if "n < 23" for n using arg_cong [OF t, of "\<lambda>w. bit w n"] that by (simp add: bit_take_bit_iff)
  then show ?thesis unfolding sparc_extend_bit
    by (intro bits_32) (simp_all add: bit_simps)
qed

lemma sparc_word_bytes:
  "sparc_word (ucast (drop_bit 24 d)) (ucast (drop_bit 16 d)) (ucast (drop_bit 8 d)) (ucast d) = d"
  by (rule bits_32) (simp_all add: sparc_word_def bit_simps)

lemma sparc_bytes_word:
  "ucast (drop_bit 24 (sparc_word b0 b1 b2 b3)) = b0" "ucast (drop_bit 16 (sparc_word b0 b1 b2 b3)) = b1"
  "ucast (drop_bit 8 (sparc_word b0 b1 b2 b3)) = b2" "ucast (sparc_word b0 b1 b2 b3) = b3"
  by (rule bits_8; simp add: sparc_word_def bit_simps)+

lemma sparc_match_word: "sparc_match [b0, b1, b2, b3] 0 \<longleftrightarrow> sparc_extend (sparc_word b0 b1 b2 b3) = sparc_word b0 b1 b2 b3"
proof -
  let ?b = "\<not> bit b0 7 \<and> bit b0 6 \<and> bit b0 5 = bit b1 6 \<and> bit b0 4 = bit b1 6 \<and> bit b0 3 = bit b1 6
    \<and> bit b0 2 = bit b1 6 \<and> bit b0 1 = bit b1 6 \<and> bit b0 0 = bit b1 6 \<and> bit b1 7 = bit b1 6"
  have "sparc_match [b0, b1, b2, b3] 0 \<longleftrightarrow> ?b"
    by (cases "bit b1 6"; simp add: sparc_match_def byte_eq_bits bit_simps; blast)
  moreover have "sparc_extend (sparc_word b0 b1 b2 b3) = sparc_word b0 b1 b2 b3 \<longleftrightarrow> ?b"
    by (cases "bit b1 6"; simp add: u32_eq_bits sparc_extend_bit sparc_word_def bit_simps; blast)
  ultimately show ?thesis by blast
qed

interpretation sparc: group_filter 4 sparc_convert sparc_loop
proof
  fix now_pos :: u32 and e i and buffer w pre post :: "byte list"
  show "sparc_loop now_pos e buffer i =
      (if i + 4 \<le> length buffer then sparc_loop now_pos e (sparc_convert now_pos e buffer i) (i + 4) else (buffer, i))"
    by (rule sparc_loop.simps)
  assume w: "length w = 4"
  then obtain b0 b1 b2 b3 where [simp]: "w = [b0, b1, b2, b3]" by (rule length_4_cases)
  show "sparc_convert now_pos e (pre @ w @ post) (length pre) =
      pre @ sparc_convert (now_pos + word_of_nat (length pre)) e w 0 @ post"
    by (simp only: \<open>w = _\<close> sparc_convert_def sparc_match_def local4 convert4
        if_distrib [of "\<lambda>u. pre @ u @ post"] cong: if_cong)
  show "length (sparc_convert now_pos e w 0) = 4"
    by (simp add: sparc_convert_def Let_def)
  assume "unat now_pos mod 4 = 0"
  then have p: "take_bit 2 now_pos = 0" by (intro take_bit_aligned) simp
  let ?s = "sparc_word b0 b1 b2 b3"
  let ?d = "drop_bit 2 (now_pos + push_bit 2 ?s)"
  let ?d' = "drop_bit 2 (push_bit 2 (sparc_extend ?d) - now_pos)"
  have ext: "take_bit 23 (sparc_extend d) = take_bit 23 d" for d
    by (rule bits_32; simp add: sparc_extend_bit bit_simps)
  note ext2 = sparc_extend_cong [OF ext]
  have "take_bit 23 ?d' = take_bit 23 (drop_bit 2 (push_bit 2 ?s))"
    by (rule bcj_shift_inverse [OF p ext])
  also have "\<dots> = take_bit 23 ?s"
    by (rule take_drop_push) simp
  finally have d': "sparc_extend ?d' = sparc_extend ?s" by (rule sparc_extend_cong)
  show "sparc_convert now_pos False (sparc_convert now_pos True w 0) 0 = w"
  proof (cases "sparc_match [b0, b1, b2, b3] 0")
    case True
    then have "sparc_convert now_pos True w 0 = [ucast (drop_bit 24 (sparc_extend ?d)),
        ucast (drop_bit 16 (sparc_extend ?d)), ucast (drop_bit 8 (sparc_extend ?d)), ucast (sparc_extend ?d)]"
      by (simp only: \<open>w = _\<close> sparc_convert_4 Let_def if_True simp_thms)
    then show ?thesis
      using True [unfolded sparc_match_word]
      by (simp only: sparc_convert_4 sparc_match_word sparc_word_bytes ext2 Let_def if_True if_False simp_thms
          d' sparc_bytes_word \<open>w = _\<close>)
  qed (simp only: \<open>w = _\<close> sparc_convert_4 if_False)
qed simp_all

subsection \<open>ARM Thumb\<close>

definition thumb_word :: "byte \<Rightarrow> byte \<Rightarrow> byte \<Rightarrow> byte \<Rightarrow> u32" where
  "thumb_word b0 b1 b2 b3 = push_bit 19 (ucast b1 AND 0x7) OR push_bit 11 (ucast b0)
     OR push_bit 8 (ucast b3 AND 0x7) OR ucast b2"

lemma armthumb_convert_4:
  "armthumb_convert p e [b0, b1, b2, b3] 0 =
     (let q = p + 4; s = push_bit 1 (thumb_word b0 b1 b2 b3); d = drop_bit 1 (if e then q + s else s - q)
      in [ucast (drop_bit 11 d), ucast (0xF0 OR (drop_bit 19 d AND 0x7)), ucast d, ucast (0xF8 OR (drop_bit 8 d AND 0x7))])"
  by (simp only: armthumb_convert_def convert4 thumb_word_def cong: if_cong)

lemma thumb_word_bytes:
  "thumb_word (ucast (drop_bit 11 d)) (ucast (0xF0 OR (drop_bit 19 d AND 0x7))) (ucast d)
     (ucast (0xF8 OR (drop_bit 8 d AND 0x7))) = take_bit 22 d"
  by (rule bits_32) (simp_all add: thumb_word_def bit_simps)

lemma thumb_still_matches:
  fixes d :: u32
  shows "ucast (0xF0 OR (d AND 0x7)) AND 0xF8 = (0xF0 :: byte)" "ucast (0xF8 OR (d AND 0x7)) AND 0xF8 = (0xF8 :: byte)"
  by (rule bits_8; simp add: bit_simps)+

lemma thumb_word_byte:
  fixes d :: u32
  assumes d: "take_bit 22 d = thumb_word b0 b1 b2 b3" and b: "b1 AND 0xF8 = 0xF0" "b3 AND 0xF8 = 0xF8"
  shows "ucast (drop_bit 11 d) = b0 \<and> ucast (0xF0 OR (drop_bit 19 d AND 0x7)) = b1 \<and> ucast d = b2
    \<and> ucast (0xF8 OR (drop_bit 8 d AND 0x7)) = b3"
proof -
  have bit: "bit d n = bit (thumb_word b0 b1 b2 b3) n" if "n < 22" for n
    using that by (metis bit_take_bit_iff d)
  show ?thesis
    using b unfolding byte_eq_bits
    by (intro conjI) (simp_all add: bit_simps bit thumb_word_def)
qed

definition armthumb_instr :: "bool \<Rightarrow> u32 \<Rightarrow> byte list \<Rightarrow> byte list" where
  "armthumb_instr e now_pos w = (if armthumb_match w 0 then armthumb_convert now_pos e w 0 else take 2 w)"

lemma armthumb_inverse:
  assumes "unat now_pos mod 2 = 0" and "armthumb_match [b0, b1, b2, b3] 0"
  shows "armthumb_match (armthumb_convert now_pos True [b0, b1, b2, b3] 0) 0"
    and "armthumb_convert now_pos False (armthumb_convert now_pos True [b0, b1, b2, b3] 0) 0 = [b0, b1, b2, b3]"
proof -
  have "unat (now_pos + word_of_nat 4) mod 2 = 0" using assms(1) by (subst mod_add_word) (simp, presburger)
  then have p: "take_bit 1 (now_pos + 4) = 0" by (intro take_bit_aligned) simp
  let ?s = "thumb_word b0 b1 b2 b3"
  let ?d = "drop_bit 1 (now_pos + 4 + push_bit 1 ?s)"
  have "take_bit 22 (drop_bit 1 (push_bit 1 (take_bit 22 ?d) - (now_pos + 4))) = take_bit 22 (drop_bit 1 (push_bit 1 ?s))"
    by (rule bcj_shift_inverse [OF p]) simp
  also have "\<dots> = take_bit 22 ?s"
    by (rule take_drop_push) simp
  also have "\<dots> = ?s"
    by (rule bits_32; simp add: thumb_word_def bit_simps)
  finally have d': "take_bit 22 (drop_bit 1 (push_bit 1 (take_bit 22 ?d) - (now_pos + 4))) = ?s" .
  have m: "b1 AND 0xF8 = 0xF0" "b3 AND 0xF8 = 0xF8"
    using assms(2) by (simp_all only: armthumb_match_def list4)
  show "armthumb_match (armthumb_convert now_pos True [b0, b1, b2, b3] 0) 0"
    by (simp only: armthumb_match_def armthumb_convert_4 Let_def list4 thumb_still_matches simp_thms)
  show "armthumb_convert now_pos False (armthumb_convert now_pos True [b0, b1, b2, b3] 0) 0 = [b0, b1, b2, b3]"
    using thumb_word_byte [OF d' m]
    by (simp only: armthumb_convert_4 Let_def if_True if_False thumb_word_bytes simp_thms)
qed

lemma length_armthumb_convert [simp]: "length (armthumb_convert now_pos e w i) = length w"
  by (simp add: armthumb_convert_def Let_def)

lemma take_4_cases:
  assumes "4 \<le> length w"
  obtains b0 b1 b2 b3 r where "w = b0 # b1 # b2 # b3 # r"
  using assms by (auto simp: numeral_eq_Suc Suc_le_length_iff)

interpretation armthumb: instruction_filter 4 armthumb_instr "\<lambda>now_pos. unat now_pos mod 2 = 0"
    "\<lambda>xs. xs ! 1 AND 0xF8 = 0xF8"
proof
  fix now_pos :: u32 and e and w ys out :: "byte list" and m
  show "0 < (4 :: nat)" by simp
  show "length w = 4 \<Longrightarrow> 0 < length (armthumb_instr e now_pos w) \<and> length (armthumb_instr e now_pos w) \<le> 4"
    by (cases "armthumb_match w 0") (simp_all add: armthumb_instr_def del: length_greater_0_conv)
  show "length w = 4 \<Longrightarrow> unat now_pos mod 2 = 0 \<Longrightarrow>
      unat (now_pos + word_of_nat (length (armthumb_instr e now_pos w))) mod 2 = 0"
    by (subst mod_add_word, simp, cases "armthumb_match w 0") (simp_all add: armthumb_instr_def, presburger+)
  show "armthumb_instr False now_pos (take 4 (out @ ys)) = take m w"
    if al: "unat now_pos mod 2 = 0" and w4: "4 \<le> length w" and "out = armthumb_instr True now_pos (take 4 w)" and "m = length out"
      and "length ys = length w - m" and "(ys ! 1 AND 0xF8 = 0xF8) = (drop m w ! 1 AND 0xF8 = 0xF8)"
  proof -
    obtain b0 b1 b2 b3 r where [simp]: "w = b0 # b1 # b2 # b3 # r" using w4 by (rule take_4_cases)
    show ?thesis
    proof (cases "armthumb_match [b0, b1, b2, b3] 0")
      case True
      with that(3,4) armthumb_inverse [OF al True] show ?thesis
        by (simp add: armthumb_instr_def)
    next
      case False
      with that(3,4) have [simp]: "out = [b0, b1]" "m = 2" by (simp_all add: armthumb_instr_def)
      from that(5) have "Suc (Suc 0) \<le> length ys" by simp
      then obtain c d q where [simp]: "ys = c # d # q" by (auto simp: Suc_le_length_iff)
      show ?thesis
        using False that(6) by (auto simp: armthumb_instr_def armthumb_match_def numeral_eq_Suc)
    qed
  qed
  show "(armthumb_instr True now_pos (take 4 w) @ ys) ! 1 AND 0xF8 = 0xF8 \<longleftrightarrow> w ! 1 AND 0xF8 = 0xF8"
    if w4: "4 \<le> length w"
  proof -
    obtain b0 b1 b2 b3 r where [simp]: "w = b0 # b1 # b2 # b3 # r" using w4 by (rule take_4_cases)
    have "ucast (0xF0 OR (d AND 0x7)) AND 0xF8 \<noteq> (0xF8 :: byte)" for d :: u32
      unfolding thumb_still_matches by simp
    then show ?thesis
      by (auto simp: armthumb_instr_def armthumb_convert_4 armthumb_match_def Let_def simp del: One_nat_def)
  qed
qed

lemma armthumb_convert_local:
  "armthumb_convert now_pos e (pre @ [a, b, c, d] @ post) (length pre) =
     pre @ armthumb_convert (now_pos + word_of_nat (length pre)) e [a, b, c, d] 0 @ post"
  by (simp only: armthumb_convert_def local4 convert4)

lemma armthumb_match_local: "armthumb_match (pre @ [a, b, c, d] @ post) (length pre) = armthumb_match [a, b, c, d] 0"
  by (simp only: armthumb_match_def local4 list4)

lemma armthumb_loop_scan_from:
  "now = now_pos + word_of_nat (length pre) \<Longrightarrow> armthumb_loop now_pos e (pre @ xs) (length pre) =
     (pre @ fst (scan 4 (armthumb_instr e) now xs), length pre + snd (scan 4 (armthumb_instr e) now xs))"
proof (induction now xs arbitrary: pre rule: armthumb.scan_induct [where e = e])
  case (short now xs)
  then show ?case by (simp add: armthumb_loop.simps [of now_pos e "pre @ xs"] armthumb.scan_short)
next
  case (long now xs out m)
  obtain a b c d r where [simp]: "xs = a # b # c # d # r" using long(1) by (rule take_4_cases)
  have xs: "pre @ xs = pre @ [a, b, c, d] @ r" "take 4 xs = [a, b, c, d]" by simp_all
  have "armthumb_loop now_pos e (pre @ xs) (length pre) = armthumb_loop now_pos e ((pre @ out) @ drop m xs) (length (pre @ out))"
  proof (cases "armthumb_match [a, b, c, d] 0")
    case True
    then have "out = armthumb_convert now e [a, b, c, d] 0" "m = 4"
      using long(2,3) by (simp_all add: armthumb_instr_def)
    with True show ?thesis unfolding xs(1)
      by (subst armthumb_loop.simps) (simp add: armthumb_match_local armthumb_convert_local long(7) del: append_Cons append_Nil)
  next
    case False
    then have "out = [a, b]" "m = 2" using long(2,3) by (simp_all add: armthumb_instr_def)
    with False show ?thesis unfolding xs(1)
      by (subst armthumb_loop.simps) (simp add: armthumb_match_local del: append_Cons append_Nil, simp)
  qed
  also have "\<dots> = ((pre @ out) @ fst (scan 4 (armthumb_instr e) (now + word_of_nat m) (drop m xs)),
      length (pre @ out) + snd (scan 4 (armthumb_instr e) (now + word_of_nat m) (drop m xs)))"
    by (rule long(6)) (simp add: long(3,7) add.assoc)
  finally show ?case
    unfolding armthumb.scan_long [OF long(1-3)] by (simp add: long(3) add.assoc)
qed

lemma armthumb_loop_scan: "armthumb_loop now_pos e xs 0 = scan 4 (armthumb_instr e) now_pos xs"
  using armthumb_loop_scan_from [of now_pos now_pos "[]"] by (simp add: prod_eq_iff)

end
