(* ===== verification/Bcj_Ia64.thy ===== *)
theory Bcj_Ia64
  imports Bcj
begin

unbundle bit_operations_syntax

text \<open>
  The lemmas on src/liblzma/src/liblzma/simple/ia64.c, whose model is in Bcj: a bundle
  of 16 bytes is seen as 128 bits, of which a slot conversion changes only the 21 address bits
  of its own instruction. So conversions of different slots commute and the
  decoder undoes the encoder on a whole bundle.

  The theory ends with the properties of all five filters without state.
\<close>

definition buf_bit :: "byte list \<Rightarrow> nat \<Rightarrow> bool" where
  "buf_bit buf n \<longleftrightarrow> bit (buf ! (n div 8)) (n mod 8)"

lemma buf_bit_ext:
  assumes "length a = k" "length b = k" and "\<And>n. n < 8 * k \<Longrightarrow> buf_bit a n = buf_bit b n"
  shows "a = b"
proof (rule nth_equalityI)
  fix i assume i: "i < length a"
  show "a ! i = b ! i"
  proof (rule bit_word_eqI)
    fix j :: nat assume "j < LENGTH(8)"
    then show "bit (a ! i) j = bit (b ! i) j"
      using assms(3) [of "8 * i + j"] i assms(1) by (simp add: buf_bit_def)
  qed
qed (simp add: assms(1,2))

lemma ia64_read_fold:
  "k \<le> 8 \<Longrightarrow> bit (fold (\<lambda>j instruction. instruction + push_bit (8 * j) (ucast (buffer ! (p + j)))) [0..<k] 0 :: u64) n
     \<longleftrightarrow> n < 8 * k \<and> buf_bit buffer (8 * p + n)"
proof (induction k arbitrary: n)
  case (Suc k)
  define r where "r = fold (\<lambda>j instruction. instruction + push_bit (8 * j) (ucast (buffer ! (p + j)))) [0..<k] (0 :: u64)"
  have r: "bit r n \<longleftrightarrow> n < 8 * k \<and> buf_bit buffer (8 * p + n)" for n
    using Suc by (simp add: r_def)
  have "r + push_bit (8 * k) (ucast (buffer ! (p + k))) = r OR push_bit (8 * k) (ucast (buffer ! (p + k)))"
    by (rule disjunctive_add) (auto simp: r bit_push_bit_iff)
  moreover have "(8 * p + n) div 8 = p + k \<and> (8 * p + n) mod 8 = n - 8 * k" if "8 * k \<le> n" "n < 8 * k + 8"
    using that by (auto simp: div_nat_eqI mod_nat_eqI)
  ultimately show ?case
    using Suc(2) bit_imp_le_length [of "buffer ! (p + k)" "n - 8 * k"]
    by (auto simp: r_def [symmetric] r bit_or_iff bit_push_bit_iff bit_unsigned_iff buf_bit_def)
qed simp

lemma ia64_read_bit: "bit (ia64_read buffer p) n \<longleftrightarrow> n < 48 \<and> buf_bit buffer (8 * p + n)"
  using ia64_read_fold [of 6 buffer p n] by (simp add: ia64_read_def)

lemma ia64_write_fold:
  assumes "p + k \<le> length buffer"
  shows "buf_bit (fold (\<lambda>j buffer. buffer[p + j := ucast (drop_bit (8 * j) (x :: u64))]) [0..<k] buffer) n
     \<longleftrightarrow> (if 8 * p \<le> n \<and> n < 8 * (p + k) then bit x (n - 8 * p) else buf_bit buffer n)"
  using assms
proof (induction k arbitrary: n)
  case (Suc k)
  define b where "b = fold (\<lambda>j buffer. buffer[p + j := ucast (drop_bit (8 * j) x)]) [0..<k] buffer"
  have b: "buf_bit b n \<longleftrightarrow> (if 8 * p \<le> n \<and> n < 8 * (p + k) then bit x (n - 8 * p) else buf_bit buffer n)" for n
    using Suc by (simp add: b_def)
  have len: "length b = length buffer"
    unfolding b_def by (rule fold_invariant [where Q = "\<lambda>_. True"]) auto
  show ?case
  proof (cases "n div 8 = p + k")
    case True
    then have "8 * (p + k) \<le> n" "n < 8 * (p + k) + 8" "n mod 8 = n - 8 * (p + k)"
      by (auto simp: minus_mult_div_eq_mod [symmetric])
    then show ?thesis
      using True Suc(2) by (auto simp: b_def [symmetric] buf_bit_def len bit_unsigned_iff bit_drop_bit_eq)
  next
    case False
    then have "\<not> (8 * (p + k) \<le> n \<and> n < 8 * (p + k) + 8)" by (auto simp: div_nat_eqI)
    then show ?thesis
      using False b [of n] by (auto simp: b_def [symmetric] buf_bit_def)
  qed
qed auto

lemma ia64_write_bit:
  "p + 6 \<le> length buffer \<Longrightarrow> buf_bit (ia64_write buffer p x) n
     \<longleftrightarrow> (if 8 * p \<le> n \<and> n < 8 * p + 48 then bit x (n - 8 * p) else buf_bit buffer n)"
  using ia64_write_fold [of p 6 buffer x n] by (simp add: ia64_write_def)

text \<open>The condition on a slot, the address in it, and the address after conversion.\<close>

definition ia64_is_branch :: "byte list \<Rightarrow> nat \<Rightarrow> bool" where
  "ia64_is_branch w bp \<longleftrightarrow> buf_bit w (bp + 37) \<and> \<not> buf_bit w (bp + 38) \<and> buf_bit w (bp + 39) \<and> \<not> buf_bit w (bp + 40)
     \<and> \<not> buf_bit w (bp + 9) \<and> \<not> buf_bit w (bp + 10) \<and> \<not> buf_bit w (bp + 11)"

definition ia64_src :: "byte list \<Rightarrow> nat \<Rightarrow> u32" where
  "ia64_src w bp =
     (let inst_norm = drop_bit (bp mod 8) (ia64_read w (bp div 8))
      in ucast (drop_bit 13 inst_norm AND 0xFFFFF) OR ucast (push_bit 20 (drop_bit 36 inst_norm AND 1)))"

definition ia64_dest :: "u32 \<Rightarrow> bool \<Rightarrow> byte list \<Rightarrow> nat \<Rightarrow> u32" where
  "ia64_dest p e w bp = drop_bit 4 (if e then p + push_bit 4 (ia64_src w bp) else push_bit 4 (ia64_src w bp) - p)"

lemma bit_mask_words:
  "bit (0xFFFFF :: 'a::len word) n \<longleftrightarrow> n < LENGTH('a) \<and> n < 20"
  "bit (0xF :: 'a word) n \<longleftrightarrow> n < LENGTH('a) \<and> n < 4"
  "bit (7 :: 'a word) n \<longleftrightarrow> n < LENGTH('a) \<and> n < 3"
proof -
  have "bit (mask 20 :: 'a word) n \<longleftrightarrow> n < LENGTH('a) \<and> n < 20" "bit (mask 4 :: 'a word) n \<longleftrightarrow> n < LENGTH('a) \<and> n < 4"
    "bit (mask 3 :: 'a word) n \<longleftrightarrow> n < LENGTH('a) \<and> n < 3" by (simp_all add: bit_mask_iff)
  then show "bit (0xFFFFF :: 'a word) n \<longleftrightarrow> n < LENGTH('a) \<and> n < 20"
    "bit (0xF :: 'a word) n \<longleftrightarrow> n < LENGTH('a) \<and> n < 4" "bit (7 :: 'a word) n \<longleftrightarrow> n < LENGTH('a) \<and> n < 3"
    by (simp_all add: mask_eq_exp_minus_1)
qed

lemma ia64_norm_bit:
  "m \<le> 40 \<Longrightarrow> bit (drop_bit (bp mod 8) (ia64_read w (bp div 8))) m \<longleftrightarrow> buf_bit w (bp + m)"
proof -
  assume "m \<le> 40"
  moreover have "bp mod 8 < 8" "8 * (bp div 8) + (bp mod 8 + m) = bp + m" by (simp_all flip: add.assoc)
  ultimately show ?thesis by (simp only: bit_drop_bit_eq o_def ia64_read_bit) auto
qed

lemma ia64_src_bit:
  "bit (ia64_src w bp) m \<longleftrightarrow> (m < 20 \<and> buf_bit w (bp + 13 + m)) \<or> (m = 20 \<and> buf_bit w (bp + 36))"
proof -
  define y where "y = drop_bit (bp mod 8) (ia64_read w (bp div 8))"
  have y: "bit y m \<longleftrightarrow> buf_bit w (bp + m)" if "m \<le> 40" for m
    unfolding y_def by (rule ia64_norm_bit [OF that])
  have "drop_bit 36 y AND 1 = (if bit y 36 then 1 else 0)"
    by (simp add: and_1_bit bit_drop_bit_eq)
  then have "bit (ia64_src w bp) m \<longleftrightarrow> (m < 20 \<and> bit y (13 + m)) \<or> (m = 20 \<and> bit y 36)"
    unfolding ia64_src_def Let_def y_def [symmetric]
    by (auto simp: bit_or_iff bit_and_iff bit_unsigned_iff bit_drop_bit_eq bit_push_bit_iff bit_mask_words bit_1_iff
        simp del: bit_numeral_word_iff bit_numeral_iff split: if_splits)
  then show ?thesis using y [of "13 + m"] y [of 36] by (auto simp: add.assoc)
qed

lemma and_F_eq_5: "(y :: u64) AND 0xF = 5 \<longleftrightarrow> bit y 0 \<and> \<not> bit y 1 \<and> bit y 2 \<and> \<not> bit y 3"
proof
  assume "y AND 0xF = 5"
  then have "bit (y AND 0xF) n = bit (5 :: u64) n" for n by simp
  from this [of 0] this [of 1] this [of 2] this [of 3] show "bit y 0 \<and> \<not> bit y 1 \<and> bit y 2 \<and> \<not> bit y 3"
    by (simp add: bit_simps)
next
  assume b: "bit y 0 \<and> \<not> bit y 1 \<and> bit y 2 \<and> \<not> bit y 3"
  have "take_bit 4 (y AND 0xF) = take_bit 4 (5 :: u64)"
  proof (rule bit_word_eqI)
    fix n :: nat
    show "bit (take_bit 4 (y AND 0xF)) n = bit (take_bit 4 (5 :: u64)) n"
    proof (cases "n < 4")
      case True
      then consider "n = 0" | "n = 1" | "n = 2" | "n = 3" by linarith
      then show ?thesis using b by cases (simp_all add: bit_simps)
    qed (simp only: bit_take_bit_iff simp_thms)
  qed
  moreover have "take_bit 4 (y AND 0xF) = y AND 0xF"
    by (rule bit_word_eqI) (auto simp: bit_take_bit_iff bit_and_iff bit_mask_words
        simp del: bit_numeral_word_iff bit_numeral_iff)
  ultimately show "y AND 0xF = 5" by simp
qed

lemma and_7_eq_0: "(y :: u64) AND 7 = 0 \<longleftrightarrow> \<not> bit y 0 \<and> \<not> bit y 1 \<and> \<not> bit y 2"
proof
  assume "y AND 7 = 0"
  then have "bit (y AND 7) n = bit (0 :: u64) n" for n by simp
  from this [of 0] this [of 1] this [of 2] show "\<not> bit y 0 \<and> \<not> bit y 1 \<and> \<not> bit y 2"
    by (simp add: bit_simps)
next
  assume b: "\<not> bit y 0 \<and> \<not> bit y 1 \<and> \<not> bit y 2"
  show "y AND 7 = 0"
  proof (rule bit_word_eqI)
    fix n :: nat
    consider "n = 0" | "n = 1" | "n = 2" | "3 \<le> n" by linarith
    then show "bit (y AND 7) n = bit (0 :: u64) n"
      using b by cases (auto simp: bit_and_iff bit_mask_words simp del: bit_numeral_word_iff bit_numeral_iff)
  qed
qed

lemma ia64_cond:
  fixes w bp
  defines "y \<equiv> drop_bit (bp mod 8) (ia64_read w (bp div 8))"
  shows "drop_bit 37 y AND 0xF = 0x5 \<and> drop_bit 9 y AND 0x7 = 0 \<longleftrightarrow> ia64_is_branch w bp"
proof -
  have y: "bit y m \<longleftrightarrow> buf_bit w (bp + m)" if "m \<le> 40" for m
    unfolding y_def by (rule ia64_norm_bit [OF that])
  show ?thesis
    unfolding ia64_is_branch_def and_F_eq_5 and_7_eq_0
    by (simp add: bit_drop_bit_eq y)
qed

text \<open>The 64-bit word with the new address in it.\<close>

lemma ia64_new_norm_bit:
  fixes y :: u64 and dest :: u32
  shows "bit (((y AND NOT (push_bit 13 0x8FFFFF)) OR push_bit 13 (ucast (dest AND 0xFFFFF)))
       OR push_bit (36 - 20) (ucast (dest AND 0x100000))) m
    \<longleftrightarrow> (if 13 \<le> m \<and> m < 33 then bit dest (m - 13) else if m = 36 then bit dest 20 else bit y m)"
proof -
  define A B C where "A = (0x8FFFFF :: u64)" and "B = (0xFFFFF :: u32)" and "C = (0x100000 :: u32)"
  have "A = mask 20 OR push_bit 23 1" "B = mask 20" "C = push_bit 20 1"
    by (simp_all add: A_def B_def C_def mask_eq_exp_minus_1 push_bit_eq_mult)
  then have w: "bit A k \<longleftrightarrow> k < 20 \<or> k = 23" "bit B k \<longleftrightarrow> k < 20" "bit C k \<longleftrightarrow> k = 20" for k
    by (auto simp only: bit_or_iff bit_push_bit_iff bit_mask_iff bit_1_iff possible_bit_word) auto
  have "bit (((y AND NOT (push_bit 13 A)) OR push_bit 13 (ucast (dest AND B)))
       OR push_bit (36 - 20) (ucast (dest AND C))) m
    \<longleftrightarrow> (if 13 \<le> m \<and> m < 33 then bit dest (m - 13) else if m = 36 then bit dest 20 else bit y m)"
    using bit_imp_le_length [of y m]
    by (auto simp: bit_or_iff bit_and_iff bit_not_iff bit_push_bit_iff bit_unsigned_iff w)
  then show ?thesis by (simp only: A_def B_def C_def)
qed

lemma ia64_slot_no_branch: "\<not> ia64_is_branch w bp \<Longrightarrow> ia64_slot p e 0 bp w = w"
  unfolding ia64_slot_def Let_def add_0_left ia64_cond by (simp only: if_False)

text \<open>What the conversion of a slot does to the 128 bits of a bundle.\<close>

lemma ia64_slot_bit:
  assumes w: "length w = 16" and bp: "bp \<in> {5, 46, 87}"
  shows "buf_bit (ia64_slot p e 0 bp w) n \<longleftrightarrow>
    (if ia64_is_branch w bp \<and> bp + 13 \<le> n \<and> n < bp + 33 then bit (ia64_dest p e w bp) (n - (bp + 13))
     else if ia64_is_branch w bp \<and> n = bp + 36 then bit (ia64_dest p e w bp) 20
     else buf_bit w n)"
proof (cases "ia64_is_branch w bp")
  case False
  then show ?thesis by (simp add: ia64_slot_no_branch)
next
  case True
  define x where "x = ia64_read w (bp div 8)"
  define y where "y = drop_bit (bp mod 8) x"
  define d where "d = ia64_dest p e w bp"
  define mk where "mk = (push_bit (bp mod 8) 1 - 1 :: u64)"
  define y' where "y' = ((y AND NOT (push_bit 13 0x8FFFFF)) OR push_bit 13 (ucast (d AND 0xFFFFF)))
       OR push_bit (36 - 20) (ucast (d AND 0x100000))"
  have cond: "drop_bit 37 y AND 0xF = 0x5 \<and> drop_bit 9 y AND 0x7 = 0"
    unfolding y_def x_def ia64_cond by (rule True)
  have slot: "ia64_slot p e 0 bp w =
      ia64_write w (bp div 8) (x AND mk OR push_bit (bp mod 8) y')"
    using cond
    by (simp only: ia64_slot_def Let_def add_0_left add_0_right add_word_of_nat_0 if_True simp_thms
        x_def [symmetric] y_def [symmetric] y'_def d_def mk_def ia64_dest_def ia64_src_def)
  have r: "bp mod 8 < 8" "bp div 8 + 6 \<le> 16" "8 * (bp div 8) + bp mod 8 = bp" using bp by auto
  have m: "bit mk k \<longleftrightarrow> k < 64 \<and> k < bp mod 8" for k
  proof -
    have "mk = mask (bp mod 8)" by (simp add: mk_def mask_eq_exp_minus_1 push_bit_eq_mult)
    then show ?thesis by (simp add: bit_mask_iff)
  qed
  have y: "bit y k \<longleftrightarrow> bp mod 8 + k < 48 \<and> buf_bit w (bp + k)" for k
    using r(3) by (simp add: y_def x_def bit_drop_bit_eq ia64_read_bit flip: add.assoc)
  note y' = ia64_new_norm_bit [of y d, folded y'_def]
  have "bit (x AND mk OR push_bit (bp mod 8) y') (n - 8 * (bp div 8)) \<longleftrightarrow>
    (if bp + 13 \<le> n \<and> n < bp + 33 then bit d (n - (bp + 13)) else if n = bp + 36 then bit d 20 else buf_bit w n)"
    if n: "8 * (bp div 8) \<le> n" "n < 8 * (bp div 8) + 48"
  proof (cases "n < bp")
    case True
    then have "n - 8 * (bp div 8) < bp mod 8" using r n by linarith
    then show ?thesis
      using True n r(1) by (auto simp: bit_or_iff bit_and_iff m bit_push_bit_iff x_def ia64_read_bit)
  next
    case False
    then obtain k where k: "n = bp + k" using le_Suc_ex not_less by blast
    then have "n - 8 * (bp div 8) = bp mod 8 + k" using r(3) by linarith
    moreover from this have "bp mod 8 + k < 48" using n by linarith
    ultimately show ?thesis
      using k by (auto simp: bit_or_iff bit_and_iff m bit_push_bit_iff y' y)
  qed
  moreover have "8 * (bp div 8) \<le> bp + 13" "bp + 36 < 8 * (bp div 8) + 48" using r by linarith+
  ultimately show ?thesis
    using True r(2) w by (auto simp: slot ia64_write_bit d_def)
qed

lemma ia64_view_cong:
  assumes "\<And>k. k \<le> 40 \<Longrightarrow> buf_bit w (bp + k) = buf_bit w' (bp + k)"
  shows "ia64_is_branch w bp = ia64_is_branch w' bp" "ia64_dest p e w bp = ia64_dest p e w' bp"
proof -
  show "ia64_is_branch w bp = ia64_is_branch w' bp" by (simp add: ia64_is_branch_def assms)
  have "ia64_src w bp = ia64_src w' bp"
    by (rule bit_word_eqI) (auto simp: ia64_src_bit assms add.assoc)
  then show "ia64_dest p e w bp = ia64_dest p e w' bp" by (simp add: ia64_dest_def)
qed

lemma ia64_slot_outside:
  assumes "length w = 16" and "bp \<in> {5, 46, 87}" and "n < bp + 13 \<or> bp + 36 < n"
  shows "buf_bit (ia64_slot p e 0 bp w) n = buf_bit w n"
  using ia64_slot_bit [OF assms(1,2)] assms(3) by auto

lemma ia64_slots_commute:
  assumes w: "length w = 16" and bp: "bp \<in> {5, 46, 87}" "bq \<in> {5, 46, 87}" "bp \<noteq> bq"
  shows "ia64_slot p e 0 bp (ia64_slot p e' 0 bq w) = ia64_slot p e' 0 bq (ia64_slot p e 0 bp w)"
proof (rule buf_bit_ext)
  have sep: "bp + 41 \<le> bq \<or> bq + 41 \<le> bp" using bp by auto
  have q: "ia64_is_branch (ia64_slot p e' 0 bq w) bp = ia64_is_branch w bp"
    "ia64_dest p e (ia64_slot p e' 0 bq w) bp = ia64_dest p e w bp"
    by (rule ia64_view_cong; rule ia64_slot_outside [OF w bp(2)]; use sep in linarith)+
  have r: "ia64_is_branch (ia64_slot p e 0 bp w) bq = ia64_is_branch w bq"
    "ia64_dest p e' (ia64_slot p e 0 bp w) bq = ia64_dest p e' w bq"
    by (rule ia64_view_cong; rule ia64_slot_outside [OF w bp(1)]; use sep in linarith)+
  fix n
  show "buf_bit (ia64_slot p e 0 bp (ia64_slot p e' 0 bq w)) n = buf_bit (ia64_slot p e' 0 bq (ia64_slot p e 0 bp w)) n"
    using sep w bp by (simp only: ia64_slot_bit length_ia64_slot q r) auto
qed (use w in simp_all)

lemma ia64_slot_inverse:
  assumes w: "length w = 16" and bp: "bp \<in> {5, 46, 87}" and p: "unat p mod 16 = 0"
  shows "ia64_slot p False 0 bp (ia64_slot p True 0 bp w) = w"
proof (cases "ia64_is_branch w bp")
  case True
  let ?w = "ia64_slot p True 0 bp w" and ?d = "ia64_dest p True w bp"
  have br: "ia64_is_branch ?w bp"
    using True unfolding ia64_is_branch_def [of ?w] ia64_slot_bit [OF w bp] by (simp add: ia64_is_branch_def)
  have "ia64_src ?w bp = take_bit 21 ?d"
    by (rule bit_word_eqI) (auto simp: ia64_src_bit ia64_slot_bit [OF w bp] True bit_take_bit_iff less_Suc_eq numeral_eq_Suc)
  then have "take_bit 21 (ia64_dest p False ?w bp) = take_bit 21 (drop_bit 4 (push_bit 4 (take_bit 21 ?d) - p))"
    by (simp add: ia64_dest_def)
  also have "\<dots> = take_bit 21 (drop_bit 4 (push_bit 4 (ia64_src w bp)))"
    unfolding ia64_dest_def if_True
    by (rule bcj_shift_inverse) (use p in \<open>simp_all add: take_bit_aligned\<close>)
  also have "\<dots> = take_bit 21 (ia64_src w bp)" by (rule take_drop_push) simp
  finally have d: "bit (ia64_dest p False ?w bp) k = bit (ia64_src w bp) k" if "k < 21" for k
    using that by (metis bit_take_bit_iff)
  show ?thesis
  proof (rule buf_bit_ext)
    fix n
    show "buf_bit (ia64_slot p False 0 bp ?w) n = buf_bit w n"
      using w br by (simp add: ia64_slot_bit [OF _ bp]) (auto simp: True d ia64_src_bit)
  qed (use w in simp_all)
qed (simp add: ia64_slot_no_branch)


lemma ia64_read_local:
  "length w = 16 \<Longrightarrow> q + 6 \<le> 16 \<Longrightarrow> ia64_read (pre @ w @ post) (length pre + q) = ia64_read w q"
proof (rule bit_word_eqI)
  fix n :: nat
  assume "length w = 16" "q + 6 \<le> 16"
  moreover have "(8 * (length pre + q) + n) div 8 = length pre + (8 * q + n) div 8"
    "(8 * (length pre + q) + n) mod 8 = (8 * q + n) mod 8" by presburger+
  ultimately show "bit (ia64_read (pre @ w @ post) (length pre + q)) n = bit (ia64_read w q) n"
    by (auto simp: ia64_read_bit buf_bit_def nth_append)
qed

lemma ia64_write_local:
  assumes "length w = 16" "q + 6 \<le> 16"
  shows "ia64_write (pre @ w @ post) (length pre + q) x = pre @ ia64_write w q x @ post"
proof -
  have "fold (\<lambda>j buffer. buffer[length pre + q + j := ucast (drop_bit (8 * j) x)]) [0..<k] (pre @ w @ post)
      = pre @ fold (\<lambda>j buffer. buffer[q + j := ucast (drop_bit (8 * j) x)]) [0..<k] w @ post
    \<and> length (fold (\<lambda>j buffer. buffer[q + j := ucast (drop_bit (8 * j) x) :: byte]) [0..<k] w) = 16" if "k \<le> 6" for k
    using that
  proof (induction k)
    case (Suc k)
    then show ?case using assms by (simp add: list_update_append add.assoc)
  qed (use assms in simp)
  from this [of 6] show ?thesis by (simp add: ia64_write_def)
qed

lemma ia64_slot_local:
  assumes w: "length w = 16" and bp: "bp \<in> {5, 46, 87}"
  shows "ia64_slot p e (length pre) bp (pre @ w @ post) = pre @ ia64_slot (p + word_of_nat (length pre)) e 0 bp w @ post"
proof -
  have q: "bp div 8 + 6 \<le> 16" using bp by auto
  show ?thesis
    by (simp only: ia64_slot_def Let_def ia64_read_local [OF w q] ia64_write_local [OF w q] add_0_left add_word_of_nat_0
        if_distrib [of "\<lambda>u. pre @ u @ post"] cong: if_cong)
qed

text \<open>A whole bundle: the slots that the template selects.\<close>

definition ia64_slots :: "u32 \<Rightarrow> bool \<Rightarrow> u32 \<Rightarrow> byte list \<Rightarrow> byte list" where
  "ia64_slots p e msk w =
     (let opt = (\<lambda>slot w. if drop_bit slot msk AND 1 = 0 then w else ia64_slot p e 0 (5 + 41 * slot) w)
      in opt 2 (opt 1 (opt 0 w)))"

definition ia64_mask :: "byte list \<Rightarrow> u32" where
  "ia64_mask w = ia64_BRANCH_TABLE ! unat (w ! 0 AND 0x1F)"

lemma ia64_convert_slots: "ia64_convert p e w 0 = ia64_slots p e (ia64_mask w) w"
  by (simp add: ia64_convert_def ia64_slots_def ia64_mask_def Let_def upt_rec numeral_2_eq_2)

lemma length_ia64_slots [simp]: "length (ia64_slots p e msk w) = length w"
  by (simp add: ia64_slots_def Let_def)

lemma ia64_slots_inverse:
  assumes w: "length w = 16" and p: "unat p mod 16 = 0"
  shows "ia64_slots p False msk (ia64_slots p True msk w) = w"
proof -
  let ?c = "\<lambda>slot. drop_bit slot msk AND 1 = 0"
  note c = ia64_slots_commute [where p = p and e = False and e' = True]
  have com: "ia64_slot p False 0 5 (ia64_slot p True 0 46 v) = ia64_slot p True 0 46 (ia64_slot p False 0 5 v)"
    "ia64_slot p False 0 5 (ia64_slot p True 0 87 v) = ia64_slot p True 0 87 (ia64_slot p False 0 5 v)"
    "ia64_slot p False 0 46 (ia64_slot p True 0 87 v) = ia64_slot p True 0 87 (ia64_slot p False 0 46 v)"
    if "length v = 16" for v
    using that by (simp_all add: c)
  have inv: "ia64_slot p False 0 5 (ia64_slot p True 0 5 v) = v"
    "ia64_slot p False 0 46 (ia64_slot p True 0 46 v) = v"
    "ia64_slot p False 0 87 (ia64_slot p True 0 87 v) = v"
    if "length v = 16" for v
    using that p by (simp_all add: ia64_slot_inverse)
  have pos: "5 + 41 * 0 = (5 :: nat)" "5 + 41 * 1 = (46 :: nat)" "5 + 41 * 2 = (87 :: nat)" by simp_all
  show ?thesis
    unfolding ia64_slots_def Let_def pos
    by (cases "?c 0"; cases "?c 1"; cases "?c 2") (simp_all only: if_True if_False com inv w length_ia64_slot simp_thms)
qed

lemma ia64_mask_slots:
  assumes "length w = 16"
  shows "ia64_mask (ia64_slots p e msk w) = ia64_mask w"
proof -
  have "buf_bit (ia64_slot p e 0 bp v) n = buf_bit v n" if "n < 5" "length v = 16" "bp \<in> {5, 46, 87}" for bp v n
    using that by (intro ia64_slot_outside) auto
  then have "buf_bit (ia64_slots p e msk w) n = buf_bit w n" if "n < 5" for n
    using that assms by (simp add: ia64_slots_def Let_def)
  then have b: "bit (ia64_slots p e msk w ! 0) n = bit (w ! 0) n" if "n < 5" for n
    using that by (auto simp: buf_bit_def)
  have "ia64_slots p e msk w ! 0 AND 0x1F = w ! 0 AND 0x1F"
    unfolding byte_eq_bits using b [of 0] b [of 1] b [of 2] b [of 3] b [of 4] by (simp add: bit_simps)
  then show ?thesis by (simp add: ia64_mask_def)
qed

interpretation ia64: group_filter 16 ia64_convert ia64_loop
proof
  fix now_pos :: u32 and e i and buffer w pre post :: "byte list"
  show "ia64_loop now_pos e buffer i =
      (if i + 16 \<le> length buffer then ia64_loop now_pos e (ia64_convert now_pos e buffer i) (i + 16) else (buffer, i))"
    by (rule ia64_loop.simps)
  assume w: "length w = 16"
  have t: "(pre @ w @ post) ! length pre = w ! 0" using w by (simp add: nth_append)
  have loc: "ia64_slot now_pos e (length pre) (5 + 41 * slot) (pre @ v @ post) =
      pre @ ia64_slot (now_pos + word_of_nat (length pre)) e 0 (5 + 41 * slot) v @ post"
    if "length v = 16" "slot < 3" for v slot
    using that by (intro ia64_slot_local) (auto simp: less_Suc_eq numeral_eq_Suc)
  show "ia64_convert now_pos e (pre @ w @ post) (length pre) =
      pre @ ia64_convert (now_pos + word_of_nat (length pre)) e w 0 @ post"
    using w loc [of _ 0] loc [of _ 1] loc [of _ 2]
    by (simp add: ia64_convert_def t Let_def upt_rec numeral_2_eq_2)
  show "length (ia64_convert now_pos e w 0) = 16" using w by simp
  assume "unat now_pos mod 16 = 0"
  with w show "ia64_convert now_pos False (ia64_convert now_pos True w 0) 0 = w"
    by (simp add: ia64_convert_slots ia64_mask_slots ia64_slots_inverse)
qed simp_all

subsection \<open>All five filters\<close>

lemmas bcj_code_defs = arm_code_def arm.loop_scan powerpc_code_def powerpc.loop_scan sparc_code_def sparc.loop_scan
  ia64_code_def ia64.loop_scan armthumb_code_def armthumb_loop_scan

text \<open>What simple\_coder.c relies on: a filter is done with all but the last few bytes
  of a buffer, leaves these as they are, and may be resumed with more data.\<close>

locale resumable_filter =
  fixes code :: "'st \<Rightarrow> u32 \<Rightarrow> bool \<Rightarrow> byte list \<Rightarrow> 'st \<times> byte list \<times> nat"
    and unfiltered_max :: nat
  assumes code_resume: "code st now_pos e xs = (st', out, n) \<Longrightarrow>
      code st' (now_pos + word_of_nat n) e (drop n xs @ ys) = (st'', out', n') \<Longrightarrow>
      code st now_pos e (xs @ ys) = (st'', take n out @ out', n + n')"
    and code_result: "code st now_pos e xs = (st', out, n) \<Longrightarrow>
      length out = length xs \<and> n \<le> length xs \<and> drop n out = drop n xs \<and> length xs - n \<le> unfiltered_max"
    and code_Nil: "code st now_pos e [] = (st, [], 0)"

interpretation arm_filter: resumable_filter arm_code 4
  by unfold_locales (auto simp: bcj_code_defs arm.grp.scan_short dest: arm.grp.scan_resume arm.grp.scan_result)

interpretation armthumb_filter: resumable_filter armthumb_code 4
  by unfold_locales (auto simp: bcj_code_defs armthumb.scan_short dest: armthumb.scan_resume armthumb.scan_result)

interpretation powerpc_filter: resumable_filter powerpc_code 4
  by unfold_locales (auto simp: bcj_code_defs powerpc.grp.scan_short dest: powerpc.grp.scan_resume powerpc.grp.scan_result)

interpretation sparc_filter: resumable_filter sparc_code 4
  by unfold_locales (auto simp: bcj_code_defs sparc.grp.scan_short dest: sparc.grp.scan_resume sparc.grp.scan_result)

interpretation ia64_filter: resumable_filter ia64_code 16
  by unfold_locales (auto simp: bcj_code_defs ia64.grp.scan_short dest: ia64.grp.scan_resume ia64.grp.scan_result)

text \<open>C16. For each of the filters for ARM, ARM Thumb, PowerPC, SPARC and IA-64 and every
  position that has the alignment the filter demands, the decoder turns what the encoder
  made of a buffer of any size and content back into the buffer, and reports the same
  number of bytes as done.\<close>

theorem bcj_decode_encode:
  assumes "(code, alignment) \<in> {(arm_code, 4), (armthumb_code, 2), (powerpc_code, 4), (sparc_code, 4), (ia64_code, 16)}"
    and "unat now_pos mod alignment = 0"
    and "code st now_pos True buf = (st', enc, n)"
  shows "code st' now_pos False enc = (st', buf, n)"
  using assms
  by (auto simp: bcj_code_defs arm.grp.scan_roundtrip powerpc.grp.scan_roundtrip sparc.grp.scan_roundtrip
      ia64.grp.scan_roundtrip armthumb.scan_roundtrip)

theorem bcj_decode_encode_witness:
  "powerpc_code () 8 False [0x48, 0x00, 0x00, 0x19, 7] = ((), [0x48, 0x00, 0x00, 0x11, 7], 4)"
proof -
  have "powerpc_code () 8 True [0x48, 0x00, 0x00, 0x11, 7] = ((), [0x48, 0x00, 0x00, 0x19, 7], 4)"
    by code_simp
  then show ?thesis
    using bcj_decode_encode [of powerpc_code 4 8 "()" "[0x48, 0x00, 0x00, 0x11, 7]" "()" "[0x48, 0x00, 0x00, 0x19, 7]" 4]
    by simp
qed

text \<open>C17. Filtering may be interrupted anywhere: filtering a buffer and then, from where the
  filter stopped, the unfiltered rest with more data behind it gives the same bytes and
  the same count as filtering everything at once; what the filter is not done with
  is left as it was.\<close>

theorem bcj_code_resumes:
  assumes "code \<in> {arm_code, armthumb_code, powerpc_code, sparc_code, ia64_code}"
    and "code st now_pos e xs = (st', out, n)"
    and "code st' (now_pos + word_of_nat n) e (drop n xs @ ys) = (st'', out', n')"
  shows "code st now_pos e (xs @ ys) = (st'', take n out @ out', n + n') \<and> drop n out = drop n xs \<and> length xs - n \<le> 16"
proof -
  from assms(1) consider "code = arm_code" | "code = armthumb_code" | "code = powerpc_code" | "code = sparc_code"
    | "code = ia64_code" by blast
  then show ?thesis
  proof cases
    case 1
    show ?thesis
      using arm_filter.code_resume [OF assms(2,3) [unfolded 1]] arm_filter.code_result [OF assms(2) [unfolded 1]]
      by (simp add: 1)
  next
    case 2
    show ?thesis
      using armthumb_filter.code_resume [OF assms(2,3) [unfolded 2]] armthumb_filter.code_result [OF assms(2) [unfolded 2]]
      by (simp add: 2)
  next
    case 3
    show ?thesis
      using powerpc_filter.code_resume [OF assms(2,3) [unfolded 3]] powerpc_filter.code_result [OF assms(2) [unfolded 3]]
      by (simp add: 3)
  next
    case 4
    show ?thesis
      using sparc_filter.code_resume [OF assms(2,3) [unfolded 4]] sparc_filter.code_result [OF assms(2) [unfolded 4]]
      by (simp add: 4)
  next
    case 5
    show ?thesis
      using ia64_filter.code_resume [OF assms(2,3) [unfolded 5]] ia64_filter.code_result [OF assms(2) [unfolded 5]]
      by (simp add: 5)
  qed
qed

theorem bcj_code_resumes_witness:
  "arm_code () 0 True ([1, 2, 3] @ [0xEB, 5]) = ((), [3, 2, 3, 0xEB, 5], 4)"
proof -
  have "arm_code () 0 True [1, 2, 3] = ((), [1, 2, 3], 0)"
    and "arm_code () (0 + word_of_nat 0) True (drop 0 [1, 2, 3] @ [0xEB, 5]) = ((), [3, 2, 3, 0xEB, 5], 4)"
    by code_simp+
  then show ?thesis
    using bcj_code_resumes [of arm_code "()" 0 True "[1, 2, 3]" "()" "[1, 2, 3]" 0 "[0xEB, 5]" "()" "[3, 2, 3, 0xEB, 5]" 4]
    by simp
qed

end
