(* ===== verification/Simple_Coder.thy ===== *)
theory Simple_Coder
  imports Bcj_Ia64 Common
begin

text \<open>
  The coder around the BCJ filters: src/liblzma/src/liblzma/simple/simple\_coder.c, with the
  structure of simple\_private.h and the initialisation functions of arm.c, armthumb.c,
  powerpc.c, sparc.c and ia64.c. It feeds the filter with what the next coder
  of the chain produces (or with the input, for the last filter of an encoder) and keeps
  the bytes that the filter is not done with in a small buffer between the calls.

  The theorems show that the bytes it produces do not depend on how the calls cut up
  the input and the output: they are the filtered data of the next coder.
\<close>

subsection \<open>simple\_private.h\<close>

type_synonym 'st simple_filter = "'st \<Rightarrow> u32 \<Rightarrow> bool \<Rightarrow> byte list \<Rightarrow> 'st \<times> byte list \<times> nat"

record ('s, 'st) simple_coder =
  sc_next :: "'s lzma_next_coder"
  sc_end_was_reached :: bool
  sc_is_encoder :: bool
  sc_filter :: "'st simple_filter"
  sc_simple :: 'st
  sc_now_pos :: u32
  sc_allocated :: nat
  sc_pos :: nat
  sc_filtered :: nat
  sc_size :: nat
  sc_buffer :: "byte list"

subsection \<open>simple\_coder.c\<close>

definition copy_or_code ::
  "('s, 'st) simple_coder \<Rightarrow> byte list \<Rightarrow> nat \<Rightarrow> nat \<Rightarrow> byte list \<Rightarrow> nat \<Rightarrow> nat \<Rightarrow> lzma_action
   \<Rightarrow> lzma_ret \<times> ('s, 'st) simple_coder \<times> nat \<times> byte list \<times> nat" where
  "copy_or_code coder inb in_pos in_size out out_pos out_size action =
     (case nc_code (sc_next coder) of
        None \<Rightarrow>
          (let (in_pos, out, out_pos) = lzma_bufcpy inb in_pos in_size out out_pos out_size;
               coder = (if sc_is_encoder coder \<and> action = LZMA_FINISH \<and> in_pos = in_size
                        then coder\<lparr>sc_end_was_reached := True\<rparr> else coder)
           in (LZMA_OK, coder, in_pos, out, out_pos))
      | Some code \<Rightarrow>
          (let (ret, n, in_pos, out, out_pos) =
                 call_next code (sc_next coder) inb in_pos in_size out out_pos out_size action;
               coder = coder\<lparr>sc_next := n\<rparr>
           in if ret = LZMA_STREAM_END then (LZMA_OK, coder\<lparr>sc_end_was_reached := True\<rparr>, in_pos, out, out_pos)
              else if ret \<noteq> LZMA_OK then (ret, coder, in_pos, out, out_pos)
              else (LZMA_OK, coder, in_pos, out, out_pos)))"

definition call_filter ::
  "('s, 'st) simple_coder \<Rightarrow> byte list \<Rightarrow> ('s, 'st) simple_coder \<times> byte list \<times> nat" where
  "call_filter coder buffer =
     (let (simple, buffer, filtered) = sc_filter coder (sc_simple coder) (sc_now_pos coder) (sc_is_encoder coder) buffer
      in (coder\<lparr>sc_simple := simple, sc_now_pos := sc_now_pos coder + word_of_nat filtered\<rparr>, buffer, filtered))"

text \<open>The part of \<open>simple_code\<close> that works on \<open>out\<close> directly; it is followed by the part
  that works on the coder's buffer.\<close>

definition simple_code_out ::
  "('s, 'st) simple_coder \<Rightarrow> byte list \<Rightarrow> nat \<Rightarrow> nat \<Rightarrow> byte list \<Rightarrow> nat \<Rightarrow> nat \<Rightarrow> lzma_action
   \<Rightarrow> lzma_ret \<times> ('s, 'st) simple_coder \<times> nat \<times> byte list \<times> nat" where
  "simple_code_out coder inb in_pos in_size out out_pos out_size action =
     (let out_avail = out_size - out_pos;
          buf_avail = sc_size coder - sc_pos coder
      in if buf_avail < out_avail \<or> buf_avail = 0 then
           let out_start = out_pos;
               out = put_bytes out out_pos (slice (sc_pos coder) (sc_pos coder + buf_avail) (sc_buffer coder));
               out_pos = out_pos + buf_avail;
               (ret, coder, in_pos, out, out_pos) =
                 copy_or_code coder inb in_pos in_size out out_pos out_size action
           in if ret \<noteq> LZMA_OK then (ret, coder, in_pos, out, out_pos)
              else
                let size = out_pos - out_start;
                    (coder, bytes, filtered) = call_filter coder (slice out_start out_pos out);
                    out = put_bytes out out_start bytes;
                    unfiltered = size - filtered;
                    coder = coder\<lparr>sc_pos := 0, sc_size := unfiltered\<rparr>
                in if sc_end_was_reached coder then (LZMA_OK, coder\<lparr>sc_size := 0\<rparr>, in_pos, out, out_pos)
                   else if 0 < unfiltered then
                     let out_pos = out_pos - unfiltered
                     in (LZMA_OK, coder\<lparr>sc_buffer := put_bytes (sc_buffer coder) 0
                           (slice out_pos (out_pos + unfiltered) out)\<rparr>, in_pos, out, out_pos)
                   else (LZMA_OK, coder, in_pos, out, out_pos)
         else if 0 < sc_pos coder then
           (LZMA_OK, coder\<lparr>sc_buffer := put_bytes (sc_buffer coder) 0
                (slice (sc_pos coder) (sc_pos coder + buf_avail) (sc_buffer coder)),
              sc_size := sc_size coder - sc_pos coder, sc_pos := 0\<rparr>, in_pos, out, out_pos)
         else (LZMA_OK, coder, in_pos, out, out_pos))"

definition simple_code_buffer ::
  "('s, 'st) simple_coder \<Rightarrow> byte list \<Rightarrow> nat \<Rightarrow> nat \<Rightarrow> byte list \<Rightarrow> nat \<Rightarrow> nat \<Rightarrow> lzma_action
   \<Rightarrow> lzma_ret \<times> ('s, 'st) simple_coder \<times> nat \<times> byte list \<times> nat" where
  "simple_code_buffer coder inb in_pos in_size out out_pos out_size action =
     (if 0 < sc_size coder then
        let (ret, coder, in_pos, buffer, size) =
              copy_or_code coder inb in_pos in_size (sc_buffer coder) (sc_size coder) (sc_allocated coder) action;
            coder = coder\<lparr>sc_buffer := buffer, sc_size := size\<rparr>
        in if ret \<noteq> LZMA_OK then (ret, coder, in_pos, out, out_pos)
           else
             let (coder, bytes, filtered) = call_filter coder (take (sc_size coder) (sc_buffer coder));
                 coder = coder\<lparr>sc_buffer := put_bytes (sc_buffer coder) 0 bytes, sc_filtered := filtered\<rparr>;
                 coder = (if sc_end_was_reached coder then coder\<lparr>sc_filtered := sc_size coder\<rparr> else coder);
                 (pos, out, out_pos) =
                   lzma_bufcpy (sc_buffer coder) (sc_pos coder) (sc_filtered coder) out out_pos out_size
             in (LZMA_OK, coder\<lparr>sc_pos := pos\<rparr>, in_pos, out, out_pos)
      else (LZMA_OK, coder, in_pos, out, out_pos))"

definition simple_code :: "('s, 'st) simple_coder lzma_code_function" where
  "simple_code coder inb in_pos in_size out out_pos out_size action =
     (if action = LZMA_SYNC_FLUSH then (LZMA_OPTIONS_ERROR, coder, in_pos, out, out_pos)
      else
        let flush = sc_pos coder < sc_filtered coder;
            (pos, out, out_pos) =
              (if flush then lzma_bufcpy (sc_buffer coder) (sc_pos coder) (sc_filtered coder) out out_pos out_size
               else (sc_pos coder, out, out_pos));
            coder = coder\<lparr>sc_pos := pos\<rparr>
        in if flush \<and> sc_pos coder < sc_filtered coder then (LZMA_OK, coder, in_pos, out, out_pos)
           else if flush \<and> sc_end_was_reached coder then (LZMA_STREAM_END, coder, in_pos, out, out_pos)
           else
             let coder = coder\<lparr>sc_filtered := 0\<rparr>;
                 (ret, coder, in_pos, out, out_pos) =
                   simple_code_out coder inb in_pos in_size out out_pos out_size action
             in if ret \<noteq> LZMA_OK then (ret, coder, in_pos, out, out_pos)
                else
                  let (ret, coder, in_pos, out, out_pos) =
                        simple_code_buffer coder inb in_pos in_size out out_pos out_size action
                  in if ret \<noteq> LZMA_OK then (ret, coder, in_pos, out, out_pos)
                     else if sc_end_was_reached coder \<and> sc_pos coder = sc_size coder
                     then (LZMA_STREAM_END, coder, in_pos, out, out_pos)
                     else (LZMA_OK, coder, in_pos, out, out_pos))"

text \<open>\<open>fresh\<close> is the content of newly allocated memory for the structure; both of its
  allocations are covered by \<open>alloc_ok\<close> and \<open>alloc_simple_ok\<close>; \<open>simple_size\<close> is zero for the
  filters without state. The options are the start offset, or \<open>None\<close> for \<open>NULL\<close>.\<close>

definition lzma_simple_coder_init ::
  "bool \<Rightarrow> bool \<Rightarrow> ('s, 'st) simple_coder \<Rightarrow> ('s lzma_next_coder \<Rightarrow> lzma_ret \<times> 's lzma_next_coder)
   \<Rightarrow> u32 option \<Rightarrow> 'st simple_filter \<Rightarrow> nat \<Rightarrow> nat \<Rightarrow> u32 \<Rightarrow> bool
   \<Rightarrow> ('s, 'st) simple_coder lzma_next_coder \<Rightarrow> lzma_ret \<times> ('s, 'st) simple_coder lzma_next_coder" where
  "lzma_simple_coder_init alloc_ok alloc_simple_ok fresh init_rest options filt simple_size unfiltered_max alignment is_encoder next =
     (if nc_coder next = None \<and> \<not> alloc_ok then (LZMA_MEM_ERROR, next)
      else
        let fresh_coder = fresh\<lparr>sc_next := LZMA_NEXT_CODER_INIT, sc_filter := filt, sc_allocated := 2 * unfiltered_max,
                                sc_buffer := replicate (2 * unfiltered_max) 0\<rparr>;
            coder = (case nc_coder next of Some coder \<Rightarrow> coder | None \<Rightarrow> fresh_coder);
            next' = (case nc_coder next of Some coder \<Rightarrow> next | None \<Rightarrow> next\<lparr>nc_code := Some simple_code\<rparr>)
        in if nc_coder next = None \<and> 0 < simple_size \<and> \<not> alloc_simple_ok
           then (LZMA_MEM_ERROR, next'\<lparr>nc_coder := Some coder\<rparr>)
           else
             let coder = coder\<lparr>sc_now_pos := (case options of Some start_offset \<Rightarrow> start_offset | None \<Rightarrow> 0)\<rparr>
             in if options \<noteq> None \<and> sc_now_pos coder AND (alignment - 1) \<noteq> 0
                then (LZMA_OPTIONS_ERROR, next'\<lparr>nc_coder := Some coder\<rparr>)
                else
                  let coder = coder\<lparr>sc_is_encoder := is_encoder, sc_end_was_reached := False,
                                    sc_pos := 0, sc_filtered := 0, sc_size := 0\<rparr>;
                      (ret, n) = init_rest (sc_next coder)
                  in (ret, next'\<lparr>nc_coder := Some (coder\<lparr>sc_next := n\<rparr>)\<rparr>))"

subsection \<open>Where the data comes from\<close>

text \<open>What \<open>copy_or_code\<close> has delivered so far is \<open>D\<close>: the input itself when there is no next
  coder, otherwise what the next coder produced.\<close>

definition simple_src :: "'s lzma_code_function \<Rightarrow> (byte list \<Rightarrow> byte list \<Rightarrow> 's \<Rightarrow> bool)
    \<Rightarrow> byte list \<Rightarrow> byte list \<Rightarrow> ('s, 'st) simple_coder \<Rightarrow> bool" where
  "simple_src code R c D s \<longleftrightarrow>
     (case nc_code (sc_next s) of None \<Rightarrow> D = c
      | Some g \<Rightarrow> g = code \<and> (\<exists>t. nc_coder (sc_next s) = Some t \<and> R c D t))"

definition simple_src_end :: "(byte list \<Rightarrow> byte list \<Rightarrow> bool)
    \<Rightarrow> byte list \<Rightarrow> byte list \<Rightarrow> ('s, 'st) simple_coder \<Rightarrow> bool" where
  "simple_src_end fin c D s \<longleftrightarrow> (case nc_code (sc_next s) of None \<Rightarrow> D = c | Some g \<Rightarrow> fin c D)"

text \<open>Two states that differ at most in the next coder and in whether it has ended.\<close>

definition simple_same :: "('s, 'st) simple_coder \<Rightarrow> ('s, 'st) simple_coder \<Rightarrow> bool" where
  "simple_same s s' \<longleftrightarrow> sc_is_encoder s' = sc_is_encoder s \<and> sc_filter s' = sc_filter s \<and> sc_simple s' = sc_simple s
     \<and> sc_now_pos s' = sc_now_pos s \<and> sc_allocated s' = sc_allocated s \<and> sc_pos s' = sc_pos s
     \<and> sc_filtered s' = sc_filtered s \<and> sc_size s' = sc_size s \<and> sc_buffer s' = sc_buffer s
     \<and> nc_code (sc_next s') = nc_code (sc_next s)"

context stream_coder
begin

lemma copy_or_code_step:
  assumes io: "io_ok inb in_pos in_size out out_pos out_size" and R: "simple_src code R c D s"
    and ne: "\<not> sc_end_was_reached s"
    and call: "copy_or_code s inb in_pos in_size out out_pos out_size action = (ret, s', in_pos', out', out_pos')"
  shows "io_step in_pos in_size out out_pos out_size in_pos' out' out_pos'" and "simple_same s s'"
    and "ret \<noteq> LZMA_STREAM_END"
    and "ret = LZMA_OK \<Longrightarrow> \<not> sc_end_was_reached s' \<Longrightarrow>
      simple_src code R (c @ slice in_pos in_pos' inb) (D @ slice out_pos out_pos' out') s'"
    and "ret = LZMA_OK \<Longrightarrow> sc_end_was_reached s' \<Longrightarrow>
      simple_src_end fin (c @ slice in_pos in_pos' inb) (D @ slice out_pos out_pos' out') s'"
proof -
  have "io_step in_pos in_size out out_pos out_size in_pos' out' out_pos' \<and> simple_same s s' \<and> ret \<noteq> LZMA_STREAM_END
    \<and> (ret = LZMA_OK \<longrightarrow> \<not> sc_end_was_reached s' \<longrightarrow>
        simple_src code R (c @ slice in_pos in_pos' inb) (D @ slice out_pos out_pos' out') s')
    \<and> (ret = LZMA_OK \<longrightarrow> sc_end_was_reached s' \<longrightarrow>
        simple_src_end fin (c @ slice in_pos in_pos' inb) (D @ slice out_pos out_pos' out') s')"
  proof (cases "nc_code (sc_next s)")
    case None
    obtain ip o1 op where cp: "lzma_bufcpy inb in_pos in_size out out_pos out_size = (ip, o1, op)"
      by (metis prod_cases3)
    then have [simp]: "ret = LZMA_OK" "in_pos' = ip" "out' = o1" "out_pos' = op"
      and s': "s' = s \<or> s' = s\<lparr>sc_end_was_reached := True\<rparr>"
      using call None by (auto simp: copy_or_code_def split: if_splits)
    note e = lzma_bufcpy_emit [OF cp io]
    then have "slice out_pos op o1 = slice in_pos ip inb" by (simp add: io_emit_def)
    then show ?thesis
      using e None s' R by (auto simp: io_step_emit simple_src_def simple_src_end_def simple_same_def)
  next
    case (Some g)
    then obtain t where t: "g = code" "nc_coder (sc_next s) = Some t" "R c D t"
      using R by (auto simp: simple_src_def)
    obtain r t' ip o1 op where cd: "code t inb in_pos in_size out out_pos out_size action = (r, t', ip, o1, op)"
      by (metis prod_cases5)
    let ?s = "s\<lparr>sc_next := sc_next s\<lparr>nc_coder := Some t'\<rparr>\<rparr>"
    have res: "in_pos' = ip" "out' = o1" "out_pos' = op"
      and s': "s' = (if r = LZMA_STREAM_END then ?s\<lparr>sc_end_was_reached := True\<rparr> else ?s)"
      and r: "ret = (if r = LZMA_STREAM_END then LZMA_OK else r)"
      using call Some t cd by (auto simp: copy_or_code_def call_next_def Let_def split: if_splits)
    have "r = LZMA_OK \<Longrightarrow> R (c @ slice in_pos ip inb) (D @ slice out_pos op o1) t'"
      and "r = LZMA_STREAM_END \<Longrightarrow> fin (c @ slice in_pos ip inb) (D @ slice out_pos op o1)"
      using code_keeps [OF io t(3)] code_finishes [OF io t(3)] cd by auto
    then show ?thesis
      using code_io [OF io t(3) cd] Some t ne
      by (auto simp: res s' r simple_src_def simple_src_end_def simple_same_def split: if_splits)
  qed
  then show "io_step in_pos in_size out out_pos out_size in_pos' out' out_pos'" and "simple_same s s'"
    and "ret \<noteq> LZMA_STREAM_END"
    and "ret = LZMA_OK \<Longrightarrow> \<not> sc_end_was_reached s' \<Longrightarrow>
      simple_src code R (c @ slice in_pos in_pos' inb) (D @ slice out_pos out_pos' out') s'"
    and "ret = LZMA_OK \<Longrightarrow> sc_end_was_reached s' \<Longrightarrow>
      simple_src_end fin (c @ slice in_pos in_pos' inb) (D @ slice out_pos out_pos' out') s'"
    by blast+
qed

end

subsection \<open>One call\<close>

definition simple_ok :: "'st simple_filter \<Rightarrow> nat \<Rightarrow> bool \<Rightarrow> ('s, 'st) simple_coder \<Rightarrow> bool" where
  "simple_ok filt umax e s \<longleftrightarrow> sc_filter s = filt \<and> sc_is_encoder s = e \<and> sc_allocated s = 2 * umax
     \<and> length (sc_buffer s) = 2 * umax \<and> sc_pos s \<le> sc_size s \<and> sc_size s \<le> 2 * umax"

text \<open>Of the data \<open>D\<close> delivered so far the filter is done with the part that became \<open>p\<close>; the
  rest is \<open>pend\<close>.\<close>

definition simple_at :: "(byte list \<Rightarrow> 'st \<times> byte list \<times> nat) \<Rightarrow> u32 \<Rightarrow> byte list \<Rightarrow> byte list \<Rightarrow> byte list
    \<Rightarrow> ('s, 'st) simple_coder \<Rightarrow> bool" where
  "simple_at F np D p pend s \<longleftrightarrow> (\<exists>D' n. F D = (sc_simple s, D', n) \<and> sc_now_pos s = np + word_of_nat n
     \<and> p = take n D' \<and> pend = drop n D)"

definition simple_R :: "'s lzma_code_function \<Rightarrow> (byte list \<Rightarrow> byte list \<Rightarrow> 's \<Rightarrow> bool) \<Rightarrow> (byte list \<Rightarrow> byte list \<Rightarrow> bool)
    \<Rightarrow> 'st simple_filter \<Rightarrow> nat \<Rightarrow> 'st \<Rightarrow> u32 \<Rightarrow> bool \<Rightarrow> byte list \<Rightarrow> byte list \<Rightarrow> ('s, 'st) simple_coder \<Rightarrow> bool" where
  "simple_R code R fin filt umax st np e c p s \<longleftrightarrow> simple_ok filt umax e s \<and> sc_pos s \<le> sc_filtered s
     \<and> sc_filtered s \<le> sc_size s \<and>
     (if sc_end_was_reached s
      then sc_pos s < sc_filtered s \<and> sc_filtered s = sc_size s \<and> (\<exists>D. simple_src_end fin c D s
        \<and> p @ slice (sc_pos s) (sc_size s) (sc_buffer s) = fst (snd (filt st np e D)))
      else \<exists>D. simple_src code R c D s \<and> simple_at (filt st np e) np D
        (p @ slice (sc_pos s) (sc_filtered s) (sc_buffer s)) (slice (sc_filtered s) (sc_size s) (sc_buffer s)) s)"

text \<open>No call changes the code of the next coder.\<close>

lemma copy_or_code_next:
  "copy_or_code s inb in_pos in_size out out_pos out_size action = (ret, s', r) \<Longrightarrow>
   nc_code (sc_next s') = nc_code (sc_next s)"
  by (auto simp: copy_or_code_def call_next_def Let_def split: option.splits prod.splits if_splits)

lemma call_filter_next: "call_filter s buffer = (s', r) \<Longrightarrow> sc_next s' = sc_next s"
  by (auto simp: call_filter_def split: prod.splits)

lemma simple_code_out_next:
  "simple_code_out s inb in_pos in_size out out_pos out_size action = (ret, s', r) \<Longrightarrow>
   nc_code (sc_next s') = nc_code (sc_next s)"
  by (auto simp: simple_code_out_def Let_def dest!: copy_or_code_next call_filter_next split: prod.splits if_splits)

lemma simple_code_buffer_next:
  "simple_code_buffer s inb in_pos in_size out out_pos out_size action = (ret, s', r) \<Longrightarrow>
   nc_code (sc_next s') = nc_code (sc_next s)"
  by (auto simp: simple_code_buffer_def Let_def dest!: copy_or_code_next call_filter_next split: prod.splits if_splits)

lemma simple_code_next:
  "simple_code s inb in_pos in_size out out_pos out_size action = (ret, s', r) \<Longrightarrow>
   nc_code (sc_next s') = nc_code (sc_next s)"
  by (auto simp: simple_code_def Let_def dest!: simple_code_out_next simple_code_buffer_next split: prod.splits if_splits)

locale simple_chain = nx: stream_coder code R fin + flt: resumable_filter filt umax
  for code :: "'s lzma_code_function" and R fin and filt :: "'st simple_filter" and umax +
  fixes st :: 'st and np :: u32 and e :: bool
begin

lemma filter_step:
  assumes "simple_at (filt st np e) np D p pend s" and "filt (sc_simple s) (sc_now_pos s) e (pend @ E) = (st2, R2, m)"
  shows "simple_at (filt st np e) np (D @ E) (p @ take m R2) (drop m R2)
      (s\<lparr>sc_simple := st2, sc_now_pos := sc_now_pos s + word_of_nat m\<rparr>)"
    and "fst (snd (filt st np e (D @ E))) = p @ R2"
    and "length R2 = length (pend @ E)" and "m \<le> length R2" and "length R2 - m \<le> umax"
    and "drop m R2 = drop m (pend @ E)"
proof -
  obtain D' n where F: "filt st np e D = (sc_simple s, D', n)" "sc_now_pos s = np + word_of_nat n"
      "p = take n D'" "pend = drop n D"
    using assms(1) unfolding simple_at_def by blast
  have shape: "length D' = length D" "n \<le> length D" using flt.code_result [OF F(1)] by auto
  show r2: "length R2 = length (pend @ E)" "m \<le> length R2" "length R2 - m \<le> umax" "drop m R2 = drop m (pend @ E)"
    using flt.code_result [OF assms(2)] by auto
  have F2: "filt st np e (D @ E) = (st2, take n D' @ R2, n + m)"
    using flt.code_resume [OF F(1)] assms(2) F(2,4) by simp
  show "fst (snd (filt st np e (D @ E))) = p @ R2" by (simp add: F2 F(3))
  show "simple_at (filt st np e) np (D @ E) (p @ take m R2) (drop m R2)
      (s\<lparr>sc_simple := st2, sc_now_pos := sc_now_pos s + word_of_nat m\<rparr>)"
  proof -
    have "drop (n + m) (D @ E) = drop m (drop n (D @ E))" by (simp only: drop_drop add.commute)
    also have "\<dots> = drop m R2" using shape(2) r2(4) F(4) by simp
    finally have "drop (n + m) (D @ E) = drop m R2" .
    moreover have "take (n + m) (take n D' @ R2) = p @ take m R2" using shape F(3) by simp
    ultimately show ?thesis
      unfolding simple_at_def using F2 F(2)
      by (intro exI [of _ "take n D' @ R2"] exI [of _ "n + m"]) (simp add: add.assoc)
  qed
qed

lemma simple_src_same:
  "sc_next s' = sc_next s \<Longrightarrow> simple_src code R c D s' = simple_src code R c D s \<and> simple_src_end fin c D s' = simple_src_end fin c D s"
  by (simp add: simple_src_def simple_src_end_def cong: option.case_cong)

lemma simple_at_same:
  "sc_simple s' = sc_simple s \<Longrightarrow> sc_now_pos s' = sc_now_pos s \<Longrightarrow>
   simple_at F np' D p pend s' = simple_at F np' D p pend s"
  by (simp add: simple_at_def)

lemma simple_out_step:
  assumes io: "io_ok inb in_pos in_size out out_pos out_size" and ok: "simple_ok filt umax e s"
    and ne: "\<not> sc_end_was_reached s" and fl: "sc_filtered s = 0"
    and src: "simple_src code R c D s"
    and sat: "simple_at (filt st np e) np D p (slice (sc_pos s) (sc_size s) (sc_buffer s)) s"
    and call: "simple_code_out s inb in_pos in_size out out_pos out_size action = (ret, s', in_pos', out', out_pos')"
  shows "io_step in_pos in_size out out_pos out_size in_pos' out' out_pos' \<and> ret \<noteq> LZMA_STREAM_END
    \<and> (ret = LZMA_OK \<longrightarrow> simple_ok filt umax e s' \<and> sc_pos s' = 0 \<and> sc_filtered s' = 0
        \<and> (if sc_end_was_reached s'
           then sc_size s' = 0 \<and> (\<exists>D. simple_src_end fin (c @ slice in_pos in_pos' inb) D s'
             \<and> p @ slice out_pos out_pos' out' = fst (snd (filt st np e D)))
           else \<exists>D. simple_src code R (c @ slice in_pos in_pos' inb) D s'
             \<and> simple_at (filt st np e) np D (p @ slice out_pos out_pos' out') (take (sc_size s') (sc_buffer s')) s'))"
proof -
  let ?avail = "sc_size s - sc_pos s"
  let ?pend = "slice (sc_pos s) (sc_size s) (sc_buffer s)"
  have pend: "slice (sc_pos s) (sc_pos s + ?avail) (sc_buffer s) = ?pend" "length ?pend = ?avail"
    using ok by (auto simp: simple_ok_def slice_def)
  show ?thesis
  proof (cases "?avail < out_size - out_pos \<or> ?avail = 0")
    case True
    define o1 where "o1 = put_bytes out out_pos ?pend"
    have em1: "io_emit out out_pos out_size o1 (out_pos + ?avail) ?pend"
      unfolding o1_def pend(2) [symmetric]
      by (rule io_emit_put) (use True io pend(2) in \<open>auto simp: io_ok_def\<close>)
    have io1: "io_ok inb in_pos in_size o1 (out_pos + ?avail) out_size"
      using em1 io by (auto simp: io_ok_def io_emit_def)
    obtain r s1 ip o2 op where cc: "copy_or_code s inb in_pos in_size o1 (out_pos + ?avail) out_size action = (r, s1, ip, o2, op)"
      by (metis prod_cases5)
    note st1 = nx.copy_or_code_step [OF io1 src ne cc]
    let ?E = "slice (out_pos + ?avail) op o2"
    have em2: "io_emit out out_pos out_size o2 op (?pend @ ?E)" and ip: "in_pos \<le> ip" "ip \<le> in_size"
      using io_emit_trans [OF em1] st1(1) by (auto simp: io_step_emit)
    show ?thesis
    proof (cases "r = LZMA_OK")
      case False
      then have "ret = r" "in_pos' = ip" "out' = o2" "out_pos' = op"
        using call True cc pend(1) by (auto simp: simple_code_out_def o1_def Let_def)
      then show ?thesis
        using False st1(3) em2 ip by (auto simp: io_step_emit io_emit_def)
    next
      case rok: True
      have same: "simple_same s s1" by (rule st1(2))
      obtain st2 R2 m where fr: "filt (sc_simple s) (sc_now_pos s) e (?pend @ ?E) = (st2, R2, m)"
        by (metis prod_cases3)
      note fs = filter_step [OF sat fr]
      have sl: "slice out_pos op o2 = ?pend @ ?E" using em2 by (simp add: io_emit_def)
      have size: "op - out_pos = length R2"
        using em2 io by (auto simp: fs(3) io_emit_def io_ok_def simp flip: sl)
      define s2 where "s2 = s1\<lparr>sc_simple := st2, sc_now_pos := sc_now_pos s1 + word_of_nat m, sc_pos := 0, sc_size := length R2 - m\<rparr>"
      have cf: "call_filter s1 (slice out_pos op o2) = (s1\<lparr>sc_simple := st2, sc_now_pos := sc_now_pos s1 + word_of_nat m\<rparr>, R2, m)"
        using same ok fr by (simp add: call_filter_def sl simple_same_def simple_ok_def)
      define o3 where "o3 = put_bytes o2 out_pos R2"
      have em3: "io_emit out out_pos out_size o3 op R2"
        unfolding o3_def by (rule io_emit_rewrite [OF em2]) (use fs(3) io in \<open>auto simp: io_ok_def\<close>)
      have un: "simple_code_out s inb in_pos in_size out out_pos out_size action =
         (if sc_end_was_reached s1 then (LZMA_OK, s2\<lparr>sc_size := 0\<rparr>, ip, o3, op)
          else if 0 < length R2 - m then
            (LZMA_OK, s2\<lparr>sc_buffer := put_bytes (sc_buffer s1) 0 (slice (op - (length R2 - m)) (op - (length R2 - m) + (length R2 - m)) o3)\<rparr>,
             ip, o3, op - (length R2 - m))
          else (LZMA_OK, s2, ip, o3, op))"
        using True cc pend(1) rok cf
        by (simp add: simple_code_out_def o1_def [symmetric] size Let_def s2_def o3_def)
      have ok2: "simple_ok filt umax e s2" "sc_pos s2 = 0" "sc_filtered s2 = 0" "sc_next s2 = sc_next s1"
          "sc_size s2 = length R2 - m" "sc_end_was_reached s2 = sc_end_was_reached s1" "sc_buffer s2 = sc_buffer s1"
        using same ok fl fs(5) by (simp_all add: s2_def simple_same_def simple_ok_def)
      note [simp] = simple_src_same [OF ok2(4)]
      show ?thesis
      proof (cases "sc_end_was_reached s1")
        case end1: True
        then have r: "ret = LZMA_OK" "s' = s2\<lparr>sc_size := 0\<rparr>" "in_pos' = ip" "out' = o3" "out_pos' = op"
          using un call by simp_all
        have "simple_src_end fin (c @ slice in_pos ip inb) (D @ ?E) (s2\<lparr>sc_size := 0\<rparr>)"
          using st1(5) rok end1 ok2(4) by (simp add: simple_src_end_def)
        moreover have "slice out_pos op o3 = R2" using em3 by (simp add: io_emit_def)
        ultimately show ?thesis
          using em3 ip ok2 end1 fs(2)
          by (auto simp: r io_step_emit simple_ok_def)
      next
        case ne1: False
        have src2: "simple_src code R (c @ slice in_pos ip inb) (D @ ?E) s1"
          by (rule st1(4) [OF rok ne1])
        have sat2: "simple_at (filt st np e) np (D @ ?E) (p @ take m R2) (drop m R2) s2"
          using fs(1) same by (simp add: simple_at_def s2_def simple_same_def)
        let ?u = "length R2 - m"
        have em4: "io_emit out out_pos out_size o3 (op - ?u) (take m R2)" "slice (op - ?u) op o3 = drop m R2"
          using io_emit_shrink [OF em3, of ?u] fs(4) io by (auto simp: io_ok_def)
        have op: "op - ?u + ?u = op" using size fs(4) by simp
        define b where "b = put_bytes (sc_buffer s1) 0 (drop m R2)"
        have b: "take ?u b = drop m R2" "length b = 2 * umax"
          using ok2(1,7) fs(5) by (simp_all add: b_def put_bytes_def simple_ok_def)
        have "(ret, s', in_pos', out', out_pos') = (if 0 < ?u
            then (LZMA_OK, s2\<lparr>sc_buffer := b\<rparr>, ip, o3, op - ?u) else (LZMA_OK, s2, ip, o3, op))"
          using ne1 unfolding call [symmetric] un op em4(2) b_def by (simp only: if_False)
        then have res: "ret = LZMA_OK" "in_pos' = ip" "out' = o3" "out_pos' = op - ?u"
            "s' = (if 0 < ?u then s2\<lparr>sc_buffer := b\<rparr> else s2)"
          by (cases "0 < ?u"; simp)+
        have "take (sc_size s') (sc_buffer s') = drop m R2"
          using b(1) ok2(5) by (simp add: res)
        moreover have "simple_ok filt umax e s'" "sc_pos s' = 0" "sc_filtered s' = 0" "\<not> sc_end_was_reached s'"
            "sc_next s' = sc_next s1" "sc_simple s' = sc_simple s2" "sc_now_pos s' = sc_now_pos s2"
          using ok2 b(2) ne1 by (auto simp: res simple_ok_def)
        moreover have "slice out_pos (op - ?u) o3 = take m R2" using em4(1) by (simp add: io_emit_def)
        ultimately show ?thesis
          using em4(1) ip sat2 src2 by (auto simp: res(1-4) io_step_emit simple_src_same [of s' s1] simple_at_same [of s' s2])
      qed
    qed
  next
    case False
    then have "0 < ?avail" by simp
    define b where "b = put_bytes (sc_buffer s) 0 ?pend"
    have b: "take ?avail b = ?pend" "length b = 2 * umax"
      using ok pend(2) by (auto simp: b_def put_bytes_def simple_ok_def)
    have res: "ret = LZMA_OK" "in_pos' = in_pos" "out' = out" "out_pos' = out_pos"
        "s' = (if 0 < sc_pos s then s\<lparr>sc_buffer := b, sc_size := ?avail, sc_pos := 0\<rparr> else s)"
      using False call pend(1) by (auto simp: simple_code_out_def Let_def b_def split: if_splits)
    have "take (sc_size s') (sc_buffer s') = ?pend"
      using b(1) ok by (auto simp: res slice_def simple_ok_def)
    moreover have "simple_ok filt umax e s'" "sc_pos s' = 0" "sc_filtered s' = 0" "\<not> sc_end_was_reached s'"
        "sc_next s' = sc_next s" "sc_simple s' = sc_simple s" "sc_now_pos s' = sc_now_pos s"
      using ok b(2) ne fl by (auto simp: res simple_ok_def)
    ultimately show ?thesis
      using io src sat
      by (auto simp: res(1-4) io_step_def io_ok_def simple_src_same [of s' s] simple_at_same [of s' s])
  qed
qed

lemma simple_buffer_step:
  assumes io: "io_ok inb in_pos in_size out out_pos out_size" and ok: "simple_ok filt umax e s"
    and ne: "\<not> sc_end_was_reached s" and pf: "sc_pos s = 0" "sc_filtered s = 0"
    and src: "simple_src code R c D s"
    and sat: "simple_at (filt st np e) np D p (take (sc_size s) (sc_buffer s)) s"
    and call: "simple_code_buffer s inb in_pos in_size out out_pos out_size action = (ret, s', in_pos', out', out_pos')"
  shows "io_step in_pos in_size out out_pos out_size in_pos' out' out_pos' \<and> ret \<noteq> LZMA_STREAM_END
    \<and> (ret = LZMA_OK \<longrightarrow> simple_ok filt umax e s' \<and> sc_pos s' \<le> sc_filtered s' \<and> sc_filtered s' \<le> sc_size s'
        \<and> (if sc_end_was_reached s'
           then sc_filtered s' = sc_size s' \<and> (\<exists>D. simple_src_end fin (c @ slice in_pos in_pos' inb) D s'
             \<and> p @ slice out_pos out_pos' out' @ slice (sc_pos s') (sc_size s') (sc_buffer s') = fst (snd (filt st np e D)))
           else \<exists>D. simple_src code R (c @ slice in_pos in_pos' inb) D s'
             \<and> simple_at (filt st np e) np D (p @ slice out_pos out_pos' out' @ slice (sc_pos s') (sc_filtered s') (sc_buffer s'))
                 (slice (sc_filtered s') (sc_size s') (sc_buffer s')) s'))"
proof (cases "sc_size s = 0")
  case True
  with call have "ret = LZMA_OK" "s' = s" "in_pos' = in_pos" "out' = out" "out_pos' = out_pos"
    by (simp_all add: simple_code_buffer_def)
  then show ?thesis
    using True io ok ne pf src sat by (auto simp: io_step_def io_ok_def)
next
  case False
  have len: "sc_allocated s = 2 * umax" "length (sc_buffer s) = 2 * umax" "sc_size s \<le> 2 * umax"
    using ok by (auto simp: simple_ok_def)
  obtain r s1 ip b1 sz where cc: "copy_or_code s inb in_pos in_size (sc_buffer s) (sc_size s) (sc_allocated s) action = (r, s1, ip, b1, sz)"
    by (metis prod_cases5)
  have io1: "io_ok inb in_pos in_size (sc_buffer s) (sc_size s) (sc_allocated s)"
    using io len by (auto simp: io_ok_def)
  note st1 = nx.copy_or_code_step [OF io1 src ne cc]
  have b1: "sc_size s \<le> sz" "sz \<le> 2 * umax" "length b1 = 2 * umax" "take (sc_size s) b1 = take (sc_size s) (sc_buffer s)"
    and ip: "in_pos \<le> ip" "ip \<le> in_size"
    using st1(1) len by (auto simp: io_step_def)
  show ?thesis
  proof (cases "r = LZMA_OK")
    case False
    then have "ret = r" "in_pos' = ip" "out' = out" "out_pos' = out_pos"
      using call \<open>sc_size s \<noteq> 0\<close> cc by (auto simp: simple_code_buffer_def Let_def)
    then show ?thesis
      using False st1(3) ip io by (auto simp: io_step_def io_ok_def)
  next
    case rok: True
    have same: "simple_same s s1" by (rule st1(2))
    let ?E = "slice (sc_size s) sz b1"
    have all: "take sz b1 = take (sc_size s) (sc_buffer s) @ ?E"
      using slice_append_slice [of 0 "sc_size s" sz b1] b1 by simp
    obtain st2 R2 m where fr: "filt (sc_simple s) (sc_now_pos s) e (take (sc_size s) (sc_buffer s) @ ?E) = (st2, R2, m)"
      by (metis prod_cases3)
    note fs = filter_step [OF sat fr]
    have lenR: "length R2 = sz" using fs(3) b1 by (simp flip: all)
    define b where "b = put_bytes b1 0 R2"
    have b: "length b = 2 * umax" "take sz b = R2" "slice m sz b = drop m R2" "take m b = take m R2"
      using b1 lenR fs(4) by (simp_all add: b_def put_bytes_def slice_def drop_take)
    define fl where "fl = (if sc_end_was_reached s1 then sz else m)"
    have fl: "fl \<le> sz" using fs(4) lenR by (simp add: fl_def)
    obtain pos o1 op where cp: "lzma_bufcpy b 0 fl out out_pos out_size = (pos, o1, op)"
      by (metis prod_cases3)
    have "io_ok b 0 fl out out_pos out_size" using io fl b1(2) b(1) by (auto simp: io_ok_def)
    note em = lzma_bufcpy_emit [OF cp this]
    define s2 where "s2 = s1\<lparr>sc_simple := st2, sc_now_pos := sc_now_pos s1 + word_of_nat m, sc_buffer := b,
      sc_size := sz, sc_filtered := fl, sc_pos := pos\<rparr>"
    have cf: "call_filter (s1\<lparr>sc_buffer := b1, sc_size := sz\<rparr>) (take sz b1) =
        (s1\<lparr>sc_buffer := b1, sc_size := sz, sc_simple := st2, sc_now_pos := sc_now_pos s1 + word_of_nat m\<rparr>, R2, m)"
      using same ok fr by (simp add: call_filter_def all simple_same_def simple_ok_def)
    have "sc_pos s1 = 0" using same pf by (simp add: simple_same_def)
    then have "simple_code_buffer s inb in_pos in_size out out_pos out_size action = (LZMA_OK, s2, ip, o1, op)"
      using \<open>sc_size s \<noteq> 0\<close> cc rok cf cp
      by (cases "sc_end_was_reached s1") (simp_all add: simple_code_buffer_def Let_def b_def s2_def fl_def)
    then have res: "ret = LZMA_OK" "s' = s2" "in_pos' = ip" "out' = o1" "out_pos' = op"
      using call by simp_all
    have s2: "simple_ok filt umax e s2" "sc_pos s2 = pos" "sc_filtered s2 = fl" "sc_size s2 = sz" "sc_buffer s2 = b"
        "sc_end_was_reached s2 = sc_end_was_reached s1" "sc_next s2 = sc_next s1" "pos \<le> fl"
      using same ok b(1) b1(2) em fl by (auto simp: s2_def simple_same_def simple_ok_def)
    have outs: "slice out_pos op o1 @ slice pos k b = take k b" if "fl \<le> k" for k
      using em that slice_append_slice [of 0 pos k b] s2(8) by (simp add: io_emit_def)
    have step: "io_step in_pos in_size out out_pos out_size ip o1 op"
      using em ip by (auto simp: io_step_emit io_emit_def)
    show ?thesis
    proof (cases "sc_end_was_reached s1")
      case True
      have "simple_src_end fin (c @ slice in_pos ip inb) (D @ ?E) s2"
        using st1(5) rok True s2(7) by (simp add: simple_src_end_def)
      moreover have "p @ slice out_pos op o1 @ slice pos sz b = fst (snd (filt st np e (D @ ?E)))"
        using outs [OF fl] b(2) fs(2) by simp
      ultimately show ?thesis
        using step s2 True by (auto simp: res fl_def)
    next
      case False
      have "simple_src code R (c @ slice in_pos ip inb) (D @ ?E) s2"
        using st1(4) [OF rok False] simple_src_same [OF s2(7)] by blast
      moreover have "simple_at (filt st np e) np (D @ ?E) (p @ take m R2) (drop m R2) s2"
        using fs(1) same by (simp add: simple_at_def s2_def simple_same_def)
      moreover have "fl = m" using False by (simp add: fl_def)
      ultimately show ?thesis
        using step s2 False outs [of m] b(3,4) fl by (auto simp: res)
    qed
  qed
qed

lemma simple_flushed_step:
  assumes io: "io_ok inb in_pos in_size out out_pos out_size" and ok: "simple_ok filt umax e s"
    and ne: "\<not> sc_end_was_reached s" and fl: "sc_filtered s = 0"
    and src: "simple_src code R c D s"
    and sat: "simple_at (filt st np e) np D p (slice (sc_pos s) (sc_size s) (sc_buffer s)) s"
    and call1: "simple_code_out s inb in_pos in_size out out_pos out_size action = (r1, s1, ip1, o1, op1)"
    and call2: "r1 = LZMA_OK \<Longrightarrow> simple_code_buffer s1 inb ip1 in_size o1 op1 out_size action = (r2, s2, ip2, o2, op2)"
    and res: "(ret, s', in_pos', out', out_pos') = (if r1 \<noteq> LZMA_OK then (r1, s1, ip1, o1, op1)
      else if r2 \<noteq> LZMA_OK then (r2, s2, ip2, o2, op2)
      else if sc_end_was_reached s2 \<and> sc_pos s2 = sc_size s2 then (LZMA_STREAM_END, s2, ip2, o2, op2)
      else (LZMA_OK, s2, ip2, o2, op2))"
  shows "io_step in_pos in_size out out_pos out_size in_pos' out' out_pos'
    \<and> (ret = LZMA_OK \<longrightarrow> simple_R code R fin filt umax st np e (c @ slice in_pos in_pos' inb) (p @ slice out_pos out_pos' out') s')
    \<and> (ret = LZMA_STREAM_END \<longrightarrow> (\<exists>D. simple_src_end fin (c @ slice in_pos in_pos' inb) D s'
        \<and> p @ slice out_pos out_pos' out' = fst (snd (filt st np e D))))"
proof -
  note a = simple_out_step [OF io ok ne fl src sat call1]
  show ?thesis
  proof (cases "r1 = LZMA_OK")
    case False
    with a res show ?thesis by auto
  next
    case r1: True
    have io2: "io_ok inb ip1 in_size o1 op1 out_size"
      using a io by (auto simp: io_step_def io_ok_def)
    have em1: "io_emit out out_pos out_size o1 op1 (slice out_pos op1 o1)" and ip1: "in_pos \<le> ip1"
      using a by (auto simp: io_step_emit)
    show ?thesis
    proof (cases "sc_end_was_reached s1")
      case True
      then have z: "sc_size s1 = 0" "sc_pos s1 = 0" using a r1 by auto
      then have "r2 = LZMA_OK" "s2 = s1" "ip2 = ip1" "o2 = o1" "op2 = op1"
        using call2 [OF r1] by (simp_all add: simple_code_buffer_def)
      with z True r1 res have "ret = LZMA_STREAM_END" "s' = s1" "in_pos' = ip1" "out' = o1" "out_pos' = op1"
        by simp_all
      with a True r1 show ?thesis by auto
    next
      case ne1: False
      then obtain D1 where D1: "simple_src code R (c @ slice in_pos ip1 inb) D1 s1"
          "simple_at (filt st np e) np D1 (p @ slice out_pos op1 o1) (take (sc_size s1) (sc_buffer s1)) s1"
          "simple_ok filt umax e s1" "sc_pos s1 = 0" "sc_filtered s1 = 0"
        using a r1 by auto
      note b = simple_buffer_step [OF io2 D1(3) ne1 D1(4,5,1,2) call2 [OF r1]]
      have em: "io_emit out out_pos out_size o2 op2 (slice out_pos op1 o1 @ slice op1 op2 o2)"
        by (rule io_emit_trans [OF em1]) (use b in \<open>auto simp: io_step_emit\<close>)
      then have sl: "slice out_pos op2 o2 = slice out_pos op1 o1 @ slice op1 op2 o2" by (simp add: io_emit_def)
      have ip2: "ip1 \<le> ip2" "ip2 \<le> in_size" using b by (auto simp: io_step_def)
      have sli: "slice in_pos ip2 inb = slice in_pos ip1 inb @ slice ip1 ip2 inb"
        by (rule slice_append_slice [OF ip1 ip2(1), symmetric])
      have pos: "in_pos' = ip2" "out' = o2" "out_pos' = op2" "s' = s2"
        and r: "ret = (if r2 \<noteq> LZMA_OK then r2 else if sc_end_was_reached s2 \<and> sc_pos s2 = sc_size s2 then LZMA_STREAM_END else LZMA_OK)"
        using res r1 by (auto split: if_splits)
      have "io_step in_pos in_size out out_pos out_size ip2 o2 op2"
        using em ip1 ip2 by (auto simp: io_step_emit sl)
      then show ?thesis
        using b unfolding pos r sl sli
        by (auto simp: simple_R_def split: if_splits)
    qed
  qed
qed

lemma simple_code_step:
  assumes io: "io_ok inb in_pos in_size out out_pos out_size"
    and R: "simple_R code R fin filt umax st np e c p s"
    and call: "simple_code s inb in_pos in_size out out_pos out_size action = (ret, s', in_pos', out', out_pos')"
  shows "io_step in_pos in_size out out_pos out_size in_pos' out' out_pos'
    \<and> (ret = LZMA_OK \<longrightarrow> simple_R code R fin filt umax st np e (c @ slice in_pos in_pos' inb) (p @ slice out_pos out_pos' out') s')
    \<and> (ret = LZMA_STREAM_END \<longrightarrow> (\<exists>D. simple_src_end fin (c @ slice in_pos in_pos' inb) D s'
        \<and> p @ slice out_pos out_pos' out' = fst (snd (filt st np e D))))"
proof (cases "action = LZMA_SYNC_FLUSH")
  case True
  with call have "ret = LZMA_OPTIONS_ERROR" "in_pos' = in_pos" "out' = out" "out_pos' = out_pos"
    by (simp_all add: simple_code_def)
  then show ?thesis using io by (auto simp: io_step_def io_ok_def)
next
  case False
  let ?flush = "sc_pos s < sc_filtered s"
  define fr where "fr = (if ?flush then lzma_bufcpy (sc_buffer s) (sc_pos s) (sc_filtered s) out out_pos out_size else (sc_pos s, out, out_pos))"
  obtain pos o1 op where fr1: "fr = (pos, o1, op)" by (metis prod_cases3)
  have ok: "simple_ok filt umax e s" "sc_pos s \<le> sc_filtered s" "sc_filtered s \<le> sc_size s"
    using R by (auto simp: simple_R_def)
  have em: "io_emit out out_pos out_size o1 op (slice (sc_pos s) pos (sc_buffer s))" "sc_pos s \<le> pos" "pos \<le> sc_filtered s"
  proof -
    have "io_ok (sc_buffer s) (sc_pos s) (sc_filtered s) out out_pos out_size"
      using io ok by (auto simp: io_ok_def simple_ok_def)
    then show "io_emit out out_pos out_size o1 op (slice (sc_pos s) pos (sc_buffer s))" "sc_pos s \<le> pos" "pos \<le> sc_filtered s"
      using fr1 lzma_bufcpy_emit [of "sc_buffer s" "sc_pos s" "sc_filtered s" out out_pos out_size] io ok(2)
      by (auto simp: fr_def io_emit_refl io_ok_def split: if_splits)
  qed
  define s1 where "s1 = s\<lparr>sc_pos := pos\<rparr>"
  have outs: "slice out_pos op o1 @ slice pos k (sc_buffer s) = slice (sc_pos s) k (sc_buffer s)" if "pos \<le> k" for k
    using em slice_append_slice [OF em(2) that, of "sc_buffer s"] by (simp add: io_emit_def)
  show ?thesis
  proof (cases "?flush \<and> pos < sc_filtered s")
    case True
    then have res: "ret = LZMA_OK" "s' = s1" "in_pos' = in_pos" "out' = o1" "out_pos' = op"
      using call False fr1 by (simp_all add: simple_code_def fr_def Let_def s1_def)
    have "simple_R code R fin filt umax st np e c (p @ slice out_pos op o1) s1"
      using R True em(2,3) ok outs by (auto simp: simple_R_def s1_def simple_ok_def simple_src_def simple_src_end_def
          simple_at_def cong: option.case_cong)
    then show ?thesis using em io by (auto simp: res io_step_emit io_emit_def io_ok_def)
  next
    case nofl: False
    then have pos: "pos = sc_filtered s"
      using em(2,3) ok(2) fr1 by (cases "?flush") (auto simp: fr_def)
    show ?thesis
    proof (cases "sc_end_was_reached s")
      case True
      then have fl: ?flush using R by (auto simp: simple_R_def)
      then have res: "ret = LZMA_STREAM_END" "s' = s1" "in_pos' = in_pos" "out' = o1" "out_pos' = op"
        using call False fr1 nofl True by (simp_all add: simple_code_def fr_def Let_def s1_def)
      obtain D where "simple_src_end fin c D s" "p @ slice (sc_pos s) (sc_size s) (sc_buffer s) = fst (snd (filt st np e D))"
          "sc_filtered s = sc_size s"
        using R True by (auto simp: simple_R_def)
      moreover have "slice out_pos op o1 = slice (sc_pos s) pos (sc_buffer s)" using em(1) by (simp add: io_emit_def)
      ultimately show ?thesis using em io pos
        by (auto simp: res s1_def io_step_emit io_emit_def io_ok_def simple_src_end_def cong: option.case_cong)
    next
      case ne: False
      define s2 where "s2 = s1\<lparr>sc_filtered := 0\<rparr>"
      obtain D where D: "simple_src code R c D s"
        "simple_at (filt st np e) np D (p @ slice (sc_pos s) (sc_filtered s) (sc_buffer s)) (slice (sc_filtered s) (sc_size s) (sc_buffer s)) s"
        using R ne by (auto simp: simple_R_def)
      have io2: "io_ok inb in_pos in_size o1 op out_size" using em(1) io by (auto simp: io_ok_def io_emit_def)
      have s2: "simple_ok filt umax e s2" "\<not> sc_end_was_reached s2" "sc_filtered s2 = 0" "simple_src code R c D s2"
        "simple_at (filt st np e) np D (p @ slice out_pos op o1) (slice (sc_pos s2) (sc_size s2) (sc_buffer s2)) s2"
        using ok D ne pos em by (auto simp: s2_def s1_def simple_ok_def simple_src_def simple_at_def io_emit_def cong: option.case_cong)
      obtain r1 t1 ip1 o2 op2 where c1: "simple_code_out s2 inb in_pos in_size o1 op out_size action = (r1, t1, ip1, o2, op2)"
        by (metis prod_cases5)
      obtain r2 t2 ip2 o3 op3 where c2: "simple_code_buffer t1 inb ip1 in_size o2 op2 out_size action = (r2, t2, ip2, o3, op3)"
        by (metis prod_cases5)
      have "(ret, s', in_pos', out', out_pos') = (if r1 \<noteq> LZMA_OK then (r1, t1, ip1, o2, op2)
        else if r2 \<noteq> LZMA_OK then (r2, t2, ip2, o3, op3)
        else if sc_end_was_reached t2 \<and> sc_pos t2 = sc_size t2 then (LZMA_STREAM_END, t2, ip2, o3, op3)
        else (LZMA_OK, t2, ip2, o3, op3))"
        unfolding call [symmetric]
        using False fr1 nofl ne c1 c2 by (cases ?flush) (simp_all add: simple_code_def fr_def Let_def s1_def s2_def)
      note b = simple_flushed_step [OF io2 s2 c1 c2 this]
      have em2: "io_emit out out_pos out_size out' out_pos' (slice out_pos op o1 @ slice op out_pos' out')"
        by (rule io_emit_trans) (use em(1) b in \<open>auto simp: io_step_emit io_emit_def\<close>)
      then have "slice out_pos out_pos' out' = slice out_pos op o1 @ slice op out_pos' out'" by (simp add: io_emit_def)
      then show ?thesis using b em2 by (auto simp: io_step_emit)
    qed
  qed
qed

end

subsection \<open>The coder as a stream coder\<close>

definition simple_stream_R :: "'s lzma_code_function \<Rightarrow> (byte list \<Rightarrow> byte list \<Rightarrow> 's \<Rightarrow> bool) \<Rightarrow> (byte list \<Rightarrow> byte list \<Rightarrow> bool)
    \<Rightarrow> 'st simple_filter \<Rightarrow> nat \<Rightarrow> 'st \<Rightarrow> u32 \<Rightarrow> bool \<Rightarrow> 's lzma_code_function option
    \<Rightarrow> byte list \<Rightarrow> byte list \<Rightarrow> ('s, 'st) simple_coder \<Rightarrow> bool" where
  "simple_stream_R code R fin filt umax st np e nx c p s \<longleftrightarrow>
     simple_R code R fin filt umax st np e c p s \<and> nc_code (sc_next s) = nx"

definition simple_stream_fin :: "(byte list \<Rightarrow> byte list \<Rightarrow> bool) \<Rightarrow> 'st simple_filter \<Rightarrow> 'st \<Rightarrow> u32 \<Rightarrow> bool
    \<Rightarrow> bool \<Rightarrow> byte list \<Rightarrow> byte list \<Rightarrow> bool" where
  "simple_stream_fin fin filt st np e has_next c p \<longleftrightarrow>
     (\<exists>D. (if has_next then fin c D else D = c) \<and> p = fst (snd (filt st np e D)))"

sublocale simple_chain \<subseteq> simple: stream_coder simple_code
    "simple_stream_R code R fin filt umax st np e nx" "simple_stream_fin fin filt st np e (nx \<noteq> None)" for nx
proof
  fix inb out :: "byte list" and in_pos in_size out_pos out_size in_pos' out_pos' action out'
    and c d and s s' :: "('s, 'st) simple_coder"
  assume io: "io_ok inb in_pos in_size out out_pos out_size"
    and R: "simple_stream_R code R fin filt umax st np e nx c d s"
  then have R': "simple_R code R fin filt umax st np e c d s" by (simp add: simple_stream_R_def)
  show "simple_code s inb in_pos in_size out out_pos out_size action = (ret, s', in_pos', out', out_pos')
    \<Longrightarrow> io_step in_pos in_size out out_pos out_size in_pos' out' out_pos'" for ret
    using simple_code_step [OF io R'] by blast
  show "simple_code s inb in_pos in_size out out_pos out_size action = (LZMA_OK, s', in_pos', out', out_pos')
    \<Longrightarrow> simple_stream_R code R fin filt umax st np e nx (c @ slice in_pos in_pos' inb) (d @ slice out_pos out_pos' out') s'"
    using simple_code_step [OF io R'] simple_code_next R by (simp add: simple_stream_R_def) blast
  show "simple_code s inb in_pos in_size out out_pos out_size action = (LZMA_STREAM_END, s', in_pos', out', out_pos')
    \<Longrightarrow> simple_stream_fin fin filt st np e (nx \<noteq> None) (c @ slice in_pos in_pos' inb) (d @ slice out_pos out_pos' out')"
    using simple_code_step [OF io R'] R simple_code_next
    by (fastforce simp: simple_stream_R_def simple_stream_fin_def simple_src_end_def)
qed

subsection \<open>The filters\<close>

text \<open>The initialisation functions of arm.c, armthumb.c, powerpc.c, sparc.c and ia64.c; none of these
  filters has a state to allocate.\<close>

definition arm_coder_init :: "bool \<Rightarrow> ('s, unit) simple_coder \<Rightarrow> ('s lzma_next_coder \<Rightarrow> lzma_ret \<times> 's lzma_next_coder)
    \<Rightarrow> u32 option \<Rightarrow> ('s, unit) simple_coder lzma_next_coder \<Rightarrow> bool
    \<Rightarrow> lzma_ret \<times> ('s, unit) simple_coder lzma_next_coder" where
  "arm_coder_init alloc_ok fresh init_rest options next is_encoder =
     lzma_simple_coder_init alloc_ok True fresh init_rest options arm_code 0 4 4 is_encoder next"

definition lzma_simple_arm_encoder_init :: "bool \<Rightarrow> ('s, unit) simple_coder
    \<Rightarrow> ('s lzma_next_coder \<Rightarrow> lzma_ret \<times> 's lzma_next_coder) \<Rightarrow> u32 option
    \<Rightarrow> ('s, unit) simple_coder lzma_next_coder \<Rightarrow> lzma_ret \<times> ('s, unit) simple_coder lzma_next_coder" where
  "lzma_simple_arm_encoder_init alloc_ok fresh init_rest options next =
     arm_coder_init alloc_ok fresh init_rest options next True"

definition lzma_simple_arm_decoder_init :: "bool \<Rightarrow> ('s, unit) simple_coder
    \<Rightarrow> ('s lzma_next_coder \<Rightarrow> lzma_ret \<times> 's lzma_next_coder) \<Rightarrow> u32 option
    \<Rightarrow> ('s, unit) simple_coder lzma_next_coder \<Rightarrow> lzma_ret \<times> ('s, unit) simple_coder lzma_next_coder" where
  "lzma_simple_arm_decoder_init alloc_ok fresh init_rest options next =
     arm_coder_init alloc_ok fresh init_rest options next False"

definition armthumb_coder_init :: "bool \<Rightarrow> ('s, unit) simple_coder \<Rightarrow> ('s lzma_next_coder \<Rightarrow> lzma_ret \<times> 's lzma_next_coder)
    \<Rightarrow> u32 option \<Rightarrow> ('s, unit) simple_coder lzma_next_coder \<Rightarrow> bool
    \<Rightarrow> lzma_ret \<times> ('s, unit) simple_coder lzma_next_coder" where
  "armthumb_coder_init alloc_ok fresh init_rest options next is_encoder =
     lzma_simple_coder_init alloc_ok True fresh init_rest options armthumb_code 0 4 2 is_encoder next"

definition lzma_simple_armthumb_encoder_init :: "bool \<Rightarrow> ('s, unit) simple_coder
    \<Rightarrow> ('s lzma_next_coder \<Rightarrow> lzma_ret \<times> 's lzma_next_coder) \<Rightarrow> u32 option
    \<Rightarrow> ('s, unit) simple_coder lzma_next_coder \<Rightarrow> lzma_ret \<times> ('s, unit) simple_coder lzma_next_coder" where
  "lzma_simple_armthumb_encoder_init alloc_ok fresh init_rest options next =
     armthumb_coder_init alloc_ok fresh init_rest options next True"

definition lzma_simple_armthumb_decoder_init :: "bool \<Rightarrow> ('s, unit) simple_coder
    \<Rightarrow> ('s lzma_next_coder \<Rightarrow> lzma_ret \<times> 's lzma_next_coder) \<Rightarrow> u32 option
    \<Rightarrow> ('s, unit) simple_coder lzma_next_coder \<Rightarrow> lzma_ret \<times> ('s, unit) simple_coder lzma_next_coder" where
  "lzma_simple_armthumb_decoder_init alloc_ok fresh init_rest options next =
     armthumb_coder_init alloc_ok fresh init_rest options next False"

definition powerpc_coder_init :: "bool \<Rightarrow> ('s, unit) simple_coder \<Rightarrow> ('s lzma_next_coder \<Rightarrow> lzma_ret \<times> 's lzma_next_coder)
    \<Rightarrow> u32 option \<Rightarrow> ('s, unit) simple_coder lzma_next_coder \<Rightarrow> bool
    \<Rightarrow> lzma_ret \<times> ('s, unit) simple_coder lzma_next_coder" where
  "powerpc_coder_init alloc_ok fresh init_rest options next is_encoder =
     lzma_simple_coder_init alloc_ok True fresh init_rest options powerpc_code 0 4 4 is_encoder next"

definition lzma_simple_powerpc_encoder_init :: "bool \<Rightarrow> ('s, unit) simple_coder
    \<Rightarrow> ('s lzma_next_coder \<Rightarrow> lzma_ret \<times> 's lzma_next_coder) \<Rightarrow> u32 option
    \<Rightarrow> ('s, unit) simple_coder lzma_next_coder \<Rightarrow> lzma_ret \<times> ('s, unit) simple_coder lzma_next_coder" where
  "lzma_simple_powerpc_encoder_init alloc_ok fresh init_rest options next =
     powerpc_coder_init alloc_ok fresh init_rest options next True"

definition lzma_simple_powerpc_decoder_init :: "bool \<Rightarrow> ('s, unit) simple_coder
    \<Rightarrow> ('s lzma_next_coder \<Rightarrow> lzma_ret \<times> 's lzma_next_coder) \<Rightarrow> u32 option
    \<Rightarrow> ('s, unit) simple_coder lzma_next_coder \<Rightarrow> lzma_ret \<times> ('s, unit) simple_coder lzma_next_coder" where
  "lzma_simple_powerpc_decoder_init alloc_ok fresh init_rest options next =
     powerpc_coder_init alloc_ok fresh init_rest options next False"

definition sparc_coder_init :: "bool \<Rightarrow> ('s, unit) simple_coder \<Rightarrow> ('s lzma_next_coder \<Rightarrow> lzma_ret \<times> 's lzma_next_coder)
    \<Rightarrow> u32 option \<Rightarrow> ('s, unit) simple_coder lzma_next_coder \<Rightarrow> bool
    \<Rightarrow> lzma_ret \<times> ('s, unit) simple_coder lzma_next_coder" where
  "sparc_coder_init alloc_ok fresh init_rest options next is_encoder =
     lzma_simple_coder_init alloc_ok True fresh init_rest options sparc_code 0 4 4 is_encoder next"

definition lzma_simple_sparc_encoder_init :: "bool \<Rightarrow> ('s, unit) simple_coder
    \<Rightarrow> ('s lzma_next_coder \<Rightarrow> lzma_ret \<times> 's lzma_next_coder) \<Rightarrow> u32 option
    \<Rightarrow> ('s, unit) simple_coder lzma_next_coder \<Rightarrow> lzma_ret \<times> ('s, unit) simple_coder lzma_next_coder" where
  "lzma_simple_sparc_encoder_init alloc_ok fresh init_rest options next =
     sparc_coder_init alloc_ok fresh init_rest options next True"

definition lzma_simple_sparc_decoder_init :: "bool \<Rightarrow> ('s, unit) simple_coder
    \<Rightarrow> ('s lzma_next_coder \<Rightarrow> lzma_ret \<times> 's lzma_next_coder) \<Rightarrow> u32 option
    \<Rightarrow> ('s, unit) simple_coder lzma_next_coder \<Rightarrow> lzma_ret \<times> ('s, unit) simple_coder lzma_next_coder" where
  "lzma_simple_sparc_decoder_init alloc_ok fresh init_rest options next =
     sparc_coder_init alloc_ok fresh init_rest options next False"

definition ia64_coder_init :: "bool \<Rightarrow> ('s, unit) simple_coder \<Rightarrow> ('s lzma_next_coder \<Rightarrow> lzma_ret \<times> 's lzma_next_coder)
    \<Rightarrow> u32 option \<Rightarrow> ('s, unit) simple_coder lzma_next_coder \<Rightarrow> bool
    \<Rightarrow> lzma_ret \<times> ('s, unit) simple_coder lzma_next_coder" where
  "ia64_coder_init alloc_ok fresh init_rest options next is_encoder =
     lzma_simple_coder_init alloc_ok True fresh init_rest options ia64_code 0 16 16 is_encoder next"

definition lzma_simple_ia64_encoder_init :: "bool \<Rightarrow> ('s, unit) simple_coder
    \<Rightarrow> ('s lzma_next_coder \<Rightarrow> lzma_ret \<times> 's lzma_next_coder) \<Rightarrow> u32 option
    \<Rightarrow> ('s, unit) simple_coder lzma_next_coder \<Rightarrow> lzma_ret \<times> ('s, unit) simple_coder lzma_next_coder" where
  "lzma_simple_ia64_encoder_init alloc_ok fresh init_rest options next =
     ia64_coder_init alloc_ok fresh init_rest options next True"

definition lzma_simple_ia64_decoder_init :: "bool \<Rightarrow> ('s, unit) simple_coder
    \<Rightarrow> ('s lzma_next_coder \<Rightarrow> lzma_ret \<times> 's lzma_next_coder) \<Rightarrow> u32 option
    \<Rightarrow> ('s, unit) simple_coder lzma_next_coder \<Rightarrow> lzma_ret \<times> ('s, unit) simple_coder lzma_next_coder" where
  "lzma_simple_ia64_decoder_init alloc_ok fresh init_rest options next =
     ia64_coder_init alloc_ok fresh init_rest options next False"

lemmas bcj_init_defs =
  arm_coder_init_def lzma_simple_arm_encoder_init_def lzma_simple_arm_decoder_init_def
  armthumb_coder_init_def lzma_simple_armthumb_encoder_init_def lzma_simple_armthumb_decoder_init_def
  powerpc_coder_init_def lzma_simple_powerpc_encoder_init_def lzma_simple_powerpc_decoder_init_def
  sparc_coder_init_def lzma_simple_sparc_encoder_init_def lzma_simple_sparc_decoder_init_def
  ia64_coder_init_def lzma_simple_ia64_encoder_init_def lzma_simple_ia64_decoder_init_def

subsection \<open>Initialisation\<close>

abbreviation bcj_start :: "u32 option \<Rightarrow> u32" where
  "bcj_start options \<equiv> (case options of None \<Rightarrow> 0 | Some start_offset \<Rightarrow> start_offset)"

lemma simple_coder_init_ok:
  assumes "lzma_simple_coder_init alloc_ok alloc_simple_ok fresh init_rest options filt simple_size umax alignment e
      LZMA_NEXT_CODER_INIT = (LZMA_OK, nx)"
  obtains s where "nc_coder nx = Some s" and "nc_code nx = Some simple_code" and "simple_ok filt umax e s"
    and "sc_pos s = 0" "sc_filtered s = 0" "sc_size s = 0" "\<not> sc_end_was_reached s"
    and "sc_simple s = sc_simple fresh" and "sc_now_pos s = bcj_start options"
    and "bcj_start options AND (alignment - 1) = 0"
    and "init_rest LZMA_NEXT_CODER_INIT = (LZMA_OK, sc_next s)"
proof -
  define s0 where "s0 = fresh\<lparr>sc_next := LZMA_NEXT_CODER_INIT, sc_filter := filt, sc_allocated := 2 * umax,
    sc_buffer := replicate (2 * umax) 0, sc_now_pos := bcj_start options, sc_is_encoder := e,
    sc_end_was_reached := False, sc_pos := 0, sc_filtered := 0, sc_size := 0\<rparr>"
  obtain r n where rest: "init_rest LZMA_NEXT_CODER_INIT = (r, n)" by fastforce
  have m1: "alloc_ok"
    using assms by (cases alloc_ok) (simp_all add: lzma_simple_coder_init_def)
  have m: "alloc_ok" "\<not> (0 < simple_size \<and> \<not> alloc_simple_ok)"
    by (rule m1, rule notI, use assms m1 in \<open>simp add: lzma_simple_coder_init_def Let_def\<close>)
  have al: "bcj_start options AND (alignment - 1) = 0"
    using assms m by (cases options) (auto simp: lzma_simple_coder_init_def Let_def split: if_splits)
  have "sc_next s0 = LZMA_NEXT_CODER_INIT" by (simp add: s0_def)
  then have "lzma_simple_coder_init alloc_ok alloc_simple_ok fresh init_rest options filt simple_size umax alignment e
      LZMA_NEXT_CODER_INIT = (r, LZMA_NEXT_CODER_INIT\<lparr>nc_code := Some simple_code, nc_coder := Some (s0\<lparr>sc_next := n\<rparr>)\<rparr>)"
    using m1 al rest m(2)
    by (cases options; cases "simple_size = 0") (simp_all add: lzma_simple_coder_init_def Let_def s0_def)
  with assms have r: "r = LZMA_OK" "nx = LZMA_NEXT_CODER_INIT\<lparr>nc_code := Some simple_code, nc_coder := Some (s0\<lparr>sc_next := n\<rparr>)\<rparr>"
    by simp_all
  show thesis
    by (rule that [of "s0\<lparr>sc_next := n\<rparr>"]) (use r al rest in \<open>simp_all add: s0_def simple_ok_def\<close>)
qed

lemma aligned_mod:
  "x AND (2 - 1) = 0 \<Longrightarrow> unat (x :: u32) mod 2 = 0"
  "x AND (4 - 1) = 0 \<Longrightarrow> unat (x :: u32) mod 4 = 0"
  "x AND (16 - 1) = 0 \<Longrightarrow> unat (x :: u32) mod 16 = 0"
proof -
  have "unat x mod 2 ^ k = 0" if "x AND (2 ^ k - 1) = 0" for k
    using that by (simp add: flip: mask_eq_exp_minus_1 take_bit_eq_mask unsigned_take_bit_eq take_bit_eq_mod)
  from this [of 1] this [of 2] this [of 4] show
    "x AND (2 - 1) = 0 \<Longrightarrow> unat (x :: u32) mod 2 = 0"
    "x AND (4 - 1) = 0 \<Longrightarrow> unat (x :: u32) mod 4 = 0"
    "x AND (16 - 1) = 0 \<Longrightarrow> unat (x :: u32) mod 16 = 0"
    by simp_all
qed

subsection \<open>Encoding and decoding\<close>

context simple_chain
begin

lemma simple_stream:
  "stream_coder simple_code (simple_stream_R code R fin filt umax st np e None) (simple_stream_fin fin filt st np e False)"
  "stream_coder simple_code (simple_stream_R code R fin filt umax st np e (Some g)) (simple_stream_fin fin filt st np e True)"
  using simple.stream_coder_axioms [of None] simple.stream_coder_axioms [of "Some g"] by simp_all

lemma simple_R_done:
  assumes "simple_stream_R code R fin filt umax st np e nx c p s"
  shows "(\<exists>D. simple_src_end fin c D s \<and> (\<exists>k. p = take k (fst (snd (filt st np e D)))))
    \<or> (\<exists>D. simple_src code R c D s \<and> (\<exists>k \<le> snd (snd (filt st np e D)). p = take k (fst (snd (filt st np e D)))))"
proof (cases "sc_end_was_reached s")
  case True
  then obtain D q where "simple_src_end fin c D s" "p @ q = fst (snd (filt st np e D))"
    using assms by (auto simp: simple_stream_R_def simple_R_def)
  moreover from this(2) have "p = take (length p) (fst (snd (filt st np e D)))" by (metis append_eq_conv_conj)
  ultimately show ?thesis by blast
next
  case False
  then obtain D q D' n where "simple_src code R c D s" "filt st np e D = (sc_simple s, D', n)" "p @ q = take n D'"
    using assms by (auto simp: simple_stream_R_def simple_R_def simple_at_def)
  moreover from this(3) have "p = take (length p) D'" "length p \<le> n"
    by (metis append_eq_conv_conj take_take min.absorb1 length_append length_take min.bounded_iff le_add1 order.trans min.cobounded2)+
  ultimately show ?thesis by (intro disjI2 exI [of _ D] conjI exI [of _ "length p"]) auto
qed

lemma simple_R_first:
  "simple_stream_R code R fin filt umax st np e None c p s \<Longrightarrow> \<exists>k. p = take k (fst (snd (filt st np e c)))"
  using simple_R_done [of None c p s] by (auto simp: simple_stream_R_def simple_src_def simple_src_end_def)

lemma simple_R_next:
  assumes "simple_stream_R code R fin filt umax st np e (Some g) c p s"
  obtains (ended) D k where "fin c D" and "p = take k (fst (snd (filt st np e D)))"
  | (running) D t k where "R c D t" and "k \<le> snd (snd (filt st np e D))" and "p = take k (fst (snd (filt st np e D)))"
  using simple_R_done [OF assms] assms by (auto simp: simple_stream_R_def simple_src_def simple_src_end_def)

end

text \<open>The last filter of a chain has no coder to call; this one stands for it in the contract.\<close>

definition no_coder :: "'s lzma_code_function" where
  "no_coder s inb in_pos in_size out out_pos out_size action = (LZMA_PROG_ERROR, s, in_pos, out, out_pos)"

locale invertible_filter = resumable_filter code unfiltered_max
  for code :: "unit \<Rightarrow> u32 \<Rightarrow> bool \<Rightarrow> byte list \<Rightarrow> unit \<times> byte list \<times> nat" and unfiltered_max +
  fixes alignment :: u32
  assumes code_roundtrip: "now_pos AND (alignment - 1) = 0 \<Longrightarrow> code st now_pos True xs = (st', out, n)
      \<Longrightarrow> code st' now_pos False out = (st', xs, n)"
begin

lemma no_next: "stream_coder no_coder (\<lambda>_ _ _. False) (\<lambda>_ _. False)"
  by unfold_locales simp_all

lemma chain: "stream_coder code' R fin \<Longrightarrow> simple_chain code' R fin code unfiltered_max"
  by (simp add: simple_chain_def resumable_filter_axioms)

lemma init_R:
  assumes "lzma_simple_coder_init alloc_ok alloc_simple_ok fresh init_rest options code 0 unfiltered_max alignment e
      LZMA_NEXT_CODER_INIT = (LZMA_OK, nx)" and "init_rest LZMA_NEXT_CODER_INIT = (LZMA_OK, rest)"
    and "nc_code rest = None \<or> nc_code rest = Some code' \<and> (\<exists>t. nc_coder rest = Some t \<and> R [] [] t)"
  obtains s where "nc_coder nx = Some s" and "nc_code nx = Some simple_code"
    and "bcj_start options AND (alignment - 1) = 0"
    and "simple_stream_R code' R fin code unfiltered_max () (bcj_start options) e (nc_code rest) [] [] s"
proof -
  obtain s where s: "nc_coder nx = Some s" "nc_code nx = Some simple_code" "simple_ok code unfiltered_max e s"
    "sc_pos s = 0" "sc_filtered s = 0" "sc_size s = 0" "\<not> sc_end_was_reached s"
    "sc_now_pos s = bcj_start options" "bcj_start options AND (alignment - 1) = 0"
    "init_rest LZMA_NEXT_CODER_INIT = (LZMA_OK, sc_next s)"
    using simple_coder_init_ok [OF assms(1)] by metis
  have "sc_next s = rest" using s(10) assms(2) by simp
  then have "simple_src code' R [] [] s" using assms(3) by (auto simp: simple_src_def)
  moreover have "simple_at (code () (bcj_start options) e) (bcj_start options) [] [] [] s"
    using s(8) by (simp add: simple_at_def code_Nil)
  ultimately have "simple_stream_R code' R fin code unfiltered_max () (bcj_start options) e (nc_code rest) [] [] s"
    using s \<open>sc_next s = rest\<close> by (auto simp: simple_stream_R_def simple_R_def)
  with s that show thesis by blast
qed

lemma encoder_stream:
  assumes init: "lzma_simple_coder_init alloc_ok alloc_simple_ok fresh next_filter_none options code 0 unfiltered_max alignment True
      LZMA_NEXT_CODER_INIT = (LZMA_OK, enc)"
    and calls: "coder_calls simple_code (the (nc_coder enc)) inb calls = (ret, s, rest, outs)"
  shows "\<exists>used. inb = used @ rest
    \<and> (ret = LZMA_STREAM_END \<longrightarrow> outs = fst (snd (code () (bcj_start options) True used)))
    \<and> (ret = LZMA_OK \<longrightarrow> (\<exists>k. outs = take k (fst (snd (code () (bcj_start options) True used)))))"
proof -
  let ?np = "bcj_start options"
  obtain s0 where s0: "nc_coder enc = Some s0"
    "simple_stream_R no_coder (\<lambda>_ _ _. False) (\<lambda>_ _. False) code unfiltered_max () ?np True None [] [] s0"
    by (rule init_R [OF init next_filter_none_init]) simp_all
  have "coder_calls simple_code s0 inb calls = (ret, s, rest, outs)" using calls s0(1) by simp
  from stream_coder.coder_calls_stream [OF simple_chain.simple_stream(1) [OF chain [OF no_next]], OF s0(2) this]
  obtain used where used: "inb = used @ rest"
    "ret = LZMA_OK \<longrightarrow> simple_stream_R no_coder (\<lambda>_ _ _. False) (\<lambda>_ _. False) code unfiltered_max () ?np True None used outs s"
    "ret = LZMA_STREAM_END \<longrightarrow> simple_stream_fin (\<lambda>_ _. False) code () ?np True False used outs"
    unfolding append_Nil by blast
  have "\<exists>k. outs = take k (fst (snd (code () ?np True used)))" if "ret = LZMA_OK"
    by (rule simple_chain.simple_R_first [OF chain [OF no_next], OF used(2) [rule_format, OF that]])
  moreover have "outs = fst (snd (code () ?np True used))" if "ret = LZMA_STREAM_END"
    using used(3) that by (simp add: simple_stream_fin_def)
  ultimately show ?thesis using used(1) by blast
qed

lemma take_done:
  assumes "k \<le> snd (snd (code st np e xs))"
  shows "take k (fst (snd (code st np e xs))) = take k (fst (snd (code st np e (xs @ ys))))"
proof -
  obtain st' out n where 1: "code st np e xs = (st', out, n)" by (metis prod_cases3)
  obtain st'' out' n' where 2: "code st' (np + word_of_nat n) e (drop n xs @ ys) = (st'', out', n')" by (metis prod_cases3)
  show ?thesis using assms code_result [OF 1] unfolding 1 code_resume [OF 1 2] by simp
qed

lemma decode_of_prefix:
  assumes "np AND (alignment - 1) = 0" and "k \<le> snd (snd (code () np False (take j (fst (snd (code () np True xs))))))"
  shows "take k (fst (snd (code () np False (take j (fst (snd (code () np True xs))))))) = take k xs"
proof -
  obtain out n where 1: "code () np True xs = ((), out, n)" by (metis prod_cases3 old.unit.exhaust)
  show ?thesis
    using take_done [OF assms(2), of "drop j out"] code_roundtrip [OF assms(1) 1] by (simp add: 1)
qed

lemma decoder_over_encoder:
  assumes enc: "lzma_simple_coder_init alloc_ok alloc_simple_ok fresh next_filter_none options code 0 unfiltered_max alignment True
      LZMA_NEXT_CODER_INIT = (LZMA_OK, enc)"
    and dec: "lzma_simple_coder_init alloc_ok' alloc_simple_ok' fresh' (\<lambda>_. (LZMA_OK, enc)) options code 0 unfiltered_max alignment False
      LZMA_NEXT_CODER_INIT = (LZMA_OK, dec)"
    and calls: "coder_calls simple_code (the (nc_coder dec)) inb calls = (ret, s, rest, outs)"
  shows "(ret = LZMA_STREAM_END \<longrightarrow> inb = outs @ rest) \<and> (ret = LZMA_OK \<longrightarrow> (\<exists>k. outs = take k inb))"
proof -
  let ?np = "bcj_start options"
  let ?R = "simple_stream_R no_coder (\<lambda>_ _ _. False) (\<lambda>_ _. False) code unfiltered_max () ?np True None"
  let ?F = "simple_stream_fin (\<lambda>_ _. False) code () ?np True False"
  note sub = simple_chain.simple_stream(1) [OF chain [OF no_next], of "()" ?np True]
  obtain e0 where e0: "nc_coder enc = Some e0" "nc_code enc = Some simple_code" "?np AND (alignment - 1) = 0" "?R [] [] e0"
    by (rule init_R [OF enc next_filter_none_init]) simp_all
  obtain s0 where s0: "nc_coder dec = Some s0"
    "simple_stream_R simple_code ?R ?F code unfiltered_max () ?np False (Some simple_code) [] [] s0"
    by (rule init_R [OF dec, where code' = simple_code and R = ?R and fin = ?F]) (use e0 in auto)
  have run: "coder_calls simple_code s0 inb calls = (ret, s, rest, outs)" using calls s0(1) by simp
  note over = simple_chain.simple_stream(2) [OF chain [OF sub], of "()" ?np False simple_code]
  from stream_coder.coder_calls_stream [OF over, OF s0(2) run]
  obtain used where used: "inb = used @ rest"
    "ret = LZMA_OK \<longrightarrow> simple_stream_R simple_code ?R ?F code unfiltered_max () ?np False (Some simple_code) used outs s"
    "ret = LZMA_STREAM_END \<longrightarrow> simple_stream_fin ?F code () ?np False True used outs"
    unfolding append_Nil by blast
  obtain out n where E: "code () ?np True used = ((), out, n)" by (cases "code () ?np True used") auto
  note D = code_roundtrip [OF e0(3) E]
  show ?thesis
  proof (intro conjI impI)
    assume "ret = LZMA_STREAM_END"
    with used(1,3) D E show "inb = outs @ rest" by (auto simp: simple_stream_fin_def)
  next
    assume ret: "ret = LZMA_OK"
    then have R: "simple_stream_R simple_code ?R ?F code unfiltered_max () ?np False (Some simple_code) used outs s"
      using used(2) by blast
    have "\<exists>k. outs = take k used"
    proof (rule simple_chain.simple_R_next [OF chain [OF sub], OF R])
      fix q k
      assume ended: "?F used q" "outs = take k (fst (snd (code () ?np False q)))"
      then show ?thesis using D E by (auto simp: simple_stream_fin_def)
    next
      fix q t k
      assume running: "?R used q t" "k \<le> snd (snd (code () ?np False q))" "outs = take k (fst (snd (code () ?np False q)))"
      obtain j where j: "q = take j (fst (snd (code () ?np True used)))"
        using simple_chain.simple_R_first [OF chain [OF no_next], OF running(1)] by blast
      have "outs = take k used"
        using running(2,3) decode_of_prefix [OF e0(3), of k j used] by (simp flip: j)
      then show ?thesis ..
    qed
    then obtain k where "outs = take k used" ..
    then have "outs = take (min k (length used)) inb" using used(1) by (auto simp: min_def)
    then show "\<exists>k. outs = take k inb" ..
  qed
qed

end

lemma bcj_decode_encode_aligned:
  assumes "(code, alignment) \<in> {(arm_code, 4 :: u32), (armthumb_code, 2), (powerpc_code, 4), (sparc_code, 4), (ia64_code, 16)}"
    and "now_pos AND (alignment - 1) = 0" and "code st now_pos True buf = (st', enc, n)"
  shows "code st' now_pos False enc = (st', buf, n)"
proof -
  have "unat now_pos mod unat alignment = 0"
    using assms(1,2) by (auto intro!: aligned_mod simp del: diff_numeral_special)
  then show ?thesis
    using assms(1,3) by (auto simp: bcj_code_defs arm.grp.scan_roundtrip powerpc.grp.scan_roundtrip sparc.grp.scan_roundtrip
      ia64.grp.scan_roundtrip armthumb.scan_roundtrip)
qed

interpretation arm_simple: invertible_filter arm_code 4 4
  by unfold_locales (rule bcj_decode_encode_aligned, auto)

interpretation armthumb_simple: invertible_filter armthumb_code 4 2
  by unfold_locales (rule bcj_decode_encode_aligned, auto)

interpretation powerpc_simple: invertible_filter powerpc_code 4 4
  by unfold_locales (rule bcj_decode_encode_aligned, auto)

interpretation sparc_simple: invertible_filter sparc_code 4 4
  by unfold_locales (rule bcj_decode_encode_aligned, auto)

interpretation ia64_simple: invertible_filter ia64_code 16 16
  by unfold_locales (rule bcj_decode_encode_aligned, auto)

text \<open>C18. Set up as the only filter of an encoder, each of the five filters produces, over any
  number of calls with any amounts of input and output space, the filtered image of exactly
  the input it consumed when it reports the end of the stream, and a prefix of it as long as
  it reports success.\<close>

theorem simple_encoder_stream:
  assumes "(encoder_init, code) \<in> {(lzma_simple_arm_encoder_init, arm_code),
       (lzma_simple_armthumb_encoder_init, armthumb_code),
       (lzma_simple_powerpc_encoder_init, powerpc_code),
       (lzma_simple_sparc_encoder_init, sparc_code),
       (lzma_simple_ia64_encoder_init, ia64_code)}"
    and "encoder_init alloc_ok fresh next_filter_none options LZMA_NEXT_CODER_INIT = (LZMA_OK, enc)"
    and "coder_calls simple_code (the (nc_coder enc)) inb calls = (ret, s, rest, outs)"
  shows "\<exists>used. inb = used @ rest
    \<and> (ret = LZMA_STREAM_END \<longrightarrow> outs = fst (snd (code () (bcj_start options) True used)))
    \<and> (ret = LZMA_OK \<longrightarrow> (\<exists>k. outs = take k (fst (snd (code () (bcj_start options) True used)))))"
  using assms(1,2)
  by (simp add: bcj_init_defs, elim disjE conjE, simp_all only: bcj_init_defs)
    (rule arm_simple.encoder_stream armthumb_simple.encoder_stream powerpc_simple.encoder_stream
      sparc_simple.encoder_stream ia64_simple.encoder_stream, assumption, rule assms(3))+

theorem simple_encoder_stream_witness:
  "\<exists>used. [0, 1, 2, 0xEB, 5, 6, 7, 0xEB, 9] = used @ []
    \<and> [2, 1, 2, 0xEB, 8, 6, 7, 0xEB, 9] = fst (snd (arm_code () (bcj_start None) True used))"
proof -
  let ?fresh = "\<lparr>sc_next = LZMA_NEXT_CODER_INIT, sc_end_was_reached = False, sc_is_encoder = False, sc_filter = arm_code,
    sc_simple = (), sc_now_pos = 0, sc_allocated = 0, sc_pos = 0, sc_filtered = 0, sc_size = 0, sc_buffer = []\<rparr> :: (unit, unit) simple_coder"
  let ?init = "lzma_simple_arm_encoder_init True ?fresh next_filter_none None LZMA_NEXT_CODER_INIT"
  let ?inb = "[0, 1, 2, 0xEB, 5, 6, 7, 0xEB, 9] :: byte list"
  let ?calls = "[(3, 1, LZMA_RUN), (4, 2, LZMA_RUN), (9, 4, LZMA_FINISH), (9, 9, LZMA_FINISH)]"
  let ?run = "coder_calls simple_code (the (nc_coder (snd ?init))) ?inb ?calls"
  have "fst ?init = LZMA_OK" by code_simp
  moreover have "fst ?run = LZMA_STREAM_END \<and> fst (snd (snd ?run)) = []
      \<and> snd (snd (snd ?run)) = [2, 1, 2, 0xEB, 8, 6, 7, 0xEB, 9]" by code_simp
  ultimately show ?thesis
    using simple_encoder_stream [of lzma_simple_arm_encoder_init arm_code True ?fresh None "snd ?init" ?inb ?calls LZMA_STREAM_END
        "fst (snd ?run)" "[]" "[2, 1, 2, 0xEB, 8, 6, 7, 0xEB, 9]"]
    by (simp add: prod_eq_iff)
qed

text \<open>C19. A decoder of one of the five filters that reads from an encoder of the same filter with
  the same start offset, the way the chain stacks them, gives back what the encoder
  consumed: everything when it reports the end of the stream, and a prefix before that, for
  any number of calls with any amounts of input and output space.\<close>

theorem simple_decoder_undoes_encoder:
  assumes "(encoder_init, decoder_init) \<in> {(lzma_simple_arm_encoder_init, lzma_simple_arm_decoder_init),
       (lzma_simple_armthumb_encoder_init, lzma_simple_armthumb_decoder_init),
       (lzma_simple_powerpc_encoder_init, lzma_simple_powerpc_decoder_init),
       (lzma_simple_sparc_encoder_init, lzma_simple_sparc_decoder_init),
       (lzma_simple_ia64_encoder_init, lzma_simple_ia64_decoder_init)}"
    and "encoder_init alloc_ok fresh next_filter_none options LZMA_NEXT_CODER_INIT = (LZMA_OK, enc)"
    and "decoder_init alloc_ok' fresh' (\<lambda>_. (LZMA_OK, enc)) options LZMA_NEXT_CODER_INIT = (LZMA_OK, dec)"
    and "coder_calls simple_code (the (nc_coder dec)) inb calls = (ret, s, rest, outs)"
  shows "(ret = LZMA_STREAM_END \<longrightarrow> inb = outs @ rest) \<and> (ret = LZMA_OK \<longrightarrow> (\<exists>k. outs = take k inb))"
  using assms(1,2,3)
  by (simp add: bcj_init_defs, elim disjE conjE, simp_all only: bcj_init_defs)
    (rule arm_simple.decoder_over_encoder armthumb_simple.decoder_over_encoder powerpc_simple.decoder_over_encoder
      sparc_simple.decoder_over_encoder ia64_simple.decoder_over_encoder, assumption, assumption, rule assms(4))+

theorem simple_decoder_undoes_encoder_witness:
  "[0x48, 0, 0, 0x19, 5, 0x49, 0, 0, 0x21, 9 :: byte] = [0x48, 0, 0, 0x19, 5, 0x49, 0, 0, 0x21, 9] @ []"
proof -
  let ?fresh = "\<lparr>sc_next = LZMA_NEXT_CODER_INIT, sc_end_was_reached = False, sc_is_encoder = False, sc_filter = powerpc_code,
    sc_simple = (), sc_now_pos = 0, sc_allocated = 0, sc_pos = 0, sc_filtered = 0, sc_size = 0, sc_buffer = []\<rparr> :: (unit, unit) simple_coder"
  let ?fresh' = "\<lparr>sc_next = LZMA_NEXT_CODER_INIT, sc_end_was_reached = False, sc_is_encoder = False, sc_filter = powerpc_code,
    sc_simple = (), sc_now_pos = 0, sc_allocated = 0, sc_pos = 0, sc_filtered = 0, sc_size = 0, sc_buffer = []\<rparr>
    :: ((unit, unit) simple_coder, unit) simple_coder"
  let ?enc = "snd (lzma_simple_powerpc_encoder_init True ?fresh next_filter_none (Some 8) LZMA_NEXT_CODER_INIT)"
  let ?init = "lzma_simple_powerpc_decoder_init True ?fresh' (\<lambda>_. (LZMA_OK, ?enc)) (Some 8) LZMA_NEXT_CODER_INIT"
  let ?inb = "[0x48, 0, 0, 0x19, 5, 0x49, 0, 0, 0x21, 9] :: byte list"
  let ?calls = "[(3, 1, LZMA_RUN), (4, 2, LZMA_RUN), (9, 4, LZMA_FINISH), (9, 9, LZMA_FINISH)]"
  let ?run = "coder_calls simple_code (the (nc_coder (snd ?init))) ?inb ?calls"
  have "fst (lzma_simple_powerpc_encoder_init True ?fresh next_filter_none (Some 8) LZMA_NEXT_CODER_INIT) = LZMA_OK"
    and "fst ?init = LZMA_OK" by code_simp+
  moreover have "fst ?run = LZMA_STREAM_END \<and> fst (snd (snd ?run)) = [] \<and> snd (snd (snd ?run)) = ?inb" by code_simp
  ultimately show ?thesis
    using simple_decoder_undoes_encoder [of lzma_simple_powerpc_encoder_init lzma_simple_powerpc_decoder_init True ?fresh "Some 8" ?enc
        True ?fresh' "snd ?init" ?inb ?calls LZMA_STREAM_END "fst (snd ?run)" "[]" ?inb]
    by (simp add: prod_eq_iff)
qed

end
