(* ===== verification/Lzma_Code.thy ===== *)
theory Lzma_Code
  imports Delta
begin

text \<open>
  The application interface of liblzma: \<open>lzma_strm_init\<close>, \<open>lzma_code\<close>, \<open>lzma_end\<close> and the
  functions that read the state of a stream, of src/liblzma/src/liblzma/common/common.c,
  with \<open>lzma_stream\<close> of api/lzma/base.h and \<open>lzma_internal\<close> of common.h.

  \<open>lzma_code\<close> is a state machine in front of the coder. The theorems show what it
  guarantees to the coder whatever the application does, that an application that only
  calls it again is never told to go on for ever, and that the counters of the stream tell
  what happened.
\<close>

subsection \<open>api/lzma/base.h, common.h\<close>

datatype lzma_sequence =
    ISEQ_RUN
  | ISEQ_SYNC_FLUSH
  | ISEQ_FULL_FLUSH
  | ISEQ_FINISH
  | ISEQ_FULL_BARRIER
  | ISEQ_END
  | ISEQ_ERROR

record 's lzma_internal =
  in_next :: "'s lzma_next_coder"
  in_sequence :: lzma_sequence
  in_avail_in :: nat
  in_supported_actions :: "lzma_action \<Rightarrow> bool"
  in_allow_buf_error :: bool

text \<open>\<open>next_in\<close> is the memory from the pointer on, and \<open>next_out\<close> a buffer with the position
  of the pointer in it. The ten reserved members must be zero and are a list.\<close>

record 's lzma_stream =
  st_next_in :: "byte list option"
  st_avail_in :: nat
  st_total_in :: u64
  st_next_out :: "(byte list \<times> nat) option"
  st_avail_out :: nat
  st_total_out :: u64
  st_internal :: "'s lzma_internal option"
  st_reserved :: "nat list"

definition lzma_action_of :: "nat \<Rightarrow> lzma_action option" where
  "lzma_action_of n =
     (if n = 0 then Some LZMA_RUN else if n = 1 then Some LZMA_SYNC_FLUSH else if n = 2 then Some LZMA_FULL_FLUSH
      else if n = 3 then Some LZMA_FINISH else if n = 4 then Some LZMA_FULL_BARRIER else None)"

definition LZMA_MEMUSAGE_BASE :: u64 where
  "LZMA_MEMUSAGE_BASE = push_bit 15 1"

subsection \<open>common.c\<close>

definition lzma_strm_init :: "bool \<Rightarrow> 's lzma_internal \<Rightarrow> 's lzma_stream option \<Rightarrow> lzma_ret \<times> 's lzma_stream option" where
  "lzma_strm_init alloc_ok fresh strm =
     (case strm of None \<Rightarrow> (LZMA_PROG_ERROR, None)
      | Some strm \<Rightarrow>
          if st_internal strm = None \<and> \<not> alloc_ok then (LZMA_MEM_ERROR, Some strm)
          else let internal = (case st_internal strm of None \<Rightarrow> fresh\<lparr>in_next := LZMA_NEXT_CODER_INIT\<rparr> | Some internal \<Rightarrow> internal);
                   internal = internal\<lparr>in_supported_actions := (\<lambda>_. False), in_sequence := ISEQ_RUN, in_allow_buf_error := False\<rparr>
               in (LZMA_OK, Some (strm\<lparr>st_internal := Some internal, st_total_in := 0, st_total_out := 0\<rparr>)))"

text \<open>What \<open>lzma_code\<close> does before it calls the coder: it returns a code, or gives the action
  and the new value of \<open>sequence\<close>.\<close>

definition lzma_code_sequence :: "'s lzma_stream \<Rightarrow> 's lzma_internal \<Rightarrow> lzma_action \<Rightarrow> lzma_ret + lzma_sequence" where
  "lzma_code_sequence strm internal action =
     (let same = (\<lambda>a. if action \<noteq> a \<or> in_avail_in internal \<noteq> st_avail_in strm then Inl LZMA_PROG_ERROR
                      else Inr (in_sequence internal))
      in case in_sequence internal of
           ISEQ_RUN \<Rightarrow> Inr (case action of
               LZMA_RUN \<Rightarrow> ISEQ_RUN
             | LZMA_SYNC_FLUSH \<Rightarrow> ISEQ_SYNC_FLUSH
             | LZMA_FULL_FLUSH \<Rightarrow> ISEQ_FULL_FLUSH
             | LZMA_FINISH \<Rightarrow> ISEQ_FINISH
             | LZMA_FULL_BARRIER \<Rightarrow> ISEQ_FULL_BARRIER)
         | ISEQ_SYNC_FLUSH \<Rightarrow> same LZMA_SYNC_FLUSH
         | ISEQ_FULL_FLUSH \<Rightarrow> same LZMA_FULL_FLUSH
         | ISEQ_FINISH \<Rightarrow> same LZMA_FINISH
         | ISEQ_FULL_BARRIER \<Rightarrow> same LZMA_FULL_BARRIER
         | ISEQ_END \<Rightarrow> Inl LZMA_STREAM_END
         | ISEQ_ERROR \<Rightarrow> Inl LZMA_PROG_ERROR)"

definition lzma_code_check ::
  "'s lzma_stream \<Rightarrow> nat \<Rightarrow> lzma_ret + 's lzma_internal \<times> 's lzma_code_function \<times> lzma_action \<times> lzma_sequence" where
  "lzma_code_check strm n =
     (if st_next_in strm = None \<and> st_avail_in strm \<noteq> 0 \<or> st_next_out strm = None \<and> st_avail_out strm \<noteq> 0
      then Inl LZMA_PROG_ERROR
      else case st_internal strm of None \<Rightarrow> Inl LZMA_PROG_ERROR
      | Some internal \<Rightarrow> (case nc_code (in_next internal) of None \<Rightarrow> Inl LZMA_PROG_ERROR
      | Some code \<Rightarrow> (case lzma_action_of n of None \<Rightarrow> Inl LZMA_PROG_ERROR
      | Some action \<Rightarrow>
          if \<not> in_supported_actions internal action then Inl LZMA_PROG_ERROR
          else if \<exists>x \<in> set (st_reserved strm). x \<noteq> 0 then Inl LZMA_OPTIONS_ERROR
          else case lzma_code_sequence strm internal action of Inl ret \<Rightarrow> Inl ret
               | Inr sequence \<Rightarrow> Inr (internal, code, action, sequence))))"

text \<open>What it makes of the code the coder returned.\<close>

definition lzma_code_result :: "lzma_ret \<Rightarrow> nat \<Rightarrow> nat \<Rightarrow> 's lzma_internal \<Rightarrow> lzma_ret \<times> 's lzma_internal" where
  "lzma_code_result ret in_pos out_pos internal =
     (case ret of
        LZMA_OK \<Rightarrow>
          if out_pos = 0 \<and> in_pos = 0
          then if in_allow_buf_error internal then (LZMA_BUF_ERROR, internal)
               else (LZMA_OK, internal\<lparr>in_allow_buf_error := True\<rparr>)
          else (LZMA_OK, internal\<lparr>in_allow_buf_error := False\<rparr>)
      | LZMA_TIMED_OUT \<Rightarrow> (LZMA_OK, internal\<lparr>in_allow_buf_error := False\<rparr>)
      | LZMA_STREAM_END \<Rightarrow>
          (LZMA_STREAM_END, internal\<lparr>
             in_sequence := (if in_sequence internal \<in> {ISEQ_SYNC_FLUSH, ISEQ_FULL_FLUSH, ISEQ_FULL_BARRIER}
                             then ISEQ_RUN else ISEQ_END),
             in_allow_buf_error := False\<rparr>)
      | LZMA_NO_CHECK \<Rightarrow> (ret, internal\<lparr>in_allow_buf_error := False\<rparr>)
      | LZMA_UNSUPPORTED_CHECK \<Rightarrow> (ret, internal\<lparr>in_allow_buf_error := False\<rparr>)
      | LZMA_GET_CHECK \<Rightarrow> (ret, internal\<lparr>in_allow_buf_error := False\<rparr>)
      | LZMA_MEMLIMIT_ERROR \<Rightarrow> (ret, internal\<lparr>in_allow_buf_error := False\<rparr>)
      | _ \<Rightarrow> (ret, internal\<lparr>in_sequence := ISEQ_ERROR\<rparr>))"

definition lzma_code :: "'s lzma_stream \<Rightarrow> nat \<Rightarrow> lzma_ret \<times> 's lzma_stream" where
  "lzma_code strm n =
     (case lzma_code_check strm n of
        Inl ret \<Rightarrow>
          (ret, strm)
      | Inr (internal, code, action, sequence) \<Rightarrow>
          let internal = internal\<lparr>in_sequence := sequence\<rparr>;
              inb = (case st_next_in strm of None \<Rightarrow> [] | Some inb \<Rightarrow> inb);
              (out, at) = (case st_next_out strm of None \<Rightarrow> ([], 0) | Some out \<Rightarrow> out);
              (ret, n, in_pos, out', out_pos) =
                call_next code (in_next internal) inb 0 (st_avail_in strm) (drop at out) 0 (st_avail_out strm) action;
              strm = strm\<lparr>st_next_in := map_option (drop in_pos) (st_next_in strm),
                          st_avail_in := st_avail_in strm - in_pos,
                          st_total_in := st_total_in strm + word_of_nat in_pos,
                          st_next_out := map_option (\<lambda>_. (take at out @ out', at + out_pos)) (st_next_out strm),
                          st_avail_out := st_avail_out strm - out_pos,
                          st_total_out := st_total_out strm + word_of_nat out_pos\<rparr>;
              internal = internal\<lparr>in_next := n, in_avail_in := st_avail_in strm\<rparr>;
              (ret, internal) = lzma_code_result ret in_pos out_pos internal
          in (ret, strm\<lparr>st_internal := Some internal\<rparr>))"

definition lzma_end :: "'s lzma_stream option \<Rightarrow> 's lzma_stream option" where
  "lzma_end strm = map_option (\<lambda>strm. strm\<lparr>st_internal := None\<rparr>) strm"

definition lzma_get_progress :: "'s lzma_stream \<Rightarrow> u64 \<times> u64" where
  "lzma_get_progress strm =
     (let next = in_next (the (st_internal strm))
      in case nc_get_progress next of
           Some get_progress \<Rightarrow> get_progress (the (nc_coder next))
         | None \<Rightarrow> (st_total_in strm, st_total_out strm))"

definition lzma_get_check :: "'s lzma_stream \<Rightarrow> u32" where
  "lzma_get_check strm =
     (let next = in_next (the (st_internal strm))
      in case nc_get_check next of None \<Rightarrow> 0 | Some get_check \<Rightarrow> get_check (the (nc_coder next)))"

text \<open>\<open>memconfig\<close> returns a code, the state of the coder and the two values it stores. With a new
  limit of zero it only reads.\<close>

definition lzma_stream_memconfig ::
  "'s lzma_stream option \<Rightarrow> ('s lzma_stream \<times> 's lzma_internal \<times> ('s \<Rightarrow> u64 \<Rightarrow> lzma_ret \<times> 's \<times> u64 \<times> u64)) option" where
  "lzma_stream_memconfig strm =
     (case strm of None \<Rightarrow> None
      | Some strm \<Rightarrow> (case st_internal strm of None \<Rightarrow> None
      | Some internal \<Rightarrow> map_option (\<lambda>memconfig. (strm, internal, memconfig)) (nc_memconfig (in_next internal))))"

definition lzma_memusage :: "'s lzma_stream option \<Rightarrow> u64" where
  "lzma_memusage strm =
     (case lzma_stream_memconfig strm of None \<Rightarrow> 0
      | Some (_, internal, memconfig) \<Rightarrow>
          (let (ret, _, memusage, _) = memconfig (the (nc_coder (in_next internal))) 0
           in if ret \<noteq> LZMA_OK then 0 else memusage))"

definition lzma_memlimit_get :: "'s lzma_stream option \<Rightarrow> u64" where
  "lzma_memlimit_get strm =
     (case lzma_stream_memconfig strm of None \<Rightarrow> 0
      | Some (_, internal, memconfig) \<Rightarrow>
          (let (ret, _, _, old_memlimit) = memconfig (the (nc_coder (in_next internal))) 0
           in if ret \<noteq> LZMA_OK then 0 else old_memlimit))"

definition lzma_memlimit_set :: "'s lzma_stream option \<Rightarrow> u64 \<Rightarrow> lzma_ret \<times> 's lzma_stream option" where
  "lzma_memlimit_set strm new_memlimit =
     (case lzma_stream_memconfig strm of None \<Rightarrow> (LZMA_PROG_ERROR, strm)
      | Some (s, internal, memconfig) \<Rightarrow>
          if new_memlimit \<noteq> 0 \<and> new_memlimit < LZMA_MEMUSAGE_BASE then (LZMA_MEMLIMIT_ERROR, strm)
          else let (ret, c, _) = memconfig (the (nc_coder (in_next internal))) new_memlimit
               in (ret, Some (s\<lparr>st_internal := Some (internal\<lparr>in_next := (in_next internal)\<lparr>nc_coder := Some c\<rparr>\<rparr>)\<rparr>)))"

subsection \<open>What the coder sees\<close>

text \<open>A coder that also records every call: the action, the input it was offered, the code it
  returned and the input it consumed.\<close>

type_synonym invocation = "lzma_action \<times> nat \<times> lzma_ret \<times> nat"

definition recorded :: "'s lzma_code_function \<Rightarrow> ('s \<times> invocation list) lzma_code_function" where
  "recorded code s inb in_pos in_size out out_pos out_size action =
     (let (ret, t, in_pos', out', out_pos') = code (fst s) inb in_pos in_size out out_pos out_size action
      in (ret, (t, snd s @ [(action, in_size - in_pos, ret, in_pos' - in_pos)]), in_pos', out', out_pos'))"

definition fatal :: "lzma_ret \<Rightarrow> bool" where
  "fatal ret \<longleftrightarrow> ret \<notin> {LZMA_OK, LZMA_TIMED_OUT, LZMA_STREAM_END, LZMA_NO_CHECK, LZMA_UNSUPPORTED_CHECK,
     LZMA_GET_CHECK, LZMA_MEMLIMIT_ERROR}"

text \<open>What the coder may rely on between two calls: it is not called again after a fatal error
  or after the end of the stream; and once an action other than \<open>LZMA_RUN\<close> has been given, the
  action stays and no input is added until the coder has returned \<open>LZMA_STREAM_END\<close>.\<close>

fun may_follow :: "invocation \<Rightarrow> invocation \<Rightarrow> bool" where
  "may_follow (action, avail, ret, used) (action', avail', ret', used') \<longleftrightarrow>
     \<not> fatal ret
     \<and> (ret = LZMA_STREAM_END \<longrightarrow> action \<in> {LZMA_SYNC_FLUSH, LZMA_FULL_FLUSH, LZMA_FULL_BARRIER})
     \<and> (action \<noteq> LZMA_RUN \<and> ret \<noteq> LZMA_STREAM_END \<longrightarrow> action' = action \<and> avail' = avail - used)"

text \<open>What an application can do: change its part of \<open>lzma_stream\<close>, and call \<open>lzma_code\<close>.\<close>

inductive app_runs :: "'s lzma_stream \<Rightarrow> 's lzma_stream \<Rightarrow> bool" for init where
  start: "app_runs init init"
| app: "app_runs init strm \<Longrightarrow> app_runs init (strm\<lparr>st_next_in := next_in, st_avail_in := avail_in,
    st_next_out := next_out, st_avail_out := avail_out, st_reserved := reserved\<rparr>)"
| code: "app_runs init strm \<Longrightarrow> lzma_code strm n = (ret, strm') \<Longrightarrow> app_runs init strm'"

inductive_cases lzma_app_runsE: "app_runs init strm"

fun sequence_of :: "lzma_action \<Rightarrow> lzma_sequence" where
  "sequence_of LZMA_RUN = ISEQ_RUN"
| "sequence_of LZMA_SYNC_FLUSH = ISEQ_SYNC_FLUSH"
| "sequence_of LZMA_FULL_FLUSH = ISEQ_FULL_FLUSH"
| "sequence_of LZMA_FINISH = ISEQ_FINISH"
| "sequence_of LZMA_FULL_BARRIER = ISEQ_FULL_BARRIER"

text \<open>The state of the machine is determined by the last call of the coder.\<close>

fun sequence_after :: "invocation \<Rightarrow> lzma_sequence" where
  "sequence_after (action, avail, ret, used) =
     (if fatal ret then ISEQ_ERROR
      else if ret = LZMA_STREAM_END
      then if action \<in> {LZMA_SYNC_FLUSH, LZMA_FULL_FLUSH, LZMA_FULL_BARRIER} then ISEQ_RUN else ISEQ_END
      else sequence_of action)"

definition log_ok :: "'s lzma_code_function \<Rightarrow> (lzma_action \<Rightarrow> bool) \<Rightarrow> ('s \<times> invocation list) lzma_stream \<Rightarrow> bool" where
  "log_ok code supported strm \<longleftrightarrow>
     (\<exists>internal s log. st_internal strm = Some internal \<and> nc_code (in_next internal) = Some (recorded code)
        \<and> nc_coder (in_next internal) = Some (s, log) \<and> in_supported_actions internal = supported
        \<and> successively may_follow log \<and> (\<forall>(action, _) \<in> set log. supported action)
        \<and> (if log = [] then in_sequence internal = ISEQ_RUN
           else in_sequence internal = sequence_after (last log)
             \<and> (case last log of (action, avail, ret, used) \<Rightarrow> in_avail_in internal = avail - used)))"

lemma lzma_code_sequence_RUN:
  assumes "lzma_code_sequence strm internal action = Inr sequence"
  shows "sequence = sequence_of action"
    and "in_sequence internal = ISEQ_RUN \<or> in_sequence internal = sequence_of action \<and> in_avail_in internal = st_avail_in strm"
  using assms
  by (cases "in_sequence internal"; cases action; simp add: lzma_code_sequence_def Let_def split: if_splits)+

lemma lzma_code_result_sequence:
  assumes "lzma_code_result r in_pos out_pos internal = (ret, internal')" and "in_sequence internal = sequence_of action"
  shows "in_next internal' = in_next internal" "in_avail_in internal' = in_avail_in internal"
    "in_supported_actions internal' = in_supported_actions internal"
    "in_sequence internal' = sequence_after (action, avail, r, used)"
  using assms by (cases r; cases action; auto simp: lzma_code_result_def fatal_def split: if_splits)+

lemma may_follow_sequence:
  assumes "sequence_after (a, n, r, k) = ISEQ_RUN \<or> sequence_after (a, n, r, k) = sequence_of a' \<and> n - k = n'"
  shows "may_follow (a, n, r, k) (a', n', r', k')"
  using assms by (cases a; cases a'; auto split: if_splits)

lemma log_ok_code:
  assumes "log_ok code supported strm" and "lzma_code strm n = (ret, strm')"
  shows "log_ok code supported strm'"
proof (cases "lzma_code_check strm n")
  case (Inl r)
  with assms show ?thesis by (simp add: lzma_code_def)
next
  case (Inr checked)
  obtain internal s log where i: "st_internal strm = Some internal" "nc_code (in_next internal) = Some (recorded code)"
    "nc_coder (in_next internal) = Some (s, log)" "in_supported_actions internal = supported"
    "successively may_follow log" "\<forall>(action, _) \<in> set log. supported action"
    "if log = [] then in_sequence internal = ISEQ_RUN
     else in_sequence internal = sequence_after (last log)
       \<and> (case last log of (action, avail, ret, used) \<Rightarrow> in_avail_in internal = avail - used)"
    using assms(1) unfolding log_ok_def by blast
  obtain action sequence where chk: "checked = (internal, recorded code, action, sequence)" "supported action"
    "lzma_code_sequence strm internal action = Inr sequence"
    using Inr i by (auto simp: lzma_code_check_def split: if_splits option.splits sum.splits)
  note sq = lzma_code_sequence_RUN [OF chk(3)]
  define inb where "inb = (case st_next_in strm of None \<Rightarrow> [] | Some inb \<Rightarrow> inb)"
  obtain out at where o: "(case st_next_out strm of None \<Rightarrow> ([], 0) | Some out \<Rightarrow> out) = (out, at)" by fastforce
  obtain r t ip out' op where c: "code s inb 0 (st_avail_in strm) (drop at out) 0 (st_avail_out strm) action = (r, t, ip, out', op)"
    by (metis prod_cases5)
  define entry where "entry = (action, st_avail_in strm, r, ip)"
  define int1 where "int1 = internal\<lparr>in_sequence := sequence, in_next := (in_next internal)\<lparr>nc_coder := Some (t, log @ [entry])\<rparr>,
    in_avail_in := st_avail_in strm - ip\<rparr>"
  obtain ret2 int2 where res: "lzma_code_result r ip op int1 = (ret2, int2)" by fastforce
  have strm': "st_internal strm' = Some int2"
    using assms(2) Inr chk(1) i(3) o c res
    by (auto simp: lzma_code_def inb_def [symmetric] call_next_def recorded_def Let_def int1_def entry_def)
  note r = lzma_code_result_sequence [OF res, of action]
  have "in_sequence int1 = sequence_of action" using sq(1) by (simp add: int1_def)
  note r = r [OF this]
  have "successively may_follow (log @ [entry])"
  proof (cases log rule: rev_exhaust)
    case (snoc log' prev)
    obtain a m q k where prev: "prev = (a, m, q, k)" by (metis prod_cases4)
    then have "sequence_after (a, m, q, k) = ISEQ_RUN \<or> sequence_after (a, m, q, k) = sequence_of action \<and> m - k = st_avail_in strm"
      using i(7) sq(2) snoc by auto
    from may_follow_sequence [OF this] show ?thesis
      using i(5) by (simp add: snoc prev entry_def successively_append_iff)
  qed simp
  then show ?thesis
    unfolding log_ok_def using strm' i r(1,2,3) r(4) [of "st_avail_in strm" ip] chk(2)
    by (intro exI [of _ int2] exI [of _ t] exI [of _ "log @ [entry]"]) (simp add: int1_def entry_def)
qed

text \<open>C20. Whatever an application does with a stream whose coder has just been installed, the
  calls that reach the coder follow the protocol: no call after a fatal error or after the
  end, and after an action other than \<open>LZMA_RUN\<close> the same action with exactly the remaining
  input until the coder reports the end of it. Only actions that the coder supports reach
  it.\<close>

theorem lzma_code_protocol:
  assumes "st_internal init = Some internal" and "in_sequence internal = ISEQ_RUN"
    and "nc_code (in_next internal) = Some (recorded code)" and "nc_coder (in_next internal) = Some (s, [])"
    and "app_runs init strm"
  shows "\<exists>internal' s' log. st_internal strm = Some internal' \<and> nc_coder (in_next internal') = Some (s', log)
    \<and> successively may_follow log \<and> (\<forall>(action, _) \<in> set log. in_supported_actions internal action)"
proof -
  have "log_ok code (in_supported_actions internal) strm"
    using assms(5)
  proof induction
    case start
    then show ?case using assms(1-4) by (auto simp: log_ok_def)
  next
    case (app strm)
    then show ?case by (simp add: log_ok_def)
  next
    case (code strm n ret strm')
    then show ?case by (blast intro: log_ok_code)
  qed
  then show ?thesis unfolding log_ok_def by blast
qed

theorem lzma_code_protocol_witness:
  "\<exists>internal' s' log. st_internal (snd (lzma_code (snd (lzma_code
      \<lparr>st_next_in = Some [1, 2, 3], st_avail_in = 3, st_total_in = 0, st_next_out = Some ([0, 0], 0), st_avail_out = 2,
       st_total_out = 0, st_internal = Some \<lparr>in_next = LZMA_NEXT_CODER_INIT\<lparr>nc_code := Some (recorded delta_encode),
         nc_coder := Some (\<lparr>dl_next = LZMA_NEXT_CODER_INIT, dl_distance = 1, dl_pos = 0, dl_history = replicate 256 0\<rparr>
           :: unit delta_coder, [])\<rparr>,
         in_sequence = ISEQ_RUN, in_avail_in = 0, in_supported_actions = (\<lambda>_. True), in_allow_buf_error = False\<rparr>,
       st_reserved = []\<rparr> 3)) 3)) = Some internal' \<and> nc_coder (in_next internal') = Some (s', log)
    \<and> successively may_follow log \<and> (\<forall>(action, _) \<in> set log. True)"
proof -
  let ?i = "\<lparr>in_next = LZMA_NEXT_CODER_INIT\<lparr>nc_code := Some (recorded delta_encode),
       nc_coder := Some (\<lparr>dl_next = LZMA_NEXT_CODER_INIT, dl_distance = 1, dl_pos = 0, dl_history = replicate 256 0\<rparr>
         :: unit delta_coder, [])\<rparr>,
     in_sequence = ISEQ_RUN, in_avail_in = 0, in_supported_actions = (\<lambda>_. True), in_allow_buf_error = False\<rparr>"
  let ?s = "\<lparr>st_next_in = Some [1, 2, 3], st_avail_in = 3, st_total_in = 0, st_next_out = Some ([0, 0], 0), st_avail_out = 2,
     st_total_out = 0, st_internal = Some ?i, st_reserved = []\<rparr>"
  have "app_runs ?s (snd (lzma_code (snd (lzma_code ?s 3)) 3))"
    by (rule app_runs.code [OF app_runs.code [OF app_runs.start]]) (rule prod.collapse [symmetric])+
  from lzma_code_protocol [OF _ _ _ _ this, of ?i delta_encode] show ?thesis by simp
qed

subsection \<open>What the application sees\<close>

text \<open>The buffers hold what the stream says.\<close>

definition stream_buffers :: "'s lzma_stream \<Rightarrow> bool" where
  "stream_buffers strm \<longleftrightarrow>
     (case st_next_in strm of None \<Rightarrow> st_avail_in strm = 0 | Some inb \<Rightarrow> st_avail_in strm \<le> length inb)
     \<and> (case st_next_out strm of None \<Rightarrow> st_avail_out strm = 0 | Some (out, at) \<Rightarrow> at + st_avail_out strm \<le> length out)"

text \<open>What one call may do to them.\<close>

definition stream_moved :: "'s lzma_stream \<Rightarrow> 's lzma_stream \<Rightarrow> nat \<Rightarrow> nat \<Rightarrow> bool" where
  "stream_moved strm strm' used made \<longleftrightarrow>
     used \<le> st_avail_in strm \<and> st_avail_in strm' = st_avail_in strm - used
     \<and> st_total_in strm' = st_total_in strm + word_of_nat used
     \<and> st_next_in strm' = map_option (drop used) (st_next_in strm)
     \<and> made \<le> st_avail_out strm \<and> st_avail_out strm' = st_avail_out strm - made
     \<and> st_total_out strm' = st_total_out strm + word_of_nat made
     \<and> (case st_next_out strm of None \<Rightarrow> st_next_out strm' = None
        | Some (out, at) \<Rightarrow> \<exists>out'. st_next_out strm' = Some (out', at + made) \<and> length out' = length out
            \<and> take at out' = take at out \<and> drop (at + st_avail_out strm) out' = drop (at + st_avail_out strm) out)"

definition stream_R :: "'s lzma_code_function \<Rightarrow> (byte list \<Rightarrow> byte list \<Rightarrow> 's \<Rightarrow> bool) \<Rightarrow> 's lzma_stream \<Rightarrow> bool" where
  "stream_R code R strm \<longleftrightarrow> stream_buffers strm \<and>
     (\<exists>internal s c d. st_internal strm = Some internal \<and> nc_code (in_next internal) = Some code
       \<and> nc_coder (in_next internal) = Some s \<and> R c d s)"

definition stream_measure :: "'s lzma_stream \<Rightarrow> nat" where
  "stream_measure strm = 2 * (st_avail_in strm + st_avail_out strm)
     + (if in_allow_buf_error (the (st_internal strm)) then 0 else 1)"

lemma lzma_code_result_keeps:
  "lzma_code_result r ip op internal = (ret, internal') \<Longrightarrow> in_next internal' = in_next internal"
  "lzma_code_result r ip op internal = (LZMA_OK, internal') \<Longrightarrow> r \<noteq> LZMA_TIMED_OUT \<Longrightarrow>
    r = LZMA_OK \<and> (if ip = 0 \<and> op = 0 then \<not> in_allow_buf_error internal \<and> in_allow_buf_error internal'
      else \<not> in_allow_buf_error internal')"
  by (cases r; auto simp: lzma_code_result_def split: if_splits)+

text \<open>What the coder answers to a call, when the call reaches it.\<close>

definition coder_answer :: "'s lzma_stream \<Rightarrow> nat \<Rightarrow> lzma_ret option" where
  "coder_answer strm n =
     (case lzma_code_check strm n of
        Inl _ \<Rightarrow> None
      | Inr (internal, code, action, sequence) \<Rightarrow>
          let inb = (case st_next_in strm of None \<Rightarrow> [] | Some inb \<Rightarrow> inb);
              (out, at) = (case st_next_out strm of None \<Rightarrow> ([], 0) | Some out \<Rightarrow> out)
          in Some (fst (call_next code (in_next internal) inb 0 (st_avail_in strm) (drop at out) 0 (st_avail_out strm) action)))"

text \<open>A coder whose relation also survives a call that times out.\<close>

definition keeps_timed_out :: "'s lzma_code_function \<Rightarrow> (byte list \<Rightarrow> byte list \<Rightarrow> 's \<Rightarrow> bool) \<Rightarrow> bool" where
  "keeps_timed_out code R \<longleftrightarrow> (\<forall>s c d inb k out m action t ip out' op. io_ok inb 0 k out 0 m \<longrightarrow> R c d s
     \<longrightarrow> code s inb 0 k out 0 m action = (LZMA_TIMED_OUT, t, ip, out', op) \<longrightarrow> (\<exists>c' d'. R c' d' t))"

context stream_coder
begin

lemma lzma_code_call:
  assumes "stream_R code R strm" and "lzma_code_check strm n = Inr checked" and "lzma_code strm n = (ret, strm')"
  obtains internal int1 int2 r ip op where "st_internal strm = Some internal" and "stream_moved strm strm' ip op"
    and "stream_buffers strm'" and "lzma_code_result r ip op int1 = (ret, int2)" and "st_internal strm' = Some int2"
    and "in_allow_buf_error int1 = in_allow_buf_error internal" and "nc_code (in_next int2) = Some code"
    and "r = LZMA_OK \<longrightarrow> (\<exists>t c d. nc_coder (in_next int2) = Some t \<and> R c d t)"
    and "coder_answer strm n = Some r"
    and "\<exists>s c d inb k out m action t out'. io_ok inb 0 k out 0 m \<and> R c d s \<and> code s inb 0 k out 0 m action = (r, t, ip, out', op)
      \<and> nc_coder (in_next int2) = Some t"
proof -
  obtain internal s c d where i: "st_internal strm = Some internal" "nc_code (in_next internal) = Some code"
    "nc_coder (in_next internal) = Some s" "R c d s" and buf: "stream_buffers strm"
    using assms(1) unfolding stream_R_def by blast
  obtain action sequence where chk: "checked = (internal, code, action, sequence)"
    using assms(2) i by (auto simp: lzma_code_check_def split: if_splits option.splits sum.splits)
  define inb where "inb = (case st_next_in strm of None \<Rightarrow> [] | Some inb \<Rightarrow> inb)"
  obtain out at where o: "(case st_next_out strm of None \<Rightarrow> ([], 0) | Some out \<Rightarrow> out) = (out, at)" by fastforce
  have io: "io_ok inb 0 (st_avail_in strm) (drop at out) 0 (st_avail_out strm)"
    using buf o by (auto simp: io_ok_def stream_buffers_def inb_def split: option.splits)
  obtain r t ip out' op where cd: "code s inb 0 (st_avail_in strm) (drop at out) 0 (st_avail_out strm) action = (r, t, ip, out', op)"
    by (metis prod_cases5)
  have step: "io_step 0 (st_avail_in strm) (drop at out) 0 (st_avail_out strm) ip out' op"
    by (rule code_io [OF io i(4) cd])
  define int1 where "int1 = internal\<lparr>in_sequence := sequence, in_next := (in_next internal)\<lparr>nc_coder := Some t\<rparr>,
    in_avail_in := st_avail_in strm - ip\<rparr>"
  obtain ret2 int2 where res: "lzma_code_result r ip op int1 = (ret2, int2)" by fastforce
  have eq: "ret = ret2" "strm' = strm\<lparr>st_next_in := map_option (drop ip) (st_next_in strm),
      st_avail_in := st_avail_in strm - ip, st_total_in := st_total_in strm + word_of_nat ip,
      st_next_out := map_option (\<lambda>_. (take at out @ out', at + op)) (st_next_out strm),
      st_avail_out := st_avail_out strm - op, st_total_out := st_total_out strm + word_of_nat op,
      st_internal := Some int2\<rparr>"
    using assms(2,3) chk i(3) o cd res
    by (auto simp: lzma_code_def inb_def [symmetric] call_next_def Let_def int1_def)
  have out': "length (take at out @ out') = length out" "take at (take at out @ out') = take at out"
      "drop (at + st_avail_out strm) (take at out @ out') = drop (at + st_avail_out strm) out" "at + op \<le> length out"
    if "st_next_out strm = Some (out, at)"
    using step buf that by (auto simp: io_step_def stream_buffers_def add.commute)
  have moved: "stream_moved strm strm' ip op"
    using step o out' by (auto simp: stream_moved_def eq io_step_def split: option.splits)
  have "stream_buffers strm'"
    using step o out' buf by (auto simp: stream_buffers_def eq io_step_def split: option.splits)
  moreover have "\<exists>t c d. nc_coder (in_next int2) = Some t \<and> R c d t" if "r = LZMA_OK"
    using code_keeps [OF io i(4) cd [unfolded that]] lzma_code_result_keeps(1) [OF res] by (auto simp: int1_def)
  moreover have "nc_code (in_next int2) = Some code"
    using lzma_code_result_keeps(1) [OF res] i(2) by (simp add: int1_def)
  moreover have "coder_answer strm n = Some r"
    using assms(2) chk i(3) o cd by (simp add: coder_answer_def call_next_def flip: inb_def)
  moreover have "nc_coder (in_next int2) = Some t" using lzma_code_result_keeps(1) [OF res] by (simp add: int1_def)
  then have "\<exists>s c d inb k out m action t out'. io_ok inb 0 k out 0 m \<and> R c d s \<and> code s inb 0 k out 0 m action = (r, t, ip, out', op)
      \<and> nc_coder (in_next int2) = Some t"
    using io i(4) cd by blast
  ultimately show thesis
    by (intro that [OF i(1) moved _ res [folded eq(1)]]) (simp_all add: eq int1_def)
qed

lemma lzma_code_measure:
  assumes "stream_R code R strm" and "lzma_code strm n = (LZMA_OK, strm')" and "keeps_timed_out code R"
  shows "stream_R code R strm'
    \<and> (if coder_answer strm n = Some LZMA_TIMED_OUT then stream_measure strm' \<le> stream_measure strm + 1
       else stream_measure strm' < stream_measure strm)"
proof (cases "lzma_code_check strm n")
  case (Inl r)
  then have "r \<noteq> LZMA_OK"
    by (auto simp: lzma_code_check_def lzma_code_sequence_def Let_def split: if_splits option.splits sum.splits lzma_sequence.splits)
  with Inl assms(2) show ?thesis by (simp add: lzma_code_def)
next
  case (Inr checked)
  obtain internal int1 int2 r ip op where c: "st_internal strm = Some internal" "stream_moved strm strm' ip op"
      "stream_buffers strm'" "lzma_code_result r ip op int1 = (LZMA_OK, int2)" "st_internal strm' = Some int2"
      "in_allow_buf_error int1 = in_allow_buf_error internal" "nc_code (in_next int2) = Some code"
      "r = LZMA_OK \<longrightarrow> (\<exists>t c d. nc_coder (in_next int2) = Some t \<and> R c d t)" "coder_answer strm n = Some r"
      "\<exists>s c d inb k out m action t out'. io_ok inb 0 k out 0 m \<and> R c d s \<and> code s inb 0 k out 0 m action = (r, t, ip, out', op)
        \<and> nc_coder (in_next int2) = Some t"
    by (rule lzma_code_call [OF assms(1) Inr assms(2)])
  show ?thesis
  proof (cases "r = LZMA_TIMED_OUT")
    case True
    then obtain t c' d' where "nc_coder (in_next int2) = Some t" "R c' d' t"
      using c(10) assms(3) unfolding keeps_timed_out_def by metis
    then have "stream_R code R strm'" unfolding stream_R_def using c(3,5,7) by blast
    moreover have "stream_measure strm' \<le> stream_measure strm + 1" using c(2) by (auto simp: stream_measure_def stream_moved_def)
    ultimately show ?thesis using c(9) True by simp
  next
    case False
    note r = lzma_code_result_keeps(2) [OF c(4) this]
    have "stream_R code R strm'" unfolding stream_R_def using r c(3,5,7,8) by blast
    moreover have "stream_measure strm' < stream_measure strm"
      using r c(1,2,5,6) by (auto simp: stream_measure_def stream_moved_def split: if_splits)
    ultimately show ?thesis using c(9) False by simp
  qed
qed

end

text \<open>The loop of an application that gives its input and its room for output once and calls
  \<open>lzma_code\<close> until it returns something else than \<open>LZMA_OK\<close>, at most \<open>fuel\<close> times.\<close>

fun lzma_code_until :: "nat \<Rightarrow> 's lzma_stream \<Rightarrow> nat \<Rightarrow> lzma_ret \<times> 's lzma_stream" where
  "lzma_code_until 0 strm n = (LZMA_OK, strm)"
| "lzma_code_until (Suc fuel) strm n =
     (let (ret, strm') = lzma_code strm n in if ret = LZMA_OK then lzma_code_until fuel strm' n else (ret, strm'))"

text \<open>How many of these calls the coder gives up for lack of time.\<close>

fun timeouts :: "nat \<Rightarrow> 's lzma_stream \<Rightarrow> nat \<Rightarrow> nat" where
  "timeouts 0 strm n = 0"
| "timeouts (Suc fuel) strm n =
     (let (ret, strm') = lzma_code strm n
      in (if coder_answer strm n = Some LZMA_TIMED_OUT then 1 else 0) + (if ret = LZMA_OK then timeouts fuel strm' n else 0))"

text \<open>A concrete stream: a Delta encoder with distance one as the only coder.\<close>

definition delta_stream :: "unit delta_coder lzma_stream" where
  "delta_stream = \<lparr>st_next_in = Some [1, 2, 4], st_avail_in = 3, st_total_in = 0, st_next_out = Some ([0, 0], 0),
     st_avail_out = 2, st_total_out = 0,
     st_internal = Some \<lparr>in_next = LZMA_NEXT_CODER_INIT\<lparr>nc_code := Some delta_encode,
         nc_coder := Some \<lparr>dl_next = LZMA_NEXT_CODER_INIT, dl_distance = 1, dl_pos = 0, dl_history = replicate 256 0\<rparr>\<rparr>,
       in_sequence = ISEQ_RUN, in_avail_in = 0, in_supported_actions = (\<lambda>_. True), in_allow_buf_error = False\<rparr>,
     st_reserved = []\<rparr>"

lemma delta_stream_R: "stream_R delta_encode (delta_first_R 1) delta_stream"
proof -
  have "delta_first_R 1 [] [] (\<lparr>dl_next = LZMA_NEXT_CODER_INIT, dl_distance = 1, dl_pos = 0, dl_history = replicate 256 0\<rparr>
      :: unit delta_coder)"
    by (auto simp: delta_first_R_def delta_ok_def delta_past_def)
  then show ?thesis unfolding stream_R_def stream_buffers_def delta_stream_def by auto
qed

text \<open>C21. Every call of \<open>lzma_code\<close> with a coder that meets its contract keeps the stream and
  the buffers in step: it consumes at most the input available and writes at most the room
  available, advances pointers, remaining sizes and totals by the same amounts, and leaves
  every other byte of the output buffer alone.\<close>

theorem lzma_code_accounting:
  assumes "stream_coder code R fin" and "stream_R code R strm" and "lzma_code strm n = (ret, strm')"
  shows "\<exists>used made. stream_moved strm strm' used made \<and> stream_buffers strm'"
proof (cases "lzma_code_check strm n")
  case (Inl r)
  then have "strm' = strm" using assms(3) by (simp add: lzma_code_def)
  moreover have "stream_moved strm strm 0 0" by (auto simp: stream_moved_def option.map_ident split: option.split)
  ultimately show ?thesis using assms(2) by (auto simp: stream_R_def)
next
  case (Inr checked)
  show ?thesis by (rule stream_coder.lzma_code_call [OF assms(1), OF assms(2) Inr assms(3)]) blast
qed

theorem lzma_code_accounting_witness:
  "\<exists>used made. stream_moved delta_stream (snd (lzma_code delta_stream 3)) used made
    \<and> stream_buffers (snd (lzma_code delta_stream 3))"
  by (rule lzma_code_accounting [OF delta_first.stream_coder_axioms delta_stream_R prod.collapse [symmetric]])

text \<open>C22. An application that calls \<open>lzma_code\<close> again and again with the same action, without
  giving more input or room, to a coder with the contract \<open>stream_coder\<close>, is told something else than \<open>LZMA_OK\<close> after at most twice as
  many calls as there are bytes in the two buffers, plus two, plus two for each call in which the coder gave up for lack of
  time: \<open>LZMA_TIMED_OUT\<close> becomes \<open>LZMA_OK\<close>, and except for these calls a coder that makes no progress ends in
  \<open>LZMA_BUF_ERROR\<close>. The relation of the contract has to survive the calls that time out. A coder that never times out, as
  every coder but the threaded encoder, is the case without such calls.\<close>

theorem lzma_code_returns:
  assumes "stream_coder code R fin" and "keeps_timed_out code R" and "stream_R code R strm"
    and "fuel \<ge> 2 * (st_avail_in strm + st_avail_out strm) + 2 + 2 * timeouts fuel strm n"
  shows "fst (lzma_code_until fuel strm n) \<noteq> LZMA_OK"
proof -
  have "fst (lzma_code_until fuel strm n) \<noteq> LZMA_OK"
    if "stream_R code R strm" "fuel > stream_measure strm + 2 * timeouts fuel strm n" for fuel strm
    using that
  proof (induction fuel arbitrary: strm)
    case (Suc fuel)
    obtain ret strm' where call: "lzma_code strm n = (ret, strm')" by fastforce
    show ?case
    proof (cases "ret = LZMA_OK")
      case True
      with stream_coder.lzma_code_measure [OF assms(1), OF Suc.prems(1) _ assms(2), of n strm'] call
      have "stream_R code R strm'" "if coder_answer strm n = Some LZMA_TIMED_OUT then stream_measure strm' \<le> stream_measure strm + 1
        else stream_measure strm' < stream_measure strm" by auto
      then have "fst (lzma_code_until fuel strm' n) \<noteq> LZMA_OK"
        using Suc.prems(2) True call by (intro Suc.IH) (auto split: if_splits)
      then show ?thesis using True call by simp
    next
      case False
      with call show ?thesis by simp
    qed
  qed simp
  then show ?thesis using assms(3,4) by (simp add: stream_measure_def)
qed

text \<open>The Delta encoder, which never times out.\<close>

lemma delta_encode_in_time:
  assumes "delta_first_R 1 c d (s :: unit delta_coder)"
  shows "fst (delta_encode s inb 0 k out 0 m action) \<noteq> LZMA_TIMED_OUT"
proof -
  have "nc_code (dl_next s) = None" using assms by (simp add: delta_first_R_def)
  then show ?thesis by (auto simp: delta_encode_def Let_def split: prod.splits)
qed

lemma delta_keeps_timed_out: "keeps_timed_out delta_encode (delta_first_R 1 :: byte list \<Rightarrow> byte list \<Rightarrow> unit delta_coder \<Rightarrow> bool)"
  unfolding keeps_timed_out_def using delta_encode_in_time by (metis fst_conv)

lemma delta_no_timeouts: "stream_R delta_encode (delta_first_R 1) (strm :: unit delta_coder lzma_stream) \<Longrightarrow> timeouts fuel strm n = 0"
proof (induction fuel arbitrary: strm)
  case (Suc fuel)
  obtain ret strm' where call: "lzma_code strm n = (ret, strm')" by fastforce
  have in_time: "coder_answer strm n \<noteq> Some LZMA_TIMED_OUT"
  proof (cases "lzma_code_check strm n")
    case (Inr checked)
    show ?thesis
    proof (rule delta_first.lzma_code_call [OF Suc.prems Inr call], elim exE conjE)
      fix r c d inb out k m action t out' ip op and s :: "unit delta_coder"
      assume "coder_answer strm n = Some r" and "delta_first_R 1 c d s" and "delta_encode s inb 0 k out 0 m action = (r, t, ip, out', op)"
      then show ?thesis using delta_encode_in_time [of c d s inb k out m action] by simp
    qed
  qed (simp add: coder_answer_def)
  show ?case
  proof (cases "ret = LZMA_OK")
    case True
    have "stream_R delta_encode (delta_first_R 1) strm'"
      using delta_first.lzma_code_measure [OF Suc.prems _ delta_keeps_timed_out] call True by simp
    from Suc.IH [OF this] show ?thesis using call in_time by simp
  qed (use call in_time in simp)
qed simp

theorem lzma_code_returns_witness: "fst (lzma_code_until 12 delta_stream 3) \<noteq> LZMA_OK"
  by (rule lzma_code_returns [OF delta_first.stream_coder_axioms delta_keeps_timed_out delta_stream_R])
    (simp add: delta_no_timeouts [OF delta_stream_R], simp add: delta_stream_def)

end
