(* ===== verification/Fastpos.thy ===== *)
theory Fastpos
  imports Lzma_Prelude
begin

text \<open>
  Distance slots: src/liblzma/src/liblzma/lzma/fastpos.h with the table that
  fastpos\_tablegen.c generates, and the bit scan \<open>bsr32\<close> of tuklib\_integer.h in its portable
  form.

  The theorem of this theory shows that the default implementation with the table of 8192
  entries and the small one with the bit scan compute the same slot for every distance.
\<close>

subsection \<open>tuklib\_integer.h\<close>

definition bsr32 :: "u32 \<Rightarrow> u32" where
  "bsr32 n =
     (let (n, i) = (if n AND 0xFFFF0000 = 0 then (push_bit 16 n, 15) else (n, 31));
          (n, i) = (if n AND 0xFF000000 = 0 then (push_bit 8 n, i - 8) else (n, i));
          (n, i) = (if n AND 0xF0000000 = 0 then (push_bit 4 n, i - 4) else (n, i));
          (n, i) = (if n AND 0xC0000000 = 0 then (push_bit 2 n, i - 2) else (n, i))
      in if n AND 0x80000000 = 0 then i - 1 else i)"

subsection \<open>fastpos.h with \<open>HAVE_SMALL\<close>\<close>

definition get_dist_slot_2_small :: "u32 \<Rightarrow> u32" where
  "get_dist_slot_2_small dist =
     (let i = bsr32 dist in (i + i) + (drop_bit (unat (i - 1)) dist AND 1))"

definition get_dist_slot_small :: "u32 \<Rightarrow> u32" where
  "get_dist_slot_small dist = (if dist \<le> 4 then dist else get_dist_slot_2_small dist)"

subsection \<open>fastpos\_tablegen.c, fastpos.h without \<open>HAVE_SMALL\<close>\<close>

definition fastpos_slot :: "nat \<times> byte list \<Rightarrow> nat \<Rightarrow> nat \<times> byte list" where
  "fastpos_slot state slot_fast =
     (let (c, fastpos) = state; k = 2 ^ (slot_fast div 2 - 1)
      in (c + k, put_bytes fastpos c (replicate k (word_of_nat slot_fast))))"

definition lzma_fastpos :: "byte list" where
  "lzma_fastpos = snd (foldl fastpos_slot (2, (replicate (2 ^ 13) 0)[0 := 0, 1 := 1]) [2..<2 * 13])"

definition fastpos_shift :: "nat \<Rightarrow> nat \<Rightarrow> nat" where
  "fastpos_shift extra n = extra + n * (13 - 1)"

definition fastpos_limit :: "nat \<Rightarrow> nat \<Rightarrow> u32" where
  "fastpos_limit extra n = push_bit (13 + fastpos_shift extra n) 1"

definition fastpos_result :: "u32 \<Rightarrow> nat \<Rightarrow> nat \<Rightarrow> u32" where
  "fastpos_result dist extra n =
     ucast (lzma_fastpos ! unat (drop_bit (fastpos_shift extra n) dist)) + 2 * word_of_nat (fastpos_shift extra n)"

definition get_dist_slot :: "u32 \<Rightarrow> u32" where
  "get_dist_slot dist =
     (if dist < fastpos_limit 0 0 then ucast (lzma_fastpos ! unat dist)
      else if dist < fastpos_limit 0 1 then fastpos_result dist 0 1
      else fastpos_result dist 0 2)"

text \<open>\<open>FULL_DISTANCES_BITS\<close> is 7 in lzma\_common.h.\<close>

definition get_dist_slot_2 :: "u32 \<Rightarrow> u32" where
  "get_dist_slot_2 dist =
     (if dist < fastpos_limit (7 - 1) 0 then fastpos_result dist (7 - 1) 0
      else if dist < fastpos_limit (7 - 1) 1 then fastpos_result dist (7 - 1) 1
      else fastpos_result dist (7 - 1) 2)"

subsection \<open>What a slot is\<close>

text \<open>Slot \<open>s\<close> starts at \<open>slot_start s\<close>: two slots for every power of two.\<close>

definition slot_start :: "nat \<Rightarrow> nat" where
  "slot_start s = (if s < 2 then s else (2 + s mod 2) * 2 ^ (s div 2 - 1))"

definition in_slot :: "nat \<Rightarrow> nat \<Rightarrow> bool" where
  "in_slot s n \<longleftrightarrow> slot_start s \<le> n \<and> n < slot_start (Suc s)"

lemma slot_start_Suc: "2 \<le> s \<Longrightarrow> slot_start (Suc s) = slot_start s + 2 ^ (s div 2 - 1)"
proof -
  assume s: "2 \<le> s"
  obtain m where "s = 2 * m \<or> s = Suc (2 * m)" by (metis evenE oddE Suc_eq_plus1)
  then show ?thesis using s by (cases m) (auto simp: slot_start_def)
qed

lemma slot_start_mono: "s \<le> t \<Longrightarrow> slot_start s \<le> slot_start t"
proof (induction t rule: dec_induct)
  case (step t)
  have "slot_start t \<le> slot_start (Suc t)"
    using slot_start_Suc [of t] by (cases "2 \<le> t") (auto simp: slot_start_def)
  with step show ?case by simp
qed simp

lemma in_slot_unique: "in_slot s n \<Longrightarrow> in_slot t n \<Longrightarrow> s = t"
  using slot_start_mono [of "Suc s" t] slot_start_mono [of "Suc t" s]
  by (cases s t rule: linorder_cases) (auto simp: in_slot_def)

lemma in_slot_shift:
  assumes "in_slot s (n div 2 ^ k)" and "2 \<le> s"
  shows "in_slot (s + 2 * k) n"
proof -
  have st: "slot_start (t + 2 * k) = slot_start t * 2 ^ k" if "2 \<le> t" for t
  proof -
    have "(t + 2 * k) div 2 - 1 = (t div 2 - 1) + k" using that by simp
    moreover have "(t + 2 * k) mod 2 = t mod 2" by simp
    moreover have "slot_start (t + 2 * k) = (2 + (t + 2 * k) mod 2) * 2 ^ ((t + 2 * k) div 2 - 1)"
      using that unfolding slot_start_def by simp
    ultimately have "slot_start (t + 2 * k) = (2 + t mod 2) * 2 ^ (t div 2 - 1) * 2 ^ k"
      by (simp only: power_add mult.assoc)
    then show ?thesis using that unfolding slot_start_def by simp
  qed
  show ?thesis
    using assms st [of s] st [of "Suc s"]
    by (simp add: in_slot_def less_mult_imp_div_less div_less_iff_less_mult less_eq_div_iff_mult_less_eq)
qed

subsection \<open>The table\<close>

lemma fastpos_fill:
  assumes "s \<le> 26" "2 \<le> s" and "\<And>i. i < 2 \<Longrightarrow> tbl ! i = word_of_nat i" and "length tbl = 2 ^ 13"
  shows "\<exists>tbl'. foldl fastpos_slot (2, tbl) [2..<s] = (slot_start s, tbl') \<and> length tbl' = 2 ^ 13
    \<and> (\<forall>i < slot_start s. \<exists>t < s. in_slot t i \<and> tbl' ! i = word_of_nat t)"
  using assms(2,1)
proof (induction s rule: dec_induct)
  case base
  have "\<exists>t<2. in_slot t i \<and> tbl ! i = word_of_nat t" if "i < 2" for i
    using that assms(3) [OF that] by (intro exI [of _ i]) (auto simp: in_slot_def slot_start_def)
  moreover have "slot_start 2 = 2" by (simp add: slot_start_def)
  ultimately show ?case using assms(4) by simp
next
  case (step s)
  then obtain tbl1 where IH: "foldl fastpos_slot (2, tbl) [2..<s] = (slot_start s, tbl1)" "length tbl1 = 2 ^ 13"
    "\<And>i. i < slot_start s \<Longrightarrow> \<exists>t < s. in_slot t i \<and> tbl1 ! i = word_of_nat t" by auto
  let ?k = "2 ^ (s div 2 - 1) :: nat" and ?w = "word_of_nat s :: byte"
  define tbl2 where "tbl2 = put_bytes tbl1 (slot_start s) (replicate ?k ?w)"
  have Suc: "slot_start (Suc s) = slot_start s + ?k" by (rule slot_start_Suc [OF step.hyps(1)])
  have "slot_start (Suc s) \<le> slot_start 26" using step.prems by (intro slot_start_mono)
  then have fits: "slot_start s + ?k \<le> length tbl1" by (simp add: Suc IH(2)) (simp add: slot_start_def)
  have "\<exists>t < Suc s. in_slot t i \<and> tbl2 ! i = word_of_nat t" if "i < slot_start (Suc s)" for i
  proof (cases "i < slot_start s")
    case True
    then have "tbl2 ! i = tbl1 ! i" using fits by (simp add: tbl2_def)
    then show ?thesis using IH(3) [OF True] by (auto intro: less_SucI)
  next
    case False
    then have "in_slot s i" using that by (simp add: in_slot_def)
    moreover have "tbl2 ! (slot_start s + (i - slot_start s)) = ?w"
      unfolding tbl2_def using that False fits by (subst nth_put_bytes_in) (auto simp: Suc)
    ultimately show ?thesis using False by auto
  qed
  moreover have "length tbl2 = 2 ^ 13" using fits IH(2) by (simp add: tbl2_def)
  moreover have "foldl fastpos_slot (2, tbl) [2..<Suc s] = (slot_start (Suc s), tbl2)"
    using step.hyps(1) IH(1) by (simp add: fastpos_slot_def Let_def tbl2_def Suc)
  ultimately show ?case by blast
qed

lemma lzma_fastpos_nth:
  assumes "i < 2 ^ 13"
  shows "\<exists>t < 26. in_slot t i \<and> lzma_fastpos ! i = word_of_nat t"
proof -
  have st: "slot_start 26 = 2 ^ 13" by (simp add: slot_start_def)
  have i01: "(replicate (2 ^ 13) (0 :: byte))[0 := 0, 1 := 1] ! i = word_of_nat i" if "i < 2" for i
    using that by (cases i) auto
  show ?thesis
    using fastpos_fill [OF order_refl _ i01, simplified length_list_update length_replicate, OF _ _ refl] assms
    unfolding lzma_fastpos_def st by fastforce
qed

lemma fastpos_shift_numeral:
  "fastpos_shift 0 1 = 12" "fastpos_shift 0 2 = 24" "fastpos_shift 6 0 = 6" "fastpos_shift 6 1 = 18" "fastpos_shift 6 2 = 30"
  by (simp_all add: fastpos_shift_def)

subsection \<open>The slots of the table version\<close>

lemma unat_of_nat_less: "n < 2 ^ LENGTH('a) \<Longrightarrow> unat (word_of_nat n :: 'a::len word) = n"
  by (simp add: unsigned_of_nat take_bit_nat_eq_self)

lemma ucast_byte_of_nat: "t < 26 \<Longrightarrow> ucast (word_of_nat t :: byte) = (word_of_nat t :: u32)"
  by (simp add: word_unat_eq_iff unat_ucast_up unat_of_nat_less)

lemma fastpos_result_slot:
  assumes "unat dist div 2 ^ k < 2 ^ 13" and "2 \<le> unat dist div 2 ^ k" and "k = fastpos_shift extra n" and "k \<le> 30"
  shows "in_slot (unat (fastpos_result dist extra n)) (unat dist)"
proof -
  obtain t where t: "t < 26" "in_slot t (unat dist div 2 ^ k)" "lzma_fastpos ! (unat dist div 2 ^ k) = word_of_nat t"
    using lzma_fastpos_nth [OF assms(1)] by blast
  have "2 \<le> t"
  proof (rule ccontr)
    assume "\<not> 2 \<le> t"
    then have "slot_start (Suc t) \<le> slot_start 2" by (intro slot_start_mono) simp
    then show False using t(2) assms(2) by (simp add: in_slot_def slot_start_def)
  qed
  then have "in_slot (t + 2 * k) (unat dist)" by (rule in_slot_shift [OF t(2)])
  moreover have "fastpos_result dist extra n = word_of_nat (t + 2 * k)"
    by (simp add: fastpos_result_def unat_drop_bit_div t(3) ucast_byte_of_nat [of t] t(1) flip: assms(3))
  moreover have "unat (word_of_nat (t + 2 * k) :: u32) = t + 2 * k"
    by (rule unat_of_nat_less) (use t(1) assms(4) in simp)
  ultimately show ?thesis by simp
qed

lemma quotient_bounds:
  "(n :: nat) < m * q \<Longrightarrow> n div q < m"
  "0 < q \<Longrightarrow> m * q \<le> n \<Longrightarrow> m \<le> n div q"
  by (simp_all add: less_mult_imp_div_less less_eq_div_iff_mult_less_eq)

lemma get_dist_slot_in_slot: "in_slot (unat (get_dist_slot dist)) (unat dist)"
proof -
  have lim: "unat (fastpos_limit 0 0) = 2 ^ 13" "unat (fastpos_limit 0 (Suc 0)) = 2 ^ 25"
    by (simp_all add: fastpos_limit_def fastpos_shift_def)
  have d32: "unat dist < 2 ^ 32" using unsigned_less [of dist] by simp
  consider "unat dist < 2 ^ 13" | "2 ^ 13 \<le> unat dist" "unat dist < 2 ^ 25" | "2 ^ 25 \<le> unat dist" by linarith
  then show ?thesis
  proof cases
    case 1
    then obtain t where t: "t < 26" "in_slot t (unat dist)" "lzma_fastpos ! unat dist = word_of_nat t"
      using lzma_fastpos_nth by blast
    then have "get_dist_slot dist = word_of_nat t"
      using 1 by (simp add: get_dist_slot_def word_less_nat_alt lim ucast_byte_of_nat)
    with t show ?thesis by (simp add: unat_of_nat_less)
  next
    case 2
    then have "get_dist_slot dist = fastpos_result dist 0 1"
      by (simp add: get_dist_slot_def word_less_nat_alt lim)
    moreover have "unat dist div 2 ^ 12 < 2 ^ 13" "2 \<le> unat dist div 2 ^ 12"
      by (rule quotient_bounds; use 2 in simp)+
    ultimately show ?thesis by (simp only: fastpos_result_slot [of dist 12 0 1] fastpos_shift_numeral)
  next
    case 3
    then have "get_dist_slot dist = fastpos_result dist 0 2"
      by (simp add: get_dist_slot_def word_less_nat_alt lim)
    moreover have "unat dist div 2 ^ 24 < 2 ^ 13" "2 \<le> unat dist div 2 ^ 24"
      by (rule quotient_bounds; use 3 d32 in simp)+
    ultimately show ?thesis by (simp only: fastpos_result_slot [of dist 24 0 2] fastpos_shift_numeral)
  qed
qed

lemma get_dist_slot_2_in_slot:
  assumes "128 \<le> unat dist"
  shows "in_slot (unat (get_dist_slot_2 dist)) (unat dist)"
proof -
  have lim: "unat (fastpos_limit 6 0) = 2 ^ 19" "unat (fastpos_limit 6 (Suc 0)) = 2 ^ 31"
    by (simp_all add: fastpos_limit_def fastpos_shift_def)
  have d32: "unat dist < 2 ^ 32" using unsigned_less [of dist] by simp
  consider "unat dist < 2 ^ 19" | "2 ^ 19 \<le> unat dist" "unat dist < 2 ^ 31" | "2 ^ 31 \<le> unat dist" by linarith
  then show ?thesis
  proof cases
    case 1
    then have "get_dist_slot_2 dist = fastpos_result dist 6 0"
      by (simp add: get_dist_slot_2_def word_less_nat_alt lim)
    moreover have "unat dist div 2 ^ 6 < 2 ^ 13" "2 \<le> unat dist div 2 ^ 6"
      by (rule quotient_bounds; use 1 assms in simp)+
    ultimately show ?thesis by (simp only: fastpos_result_slot [of dist 6 6 0] fastpos_shift_numeral)
  next
    case 2
    then have "get_dist_slot_2 dist = fastpos_result dist 6 1"
      by (simp add: get_dist_slot_2_def word_less_nat_alt lim)
    moreover have "unat dist div 2 ^ 18 < 2 ^ 13" "2 \<le> unat dist div 2 ^ 18"
      by (rule quotient_bounds; use 2 in simp)+
    ultimately show ?thesis by (simp only: fastpos_result_slot [of dist 18 6 1] fastpos_shift_numeral)
  next
    case 3
    then have "get_dist_slot_2 dist = fastpos_result dist 6 2"
      by (simp add: get_dist_slot_2_def word_less_nat_alt lim)
    moreover have "unat dist div 2 ^ 30 < 2 ^ 13" "2 \<le> unat dist div 2 ^ 30"
      by (rule quotient_bounds; use 3 d32 in simp)+
    ultimately show ?thesis by (simp only: fastpos_result_slot [of dist 30 6 2] fastpos_shift_numeral)
  qed
qed

subsection \<open>The bit scan\<close>

lemma high_masks:
  "(0xFFFF0000 :: u32) = NOT (mask 16)" "(0xFF000000 :: u32) = NOT (mask 24)" "(0xF0000000 :: u32) = NOT (mask 28)"
  "(0xC0000000 :: u32) = NOT (mask 30)" "(0x80000000 :: u32) = NOT (mask 31)"
  by (simp_all add: mask_eq_exp_minus_1 word_unat_eq_iff)

lemma and_high_mask:
  "(n :: u32) AND 0xFFFF0000 = 0 \<longleftrightarrow> unat n < 2 ^ 16"
  "(n :: u32) AND 0xFF000000 = 0 \<longleftrightarrow> unat n < 2 ^ 24"
  "(n :: u32) AND 0xF0000000 = 0 \<longleftrightarrow> unat n < 2 ^ 28"
  "(n :: u32) AND 0xC0000000 = 0 \<longleftrightarrow> unat n < 2 ^ 30"
  "(n :: u32) AND 0x80000000 = 0 \<longleftrightarrow> unat n < 2 ^ 31"
proof -
  have high: "n AND NOT (mask k) = 0 \<longleftrightarrow> unat n < 2 ^ k" for k
  proof -
    have "n AND NOT (mask k) = push_bit k (drop_bit k n)"
      by (rule bit_word_eqI) (auto simp: bit_and_iff bit_not_iff bit_mask_iff bit_push_bit_iff bit_drop_bit_eq possible_bit_word)
    then have "n AND NOT (mask k) = 0 \<longleftrightarrow> push_bit k (drop_bit k n) = 0" by simp
    also have "\<dots> \<longleftrightarrow> drop_bit k n = 0"
    proof
      assume z: "push_bit k (drop_bit k n) = 0"
      show "drop_bit k n = 0"
      proof (rule bit_word_eqI)
        fix i
        have "\<not> bit (push_bit k (drop_bit k n)) (k + i)" by (simp add: z)
        then show "bit (drop_bit k n) i = bit (0 :: u32) i"
          using bit_imp_le_length [of n "k + i"] by (auto simp: bit_push_bit_iff bit_drop_bit_eq possible_bit_word)
      qed
    qed simp
    also have "\<dots> \<longleftrightarrow> unat n div 2 ^ k = 0" by (simp add: word_unat_eq_iff unat_drop_bit_div)
    also have "\<dots> \<longleftrightarrow> unat n < 2 ^ k" by (simp add: div_eq_0_iff)
    finally show ?thesis .
  qed
  from high [of 16] show "n AND 0xFFFF0000 = 0 \<longleftrightarrow> unat n < 2 ^ 16" by (simp only: high_masks)
  from high [of 24] show "n AND 0xFF000000 = 0 \<longleftrightarrow> unat n < 2 ^ 24" by (simp only: high_masks)
  from high [of 28] show "n AND 0xF0000000 = 0 \<longleftrightarrow> unat n < 2 ^ 28" by (simp only: high_masks)
  from high [of 30] show "n AND 0xC0000000 = 0 \<longleftrightarrow> unat n < 2 ^ 30" by (simp only: high_masks)
  from high [of 31] show "n AND 0x80000000 = 0 \<longleftrightarrow> unat n < 2 ^ 31" by (simp only: high_masks)
qed

definition bsr_step :: "nat \<Rightarrow> u32 \<times> u32 \<Rightarrow> u32 \<times> u32" where
  "bsr_step k state = (let (n, i) = state in if unat n < 2 ^ (32 - k) then (push_bit k n, i - word_of_nat k) else (n, i))"

lemma bsr_step_masks:
  "(if n AND 0xFFFF0000 = 0 then (push_bit 16 n, 15) else (n, 31)) = bsr_step 16 (n, 31)"
  "(if n AND 0xFF000000 = 0 then (push_bit 8 n, i - 8) else (n, i)) = bsr_step 8 (n, i)"
  "(if n AND 0xF0000000 = 0 then (push_bit 4 n, i - 4) else (n, i)) = bsr_step 4 (n, i)"
  "(if n AND 0xC0000000 = 0 then (push_bit 2 n, i - 2) else (n, i)) = bsr_step 2 (n, i)"
  "(if n AND 0x80000000 = 0 then i - 1 else i) = snd (bsr_step 1 (n, i))"
  by (simp_all add: bsr_step_def and_high_mask)

lemma bsr32_steps:
  "bsr32 n = snd (bsr_step 1 (bsr_step 2 (bsr_step 4 (bsr_step 8 (bsr_step 16 (n, 31))))))"
  unfolding bsr32_def bsr_step_masks Let_def by (simp only: split_beta prod.collapse)

text \<open>In the bit scan, the number has been shifted left by \<open>31 - i\<close>.\<close>

definition bsr_ok :: "nat \<Rightarrow> nat \<Rightarrow> u32 \<times> u32 \<Rightarrow> bool" where
  "bsr_ok m k state \<longleftrightarrow> (\<exists>i. snd state = word_of_nat i \<and> k - 1 \<le> i \<and> i \<le> 31
     \<and> unat (fst state) = m * 2 ^ (31 - i) \<and> 2 ^ (32 - k) \<le> unat (fst state))"

lemma bsr_step_ok:
  assumes "bsr_ok m (2 * k) state" and "0 < k" and "k \<le> 16"
  shows "bsr_ok m k (bsr_step k state)"
proof -
  obtain n i where st: "state = (n, word_of_nat i)" "2 * k - 1 \<le> i" "i \<le> 31" "unat n = m * 2 ^ (31 - i)" "2 ^ (32 - 2 * k) \<le> unat n"
    using assms(1) by (cases state) (auto simp: bsr_ok_def)
  show ?thesis
  proof (cases "unat n < 2 ^ (32 - k)")
    case True
    have "unat n * 2 ^ k < 2 ^ (32 - k) * 2 ^ k" using True by simp
    also have "\<dots> = 2 ^ LENGTH(32)" using assms(3) by (simp flip: power_add)
    finally have shift: "unat (push_bit k n) = unat n * 2 ^ k" by (rule unat_push_bit_mult)
    have i: "(word_of_nat i :: u32) - word_of_nat k = word_of_nat (i - k)" using st(2) assms(2) by (simp add: of_nat_diff)
    have "31 - (i - k) = 31 - i + k" using st(2,3) assms(2) by simp
    then have "unat n * 2 ^ k = m * 2 ^ (31 - (i - k))" by (simp add: st(4) power_add)
    moreover have "2 ^ (32 - k) = 2 ^ (32 - 2 * k) * (2 ^ k :: nat)" using assms(3) by (simp flip: power_add)
    then have "2 ^ (32 - k) \<le> unat n * 2 ^ k" using st(5) by simp
    moreover have "bsr_step k state = (push_bit k n, word_of_nat (i - k))"
      using True by (simp only: bsr_step_def st(1) Let_def prod.case i if_True)
    moreover have "k - 1 \<le> i - k" "i - k \<le> 31" using st(2,3) assms(2) by arith+
    ultimately show ?thesis unfolding bsr_ok_def
      by (intro exI [of _ "i - k"]) (simp only: fst_conv snd_conv shift simp_thms)
  next
    case False
    then have "bsr_step k state = (n, word_of_nat i)" by (simp only: bsr_step_def st(1) Let_def prod.case if_False)
    moreover have "k - 1 \<le> i" using st(2) by arith
    ultimately show ?thesis using st(3,4) False unfolding bsr_ok_def
      by (intro exI [of _ i]) (simp only: fst_conv snd_conv not_less simp_thms)
  qed
qed

lemma bsr32_floor:
  assumes "n \<noteq> 0"
  obtains i where "bsr32 n = word_of_nat i" and "i \<le> 31" and "2 ^ i \<le> unat n" and "unat n < 2 ^ Suc i"
proof -
  have "0 < unat n" using assms by (simp add: unat_gt_0)
  then have "bsr_ok (unat n) (2 * 16) (n, 31)" by (auto simp: bsr_ok_def intro!: exI [of _ 31])
  from bsr_step_ok [OF this] have "bsr_ok (unat n) (2 * 8) (bsr_step 16 (n, 31))" by simp
  from bsr_step_ok [OF this] have "bsr_ok (unat n) (2 * 4) (bsr_step 8 (bsr_step 16 (n, 31)))" by simp
  from bsr_step_ok [OF this] have "bsr_ok (unat n) (2 * 2) (bsr_step 4 (bsr_step 8 (bsr_step 16 (n, 31))))" by simp
  from bsr_step_ok [OF this] have "bsr_ok (unat n) (2 * 1) (bsr_step 2 (bsr_step 4 (bsr_step 8 (bsr_step 16 (n, 31)))))" by simp
  from bsr_step_ok [OF this] have "bsr_ok (unat n) 1 (bsr_step 1 (bsr_step 2 (bsr_step 4 (bsr_step 8 (bsr_step 16 (n, 31))))))" by simp
  then obtain i w where i: "bsr32 n = word_of_nat i" "i \<le> 31" "unat (w :: u32) = unat n * 2 ^ (31 - i)" "2 ^ 31 \<le> unat w"
    by (auto simp: bsr_ok_def bsr32_steps)
  have "(2 :: nat) ^ 31 = 2 ^ i * 2 ^ (31 - i)" using i(2) by (simp flip: power_add)
  then have "2 ^ i * 2 ^ (31 - i) \<le> unat n * 2 ^ (31 - i)" using i(4) by (simp only: i(3))
  then have "2 ^ i \<le> unat n" by simp
  moreover have "unat n < 2 ^ Suc i"
  proof -
    have "(2 :: nat) ^ LENGTH(32) = 2 ^ Suc i * 2 ^ (31 - i)" using i(2) by (simp flip: power_add power_Suc)
    moreover have "unat w < 2 ^ LENGTH(32)" by (rule unsigned_less)
    ultimately have "unat n * 2 ^ (31 - i) < 2 ^ Suc i * 2 ^ (31 - i)" by (simp only: i(3))
    then show ?thesis by simp
  qed
  ultimately show thesis using that i by blast
qed

lemma get_dist_slot_2_small_in_slot:
  assumes "2 \<le> unat dist"
  shows "in_slot (unat (get_dist_slot_2_small dist)) (unat dist)"
proof -
  let ?m = "unat dist"
  have "dist \<noteq> 0" using assms by auto
  then obtain i where i: "bsr32 dist = word_of_nat i" "i \<le> 31" "2 ^ i \<le> ?m" "?m < 2 ^ Suc i"
    by (rule bsr32_floor)
  have "i \<noteq> 0" using i(4) assms by (cases i) auto
  then obtain j where j: "i = Suc j" by (cases i) auto
  define b where "b = ?m div 2 ^ j mod 2"
  have "(word_of_nat i - 1 :: u32) = word_of_nat j" by (simp add: j)
  moreover have "unat (word_of_nat j :: u32) = j" by (rule unat_of_nat_less) (use i(2) j in simp)
  moreover have "unat (drop_bit j dist AND 1) = b" by (simp add: and_one_eq b_def unat_drop_bit_div unat_mod)
  then have "drop_bit j dist AND 1 = word_of_nat b" by (metis of_nat_unat ucast_id)
  ultimately have "get_dist_slot_2_small dist = word_of_nat (2 * i + b)"
    by (simp add: get_dist_slot_2_small_def Let_def i(1))
  moreover have "unat (word_of_nat (2 * i + b) :: u32) = 2 * i + b"
    by (rule unat_of_nat_less) (use i(2) in \<open>auto simp: b_def intro: le_less_trans [of _ "2 * 31 + 1"]\<close>)
  moreover have "in_slot (2 * i + b) ?m"
  proof -
    have q: "2 \<le> ?m div 2 ^ j" "?m div 2 ^ j < 4"
      using i(3,4) by (auto simp: j less_eq_div_iff_mult_less_eq div_less_iff_less_mult)
    then have "?m div 2 ^ j = 2 \<or> ?m div 2 ^ j = 3" by linarith
    then consider "?m div 2 ^ j = 2" "b = 0" | "?m div 2 ^ j = 3" "b = 1" by (auto simp: b_def)
    then have "in_slot (2 + b) (?m div 2 ^ j)" by cases (simp_all add: in_slot_def slot_start_def)
    from in_slot_shift [OF this] show ?thesis by (simp add: j algebra_simps)
  qed
  ultimately show ?thesis by simp
qed

lemma get_dist_slot_small_in_slot: "in_slot (unat (get_dist_slot_small dist)) (unat dist)"
proof (cases "dist \<le> 4")
  case True
  then have "unat dist \<in> {0, 1, 2, 3, 4}" by (auto simp: word_le_nat_alt)
  then show ?thesis using True by (auto simp: get_dist_slot_small_def in_slot_def slot_start_def)
next
  case False
  then show ?thesis using get_dist_slot_2_small_in_slot [of dist]
    by (simp add: get_dist_slot_small_def word_le_nat_alt)
qed

text \<open>C23. The distance slot from the table of 8192 entries is, for every 32-bit distance, the one
  that the small implementation computes from the position of the highest bit, and the
  variant for long distances agrees with its own small form from 128 on.\<close>

theorem get_dist_slot_equivalent:
  "get_dist_slot dist = get_dist_slot_small dist
    \<and> (128 \<le> dist \<longrightarrow> get_dist_slot_2 dist = get_dist_slot_2_small dist \<and> get_dist_slot_2 dist = get_dist_slot dist)"
proof
  show "get_dist_slot dist = get_dist_slot_small dist"
    by (rule word_unat_eq_iff [THEN iffD2], rule in_slot_unique [OF get_dist_slot_in_slot get_dist_slot_small_in_slot])
  show "128 \<le> dist \<longrightarrow> get_dist_slot_2 dist = get_dist_slot_2_small dist \<and> get_dist_slot_2 dist = get_dist_slot dist"
  proof
    assume "128 \<le> dist"
    then have d: "128 \<le> unat dist" by (simp add: word_le_nat_alt)
    note slot = in_slot_unique [OF get_dist_slot_2_in_slot [OF d]]
    have "unat (get_dist_slot_2 dist) = unat (get_dist_slot_2_small dist)"
      by (rule slot, rule get_dist_slot_2_small_in_slot) (use d in simp)
    moreover have "unat (get_dist_slot_2 dist) = unat (get_dist_slot dist)"
      by (rule slot, rule get_dist_slot_in_slot)
    ultimately show "get_dist_slot_2 dist = get_dist_slot_2_small dist \<and> get_dist_slot_2 dist = get_dist_slot dist"
      by (blast intro: word_unat_eq_iff [THEN iffD2])
  qed
qed

theorem get_dist_slot_equivalent_witness:
  "get_dist_slot 1000000 = get_dist_slot_small 1000000 \<and> get_dist_slot_2 1000000 = get_dist_slot_2_small 1000000
    \<and> get_dist_slot_2 1000000 = get_dist_slot 1000000"
proof -
  have "(128 :: u32) \<le> 1000000" by simp
  then show ?thesis using get_dist_slot_equivalent [of 1000000] by blast
qed

end
