(* ===== verification/Filters.thy ===== *)
theory Filters
  imports Vli Delta Fastpos Byte_Order
begin

text \<open>
  Filter chains and Filter Flags: src/liblzma/src/liblzma/common/filter\_common.c,
  filter\_encoder.c, filter\_decoder.c, filter\_flags\_encoder.c and filter\_flags\_decoder.c,
  with the encoding of the Filter Properties in simple\_encoder.c, simple\_decoder.c,
  lzma\_encoder.c, lzma\_decoder.c, lzma2\_encoder.c and lzma2\_decoder.c (those of the Delta
  filter are in Delta).

  An array of filters ends at the first element whose Filter ID is \<open>LZMA_VLI_UNKNOWN\<close>; the
  list that models it may end there too. A function that is given options of the wrong
  type, or no options where the code reads them without a test, has no defined behaviour in C and
  an unspecified value here. The tables hold the members that the modelled functions use; the
  initialisation and memory-usage functions, whose types differ from filter to filter, are
  arguments of the functions that call them.
\<close>

subsection \<open>api/lzma/filter.h, bcj.h, delta.h, lzma12.h\<close>

abbreviation (input) LZMA_FILTERS_MAX :: nat where "LZMA_FILTERS_MAX \<equiv> 4"
abbreviation (input) LZMA_FILTER_DELTA :: lzma_vli where "LZMA_FILTER_DELTA \<equiv> 0x03"
abbreviation (input) LZMA_FILTER_X86 :: lzma_vli where "LZMA_FILTER_X86 \<equiv> 0x04"
abbreviation (input) LZMA_FILTER_POWERPC :: lzma_vli where "LZMA_FILTER_POWERPC \<equiv> 0x05"
abbreviation (input) LZMA_FILTER_IA64 :: lzma_vli where "LZMA_FILTER_IA64 \<equiv> 0x06"
abbreviation (input) LZMA_FILTER_ARM :: lzma_vli where "LZMA_FILTER_ARM \<equiv> 0x07"
abbreviation (input) LZMA_FILTER_ARMTHUMB :: lzma_vli where "LZMA_FILTER_ARMTHUMB \<equiv> 0x08"
abbreviation (input) LZMA_FILTER_SPARC :: lzma_vli where "LZMA_FILTER_SPARC \<equiv> 0x09"
abbreviation (input) LZMA_FILTER_LZMA1 :: lzma_vli where "LZMA_FILTER_LZMA1 \<equiv> 0x4000000000000001"
abbreviation (input) LZMA_FILTER_LZMA2 :: lzma_vli where "LZMA_FILTER_LZMA2 \<equiv> 0x21"
abbreviation (input) LZMA_FILTER_RESERVED_START :: lzma_vli where "LZMA_FILTER_RESERVED_START \<equiv> 0x4000000000000000"
abbreviation (input) LZMA_DICT_SIZE_MIN :: u32 where "LZMA_DICT_SIZE_MIN \<equiv> 4096"
abbreviation (input) LZMA_LCLP_MAX :: u32 where "LZMA_LCLP_MAX \<equiv> 4"
abbreviation (input) LZMA_PB_MAX :: u32 where "LZMA_PB_MAX \<equiv> 4"

text \<open>What the functions read behind their \<open>void *\<close>.\<close>

definition opt_bcj :: "lzma_options option \<Rightarrow> u32 option" where
  "opt_bcj options = (case options of None \<Rightarrow> None | Some (Opt_bcj start_offset) \<Rightarrow> Some start_offset | _ \<Rightarrow> undefined)"

definition opt_delta :: "lzma_options option \<Rightarrow> lzma_options_delta option" where
  "opt_delta options = (case options of None \<Rightarrow> None | Some (Opt_delta opt) \<Rightarrow> Some opt | _ \<Rightarrow> undefined)"

definition opt_lzma :: "lzma_options option \<Rightarrow> lzma_options_lzma" where
  "opt_lzma options = (case options of Some (Opt_lzma opt) \<Rightarrow> opt | _ \<Rightarrow> undefined)"

subsection \<open>filter\_common.c\<close>

record filter_features =
  ft_id :: lzma_vli
  ft_non_last_ok :: bool
  ft_last_ok :: bool
  ft_changes_size :: bool

definition features :: "filter_features list" where
  "features =
     [\<lparr>ft_id = LZMA_FILTER_LZMA1, ft_non_last_ok = False, ft_last_ok = True, ft_changes_size = True\<rparr>,
      \<lparr>ft_id = LZMA_FILTER_LZMA2, ft_non_last_ok = False, ft_last_ok = True, ft_changes_size = True\<rparr>,
      \<lparr>ft_id = LZMA_FILTER_X86, ft_non_last_ok = True, ft_last_ok = False, ft_changes_size = False\<rparr>,
      \<lparr>ft_id = LZMA_FILTER_POWERPC, ft_non_last_ok = True, ft_last_ok = False, ft_changes_size = False\<rparr>,
      \<lparr>ft_id = LZMA_FILTER_IA64, ft_non_last_ok = True, ft_last_ok = False, ft_changes_size = False\<rparr>,
      \<lparr>ft_id = LZMA_FILTER_ARM, ft_non_last_ok = True, ft_last_ok = False, ft_changes_size = False\<rparr>,
      \<lparr>ft_id = LZMA_FILTER_ARMTHUMB, ft_non_last_ok = True, ft_last_ok = False, ft_changes_size = False\<rparr>,
      \<lparr>ft_id = LZMA_FILTER_SPARC, ft_non_last_ok = True, ft_last_ok = False, ft_changes_size = False\<rparr>,
      \<lparr>ft_id = LZMA_FILTER_DELTA, ft_non_last_ok = True, ft_last_ok = False, ft_changes_size = False\<rparr>]"

definition feature_find :: "lzma_vli \<Rightarrow> filter_features option" where
  "feature_find fid = find (\<lambda>ft. ft_id ft = fid) features"

text \<open>\<open>alloc_ok i\<close> tells whether the allocation for the options of filter \<open>i\<close> succeeds.\<close>

fun filters_copy_loop :: "(nat \<Rightarrow> bool) \<Rightarrow> nat \<Rightarrow> lzma_filter list \<Rightarrow> lzma_filter list \<Rightarrow> lzma_ret \<times> nat \<times> lzma_filter list" where
  "filters_copy_loop alloc_ok i [] dest = (LZMA_OK, i, dest)"
| "filters_copy_loop alloc_ok i (f # src) dest =
     (if filter_id f = LZMA_VLI_UNKNOWN then (LZMA_OK, i, dest)
      else if i = LZMA_FILTERS_MAX then (LZMA_OPTIONS_ERROR, i, dest)
      else
        let dest = dest[i := (dest ! i)\<lparr>filter_id := filter_id f\<rparr>]
        in case filter_options f of
             None \<Rightarrow> filters_copy_loop alloc_ok (i + 1) src (dest[i := (dest ! i)\<lparr>filter_options := None\<rparr>])
           | Some options \<Rightarrow>
               if feature_find (filter_id f) = None then (LZMA_OPTIONS_ERROR, i, dest)
               else if \<not> alloc_ok i then (LZMA_MEM_ERROR, i, dest[i := (dest ! i)\<lparr>filter_options := None\<rparr>])
               else filters_copy_loop alloc_ok (i + 1) src (dest[i := (dest ! i)\<lparr>filter_options := Some options\<rparr>]))"

definition filters_forget :: "nat \<Rightarrow> lzma_filter list \<Rightarrow> lzma_filter list" where
  "filters_forget i dest = map (\<lambda>f. f\<lparr>filter_options := None\<rparr>) (take i dest) @ drop i dest"

definition lzma_filters_copy ::
  "(nat \<Rightarrow> bool) \<Rightarrow> lzma_filter list option \<Rightarrow> lzma_filter list option \<Rightarrow> lzma_ret \<times> lzma_filter list option" where
  "lzma_filters_copy alloc_ok src dest =
     (case (src, dest) of
        (Some src, Some dest) \<Rightarrow>
          (let (ret, i, dest) = filters_copy_loop alloc_ok 0 src dest
           in if ret = LZMA_OK
              then (LZMA_OK, Some (dest[i := \<lparr>filter_id = LZMA_VLI_UNKNOWN, filter_options = None\<rparr>]))
              else (ret, Some (filters_forget i dest)))
      | _ \<Rightarrow> (LZMA_PROG_ERROR, dest))"

fun validate_loop :: "lzma_filter list \<Rightarrow> nat \<Rightarrow> bool \<Rightarrow> bool \<Rightarrow> nat \<Rightarrow> lzma_ret + nat \<times> bool \<times> nat" where
  "validate_loop [] i non_last_ok last_ok changes_size_count = Inr (i, last_ok, changes_size_count)"
| "validate_loop (f # filters) i non_last_ok last_ok changes_size_count =
     (if filter_id f = LZMA_VLI_UNKNOWN then Inr (i, last_ok, changes_size_count)
      else case feature_find (filter_id f) of
             None \<Rightarrow> Inl LZMA_OPTIONS_ERROR
           | Some ft \<Rightarrow>
               if \<not> non_last_ok then Inl LZMA_OPTIONS_ERROR
               else validate_loop filters (i + 1) (ft_non_last_ok ft) (ft_last_ok ft)
                      (changes_size_count + (if ft_changes_size ft then 1 else 0)))"

definition validate_chain :: "lzma_filter list option \<Rightarrow> lzma_ret \<times> nat option" where
  "validate_chain filters =
     (case filters of None \<Rightarrow> (LZMA_PROG_ERROR, None)
      | Some filters \<Rightarrow>
          if filters = [] \<or> filter_id (hd filters) = LZMA_VLI_UNKNOWN then (LZMA_PROG_ERROR, None)
          else case validate_loop filters 0 True False 0 of
                 Inl ret \<Rightarrow> (ret, None)
               | Inr (i, last_ok, changes_size_count) \<Rightarrow>
                   if LZMA_FILTERS_MAX < i \<or> \<not> last_ok \<or> 3 < changes_size_count then (LZMA_OPTIONS_ERROR, None)
                   else (LZMA_OK, Some i))"

record 'i lzma_filter_info =
  fi_id :: lzma_vli
  fi_init :: "'i option"
  fi_options :: "lzma_options option"

text \<open>\<open>coder_find\<close> gives \<open>None\<close> for an unknown filter and \<open>Some None\<close> when its \<open>init\<close> is \<open>NULL\<close>.
  An initialisation function has an address, and \<open>call_init\<close> runs it.\<close>

definition raw_coder_filters ::
  "(lzma_vli \<Rightarrow> 'i option option) \<Rightarrow> bool \<Rightarrow> lzma_filter list \<Rightarrow> 'i lzma_filter_info list option" where
  "raw_coder_filters coder_find is_encoder options =
     (if \<exists>f \<in> set options. case coder_find (filter_id f) of Some (Some _) \<Rightarrow> False | _ \<Rightarrow> True then None
      else let infos = map (\<lambda>f. \<lparr>fi_id = filter_id f, fi_init = the (coder_find (filter_id f)), fi_options = filter_options f\<rparr>) options
           in Some ((if is_encoder then rev infos else infos) @ [\<lparr>fi_id = LZMA_VLI_UNKNOWN, fi_init = None, fi_options = None\<rparr>]))"

definition lzma_raw_coder_init ::
  "('i \<Rightarrow> nat) \<Rightarrow> ('i \<Rightarrow> 'i lzma_filter_info list \<Rightarrow> 's lzma_next_coder \<Rightarrow> lzma_ret \<times> 's lzma_next_coder)
   \<Rightarrow> 's lzma_next_coder \<Rightarrow> lzma_filter list option \<Rightarrow> (lzma_vli \<Rightarrow> 'i option option) \<Rightarrow> bool
   \<Rightarrow> lzma_ret \<times> 's lzma_next_coder" where
  "lzma_raw_coder_init address call_init next options coder_find is_encoder =
     (case validate_chain options of
        (ret, None) \<Rightarrow> (ret, next)
      | (_, Some count) \<Rightarrow>
          (case raw_coder_filters coder_find is_encoder (take count (the options)) of
             None \<Rightarrow> (LZMA_OPTIONS_ERROR, next)
           | Some filters \<Rightarrow>
               let (ret, next) = lzma_next_filter_init (fi_id (hd filters))
                     (map_option (\<lambda>i. (address i, call_init i filters)) (fi_init (hd filters))) next
               in if ret \<noteq> LZMA_OK then (ret, lzma_next_end next) else (ret, next)))"

fun raw_memusage_loop ::
  "(lzma_vli \<Rightarrow> (lzma_options option \<Rightarrow> u64) option option) \<Rightarrow> lzma_filter list \<Rightarrow> u64 \<Rightarrow> u64" where
  "raw_memusage_loop coder_find [] sum_usage = sum_usage + push_bit 15 1"
| "raw_memusage_loop coder_find (f # filters) sum_usage =
     (if filter_id f = LZMA_VLI_UNKNOWN then sum_usage + push_bit 15 1
      else case coder_find (filter_id f) of
             None \<Rightarrow> UINT64_MAX
           | Some None \<Rightarrow> raw_memusage_loop coder_find filters (sum_usage + 1024)
           | Some (Some memusage) \<Rightarrow>
               let usage = memusage (filter_options f)
               in if usage = UINT64_MAX then UINT64_MAX
                  else raw_memusage_loop coder_find filters (sum_usage + usage))"

definition lzma_raw_coder_memusage ::
  "(lzma_vli \<Rightarrow> (lzma_options option \<Rightarrow> u64) option option) \<Rightarrow> lzma_filter list option \<Rightarrow> u64" where
  "lzma_raw_coder_memusage coder_find filters =
     (if fst (validate_chain filters) \<noteq> LZMA_OK then UINT64_MAX
      else raw_memusage_loop coder_find (the filters) 0)"

subsection \<open>simple\_encoder.c, simple\_decoder.c\<close>

definition lzma_simple_props_size :: "lzma_options option \<Rightarrow> lzma_ret \<times> u32" where
  "lzma_simple_props_size options =
     (let opt = opt_bcj options in (LZMA_OK, if opt = None \<or> opt = Some 0 then 0 else 4))"

definition lzma_simple_props_encode :: "lzma_options option \<Rightarrow> byte list \<Rightarrow> lzma_ret \<times> byte list" where
  "lzma_simple_props_encode options out =
     (let opt = opt_bcj options
      in if opt = None \<or> opt = Some 0 then (LZMA_OK, out)
         else (LZMA_OK, put_bytes out 0 (le32_bytes (the opt))))"

definition lzma_simple_props_decode :: "bool \<Rightarrow> byte list \<Rightarrow> nat \<Rightarrow> lzma_ret \<times> lzma_options option" where
  "lzma_simple_props_decode alloc_ok props props_size =
     (if props_size = 0 then (LZMA_OK, None)
      else if props_size \<noteq> 4 then (LZMA_OPTIONS_ERROR, None)
      else if \<not> alloc_ok then (LZMA_MEM_ERROR, None)
      else let start_offset = read32le props 0
           in (LZMA_OK, if start_offset = 0 then None else Some (Opt_bcj start_offset)))"

subsection \<open>lzma\_common.h, lzma\_encoder.c, lzma\_decoder.c\<close>

definition is_lclppb_valid :: "lzma_options_lzma \<Rightarrow> bool" where
  "is_lclppb_valid options \<longleftrightarrow> lc options \<le> LZMA_LCLP_MAX \<and> lp options \<le> LZMA_LCLP_MAX
     \<and> lc options + lp options \<le> LZMA_LCLP_MAX \<and> pb options \<le> LZMA_PB_MAX"

definition is_options_valid :: "lzma_options_lzma \<Rightarrow> bool" where
  "is_options_valid options \<longleftrightarrow> is_lclppb_valid options \<and> nice_len options \<ge> 2 \<and> nice_len options \<le> 273
     \<and> (lzma_mode options = 1 \<or> lzma_mode options = 2)"

text \<open>\<open>None\<close> stands for the return value \<open>true\<close>, which means failure.\<close>

definition lzma_lzma_lclppb_encode :: "lzma_options_lzma \<Rightarrow> byte option" where
  "lzma_lzma_lclppb_encode options =
     (if \<not> is_lclppb_valid options then None
      else Some (ucast ((pb options * 5 + lp options) * 9 + lc options)))"

definition lzma_lzma_props_encode :: "lzma_options option \<Rightarrow> byte list \<Rightarrow> lzma_ret \<times> byte list" where
  "lzma_lzma_props_encode options out =
     (let opt = opt_lzma options
      in case lzma_lzma_lclppb_encode opt of
           None \<Rightarrow> (LZMA_PROG_ERROR, out)
         | Some b \<Rightarrow> (LZMA_OK, put_bytes (out[0 := b]) 1 (le32_bytes (dict_size opt))))"

text \<open>The options before the call are \<open>options\<close>; they are written even when the result is not
  valid.\<close>

definition lzma_lzma_lclppb_decode :: "lzma_options_lzma \<Rightarrow> byte \<Rightarrow> bool \<times> lzma_options_lzma" where
  "lzma_lzma_lclppb_decode options b =
     (if b > (4 * 5 + 4) * 9 + 8 then (True, options)
      else let pb' = ucast (b div (9 * 5));
               b = ucast (ucast b - pb' * 9 * 5 :: u32) :: byte;
               lp' = ucast (b div 9);
               lc' = ucast b - lp' * 9
           in (lc' + lp' > LZMA_LCLP_MAX, options\<lparr>pb := pb', lp := lp', lc := lc'\<rparr>))"

text \<open>\<open>fresh\<close> is the content of the newly allocated options.\<close>

definition lzma_lzma_props_decode ::
  "bool \<Rightarrow> lzma_options_lzma \<Rightarrow> byte list \<Rightarrow> nat \<Rightarrow> lzma_ret \<times> lzma_options option" where
  "lzma_lzma_props_decode alloc_ok fresh props props_size =
     (if props_size \<noteq> 5 then (LZMA_OPTIONS_ERROR, None)
      else if \<not> alloc_ok then (LZMA_MEM_ERROR, None)
      else let (invalid, opt) = lzma_lzma_lclppb_decode fresh (props ! 0)
           in if invalid then (LZMA_OPTIONS_ERROR, None)
              else (LZMA_OK, Some (Opt_lzma (opt\<lparr>dict_size := read32le props 1, preset_dict_size := 0\<rparr>))))"

subsection \<open>lzma2\_encoder.c, lzma2\_decoder.c\<close>

definition lzma2_round_up :: "u32 \<Rightarrow> u32" where
  "lzma2_round_up d =
     (let d = d - 1;
          d = d OR drop_bit 2 d;
          d = d OR drop_bit 3 d;
          d = d OR drop_bit 4 d;
          d = d OR drop_bit 8 d
      in d OR drop_bit 16 d)"

definition lzma2_dict_byte :: "u32 \<Rightarrow> byte" where
  "lzma2_dict_byte d =
     (let d = lzma2_round_up (max d LZMA_DICT_SIZE_MIN)
      in if d = 0xFFFFFFFF then 40 else ucast (get_dist_slot (d + 1) - 24))"

definition lzma_lzma2_props_encode :: "lzma_options option \<Rightarrow> byte list \<Rightarrow> lzma_ret \<times> byte list" where
  "lzma_lzma2_props_encode options out =
     (let opt = opt_lzma options in (LZMA_OK, out[0 := lzma2_dict_byte (dict_size opt)]))"

definition lzma_lzma2_block_size :: "lzma_options option \<Rightarrow> u64" where
  "lzma_lzma2_block_size options = max (ucast (dict_size (opt_lzma options)) * 3) (push_bit 20 1)"

definition lzma2_dict_size :: "byte \<Rightarrow> u32" where
  "lzma2_dict_size b =
     (if b = 40 then 0xFFFFFFFF else push_bit (unat (b div 2) + 11) (2 OR (ucast b AND 1)))"

definition lzma_lzma2_props_decode ::
  "bool \<Rightarrow> lzma_options_lzma \<Rightarrow> byte list \<Rightarrow> nat \<Rightarrow> lzma_ret \<times> lzma_options option" where
  "lzma_lzma2_props_decode alloc_ok fresh props props_size =
     (if props_size \<noteq> 1 then (LZMA_OPTIONS_ERROR, None)
      else if props ! 0 AND 0xC0 \<noteq> 0 then (LZMA_OPTIONS_ERROR, None)
      else if props ! 0 > 40 then (LZMA_OPTIONS_ERROR, None)
      else if \<not> alloc_ok then (LZMA_MEM_ERROR, None)
      else (LZMA_OK, Some (Opt_lzma (fresh\<lparr>dict_size := lzma2_dict_size (props ! 0), preset_dict_size := 0\<rparr>))))"

subsection \<open>filter\_encoder.c\<close>

record lzma_filter_encoder =
  fe_id :: lzma_vli
  fe_block_size :: "(lzma_options option \<Rightarrow> u64) option"
  fe_props_size_get :: "(lzma_options option \<Rightarrow> lzma_ret \<times> u32) option"
  fe_props_size_fixed :: u32
  fe_props_encode :: "(lzma_options option \<Rightarrow> byte list \<Rightarrow> lzma_ret \<times> byte list) option"

definition simple_filter_encoder :: "lzma_vli \<Rightarrow> lzma_filter_encoder" where
  "simple_filter_encoder fid =
     \<lparr>fe_id = fid, fe_block_size = None, fe_props_size_get = Some lzma_simple_props_size, fe_props_size_fixed = 0,
      fe_props_encode = Some lzma_simple_props_encode\<rparr>"

definition encoders :: "lzma_filter_encoder list" where
  "encoders =
     [\<lparr>fe_id = LZMA_FILTER_LZMA1, fe_block_size = None, fe_props_size_get = None, fe_props_size_fixed = 5,
       fe_props_encode = Some lzma_lzma_props_encode\<rparr>,
      \<lparr>fe_id = LZMA_FILTER_LZMA2, fe_block_size = Some lzma_lzma2_block_size, fe_props_size_get = None,
       fe_props_size_fixed = 1, fe_props_encode = Some lzma_lzma2_props_encode\<rparr>,
      simple_filter_encoder LZMA_FILTER_X86,
      simple_filter_encoder LZMA_FILTER_POWERPC,
      simple_filter_encoder LZMA_FILTER_IA64,
      simple_filter_encoder LZMA_FILTER_ARM,
      simple_filter_encoder LZMA_FILTER_ARMTHUMB,
      simple_filter_encoder LZMA_FILTER_SPARC,
      \<lparr>fe_id = LZMA_FILTER_DELTA, fe_block_size = None, fe_props_size_get = None, fe_props_size_fixed = 1,
       fe_props_encode = Some (\<lambda>options. lzma_delta_props_encode (opt_delta options))\<rparr>]"

definition encoder_find :: "lzma_vli \<Rightarrow> lzma_filter_encoder option" where
  "encoder_find fid = find (\<lambda>fe. fe_id fe = fid) encoders"

definition lzma_filter_encoder_is_supported :: "lzma_vli \<Rightarrow> bool" where
  "lzma_filter_encoder_is_supported fid \<longleftrightarrow> encoder_find fid \<noteq> None"

fun mt_block_size_loop :: "lzma_filter list \<Rightarrow> u64 \<Rightarrow> u64" where
  "mt_block_size_loop [] largest = largest"
| "mt_block_size_loop (f # filters) largest =
     (if filter_id f = LZMA_VLI_UNKNOWN then largest
      else case fe_block_size (the (encoder_find (filter_id f))) of
             None \<Rightarrow> mt_block_size_loop filters largest
           | Some block_size \<Rightarrow>
               let size = block_size (filter_options f)
               in if size = 0 then 0
                  else mt_block_size_loop filters (if size > largest then size else largest))"

definition lzma_mt_block_size :: "lzma_filter list \<Rightarrow> u64" where
  "lzma_mt_block_size filters = mt_block_size_loop filters 0"

definition lzma_properties_size :: "lzma_filter \<Rightarrow> lzma_ret \<times> u32 option" where
  "lzma_properties_size flt =
     (case encoder_find (filter_id flt) of
        None \<Rightarrow> (if filter_id flt \<le> LZMA_VLI_MAX then LZMA_OPTIONS_ERROR else LZMA_PROG_ERROR, None)
      | Some fe \<Rightarrow>
          (case fe_props_size_get fe of
             None \<Rightarrow> (LZMA_OK, Some (fe_props_size_fixed fe))
           | Some props_size_get \<Rightarrow>
               (let (ret, size) = props_size_get (filter_options flt) in (ret, Some size))))"

definition lzma_properties_encode :: "lzma_filter \<Rightarrow> byte list \<Rightarrow> lzma_ret \<times> byte list" where
  "lzma_properties_encode flt props =
     (case encoder_find (filter_id flt) of
        None \<Rightarrow> (LZMA_PROG_ERROR, props)
      | Some fe \<Rightarrow>
          (case fe_props_encode fe of
             None \<Rightarrow> (LZMA_OK, props)
           | Some props_encode \<Rightarrow> props_encode (filter_options flt) props))"

subsection \<open>filter\_decoder.c\<close>

record lzma_filter_decoder =
  fd_id :: lzma_vli
  fd_props_decode :: "(bool \<Rightarrow> lzma_options_lzma \<Rightarrow> byte list \<Rightarrow> nat \<Rightarrow> lzma_ret \<times> lzma_options option) option"

definition simple_filter_decoder :: "lzma_vli \<Rightarrow> lzma_filter_decoder" where
  "simple_filter_decoder fid =
     \<lparr>fd_id = fid, fd_props_decode = Some (\<lambda>alloc_ok fresh. lzma_simple_props_decode alloc_ok)\<rparr>"

definition decoders :: "lzma_filter_decoder list" where
  "decoders =
     [\<lparr>fd_id = LZMA_FILTER_LZMA1, fd_props_decode = Some lzma_lzma_props_decode\<rparr>,
      \<lparr>fd_id = LZMA_FILTER_LZMA2, fd_props_decode = Some lzma_lzma2_props_decode\<rparr>,
      simple_filter_decoder LZMA_FILTER_X86,
      simple_filter_decoder LZMA_FILTER_POWERPC,
      simple_filter_decoder LZMA_FILTER_IA64,
      simple_filter_decoder LZMA_FILTER_ARM,
      simple_filter_decoder LZMA_FILTER_ARMTHUMB,
      simple_filter_decoder LZMA_FILTER_SPARC,
      \<lparr>fd_id = LZMA_FILTER_DELTA, fd_props_decode = Some (\<lambda>alloc_ok fresh props props_size.
         let (ret, opt) = lzma_delta_props_decode alloc_ok props props_size in (ret, map_option Opt_delta opt))\<rparr>]"

definition decoder_find :: "lzma_vli \<Rightarrow> lzma_filter_decoder option" where
  "decoder_find fid = find (\<lambda>fd. fd_id fd = fid) decoders"

definition lzma_filter_decoder_is_supported :: "lzma_vli \<Rightarrow> bool" where
  "lzma_filter_decoder_is_supported fid \<longleftrightarrow> decoder_find fid \<noteq> None"

definition lzma_properties_decode ::
  "bool \<Rightarrow> lzma_options_lzma \<Rightarrow> lzma_filter \<Rightarrow> byte list \<Rightarrow> nat \<Rightarrow> lzma_ret \<times> lzma_filter" where
  "lzma_properties_decode alloc_ok fresh flt props props_size =
     (let flt = flt\<lparr>filter_options := None\<rparr>
      in case decoder_find (filter_id flt) of
           None \<Rightarrow> (LZMA_OPTIONS_ERROR, flt)
         | Some fd \<Rightarrow>
             (case fd_props_decode fd of
                None \<Rightarrow> (if props_size = 0 then LZMA_OK else LZMA_OPTIONS_ERROR, flt)
              | Some props_decode \<Rightarrow>
                  (let (ret, options) = props_decode alloc_ok fresh props props_size
                   in (ret, flt\<lparr>filter_options := options\<rparr>))))"

subsection \<open>filter\_flags\_encoder.c, filter\_flags\_decoder.c\<close>

definition lzma_filter_flags_size :: "lzma_filter \<Rightarrow> lzma_ret \<times> u32 option" where
  "lzma_filter_flags_size flt =
     (if filter_id flt \<ge> LZMA_FILTER_RESERVED_START then (LZMA_PROG_ERROR, None)
      else case lzma_properties_size flt of
             (LZMA_OK, Some sz) \<Rightarrow>
               (LZMA_OK, Some (sz + (lzma_vli_size (filter_id flt) + lzma_vli_size (ucast sz))))
           | (ret, sz) \<Rightarrow> (ret, sz))"

definition lzma_filter_flags_encode :: "lzma_filter \<Rightarrow> byte list \<Rightarrow> nat \<Rightarrow> nat \<Rightarrow> lzma_ret \<times> byte list \<times> nat" where
  "lzma_filter_flags_encode flt out out_pos out_size =
     (if filter_id flt \<ge> LZMA_FILTER_RESERVED_START then (LZMA_PROG_ERROR, out, out_pos)
      else
        let (ret, _, out, out_pos) = lzma_vli_encode (filter_id flt) None out out_pos out_size
        in if ret \<noteq> LZMA_OK then (ret, out, out_pos)
           else
             let (ret, size) = lzma_properties_size flt
             in if ret \<noteq> LZMA_OK then (ret, out, out_pos)
                else
                  let props_size = the size;
                      (ret, _, out, out_pos) = lzma_vli_encode (ucast props_size) None out out_pos out_size
                  in if ret \<noteq> LZMA_OK then (ret, out, out_pos)
                     else if out_size - out_pos < unat props_size then (LZMA_PROG_ERROR, out, out_pos)
                     else
                       let (ret, props) = lzma_properties_encode flt (drop out_pos out);
                           out = take out_pos out @ props
                       in if ret \<noteq> LZMA_OK then (ret, out, out_pos)
                          else (LZMA_OK, out, out_pos + unat props_size))"

definition lzma_filter_flags_decode ::
  "bool \<Rightarrow> lzma_options_lzma \<Rightarrow> lzma_filter \<Rightarrow> byte list \<Rightarrow> nat \<Rightarrow> nat \<Rightarrow> lzma_ret \<times> lzma_filter \<times> nat" where
  "lzma_filter_flags_decode alloc_ok fresh flt inb in_pos in_size =
     (let flt = flt\<lparr>filter_options := None\<rparr>;
          (ret, fid, _, in_pos) = lzma_vli_decode (filter_id flt) None inb in_pos in_size;
          flt = flt\<lparr>filter_id := fid\<rparr>
      in if ret \<noteq> LZMA_OK then (ret, flt, in_pos)
         else if filter_id flt \<ge> LZMA_FILTER_RESERVED_START then (LZMA_DATA_ERROR, flt, in_pos)
         else
           let (ret, props_size, _, in_pos) = lzma_vli_decode 0 None inb in_pos in_size
           in if ret \<noteq> LZMA_OK then (ret, flt, in_pos)
              else if in_size - in_pos < unat props_size then (LZMA_DATA_ERROR, flt, in_pos)
              else
                let (ret, flt) = lzma_properties_decode alloc_ok fresh flt (drop in_pos inb) (unat props_size)
                in (ret, flt, in_pos + unat props_size))"

end
