(* ===== verification/Lzma2_Dict.thy ===== *)
theory Lzma2_Dict
  imports Filters
begin

text \<open>
  The dictionary size in the properties of LZMA2: what the encoder (lzma2\_encoder.c) and the decoder
  (lzma2\_decoder.c) of the Filter Properties, modelled in Filters, make of it. The slots of Fastpos give
  the proof: the encoder rounds up to the end of a slot and writes the number of the next one.
\<close>

subsection \<open>Rounding up the dictionary size\<close>

lemma bit_word_odd: "bit (x :: 'a::len word) i \<longleftrightarrow> odd (unat x div 2 ^ i)"
  by (simp add: bit_iff_odd_drop_bit even_unat unat_drop_bit_div flip: unat_drop_bit_div)

lemma in_slot_bits:
  assumes "in_slot (2 * Suc m + b) (unat (x :: u32))" and "b < 2"
  shows "bit x (Suc m)" and "bit x m \<longleftrightarrow> b = 1" and "Suc m < i \<Longrightarrow> \<not> bit x i" and "Suc m < 32"
proof -
  have st: "slot_start (2 * Suc m + b) = (2 + b) * 2 ^ m" using assms(2) by (simp add: slot_start_def less_2_cases_iff)
  have "slot_start (Suc (2 * Suc m + b)) = (3 + b) * 2 ^ m"
    using slot_start_Suc [of "2 * Suc m + b"] st assms(2) by (auto simp: less_2_cases_iff)
  then have x: "(2 + b) * 2 ^ m \<le> unat x" "unat x < (3 + b) * 2 ^ m" using assms(1) st by (simp_all add: in_slot_def)
  then have q: "unat x div 2 ^ m = 2 + b"
    by (intro div_nat_eqI) (simp_all add: algebra_simps)
  then show "bit x m \<longleftrightarrow> b = 1" using assms(2) by (auto simp: bit_word_odd less_2_cases_iff)
  have "unat x div 2 ^ Suc m = unat x div 2 ^ m div 2" by (simp only: power_Suc2 div_mult2_eq)
  then have "unat x div 2 ^ Suc m = 1" using q assms(2) by (auto simp: less_2_cases_iff)
  then show bm: "bit x (Suc m)" by (simp only: bit_word_odd) simp
  then show "Suc m < 32" using bit_imp_le_length [of x "Suc m"] by simp
  show "\<not> bit x i" if "Suc m < i"
  proof -
    have "unat x < 2 ^ Suc (Suc m)"
      using x(2) assms(2) by (simp add: less_2_cases_iff) auto
    also have "\<dots> \<le> 2 ^ i" using that by (intro power_increasing) auto
    finally show ?thesis by (simp add: bit_word_odd)
  qed
qed

text \<open>A number whose bits are those of \<open>x\<close> at any of the distances \<open>ks\<close> above.\<close>

definition smeared :: "nat list \<Rightarrow> u32 \<Rightarrow> u32 \<Rightarrow> bool" where
  "smeared ks x d \<longleftrightarrow> (\<forall>j. bit d j \<longleftrightarrow> (\<exists>k \<in> set ks. bit x (j + k)))"

lemma smeared_step: "smeared ks x d \<Longrightarrow> smeared (ks @ map ((+) n) ks) x (d OR drop_bit n d)"
  unfolding smeared_def bit_or_iff bit_drop_bit_eq comp_def set_append set_map bex_Un bex_simps(7)
  by (simp only: add.assoc add.commute add.left_commute [of n]) (simp add: ac_simps)

lemma bit_lzma2_round_up:
  "bit (lzma2_round_up d) j \<longleftrightarrow> (\<exists>k \<in> {0} \<union> {2..31} \<union> {33}. bit (d - 1) (j + k))"
proof -
  define x where "x = d - 1"
  define step :: "nat \<Rightarrow> nat list \<Rightarrow> nat list" where "step n ks = ks @ map ((+) n) ks" for n ks
  define ks where "ks = step 16 (step 8 (step 4 (step 3 (step 2 [0]))))"
  have "smeared [0] x x" by (simp add: smeared_def)
  then have "smeared ks x (lzma2_round_up d)"
    unfolding ks_def step_def lzma2_round_up_def Let_def x_def [symmetric] by (intro smeared_step)
  moreover have "set ks = {0} \<union> {2..31} \<union> {33}" unfolding ks_def step_def by code_simp
  ultimately show ?thesis by (simp only: smeared_def x_def)
qed

lemma unat_mask_u32: "k \<le> 32 \<Longrightarrow> unat (mask k :: u32) = 2 ^ k - 1"
proof -
  assume "k \<le> 32"
  then have p: "(2 :: nat) ^ 32 = 2 ^ k * 2 ^ (32 - k)" by (simp flip: power_add)
  have "(1 :: nat) \<le> 2 ^ (32 - k)" by simp
  then obtain q where q: "(2 :: nat) ^ (32 - k) = Suc q" by (cases "(2 :: nat) ^ (32 - k)") auto
  have "(mask k :: u32) = take_bit k (- 1)" by simp
  moreover have "unat (- 1 :: u32) = 2 ^ 32 - 1" by (simp add: unsigned_minus_1_eq_mask mask_eq_exp_minus_1)
  ultimately have "unat (mask k :: u32) = (2 ^ 32 - 1) mod 2 ^ k" by (simp only: unat_take_bit_mod)
  also have "(2 :: nat) ^ 32 - 1 = 2 ^ k * q + (2 ^ k - 1)" unfolding p q by simp
  also have "\<dots> mod 2 ^ k = (2 ^ k - 1) mod 2 ^ k" by (rule mod_mult_self4)
  also have "\<dots> = 2 ^ k - 1" by (rule mod_less) simp
  finally show ?thesis .
qed

lemma unat_lzma2_round_up:
  assumes "in_slot s (unat (d - 1))" and "4 \<le> s"
  shows "unat (lzma2_round_up d) = slot_start (Suc s) - 1"
proof -
  define b where "b = s mod 2"
  obtain m where m: "s div 2 = Suc m" using assms(2) by (cases "s div 2") auto
  then have s: "s = 2 * Suc m + b" by (metis b_def mult_div_mod_eq)
  have "b < 2" by (simp add: b_def)
  note bits = in_slot_bits [OF assms(1) [unfolded s] this]
  define q :: u32 where "q = push_bit (Suc m) 1"
  have q: "bit q j \<longleftrightarrow> j = Suc m" for j
    using bits(4) unfolding q_def bit_push_bit_iff bit_1_iff possible_bit_word by auto
  define w where "w = (if b = 1 then mask (Suc (Suc m)) else q OR mask m)"
  have "lzma2_round_up d = w"
  proof (rule bit_word_eqI)
    fix j :: nat
    assume "j < LENGTH(32)"
    have "Suc m < j \<or> j = Suc m \<or> j = m \<or> j < m" by arith
    then show "bit (lzma2_round_up d) j = bit w j"
    proof (elim disjE)
      assume "Suc m < j"
      then show ?thesis
        using bits(3) by (auto simp: bit_lzma2_round_up w_def bit_or_iff bit_mask_iff q)
    next
      assume "j = Suc m"
      then show ?thesis
        using bits(1,4) by (auto simp: bit_lzma2_round_up w_def bit_or_iff bit_mask_iff q possible_bit_word)
    next
      assume 3: "j = m"
      have "\<not> bit (d - 1) (j + k)" if "2 \<le> k" for k using bits(3) [of "j + k"] that 3 by simp
      then have "bit (lzma2_round_up d) j \<longleftrightarrow> b = 1"
        using bits(2) 3 by (auto simp: bit_lzma2_round_up)
      then show ?thesis
        using bits(4) 3 by (auto simp: w_def bit_or_iff bit_mask_iff q possible_bit_word)
    next
      assume 4: "j < m"
      define k where "k = Suc m - j"
      have "j + k = Suc m" "2 \<le> k" "k \<le> 31" using 4 bits(4) by (auto simp: k_def)
      then have "bit (lzma2_round_up d) j" using bits(1) unfolding bit_lzma2_round_up by (intro bexI [of _ k]) auto
      moreover have "bit w j"
        using 4 bits(4) by (auto simp: w_def bit_or_iff bit_mask_iff q possible_bit_word)
      ultimately show ?thesis by simp
    qed
  qed
  moreover have "unat w = slot_start (Suc s) - 1"
  proof (cases "b = 1")
    case True
    then show ?thesis using bits(4) by (simp add: w_def s slot_start_def unat_mask_u32)
  next
    case False
    then have "b = 0" using \<open>b < 2\<close> by simp
    have "q OR mask m = q + mask m"
      by (rule disjunctive_add [symmetric]) (auto simp: bit_mask_iff q)
    moreover have "unat q = 2 ^ Suc m"
    proof -
      have "(2 :: nat) ^ Suc m < 2 ^ LENGTH(32)" by (rule power_strict_increasing) (use bits(4) in auto)
      then show ?thesis unfolding q_def by (subst unat_push_bit_mult) simp_all
    qed
    moreover have "unat (mask m :: u32) = 2 ^ m - 1" using bits(4) by (simp add: unat_mask_u32)
    moreover have "(2 :: nat) ^ Suc m + (2 ^ m - 1) < 2 ^ LENGTH(32)"
    proof -
      have "(2 :: nat) ^ Suc (Suc m) \<le> 2 ^ LENGTH(32)" using bits(4) by (intro power_increasing) auto
      then show ?thesis using zero_less_power [of "2 :: nat" m] by simp
    qed
    ultimately have "unat w = 2 ^ Suc m + (2 ^ m - 1)"
      using \<open>b = 0\<close> by (simp only: w_def) (simp add: unat_add_small)
    then show ?thesis using \<open>b = 0\<close> zero_less_power [of "2 :: nat" m] by (simp add: s slot_start_def)
  qed
  ultimately show ?thesis by simp
qed

lemma unat_lzma2_dict_size:
  assumes "b \<le> 40"
  shows "unat (lzma2_dict_size b) = slot_start (unat b + 24) - (if b = 40 then 1 else 0)"
proof (cases "b = 40")
  case True
  then show ?thesis by (simp add: lzma2_dict_size_def slot_start_def)
next
  case False
  have b: "unat b < 40" using assms False by (simp add: word_le_nat_alt word_unat_eq_iff)
  define q r where "q = unat b div 2" and "r = unat b mod 2"
  have qr: "unat b = 2 * q + r" "r < 2" "q < 20" using b by (auto simp: q_def r_def)
  have "unat (b div 2) = q" by (simp add: unat_div q_def)
  moreover have "(2 OR (ucast b AND 1) :: u32) = 2 + ucast b mod 2"
    by (simp add: and_one_eq disjunctive_add [symmetric] bit_simps)
  moreover have r: "unat (2 + ucast b mod 2 :: u32) = 2 + r"
  proof -
    have "unat (ucast b mod 2 :: u32) = r" by (simp add: unat_mod unat_ucast_up r_def)
    then show ?thesis using qr(2) by (subst unat_add_small) simp_all
  qed
  ultimately have "lzma2_dict_size b = push_bit (q + 11) (2 + ucast b mod 2)"
    using False by (simp add: lzma2_dict_size_def)
  moreover have "(2 + r) * 2 ^ (q + 11) < 2 ^ LENGTH(32)"
  proof -
    have "(2 + r) * 2 ^ (q + 11) < 4 * 2 ^ (q + 11)" using qr(2) by simp
    also have "\<dots> = 2 ^ (q + 13)" by (simp add: power_add)
    also have "\<dots> \<le> 2 ^ LENGTH(32)" using qr(3) by (intro power_increasing) auto
    finally show ?thesis .
  qed
  ultimately have "unat (lzma2_dict_size b) = (2 + r) * 2 ^ (q + 11)"
    using r by (simp add: unat_push_bit_mult)
  moreover have "(unat b + 24) mod 2 = r" "(unat b + 24) div 2 - 1 = q + 11" using qr(1,2) by presburger+
  ultimately show ?thesis using False unfolding slot_start_def by simp
qed

lemma lzma2_dict_byte_slot:
  assumes "in_slot s (unat (max d LZMA_DICT_SIZE_MIN - 1))"
  shows "23 \<le> s" and "s \<le> 63" and "unat (lzma2_dict_byte d) = Suc s - 24"
proof -
  define x where "x = unat (max d LZMA_DICT_SIZE_MIN - 1)"
  have ge: "LZMA_DICT_SIZE_MIN \<le> max d LZMA_DICT_SIZE_MIN" by simp
  then have "4096 \<le> unat (max d LZMA_DICT_SIZE_MIN)" by (simp add: word_le_nat_alt)
  moreover have "max d LZMA_DICT_SIZE_MIN \<noteq> 0" using ge by (auto simp: max_def)
  ultimately have x: "4095 \<le> x" by (simp add: x_def unat_minus_one)
  have x32: "x < 2 ^ 32" unfolding x_def using unsigned_less [of "max d LZMA_DICT_SIZE_MIN - 1", where ?'a = nat] by simp
  have sl: "slot_start s \<le> x" "x < slot_start (Suc s)" using assms by (simp_all add: in_slot_def x_def)
  have "slot_start (Suc s) \<le> slot_start 23" if "s < 23" using that by (intro slot_start_mono) simp
  moreover have "slot_start 23 = 3072" by (simp add: slot_start_def)
  ultimately show s24: "23 \<le> s" using sl(2) x by linarith
  show s63: "s \<le> 63"
  proof (rule ccontr)
    assume "\<not> s \<le> 63"
    then have "slot_start 64 \<le> slot_start s" by (intro slot_start_mono) simp
    moreover have "slot_start 64 = 2 ^ 32" by (simp add: slot_start_def)
    ultimately show False using sl(1) x32 by linarith
  qed
  define d' where "d' = lzma2_round_up (max d LZMA_DICT_SIZE_MIN)"
  have d': "unat d' = slot_start (Suc s) - 1"
    unfolding d'_def by (rule unat_lzma2_round_up [OF assms]) (use s24 in simp)
  have pos: "0 < slot_start (Suc s)" using sl by simp
  show "unat (lzma2_dict_byte d) = Suc s - 24"
  proof (cases "s = 63")
    case True
    then have "unat d' = unat (0xFFFFFFFF :: u32)" by (simp add: d' slot_start_def)
    then have "d' = 0xFFFFFFFF" by (simp only: word_unat_eq_iff)
    then show ?thesis using True by (simp add: lzma2_dict_byte_def Let_def flip: d'_def)
  next
    case False
    then have "slot_start (Suc s) \<le> slot_start 63" using s63 by (intro slot_start_mono) simp
    then have lt: "unat d' + 1 < 2 ^ 32" using d' pos by (simp add: slot_start_def [of 63])
    then have ne: "d' \<noteq> 0xFFFFFFFF" by auto
    have "unat (d' + 1) = slot_start (Suc s)" using lt d' pos by (subst unat_add_small) simp_all
    moreover have "in_slot (Suc s) (slot_start (Suc s))"
      using slot_start_Suc [of "Suc s"] s24 by (simp add: in_slot_def)
    ultimately have "unat (get_dist_slot (d' + 1)) = Suc s"
      using in_slot_unique [OF get_dist_slot_in_slot [of "d' + 1"]] by simp
    then have "unat (get_dist_slot (d' + 1) - 24) = Suc s - 24"
      using s24 by (subst unat_sub) (simp_all add: word_le_nat_alt)
    then show ?thesis
      using ne s63 by (simp add: lzma2_dict_byte_def Let_def unat_ucast_mod flip: d'_def)
  qed
qed

lemma lzma2_dict_byte_range: "lzma2_dict_byte d \<le> 40 \<and> lzma2_dict_byte d AND 0xC0 = 0"
proof -
  obtain s where "in_slot s (unat (max d LZMA_DICT_SIZE_MIN - 1))" using get_dist_slot_in_slot by blast
  from lzma2_dict_byte_slot [OF this] have le: "unat (lzma2_dict_byte d) \<le> 40" by simp
  have "lzma2_dict_byte d AND NOT (mask 6) = 0"
  proof (rule bit_word_eqI)
    fix j :: nat
    have "unat (lzma2_dict_byte d) < 2 ^ j" if "6 \<le> j"
      using le power_increasing [OF that, of "2 :: nat"] by simp
    then have "6 \<le> j \<Longrightarrow> \<not> bit (lzma2_dict_byte d) j" by (simp add: bit_word_odd)
    moreover have "j < 6 \<Longrightarrow> j < LENGTH(8) \<Longrightarrow> \<not> bit (NOT (mask 6) :: byte) j" by (simp add: bit_not_iff bit_mask_iff)
    moreover assume "j < LENGTH(8)"
    ultimately show "bit (lzma2_dict_byte d AND NOT (mask 6)) j = bit 0 j"
      by (cases "j < 6") (simp_all only: bit_and_iff bit_0_eq bot_apply not_less, simp_all)
  qed
  moreover have "(0xC0 :: byte) = NOT (mask 6)" by (simp add: mask_eq_exp_minus_1 word_unat_eq_iff)
  ultimately show ?thesis using le by (simp only: word_le_nat_alt) simp
qed

text \<open>C24. The properties byte that the LZMA2 encoder writes for a dictionary size is accepted by the
  decoder, stands for a dictionary at least as large as the one asked for and at least 4 KiB,
  and no smaller byte does.\<close>

theorem lzma2_dict_byte_least:
  "lzma2_dict_byte d \<le> 40 \<and> max d LZMA_DICT_SIZE_MIN \<le> lzma2_dict_size (lzma2_dict_byte d)
    \<and> (\<forall>b \<le> 40. max d LZMA_DICT_SIZE_MIN \<le> lzma2_dict_size b \<longrightarrow> lzma2_dict_byte d \<le> b)"
proof (intro conjI allI impI)
  obtain s where s: "in_slot s (unat (max d LZMA_DICT_SIZE_MIN - 1))"
    using get_dist_slot_in_slot by blast
  note b = lzma2_dict_byte_slot [OF this]
  define x where "x = unat (max d LZMA_DICT_SIZE_MIN - 1)"
  have "max d LZMA_DICT_SIZE_MIN \<noteq> 0" by (auto simp: max_def)
  then have x: "unat (max d LZMA_DICT_SIZE_MIN) = x + 1" by (simp add: x_def unat_minus_one unat_gt_0 Suc_leI)
  have "unat (max d LZMA_DICT_SIZE_MIN) < 2 ^ LENGTH(32)" by (rule unsigned_less)
  then have x32: "x + 1 < 2 ^ 32" by (simp add: x)
  have sl: "slot_start s \<le> x" "x < slot_start (Suc s)" using s by (simp_all add: in_slot_def x_def)
  show le: "lzma2_dict_byte d \<le> 40" using b by (simp add: word_le_nat_alt)
  show "max d LZMA_DICT_SIZE_MIN \<le> lzma2_dict_size (lzma2_dict_byte d)"
  proof (cases "lzma2_dict_byte d = 40")
    case True
    then show ?thesis using x x32 by (simp add: lzma2_dict_size_def word_le_nat_alt)
  next
    case False
    then have "unat (lzma2_dict_size (lzma2_dict_byte d)) = slot_start (Suc s)"
      using unat_lzma2_dict_size [OF le] b by simp
    then show ?thesis using sl x by (simp add: word_le_nat_alt)
  qed
  fix c :: byte
  assume c: "c \<le> 40" and fits: "max d LZMA_DICT_SIZE_MIN \<le> lzma2_dict_size c"
  then have "x + 1 \<le> slot_start (unat c + 24)"
    using unat_lzma2_dict_size [OF c] x by (simp add: word_le_nat_alt)
  then have "\<not> slot_start (unat c + 24) \<le> slot_start s" using sl by simp
  then have "s < unat c + 24" using slot_start_mono not_less by blast
  then show "lzma2_dict_byte d \<le> c" using b by (simp add: word_le_nat_alt)
qed

theorem lzma2_dict_byte_least_witness:
  "lzma2_dict_byte 100000 \<le> 40 \<and> 100000 \<le> lzma2_dict_size (lzma2_dict_byte 100000) \<and> lzma2_dict_byte 100000 \<le> 10"
proof -
  have "max 100000 LZMA_DICT_SIZE_MIN = 100000" and "(100000 :: u32) \<le> lzma2_dict_size 10" and "(10 :: byte) \<le> 40"
    by code_simp+
  then show ?thesis using lzma2_dict_byte_least [of 100000] by metis
qed

end
