(* ===== verification/Filter_Flags.thy ===== *)
theory Filter_Flags
  imports Lzma2_Dict
begin

text \<open>
  What the functions of Filters guarantee: which chains \<open>validate_chain\<close> accepts, that copying a chain copies it,
  and that Filter Flags survive encoding and decoding. The Filter Flags of a filter are
  specified by \<open>flags_bytes\<close>, on which the headers of Blocks build.
\<close>

subsection \<open>Finding filters\<close>

definition bcj_ids :: "lzma_vli set" where
  "bcj_ids = {LZMA_FILTER_X86, LZMA_FILTER_POWERPC, LZMA_FILTER_IA64, LZMA_FILTER_ARM, LZMA_FILTER_ARMTHUMB, LZMA_FILTER_SPARC}"

definition lzma_ids :: "lzma_vli set" where
  "lzma_ids = {LZMA_FILTER_LZMA1, LZMA_FILTER_LZMA2}"

definition non_last_ids :: "lzma_vli set" where
  "non_last_ids = insert LZMA_FILTER_DELTA bcj_ids"

lemma filter_ids_disjoint: "fid \<in> lzma_ids \<Longrightarrow> fid \<notin> non_last_ids"
  by (auto simp: lzma_ids_def bcj_ids_def non_last_ids_def)

lemma feature_find_cases:
  "feature_find fid =
     (if fid \<in> lzma_ids then Some \<lparr>ft_id = fid, ft_non_last_ok = False, ft_last_ok = True, ft_changes_size = True\<rparr>
      else if fid \<in> non_last_ids
      then Some \<lparr>ft_id = fid, ft_non_last_ok = True, ft_last_ok = False, ft_changes_size = False\<rparr> else None)"
  by (auto simp: feature_find_def features_def lzma_ids_def bcj_ids_def non_last_ids_def)

lemma encoder_find_LZMA [simp]:
  "encoder_find LZMA_FILTER_LZMA1 = Some \<lparr>fe_id = LZMA_FILTER_LZMA1, fe_block_size = None, fe_props_size_get = None,
     fe_props_size_fixed = 5, fe_props_encode = Some lzma_lzma_props_encode\<rparr>"
  "encoder_find LZMA_FILTER_LZMA2 = Some \<lparr>fe_id = LZMA_FILTER_LZMA2, fe_block_size = Some lzma_lzma2_block_size,
     fe_props_size_get = None, fe_props_size_fixed = 1, fe_props_encode = Some lzma_lzma2_props_encode\<rparr>"
  "encoder_find LZMA_FILTER_DELTA = Some \<lparr>fe_id = LZMA_FILTER_DELTA, fe_block_size = None, fe_props_size_get = None,
     fe_props_size_fixed = 1, fe_props_encode = Some (\<lambda>options. lzma_delta_props_encode (opt_delta options))\<rparr>"
  by (simp_all add: encoder_find_def encoders_def simple_filter_encoder_def)

lemma encoder_find_bcj: "fid \<in> bcj_ids \<Longrightarrow> encoder_find fid = Some (simple_filter_encoder fid)"
  by (auto simp: encoder_find_def encoders_def simple_filter_encoder_def bcj_ids_def)

lemma decoder_find_LZMA [simp]:
  "decoder_find LZMA_FILTER_LZMA1 = Some \<lparr>fd_id = LZMA_FILTER_LZMA1, fd_props_decode = Some lzma_lzma_props_decode\<rparr>"
  "decoder_find LZMA_FILTER_LZMA2 = Some \<lparr>fd_id = LZMA_FILTER_LZMA2, fd_props_decode = Some lzma_lzma2_props_decode\<rparr>"
  "decoder_find LZMA_FILTER_DELTA = Some \<lparr>fd_id = LZMA_FILTER_DELTA, fd_props_decode = Some (\<lambda>alloc_ok fresh props props_size.
     let (ret, opt) = lzma_delta_props_decode alloc_ok props props_size in (ret, map_option Opt_delta opt))\<rparr>"
  by (simp_all add: decoder_find_def decoders_def simple_filter_decoder_def)

lemma decoder_find_bcj: "fid \<in> bcj_ids \<Longrightarrow> decoder_find fid = Some (simple_filter_decoder fid)"
  by (auto simp: decoder_find_def decoders_def simple_filter_decoder_def bcj_ids_def)

subsection \<open>Filter chains\<close>

text \<open>The filters of an array, without the terminator and what follows it.\<close>

definition chain_of :: "lzma_filter list \<Rightarrow> lzma_filter list" where
  "chain_of filters = takeWhile (\<lambda>f. filter_id f \<noteq> LZMA_VLI_UNKNOWN) filters"

lemma validate_loop_error: "validate_loop filters i non_last_ok last_ok n = Inl ret \<Longrightarrow> ret = LZMA_OPTIONS_ERROR"
  by (induction filters i non_last_ok last_ok n rule: validate_loop.induct) (auto split: if_splits option.splits)

lemma validate_loop_accepts:
  "validate_loop filters i non_last_ok last_ok n = Inr (j, last_ok', n') \<longleftrightarrow>
     (if chain_of filters = [] then j = i \<and> last_ok' = last_ok \<and> n' = n
      else non_last_ok \<and> (\<forall>f \<in> set (butlast (chain_of filters)). filter_id f \<in> non_last_ids)
        \<and> filter_id (last (chain_of filters)) \<in> lzma_ids \<union> non_last_ids
        \<and> j = i + length (chain_of filters) \<and> last_ok' = (filter_id (last (chain_of filters)) \<in> lzma_ids)
        \<and> n' = n + (if filter_id (last (chain_of filters)) \<in> lzma_ids then 1 else 0))"
proof (induction filters i non_last_ok last_ok n rule: validate_loop.induct)
  case (1 i non_last_ok last_ok n)
  then show ?case by (auto simp: chain_of_def)
next
  case (2 f filters i non_last_ok last_ok n)
  show ?case
  proof (cases "filter_id f = LZMA_VLI_UNKNOWN")
    case True
    then show ?thesis by (auto simp: chain_of_def)
  next
    case False
    then have ch: "chain_of (f # filters) = f # chain_of filters" by (simp add: chain_of_def)
    show ?thesis
    proof (cases "feature_find (filter_id f)")
      case None
      then show ?thesis using False by (auto simp: ch feature_find_cases split: if_splits)
    next
      case (Some ft)
      show ?thesis
      proof (cases non_last_ok)
        case True
        have IH: "validate_loop filters (i + 1) (ft_non_last_ok ft) (ft_last_ok ft) (n + (if ft_changes_size ft then 1 else 0))
            = Inr (j, last_ok', n') \<longleftrightarrow>
          (if chain_of filters = [] then j = i + 1 \<and> last_ok' = ft_last_ok ft \<and> n' = n + (if ft_changes_size ft then 1 else 0)
           else ft_non_last_ok ft \<and> (\<forall>f \<in> set (butlast (chain_of filters)). filter_id f \<in> non_last_ids)
             \<and> filter_id (last (chain_of filters)) \<in> lzma_ids \<union> non_last_ids
             \<and> j = i + 1 + length (chain_of filters) \<and> last_ok' = (filter_id (last (chain_of filters)) \<in> lzma_ids)
             \<and> n' = n + (if ft_changes_size ft then 1 else 0) + (if filter_id (last (chain_of filters)) \<in> lzma_ids then 1 else 0))"
          by (rule 2 [OF False Some]) (simp add: True)
        consider "filter_id f \<in> lzma_ids" "filter_id f \<notin> non_last_ids" "ft_non_last_ok ft = False" "ft_last_ok ft" "ft_changes_size ft"
          | "filter_id f \<in> non_last_ids" "filter_id f \<notin> lzma_ids" "ft_non_last_ok ft" "\<not> ft_last_ok ft" "\<not> ft_changes_size ft"
          using Some filter_ids_disjoint by (auto simp: feature_find_cases split: if_splits)
        then show ?thesis
          by cases (use False Some True IH in \<open>simp_all add: ch\<close>)
      qed (use False Some in \<open>simp add: ch\<close>)
    qed
  qed
qed

text \<open>C25. A chain of filters is accepted exactly when it has one to four filters, every filter before the
  last is Delta or one of the BCJ filters, and the last is LZMA1 or LZMA2; the number it
  returns is the number of filters.\<close>

theorem validate_chain_accepts:
  "validate_chain (Some filters) = (LZMA_OK, Some n) \<longleftrightarrow>
     n = length (chain_of filters) \<and> 1 \<le> n \<and> n \<le> LZMA_FILTERS_MAX
     \<and> (\<forall>f \<in> set (butlast (chain_of filters)). filter_id f \<in> non_last_ids)
     \<and> filter_id (last (chain_of filters)) \<in> lzma_ids"
proof -
  have empty: "filters = [] \<or> filter_id (hd filters) = LZMA_VLI_UNKNOWN \<longleftrightarrow> chain_of filters = []"
    by (cases filters) (auto simp: chain_of_def)
  show ?thesis
  proof (cases "chain_of filters = []")
    case True
    then show ?thesis using empty by (auto simp: validate_chain_def)
  next
    case False
    have "validate_chain (Some filters) = (LZMA_OK, Some n) \<longleftrightarrow>
        (\<exists>last_ok k. validate_loop filters 0 True False 0 = Inr (n, last_ok, k) \<and> n \<le> LZMA_FILTERS_MAX \<and> last_ok \<and> k \<le> 3)"
    proof (cases "validate_loop filters 0 True False 0")
      case (Inl ret)
      then have "ret = LZMA_OPTIONS_ERROR" by (rule validate_loop_error)
      then show ?thesis using False empty Inl by (auto simp: validate_chain_def)
    next
      case (Inr r)
      then show ?thesis using False empty by (cases r) (auto simp: validate_chain_def)
    qed
    also have "\<dots> \<longleftrightarrow> n = length (chain_of filters) \<and> 1 \<le> n \<and> n \<le> LZMA_FILTERS_MAX
     \<and> (\<forall>f \<in> set (butlast (chain_of filters)). filter_id f \<in> non_last_ids)
     \<and> filter_id (last (chain_of filters)) \<in> lzma_ids"
      using False by (auto simp: validate_loop_accepts Suc_le_eq)
    finally show ?thesis .
  qed
qed

theorem validate_chain_accepts_witness:
  "validate_chain (Some [\<lparr>filter_id = LZMA_FILTER_DELTA, filter_options = None\<rparr>, \<lparr>filter_id = LZMA_FILTER_LZMA2, filter_options = None\<rparr>,
     \<lparr>filter_id = LZMA_VLI_UNKNOWN, filter_options = None\<rparr>]) = (LZMA_OK, Some 2)"
  by (rule validate_chain_accepts [THEN iffD2]) (simp add: chain_of_def non_last_ids_def lzma_ids_def)

subsection \<open>Filter Flags\<close>

text \<open>Options that the encoder of the filter accepts, the properties it writes for them, and the options that
  the decoder makes of these. LZMA1 has no Filter Flags: its ID is in the reserved range.\<close>

definition flags_valid :: "lzma_filter \<Rightarrow> bool" where
  "flags_valid f \<longleftrightarrow>
     filter_id f \<in> bcj_ids \<and> (filter_options f = None \<or> (\<exists>start. filter_options f = Some (Opt_bcj start)))
     \<or> filter_id f = LZMA_FILTER_DELTA \<and> (\<exists>opt. filter_options f = Some (Opt_delta opt) \<and> lzma_delta_coder_memusage (Some opt) \<noteq> UINT64_MAX)
     \<or> filter_id f = LZMA_FILTER_LZMA2 \<and> (\<exists>opt. filter_options f = Some (Opt_lzma opt))"

definition flags_props :: "lzma_filter \<Rightarrow> byte list" where
  "flags_props f =
     (case filter_options f of
        None \<Rightarrow> []
      | Some (Opt_bcj start) \<Rightarrow> if start = 0 then [] else le32_bytes start
      | Some (Opt_delta opt) \<Rightarrow> [ucast (delta_dist opt - 1)]
      | Some (Opt_lzma opt) \<Rightarrow> [lzma2_dict_byte (dict_size opt)])"

definition flags_bytes :: "lzma_filter \<Rightarrow> byte list" where
  "flags_bytes f = vli_bytes (unat (filter_id f)) @ vli_bytes (length (flags_props f)) @ flags_props f"

definition flags_canonical :: "lzma_options_lzma \<Rightarrow> lzma_filter \<Rightarrow> lzma_filter" where
  "flags_canonical fresh f = f\<lparr>filter_options :=
     (case filter_options f of
        None \<Rightarrow> None
      | Some (Opt_bcj start) \<Rightarrow> if start = 0 then None else Some (Opt_bcj start)
      | Some (Opt_delta opt) \<Rightarrow> Some (Opt_delta \<lparr>delta_type = LZMA_DELTA_TYPE_BYTE, delta_dist = delta_dist opt\<rparr>)
      | Some (Opt_lzma opt) \<Rightarrow> Some (Opt_lzma (fresh\<lparr>dict_size := lzma2_dict_size (lzma2_dict_byte (dict_size opt)),
          preset_dict_size := 0\<rparr>)))\<rparr>"

lemma flags_valid_cases:
  assumes "flags_valid f"
  obtains (none) "filter_id f \<in> bcj_ids" "filter_options f = None"
  | (bcj) start where "filter_id f \<in> bcj_ids" "filter_options f = Some (Opt_bcj start)"
  | (delta) opt where "filter_id f = LZMA_FILTER_DELTA" "filter_options f = Some (Opt_delta opt)"
      "lzma_delta_coder_memusage (Some opt) \<noteq> UINT64_MAX"
  | (lzma2) opt where "filter_id f = LZMA_FILTER_LZMA2" "filter_options f = Some (Opt_lzma opt)"
  using assms unfolding flags_valid_def by (elim disjE conjE exE) (auto intro: that)

lemma flags_id_small: "flags_valid f \<Longrightarrow> filter_id f < 0x22"
  by (auto simp: flags_valid_def bcj_ids_def)

lemma length_flags_props: "length (flags_props f) \<le> 4"
  by (auto simp: flags_props_def split: option.split lzma_options.split)

lemma flags_vli_bytes:
  assumes "flags_valid f"
  shows "vli_bytes (unat (filter_id f)) = [ucast (filter_id f)]" and "vli_bytes (length (flags_props f)) = [word_of_nat (length (flags_props f))]"
proof -
  have "unat (filter_id f) < 128" using flags_id_small [OF assms] by (simp add: word_less_nat_alt)
  then show "vli_bytes (unat (filter_id f)) = [ucast (filter_id f)]" by (simp add: vli_bytes_small)
  show "vli_bytes (length (flags_props f)) = [word_of_nat (length (flags_props f))]"
    using length_flags_props [of f] by (intro vli_bytes_small) simp
qed

lemma length_flags_bytes: "flags_valid f \<Longrightarrow> length (flags_bytes f) = 2 + length (flags_props f)"
  by (simp add: flags_bytes_def flags_vli_bytes)

lemma properties_size_valid:
  "flags_valid f \<Longrightarrow> lzma_properties_size f = (LZMA_OK, Some (word_of_nat (length (flags_props f))))"
  by (erule flags_valid_cases)
    (auto simp: lzma_properties_size_def flags_props_def encoder_find_bcj simple_filter_encoder_def lzma_simple_props_size_def opt_bcj_def)

lemma properties_encode_valid:
  assumes "flags_valid f" and "length (flags_props f) \<le> length out"
  shows "lzma_properties_encode f out = (LZMA_OK, put_bytes out 0 (flags_props f))"
  using assms
  by (elim flags_valid_cases)
    (auto simp: lzma_properties_encode_def flags_props_def encoder_find_bcj simple_filter_encoder_def lzma_simple_props_encode_def
      opt_bcj_def opt_delta_def opt_lzma_def lzma_delta_props_encode_def lzma_lzma2_props_encode_def put_bytes_single Suc_le_eq)

lemma delta_memusage_dist:
  "lzma_delta_coder_memusage (Some opt) \<noteq> UINT64_MAX \<Longrightarrow> ucast (ucast (delta_dist opt - 1) :: byte) + 1 = delta_dist opt"
proof -
  assume "lzma_delta_coder_memusage (Some opt) \<noteq> UINT64_MAX"
  then have d: "1 \<le> unat (delta_dist opt)" "unat (delta_dist opt) \<le> 256" by (simp_all add: delta_memusage_ok)
  then have "delta_dist opt \<noteq> 0" by auto
  then have "unat (delta_dist opt - 1) = unat (delta_dist opt) - 1" by (rule unat_minus_one)
  moreover have "unat (ucast (ucast (delta_dist opt - 1) :: byte) :: u32) = unat (delta_dist opt - 1) mod 256"
    by (simp add: unat_ucast_up unat_ucast_mod)
  ultimately have "unat (ucast (ucast (delta_dist opt - 1) :: byte) :: u32) = unat (delta_dist opt - 1)" using d by simp
  then have "ucast (ucast (delta_dist opt - 1) :: byte) = delta_dist opt - 1" by (simp only: word_unat_eq_iff)
  then show ?thesis by simp
qed

lemma take_drop_parts:
  assumes "take (length (xs @ ys)) (drop p inb) = xs @ ys"
  shows "take (length xs) (drop p inb) = xs" and "take (length ys) (drop (p + length xs) inb) = ys"
proof -
  have "take (length xs) (take (length (xs @ ys)) (drop p inb)) = take (length xs) (xs @ ys)" by (simp only: assms)
  then show "take (length xs) (drop p inb) = xs" by (simp add: min_def)
  have "drop (length xs) (take (length (xs @ ys)) (drop p inb)) = drop (length xs) (xs @ ys)" by (simp only: assms)
  then show "take (length ys) (drop (p + length xs) inb) = ys" by (simp add: drop_take add.commute)
qed

lemma read32le_bytes:
  assumes "take 4 (drop i buf) = le32_bytes w"
  shows "read32le buf i = w"
proof -
  have len: "i + 4 \<le> length buf" using arg_cong [OF assms, of length] by simp
  have "put_bytes buf i (le32_bytes w) = take i buf @ take 4 (drop i buf) @ drop 4 (drop i buf)"
    by (simp only: put_bytes_def length_le32_bytes assms drop_drop add.commute)
  then have "put_bytes buf i (le32_bytes w) = buf" by (simp only: append_take_drop_id)
  with read32le_put [OF len, of w] show ?thesis by simp
qed

lemma properties_decode_valid:
  assumes "flags_valid f" and "take (length (flags_props f)) props = flags_props f" and "filter_id g = filter_id f"
  shows "lzma_properties_decode True fresh g props (length (flags_props f)) = (LZMA_OK, flags_canonical fresh f)"
proof -
  have p: "props ! 0 = flags_props f ! 0" if "flags_props f \<noteq> []"
    using assms(2) that by (metis length_greater_0_conv nth_take)
  have g: "g\<lparr>filter_options := x\<rparr> = f\<lparr>filter_options := x\<rparr>" for x using assms(3) by simp
  show ?thesis
    using assms(1)
  proof (cases rule: flags_valid_cases)
    case none
    then show ?thesis using g
      by (simp add: lzma_properties_decode_def decoder_find_bcj simple_filter_decoder_def lzma_simple_props_decode_def flags_canonical_def
          flags_props_def assms(3))
  next
    case (bcj start)
    then have "start \<noteq> 0 \<Longrightarrow> read32le props 0 = start"
      using assms(2) by (intro read32le_bytes) (simp add: flags_props_def)
    moreover have "le32_bytes start \<noteq> []" by (simp add: le32_bytes_def)
    ultimately show ?thesis using bcj g
      by (simp add: lzma_properties_decode_def decoder_find_bcj simple_filter_decoder_def lzma_simple_props_decode_def flags_canonical_def
          flags_props_def assms(3))
  next
    case (delta opt)
    then show ?thesis using g p delta_memusage_dist [OF delta(3)]
      by (simp add: lzma_properties_decode_def lzma_delta_props_decode_def flags_canonical_def flags_props_def assms(3))
  next
    case (lzma2 opt)
    have "lzma2_dict_byte (dict_size opt) \<le> 40 \<and> lzma2_dict_byte (dict_size opt) AND 0xC0 = 0" by (rule lzma2_dict_byte_range)
    then show ?thesis using lzma2 g p
      by (simp add: lzma_properties_decode_def lzma_lzma2_props_decode_def flags_canonical_def flags_props_def assms(3) not_less)
  qed
qed

lemma filter_flags_size_valid:
  assumes "flags_valid f"
  shows "lzma_filter_flags_size f = (LZMA_OK, Some (word_of_nat (length (flags_bytes f))))"
proof -
  have id: "filter_id f \<le> LZMA_VLI_MAX" "\<not> filter_id f \<ge> LZMA_FILTER_RESERVED_START"
    using flags_id_small [OF assms] by (auto simp: word_le_nat_alt word_less_nat_alt)
  have n: "unat (ucast (word_of_nat (length (flags_props f)) :: u32) :: u64) = length (flags_props f)"
    using length_flags_props [of f] by (simp add: unat_ucast_up unat_of_nat)
  then have "ucast (word_of_nat (length (flags_props f)) :: u32) \<le> LZMA_VLI_MAX"
    using length_flags_props [of f] by (simp add: word_le_nat_alt)
  then have "lzma_vli_size (ucast (word_of_nat (length (flags_props f)) :: u32)) = 1"
    by (simp add: lzma_vli_size_eq n flags_vli_bytes [OF assms])
  moreover have "lzma_vli_size (filter_id f) = 1"
    using id by (simp add: lzma_vli_size_eq flags_vli_bytes [OF assms])
  ultimately show ?thesis
    using id properties_size_valid [OF assms] length_flags_bytes [OF assms] by (simp add: lzma_filter_flags_size_def)
qed

lemma put_bytes_tail: "p \<le> length out \<Longrightarrow> take p out @ put_bytes (drop p out) 0 bs = put_bytes out p bs"
  by (simp add: put_bytes_def add.commute)

lemma filter_flags_encode_valid:
  assumes "flags_valid f" and "out_pos + length (flags_bytes f) \<le> out_size" and "out_size \<le> length out"
  shows "lzma_filter_flags_encode f out out_pos out_size =
    (LZMA_OK, put_bytes out out_pos (flags_bytes f), out_pos + length (flags_bytes f))"
proof -
  have id: "filter_id f \<le> LZMA_VLI_MAX" "\<not> filter_id f \<ge> LZMA_FILTER_RESERVED_START"
    using flags_id_small [OF assms(1)] by (auto simp: word_le_nat_alt word_less_nat_alt)
  let ?n = "length (flags_props f)"
  define m :: u32 where "m = word_of_nat ?n"
  have m: "unat m = ?n" "unat (ucast m :: u64) = ?n" "(ucast m :: u64) \<le> LZMA_VLI_MAX"
    using length_flags_props [of f] by (simp_all add: m_def unat_ucast_up unat_of_nat word_le_nat_alt)
  note v = flags_vli_bytes [OF assms(1)] and len = length_flags_bytes [OF assms(1)]
  define b1 b2 where "b1 = (ucast (filter_id f) :: byte)" and "b2 = (word_of_nat ?n :: byte)"
  define o1 where "o1 = put_bytes out out_pos [b1]"
  define o2 where "o2 = put_bytes o1 (out_pos + 1) [b2]"
  have o12: "length o1 = length out" "length o2 = length out" using assms len by (simp_all add: o1_def o2_def)
  have e1: "lzma_vli_encode (filter_id f) None out out_pos out_size = (LZMA_OK, 1, o1, out_pos + 1)"
    using lzma_vli_encode_single [OF id(1) assms(3), of out_pos] assms(2) len v by (simp add: o1_def b1_def)
  have e2: "lzma_vli_encode (ucast m) None o1 (out_pos + 1) out_size = (LZMA_OK, 1, o2, out_pos + 2)"
    using lzma_vli_encode_single [OF m(3), of out_size o1 "out_pos + 1"] assms(2,3) len v o12 by (simp add: o2_def b2_def m(2))
  have e3: "lzma_properties_encode f (drop (out_pos + 2) o2) = (LZMA_OK, put_bytes (drop (out_pos + 2) o2) 0 (flags_props f))"
    by (rule properties_encode_valid [OF assms(1)]) (use assms len o12 in simp)
  have "lzma_filter_flags_encode f out out_pos out_size =
      (LZMA_OK, put_bytes o2 (out_pos + 2) (flags_props f), out_pos + 2 + ?n)"
    using id e1 e2 e3 properties_size_valid [OF assms(1)] assms len o12 m(1) put_bytes_tail [of "out_pos + 2" o2]
    by (simp add: lzma_filter_flags_encode_def flip: m_def)
  moreover have "put_bytes o2 (out_pos + 2) (flags_props f) = put_bytes out out_pos (flags_bytes f)"
  proof -
    have "o2 = put_bytes out out_pos ([b1] @ [b2])"
      unfolding o2_def o1_def using put_bytes_append [of out_pos "[b1]" out "[b2]"] assms len by simp
    then show ?thesis
      using put_bytes_append [of out_pos "[b1, b2]" out "flags_props f"] assms len
      by (simp add: flags_bytes_def v b1_def b2_def)
  qed
  ultimately show ?thesis by (simp add: len)
qed

lemma filter_flags_decode_valid:
  assumes "flags_valid f" and "take (length (flags_bytes f)) (drop in_pos inb) = flags_bytes f"
    and "in_pos + length (flags_bytes f) \<le> in_size" and "in_size \<le> length inb"
  shows "lzma_filter_flags_decode True fresh g inb in_pos in_size = (LZMA_OK, flags_canonical fresh f, in_pos + length (flags_bytes f))"
proof -
  have id: "filter_id f \<le> LZMA_VLI_MAX" "\<not> filter_id f \<ge> LZMA_FILTER_RESERVED_START"
    using flags_id_small [OF assms(1)] by (auto simp: word_le_nat_alt word_less_nat_alt)
  let ?n = "length (flags_props f)"
  define m :: u64 where "m = word_of_nat ?n"
  have m: "unat m = ?n" "m \<le> LZMA_VLI_MAX"
    using length_flags_props [of f] by (simp_all add: m_def unat_of_nat word_le_nat_alt)
  note v = flags_vli_bytes [OF assms(1)] and len = length_flags_bytes [OF assms(1)]
  define b1 b2 where "b1 = (ucast (filter_id f) :: byte)" and "b2 = (word_of_nat ?n :: byte)"
  have bs: "flags_bytes f = b1 # b2 # flags_props f" by (simp add: flags_bytes_def v b1_def b2_def)
  have parts: "take 1 (drop in_pos inb) = [b1]" "take 1 (drop (in_pos + 1) inb) = [b2]"
    "take ?n (drop (in_pos + 2) inb) = flags_props f"
    using take_drop_parts [of "[b1]" "b2 # flags_props f" in_pos inb] take_drop_parts [of "[b2]" "flags_props f" "in_pos + 1" inb]
      assms(2) unfolding bs by (simp_all add: numeral_2_eq_2)
  have d1: "lzma_vli_decode x None inb in_pos in_size = (LZMA_OK, filter_id f, 1, in_pos + 1)" for x
    using lzma_vli_decode_single_accepts [OF id(1) assms(4), of in_pos x] assms(3) parts(1) len v by (simp add: b1_def)
  have d2: "lzma_vli_decode 0 None inb (in_pos + 1) in_size = (LZMA_OK, m, 1, in_pos + 2)"
    using lzma_vli_decode_single_accepts [OF m(2) assms(4), of "in_pos + 1" 0] assms(3) parts(2) len v m(1) by (simp add: b2_def)
  have d3: "lzma_properties_decode True fresh h (drop (in_pos + 2) inb) ?n = (LZMA_OK, flags_canonical fresh f)"
    if "filter_id h = filter_id f" for h
    by (rule properties_decode_valid [OF assms(1) parts(3) that])
  show ?thesis
    using d1 d2 d3 id assms(3) len m(1) by (simp add: lzma_filter_flags_decode_def Let_def)
qed

text \<open>C26. The Filter Flags of every filter with valid options fit in exactly the number of bytes
  that \<open>lzma_filter_flags_size\<close> announces, and decoding them gives the Filter ID and the
  options back: the Delta distance, the start offset of a BCJ filter (none for zero), and for
  LZMA2 the dictionary size rounded up.\<close>

theorem filter_flags_roundtrip:
  assumes "flags_valid f" and "lzma_filter_flags_size f = (LZMA_OK, Some flags_size)"
    and "out_pos + unat flags_size \<le> out_size" and "out_size \<le> length out"
    and "lzma_filter_flags_encode f out out_pos out_size = (ret, out', out_pos')"
  shows "ret = LZMA_OK \<and> out_pos' = out_pos + unat flags_size
    \<and> lzma_filter_flags_decode True fresh g out' out_pos out_size = (LZMA_OK, flags_canonical fresh f, out_pos')"
proof -
  have len: "length (flags_bytes f) \<le> 6" using length_flags_bytes [OF assms(1)] length_flags_props [of f] by simp
  have "flags_size = word_of_nat (length (flags_bytes f))"
    using assms(2) filter_flags_size_valid [OF assms(1)] by simp
  then have n: "unat flags_size = length (flags_bytes f)" using len by (simp add: unat_of_nat)
  have fits: "out_pos + length (flags_bytes f) \<le> out_size" using assms(3) n by simp
  have enc: "ret = LZMA_OK" "out' = put_bytes out out_pos (flags_bytes f)" "out_pos' = out_pos + length (flags_bytes f)"
    using filter_flags_encode_valid [OF assms(1) fits assms(4)] assms(5) by simp_all
  have "take (length (flags_bytes f)) (drop out_pos out') = flags_bytes f"
    using fits assms(4) by (simp add: enc)
  moreover have "out_size \<le> length out'" using fits assms(4) by (simp add: enc)
  ultimately show ?thesis
    using filter_flags_decode_valid [OF assms(1) _ fits] enc n by simp
qed

theorem filter_flags_roundtrip_witness:
  "\<forall>fresh g. lzma_filter_flags_decode True fresh g [9, 3, 1, 255, 7] 1 5
     = (LZMA_OK, \<lparr>filter_id = LZMA_FILTER_DELTA, filter_options = Some (Opt_delta \<lparr>delta_type = 0, delta_dist = 256\<rparr>)\<rparr>, 4)"
proof (intro allI)
  fix fresh g
  let ?f = "\<lparr>filter_id = LZMA_FILTER_DELTA, filter_options = Some (Opt_delta \<lparr>delta_type = 0, delta_dist = 256\<rparr>)\<rparr>"
  have v: "flags_valid ?f" by (simp add: flags_valid_def lzma_delta_coder_memusage_def)
  have e: "lzma_filter_flags_size ?f = (LZMA_OK, Some 3)"
    "lzma_filter_flags_encode ?f [9, 9, 9, 9, 7] 1 5 = (LZMA_OK, [9, 3, 1, 255, 7], 4)" by code_simp+
  from filter_flags_roundtrip [OF v e(1) _ _ e(2)]
  show "lzma_filter_flags_decode True fresh g [9, 3, 1, 255, 7] 1 5
     = (LZMA_OK, \<lparr>filter_id = LZMA_FILTER_DELTA, filter_options = Some (Opt_delta \<lparr>delta_type = 0, delta_dist = 256\<rparr>)\<rparr>, 4)"
    by (simp add: flags_canonical_def)
qed

subsection \<open>LZMA1 properties\<close>

lemma unat_lclppb:
  assumes "is_lclppb_valid opt"
  shows "unat (ucast ((pb opt * 5 + lp opt) * 9 + lc opt) :: byte) = (unat (pb opt) * 5 + unat (lp opt)) * 9 + unat (lc opt)"
    and "unat (pb opt) \<le> 4" "unat (lp opt) \<le> 4" "unat (lc opt) \<le> 4" "unat (lc opt) + unat (lp opt) \<le> 4"
proof -
  show b: "unat (pb opt) \<le> 4" "unat (lp opt) \<le> 4" "unat (lc opt) \<le> 4"
    using assms by (simp_all add: is_lclppb_valid_def word_le_nat_alt)
  then have "unat (lc opt + lp opt) = unat (lc opt) + unat (lp opt)" by (intro unat_add_small) simp
  then show "unat (lc opt) + unat (lp opt) \<le> 4" using assms by (simp add: is_lclppb_valid_def word_le_nat_alt)
  have "unat ((pb opt * 5 + lp opt) * 9 + lc opt) = ((unat (pb opt) * 5 + unat (lp opt)) * 9 + unat (lc opt)) mod 2 ^ 32"
    by (simp add: unat_word_ariths mod_simps)
  then show "unat (ucast ((pb opt * 5 + lp opt) * 9 + lc opt) :: byte) = (unat (pb opt) * 5 + unat (lp opt)) * 9 + unat (lc opt)"
    using b by (simp add: unat_ucast_mod)
qed

lemma lclppb_decode_nat:
  assumes "unat b \<le> 224"
  shows "lzma_lzma_lclppb_decode opt b =
    (4 < unat b mod 9 + unat b mod 45 div 9,
     opt\<lparr>pb := word_of_nat (unat b div 45), lp := word_of_nat (unat b mod 45 div 9), lc := word_of_nat (unat b mod 9)\<rparr>)"
proof -
  let ?n = "unat b"
  have small: "unat (word_of_nat k :: u32) = k" if "k \<le> 224" for k using that by (simp add: unat_of_nat)
  have pb: "(ucast (b div 45) :: u32) = word_of_nat (?n div 45)"
    by (simp add: word_unat_eq_iff unat_ucast_up unat_div small assms order.trans [OF div_le_dividend])
  have sub: "(ucast b :: u32) - word_of_nat (?n div 45) * 45 = word_of_nat (?n mod 45)"
  proof -
    have "(word_of_nat (?n mod 45) :: u32) + word_of_nat (?n div 45) * 45 = word_of_nat (?n mod 45 + ?n div 45 * 45)"
      by (simp only: of_nat_add of_nat_mult of_nat_numeral)
    also have "\<dots> = word_of_nat ?n" by (simp only: mod_div_mult_eq)
    also have "\<dots> = ucast b" by (simp add: word_unat_eq_iff unat_ucast_up small assms)
    finally show ?thesis by (simp only: diff_eq_eq)
  qed
  define c :: byte where "c = ucast (word_of_nat (?n mod 45) :: u32)"
  have c: "unat c = ?n mod 45" by (simp add: c_def unat_ucast_mod unat_of_nat mod_less [OF less_trans [OF mod_less_divisor]])
  have lp: "(ucast (c div 9) :: u32) = word_of_nat (?n mod 45 div 9)"
    by (simp add: word_unat_eq_iff unat_ucast_up unat_div c small assms order.trans [OF div_le_dividend] order.trans [OF mod_less_eq_dividend])
  have lc: "(ucast c :: u32) - word_of_nat (?n mod 45 div 9) * 9 = word_of_nat (?n mod 9)"
  proof -
    have "?n mod 9 = ?n mod 45 mod 9" by (simp add: mod_mod_cancel)
    then have "(word_of_nat (?n mod 9) :: u32) + word_of_nat (?n mod 45 div 9) * 9 = word_of_nat (?n mod 45 mod 9 + ?n mod 45 div 9 * 9)"
      by (simp only: of_nat_add of_nat_mult of_nat_numeral)
    also have "\<dots> = word_of_nat (?n mod 45)" by (simp only: mod_div_mult_eq)
    also have "\<dots> = ucast c" using small [of "?n mod 45"] by (simp add: word_unat_eq_iff unat_ucast_up c order.trans [OF mod_less_eq_dividend assms])
    finally show ?thesis by (simp only: diff_eq_eq)
  qed
  have "\<not> b > 224" using assms by (simp add: word_less_nat_alt)
  moreover have "(word_of_nat (?n mod 9) + word_of_nat (?n mod 45 div 9) > LZMA_LCLP_MAX) = (4 < ?n mod 9 + ?n mod 45 div 9)"
  proof -
    have "?n mod 9 < 9" "?n mod 45 div 9 < 5" by (simp_all add: div_less_iff_less_mult)
    then have "unat (word_of_nat (?n mod 9 + ?n mod 45 div 9) :: u32) = ?n mod 9 + ?n mod 45 div 9" by (intro small) simp
    then show ?thesis by (simp add: word_less_nat_alt)
  qed
  moreover have k: "(9 * 5 :: byte) = 45" "((4 * 5 + 4) * 9 + 8 :: byte) = 224" "\<And>x :: u32. x * 9 * 5 = x * 45" by simp_all
  ultimately show ?thesis
    unfolding lzma_lzma_lclppb_decode_def k Let_def pb sub c_def [symmetric] lp lc by (simp only: if_False)
qed

lemma lclppb_inverse:
  "lzma_lzma_lclppb_decode fresh b = (False, opt) \<longleftrightarrow>
     lzma_lzma_lclppb_encode opt = Some b \<and> opt = fresh\<lparr>pb := pb opt, lp := lp opt, lc := lc opt\<rparr>"
proof
  let ?n = "unat b"
  assume dec: "lzma_lzma_lclppb_decode fresh b = (False, opt)"
  have n: "?n \<le> 224"
    using dec by (auto simp: lzma_lzma_lclppb_decode_def word_less_nat_alt split: if_splits)
  have opt: "opt = fresh\<lparr>pb := word_of_nat (?n div 45), lp := word_of_nat (?n mod 45 div 9), lc := word_of_nat (?n mod 9)\<rparr>"
    and le: "?n mod 9 + ?n mod 45 div 9 \<le> 4"
    using dec lclppb_decode_nat [OF n, of fresh] by (simp_all add: not_less)
  have pb4: "?n div 45 \<le> 4" using n by simp
  have u: "unat (pb opt) = ?n div 45" "unat (lp opt) = ?n mod 45 div 9" "unat (lc opt) = ?n mod 9"
    using le pb4 by (simp_all add: opt unat_of_nat)
  have v: "is_lclppb_valid opt"
  proof -
    have "unat (lc opt + lp opt) = unat (lc opt) + unat (lp opt)" using u le by (intro unat_add_small) simp
    then show ?thesis using u le pb4 by (simp add: is_lclppb_valid_def word_le_nat_alt)
  qed
  have "(?n div 45 * 5 + ?n mod 45 div 9) * 9 + ?n mod 9 = ?n"
  proof -
    have "?n mod 45 mod 9 = ?n mod 9" by (rule mod_mod_cancel) simp
    then have "(?n div 45 * 5 + ?n mod 45 div 9) * 9 + ?n mod 9 = ?n div 45 * 45 + (?n mod 45 div 9 * 9 + ?n mod 45 mod 9)"
      by (simp only: add_mult_distrib mult.assoc add.assoc)
    then show ?thesis by (simp only: div_mult_mod_eq)
  qed
  then have "ucast ((pb opt * 5 + lp opt) * 9 + lc opt) = b"
    using unat_lclppb(1) [OF v] u by (simp only: word_unat_eq_iff)
  then show "lzma_lzma_lclppb_encode opt = Some b \<and> opt = fresh\<lparr>pb := pb opt, lp := lp opt, lc := lc opt\<rparr>"
    using v opt by (simp add: lzma_lzma_lclppb_encode_def)
next
  assume enc: "lzma_lzma_lclppb_encode opt = Some b \<and> opt = fresh\<lparr>pb := pb opt, lp := lp opt, lc := lc opt\<rparr>"
  then have v: "is_lclppb_valid opt" and b: "b = ucast ((pb opt * 5 + lp opt) * 9 + lc opt)"
    by (auto simp: lzma_lzma_lclppb_encode_def split: if_splits)
  note n = unat_lclppb [OF v, folded b]
  let ?p = "unat (pb opt)" and ?l = "unat (lp opt)" and ?c = "unat (lc opt)"
  have 1: "unat b = ?p * 45 + (?l * 9 + ?c)" using n(1) by simp
  have "unat b div 45 = ?p" "unat b mod 45 = ?l * 9 + ?c" using n(3,4) unfolding 1 by simp_all
  moreover from this have "unat b mod 45 div 9 = ?l" using n(4) by simp
  moreover have "unat b mod 9 = ?c"
  proof -
    have "unat b mod 9 = ((?p * 5 + ?l) * 9 + ?c) mod 9" by (simp only: n(1))
    also have "\<dots> = ?c mod 9" by (rule mod_mult_self3)
    also have "\<dots> = ?c" by (rule mod_less) (use n(4) in simp)
    finally show ?thesis .
  qed
  moreover have "unat b \<le> 224" using n(2-5) unfolding 1 by simp
  ultimately show "lzma_lzma_lclppb_decode fresh b = (False, opt)"
    using enc n(5) by (simp add: lclppb_decode_nat)
qed

text \<open>C27. Five bytes are decoded as LZMA1 properties exactly when they are what the encoder writes for
  the options they are decoded to: the two functions are inverse, and every other byte
  sequence is rejected. The members that the properties do not store keep their
  values.\<close>

theorem lzma_props_decode_iff:
  assumes "length props = 5"
  shows "lzma_lzma_props_decode True fresh props 5 = (LZMA_OK, Some (Opt_lzma opt)) \<longleftrightarrow>
    lzma_lzma_props_encode (Some (Opt_lzma opt)) (replicate 5 0) = (LZMA_OK, props)
    \<and> opt = fresh\<lparr>dict_size := dict_size opt, preset_dict_size := 0, pb := pb opt, lp := lp opt, lc := lc opt\<rparr>"
proof -
  obtain a b c d e where props: "props = [a, b, c, d, e]"
    using assms by (auto simp: length_Suc_conv numeral_eq_Suc)
  have r: "read32le props 1 = w \<longleftrightarrow> le32_bytes w = [b, c, d, e]" for w
    using le32_bytes_read32le [of 1 props] read32le_bytes [of 1 props w] by (auto simp: props)
  have enc: "lzma_lzma_props_encode (Some (Opt_lzma opt)) (replicate 5 0) = (LZMA_OK, props) \<longleftrightarrow>
      lzma_lzma_lclppb_encode opt = Some a \<and> read32le props 1 = dict_size opt"
    unfolding r by (auto simp: lzma_lzma_props_encode_def opt_lzma_def put_bytes_def props numeral_eq_Suc split: option.splits)
  show ?thesis
  proof
    assume "lzma_lzma_props_decode True fresh props 5 = (LZMA_OK, Some (Opt_lzma opt))"
    then obtain o1 where o1: "lzma_lzma_lclppb_decode fresh a = (False, o1)"
        "opt = o1\<lparr>dict_size := read32le props 1, preset_dict_size := 0\<rparr>"
      by (auto simp: lzma_lzma_props_decode_def props split: prod.splits if_splits)
    then show "lzma_lzma_props_encode (Some (Opt_lzma opt)) (replicate 5 0) = (LZMA_OK, props)
        \<and> opt = fresh\<lparr>dict_size := dict_size opt, preset_dict_size := 0, pb := pb opt, lp := lp opt, lc := lc opt\<rparr>"
      unfolding enc lclppb_inverse by (cases o1) (auto simp: lzma_lzma_lclppb_encode_def is_lclppb_valid_def split: if_splits)
  next
    assume a: "lzma_lzma_props_encode (Some (Opt_lzma opt)) (replicate 5 0) = (LZMA_OK, props)
        \<and> opt = fresh\<lparr>dict_size := dict_size opt, preset_dict_size := 0, pb := pb opt, lp := lp opt, lc := lc opt\<rparr>"
    define o1 where "o1 = fresh\<lparr>pb := pb opt, lp := lp opt, lc := lc opt\<rparr>"
    have "lzma_lzma_lclppb_decode fresh a = (False, o1)"
      unfolding lclppb_inverse using a [unfolded enc] by (auto simp: o1_def lzma_lzma_lclppb_encode_def is_lclppb_valid_def split: if_splits)
    then show "lzma_lzma_props_decode True fresh props 5 = (LZMA_OK, Some (Opt_lzma opt))"
      using a [unfolded enc] by (cases opt) (auto simp: lzma_lzma_props_decode_def props o1_def)
  qed
qed

theorem lzma_props_decode_iff_witness:
  "lzma_lzma_props_decode True \<lparr>dict_size = 0, preset_dict_size = 9, lc = 0, lp = 0, pb = 0, lzma_mode = 0, nice_len = 0, lzma_mf = 0,
       lzma_depth = 0\<rparr> [93, 0, 0, 128, 0] 5
   = (LZMA_OK, Some (Opt_lzma \<lparr>dict_size = 0x800000, preset_dict_size = 0, lc = 3, lp = 0, pb = 2, lzma_mode = 0, nice_len = 0,
       lzma_mf = 0, lzma_depth = 0\<rparr>))"
proof -
  let ?o = "\<lparr>dict_size = 0x800000, preset_dict_size = 0, lc = 3, lp = 0, pb = 2, lzma_mode = 0, nice_len = 0, lzma_mf = 0, lzma_depth = 0\<rparr>"
  have "lzma_lzma_props_encode (Some (Opt_lzma ?o)) (replicate 5 0) = (LZMA_OK, [93, 0, 0, 128, 0])" by code_simp
  then show ?thesis by (intro lzma_props_decode_iff [THEN iffD2]) simp_all
qed

end
