(* ===== verification/Block.thy ===== *)
theory Block
  imports Filter_Flags Check Crc
begin

text \<open>
  Blocks: the sizes of src/liblzma/src/liblzma/common/index.h and block\_util.c, and the Block Header of
  block\_header\_encoder.c and block\_header\_decoder.c, with \<open>lzma_block\<close> of api/lzma/block.h.

  The header is specified by \<open>block_header_bytes\<close>; the encoder writes it and the decoder reads it back.
  \<open>alloc_ok i\<close> tells whether the allocation for the options of filter \<open>i\<close> succeeds, and \<open>fresh\<close> is
  the content of new memory.
\<close>

subsection \<open>index.h\<close>

abbreviation (input) UNPADDED_SIZE_MIN :: lzma_vli where "UNPADDED_SIZE_MIN \<equiv> 5"

definition UNPADDED_SIZE_MAX :: lzma_vli where
  "UNPADDED_SIZE_MAX = LZMA_VLI_MAX AND NOT 3"

definition vli_ceil4 :: "lzma_vli \<Rightarrow> lzma_vli" where
  "vli_ceil4 vli = (vli + 3) AND NOT 3"

definition index_size_unpadded :: "lzma_vli \<Rightarrow> lzma_vli \<Rightarrow> lzma_vli" where
  "index_size_unpadded count index_list_size = 1 + ucast (lzma_vli_size count) + index_list_size + 4"

definition index_size :: "lzma_vli \<Rightarrow> lzma_vli \<Rightarrow> lzma_vli" where
  "index_size count index_list_size = vli_ceil4 (index_size_unpadded count index_list_size)"

definition index_stream_size :: "lzma_vli \<Rightarrow> lzma_vli \<Rightarrow> lzma_vli \<Rightarrow> lzma_vli" where
  "index_stream_size blocks_size count index_list_size = 12 + blocks_size + index_size count index_list_size + 12"

subsection \<open>api/lzma/block.h\<close>

record lzma_block =
  blk_version :: u32
  blk_header_size :: u32
  blk_check :: lzma_check
  blk_compressed_size :: lzma_vli
  blk_uncompressed_size :: lzma_vli
  blk_filters :: "lzma_filter list option"
  blk_ignore_check :: bool

definition lzma_block_header_size_decode :: "byte \<Rightarrow> u32" where
  "lzma_block_header_size_decode b = (ucast b + 1) * 4"

subsection \<open>block\_util.c\<close>

definition lzma_block_unpadded_size :: "lzma_block option \<Rightarrow> lzma_vli" where
  "lzma_block_unpadded_size block =
     (case block of None \<Rightarrow> 0
      | Some block \<Rightarrow>
          if blk_version block > 1 \<or> blk_header_size block < 8 \<or> blk_header_size block > 1024
             \<or> blk_header_size block AND 3 \<noteq> 0 \<or> \<not> lzma_vli_is_valid (blk_compressed_size block)
             \<or> blk_compressed_size block = 0 \<or> blk_check block > LZMA_CHECK_ID_MAX
          then 0
          else if blk_compressed_size block = LZMA_VLI_UNKNOWN then LZMA_VLI_UNKNOWN
          else let unpadded_size = blk_compressed_size block + ucast (blk_header_size block) + ucast (lzma_check_size (blk_check block))
               in if unpadded_size > UNPADDED_SIZE_MAX then 0 else unpadded_size)"

definition lzma_block_compressed_size :: "lzma_block \<Rightarrow> lzma_vli \<Rightarrow> lzma_ret \<times> lzma_block" where
  "lzma_block_compressed_size block unpadded_size =
     (if lzma_block_unpadded_size (Some block) = 0 then (LZMA_PROG_ERROR, block)
      else
        let container_size = blk_header_size block + lzma_check_size (blk_check block)
        in if unpadded_size \<le> ucast container_size then (LZMA_DATA_ERROR, block)
           else
             let compressed_size = unpadded_size - ucast container_size
             in if blk_compressed_size block \<noteq> LZMA_VLI_UNKNOWN \<and> blk_compressed_size block \<noteq> compressed_size
                then (LZMA_DATA_ERROR, block)
                else (LZMA_OK, block\<lparr>blk_compressed_size := compressed_size\<rparr>))"

definition lzma_block_total_size :: "lzma_block option \<Rightarrow> lzma_vli" where
  "lzma_block_total_size block =
     (let unpadded_size = lzma_block_unpadded_size block
      in if unpadded_size \<noteq> LZMA_VLI_UNKNOWN then vli_ceil4 unpadded_size else unpadded_size)"

subsection \<open>block\_header\_encoder.c\<close>

text \<open>\<open>Inl\<close> is the code the function returns.\<close>

fun block_filters_size :: "lzma_filter list \<Rightarrow> nat \<Rightarrow> u32 \<Rightarrow> lzma_ret + u32" where
  "block_filters_size [] i sz = Inr sz"
| "block_filters_size (f # filters) i sz =
     (if filter_id f = LZMA_VLI_UNKNOWN then Inr sz
      else if i = LZMA_FILTERS_MAX then Inl LZMA_PROG_ERROR
      else let (ret, add) = lzma_filter_flags_size f
           in if ret \<noteq> LZMA_OK then Inl ret else block_filters_size filters (i + 1) (sz + the add))"

definition lzma_block_header_size :: "lzma_block \<Rightarrow> lzma_ret \<times> lzma_block" where
  "lzma_block_header_size block =
     (if blk_version block > 1 then (LZMA_OPTIONS_ERROR, block)
      else
        let sz = 1 + 1 + 4;
            compressed = blk_compressed_size block \<noteq> LZMA_VLI_UNKNOWN;
            uncompressed = blk_uncompressed_size block \<noteq> LZMA_VLI_UNKNOWN
        in if compressed \<and> (lzma_vli_size (blk_compressed_size block) = 0 \<or> blk_compressed_size block = 0)
           then (LZMA_PROG_ERROR, block)
           else if uncompressed \<and> lzma_vli_size (blk_uncompressed_size block) = 0 then (LZMA_PROG_ERROR, block)
           else
             let sz = sz + (if compressed then lzma_vli_size (blk_compressed_size block) else 0);
                 sz = sz + (if uncompressed then lzma_vli_size (blk_uncompressed_size block) else 0)
             in case blk_filters block of
                  None \<Rightarrow> (LZMA_PROG_ERROR, block)
                | Some filters \<Rightarrow>
                    if chain_of filters = [] then (LZMA_PROG_ERROR, block)
                    else (case block_filters_size filters 0 sz of
                            Inl ret \<Rightarrow> (ret, block)
                          | Inr sz \<Rightarrow> (LZMA_OK, block\<lparr>blk_header_size := (sz + 3) AND NOT 3\<rparr>)))"

text \<open>Compressed Size and Uncompressed Size are stored the same way: the integer if it is
  known, and its flag.\<close>

definition block_encode_size :: "lzma_vli \<Rightarrow> byte \<Rightarrow> byte list \<Rightarrow> nat \<Rightarrow> nat \<Rightarrow> lzma_ret \<times> byte list \<times> nat" where
  "block_encode_size vli flag out out_pos out_size =
     (if vli \<noteq> LZMA_VLI_UNKNOWN then
        let (ret, _, out, out_pos) = lzma_vli_encode vli None out out_pos out_size
        in if ret \<noteq> LZMA_OK then (ret, out, out_pos) else (LZMA_OK, out[1 := out ! 1 OR flag], out_pos)
      else (LZMA_OK, out, out_pos))"

fun block_encode_filters :: "lzma_filter list \<Rightarrow> nat \<Rightarrow> byte list \<Rightarrow> nat \<Rightarrow> nat \<Rightarrow> lzma_ret \<times> nat \<times> byte list \<times> nat" where
  "block_encode_filters [] filter_count out out_pos out_size = (LZMA_OK, filter_count, out, out_pos)"
| "block_encode_filters (f # filters) filter_count out out_pos out_size =
     (if filter_id f = LZMA_VLI_UNKNOWN then (LZMA_OK, filter_count, out, out_pos)
      else if filter_count = LZMA_FILTERS_MAX then (LZMA_PROG_ERROR, filter_count, out, out_pos)
      else let (ret, out, out_pos) = lzma_filter_flags_encode f out out_pos out_size
           in if ret \<noteq> LZMA_OK then (ret, filter_count, out, out_pos)
              else block_encode_filters filters (filter_count + 1) out out_pos out_size)"

definition lzma_block_header_encode :: "lzma_block \<Rightarrow> byte list \<Rightarrow> lzma_ret \<times> byte list" where
  "lzma_block_header_encode block out =
     (if lzma_block_unpadded_size (Some block) = 0 \<or> \<not> lzma_vli_is_valid (blk_uncompressed_size block)
      then (LZMA_PROG_ERROR, out)
      else
        let out_size = unat (blk_header_size block - 4);
            out = out[0 := word_of_nat (out_size div 4), 1 := 0x00];
            (ret, out, out_pos) = block_encode_size (blk_compressed_size block) 0x40 out 2 out_size
        in if ret \<noteq> LZMA_OK then (ret, out)
           else
             let (ret, out, out_pos) = block_encode_size (blk_uncompressed_size block) 0x80 out out_pos out_size
             in if ret \<noteq> LZMA_OK then (ret, out)
                else case blk_filters block of
                  None \<Rightarrow> (LZMA_PROG_ERROR, out)
                | Some filters \<Rightarrow>
                    if chain_of filters = [] then (LZMA_PROG_ERROR, out)
                    else
                      let (ret, filter_count, out, out_pos) = block_encode_filters filters 0 out out_pos out_size
                      in if ret \<noteq> LZMA_OK then (ret, out)
                         else
                           let out = out[1 := out ! 1 OR word_of_nat (filter_count - 1)];
                               out = put_bytes out out_pos (replicate (out_size - out_pos) 0)
                           in (LZMA_OK, put_bytes out out_size (le32_bytes (lzma_crc32 (take out_size out) 0))))"

subsection \<open>block\_header\_decoder.c\<close>

abbreviation (input) no_filter :: lzma_filter where
  "no_filter \<equiv> \<lparr>filter_id = LZMA_VLI_UNKNOWN, filter_options = None\<rparr>"

definition free_properties :: "lzma_block \<Rightarrow> lzma_block" where
  "free_properties block = block\<lparr>blk_filters := Some (replicate LZMA_FILTERS_MAX no_filter @ drop LZMA_FILTERS_MAX (the (blk_filters block)))\<rparr>"

fun block_decode_filters ::
  "(nat \<Rightarrow> bool) \<Rightarrow> lzma_options_lzma \<Rightarrow> nat list \<Rightarrow> lzma_filter list \<Rightarrow> byte list \<Rightarrow> nat \<Rightarrow> nat \<Rightarrow> lzma_ret \<times> lzma_filter list \<times> nat" where
  "block_decode_filters alloc_ok fresh [] filters inb in_pos in_size = (LZMA_OK, filters, in_pos)"
| "block_decode_filters alloc_ok fresh (i # is) filters inb in_pos in_size =
     (let (ret, f, in_pos) = lzma_filter_flags_decode (alloc_ok i) fresh (filters ! i) inb in_pos in_size;
          filters = filters[i := f]
      in if ret \<noteq> LZMA_OK then (ret, filters, in_pos)
         else block_decode_filters alloc_ok fresh is filters inb in_pos in_size)"

function block_padding_zero :: "byte list \<Rightarrow> nat \<Rightarrow> nat \<Rightarrow> bool" where
  "block_padding_zero inb in_pos in_size =
     (if in_pos < in_size then (if inb ! in_pos \<noteq> 0x00 then False else block_padding_zero inb (in_pos + 1) in_size)
      else True)"
  by pat_completeness auto
termination
  by (relation "measure (\<lambda>(inb, in_pos, in_size). in_size - in_pos)") auto

declare block_padding_zero.simps [simp del]

definition block_decode_sizes :: "lzma_block \<Rightarrow> byte list \<Rightarrow> nat \<Rightarrow> lzma_ret \<times> lzma_block \<times> nat" where
  "block_decode_sizes block inb in_size =
     (let (ret, block, in_pos) =
            (if inb ! 1 AND 0x40 \<noteq> 0 then
               let (ret, vli, _, in_pos) = lzma_vli_decode (blk_compressed_size block) None inb 2 in_size;
                   block = block\<lparr>blk_compressed_size := vli\<rparr>
               in if ret \<noteq> LZMA_OK then (ret, block, in_pos)
                  else if lzma_block_unpadded_size (Some block) = 0 then (LZMA_DATA_ERROR, block, in_pos)
                  else (LZMA_OK, block, in_pos)
             else (LZMA_OK, block\<lparr>blk_compressed_size := LZMA_VLI_UNKNOWN\<rparr>, 2))
      in if ret \<noteq> LZMA_OK then (ret, block, in_pos)
         else if inb ! 1 AND 0x80 \<noteq> 0 then
           let (ret, vli, _, in_pos) = lzma_vli_decode (blk_uncompressed_size block) None inb in_pos in_size
           in (ret, block\<lparr>blk_uncompressed_size := vli\<rparr>, in_pos)
         else (LZMA_OK, block\<lparr>blk_uncompressed_size := LZMA_VLI_UNKNOWN\<rparr>, in_pos))"

definition lzma_block_header_decode ::
  "(nat \<Rightarrow> bool) \<Rightarrow> lzma_options_lzma \<Rightarrow> lzma_block \<Rightarrow> byte list \<Rightarrow> lzma_ret \<times> lzma_block" where
  "lzma_block_header_decode alloc_ok fresh block inb =
     (let block = block\<lparr>blk_filters := Some (replicate (LZMA_FILTERS_MAX + 1) no_filter @ drop (LZMA_FILTERS_MAX + 1) (the (blk_filters block))),
                        blk_version := (if blk_version block > 1 then 1 else blk_version block), blk_ignore_check := False\<rparr>
      in if lzma_block_header_size_decode (inb ! 0) \<noteq> blk_header_size block \<or> blk_check block > LZMA_CHECK_ID_MAX
         then (LZMA_PROG_ERROR, block)
         else
           let in_size = unat (blk_header_size block - 4)
           in if lzma_crc32 (take in_size inb) 0 \<noteq> read32le inb in_size then (LZMA_DATA_ERROR, block)
              else if inb ! 1 AND 0x3C \<noteq> 0 then (LZMA_OPTIONS_ERROR, block)
              else
                let (ret, block, in_pos) = block_decode_sizes block inb in_size
                in if ret \<noteq> LZMA_OK then (ret, block)
                   else
                     let filter_count = unat (inb ! 1 AND 3) + 1;
                         (ret, filters, in_pos) =
                           block_decode_filters alloc_ok fresh [0..<filter_count] (the (blk_filters block)) inb in_pos in_size;
                         block = block\<lparr>blk_filters := Some filters\<rparr>
                     in if ret \<noteq> LZMA_OK then (ret, free_properties block)
                        else if \<not> block_padding_zero inb in_pos in_size then (LZMA_OPTIONS_ERROR, free_properties block)
                        else (LZMA_OK, block))"

end
