(* ===== verification/Block_Header.thy ===== *)
theory Block_Header
  imports Block
begin

text \<open>
  What the functions of Block guarantee: the Block Header as \<open>block_header_bytes\<close>, that the encoder
  writes it (\<open>block_header_encode_bytes\<close>) and the decoder reads it back (\<open>block_header_decode_bytes\<close>), and
  how the sizes of a block are related.
\<close>

subsection \<open>The specification of the header\<close>

definition size_bytes :: "lzma_vli \<Rightarrow> byte list" where
  "size_bytes vli = (if vli = LZMA_VLI_UNKNOWN then [] else vli_bytes (unat vli))"

definition chain_bytes :: "lzma_filter list \<Rightarrow> byte list" where
  "chain_bytes fs = concat (map flags_bytes fs)"

definition block_content :: "lzma_block \<Rightarrow> byte list" where
  "block_content block = size_bytes (blk_compressed_size block) @ size_bytes (blk_uncompressed_size block)
     @ chain_bytes (chain_of (the (blk_filters block)))"

definition block_flags :: "lzma_block \<Rightarrow> byte" where
  "block_flags block = (if blk_compressed_size block \<noteq> LZMA_VLI_UNKNOWN then 0x40 else 0)
     OR (if blk_uncompressed_size block \<noteq> LZMA_VLI_UNKNOWN then 0x80 else 0)
     OR word_of_nat (length (chain_of (the (blk_filters block))) - 1)"

text \<open>The number of bytes before the CRC32, and the header.\<close>

definition block_size_content :: "lzma_block \<Rightarrow> nat" where
  "block_size_content block = 4 * ((length (block_content block) + 5) div 4)"

definition block_header_bytes :: "lzma_block \<Rightarrow> byte list" where
  "block_header_bytes block =
     (let n = block_size_content block;
          header = [word_of_nat (n div 4), block_flags block] @ block_content block
            @ replicate (n - 2 - length (block_content block)) 0
      in header @ le32_bytes (lzma_crc32 header 0))"

lemma length_size_bytes: "lzma_vli_is_valid v \<Longrightarrow> length (size_bytes v) \<le> 9"
  by (auto simp: size_bytes_def lzma_vli_is_valid_def vli_valid_unat intro: vli_bytes_length_le_9)

lemma length_chain_bytes: "\<forall>f \<in> set fs. flags_valid f \<Longrightarrow> length (chain_bytes fs) \<le> 6 * length fs"
proof (induction fs)
  case (Cons f fs)
  then show ?case using length_flags_bytes [of f] length_flags_props [of f] by (simp add: chain_bytes_def)
qed (simp add: chain_bytes_def)

lemma chain_of_Cons: "chain_of (f # fs) = (if filter_id f = LZMA_VLI_UNKNOWN then [] else f # chain_of fs)"
  by (simp add: chain_of_def)

lemma chain_of_Nil [simp]: "chain_of [] = []"
  by (simp add: chain_of_def)

lemma block_filters_size_ok:
  "block_filters_size filters i sz = Inr sz' \<Longrightarrow> \<forall>f \<in> set (chain_of filters). flags_valid f \<Longrightarrow> i \<le> LZMA_FILTERS_MAX \<Longrightarrow>
   i + length (chain_of filters) \<le> LZMA_FILTERS_MAX \<and> sz' = sz + word_of_nat (length (chain_bytes (chain_of filters)))"
proof (induction filters arbitrary: i sz)
  case (Cons f filters)
  show ?case
  proof (cases "filter_id f = LZMA_VLI_UNKNOWN")
    case True
    with Cons.prems show ?thesis by (simp add: chain_of_Cons chain_bytes_def)
  next
    case False
    then have v: "flags_valid f" and vs: "\<forall>f \<in> set (chain_of filters). flags_valid f"
      using Cons.prems(2) by (simp_all add: chain_of_Cons)
    have i: "i \<noteq> LZMA_FILTERS_MAX" using Cons.prems(1) False by auto
    then have "block_filters_size filters (Suc i) (sz + word_of_nat (length (flags_bytes f))) = Inr sz'"
      using Cons.prems(1) False by (simp add: filter_flags_size_valid [OF v])
    from Cons.IH [OF this vs] i Cons.prems(3) show ?thesis
      using False by (simp add: chain_of_Cons chain_bytes_def add.assoc)
  qed
qed (simp add: chain_bytes_def)

lemma block_filters_size_error: "block_filters_size filters i sz \<noteq> Inl LZMA_OK"
  by (induction filters arbitrary: i sz) (auto simp: Let_def split: prod.splits)

lemma unat_and_not_mask:
  fixes w :: "'a::len word"
  shows "unat (w AND NOT (mask k)) = unat w div 2 ^ k * 2 ^ k"
proof -
  have "w AND NOT (mask k) = push_bit k (drop_bit k w)"
    by (rule bit_word_eqI) (auto simp: bit_and_iff bit_not_iff bit_mask_iff bit_push_bit_iff bit_drop_bit_eq possible_bit_word)
  moreover have "unat (drop_bit k w) * 2 ^ k < 2 ^ LENGTH('a)"
    using unsigned_less [of w, where 'a = nat] by (simp add: unat_drop_bit_div le_less_trans [OF div_times_less_eq_dividend])
  ultimately show ?thesis by (simp add: unat_push_bit_mult unat_drop_bit_div)
qed

lemma unat_and_not_3: "unat (w AND NOT 3) = unat w div 4 * 4"
  using unat_and_not_mask [of w 2] by (simp add: mask_eq_exp_minus_1)

text \<open>The facts about a block that the two functions check.\<close>

lemma lzma_block_header_size_ok:
  assumes "lzma_block_header_size b0 = (LZMA_OK, b)" and "lzma_vli_is_valid (blk_compressed_size b0)"
    and "lzma_vli_is_valid (blk_uncompressed_size b0)"
    and "\<forall>f \<in> set (chain_of (the (blk_filters b0))). flags_valid f"
  shows "blk_version b \<le> 1" and "\<exists>fs. blk_filters b = Some fs" and "1 \<le> length (chain_of (the (blk_filters b)))"
    and "length (chain_of (the (blk_filters b))) \<le> 4" and "b = b0\<lparr>blk_header_size := blk_header_size b\<rparr>"
    and "unat (blk_header_size b) = block_size_content b + 4" and "length (block_content b) \<le> 42"
proof -
  let ?c = "blk_compressed_size b0" and ?u = "blk_uncompressed_size b0"
  obtain fs where fs: "blk_filters b0 = Some fs" "chain_of fs \<noteq> []"
    using assms(1) by (auto simp: lzma_block_header_size_def Let_def split: if_splits option.splits)
  have ver: "blk_version b0 \<le> 1"
    using assms(1) by (auto simp: lzma_block_header_size_def not_less split: if_splits)
  have sz: "unat (if v \<noteq> LZMA_VLI_UNKNOWN then lzma_vli_size v else 0) = length (size_bytes v)" if "lzma_vli_is_valid v" for v
    using that by (auto simp: size_bytes_def lzma_vli_is_valid_def unat_lzma_vli_size)
  define s0 where "s0 = 6 + (if ?c \<noteq> LZMA_VLI_UNKNOWN then lzma_vli_size ?c else 0) + (if ?u \<noteq> LZMA_VLI_UNKNOWN then lzma_vli_size ?u else 0)"
  have s0: "unat s0 = 6 + length (size_bytes ?c) + length (size_bytes ?u)"
  proof -
    note b = length_size_bytes [OF assms(2)] length_size_bytes [OF assms(3)]
    have "unat (6 + (if ?c \<noteq> LZMA_VLI_UNKNOWN then lzma_vli_size ?c else 0)) = 6 + length (size_bytes ?c)"
      using b by (subst unat_add_small) (simp_all only: sz [OF assms(2)], simp_all)
    then show ?thesis unfolding s0_def
      using b by (subst unat_add_small) (simp_all only: sz [OF assms(3)], simp_all)
  qed
  obtain r where r: "block_filters_size fs 0 s0 = Inr r" "b = b0\<lparr>blk_header_size := (r + 3) AND NOT 3\<rparr>"
    using assms(1) fs block_filters_size_error
    by (auto simp: lzma_block_header_size_def Let_def s0_def [simplified] split: if_splits sum.splits)
  have v: "\<forall>f \<in> set (chain_of fs). flags_valid f" using assms(4) fs by simp
  note sizes = block_filters_size_ok [OF r(1) v]
  show "blk_version b \<le> 1" "\<exists>fs. blk_filters b = Some fs" "b = b0\<lparr>blk_header_size := blk_header_size b\<rparr>"
    using ver fs r(2) by simp_all
  have chain: "1 \<le> length (chain_of fs)" "length (chain_of fs) \<le> 4" using fs(2) sizes by (simp_all add: Suc_le_eq)
  then show "1 \<le> length (chain_of (the (blk_filters b)))" "length (chain_of (the (blk_filters b))) \<le> 4"
    using fs(1) r(2) by simp_all
  have L: "length (chain_bytes (chain_of fs)) \<le> 24" using length_chain_bytes [OF v] chain(2) by simp
  have n: "length (block_content b) = length (size_bytes ?c) + length (size_bytes ?u) + length (chain_bytes (chain_of fs))"
    using fs(1) r(2) by (simp add: block_content_def)
  then show n42: "length (block_content b) \<le> 42"
    using L length_size_bytes [OF assms(2)] length_size_bytes [OF assms(3)] by simp
  have "unat r = unat s0 + length (chain_bytes (chain_of fs))"
  proof -
    have "unat (word_of_nat (length (chain_bytes (chain_of fs))) :: u32) = length (chain_bytes (chain_of fs))"
      using L by (simp add: unat_of_nat)
    then show ?thesis using sizes s0 n42 n by (simp add: unat_add_small)
  qed
  then have "unat r = length (block_content b) + 6" using s0 n by simp
  then have "unat (r + 3) = length (block_content b) + 9" using n42 by (subst unat_add_small) simp_all
  moreover have "blk_header_size b = (r + 3) AND NOT 3" using r(2) by simp
  ultimately have "unat (blk_header_size b) = (length (block_content b) + 9) div 4 * 4"
    by (simp only: unat_and_not_3)
  then show "unat (blk_header_size b) = block_size_content b + 4" unfolding block_size_content_def by presburger
qed

subsection \<open>The encoder writes it\<close>

lemma put_bytes_Cons2: "2 \<le> p \<Longrightarrow> put_bytes (h # fl # body) p bs = h # fl # put_bytes body (p - 2) bs"
  by (auto simp: put_bytes_def numeral_2_eq_2 Suc_le_eq take_Cons' drop_Cons' Suc_diff_le)

lemma block_encode_size_ok:
  assumes "lzma_vli_is_valid v" and "2 \<le> pos" and "pos + length (size_bytes v) \<le> out_size" and "out_size \<le> length body + 2"
  shows "block_encode_size v flag (h # fl # body) pos out_size =
    (LZMA_OK, h # (if v \<noteq> LZMA_VLI_UNKNOWN then fl OR flag else fl) # put_bytes body (pos - 2) (size_bytes v), pos + length (size_bytes v))"
proof (cases "v = LZMA_VLI_UNKNOWN")
  case True
  then show ?thesis by (simp add: block_encode_size_def size_bytes_def)
next
  case False
  then have v: "v \<le> LZMA_VLI_MAX" using assms(1) by (simp add: lzma_vli_is_valid_def)
  have "lzma_vli_encode v None (h # fl # body) pos out_size = (LZMA_OK, length (size_bytes v),
      h # fl # put_bytes body (pos - 2) (size_bytes v), pos + length (size_bytes v))"
    using lzma_vli_encode_single [OF v, of out_size "h # fl # body" pos] assms(2-4) False
    by (simp add: size_bytes_def put_bytes_Cons2)
  then show ?thesis using False by (simp add: block_encode_size_def)
qed

lemma block_encode_filters_ok:
  assumes "\<forall>f \<in> set (chain_of fs). flags_valid f" and "2 \<le> pos" and "pos + length (chain_bytes (chain_of fs)) \<le> out_size"
    and "out_size \<le> length body + 2" and "i + length (chain_of fs) \<le> LZMA_FILTERS_MAX"
  shows "block_encode_filters fs i (h # fl # body) pos out_size =
    (LZMA_OK, i + length (chain_of fs), h # fl # put_bytes body (pos - 2) (chain_bytes (chain_of fs)),
     pos + length (chain_bytes (chain_of fs)))"
  using assms
proof (induction fs arbitrary: i pos body)
  case Nil
  then show ?case by (simp add: chain_bytes_def)
next
  case (Cons f fs)
  show ?case
  proof (cases "filter_id f = LZMA_VLI_UNKNOWN")
    case True
    then show ?thesis by (simp add: chain_of_Cons chain_bytes_def)
  next
    case False
    then have ch: "chain_of (f # fs) = f # chain_of fs" by (simp add: chain_of_Cons)
    have v: "flags_valid f" "\<forall>f \<in> set (chain_of fs). flags_valid f" using Cons.prems(1) by (simp_all add: ch)
    let ?n = "length (flags_bytes f)"
    define body1 where "body1 = put_bytes body (pos - 2) (flags_bytes f)"
    have fits: "pos + ?n + length (chain_bytes (chain_of fs)) \<le> out_size"
      using Cons.prems(3) by (simp add: ch chain_bytes_def)
    have len1: "length body1 = length body" using fits Cons.prems(2,4) by (simp add: body1_def)
    have enc: "lzma_filter_flags_encode f (h # fl # body) pos out_size = (LZMA_OK, h # fl # body1, pos + ?n)"
      using filter_flags_encode_valid [OF v(1), of pos out_size "h # fl # body"] fits Cons.prems(2,4)
      by (simp add: put_bytes_Cons2 body1_def)
    have "block_encode_filters fs (Suc i) (h # fl # body1) (pos + ?n) out_size =
        (LZMA_OK, Suc i + length (chain_of fs), h # fl # put_bytes body1 (pos + ?n - 2) (chain_bytes (chain_of fs)),
         pos + ?n + length (chain_bytes (chain_of fs)))"
      using Cons.prems fits len1 by (intro Cons.IH [OF v(2)]) (simp_all add: ch)
    moreover have "put_bytes body1 (pos + ?n - 2) (chain_bytes (chain_of fs)) = put_bytes body (pos - 2) (chain_bytes (chain_of (f # fs)))"
      using put_bytes_append [of "pos - 2" "flags_bytes f" body "chain_bytes (chain_of fs)"] fits Cons.prems(2,4)
      by (simp add: body1_def ch chain_bytes_def add.commute)
    ultimately show ?thesis
      using False enc Cons.prems(5) by (simp add: ch chain_bytes_def add.assoc)
  qed
qed

text \<open>What the encoder requires of the block it is given.\<close>

definition block_ready :: "lzma_block \<Rightarrow> bool" where
  "block_ready b \<longleftrightarrow> lzma_block_unpadded_size (Some b) \<noteq> 0 \<and> lzma_vli_is_valid (blk_compressed_size b)
     \<and> lzma_vli_is_valid (blk_uncompressed_size b) \<and> (\<exists>fs. blk_filters b = Some fs)
     \<and> 1 \<le> length (chain_of (the (blk_filters b))) \<and> length (chain_of (the (blk_filters b))) \<le> 4
     \<and> (\<forall>f \<in> set (chain_of (the (blk_filters b))). flags_valid f)
     \<and> unat (blk_header_size b) = block_size_content b + 4 \<and> length (block_content b) \<le> 42"

lemma block_size_content_le: "2 + length (block_content b) \<le> block_size_content b"
  unfolding block_size_content_def by presburger

definition block_header_part :: "lzma_block \<Rightarrow> byte list" where
  "block_header_part b = [word_of_nat (block_size_content b div 4), block_flags b] @ block_content b
     @ replicate (block_size_content b - 2 - length (block_content b)) 0"

lemma length_block_header_part: "length (block_header_part b) = block_size_content b"
  using block_size_content_le [of b] by (simp add: block_header_part_def)

lemma block_header_bytes_part: "block_header_bytes b = block_header_part b @ le32_bytes (lzma_crc32 (block_header_part b) 0)"
  by (simp add: block_header_bytes_def block_header_part_def Let_def)

lemma put_bytes_parts: "put_bytes (h # fl # body) 0 ([h', fl'] @ bs) = h' # fl' # put_bytes body 0 bs"
  by (simp add: put_bytes_def)

lemma unat_header_size_minus_4:
  assumes "unat (s :: u32) = n + 4"
  shows "unat (s - 4) = n"
  using assms by (subst unat_sub) (simp_all add: word_le_nat_alt)

lemma block_header_encode_bytes:
  assumes "block_ready b" and "unat (blk_header_size b) \<le> length out"
  shows "lzma_block_header_encode b out = (LZMA_OK, put_bytes out 0 (block_header_bytes b))"
proof -
  obtain fs where fs: "blk_filters b = Some fs" using assms(1) by (auto simp: block_ready_def)
  let ?n = "block_size_content b" and ?c = "blk_compressed_size b" and ?u = "blk_uncompressed_size b"
  have r: "lzma_block_unpadded_size (Some b) \<noteq> 0" "lzma_vli_is_valid ?c" "lzma_vli_is_valid ?u" "1 \<le> length (chain_of fs)"
    "length (chain_of fs) \<le> 4" "\<forall>f \<in> set (chain_of fs). flags_valid f" "unat (blk_header_size b) = ?n + 4"
    using assms(1) fs by (simp_all add: block_ready_def)
  have content: "block_content b = size_bytes ?c @ size_bytes ?u @ chain_bytes (chain_of fs)"
    by (simp add: block_content_def fs)
  have len: "2 + (length (size_bytes ?c) + (length (size_bytes ?u) + length (chain_bytes (chain_of fs)))) \<le> ?n"
    using block_size_content_le [of b] by (simp add: content)
  obtain h0 f0 body where out: "out = h0 # f0 # body"
    using assms(2) r(7) len by (cases out; cases "tl out") auto
  have body: "?n \<le> length body + 2" "?n + 4 \<le> length out" using assms(2) r(7) by (simp_all add: out)
  define h where "h = (word_of_nat (?n div 4) :: byte)"
  define f1 where "f1 = (if ?c \<noteq> LZMA_VLI_UNKNOWN then 0 OR 0x40 else 0 :: byte)"
  define f2 where "f2 = (if ?u \<noteq> LZMA_VLI_UNKNOWN then f1 OR 0x80 else f1)"
  define b1 where "b1 = put_bytes body 0 (size_bytes ?c)"
  define b2 where "b2 = put_bytes b1 (length (size_bytes ?c)) (size_bytes ?u)"
  define b3 where "b3 = put_bytes b2 (length (size_bytes ?c) + length (size_bytes ?u)) (chain_bytes (chain_of fs))"
  have blen: "length b1 = length body" "length b2 = length body" using len body by (simp_all add: b1_def b2_def)
  have e1: "block_encode_size ?c 0x40 (h # 0 # body) 2 ?n = (LZMA_OK, h # f1 # b1, 2 + length (size_bytes ?c))"
    using block_encode_size_ok [OF r(2), of 2 ?n body "0x40" h 0] len body by (simp add: f1_def b1_def)
  have e2: "block_encode_size ?u 0x80 (h # f1 # b1) (2 + length (size_bytes ?c)) ?n =
      (LZMA_OK, h # f2 # b2, 2 + length (size_bytes ?c) + length (size_bytes ?u))"
    using block_encode_size_ok [OF r(3), of "2 + length (size_bytes ?c)" ?n b1 "0x80" h f1] len body blen by (simp add: f2_def b2_def)
  have e3: "block_encode_filters fs 0 (h # f2 # b2) (2 + length (size_bytes ?c) + length (size_bytes ?u)) ?n =
      (LZMA_OK, length (chain_of fs), h # f2 # b3, 2 + length (block_content b))"
    using block_encode_filters_ok [OF r(6), of "2 + length (size_bytes ?c) + length (size_bytes ?u)" ?n b2 0 h f2] len body blen r(5)
    by (simp add: b3_def content add.assoc)
  have b3: "b3 = put_bytes body 0 (block_content b)"
    using put_bytes_append [of 0 "size_bytes ?c" body] put_bytes_append [of 0 "size_bytes ?c @ size_bytes ?u" body] len body
    by (simp add: b3_def b2_def b1_def content)
  have fl: "f2 OR word_of_nat (length (chain_of fs) - 1) = block_flags b"
    by (simp add: block_flags_def fs f2_def f1_def flip: or.assoc)
  define zeros where "zeros = replicate (?n - (2 + length (block_content b))) (0 :: byte)"
  have part: "block_header_part b = [h, block_flags b] @ (block_content b @ zeros)"
    by (simp add: block_header_part_def h_def zeros_def)
  have pad: "put_bytes (h # block_flags b # b3) (2 + length (block_content b)) zeros = put_bytes out 0 (block_header_part b)"
    using len body put_bytes_append [of 0 "block_content b" body zeros]
    unfolding part out put_bytes_parts b3 by (simp add: put_bytes_Cons2 content)
  have take: "take ?n (put_bytes out 0 (block_header_part b)) = block_header_part b"
    using body by (simp add: put_bytes_def length_block_header_part)
  have fin: "put_bytes (put_bytes out 0 (block_header_part b)) ?n (le32_bytes (lzma_crc32 (block_header_part b) 0)) =
      put_bytes out 0 (block_header_bytes b)"
    using put_bytes_append [of 0 "block_header_part b" out] body
    by (simp add: block_header_bytes_part length_block_header_part)
  have ne: "chain_of fs \<noteq> []" using r(4) by auto
  have h: "out[0 := word_of_nat (?n div 4), 1 := 0x00] = h # 0 # body" by (simp add: out h_def)
  have n: "unat (blk_header_size b - 4) = ?n" by (rule unat_header_size_minus_4 [OF r(7)])
  have upd: "(h # f2 # b3)[1 := (h # f2 # b3) ! 1 OR word_of_nat (length (chain_of fs) - 1)] = h # block_flags b # b3"
    using fl by simp
  show ?thesis
    unfolding lzma_block_header_encode_def n Let_def h e1 prod.case e2 fs option.case e3 upd zeros_def [symmetric] pad take fin
    using r(1,3) ne by simp
qed

subsection \<open>The decoder reads it\<close>

lemma block_flags_bits:
  assumes "1 \<le> length (chain_of (the (blk_filters b)))" and "length (chain_of (the (blk_filters b))) \<le> 4"
  shows "block_flags b AND 0x3C = 0" and "block_flags b AND 0x40 \<noteq> 0 \<longleftrightarrow> blk_compressed_size b \<noteq> LZMA_VLI_UNKNOWN"
    and "block_flags b AND 0x80 \<noteq> 0 \<longleftrightarrow> blk_uncompressed_size b \<noteq> LZMA_VLI_UNKNOWN"
    and "unat (block_flags b AND 3) + 1 = length (chain_of (the (blk_filters b)))"
proof -
  let ?k = "length (chain_of (the (blk_filters b)))"
  consider "?k = 1" | "?k = 2" | "?k = 3" | "?k = 4" using assms by linarith
  then have "block_flags b AND 0x3C = 0 \<and> (block_flags b AND 0x40 \<noteq> 0 \<longleftrightarrow> blk_compressed_size b \<noteq> LZMA_VLI_UNKNOWN)
      \<and> (block_flags b AND 0x80 \<noteq> 0 \<longleftrightarrow> blk_uncompressed_size b \<noteq> LZMA_VLI_UNKNOWN) \<and> unat (block_flags b AND 3) + 1 = ?k"
    by cases (simp_all add: block_flags_def)
  then show "block_flags b AND 0x3C = 0" "block_flags b AND 0x40 \<noteq> 0 \<longleftrightarrow> blk_compressed_size b \<noteq> LZMA_VLI_UNKNOWN"
    "block_flags b AND 0x80 \<noteq> 0 \<longleftrightarrow> blk_uncompressed_size b \<noteq> LZMA_VLI_UNKNOWN" "unat (block_flags b AND 3) + 1 = ?k"
    by simp_all
qed

lemma block_padding_zero_iff: "block_padding_zero inb p n \<longleftrightarrow> (\<forall>i. p \<le> i \<and> i < n \<longrightarrow> inb ! i = 0)"
proof (induction inb p n rule: block_padding_zero.induct)
  case (1 inb p n)
  show ?case
  proof (cases "p < n \<and> inb ! p = 0")
    case True
    then have "block_padding_zero inb p n \<longleftrightarrow> (\<forall>i. Suc p \<le> i \<and> i < n \<longrightarrow> inb ! i = 0)"
      using 1 by (subst block_padding_zero.simps) simp
    moreover have "p \<le> i \<longleftrightarrow> i = p \<or> Suc p \<le> i" for i by auto
    ultimately show ?thesis using True by auto
  next
    case False
    then show ?thesis by (subst block_padding_zero.simps) auto
  qed
qed

lemma block_decode_filters_ok:
  assumes "\<forall>f \<in> set fs. flags_valid f" and "take (length (chain_bytes fs)) (drop pos inb) = chain_bytes fs"
    and "pos + length (chain_bytes fs) \<le> in_size" and "in_size \<le> length inb" and "i + length fs \<le> length filters"
  shows "block_decode_filters (\<lambda>_. True) fresh [i..<i + length fs] filters inb pos in_size =
    (LZMA_OK, take i filters @ map (flags_canonical fresh) fs @ drop (i + length fs) filters, pos + length (chain_bytes fs))"
  using assms
proof (induction fs arbitrary: i pos filters)
  case Nil
  then show ?case by (simp add: chain_bytes_def)
next
  case (Cons f fs)
  have split: "chain_bytes (f # fs) = flags_bytes f @ chain_bytes fs" by (simp add: chain_bytes_def)
  note parts = take_drop_parts [OF Cons.prems(2) [unfolded split]]
  have fits: "pos + length (flags_bytes f) + length (chain_bytes fs) \<le> in_size" using Cons.prems(3) by (simp add: split)
  have v: "flags_valid f" "\<forall>f \<in> set fs. flags_valid f" using Cons.prems(1) by simp_all
  have d: "lzma_filter_flags_decode True fresh (filters ! i) inb pos in_size =
      (LZMA_OK, flags_canonical fresh f, pos + length (flags_bytes f))"
    by (rule filter_flags_decode_valid [OF v(1) parts(1) _ Cons.prems(4)]) (use fits in simp)
  have "block_decode_filters (\<lambda>_. True) fresh [Suc i..<Suc i + length fs] (filters[i := flags_canonical fresh f]) inb
      (pos + length (flags_bytes f)) in_size =
      (LZMA_OK, take (Suc i) (filters[i := flags_canonical fresh f]) @ map (flags_canonical fresh) fs
        @ drop (Suc i + length fs) (filters[i := flags_canonical fresh f]), pos + length (flags_bytes f) + length (chain_bytes fs))"
    using Cons.prems(5) fits by (intro Cons.IH [OF v(2) parts(2) _ Cons.prems(4)]) simp_all
  moreover have "[i..<i + length (f # fs)] = i # [Suc i..<Suc i + length fs]" by (subst upt_conv_Cons) simp_all
  moreover have "take (Suc i) (filters[i := flags_canonical fresh f]) = take i filters @ [flags_canonical fresh f]"
    using Cons.prems(5) by (simp add: take_Suc_conv_app_nth)
  ultimately show ?case using d by (simp add: split)
qed

lemma block_decode_sizes_ok:
  assumes "lzma_vli_is_valid c" and "lzma_vli_is_valid u" and "in_size \<le> length inb"
    and "2 + length (size_bytes c @ size_bytes u) \<le> in_size"
    and "take (length (size_bytes c @ size_bytes u)) (drop 2 inb) = size_bytes c @ size_bytes u"
    and "inb ! 1 AND 0x40 \<noteq> 0 \<longleftrightarrow> c \<noteq> LZMA_VLI_UNKNOWN" and "inb ! 1 AND 0x80 \<noteq> 0 \<longleftrightarrow> u \<noteq> LZMA_VLI_UNKNOWN"
    and "lzma_block_unpadded_size (Some (d\<lparr>blk_compressed_size := c\<rparr>)) \<noteq> 0"
  shows "block_decode_sizes d inb in_size =
    (LZMA_OK, d\<lparr>blk_compressed_size := c, blk_uncompressed_size := u\<rparr>, 2 + length (size_bytes c @ size_bytes u))"
proof -
  have le: "v \<le> LZMA_VLI_MAX \<and> size_bytes v = vli_bytes (unat v)" if "lzma_vli_is_valid v" "v \<noteq> LZMA_VLI_UNKNOWN" for v
    using that by (simp add: lzma_vli_is_valid_def size_bytes_def)
  note parts = take_drop_parts [OF assms(5)]
  have dc: "lzma_vli_decode x None inb 2 in_size = (LZMA_OK, c, length (size_bytes c), 2 + length (size_bytes c))"
    if "c \<noteq> LZMA_VLI_UNKNOWN" for x
    using lzma_vli_decode_single_accepts [of c in_size inb 2 x] le [OF assms(1) that] assms(3,4) parts(1) by simp
  have du: "lzma_vli_decode x None inb (2 + length (size_bytes c)) in_size = (LZMA_OK, u, length (size_bytes u), 2 + length (size_bytes c) + length (size_bytes u))"
    if "u \<noteq> LZMA_VLI_UNKNOWN" for x
    using lzma_vli_decode_single_accepts [of u in_size inb "2 + length (size_bytes c)" x] le [OF assms(2) that] assms(3,4) parts(2) by simp
  have nil: "size_bytes v = []" if "v = LZMA_VLI_UNKNOWN" for v using that by (simp add: size_bytes_def)
  show ?thesis
  proof (cases "c = LZMA_VLI_UNKNOWN"; cases "u = LZMA_VLI_UNKNOWN")
    assume cu: "c = LZMA_VLI_UNKNOWN" "u = LZMA_VLI_UNKNOWN"
    then show ?thesis using assms(6,7) nil by (simp add: block_decode_sizes_def)
  next
    assume cu: "c = LZMA_VLI_UNKNOWN" "u \<noteq> LZMA_VLI_UNKNOWN"
    then show ?thesis using assms(6,7) nil [OF cu(1)] du [OF cu(2)] by (simp add: block_decode_sizes_def)
  next
    assume cu: "c \<noteq> LZMA_VLI_UNKNOWN" "u = LZMA_VLI_UNKNOWN"
    then show ?thesis using assms(6,7,8) nil [OF cu(2)] dc [OF cu(1)] by (simp add: block_decode_sizes_def)
  next
    assume cu: "c \<noteq> LZMA_VLI_UNKNOWN" "u \<noteq> LZMA_VLI_UNKNOWN"
    then show ?thesis using assms(6,7,8) du [OF cu(2)] dc [OF cu(1)] by (simp add: block_decode_sizes_def add.assoc)
  qed
qed

lemma block_header_decode_bytes:
  assumes "block_ready b" and "blk_version b \<le> 1" and "take (unat (blk_header_size b)) inb = block_header_bytes b"
    and "blk_header_size d = blk_header_size b" and "blk_check d = blk_check b" and "blk_filters d = Some old" and "5 \<le> length old"
  shows "lzma_block_header_decode (\<lambda>_. True) fresh d inb = (LZMA_OK,
    d\<lparr>blk_version := min (blk_version d) 1, blk_ignore_check := False, blk_compressed_size := blk_compressed_size b,
      blk_uncompressed_size := blk_uncompressed_size b,
      blk_filters := Some (map (flags_canonical fresh) (chain_of (the (blk_filters b)))
        @ replicate (5 - length (chain_of (the (blk_filters b)))) no_filter @ drop 5 old)\<rparr>)"
proof -
  obtain fs where fs: "blk_filters b = Some fs" using assms(1) by (auto simp: block_ready_def)
  let ?n = "block_size_content b" and ?c = "blk_compressed_size b" and ?u = "blk_uncompressed_size b" and ?k = "length (chain_of fs)"
  have r: "lzma_block_unpadded_size (Some b) \<noteq> 0" "lzma_vli_is_valid ?c" "lzma_vli_is_valid ?u" "1 \<le> ?k"
    "?k \<le> 4" "\<forall>f \<in> set (chain_of fs). flags_valid f" "unat (blk_header_size b) = ?n + 4" "length (block_content b) \<le> 42"
    using assms(1) fs by (simp_all add: block_ready_def)
  note n = unat_header_size_minus_4 [OF r(7)]
  have content: "block_content b = (size_bytes ?c @ size_bytes ?u) @ chain_bytes (chain_of fs)"
    by (simp add: block_content_def fs)
  have len: "2 + length (block_content b) \<le> ?n" by (rule block_size_content_le)
  have inb: "inb = block_header_part b @ le32_bytes (lzma_crc32 (block_header_part b) 0) @ drop (?n + 4) inb"
  proof -
    have "block_header_bytes b @ drop (?n + 4) inb = inb" unfolding assms(3) [symmetric] r(7) by (rule append_take_drop_id)
    then show ?thesis by (simp add: block_header_bytes_part)
  qed
  define rest where "rest = le32_bytes (lzma_crc32 (block_header_part b) 0) @ drop (?n + 4) inb"
  have inb1: "inb = block_header_part b @ rest" unfolding rest_def by (rule inb)
  have "4 \<le> length rest" by (simp add: rest_def)
  have nlen: "?n \<le> length inb" by (subst inb1) (simp add: length_block_header_part)
  have crc: "read32le inb ?n = lzma_crc32 (take ?n inb) 0"
  proof -
    have "take ?n inb = block_header_part b" by (subst inb1) (simp add: length_block_header_part)
    moreover have "take 4 (drop ?n inb) = le32_bytes (lzma_crc32 (block_header_part b) 0)"
      by (subst inb) (simp add: length_block_header_part)
    ultimately show ?thesis by (simp add: read32le_bytes)
  qed
  have bytes: "inb ! 0 = word_of_nat (?n div 4)" "inb ! 1 = block_flags b"
    by (subst inb1, simp add: block_header_part_def)+
  have size: "lzma_block_header_size_decode (inb ! 0) = blk_header_size b"
  proof -
    have "?n div 4 \<le> 11" using r(8) unfolding block_size_content_def by presburger
    define w where "w = (ucast (inb ! 0) + 1 :: u32)"
    have "unat w = ?n div 4 + 1"
      using \<open>?n div 4 \<le> 11\<close> unfolding w_def bytes by (subst unat_add_small) (simp_all add: unat_ucast_up unat_of_nat)
    moreover have "4 * (?n div 4) = ?n" by (simp add: block_size_content_def)
    ultimately have "unat (w * 4) = unat (blk_header_size b)"
      using \<open>?n div 4 \<le> 11\<close> r(7) by (simp add: unat_word_ariths)
    then show ?thesis by (simp add: lzma_block_header_size_decode_def word_unat_eq_iff w_def)
  qed
  have cont: "take (length (block_content b)) (drop 2 inb) = block_content b"
    by (subst inb1) (simp add: block_header_part_def)
  note parts = take_drop_parts [OF cont [unfolded content]]
  note bits = block_flags_bits [of b, unfolded fs option.sel, OF r(4,5)]
  define d1 where "d1 = d\<lparr>blk_filters := Some (replicate 5 no_filter @ drop 5 old), blk_version := (if blk_version d > 1 then 1 else blk_version d),
      blk_ignore_check := False\<rparr>"
  have unp: "lzma_block_unpadded_size (Some (d1\<lparr>blk_compressed_size := ?c\<rparr>)) \<noteq> 0"
    using r(1) assms(2,4,5) by (auto simp: lzma_block_unpadded_size_def d1_def Let_def not_less split: if_splits)
  have ds: "block_decode_sizes d1 inb ?n = (LZMA_OK, d1\<lparr>blk_compressed_size := ?c, blk_uncompressed_size := ?u\<rparr>,
      2 + length (size_bytes ?c @ size_bytes ?u))"
    by (rule block_decode_sizes_ok [OF r(2,3) nlen _ parts(1) _ _ unp]) (use len bits content bytes(2) in simp_all)
  have df: "block_decode_filters (\<lambda>_. True) fresh [0..<?k] (replicate 5 no_filter @ drop 5 old) inb (2 + length (size_bytes ?c @ size_bytes ?u)) ?n =
      (LZMA_OK, map (flags_canonical fresh) (chain_of fs) @ replicate (5 - ?k) no_filter @ drop 5 old, 2 + length (block_content b))"
    using block_decode_filters_ok [OF r(6) parts(2) _ nlen, of 0 "replicate 5 no_filter @ drop 5 old" fresh] len r(5)
    by (simp add: content add.assoc)
  have pad: "block_padding_zero inb (2 + length (block_content b)) ?n"
  proof -
    have "inb ! i = 0" if "2 + length (block_content b) \<le> i" "i < ?n" for i
    proof -
      define pre where "pre = [word_of_nat (?n div 4), block_flags b] @ block_content b"
      have "inb = pre @ replicate (?n - length pre) 0 @ rest" by (subst inb1) (simp add: block_header_part_def pre_def)
      moreover have "length pre \<le> i" "i - length pre < ?n - length pre" using that by (simp_all add: pre_def diff_less_mono)
      ultimately show ?thesis by (metis length_replicate leD nth_append nth_replicate)
    qed
    then show ?thesis by (simp add: block_padding_zero_iff)
  qed
  have chk: "\<not> blk_check d > LZMA_CHECK_ID_MAX"
    using r(1) assms(5) by (auto simp: lzma_block_unpadded_size_def)
  have d1: "blk_header_size d1 = blk_header_size b" "blk_check d1 = blk_check d" "blk_filters d1 = Some (replicate 5 no_filter @ drop 5 old)"
    using assms(4) by (simp_all add: d1_def)
  have "lzma_block_header_decode (\<lambda>_. True) fresh d inb = (LZMA_OK, d1\<lparr>blk_compressed_size := ?c, blk_uncompressed_size := ?u,
      blk_filters := Some (map (flags_canonical fresh) (chain_of fs) @ replicate (5 - ?k) no_filter @ drop 5 old)\<rparr>)"
    using ds df pad chk d1 size crc bits(1,4) bytes(2) n assms(6)
    by (simp add: lzma_block_header_decode_def d1_def [symmetric])
  then show ?thesis by (simp add: d1_def fs min_def not_less)
qed

lemma block_ready_of_size:
  assumes "lzma_block_header_size b0 = (LZMA_OK, b)" and "lzma_block_unpadded_size (Some b) \<noteq> 0"
    and "lzma_vli_is_valid (blk_uncompressed_size b)" and "\<forall>f \<in> set (chain_of (the (blk_filters b0))). flags_valid f"
  shows "block_ready b" and "blk_version b \<le> 1" and "block_size_content b + 4 \<le> 1024"
proof -
  have "b = b0\<lparr>blk_header_size := blk_header_size b\<rparr>"
    using assms(1) by (auto simp: lzma_block_header_size_def Let_def split: if_splits option.splits sum.splits)
  then have same: "blk_compressed_size b = blk_compressed_size b0" "blk_uncompressed_size b = blk_uncompressed_size b0"
    "blk_filters b = blk_filters b0" by (metis lzma_block.surjective lzma_block.update_convs lzma_block.select_convs)+
  have v: "lzma_vli_is_valid (blk_compressed_size b)" using assms(2) by (auto simp: lzma_block_unpadded_size_def split: if_splits)
  note ok = lzma_block_header_size_ok [OF assms(1) v [unfolded same] assms(3) [unfolded same] assms(4)]
  show "blk_version b \<le> 1" by (rule ok)
  show "block_ready b" unfolding block_ready_def using assms v ok same by simp
  show "block_size_content b + 4 \<le> 1024" using ok(7) unfolding block_size_content_def by simp
qed

text \<open>C7. If \<open>lzma_block_header_size\<close> computes the size of the header of a block whose filters have valid options,
  then the encoder writes exactly that many bytes, and the decoder, told this size and the check, reads the sizes and the
  filters back, the filters with their options as they are stored and terminated.\<close>

theorem block_header_roundtrip:
  assumes "lzma_block_header_size b0 = (LZMA_OK, b)" and "lzma_block_unpadded_size (Some b) \<noteq> 0"
    and "lzma_vli_is_valid (blk_uncompressed_size b)" and "\<forall>f \<in> set (chain_of (the (blk_filters b))). flags_valid f"
    and "unat (blk_header_size b) \<le> length out" and "lzma_block_header_encode b out = (ret, hdr)"
    and "blk_header_size d = blk_header_size b" and "blk_check d = blk_check b" and "blk_filters d = Some old" and "length old = 5"
  shows "ret = LZMA_OK \<and> drop (unat (blk_header_size b)) hdr = drop (unat (blk_header_size b)) out
    \<and> lzma_block_header_decode (\<lambda>_. True) fresh d hdr = (LZMA_OK,
        d\<lparr>blk_version := min (blk_version d) 1, blk_compressed_size := blk_compressed_size b,
          blk_uncompressed_size := blk_uncompressed_size b,
          blk_filters := Some (map (flags_canonical fresh) (chain_of (the (blk_filters b)))
            @ replicate (5 - length (chain_of (the (blk_filters b)))) no_filter), blk_ignore_check := False\<rparr>)"
proof -
  have f: "blk_filters b = blk_filters b0"
    using assms(1) by (auto simp: lzma_block_header_size_def Let_def split: if_splits option.splits sum.splits)
  note ready = block_ready_of_size [OF assms(1-3) assms(4) [unfolded f]]
  have n: "length (block_header_bytes b) = unat (blk_header_size b)"
    using ready(1) by (simp add: block_header_bytes_part length_block_header_part block_ready_def)
  have enc: "ret = LZMA_OK" "hdr = put_bytes out 0 (block_header_bytes b)"
    using block_header_encode_bytes [OF ready(1) assms(5)] assms(6) by simp_all
  have "take (unat (blk_header_size b)) hdr = block_header_bytes b" using n assms(5) by (simp add: enc put_bytes_def)
  from block_header_decode_bytes [OF ready(1,2) this assms(7-9)] enc n assms(5,10)
  show ?thesis by (simp add: put_bytes_def)
qed

text \<open>A Delta filter before LZMA2, with both sizes known.\<close>

definition example_block :: lzma_block where
  "example_block = \<lparr>blk_version = 0, blk_header_size = 0, blk_check = 1, blk_compressed_size = 300, blk_uncompressed_size = 1000,
     blk_filters = Some [\<lparr>filter_id = LZMA_FILTER_DELTA, filter_options = Some (Opt_delta \<lparr>delta_type = 0, delta_dist = 4\<rparr>)\<rparr>,
       \<lparr>filter_id = LZMA_FILTER_LZMA2, filter_options = Some (Opt_lzma \<lparr>dict_size = 0x100000, preset_dict_size = 0, lc = 3, lp = 0, pb = 2,
          lzma_mode = 0, nice_len = 0, lzma_mf = 0, lzma_depth = 0\<rparr>)\<rparr>, no_filter], blk_ignore_check = False\<rparr>"

theorem block_header_roundtrip_witness:
  "\<forall>fresh. snd (lzma_block_header_decode (\<lambda>_. True) fresh
     (example_block\<lparr>blk_header_size := 16, blk_filters := Some (replicate 5 no_filter)\<rparr>)
     (snd (lzma_block_header_encode (example_block\<lparr>blk_header_size := 16\<rparr>) (replicate 16 0))))
   = example_block\<lparr>blk_header_size := 16, blk_filters := Some (map (flags_canonical fresh) (chain_of (the (blk_filters example_block))) @ replicate 3 no_filter)\<rparr>"
proof
  fix fresh
  let ?b = "example_block\<lparr>blk_header_size := 16\<rparr>"
  have s: "lzma_block_header_size example_block = (LZMA_OK, ?b)" "lzma_block_unpadded_size (Some ?b) \<noteq> 0"
    "lzma_vli_is_valid (blk_uncompressed_size ?b)" "unat (blk_header_size ?b) \<le> length (replicate 16 (0 :: byte))" by code_simp+
  have v: "\<forall>f \<in> set (chain_of (the (blk_filters ?b))). flags_valid f"
    by (simp add: example_block_def chain_of_Cons flags_valid_def lzma_delta_coder_memusage_def)
  obtain ret hdr where e: "lzma_block_header_encode ?b (replicate 16 0) = (ret, hdr)" by (cases "lzma_block_header_encode ?b (replicate 16 0)")
  have c: "length (chain_of (the (blk_filters ?b))) = 2" "blk_version ?b = 0" "\<not> blk_ignore_check ?b" by code_simp+
  show "snd (lzma_block_header_decode (\<lambda>_. True) fresh (example_block\<lparr>blk_header_size := 16, blk_filters := Some (replicate 5 no_filter)\<rparr>)
     (snd (lzma_block_header_encode (example_block\<lparr>blk_header_size := 16\<rparr>) (replicate 16 0))))
   = example_block\<lparr>blk_header_size := 16, blk_filters := Some (map (flags_canonical fresh) (chain_of (the (blk_filters example_block))) @ replicate 3 no_filter)\<rparr>"
    using block_header_roundtrip [OF s(1-3) v s(4) e, of "example_block\<lparr>blk_header_size := 16, blk_filters := Some (replicate 5 no_filter)\<rparr>" "replicate 5 no_filter" fresh]
      c e by (cases example_block) simp
qed

subsection \<open>The sizes of a block\<close>

lemma lzma_check_size_le:
  assumes "\<not> check > LZMA_CHECK_ID_MAX"
  shows "lzma_check_size check \<le> 64"
proof -
  define sizes :: "u32 list" where "sizes = [0, 4, 4, 4, 8, 8, 8, 16, 16, 16, 32, 32, 32, 64, 64, 64]"
  have "list_all (\<lambda>s. s \<le> 64) sizes" by (simp add: sizes_def)
  moreover have "unat check < length sizes" using assms by (simp add: sizes_def not_less word_le_nat_alt)
  ultimately have "sizes ! unat check \<le> 64" by (simp add: list_all_length)
  then show ?thesis using assms by (simp add: lzma_check_size_def sizes_def)
qed

lemma UNPADDED_SIZE_MAX_value: "UNPADDED_SIZE_MAX = 0x7FFFFFFFFFFFFFFC"
  by (simp add: UNPADDED_SIZE_MAX_def)

text \<open>When \<open>lzma_block_compressed_size\<close> accepts an Unpadded Size that the format allows, the block it returns has
  exactly this Unpadded Size, and its Total Size is the next multiple of four, a valid integer.\<close>

theorem block_sizes_inverse:
  assumes "lzma_block_compressed_size b unpadded_size = (LZMA_OK, b')" and "unpadded_size \<le> UNPADDED_SIZE_MAX"
  shows "lzma_block_unpadded_size (Some b') = unpadded_size \<and> 4 dvd unat (lzma_block_total_size (Some b'))
    \<and> unat unpadded_size \<le> unat (lzma_block_total_size (Some b'))
    \<and> unat (lzma_block_total_size (Some b')) < unat unpadded_size + 4 \<and> lzma_block_total_size (Some b') \<le> LZMA_VLI_MAX"
proof -
  let ?h = "blk_header_size b" and ?s = "lzma_check_size (blk_check b)"
  have hdr: "blk_version b \<le> 1" "\<not> ?h < 8" "\<not> ?h > 1024" "?h AND 3 = 0" "\<not> blk_check b > LZMA_CHECK_ID_MAX"
    using assms(1) by (auto simp: lzma_block_compressed_size_def lzma_block_unpadded_size_def split: if_splits)
  have h: "unat ?h \<le> 1024" "unat ?s \<le> 64"
    using hdr lzma_check_size_le [OF hdr(5)] by (simp_all add: not_less word_le_nat_alt)
  then have hs: "unat (?h + ?s) = unat ?h + unat ?s" by (intro unat_add_small) simp
  then have c: "unat (ucast (?h + ?s) :: u64) = unat ?h + unat ?s" by (simp add: unat_ucast_up)
  let ?c = "unpadded_size - ucast (?h + ?s)"
  have b': "b' = b\<lparr>blk_compressed_size := ?c\<rparr>" and gt: "\<not> unpadded_size \<le> ucast (?h + ?s)"
    using assms(1) by (auto simp: lzma_block_compressed_size_def Let_def split: if_splits)
  have max: "unat unpadded_size \<le> 0x7FFFFFFFFFFFFFFC" using assms(2) by (simp add: UNPADDED_SIZE_MAX_value word_le_nat_alt)
  have uc: "unat ?c = unat unpadded_size - (unat ?h + unat ?s)" using gt c by (simp add: unat_sub word_le_nat_alt)
  have pos: "0 < unat ?c" using gt c unfolding uc by (simp add: word_le_nat_alt)
  have cle: "unat ?c \<le> 0x7FFFFFFFFFFFFFFC" using max unfolding uc by simp
  have cv: "?c \<noteq> 0" "?c \<noteq> LZMA_VLI_UNKNOWN" "lzma_vli_is_valid ?c"
  proof -
    show "?c \<noteq> 0" using pos by (metis less_irrefl unat_0)
    show "?c \<noteq> LZMA_VLI_UNKNOWN" using cle by (auto dest: arg_cong [of _ _ unat])
    show "lzma_vli_is_valid ?c" using cle by (simp add: lzma_vli_is_valid_def word_le_nat_alt)
  qed
  have sum: "?c + ucast ?h + ucast ?s = unpadded_size"
  proof -
    have "(ucast (?h + ?s) :: u64) = ucast ?h + ucast ?s"
      by (rule word_unat_eq_iff [THEN iffD2]) (simp add: c unat_add_small unat_ucast_up h order.strict_trans1 [OF add_mono [OF h]])
    then show ?thesis by simp
  qed
  have unp: "lzma_block_unpadded_size (Some b') = unpadded_size"
  proof -
    define cc where "cc = ?c"
    have "\<not> unpadded_size > UNPADDED_SIZE_MAX" "\<not> 1 < blk_version b" using assms(2) hdr by simp_all
    then show ?thesis using hdr(2-5) cv [folded cc_def] sum [folded cc_def]
      by (simp add: lzma_block_unpadded_size_def b' flip: cc_def)
  qed
  have tot: "lzma_block_total_size (Some b') = vli_ceil4 unpadded_size"
    using max unfolding lzma_block_total_size_def unp Let_def by (auto dest: arg_cong [of _ _ unat])
  have "unat (unpadded_size + 3) = unat unpadded_size + 3" using max by (intro unat_add_small [of unpadded_size 3, simplified]) simp
  then have t: "unat (vli_ceil4 unpadded_size) = (unat unpadded_size + 3) div 4 * 4" unfolding vli_ceil4_def unat_and_not_3 by simp
  have "(unat unpadded_size + 3) div 4 * 4 \<le> 0x7FFFFFFFFFFFFFFC" using max by presburger
  moreover have "unat unpadded_size \<le> (unat unpadded_size + 3) div 4 * 4" "(unat unpadded_size + 3) div 4 * 4 < unat unpadded_size + 4" by presburger+
  ultimately show ?thesis unfolding unp tot t by (simp add: word_le_nat_alt t)
qed

theorem block_sizes_inverse_witness:
  "lzma_block_unpadded_size (Some (example_block\<lparr>blk_header_size := 16, blk_compressed_size := 301\<rparr>)) = 321
   \<and> 4 dvd unat (lzma_block_total_size (Some (example_block\<lparr>blk_header_size := 16, blk_compressed_size := 301\<rparr>)))"
proof -
  have "lzma_block_compressed_size (example_block\<lparr>blk_header_size := 16, blk_compressed_size := LZMA_VLI_UNKNOWN\<rparr>) 321
      = (LZMA_OK, example_block\<lparr>blk_header_size := 16, blk_compressed_size := 301\<rparr>)" "321 \<le> UNPADDED_SIZE_MAX" by code_simp+
  from block_sizes_inverse [OF this] show ?thesis by simp
qed

end
