(* ===== verification/Rolling_Checksum.thy ===== *)
theory Rolling_Checksum
  imports Lzma_Prelude
begin

unbundle bit_operations_syntax

text \<open>
  The rolling checksum of src/BackupEngineNativePart/RollingChecksum.h and RollingChecksum.cpp. The buffers
  that the templates are instantiated with are the functions \<open>buffer\<close> from an index to a byte.
  \<open>rolling_of\<close> computes the checksum of a list of bytes by recursion; the lemmas show that the loops compute it, over one
  piece or over several, and that removing the first byte of a window and adding one at its end update it.
\<close>

type_synonym rolling_checksum_t = u32

subsection \<open>RollingChecksum.h\<close>

definition compute_rsync_rolling_checksum :: "(nat \<Rightarrow> byte) \<Rightarrow> nat \<Rightarrow> rolling_checksum_t" where
  "compute_rsync_rolling_checksum buffer sz =
     (let (a, b) = fold (\<lambda>i (a, b).
            let k = ucast (buffer i) in (a + k, b + k * word_of_nat (sz - i + 1))) [0..<sz] (0, 0);
          a = a AND 0xFFFF;
          b = b AND 0xFFFF
      in a OR push_bit 16 b)"

definition compute_rsync_rolling_checksum_piece ::
  "(nat \<Rightarrow> byte) \<Rightarrow> nat \<Rightarrow> u64 \<Rightarrow> u64 \<Rightarrow> rolling_checksum_t \<Rightarrow> rolling_checksum_t" where
  "compute_rsync_rolling_checksum_piece buffer piece_size offset logical_size previous =
     (let a = previous AND 0xFFFF;
          b = drop_bit 16 previous AND 0xFFFF;
          (a, b) = fold (\<lambda>i (a, b).
            let k = ucast (buffer i) in (a + k, b + k * ucast (logical_size - (word_of_nat i + offset) + 1))) [0..<piece_size] (a, b);
          a = a AND 0xFFFF;
          b = b AND 0xFFFF
      in a OR push_bit 16 b)"

subsection \<open>RollingChecksum.cpp\<close>

definition subtract_rsync_rolling_checksum :: "rolling_checksum_t \<Rightarrow> byte \<Rightarrow> u64 \<Rightarrow> rolling_checksum_t" where
  "subtract_rsync_rolling_checksum previous byte_to_subtract sz =
     (let a = previous AND 0xFFFF;
          b = drop_bit 16 previous AND 0xFFFF;
          a = a + 0x10000;
          a = a - ucast byte_to_subtract;
          a = a AND 0xFFFF;
          b = b + 0xFFFF0000;
          b = b - ucast (ucast byte_to_subtract * (sz + 1));
          b = b AND 0xFFFF
      in a OR push_bit 16 b)"

definition add_rsync_rolling_checksum :: "rolling_checksum_t \<Rightarrow> byte \<Rightarrow> u64 \<Rightarrow> rolling_checksum_t" where
  "add_rsync_rolling_checksum previous byte_to_add sz =
     (let a = previous AND 0xFFFF;
          b = drop_bit 16 previous AND 0xFFFF;
          a = a + ucast byte_to_add;
          a = a AND 0xFFFF;
          b = b + a;
          b = b + ucast byte_to_add;
          b = b AND 0xFFFF
      in a OR push_bit 16 b)"

subsection \<open>Lower halves\<close>

text \<open>The two halves of a checksum are sums modulo 65536, so they are compared as 16-bit words.\<close>

abbreviation (input) half :: "'a::len word \<Rightarrow> 16 word" where "half \<equiv> ucast"

lemma ucast_down:
  assumes "LENGTH('b::len) \<le> LENGTH('a::len)"
  shows "(ucast (x + y :: 'a word) :: 'b word) = ucast x + ucast y"
    and "(ucast (x - y :: 'a word) :: 'b word) = ucast x - ucast y"
    and "(ucast (x * y :: 'a word) :: 'b word) = ucast x * ucast y"
proof -
  have u: "uint (ucast w :: 'b word) = take_bit LENGTH('b) (uint w)" for w :: "'a word" by (rule unsigned_ucast_eq)
  have t: "take_bit LENGTH('b) (take_bit LENGTH('a) k) = take_bit LENGTH('b) k" for k :: int
    using assms by (simp add: min_absorb2 min_absorb1)
  note w = uint_word_arith_bintrs
  show "(ucast (x + y :: 'a word) :: 'b word) = ucast x + ucast y"
    by (rule word_uint_eq_iff [THEN iffD2]) (simp only: u w t take_bit_add)
  show "(ucast (x - y :: 'a word) :: 'b word) = ucast x - ucast y"
    by (rule word_uint_eq_iff [THEN iffD2]) (simp only: u w t take_bit_diff)
  show "(ucast (x * y :: 'a word) :: 'b word) = ucast x * ucast y"
    by (rule word_uint_eq_iff [THEN iffD2]) (simp only: u w t take_bit_mult)
qed

lemma ucast_word_of_nat_down:
  assumes "LENGTH('b::len) \<le> LENGTH('a::len)"
  shows "(ucast (word_of_nat n :: 'a word) :: 'b word) = word_of_nat n"
  using assms by transfer (simp add: min_absorb2)

lemma ucast_ucast_down:
  assumes "LENGTH('c::len) \<le> LENGTH('b::len)"
  shows "(ucast (ucast (x :: 'a::len word) :: 'b word) :: 'c word) = ucast x"
  using assms by transfer (simp add: min_absorb2)

lemma FFFF: "(0xFFFF :: u32) = mask 16"
  by (simp add: mask_eq_exp_minus_1)

lemma half_and_FFFF: "half ((w :: u32) AND 0xFFFF) = half w"
  unfolding FFFF by (rule bit_word_eqI) (auto simp: bit_simps)

lemma and_FFFF_half: "(w :: u32) AND 0xFFFF = ucast (half w)"
  unfolding FFFF by (rule bit_word_eqI) (auto simp: bit_simps)

definition pack :: "16 word \<Rightarrow> 16 word \<Rightarrow> rolling_checksum_t" where
  "pack a b = ucast a OR push_bit 16 (ucast b)"

lemma pack_parts: "half (pack a b) = a" "half (drop_bit 16 (pack a b)) = b"
  by (rule bit_word_eqI; auto simp: pack_def bit_simps dest: bit_imp_le_length)+

lemmas half_arith = ucast_down [where 'a = 32 and 'b = 16, simplified] ucast_word_of_nat_down [where 'a = 32 and 'b = 16, simplified]
  ucast_ucast_down [where 'b = 32 and 'c = 16, simplified] ucast_ucast_down [where 'b = 64 and 'c = 16, simplified]
  ucast_down [where 'a = 64 and 'b = 16, simplified] ucast_word_of_nat_down [where 'a = 64 and 'b = 16, simplified]

subsection \<open>The checksum of a list\<close>

fun rolling_a :: "byte list \<Rightarrow> 16 word" where
  "rolling_a [] = 0"
| "rolling_a (x # xs) = ucast x + rolling_a xs"

fun rolling_b :: "nat \<Rightarrow> byte list \<Rightarrow> 16 word" where
  "rolling_b n [] = 0"
| "rolling_b n (x # xs) = ucast x * word_of_nat (n + length xs + 2) + rolling_b n xs"

text \<open>\<open>rolling_b n xs\<close> is the weighted sum of bytes that \<open>n\<close> others follow.\<close>

definition rolling_of :: "byte list \<Rightarrow> rolling_checksum_t" where
  "rolling_of xs = pack (rolling_a xs) (rolling_b 0 xs)"

lemma rolling_a_append: "rolling_a (xs @ ys) = rolling_a xs + rolling_a ys"
  by (induction xs) simp_all

lemma rolling_b_append: "rolling_b n (xs @ ys) = rolling_b (n + length ys) xs + rolling_b n ys"
  by (induction xs) (simp_all add: algebra_simps)

lemma rolling_b_Suc: "rolling_b (Suc n) xs = rolling_b n xs + rolling_a xs"
  by (induction xs) (simp_all add: algebra_simps)

subsection \<open>The loops compute it\<close>

lemma rolling_loop:
  fixes w :: "nat \<Rightarrow> u32" and a b :: u32
  assumes "\<And>i. i < n \<Longrightarrow> half (w i) = word_of_nat (m + (n - i) + 1)"
  shows "\<exists>a' b'. fold (\<lambda>i (a, b). let k = ucast (buffer i) in (a + k, b + k * w i)) [0..<n] (a, b) = (a', b')
    \<and> half a' = half a + rolling_a (map buffer [0..<n]) \<and> half b' = half b + rolling_b m (map buffer [0..<n])"
  using assms
proof (induction n arbitrary: m)
  case (Suc n)
  have "half (w i) = word_of_nat (Suc m + (n - i) + 1)" if "i < n" for i
    using Suc.prems [of i] that by (simp add: Suc_diff_le)
  from Suc.IH [OF this] obtain a' b' where ab:
    "fold (\<lambda>i (a, b). let k = ucast (buffer i) in (a + k, b + k * w i)) [0..<n] (a, b) = (a', b')"
    "half a' = half a + rolling_a (map buffer [0..<n])" "half b' = half b + rolling_b (Suc m) (map buffer [0..<n])"
    by blast
  let ?k = "ucast (buffer n) :: u32"
  have "half (w n) = word_of_nat (m + 2)" using Suc.prems [of n] by simp
  then have "half (b' + ?k * w n) = half b + rolling_b m (map buffer [0..<Suc n])"
    by (simp only: half_arith ab(3)) (simp add: rolling_b_append add.assoc)
  moreover have "half (a' + ?k) = half a + rolling_a (map buffer [0..<Suc n])"
    by (simp only: half_arith ab(2)) (simp add: rolling_a_append add.assoc)
  moreover have "fold (\<lambda>i (a, b). let k = ucast (buffer i) in (a + k, b + k * w i)) [0..<Suc n] (a, b) = (a' + ?k, b' + ?k * w n)"
    using ab(1) by (simp add: Let_def)
  ultimately show ?case by blast
qed simp

lemma pack_halves: "(a AND 0xFFFF) OR push_bit 16 (b AND 0xFFFF) = pack (half a) (half b)" for a b :: u32
  by (simp add: pack_def and_FFFF_half)

lemma compute_rolling_eq: "compute_rsync_rolling_checksum buffer n = rolling_of (map buffer [0..<n])"
proof -
  have w: "half (word_of_nat (n - i + 1) :: u32) = word_of_nat (0 + (n - i) + 1)" if "i < n" for i
    by (simp only: half_arith add_0)
  have "\<exists>a' b'. fold (\<lambda>i (a, b). let k = ucast (buffer i) in (a + k, b + k * word_of_nat (n - i + 1))) [0..<n] (0 :: u32, 0 :: u32) = (a', b')
      \<and> half a' = rolling_a (map buffer [0..<n]) \<and> half b' = rolling_b 0 (map buffer [0..<n])"
    using rolling_loop [OF w, of buffer 0 0] by (simp only: unsigned_0 add_0)
  then obtain a' b' where "fold (\<lambda>i (a, b). let k = ucast (buffer i) in (a + k, b + k * word_of_nat (n - i + 1))) [0..<n] (0 :: u32, 0 :: u32) = (a', b')"
    "half a' = rolling_a (map buffer [0..<n])" "half b' = rolling_b 0 (map buffer [0..<n])" by blast
  then show ?thesis
    unfolding compute_rsync_rolling_checksum_def rolling_of_def by (simp only: Let_def prod.case pack_halves)
qed

lemma compute_rolling_piece_eq:
  assumes "n + l = unat (logical_size - offset)"
  shows "compute_rsync_rolling_checksum_piece buffer n offset logical_size (pack a b) =
    pack (a + rolling_a (map buffer [0..<n])) (b + rolling_b l (map buffer [0..<n]))"
proof -
  let ?w = "\<lambda>i. ucast (logical_size - (word_of_nat i + offset) + 1) :: u32"
  have "half (?w i) = word_of_nat (l + (n - i) + 1)" if "i < n" for i
  proof -
    have "logical_size - (word_of_nat i + offset) = word_of_nat (n + l) - word_of_nat i"
      unfolding assms by (simp add: algebra_simps)
    also have "\<dots> = word_of_nat (l + (n - i))" using that by (simp add: of_nat_diff algebra_simps)
    finally show ?thesis by (simp add: half_arith)
  qed
  from rolling_loop [of n ?w l buffer "ucast a" "ucast b", OF this]
  obtain a' b' where "fold (\<lambda>i (a, b). let k = ucast (buffer i) in (a + k, b + k * ?w i)) [0..<n] (ucast a, ucast b) = (a', b')"
    "half a' = a + rolling_a (map buffer [0..<n])" "half b' = b + rolling_b l (map buffer [0..<n])"
    by (auto simp: half_arith)
  then show ?thesis
    unfolding compute_rsync_rolling_checksum_piece_def by (simp only: Let_def prod.case and_FFFF_half pack_parts flip: pack_def)
qed

lemma subtract_rolling_eq:
  "subtract_rsync_rolling_checksum (rolling_of (x # xs)) x (word_of_nat (length xs + 1)) = rolling_of xs"
proof -
  have z: "half (0xFFFF0000 :: u32) = 0" "half (0x10000 :: u32) = 0" by simp_all
  have "half (ucast (ucast x * (word_of_nat (length xs + 1) + 1) :: u64) :: u32) = ucast x * word_of_nat (0 + length xs + 2)"
  proof -
    have "(word_of_nat (length xs + 1) + 1 :: u64) = word_of_nat (0 + length xs + 2)" by simp
    then show ?thesis by (simp only: half_arith)
  qed
  note b = this
  show ?thesis
    unfolding subtract_rsync_rolling_checksum_def rolling_of_def Let_def pack_halves and_FFFF_half pack_parts half_arith z b
      rolling_a.simps rolling_b.simps by (simp add: half_arith flip: pack_def)
qed

lemma add_rolling_eq: "add_rsync_rolling_checksum (rolling_of xs) x sz = rolling_of (xs @ [x])"
  unfolding add_rsync_rolling_checksum_def rolling_of_def
  by (simp only: Let_def and_FFFF_half pack_parts half_arith rolling_a_append rolling_b_append flip: pack_def)
    (simp add: rolling_b_Suc ac_simps)

text \<open>C34. Sliding the window: removing the first byte from the checksum of a window and adding a byte at its end gives
  the checksum of the new window as it is computed from scratch, for windows of any length.\<close>

theorem rolling_checksum_slides:
  "add_rsync_rolling_checksum (subtract_rsync_rolling_checksum
      (compute_rsync_rolling_checksum ((!) (x # xs)) (length (x # xs))) x (word_of_nat (length (x # xs)))) y n =
    compute_rsync_rolling_checksum ((!) (xs @ [y])) (length (xs @ [y]))"
  unfolding compute_rolling_eq map_nth by (simp add: subtract_rolling_eq [simplified] add_rolling_eq)

text \<open>A checksum computed piece by piece, with the offset of each piece in data of a known total length, is the
  checksum of the whole.\<close>

theorem rolling_checksum_pieces:
  assumes "length (xs @ ys) < 2 ^ 64" and "n = word_of_nat (length (xs @ ys))"
  shows "compute_rsync_rolling_checksum_piece ((!) ys) (length ys) (word_of_nat (length xs)) n
      (compute_rsync_rolling_checksum_piece ((!) xs) (length xs) 0 n 0) =
    compute_rsync_rolling_checksum ((!) (xs @ ys)) (length (xs @ ys))"
proof -
  have small: "unat (word_of_nat k :: u64) = k" if "k < 2 ^ 64" for k using that by (simp add: unat_of_nat)
  have n: "unat n = length (xs @ ys)" unfolding assms(2) by (rule small) (use assms(1) in simp)
  have z: "(0 :: u32) = pack 0 0" by (simp add: pack_def)
  have d: "n - word_of_nat (length xs) = word_of_nat (length ys)" by (simp add: assms(2))
  have "unat (n - word_of_nat (length xs)) = length ys" unfolding d by (rule small) (use assms(1) in simp)
  then show ?thesis
    using compute_rolling_piece_eq [of "length xs" "length ys" n 0 "(!) xs" 0 0] n
      compute_rolling_piece_eq [of "length ys" 0 n "word_of_nat (length xs)" "(!) ys" "rolling_a xs" "rolling_b (length ys) xs"]
    unfolding compute_rolling_eq map_nth z by (simp add: rolling_of_def rolling_a_append rolling_b_append)
qed

theorem rolling_checksum_pieces_witness:
  "compute_rsync_rolling_checksum_piece ((!) [3, 200]) 2 2 4 (compute_rsync_rolling_checksum_piece ((!) [7, 255]) 2 0 4 0) = 0x05B801D1"
proof -
  have "compute_rsync_rolling_checksum ((!) ([7, 255] @ [3, 200])) (length ([7, 255] @ [3, 200 :: byte])) = 0x05B801D1" by code_simp
  moreover have h: "length ([7, 255] @ [3, 200 :: byte]) < 2 ^ 64" "(4 :: u64) = word_of_nat (length ([7, 255] @ [3, 200 :: byte]))"
    by simp_all
  moreover have len: "length [7, 255 :: byte] = 2" "length [3, 200 :: byte] = 2" by simp_all
  ultimately show ?thesis using rolling_checksum_pieces [OF h] by (simp only: len of_nat_numeral)
qed

end
