(* ===== verification/Circular_Buffer.thy ===== *)
theory Circular_Buffer
  imports Rolling_Checksum
begin

text \<open>
  The circular buffer of src/BackupEngineNativePart/circular\_buffer.h and circular\_buffer.cpp, with the checksum of a
  circular buffer of RollingChecksum.cpp. \<open>cb_contents\<close> are the bytes a buffer holds, in order; \<open>byte_queue\<close> is
  the contract of \<open>pop\<close> and \<open>push\<close>, and its instance shows that the buffer is a bounded queue.
  \<open>fresh i\<close> is the content of byte \<open>i\<close> of newly allocated memory.
\<close>

subsection \<open>circular\_buffer.h, circular\_buffer.cpp\<close>

record circular_buffer =
  cb_buffer :: "byte list"
  cb_capacity :: nat
  cb_size :: nat
  cb_start :: nat

definition cb_reset :: "circular_buffer \<Rightarrow> circular_buffer" where
  "cb_reset cb = cb\<lparr>cb_size := cb_capacity cb, cb_start := 0\<rparr>"

definition cb_realloc :: "(nat \<Rightarrow> byte) \<Rightarrow> nat \<Rightarrow> circular_buffer \<Rightarrow> circular_buffer" where
  "cb_realloc fresh n cb =
     (let cb = (if cb_capacity cb \<noteq> n then cb\<lparr>cb_buffer := map fresh [0..<n]\<rparr> else cb)
      in cb_reset (cb\<lparr>cb_capacity := n\<rparr>))"

definition cb_new :: "(nat \<Rightarrow> byte) \<Rightarrow> nat \<Rightarrow> circular_buffer" where
  "cb_new fresh initial_size =
     cb_realloc fresh initial_size \<lparr>cb_buffer = [], cb_capacity = 0, cb_size = 0, cb_start = 0\<rparr>"

definition cb_pop :: "circular_buffer \<Rightarrow> byte \<times> circular_buffer" where
  "cb_pop cb =
     (if cb_size cb = 0 then (0, cb)
      else (cb_buffer cb ! cb_start cb,
            cb\<lparr>cb_start := (cb_start cb + 1) mod cb_capacity cb, cb_size := cb_size cb - 1\<rparr>))"

definition cb_push :: "byte \<Rightarrow> circular_buffer \<Rightarrow> byte \<times> circular_buffer" where
  "cb_push ret cb =
     (if cb_size cb = cb_capacity cb then (0, cb)
      else (ret, cb\<lparr>cb_buffer := (cb_buffer cb)[(cb_start cb + cb_size cb) mod cb_capacity cb := ret],
                   cb_size := cb_size cb + 1\<rparr>))"

definition cb_single_piece :: "circular_buffer \<Rightarrow> bool" where
  "cb_single_piece cb \<longleftrightarrow> cb_start cb + cb_size cb \<le> cb_capacity cb"

definition cb_process_whole :: "(byte list \<Rightarrow> 'a \<Rightarrow> 'a) \<Rightarrow> circular_buffer \<Rightarrow> 'a \<Rightarrow> 'a" where
  "cb_process_whole f cb s =
     (if cb_start cb + cb_size cb \<le> cb_capacity cb
      then f (take (cb_size cb) (drop (cb_start cb) (cb_buffer cb))) s
      else f (take ((cb_start cb + cb_size cb) mod cb_capacity cb) (cb_buffer cb))
             (f (take (cb_capacity cb - cb_start cb) (drop (cb_start cb) (cb_buffer cb))) s))"

definition cb_index :: "circular_buffer \<Rightarrow> nat \<Rightarrow> byte" where
  "cb_index cb i = cb_buffer cb ! ((i mod cb_size cb + cb_start cb) mod cb_capacity cb)"

definition cb_push_buffer :: "byte list \<Rightarrow> circular_buffer \<Rightarrow> circular_buffer" where
  "cb_push_buffer buf cb =
     (let sz = min (length buf) (cb_capacity cb - cb_size cb);
          start = (cb_start cb + cb_size cb) mod cb_capacity cb;
          buffer = (if start + sz \<le> cb_capacity cb then put_bytes (cb_buffer cb) start (take sz buf)
                    else put_bytes (put_bytes (cb_buffer cb) start (take (cb_capacity cb - start) buf)) 0
                           (take ((start + sz) mod cb_capacity cb) buf))
      in cb\<lparr>cb_buffer := buffer, cb_size := cb_size cb + sz\<rparr>)"

text \<open>The result is the buffer and the destination.\<close>

definition cb_pop_buffer :: "circular_buffer \<Rightarrow> circular_buffer \<Rightarrow> circular_buffer \<times> circular_buffer" where
  "cb_pop_buffer cb dst =
     (let initial_size = cb_size dst;
          dst = cb_process_whole cb_push_buffer cb dst;
          n = cb_size dst - initial_size
      in (cb\<lparr>cb_start := cb_start cb + n, cb_size := cb_size cb - n\<rparr>, dst))"

definition cb_trim :: "nat \<Rightarrow> circular_buffer \<Rightarrow> circular_buffer" where
  "cb_trim n cb = (if n > cb_size cb then cb else cb\<lparr>cb_size := n\<rparr>)"

definition cb_reset_size :: "circular_buffer \<Rightarrow> circular_buffer" where
  "cb_reset_size cb = cb\<lparr>cb_size := 0\<rparr>"

subsection \<open>RollingChecksum.cpp\<close>

definition cb_rolling_checksum :: "circular_buffer \<Rightarrow> rolling_checksum_t" where
  "cb_rolling_checksum buffer =
     (if cb_single_piece buffer
      then compute_rsync_rolling_checksum (\<lambda>i. cb_buffer buffer ! (cb_start buffer + i)) (cb_size buffer)
      else compute_rsync_rolling_checksum (cb_index buffer) (cb_size buffer))"

definition cb_rolling_checksum_piece :: "circular_buffer \<Rightarrow> u64 \<Rightarrow> u64 \<Rightarrow> rolling_checksum_t \<Rightarrow> rolling_checksum_t" where
  "cb_rolling_checksum_piece buffer offset logical_size previous =
     (if cb_single_piece buffer
      then compute_rsync_rolling_checksum_piece (\<lambda>i. cb_buffer buffer ! (cb_start buffer + i)) (cb_size buffer)
             offset logical_size previous
      else compute_rsync_rolling_checksum_piece (cb_index buffer) (cb_size buffer) offset logical_size previous)"

subsection \<open>The bytes it holds\<close>

definition cb_contents :: "circular_buffer \<Rightarrow> byte list" where
  "cb_contents cb = map (\<lambda>i. cb_buffer cb ! ((cb_start cb + i) mod cb_capacity cb)) [0..<cb_size cb]"

definition cb_ok :: "circular_buffer \<Rightarrow> bool" where
  "cb_ok cb \<longleftrightarrow> length (cb_buffer cb) = cb_capacity cb \<and> cb_size cb \<le> cb_capacity cb \<and> cb_start cb < cb_capacity cb"

lemma length_cb_contents [simp]: "length (cb_contents cb) = cb_size cb"
  by (simp add: cb_contents_def)

lemma cb_pop_contents:
  assumes "cb_ok cb" and "cb_contents cb = x # xs"
  shows "fst (cb_pop cb) = x" and "cb_contents (snd (cb_pop cb)) = xs" and "cb_ok (snd (cb_pop cb))"
proof -
  let ?f = "\<lambda>s i. cb_buffer cb ! ((s + i) mod cb_capacity cb)"
  obtain n where n: "cb_size cb = Suc n" using arg_cong [OF assms(2), of length] by simp
  have "[0..<Suc n] = 0 # map Suc [0..<n]" by (simp add: map_Suc_upt upt_conv_Cons)
  then have c: "x = ?f (cb_start cb) 0" "xs = map (\<lambda>i. ?f (cb_start cb) (Suc i)) [0..<n]"
    using assms(2) unfolding cb_contents_def n by (simp_all del: upt_Suc add: comp_def)
  show "fst (cb_pop cb) = x" using c(1) assms(1) by (simp add: cb_pop_def n cb_ok_def)
  show "cb_contents (snd (cb_pop cb)) = xs"
    by (simp add: cb_pop_def n c(2) cb_contents_def mod_add_left_eq [of "Suc (cb_start cb)", simplified])
  show "cb_ok (snd (cb_pop cb))" using assms(1) by (simp add: cb_pop_def n cb_ok_def)
qed

lemma mod_add_distinct:
  fixes s i j n :: nat
  assumes "i < j" and "j < n"
  shows "(s + i) mod n \<noteq> (s + j) mod n"
proof
  assume "(s + i) mod n = (s + j) mod n"
  then have "n dvd (s + j) - (s + i)" using assms by (intro mod_eq_dvd_iff_nat [THEN iffD1]) simp_all
  then have "n dvd j - i" by simp
  then show False using assms by (auto dest: dvd_imp_le)
qed

lemma cb_push_contents:
  assumes "cb_ok cb" and "cb_size cb < cb_capacity cb"
  shows "fst (cb_push x cb) = x" and "cb_contents (snd (cb_push x cb)) = cb_contents cb @ [x]" and "cb_ok (snd (cb_push x cb))"
    and "cb_capacity (snd (cb_push x cb)) = cb_capacity cb"
proof -
  show "fst (cb_push x cb) = x" "cb_ok (snd (cb_push x cb))" "cb_capacity (snd (cb_push x cb)) = cb_capacity cb"
    using assms by (simp_all add: cb_push_def cb_ok_def)
  have "(cb_start cb + cb_size cb) mod cb_capacity cb \<noteq> (cb_start cb + i) mod cb_capacity cb" if "i < cb_size cb" for i
    using mod_add_distinct [OF that assms(2), of "cb_start cb"] by simp
  then show "cb_contents (snd (cb_push x cb)) = cb_contents cb @ [x]"
    using assms by (auto simp: cb_push_def cb_contents_def cb_ok_def)
qed

lemma cb_push_full: "cb_size cb = cb_capacity cb \<Longrightarrow> cb_push x cb = (0, cb)"
  by (simp add: cb_push_def)

text \<open>Without wrap-around the bytes are a part of the memory.\<close>

lemma cb_contents_single:
  assumes "cb_start cb + cb_size cb \<le> cb_capacity cb" and "length (cb_buffer cb) = cb_capacity cb"
  shows "cb_contents cb = take (cb_size cb) (drop (cb_start cb) (cb_buffer cb))"
  using assms by (intro nth_equalityI) (simp_all add: cb_contents_def)

lemma cb_contents_two:
  assumes "\<not> cb_start cb + cb_size cb \<le> cb_capacity cb" and "cb_ok cb"
  shows "cb_contents cb = drop (cb_start cb) (cb_buffer cb) @ take (cb_start cb + cb_size cb - cb_capacity cb) (cb_buffer cb)"
proof (rule nth_equalityI)
  show "length (cb_contents cb) = length (drop (cb_start cb) (cb_buffer cb) @ take (cb_start cb + cb_size cb - cb_capacity cb) (cb_buffer cb))"
    using assms by (auto simp: cb_ok_def min_def)
next
  fix i assume i: "i < length (cb_contents cb)"
  show "cb_contents cb ! i = (drop (cb_start cb) (cb_buffer cb) @ take (cb_start cb + cb_size cb - cb_capacity cb) (cb_buffer cb)) ! i"
  proof (cases "cb_start cb + i < cb_capacity cb")
    case True
    then have "i < cb_capacity cb - cb_start cb" by simp
    then show ?thesis using True assms i by (simp add: cb_contents_def nth_append cb_ok_def)
  next
    case False
    then have "(cb_start cb + i) mod cb_capacity cb = cb_start cb + i - cb_capacity cb"
      using assms i by (auto simp: mod_if cb_ok_def)
    moreover have "\<not> i < cb_capacity cb - cb_start cb" "i - (cb_capacity cb - cb_start cb) = cb_start cb + i - cb_capacity cb"
      using False assms(2) by (auto simp: cb_ok_def)
    ultimately show ?thesis using assms i by (auto simp: cb_contents_def nth_append cb_ok_def)
  qed
qed

lemma cb_process_whole_contents:
  assumes "cb_ok cb" and "\<And>xs ys s. f (xs @ ys) s = f ys (f xs s)"
  shows "cb_process_whole f cb s = f (cb_contents cb) s"
proof (cases "cb_start cb + cb_size cb \<le> cb_capacity cb")
  case True
  then show ?thesis using assms(1) by (simp add: cb_process_whole_def cb_contents_single cb_ok_def)
next
  case False
  then have "(cb_start cb + cb_size cb) mod cb_capacity cb = cb_start cb + cb_size cb - cb_capacity cb"
    using assms(1) by (auto simp: mod_if cb_ok_def)
  then show ?thesis using False assms by (simp add: cb_process_whole_def cb_contents_two cb_ok_def)
qed

lemma cb_rolling_checksum_contents:
  assumes "cb_ok cb"
  shows "cb_rolling_checksum cb = rolling_of (cb_contents cb)"
proof -
  have "map (cb_index cb) [0..<cb_size cb] = cb_contents cb"
    by (simp add: cb_contents_def cb_index_def add.commute)
  moreover have "map (\<lambda>i. cb_buffer cb ! (cb_start cb + i)) [0..<cb_size cb] = cb_contents cb" if "cb_single_piece cb"
    using that by (simp add: cb_contents_def cb_single_piece_def)
  ultimately show ?thesis by (simp add: cb_rolling_checksum_def compute_rolling_eq)
qed

subsection \<open>Blocks of bytes\<close>

text \<open>The destinations in the program start at the beginning of their memory, so they do not wrap around.\<close>

definition cb_flat :: "circular_buffer \<Rightarrow> bool" where
  "cb_flat cb \<longleftrightarrow> length (cb_buffer cb) = cb_capacity cb \<and> cb_start cb + cb_size cb \<le> cb_capacity cb"

lemma cb_flat_contents: "cb_flat cb \<Longrightarrow> cb_contents cb = take (cb_size cb) (drop (cb_start cb) (cb_buffer cb))"
  by (simp add: cb_flat_def cb_contents_single)

lemma cb_flat_ok: "cb_flat cb \<Longrightarrow> cb_start cb < cb_capacity cb \<Longrightarrow> cb_ok cb"
  by (simp add: cb_flat_def cb_ok_def)

lemma cb_realloc_flat: "cb_flat (cb_reset_size (cb_realloc fresh n cb))" "cb_start (cb_reset_size (cb_realloc fresh n cb)) = 0"
    "cb_capacity (cb_reset_size (cb_realloc fresh n cb)) = n" "cb_size (cb_reset_size (cb_realloc fresh n cb)) = 0"
  if "length (cb_buffer cb) = cb_capacity cb"
  using that by (simp_all add: cb_flat_def cb_reset_size_def cb_realloc_def cb_reset_def Let_def)

lemma cb_push_buffer_flat:
  assumes "cb_flat cb" and "cb_start cb = 0" and n_def: "n = min (length buf) (cb_capacity cb - cb_size cb)"
  shows "cb_contents (cb_push_buffer buf cb) = cb_contents cb @ take n buf" and "cb_flat (cb_push_buffer buf cb)"
    and "cb_start (cb_push_buffer buf cb) = 0" and "cb_capacity (cb_push_buffer buf cb) = cb_capacity cb"
    and "cb_size (cb_push_buffer buf cb) = cb_size cb + n"
proof -
  have sz: "cb_size cb \<le> cb_capacity cb" "length (cb_buffer cb) = cb_capacity cb" using assms(1,2) by (simp_all add: cb_flat_def)
  have p: "cb_push_buffer buf cb = cb\<lparr>cb_buffer := put_bytes (cb_buffer cb) (cb_size cb) (take n buf), cb_size := cb_size cb + n\<rparr>"
  proof (cases "cb_size cb = cb_capacity cb")
    case True
    then have "n = 0" by (simp add: n_def)
    with True assms(2) show ?thesis by (simp add: cb_push_buffer_def Let_def)
  next
    case False
    then have "cb_size cb mod cb_capacity cb = cb_size cb" using sz by simp
    moreover have "cb_size cb + n \<le> cb_capacity cb" using sz unfolding n_def by simp
    ultimately show ?thesis using assms(2) by (simp add: cb_push_buffer_def Let_def n_def)
  qed
  have len: "cb_size cb + length (take n buf) \<le> cb_capacity cb" "length (take n buf) = n" using sz by (simp_all add: n_def)
  show "cb_start (cb_push_buffer buf cb) = 0" "cb_capacity (cb_push_buffer buf cb) = cb_capacity cb"
    "cb_size (cb_push_buffer buf cb) = cb_size cb + n" using assms(2) by (simp_all add: p)
  show flat: "cb_flat (cb_push_buffer buf cb)" using len sz assms(2) by (simp add: p cb_flat_def)
  show "cb_contents (cb_push_buffer buf cb) = cb_contents cb @ take n buf"
    unfolding cb_flat_contents [OF flat] cb_flat_contents [OF assms(1)] using assms(2) len sz by (simp add: p put_bytes_def)
qed

lemma cb_pop_buffer_flat:
  assumes "cb_flat cb" and "cb_flat dst" and "cb_start dst = 0" and n_def: "n = min (cb_size cb) (cb_capacity dst - cb_size dst)"
  shows "cb_contents (snd (cb_pop_buffer cb dst)) = cb_contents dst @ take n (cb_contents cb)"
    and "cb_contents (fst (cb_pop_buffer cb dst)) = drop n (cb_contents cb)"
    and "cb_flat (fst (cb_pop_buffer cb dst))" and "cb_flat (snd (cb_pop_buffer cb dst))"
    and "cb_start (snd (cb_pop_buffer cb dst)) = 0" and "cb_capacity (snd (cb_pop_buffer cb dst)) = cb_capacity dst"
    and "cb_start (fst (cb_pop_buffer cb dst)) = cb_start cb + n" and "cb_capacity (fst (cb_pop_buffer cb dst)) = cb_capacity cb"
proof -
  have w: "cb_process_whole cb_push_buffer cb dst = cb_push_buffer (cb_contents cb) dst"
    using assms(1) by (simp add: cb_process_whole_def cb_flat_contents cb_flat_def)
  have n: "n = min (length (cb_contents cb)) (cb_capacity dst - cb_size dst)" by (simp add: n_def)
  note push = cb_push_buffer_flat [OF assms(2,3) n]
  have p: "cb_pop_buffer cb dst = (cb\<lparr>cb_start := cb_start cb + n, cb_size := cb_size cb - n\<rparr>, cb_push_buffer (cb_contents cb) dst)"
    by (simp add: cb_pop_buffer_def w push(5))
  have le: "n \<le> cb_size cb" by (simp add: n_def)
  show "cb_contents (snd (cb_pop_buffer cb dst)) = cb_contents dst @ take n (cb_contents cb)"
    "cb_flat (snd (cb_pop_buffer cb dst))" "cb_start (snd (cb_pop_buffer cb dst)) = 0"
    "cb_capacity (snd (cb_pop_buffer cb dst)) = cb_capacity dst"
    using push by (simp_all add: p)
  show flat: "cb_flat (fst (cb_pop_buffer cb dst))" using assms(1) le by (simp add: p cb_flat_def)
  show "cb_contents (fst (cb_pop_buffer cb dst)) = drop n (cb_contents cb)"
    unfolding cb_flat_contents [OF flat] cb_flat_contents [OF assms(1)] using le by (simp add: p drop_take add.commute)
  show "cb_start (fst (cb_pop_buffer cb dst)) = cb_start cb + n" "cb_capacity (fst (cb_pop_buffer cb dst)) = cb_capacity cb"
    by (simp_all add: p)
qed

subsection \<open>A bounded queue\<close>

datatype queue_op = Pop | Push byte

text \<open>The abstract queue: a list with a bound.\<close>

fun queue_step :: "nat \<Rightarrow> queue_op \<Rightarrow> byte list \<Rightarrow> byte \<times> byte list" where
  "queue_step n Pop [] = (0, [])"
| "queue_step n Pop (x # xs) = (x, xs)"
| "queue_step n (Push x) xs = (if length xs < n then (x, xs @ [x]) else (0, xs))"

fun run_ops :: "(queue_op \<Rightarrow> 's \<Rightarrow> byte \<times> 's) \<Rightarrow> queue_op list \<Rightarrow> 's \<Rightarrow> byte list \<times> 's" where
  "run_ops step [] s = ([], s)"
| "run_ops step (op # ops) s = (let (b, s) = step op s; (bs, s) = run_ops step ops s in (b # bs, s))"

locale byte_queue =
  fixes pop :: "'s \<Rightarrow> byte \<times> 's"
    and push :: "byte \<Rightarrow> 's \<Rightarrow> byte \<times> 's"
    and contents :: "'s \<Rightarrow> byte list"
    and bound :: "'s \<Rightarrow> nat"
    and ok :: "'s \<Rightarrow> bool"
  assumes pop_step: "ok s \<Longrightarrow> pop s = (b, s') \<Longrightarrow> queue_step (bound s) Pop (contents s) = (b, contents s') \<and> ok s' \<and> bound s' = bound s"
    and push_step: "ok s \<Longrightarrow> push x s = (b, s') \<Longrightarrow>
      queue_step (bound s) (Push x) (contents s) = (b, contents s') \<and> ok s' \<and> bound s' = bound s"
    and within: "ok s \<Longrightarrow> length (contents s) \<le> bound s"
begin

definition step :: "queue_op \<Rightarrow> 's \<Rightarrow> byte \<times> 's" where
  "step op s = (case op of Pop \<Rightarrow> pop s | Push x \<Rightarrow> push x s)"

lemma step_simulates:
  "ok s \<Longrightarrow> step op s = (b, s') \<Longrightarrow> queue_step (bound s) op (contents s) = (b, contents s') \<and> ok s' \<and> bound s' = bound s"
  unfolding step_def by (cases op; simp only: queue_op.case; erule (1) pop_step push_step)

lemma run_simulates:
  "ok s \<Longrightarrow> run_ops step ops s = (bs, s') \<Longrightarrow>
   run_ops (queue_step (bound s)) ops (contents s) = (bs, contents s') \<and> ok s' \<and> bound s' = bound s"
proof (induction ops arbitrary: s bs s')
  case (Cons op ops)
  obtain b s1 where s1: "step op s = (b, s1)" by (cases "step op s")
  obtain bs1 s2 where s2: "run_ops step ops s1 = (bs1, s2)" by (cases "run_ops step ops s1")
  note sim = step_simulates [OF Cons.prems(1) s1]
  from Cons.IH [OF _ s2] sim Cons.prems(2) s1 s2 show ?case by (auto simp: Let_def)
qed simp

lemma slide:
  assumes "ok s" and "contents s = x # xs" and "pop s = (b, s1)" and "push y s1 = (b', s2)"
  shows "b = x \<and> b' = y \<and> contents s2 = xs @ [y] \<and> ok s2 \<and> bound s2 = bound s"
  using pop_step [OF assms(1,3)] push_step [OF _ assms(4)] within [OF assms(1)] assms(2) by auto

end

interpretation cb: byte_queue cb_pop cb_push cb_contents cb_capacity cb_ok
proof unfold_locales
  fix s :: circular_buffer and b s'
  assume ok: "cb_ok s" and p: "cb_pop s = (b, s')"
  show "queue_step (cb_capacity s) Pop (cb_contents s) = (b, cb_contents s') \<and> cb_ok s' \<and> cb_capacity s' = cb_capacity s"
  proof (cases "cb_contents s")
    case Nil
    then have "cb_size s = 0" by (metis length_cb_contents list.size(3))
    then show ?thesis using ok p Nil by (auto simp: cb_pop_def)
  next
    case (Cons x xs)
    then have "cb_capacity s' = cb_capacity s" using p by (auto simp: cb_pop_def split: if_splits)
    then show ?thesis using cb_pop_contents [OF ok Cons] p Cons by simp
  qed
next
  fix s :: circular_buffer and x b s'
  assume ok: "cb_ok s" and p: "cb_push x s = (b, s')"
  show "queue_step (cb_capacity s) (Push x) (cb_contents s) = (b, cb_contents s') \<and> cb_ok s' \<and> cb_capacity s' = cb_capacity s"
  proof (cases "cb_size s < cb_capacity s")
    case True
    then show ?thesis using cb_push_contents [OF ok True, of x] p by simp
  next
    case False
    then have "cb_size s = cb_capacity s" using ok by (simp add: cb_ok_def)
    then show ?thesis using cb_push_full [of s x] p ok by auto
  qed
next
  show "cb_ok s \<Longrightarrow> length (cb_contents s) \<le> cb_capacity s" for s by (simp add: cb_ok_def)
qed

definition cb_step :: "queue_op \<Rightarrow> circular_buffer \<Rightarrow> byte \<times> circular_buffer" where
  "cb_step op cb = (case op of Pop \<Rightarrow> cb_pop cb | Push x \<Rightarrow> cb_push x cb)"

lemma cb_step_eq: "cb.step = cb_step"
  by (intro ext) (simp add: cb.step_def cb_step_def)

text \<open>C35. The circular buffer implements the bounded queue: any sequence of \<open>pop\<close> and \<open>push\<close> returns the bytes
  that the same sequence returns on the list of its contents, and leaves the corresponding contents; the bytes a full
  buffer rejects and an empty one makes up included.\<close>

theorem circular_buffer_refines_queue:
  assumes "cb_ok cb" and "run_ops cb_step ops cb = (bs, cb')"
  shows "run_ops (queue_step (cb_capacity cb)) ops (cb_contents cb) = (bs, cb_contents cb') \<and> cb_ok cb'"
  using cb.run_simulates [OF assms(1), of ops bs cb'] assms(2) by (simp add: cb_step_eq)

theorem circular_buffer_refines_queue_witness:
  "run_ops (queue_step 3) [Push 9, Push 5, Pop, Push 7, Pop, Pop, Pop, Pop] [1, 2] = ([9, 0, 1, 7, 2, 9, 7, 0], [])"
proof -
  let ?cb = "\<lparr>cb_buffer = [2, 8, 1], cb_capacity = 3, cb_size = 2, cb_start = 2\<rparr>"
  have "run_ops cb_step [Push 9, Push 5, Pop, Push 7, Pop, Pop, Pop, Pop] ?cb =
      ([9, 0, 1, 7, 2, 9, 7, 0], \<lparr>cb_buffer = [2, 9, 7], cb_capacity = 3, cb_size = 0, cb_start = 0\<rparr>)" by code_simp
  from circular_buffer_refines_queue [OF _ this] show ?thesis by (simp add: cb_ok_def cb_contents_def)
qed

text \<open>Moving bytes from a buffer into another that starts at the beginning of its memory keeps their order and
  loses none: the destination takes as many as it has room for.\<close>

theorem pop_buffer_moves:
  assumes "cb_flat cb" and "cb_flat dst" and "cb_start dst = 0" and "cb_pop_buffer cb dst = (cb', dst')"
  shows "cb_contents dst' @ cb_contents cb' = cb_contents dst @ cb_contents cb
    \<and> cb_size dst' = min (cb_size dst + cb_size cb) (cb_capacity dst) \<and> cb_flat cb' \<and> cb_flat dst'"
proof -
  note p = cb_pop_buffer_flat [OF assms(1-3) refl, unfolded assms(4) fst_conv snd_conv]
  have "cb_size dst \<le> cb_capacity dst" using assms(2) by (simp add: cb_flat_def)
  moreover have "cb_size dst' = cb_size dst + min (cb_size cb) (cb_capacity dst - cb_size dst)"
    using arg_cong [OF p(1), of length] by simp
  ultimately show ?thesis using p(1-4) by (auto simp: min_def)
qed

theorem pop_buffer_moves_witness:
  "cb_contents (snd (cb_pop_buffer \<lparr>cb_buffer = [9, 1, 2, 3], cb_capacity = 4, cb_size = 3, cb_start = 1\<rparr>
      \<lparr>cb_buffer = [7, 0, 0], cb_capacity = 3, cb_size = 1, cb_start = 0\<rparr>)) @ [3] = [7, 1, 2, 3]"
proof -
  let ?cb = "\<lparr>cb_buffer = [9, 1, 2, 3], cb_capacity = 4, cb_size = 3, cb_start = 1\<rparr>"
    and ?dst = "\<lparr>cb_buffer = [7, 0, 0], cb_capacity = 3, cb_size = 1, cb_start = 0\<rparr>"
    and ?cb' = "\<lparr>cb_buffer = [9, 1, 2, 3], cb_capacity = 4, cb_size = 1, cb_start = 3\<rparr>"
    and ?dst' = "\<lparr>cb_buffer = [7, 1, 2], cb_capacity = 3, cb_size = 3, cb_start = 0\<rparr> :: circular_buffer"
  have e: "cb_pop_buffer ?cb ?dst = (?cb', ?dst')" by code_simp
  have f: "cb_flat ?cb" "cb_flat ?dst" "cb_start ?dst = 0" by code_simp+
  have "cb_contents ?cb' = [3]" "cb_contents ?dst @ cb_contents ?cb = [7, 1, 2, 3]" by code_simp+
  with pop_buffer_moves [OF f e] e show ?thesis by simp
qed

text \<open>A destination that wraps around is filled wrongly: the second part of the bytes is taken from their beginning
  again.\<close>

lemma push_buffer_wrap_around_repeats:
  "cb_contents (cb_push_buffer [1, 2, 3] \<lparr>cb_buffer = [0, 0, 0, 0], cb_capacity = 4, cb_size = 0, cb_start = 3\<rparr>) = [1, 1, 2]"
  by code_simp

end
