(* ===== verification/Searches.thy ===== *)
theory Searches
  imports Lzma_Prelude
begin

text \<open>
  The searches of src/BackupEngineNativePart/binary\_search.h and MiscFunctions.h. An iterator is an index into a list,
  and \<open>None\<close> is the null iterator. \<open>partitioned\<close> is the precondition of \<open>triple_search\<close> as the
  comment before it states it.
\<close>

subsection \<open>binary\_search.h\<close>

text \<open>The loop that looks for any element of the middle set: the bounds it leaves, and the element.\<close>

function triple_find :: "('a \<Rightarrow> int) \<Rightarrow> 'a list \<Rightarrow> nat \<Rightarrow> nat \<Rightarrow> nat \<times> nat \<times> nat option" where
  "triple_find f xs beg fin =
     (if beg + 1 < fin then
        let pivot = beg + (fin - beg) div 2;
            i = f (xs ! pivot)
        in if i < 0 then triple_find f xs pivot fin
           else if i > 0 then triple_find f xs beg pivot
           else (beg, fin, Some pivot)
      else (beg, fin, None))"
  by pat_completeness auto
termination
  by (relation "measure (\<lambda>(f, xs, beg, fin). fin - beg)") auto

function triple_lower :: "('a \<Rightarrow> int) \<Rightarrow> 'a list \<Rightarrow> nat \<Rightarrow> nat \<Rightarrow> nat" where
  "triple_lower f xs beg fin =
     (if beg + 1 < fin then
        let pivot = beg + (fin - beg) div 2
        in if f (xs ! pivot) < 0 then triple_lower f xs pivot fin else triple_lower f xs beg pivot
      else fin)"
  by pat_completeness auto
termination
  by (relation "measure (\<lambda>(f, xs, beg, fin). fin - beg)") auto

function triple_upper :: "('a \<Rightarrow> int) \<Rightarrow> 'a list \<Rightarrow> nat \<Rightarrow> nat \<Rightarrow> nat" where
  "triple_upper f xs beg fin =
     (if beg + 1 < fin then
        let pivot = beg + (fin - beg) div 2
        in if f (xs ! pivot) \<le> 0 then triple_upper f xs pivot fin else triple_upper f xs beg pivot
      else fin)"
  by pat_completeness auto
termination
  by (relation "measure (\<lambda>(f, xs, beg, fin). fin - beg)") auto

declare triple_find.simps [simp del] triple_lower.simps [simp del] triple_upper.simps [simp del]

definition triple_search :: "('a \<Rightarrow> int) \<Rightarrow> 'a list \<Rightarrow> nat \<Rightarrow> nat \<Rightarrow> nat option \<times> nat option" where
  "triple_search f xs beg fin =
     (if beg = fin \<or> f (xs ! beg) > 0 then (Some beg, Some beg)
      else if f (xs ! (fin - 1)) < 0 then (Some fin, Some fin)
      else
        let dst_begin = (if f (xs ! beg) = 0 then Some beg else None);
            dst_end = (if f (xs ! (fin - 1)) = 0 then Some fin else None)
        in if dst_begin \<noteq> None \<and> dst_end \<noteq> None then (dst_begin, dst_end)
           else case triple_find f xs beg fin of
             (beg, fin, None) \<Rightarrow> if f (xs ! beg) = 0 then (Some beg, Some fin) else (dst_begin, dst_end)
           | (beg, fin, Some inn) \<Rightarrow>
               (if dst_begin = None then Some (triple_lower f xs beg inn) else dst_begin,
                if dst_end = None then Some (triple_upper f xs inn fin) else dst_end))"

subsection \<open>MiscFunctions.h\<close>

function find_all_loop :: "('a \<Rightarrow> bool) \<Rightarrow> 'a list \<Rightarrow> nat \<Rightarrow> nat \<Rightarrow> nat" where
  "find_all_loop f xs beg fin =
     (if fin - beg > 1 then
        let pivot = beg + (fin - beg) div 2
        in if \<not> f (xs ! pivot) then find_all_loop f xs pivot fin else find_all_loop f xs beg pivot
      else fin)"
  by pat_completeness auto
termination
  by (relation "measure (\<lambda>(f, xs, beg, fin). fin - beg)") auto

declare find_all_loop.simps [simp del]

definition find_all :: "('a \<Rightarrow> bool) \<Rightarrow> 'a list \<Rightarrow> nat \<Rightarrow> nat \<Rightarrow> nat" where
  "find_all f xs beg fin =
     (if beg \<ge> fin then fin else if f (xs ! beg) then beg else find_all_loop f xs beg fin)"

subsection \<open>Partitions\<close>

definition partitioned :: "('a \<Rightarrow> int) \<Rightarrow> 'a list \<Rightarrow> nat \<Rightarrow> nat \<Rightarrow> bool" where
  "partitioned f xs beg fin \<longleftrightarrow>
     (\<forall>i j. beg \<le> i \<and> i \<le> j \<and> j < fin \<longrightarrow> (0 \<le> f (xs ! i) \<longrightarrow> 0 \<le> f (xs ! j)) \<and> (0 < f (xs ! i) \<longrightarrow> 0 < f (xs ! j)))"

text \<open>The three sets are \<open>[beg, l)\<close>, \<open>[l, h)\<close> and \<open>[h, fin)\<close>.\<close>

definition split_at :: "('a \<Rightarrow> int) \<Rightarrow> 'a list \<Rightarrow> nat \<Rightarrow> nat \<Rightarrow> nat \<Rightarrow> nat \<Rightarrow> bool" where
  "split_at f xs beg l h fin \<longleftrightarrow> beg \<le> l \<and> l \<le> h \<and> h \<le> fin
     \<and> (\<forall>i. beg \<le> i \<and> i < fin \<longrightarrow> (f (xs ! i) < 0 \<longleftrightarrow> i < l) \<and> (0 < f (xs ! i) \<longleftrightarrow> h \<le> i))"

lemma boundary_exists:
  fixes P :: "nat \<Rightarrow> bool"
  assumes "\<And>i j. beg \<le> i \<Longrightarrow> i \<le> j \<Longrightarrow> j < fin \<Longrightarrow> P i \<Longrightarrow> P j" and "beg \<le> fin"
  shows "\<exists>l. beg \<le> l \<and> l \<le> fin \<and> (\<forall>i. beg \<le> i \<and> i < fin \<longrightarrow> (P i \<longleftrightarrow> l \<le> i))"
  using assms(2,1)
proof (induction fin rule: dec_induct)
  case base
  then show ?case by auto
next
  case (step n)
  obtain l where l: "beg \<le> l" "l \<le> n" "\<forall>i. beg \<le> i \<and> i < n \<longrightarrow> (P i \<longleftrightarrow> l \<le> i)"
    using step.IH step.prems by (metis less_SucI)
  show ?case
  proof (cases "P n")
    case True
    then show ?thesis using l by (intro exI [of _ l]) (auto simp: less_Suc_eq)
  next
    case False
    then have "\<not> P i" if "beg \<le> i" "i \<le> n" for i using step.prems [of i n] that by auto
    then show ?thesis using step.hyps by (intro exI [of _ "Suc n"]) (auto simp: less_Suc_eq_le)
  qed
qed

lemma partitioned_split:
  assumes "partitioned f xs beg fin" and "beg \<le> fin"
  obtains l h where "split_at f xs beg l h fin"
proof -
  obtain l where l: "beg \<le> l" "l \<le> fin" "\<forall>i. beg \<le> i \<and> i < fin \<longrightarrow> (0 \<le> f (xs ! i) \<longleftrightarrow> l \<le> i)"
    using boundary_exists [of beg fin "\<lambda>i. 0 \<le> f (xs ! i)"] assms unfolding partitioned_def by blast
  obtain h where h: "beg \<le> h" "h \<le> fin" "\<forall>i. beg \<le> i \<and> i < fin \<longrightarrow> (0 < f (xs ! i) \<longleftrightarrow> h \<le> i)"
    using boundary_exists [of beg fin "\<lambda>i. 0 < f (xs ! i)"] assms unfolding partitioned_def by blast
  have "l \<le> h"
  proof (rule ccontr)
    assume "\<not> l \<le> h"
    then have "h < fin" "\<not> l \<le> h" using l(2) by simp_all
    then show False using l(3) h(1,3) by (metis le_refl less_imp_le)
  qed
  then have "split_at f xs beg l h fin" using l h by (auto simp: split_at_def not_le)
  then show ?thesis by (rule that)
qed

lemma pivot_between: "beg + 1 < fin \<Longrightarrow> beg < beg + (fin - beg) div 2 \<and> beg + (fin - beg) div 2 < (fin :: nat)"
  by auto

lemma split_at_less: "split_at f xs lo l h hi \<Longrightarrow> lo \<le> i \<Longrightarrow> i < hi \<Longrightarrow> f (xs ! i) < 0 \<longleftrightarrow> i < l"
  and split_at_greater: "split_at f xs lo l h hi \<Longrightarrow> lo \<le> i \<Longrightarrow> i < hi \<Longrightarrow> 0 < f (xs ! i) \<longleftrightarrow> h \<le> i"
  and split_at_zero: "split_at f xs lo l h hi \<Longrightarrow> lo \<le> i \<Longrightarrow> i < hi \<Longrightarrow> f (xs ! i) = 0 \<longleftrightarrow> l \<le> i \<and> i < h"
  by (force simp: split_at_def)+

lemma split_at_partitioned:
  assumes "split_at f xs beg l h fin"
  shows "partitioned f xs beg fin"
  unfolding partitioned_def
proof (intro allI impI)
  fix i j
  assume "beg \<le> i \<and> i \<le> j \<and> j < fin"
  then show "(0 \<le> f (xs ! i) \<longrightarrow> 0 \<le> f (xs ! j)) \<and> (0 < f (xs ! i) \<longrightarrow> 0 < f (xs ! j))"
    using split_at_less [OF assms, of i] split_at_less [OF assms, of j] split_at_greater [OF assms, of i]
      split_at_greater [OF assms, of j] by (simp add: not_less [symmetric])
qed

lemma triple_lower_correct:
  "split_at f xs lo l h hi \<Longrightarrow> lo \<le> beg \<Longrightarrow> fin \<le> hi \<Longrightarrow> beg < l \<Longrightarrow> l \<le> fin \<Longrightarrow> triple_lower f xs beg fin = l"
proof (induction f xs beg fin rule: triple_lower.induct)
  case (1 f xs beg fin)
  let ?p = "beg + (fin - beg) div 2"
  show ?case
  proof (cases "beg + 1 < fin")
    case True
    note p = pivot_between [OF True]
    then have "f (xs ! ?p) < 0 \<longleftrightarrow> ?p < l" using 1(3-5) by (intro split_at_less) auto
    then show ?thesis using 1 True p by (subst triple_lower.simps) (auto simp: Let_def)
  next
    case False
    then show ?thesis using 1 by (subst triple_lower.simps) simp
  qed
qed

lemma triple_upper_correct:
  "split_at f xs lo l h hi \<Longrightarrow> lo \<le> beg \<Longrightarrow> fin \<le> hi \<Longrightarrow> beg < h \<Longrightarrow> h \<le> fin \<Longrightarrow> triple_upper f xs beg fin = h"
proof (induction f xs beg fin rule: triple_upper.induct)
  case (1 f xs beg fin)
  let ?p = "beg + (fin - beg) div 2"
  show ?case
  proof (cases "beg + 1 < fin")
    case True
    note p = pivot_between [OF True]
    then have "0 < f (xs ! ?p) \<longleftrightarrow> h \<le> ?p" using 1(3-5) by (intro split_at_greater) auto
    then show ?thesis using 1 True p by (subst triple_upper.simps) (auto simp: Let_def not_less not_le)
  next
    case False
    then show ?thesis using 1 by (subst triple_upper.simps) simp
  qed
qed

lemma triple_find_correct:
  "split_at f xs lo l h hi \<Longrightarrow> lo \<le> beg \<Longrightarrow> beg < fin \<Longrightarrow> fin \<le> hi \<Longrightarrow> triple_find f xs beg fin = (b, e, p) \<Longrightarrow>
   beg \<le> b \<and> b < e \<and> e \<le> fin \<and> (b = beg \<or> b < l) \<and> (e = fin \<or> h \<le> e)
   \<and> (case p of None \<Rightarrow> e = b + 1 | Some q \<Rightarrow> b < q \<and> q < e \<and> l \<le> q \<and> q < h)"
proof (induction f xs beg fin rule: triple_find.induct)
  case (1 f xs beg fin)
  let ?p = "beg + (fin - beg) div 2"
  show ?case
  proof (cases "beg + 1 < fin")
    case False
    then have "b = beg" "e = fin" "p = None" using "1.prems"(5) by (simp_all add: triple_find.simps [of f xs beg fin])
    then show ?thesis using False "1.prems"(3) by simp
  next
    case True
    note p = pivot_between [OF True]
    then have f: "f (xs ! ?p) < 0 \<longleftrightarrow> ?p < l" "0 < f (xs ! ?p) \<longleftrightarrow> h \<le> ?p"
      using split_at_less [OF "1.prems"(1), of ?p] split_at_greater [OF "1.prems"(1), of ?p] "1.prems"(2,4) by auto
    consider "?p < l" | "h \<le> ?p" "\<not> ?p < l" | "l \<le> ?p" "?p < h" by linarith
    then show ?thesis
    proof cases
      case neg: 1
      with f have g: "f (xs ! ?p) < 0" by simp
      have "triple_find f xs ?p fin = (b, e, p)" using "1.prems"(5) True g by (simp add: triple_find.simps [of f xs beg fin])
      moreover have "lo \<le> ?p" "?p < fin" using p "1.prems"(2) by linarith+
      ultimately have ih: "?p \<le> b \<and> b < e \<and> e \<le> fin \<and> (b = ?p \<or> b < l) \<and> (e = fin \<or> h \<le> e)
          \<and> (case p of None \<Rightarrow> e = b + 1 | Some q \<Rightarrow> b < q \<and> q < e \<and> l \<le> q \<and> q < h)"
        using "1.IH"(1) [OF True refl refl g "1.prems"(1)] "1.prems"(4) by blast
      then have "beg \<le> b" "b < l" using p neg by linarith+
      with ih show ?thesis by simp
    next
      case pos: 2
      with f have g: "\<not> f (xs ! ?p) < 0" "f (xs ! ?p) > 0" by simp_all
      have "triple_find f xs beg ?p = (b, e, p)" using "1.prems"(5) True g by (simp add: triple_find.simps [of f xs beg fin])
      moreover have "?p \<le> hi" "beg < ?p" using p "1.prems"(4) by linarith+
      ultimately have ih: "beg \<le> b \<and> b < e \<and> e \<le> ?p \<and> (b = beg \<or> b < l) \<and> (e = ?p \<or> h \<le> e)
          \<and> (case p of None \<Rightarrow> e = b + 1 | Some q \<Rightarrow> b < q \<and> q < e \<and> l \<le> q \<and> q < h)"
        using "1.IH"(2) [OF True refl refl g "1.prems"(1,2)] by blast
      then have "e \<le> fin" "h \<le> e" using p pos by linarith+
      with ih show ?thesis by simp
    next
      case zero: 3
      with f have g: "\<not> f (xs ! ?p) < 0" "\<not> f (xs ! ?p) > 0" by simp_all
      then have "b = beg \<and> e = fin \<and> p = Some ?p" using "1.prems"(5) True by (auto simp: triple_find.simps [of f xs beg fin])
      then show ?thesis using p zero by auto
    qed
  qed
qed

lemma triple_search_split:
  assumes "split_at f xs beg l h fin" and "beg < fin" and "l < h"
  shows "triple_search f xs beg fin = (Some l, Some h)"
proof -
  note s = split_at_less [OF assms(1)] split_at_greater [OF assms(1)] split_at_zero [OF assms(1)]
  have b: "beg \<le> l" "h \<le> fin" using assms(1) by (auto simp: split_at_def)
  have first: "\<not> f (xs ! beg) > 0" "f (xs ! beg) = 0 \<longleftrightarrow> beg = l" using s [of beg] assms b by auto
  have last: "\<not> f (xs ! (fin - 1)) < 0" "f (xs ! (fin - 1)) = 0 \<longleftrightarrow> fin = h" using s [of "fin - 1"] assms b by auto
  obtain b' e p where fnd: "triple_find f xs beg fin = (b', e, p)" by (cases "triple_find f xs beg fin")
  note r = triple_find_correct [OF assms(1) le_refl assms(2) le_refl fnd]
  show ?thesis
  proof (cases p)
    case None
    then have "e = b' + 1" "b' = l" "e = h" using r assms(3) b by auto
    moreover have "f (xs ! l) = 0" using s(3) [of l] assms(3) b by simp
    ultimately show ?thesis using first last assms(2) fnd None by (auto simp: triple_search_def)
  next
    case (Some q)
    then have q: "b' < q" "q < e" "l \<le> q" "q < h" using r by auto
    have lo: "triple_lower f xs b' q = l" if "beg \<noteq> l"
      by (rule triple_lower_correct [OF assms(1)]) (use r q that b in auto)
    have up: "triple_upper f xs q e = h" if "fin \<noteq> h"
      by (rule triple_upper_correct [OF assms(1)]) (use r q that b in auto)
    show ?thesis using first last assms(2) fnd Some lo up by (auto simp: triple_search_def)
  qed
qed

lemma triple_search_empty:
  assumes "split_at f xs beg l h fin" and "beg \<le> fin" and "l = h"
  shows "triple_search f xs beg fin = (if l = beg then (Some beg, Some beg) else if l = fin then (Some fin, Some fin) else (None, None))"
proof (cases "beg = fin")
  case True
  then show ?thesis using assms by (auto simp: triple_search_def split_at_def)
next
  case False
  note s = split_at_less [OF assms(1)] split_at_greater [OF assms(1)] split_at_zero [OF assms(1)]
  have b: "beg \<le> l" "l \<le> fin" "beg < fin" using assms False by (auto simp: split_at_def)
  have first: "f (xs ! beg) > 0 \<longleftrightarrow> l = beg" "f (xs ! beg) \<noteq> 0" using s [of beg] assms(3) b by auto
  have last: "f (xs ! (fin - 1)) < 0 \<longleftrightarrow> l = fin" "f (xs ! (fin - 1)) \<noteq> 0" using s [of "fin - 1"] assms(3) b by auto
  obtain b' e p where fnd: "triple_find f xs beg fin = (b', e, p)" by (cases "triple_find f xs beg fin")
  note r = triple_find_correct [OF assms(1) le_refl b(3) le_refl fnd]
  have p: "p = None" using r assms(3) by (cases p) auto
  have "f (xs ! b') \<noteq> 0" using s(3) [of b'] r assms(3) by auto
  then show ?thesis using first last False fnd p by (auto simp: triple_search_def)
qed

text \<open>C36. The search finds exactly the elements on which \<open>f\<close> is zero: if the range is partitioned as the
  precondition says, it returns the bounds of the middle set when that is not empty, and two equal
  iterators when it is.\<close>

theorem triple_search_correct:
  assumes "partitioned f xs beg fin" and "beg \<le> fin" and "triple_search f xs beg fin = (b, e)"
  shows "if \<exists>i \<in> {beg..<fin}. f (xs ! i) = 0
    then (\<exists>l h. b = Some l \<and> e = Some h \<and> beg \<le> l \<and> l < h \<and> h \<le> fin \<and> {i \<in> {beg..<fin}. f (xs ! i) = 0} = {l..<h})
    else b = e"
proof -
  obtain l h where s: "split_at f xs beg l h fin" using partitioned_split [OF assms(1,2)] .
  have b: "beg \<le> l" "l \<le> h" "h \<le> fin" using s by (auto simp: split_at_def)
  have z: "{i \<in> {beg..<fin}. f (xs ! i) = 0} = {l..<h}"
  proof (rule set_eqI)
    show "i \<in> {i \<in> {beg..<fin}. f (xs ! i) = 0} \<longleftrightarrow> i \<in> {l..<h}" for i
      using split_at_zero [OF s, of i] b by auto
  qed
  show ?thesis
  proof (cases "l = h")
    case True
    then have "{i \<in> {beg..<fin}. f (xs ! i) = 0} = {}" using z by simp
    then have "\<not> (\<exists>i \<in> {beg..<fin}. f (xs ! i) = 0)" by blast
    moreover have "b = e" using triple_search_empty [OF s assms(2) True] assms(3) by (simp split: if_split_asm)
    ultimately show ?thesis by (simp only: if_False)
  next
    case False
    then have lh: "l < h" "beg < fin" using b by auto
    have "l \<in> {i \<in> {beg..<fin}. f (xs ! i) = 0}" unfolding z using lh by simp
    then have "\<exists>i \<in> {beg..<fin}. f (xs ! i) = 0" by blast
    moreover have "b = Some l" "e = Some h" using triple_search_split [OF s lh(2,1)] assms(3) by simp_all
    ultimately show ?thesis using z b lh(1) by (simp only: if_True) blast
  qed
qed

theorem triple_search_correct_witness:
  "{i \<in> {1..<7}. ([9, 1, 3, 5, 5, 5, 8] :: int list) ! i - 5 = 0} = {3..<6}"
proof -
  let ?xs = "[9, 1, 3, 5, 5, 5, 8] :: int list" and ?f = "\<lambda>x. x - 5 :: int"
  have "\<forall>i \<in> set [1..<7]. (?f (?xs ! i) < 0 \<longleftrightarrow> i < 3) \<and> (0 < ?f (?xs ! i) \<longleftrightarrow> 6 \<le> i)" by code_simp
  then have "split_at ?f ?xs 1 3 6 7" by (simp add: split_at_def del: upt_conv_Cons)
  then have p: "partitioned ?f ?xs 1 7" by (rule split_at_partitioned)
  have e: "triple_search ?f ?xs 1 7 = (Some 3, Some 6)" by code_simp
  have "\<exists>i \<in> {1..<7}. ?f (?xs ! i) = 0" by (intro bexI [of _ 3]) simp_all
  with triple_search_correct [OF p _ e] show ?thesis by auto
qed

text \<open>The result of \<open>find_all\<close>, as the comment before it states it.\<close>

lemma find_all_loop_correct:
  "beg < l \<Longrightarrow> l \<le> fin \<Longrightarrow> (\<forall>i. beg \<le> i \<and> i < fin \<longrightarrow> (P (xs ! i) \<longleftrightarrow> l \<le> i)) \<Longrightarrow> find_all_loop P xs beg fin = l"
proof (induction P xs beg fin rule: find_all_loop.induct)
  case (1 P xs beg fin)
  let ?p = "beg + (fin - beg) div 2"
  show ?case
  proof (cases "fin - beg > 1")
    case True
    then have p: "beg < ?p \<and> ?p < fin" by auto
    then have "P (xs ! ?p) \<longleftrightarrow> l \<le> ?p" using 1(5) by auto
    then show ?thesis using 1 True p by (subst find_all_loop.simps) (auto simp: Let_def)
  next
    case False
    then show ?thesis using 1 by (subst find_all_loop.simps) simp
  qed
qed

lemma find_all_correct:
  assumes "\<And>i j. beg \<le> i \<Longrightarrow> i \<le> j \<Longrightarrow> j < fin \<Longrightarrow> P (xs ! i) \<Longrightarrow> P (xs ! j)" and "beg \<le> fin"
  shows "beg \<le> find_all P xs beg fin \<and> find_all P xs beg fin \<le> fin
    \<and> (\<forall>i. beg \<le> i \<and> i < fin \<longrightarrow> (P (xs ! i) \<longleftrightarrow> find_all P xs beg fin \<le> i))"
proof -
  obtain l where l: "beg \<le> l" "l \<le> fin" "\<forall>i. beg \<le> i \<and> i < fin \<longrightarrow> (P (xs ! i) \<longleftrightarrow> l \<le> i)"
    using boundary_exists [of beg fin "\<lambda>i. P (xs ! i)"] assms by blast
  have "find_all P xs beg fin = l"
  proof (cases "beg = l")
    case True
    then show ?thesis using l by (auto simp: find_all_def)
  next
    case False
    then show ?thesis using l find_all_loop_correct [of beg l fin P xs] by (auto simp: find_all_def)
  qed
  then show ?thesis using l by simp
qed

end
