(* ===== verification/Rsync_Types.thy ===== *)
theory Rsync_Types
  imports Searches Rolling_Checksum
begin

unbundle bit_operations_syntax

text \<open>
  The items of a table of blocks and the commands that rebuild a file: rsync\_table\_item and rsync\_command
  of src/BackupEngineNativePart/MiscTypes.h. The order of items is the code's \<open>operator<\<close>; it is linear, so
  \<open>std::sort\<close> has one result, \<open>sort\<close>. A command is described by
  \<open>command_is\<close>: the top bit of its length tells where it copies from.
\<close>

subsection \<open>\<open>memcmp\<close>\<close>

fun memcmp :: "byte list \<Rightarrow> byte list \<Rightarrow> int" where
  "memcmp [] [] = 0"
| "memcmp [] (b # bs) = - 1"
| "memcmp (a # as) [] = 1"
| "memcmp (a # as) (b # bs) = (if a = b then memcmp as bs else uint a - uint b)"

lemma memcmp_zero [simp]: "memcmp as bs = 0 \<longleftrightarrow> as = bs"
  by (induction as bs rule: memcmp.induct) (auto simp: word_uint_eq_iff)

lemma memcmp_self [simp]: "memcmp as as = 0"
  by simp

lemma memcmp_swap: "memcmp bs as = 0 \<longleftrightarrow> memcmp as bs = 0" "memcmp bs as < 0 \<longleftrightarrow> 0 < memcmp as bs"
  by (induction as bs rule: memcmp.induct) auto

lemma memcmp_trans: "memcmp as bs < 0 \<Longrightarrow> memcmp bs cs < 0 \<Longrightarrow> memcmp as cs < 0"
proof (induction as bs arbitrary: cs rule: memcmp.induct)
  case (2 b bs)
  then show ?case by (cases cs) auto
next
  case (4 a as b bs)
  then show ?case by (cases cs) (auto split: if_splits)
qed auto

subsection \<open>rsync\_table\_item\<close>

datatype rsync_table_item =
  Rsync_table_item (rolling_checksum: rolling_checksum_t) (complex_hash: "byte list") (item_offset: u64)

text \<open>The code's \<open>operator<\<close>, and the order it gives.\<close>

definition rsync_table_item_less :: "rsync_table_item \<Rightarrow> rsync_table_item \<Rightarrow> bool" where
  "rsync_table_item_less a b =
     (if rolling_checksum a < rolling_checksum b then True
      else if rolling_checksum a > rolling_checksum b then False
      else let cmp = memcmp (complex_hash a) (complex_hash b)
           in if cmp < 0 then True else if cmp > 0 then False else item_offset a < item_offset b)"

instantiation rsync_table_item :: linorder
begin

definition less_rsync_table_item :: "rsync_table_item \<Rightarrow> rsync_table_item \<Rightarrow> bool" where
  "less_rsync_table_item = rsync_table_item_less"

definition less_eq_rsync_table_item :: "rsync_table_item \<Rightarrow> rsync_table_item \<Rightarrow> bool" where
  "less_eq_rsync_table_item a b \<longleftrightarrow> a < b \<or> a = (b :: rsync_table_item)"

lemma item_trichotomy: "a < b \<or> a = b \<or> b < (a :: rsync_table_item)"
proof -
  have "memcmp (complex_hash a) (complex_hash b) < 0 \<or> complex_hash a = complex_hash b \<or> memcmp (complex_hash b) (complex_hash a) < 0"
    using memcmp_swap memcmp_zero by (metis linorder_less_linear)
  then show ?thesis
    by (cases a; cases b) (auto simp: less_rsync_table_item_def rsync_table_item_less_def Let_def memcmp_swap)
qed

lemma item_less_trans: "a < b \<Longrightarrow> b < c \<Longrightarrow> a < (c :: rsync_table_item)"
  using memcmp_trans [of "complex_hash a" "complex_hash b" "complex_hash c"]
  by (auto simp: less_rsync_table_item_def rsync_table_item_less_def Let_def not_less split: if_splits dest: memcmp_zero [THEN iffD1])

lemma item_less_irrefl: "\<not> a < (a :: rsync_table_item)"
  by (simp add: less_rsync_table_item_def rsync_table_item_less_def)

instance
proof
  fix a b c :: rsync_table_item
  show "a < b \<longleftrightarrow> a \<le> b \<and> \<not> b \<le> a"
    using item_less_trans [of a b a] item_less_irrefl [of a] by (auto simp: less_eq_rsync_table_item_def)
  show "a \<le> a" by (simp add: less_eq_rsync_table_item_def)
  show "a \<le> b \<Longrightarrow> b \<le> c \<Longrightarrow> a \<le> c" using item_less_trans [of a b c] by (auto simp: less_eq_rsync_table_item_def)
  show "a \<le> b \<Longrightarrow> b \<le> a \<Longrightarrow> a = b" using item_less_trans [of a b a] item_less_irrefl [of a] by (auto simp: less_eq_rsync_table_item_def)
  show "a \<le> b \<or> b \<le> a" using item_trichotomy [of a b] by (auto simp: less_eq_rsync_table_item_def)
qed

end

subsection \<open>rsync\_command\<close>

record rsync_command =
  cmd_offset :: u64
  cmd_length :: u64

definition command_mask :: u64 where
  "command_mask = push_bit 63 1"

definition copy_from_old :: "rsync_command \<Rightarrow> bool" where
  "copy_from_old c \<longleftrightarrow> drop_bit 63 (cmd_length c) \<noteq> 0"

definition set_copy_from_old :: "bool \<Rightarrow> rsync_command \<Rightarrow> rsync_command" where
  "set_copy_from_old x c =
     (if x then c\<lparr>cmd_length := cmd_length c OR command_mask\<rparr> else c\<lparr>cmd_length := cmd_length c AND NOT command_mask\<rparr>)"

definition get_length :: "rsync_command \<Rightarrow> u64" where
  "get_length c = cmd_length c AND NOT command_mask"

subsection \<open>What a command says\<close>

definition command_is :: "bool \<Rightarrow> nat \<Rightarrow> nat \<Rightarrow> rsync_command \<Rightarrow> bool" where
  "command_is from_old off len c \<longleftrightarrow> len < 2 ^ 63 \<and> off < 2 ^ 64 \<and> cmd_offset c = word_of_nat off
     \<and> cmd_length c = (if from_old then command_mask else 0) + word_of_nat len"

lemma bit_command_mask: "bit command_mask n \<longleftrightarrow> n = 63"
  unfolding command_mask_def by (simp only: bit_push_bit_iff bit_1_iff possible_bit_word) auto

lemma bit_less_of_unat: "unat (w :: 'a::len word) < 2 ^ k \<Longrightarrow> bit w n \<Longrightarrow> n < k"
proof (rule ccontr)
  assume w: "unat w < 2 ^ k" "bit w n" "\<not> n < k"
  then have "(2 :: nat) ^ k \<le> 2 ^ n" by (intro power_increasing) simp_all
  with w(1) have "unat w < 2 ^ n" by linarith
  then have "unat w div 2 ^ n = 0" by (rule div_less)
  moreover have "bit (unat w) n" using w(2) by (simp add: bit_unsigned_iff)
  ultimately show False by (simp add: bit_iff_odd)
qed

lemma word_of_nat_no_63: "len < 2 ^ 63 \<Longrightarrow> bit (word_of_nat len :: u64) n \<Longrightarrow> n < 63"
  by (rule bit_less_of_unat [of "word_of_nat len"]) (simp_all add: unat_of_nat)

lemma mask_add: "len < 2 ^ 63 \<Longrightarrow> command_mask + word_of_nat len = command_mask OR word_of_nat len"
  using word_of_nat_no_63 [of len] by (intro disjunctive_add) (auto simp only: bit_command_mask)

lemma command_is_fields:
  assumes "command_is from_old off len c"
  shows "copy_from_old c = from_old" and "get_length c = word_of_nat len" and "unat (get_length c) = len" and "unat (cmd_offset c) = off"
proof -
  have len: "len < 2 ^ 63" "off < 2 ^ 64" and c: "cmd_length c = (if from_old then command_mask else 0) + word_of_nat len"
    "cmd_offset c = word_of_nat off" using assms by (simp_all add: command_is_def)
  have b: "bit (cmd_length c) n \<longleftrightarrow> (from_old \<and> n = 63) \<or> bit (word_of_nat len :: u64) n" for n
    unfolding c(1) by (cases from_old) (simp_all add: mask_add [OF len(1)] bit_or_iff bit_command_mask)
  show g: "get_length c = word_of_nat len"
    by (rule bit_word_eqI) (auto simp: get_length_def bit_and_iff bit_not_iff b bit_command_mask dest: word_of_nat_no_63 [OF len(1)])
  show "unat (get_length c) = len" using len unfolding g by (simp add: unat_of_nat)
  show "unat (cmd_offset c) = off" using len unfolding c by (simp add: unat_of_nat)
  have "drop_bit 63 (cmd_length c) \<noteq> 0 \<longleftrightarrow> bit (cmd_length c) 63"
  proof -
    have "bit (drop_bit 63 (cmd_length c)) n \<longleftrightarrow> n = 0 \<and> bit (cmd_length c) 63" for n
      by (cases n) (auto simp: bit_drop_bit_eq dest: bit_imp_le_length)
    then show ?thesis by (metis bit_0_eq bot_apply bot_bool_def bit_eqI)
  qed
  then show "copy_from_old c = from_old"
    using b [of 63] word_of_nat_no_63 [OF len(1), of 63] by (auto simp: copy_from_old_def)
qed

lemma command_new:
  "off < 2 ^ 64 \<Longrightarrow> command_is x off 0 (set_copy_from_old x \<lparr>cmd_offset = word_of_nat off, cmd_length = 0\<rparr>)"
  by (simp add: command_is_def set_copy_from_old_def)

lemma command_extend:
  "command_is x off len c \<Longrightarrow> len + n < 2 ^ 63 \<Longrightarrow> command_is x off (len + n) (c\<lparr>cmd_length := cmd_length c + word_of_nat n\<rparr>)"
  by (simp add: command_is_def add.assoc)

end
