(* ===== verification/Block_Reader.thy ===== *)
theory Block_Reader
  imports Circular_Buffer
begin

unbundle bit_operations_syntax

text \<open>
  The readers of src/BackupEngineNativePart/StreamBlockReader.h and StreamBlockReader.cpp: the stream with its
  outstanding asynchronous read, the reader of whole blocks and the reader of single bytes, each a record that
  extends the one it derives from. A member function returns its result and the object; \<open>Inl e\<close> is the exception
  \<open>Win32Error(e)\<close>.

  The file is the parameter \<open>os_read\<close>: what ReadFile followed by GetOverlappedResult give for an offset and a
  length, an error code or the bytes. \<open>file_reads\<close> is what Windows documents for a file that nobody changes: a read from
  the end or beyond it fails with ERROR\_HANDLE\_EOF, and another one gives at least one byte and at most those that
  were asked for. \<open>fresh\<close> is the content of new memory.
\<close>

type_synonym os_read = "nat \<Rightarrow> nat \<Rightarrow> u32 + byte list"

abbreviation (input) ERROR_HANDLE_EOF :: u32 where "ERROR_HANDLE_EOF \<equiv> 38"

definition file_reads :: "os_read \<Rightarrow> byte list \<Rightarrow> bool" where
  "file_reads os_read content \<longleftrightarrow>
     (\<forall>off n. (length content \<le> off \<longrightarrow> os_read off n = Inl ERROR_HANDLE_EOF)
       \<and> (off < length content \<and> 0 < n \<longrightarrow> (\<exists>k. 0 < k \<and> k \<le> n \<and> os_read off n = Inr (take k (drop off content)))))"

subsection \<open>StreamBlockReader\<close>

record stream_reader =
  sr_overlapped :: "u32 \<times> u32"
  sr_next_buffer :: circular_buffer
  sr_reading :: bool
  sr_offset :: u64
  sr_disk_block_size :: nat
  sr_eof :: bool

text \<open>CancelIo only asks for the cancellation. The model takes the outstanding read to be over when \<open>cancel\<close> returns, so that it
  does not write into \<open>next_buffer\<close> any more; the code does not wait for that.\<close>

definition sr_cancel :: "'a stream_reader_scheme \<Rightarrow> 'a stream_reader_scheme" where
  "sr_cancel r = r\<lparr>sr_reading := False\<rparr>"

definition sr_alloc :: "(nat \<Rightarrow> byte) \<Rightarrow> 'a stream_reader_scheme \<Rightarrow> 'a stream_reader_scheme" where
  "sr_alloc fresh r = r\<lparr>sr_next_buffer := cb_new fresh (sr_disk_block_size r)\<rparr>"

definition sr_read_more :: "'a stream_reader_scheme \<Rightarrow> 'a stream_reader_scheme" where
  "sr_read_more r =
     (if sr_eof r then r
      else
        let r = (if sr_reading r then sr_cancel r else r);
            r = r\<lparr>sr_next_buffer := cb_reset (sr_next_buffer r),
                  sr_overlapped := (ucast (sr_offset r), ucast (drop_bit 32 (sr_offset r)))\<rparr>
        in r\<lparr>sr_reading := True\<rparr>)"

text \<open>The members the constructor sets; \<open>open_error\<close> is the error of CreateFileW, if any.\<close>

definition sr_init :: "u32 option \<Rightarrow> (nat \<Rightarrow> byte) \<Rightarrow> nat \<Rightarrow> 'a stream_reader_scheme \<Rightarrow> u32 + 'a stream_reader_scheme" where
  "sr_init open_error fresh block_size r =
     (let r = r\<lparr>sr_eof := False, sr_reading := False, sr_offset := 0, sr_disk_block_size := block_size,
                sr_overlapped := (0, 0)\<rparr>
      in case open_error of Some e \<Rightarrow> Inl e | None \<Rightarrow> Inr (sr_read_more (sr_alloc fresh r)))"

text \<open>\<open>clear_buffers\<close> is virtual, and \<open>seek_error\<close> is the error of SetFilePointerEx, if any.\<close>

definition sr_seek ::
  "('a stream_reader_scheme \<Rightarrow> 'a stream_reader_scheme) \<Rightarrow> u32 option \<Rightarrow> u64 \<Rightarrow> 'a stream_reader_scheme
   \<Rightarrow> (u32 + unit) \<times> 'a stream_reader_scheme" where
  "sr_seek clear_buffers seek_error offset r =
     (let r = clear_buffers (sr_cancel r);
          r = r\<lparr>sr_eof := False\<rparr>
      in case seek_error of
           Some e \<Rightarrow> (Inl e, r)
         | None \<Rightarrow> (Inr (), sr_read_more (r\<lparr>sr_offset := offset\<rparr>)))"

definition overlapped_offset :: "u32 \<times> u32 \<Rightarrow> nat" where
  "overlapped_offset ov = unat (fst ov) + 2 ^ 32 * unat (snd ov)"

definition sr_finish_read ::
  "os_read \<Rightarrow> (nat \<Rightarrow> byte) \<Rightarrow> 'a stream_reader_scheme \<Rightarrow> (u32 + circular_buffer option) \<times> 'a stream_reader_scheme" where
  "sr_finish_read os_read fresh r =
     (let res = os_read (overlapped_offset (sr_overlapped r)) (sr_disk_block_size r);
          r = r\<lparr>sr_reading := False\<rparr>
      in case res of
           Inl error \<Rightarrow> if error = ERROR_HANDLE_EOF then (Inr None, r\<lparr>sr_eof := True\<rparr>) else (Inl error, r)
         | Inr bytes \<Rightarrow>
             let r = r\<lparr>sr_offset := sr_offset r + word_of_nat (length bytes)\<rparr>;
                 ret = sr_next_buffer r;
                 ret = cb_trim (length bytes) (ret\<lparr>cb_buffer := put_bytes (cb_buffer ret) (cb_start ret) bytes\<rparr>);
                 r = sr_read_more (sr_alloc fresh r)
             in (Inr (Some ret), r))"

subsection \<open>BlockByBlockReader\<close>

record block_reader = stream_reader +
  br_current_buffer :: "circular_buffer option"
  br_block_size :: nat

definition br_init :: "u32 option \<Rightarrow> (nat \<Rightarrow> byte) \<Rightarrow> nat \<Rightarrow> 'a block_reader_scheme \<Rightarrow> u32 + 'a block_reader_scheme" where
  "br_init open_error fresh block_size r =
     (case sr_init open_error fresh (push_bit 13 1) (r\<lparr>br_current_buffer := None\<rparr>) of
        Inl e \<Rightarrow> Inl e
      | Inr r \<Rightarrow> Inr (r\<lparr>br_block_size := (if block_size = 0 then sr_disk_block_size r else block_size)\<rparr>))"

definition br_clear_buffers :: "'a block_reader_scheme \<Rightarrow> 'a block_reader_scheme" where
  "br_clear_buffers r = r\<lparr>br_current_buffer := None\<rparr>"

text \<open>The loop of \<open>next_block\<close>; \<open>None\<close> if the fuel does not suffice.\<close>

fun next_block_loop ::
  "os_read \<Rightarrow> (nat \<Rightarrow> byte) \<Rightarrow> nat \<Rightarrow> bool \<Rightarrow> circular_buffer \<Rightarrow> 'a block_reader_scheme
   \<Rightarrow> ((u32 + unit) \<times> circular_buffer \<times> 'a block_reader_scheme) option" where
  "next_block_loop os_read fresh 0 read dst r = None"
| "next_block_loop os_read fresh (Suc fuel) read dst r =
     (if cb_size dst < br_block_size r then
        if br_current_buffer r \<noteq> None \<and> cb_size (the (br_current_buffer r)) \<noteq> 0 then
          let (current, dst) = cb_pop_buffer (the (br_current_buffer r)) dst
          in next_block_loop os_read fresh fuel False dst (r\<lparr>br_current_buffer := Some current\<rparr>)
        else if \<not> read then
          (case sr_finish_read os_read fresh r of
             (Inl e, r) \<Rightarrow> Some (Inl e, dst, r)
           | (Inr current, r) \<Rightarrow> next_block_loop os_read fresh fuel True dst (r\<lparr>br_current_buffer := current\<rparr>))
        else Some (Inr (), dst, r\<lparr>sr_eof := True\<rparr>)
      else Some (Inr (), dst, r))"

definition next_block ::
  "os_read \<Rightarrow> (nat \<Rightarrow> byte) \<Rightarrow> circular_buffer \<Rightarrow> 'a block_reader_scheme \<Rightarrow> (u32 + bool) \<times> circular_buffer \<times> 'a block_reader_scheme" where
  "next_block os_read fresh dst r =
     (if sr_eof r then (Inr False, dst, r)
      else
        let dst = cb_realloc fresh (br_block_size r) dst;
            dst = cb_reset_size dst;
            (ret, dst, r) = the (next_block_loop os_read fresh (2 * br_block_size r + 2) False dst r)
        in (map_sum id (\<lambda>_. cb_size dst \<noteq> 0) ret, dst, r))"

subsection \<open>ByteByByteReader\<close>

record byte_reader = block_reader +
  bb_current_buffer2 :: circular_buffer

definition bb_clear_buffers :: "(nat \<Rightarrow> byte) \<Rightarrow> 'a byte_reader_scheme \<Rightarrow> 'a byte_reader_scheme" where
  "bb_clear_buffers fresh r = (br_clear_buffers r)\<lparr>bb_current_buffer2 := cb_reset_size (cb_new fresh 1)\<rparr>"

definition bb_init ::
  "u32 option \<Rightarrow> os_read \<Rightarrow> (nat \<Rightarrow> byte) \<Rightarrow> nat \<Rightarrow> 'a byte_reader_scheme \<Rightarrow> u32 + 'a byte_reader_scheme" where
  "bb_init open_error os_read fresh block_size r =
     (case br_init open_error fresh block_size r of
        Inl e \<Rightarrow> Inl e
      | Inr r \<Rightarrow>
          (let (ret, current2, r) = next_block os_read fresh (cb_new fresh 1) r
           in map_sum id (\<lambda>_. r\<lparr>bb_current_buffer2 := current2\<rparr>) ret))"

definition bb_read_more2 :: "os_read \<Rightarrow> (nat \<Rightarrow> byte) \<Rightarrow> 'a byte_reader_scheme \<Rightarrow> (u32 + bool) \<times> 'a byte_reader_scheme" where
  "bb_read_more2 os_read fresh r =
     (let (ret, current2, r) = next_block os_read fresh (bb_current_buffer2 r) r;
          r = r\<lparr>bb_current_buffer2 := current2\<rparr>
      in (map_sum id (\<lambda>_. cb_size current2 \<noteq> 0) ret, r))"

text \<open>\<open>None\<close> is the result \<open>false\<close>, without a byte.\<close>

definition bb_next_byte :: "os_read \<Rightarrow> (nat \<Rightarrow> byte) \<Rightarrow> 'a byte_reader_scheme \<Rightarrow> (u32 + byte option) \<times> 'a byte_reader_scheme" where
  "bb_next_byte os_read fresh r =
     (if cb_size (bb_current_buffer2 r) = 0 then (Inr None, r)
      else
        let (dst, current2) = cb_pop (bb_current_buffer2 r);
            r = r\<lparr>bb_current_buffer2 := current2\<rparr>
        in if cb_size current2 = 0
           then (let (ret, r) = bb_read_more2 os_read fresh r in (map_sum id (\<lambda>_. Some dst) ret, r))
           else (Inr (Some dst), r))"

definition bb_whole_block ::
  "os_read \<Rightarrow> (nat \<Rightarrow> byte) \<Rightarrow> circular_buffer \<Rightarrow> 'a byte_reader_scheme \<Rightarrow> (u32 + bool) \<times> circular_buffer \<times> 'a byte_reader_scheme" where
  "bb_whole_block os_read fresh dst r =
     (let (ret, r) = (if cb_size (bb_current_buffer2 r) = 0 then bb_read_more2 os_read fresh r else (Inr True, r))
      in case ret of Inl e \<Rightarrow> (Inl e, dst, r)
      | Inr _ \<Rightarrow>
        if cb_size (bb_current_buffer2 r) = 0 then (Inr False, dst, r)
        else
          let dst = cb_reset_size (cb_realloc fresh (br_block_size r) dst);
              (current2, dst) = cb_pop_buffer (bb_current_buffer2 r) dst;
              r = r\<lparr>bb_current_buffer2 := current2\<rparr>;
              (ret, r) = (if cb_size dst \<noteq> cb_capacity dst then bb_read_more2 os_read fresh r else (Inr True, r))
          in case ret of Inl e \<Rightarrow> (Inl e, dst, r)
          | Inr again \<Rightarrow>
            if cb_size dst \<noteq> cb_capacity dst \<and> \<not> again then (Inr True, dst, r)
            else
              let (current2, dst) = (if cb_size dst \<noteq> cb_capacity dst then cb_pop_buffer (bb_current_buffer2 r) dst
                                     else (bb_current_buffer2 r, dst));
                  r = r\<lparr>bb_current_buffer2 := current2\<rparr>
              in if cb_size (bb_current_buffer2 r) = 0
                 then (let (ret, r) = bb_read_more2 os_read fresh r in (map_sum id (\<lambda>_. True) ret, dst, r))
                 else (Inr True, dst, r))"

definition bb_seek :: "(nat \<Rightarrow> byte) \<Rightarrow> u32 option \<Rightarrow> u64 \<Rightarrow> 'a byte_reader_scheme \<Rightarrow> (u32 + unit) \<times> 'a byte_reader_scheme" where
  "bb_seek fresh seek_error offset r = sr_seek (bb_clear_buffers fresh) seek_error offset r"

subsection \<open>What is left to read\<close>

definition br_rest :: "byte list \<Rightarrow> 'a block_reader_scheme \<Rightarrow> byte list" where
  "br_rest content r = (case br_current_buffer r of None \<Rightarrow> [] | Some cb \<Rightarrow> cb_contents cb) @ drop (unat (sr_offset r)) content"

definition br_ok :: "byte list \<Rightarrow> 'a block_reader_scheme \<Rightarrow> bool" where
  "br_ok content r \<longleftrightarrow> length content < 2 ^ 64 \<and> unat (sr_offset r) \<le> length content
     \<and> (\<not> sr_eof r \<longrightarrow> overlapped_offset (sr_overlapped r) = unat (sr_offset r)
          \<and> sr_next_buffer r = cb_reset (sr_next_buffer r))
     \<and> (case br_current_buffer r of None \<Rightarrow> True | Some cb \<Rightarrow> cb_flat cb)
     \<and> length (cb_buffer (sr_next_buffer r)) = cb_capacity (sr_next_buffer r)
     \<and> cb_capacity (sr_next_buffer r) = sr_disk_block_size r \<and> 0 < sr_disk_block_size r \<and> 0 < br_block_size r
     \<and> (sr_eof r \<longrightarrow> br_rest content r = [])"

lemma overlapped_offset_split: "overlapped_offset (ucast w, ucast (drop_bit 32 (w :: u64))) = unat w"
proof -
  have "unat (ucast w :: u32) = unat w mod 2 ^ 32" by (simp add: unat_ucast_mod)
  moreover have "unat (drop_bit 32 w) < 2 ^ 32"
    unfolding unat_drop_bit_div by (rule less_mult_imp_div_less) (use unsigned_less [of w, where 'a = nat] in simp)
  then have "unat (ucast (drop_bit 32 w) :: u32) = unat w div 2 ^ 32"
    by (simp add: unat_ucast_mod unat_drop_bit_div)
  ultimately show ?thesis by (simp only: overlapped_offset_def fst_conv snd_conv mod_mult_div_eq)
qed

lemma cb_new_fields [simp]: "cb_capacity (cb_new fresh n) = n" "length (cb_buffer (cb_new fresh n)) = n"
    "cb_size (cb_new fresh n) = n" "cb_start (cb_new fresh n) = 0"
  by (auto simp: cb_new_def cb_realloc_def cb_reset_def Let_def)

lemma cb_reset_fields [simp]: "cb_capacity (cb_reset cb) = cb_capacity cb" "cb_buffer (cb_reset cb) = cb_buffer cb"
    "cb_size (cb_reset cb) = cb_capacity cb" "cb_start (cb_reset cb) = 0" "cb_reset (cb_reset cb) = cb_reset cb"
  by (simp_all add: cb_reset_def)

lemma cb_realloc_fields [simp]: "cb_capacity (cb_realloc fresh n cb) = n"
  by (simp add: cb_realloc_def cb_reset_def Let_def)

lemma sr_read_more_fields [simp]:
  "br_current_buffer (sr_read_more r) = br_current_buffer r" "br_block_size (sr_read_more r) = br_block_size r"
  "sr_offset (sr_read_more r) = sr_offset r" "sr_eof (sr_read_more r) = sr_eof r"
  "sr_disk_block_size (sr_read_more r) = sr_disk_block_size r"
  "block_reader.more (sr_read_more r) = block_reader.more r"
  by (simp_all add: sr_read_more_def sr_cancel_def Let_def)

text \<open>\<open>finish_read\<close> moves bytes from the file into the buffer it returns, or finds the end of the file.\<close>

lemma sr_finish_read_ok:
  assumes "file_reads os_read content" and "br_ok content r" and "\<not> sr_eof r"
    and "br_current_buffer r = None \<or> cb_size (the (br_current_buffer r)) = 0"
    and "sr_finish_read os_read fresh r = (ret, r')"
  shows "\<exists>cur. ret = Inr cur \<and> br_ok content (r'\<lparr>br_current_buffer := cur\<rparr>) \<and> br_block_size r' = br_block_size r
    \<and> br_rest content (r'\<lparr>br_current_buffer := cur\<rparr>) = br_rest content r \<and> block_reader.more r' = block_reader.more r
    \<and> (if br_rest content r = [] then cur = None \<and> sr_eof r' else \<not> sr_eof r' \<and> (\<exists>cb. cur = Some cb \<and> cb_size cb \<noteq> 0))"
proof -
  let ?off = "unat (sr_offset r)" and ?n = "sr_disk_block_size r"
  have ok: "length content < 2 ^ 64" "?off \<le> length content" "overlapped_offset (sr_overlapped r) = ?off"
    "cb_reset (sr_next_buffer r) = sr_next_buffer r" "length (cb_buffer (sr_next_buffer r)) = cb_capacity (sr_next_buffer r)"
    "cb_capacity (sr_next_buffer r) = ?n" "0 < ?n" "0 < br_block_size r"
    using assms(2,3) by (simp_all add: br_ok_def)
  have rest: "br_rest content r = drop ?off content"
    using assms(4) by (auto simp: br_rest_def split: option.split simp flip: length_0_conv)
  show ?thesis
  proof (cases "?off < length content")
    case False
    then have "os_read ?off ?n = Inl ERROR_HANDLE_EOF" using assms(1) by (simp add: file_reads_def)
    then have "ret = Inr None" "r' = r\<lparr>sr_reading := False, sr_eof := True\<rparr>"
      using assms(5) ok(3) by (simp_all add: sr_finish_read_def)
    then show ?thesis using False ok rest by (simp add: br_ok_def br_rest_def)
  next
    case True
    then obtain k where k: "0 < k" "k \<le> ?n" "os_read ?off ?n = Inr (take k (drop ?off content))"
      using assms(1) ok(7) unfolding file_reads_def by blast
    define bytes where "bytes = take k (drop ?off content)"
    have len: "0 < length bytes" "length bytes \<le> ?n" "?off + length bytes \<le> length content" using k True by (auto simp: bytes_def)
    define cb where "cb = cb_trim (length bytes) ((sr_next_buffer r)\<lparr>cb_buffer := put_bytes (cb_buffer (sr_next_buffer r)) 0 bytes\<rparr>)"
    have nb: "cb_size (sr_next_buffer r) = ?n" "cb_start (sr_next_buffer r) = 0"
      using arg_cong [OF ok(4), of cb_size] arg_cong [OF ok(4), of cb_start] ok(6) by simp_all
    define r1 where "r1 = sr_alloc fresh (r\<lparr>sr_reading := False, sr_offset := sr_offset r + word_of_nat (length bytes)\<rparr>)"
    have ret: "ret = Inr (Some cb)" "r' = sr_read_more r1"
      using assms(5) ok(3) k(3) nb by (simp_all add: sr_finish_read_def cb_def r1_def Let_def flip: bytes_def)
    have off: "unat (sr_offset r + word_of_nat (length bytes)) = ?off + length bytes"
      using len(3) ok(1) by (subst unat_add_small) (simp_all add: unat_of_nat)
    have cb: "cb_flat cb" "cb_contents cb = bytes" "cb_size cb = length bytes"
    proof -
      have "cb_size cb = length bytes" "cb_start cb = 0" "cb_buffer cb = put_bytes (cb_buffer (sr_next_buffer r)) 0 bytes"
        "cb_capacity cb = ?n" using nb len(2) ok(6) by (simp_all add: cb_def cb_trim_def)
      moreover from this have "cb_flat cb" using len(2) ok(5,6) by (simp add: cb_flat_def)
      ultimately show "cb_flat cb" "cb_contents cb = bytes" "cb_size cb = length bytes"
        by (simp_all add: cb_flat_contents put_bytes_def)
    qed
    have f: "sr_eof r' = False" "br_block_size r' = br_block_size r" "block_reader.more r' = block_reader.more r"
      "sr_offset r' = sr_offset r + word_of_nat (length bytes)" "sr_disk_block_size r' = ?n"
      "overlapped_offset (sr_overlapped r') = unat (sr_offset r')" "sr_next_buffer r' = cb_reset (sr_next_buffer r')"
      "length (cb_buffer (sr_next_buffer r')) = cb_capacity (sr_next_buffer r')" "cb_capacity (sr_next_buffer r') = ?n"
      using assms(3) by (simp_all add: ret r1_def sr_alloc_def sr_read_more_def Let_def sr_cancel_def overlapped_offset_split)
    have n0: "0 < sr_disk_block_size r'" using f(5) ok(7) by simp
    have "bytes @ drop (?off + length bytes) content = drop ?off content"
    proof -
      have "bytes @ drop (length bytes) (drop ?off content) = drop ?off content"
        by (cases "k \<le> length (drop ?off content)") (simp_all add: bytes_def min_def del: drop_drop length_drop)
      then show ?thesis by (simp add: add.commute)
    qed
    then have "br_rest content (r'\<lparr>br_current_buffer := Some cb\<rparr>) = br_rest content r"
      using cb f(4) off rest by (simp add: br_rest_def)
    moreover have "br_ok content (r'\<lparr>br_current_buffer := Some cb\<rparr>)"
      unfolding br_ok_def using f(1,2,4-9) ok(1,5,8) cb(1) off len(3) n0 by simp
    ultimately show ?thesis using f cb len True rest ret(1) by (intro exI [of _ "Some cb"]) auto
  qed
qed

subsection \<open>Whole blocks\<close>

text \<open>The destination of \<open>next_block\<close> while it is filled.\<close>

definition filling :: "nat \<Rightarrow> circular_buffer \<Rightarrow> bool" where
  "filling n dst \<longleftrightarrow> cb_flat dst \<and> cb_start dst = 0 \<and> cb_capacity dst = n"

lemma filling_size: "filling n dst \<Longrightarrow> cb_size dst \<le> n"
  by (auto simp: filling_def cb_flat_def)

lemma filling_start:
  "length (cb_buffer dst) = cb_capacity dst \<Longrightarrow> filling n (cb_reset_size (cb_realloc fresh n dst))"
  "cb_size (cb_reset_size (cb_realloc fresh n dst)) = 0" "cb_contents (cb_reset_size (cb_realloc fresh n dst)) = []"
  by (simp_all add: filling_def cb_realloc_flat) (simp_all add: cb_reset_size_def cb_contents_def)

lemma filling_pop_buffer:
  assumes "filling n dst" and "cb_flat cur" and "cb_pop_buffer cur dst = (cur', dst')"
  shows "filling n dst'" and "cb_flat cur'" and "cb_contents dst' @ cb_contents cur' = cb_contents dst @ cb_contents cur"
    and "cb_size dst' = min (cb_size dst + cb_size cur) n" and "cb_capacity cur' = cb_capacity cur"
proof -
  have d: "cb_flat dst" "cb_start dst = 0" "cb_capacity dst = n" using assms(1) by (simp_all add: filling_def)
  note p = cb_pop_buffer_flat [OF assms(2) d(1,2) refl, unfolded assms(3) fst_conv snd_conv]
  show "filling n dst'" "cb_flat cur'" "cb_capacity cur' = cb_capacity cur" using p d by (simp_all add: filling_def)
  show "cb_contents dst' @ cb_contents cur' = cb_contents dst @ cb_contents cur" using p(1,2) by simp
  have "cb_size dst' = cb_size dst + min (cb_size cur) (n - cb_size dst)" using arg_cong [OF p(1), of length] d(3) by simp
  then show "cb_size dst' = min (cb_size dst + cb_size cur) n" using filling_size [OF assms(1)] by (auto simp: min_def)
qed

lemma next_block_loop_ok:
  assumes "file_reads os_read content" and "br_ok content r" and "filling (br_block_size r) dst"
    and "2 * (br_block_size r - cb_size dst) + (if read then 0 else 1) < fuel"
    and "\<not> read \<Longrightarrow> \<not> sr_eof r"
    and "read \<Longrightarrow> (if br_rest content r = [] then br_current_buffer r = None \<and> sr_eof r
      else \<not> sr_eof r \<and> (\<exists>cb. br_current_buffer r = Some cb \<and> cb_size cb \<noteq> 0))"
  shows "\<exists>dst' r'. next_block_loop os_read fresh fuel read dst r = Some (Inr (), dst', r') \<and> filling (br_block_size r) dst'
    \<and> br_ok content r' \<and> br_block_size r' = br_block_size r \<and> block_reader.more r' = block_reader.more r
    \<and> cb_contents dst' @ br_rest content r' = cb_contents dst @ br_rest content r
    \<and> (cb_size dst' = br_block_size r \<or> br_rest content r' = [] \<and> sr_eof r')"
  using assms(2-)
proof (induction fuel arbitrary: read dst r)
  case (Suc fuel)
  let ?bs = "br_block_size r"
  show ?case
  proof (cases "cb_size dst < ?bs")
    case False
    then have "cb_size dst = ?bs" using filling_size [OF Suc.prems(2)] by simp
    then show ?thesis using Suc.prems(1,2) by simp
  next
    case room: True
    show ?thesis
    proof (cases "br_current_buffer r \<noteq> None \<and> cb_size (the (br_current_buffer r)) \<noteq> 0")
      case True
      then obtain cur where cur: "br_current_buffer r = Some cur" "cb_size cur \<noteq> 0" by auto
      obtain cur' dst1 where p: "cb_pop_buffer cur dst = (cur', dst1)" by (cases "cb_pop_buffer cur dst")
      have "cb_flat cur" using Suc.prems(1) cur(1) by (simp add: br_ok_def)
      note pb = filling_pop_buffer [OF Suc.prems(2) this p]
      define r1 where "r1 = r\<lparr>br_current_buffer := Some cur'\<rparr>"
      have ne: "br_rest content r \<noteq> []" using cur by (auto simp: br_rest_def simp flip: length_0_conv)
      then have eof: "\<not> sr_eof r" using Suc.prems(1) by (auto simp: br_ok_def)
      have r1: "br_ok content r1" "br_block_size r1 = ?bs" "block_reader.more r1 = block_reader.more r" "sr_eof r1 = sr_eof r"
        using Suc.prems(1) pb(2) eof by (simp_all add: br_ok_def r1_def)
      have rest: "cb_contents dst1 @ br_rest content r1 = cb_contents dst @ br_rest content r"
        using pb(3) cur(1) by (simp add: br_rest_def r1_def)
      have "cb_size dst < cb_size dst1" using pb(4) cur(2) room by simp
      then have fuel: "2 * (?bs - cb_size dst1) + 1 < fuel" using Suc.prems(3) room by (auto split: if_splits)
      have "next_block_loop os_read fresh (Suc fuel) read dst r = next_block_loop os_read fresh fuel False dst1 r1"
        using room cur p by (simp add: r1_def)
      moreover note Suc.IH [OF r1(1), of dst1 False, unfolded r1(2-4)]
      ultimately show ?thesis using pb(1) fuel eof rest by simp
    next
      case False
      then have cur: "br_current_buffer r = None \<or> cb_size (the (br_current_buffer r)) = 0" by auto
      show ?thesis
      proof (cases read)
        case True
        then have "br_rest content r = []" using Suc.prems(5) cur by (auto split: if_splits)
        moreover have "next_block_loop os_read fresh (Suc fuel) read dst r = Some (Inr (), dst, r\<lparr>sr_eof := True\<rparr>)"
          using room False True by (auto simp del: not_None_eq)
        ultimately show ?thesis using Suc.prems(1,2) by (auto simp: br_ok_def br_rest_def)
      next
        case unread: False
        obtain ret r0 where fr: "sr_finish_read os_read fresh r = (ret, r0)" by (cases "sr_finish_read os_read fresh r")
        have eof: "\<not> sr_eof r" using Suc.prems(4) unread by simp
        obtain cur' where c: "ret = Inr cur'" "br_ok content (r0\<lparr>br_current_buffer := cur'\<rparr>)" "br_block_size r0 = ?bs"
          "br_rest content (r0\<lparr>br_current_buffer := cur'\<rparr>) = br_rest content r" "block_reader.more r0 = block_reader.more r"
          "if br_rest content r = [] then cur' = None \<and> sr_eof r0 else \<not> sr_eof r0 \<and> (\<exists>cb. cur' = Some cb \<and> cb_size cb \<noteq> 0)"
          using sr_finish_read_ok [OF assms(1) Suc.prems(1) eof cur fr] by blast
        define r1 where "r1 = r0\<lparr>br_current_buffer := cur'\<rparr>"
        have r1: "br_ok content r1" "br_block_size r1 = ?bs" "br_rest content r1 = br_rest content r"
          "block_reader.more r1 = block_reader.more r" "sr_eof r1 = sr_eof r0" "br_current_buffer r1 = cur'"
          using c by (simp_all add: r1_def)
        have "next_block_loop os_read fresh (Suc fuel) read dst r = next_block_loop os_read fresh fuel True dst r1"
          using room False unread fr c(1) by (auto simp: r1_def simp del: not_None_eq)
        moreover note Suc.IH [OF r1(1), of dst True, unfolded r1(2-6)]
        moreover have "2 * (?bs - cb_size dst) < fuel" using Suc.prems(3) unread by simp
        ultimately show ?thesis using Suc.prems(2) c(6) by simp
      qed
    qed
  qed
qed simp

lemma next_block_ok:
  assumes "file_reads os_read content" and "br_ok content r" and "length (cb_buffer dst) = cb_capacity dst"
    and "next_block os_read fresh dst r = (ret, dst', r')"
  shows "ret = Inr (br_rest content r \<noteq> []) \<and> br_ok content r' \<and> br_block_size r' = br_block_size r
    \<and> block_reader.more r' = block_reader.more r \<and> br_rest content r' = drop (br_block_size r) (br_rest content r)
    \<and> (if sr_eof r then dst' = dst
       else filling (br_block_size r) dst' \<and> cb_contents dst' = take (br_block_size r) (br_rest content r))"
proof (cases "sr_eof r")
  case True
  then show ?thesis using assms by (auto simp: next_block_def br_ok_def)
next
  case False
  let ?bs = "br_block_size r" and ?dst = "cb_reset_size (cb_realloc fresh (br_block_size r) dst)"
  note st = filling_start(1) [OF assms(3), of ?bs fresh] filling_start(2,3) [of fresh ?bs dst]
  obtain d r1 where l: "next_block_loop os_read fresh (2 * ?bs + 2) False ?dst r = Some (Inr (), d, r1)" "filling ?bs d"
    "br_ok content r1" "br_block_size r1 = ?bs" "block_reader.more r1 = block_reader.more r"
    "cb_contents d @ br_rest content r1 = br_rest content r" "cb_size d = ?bs \<or> br_rest content r1 = [] \<and> sr_eof r1"
    using next_block_loop_ok [OF assms(1,2) st(1), of False "2 * ?bs + 2" fresh] False st(2,3) by auto
  have e: "ret = Inr (cb_size d \<noteq> 0)" "dst' = d" "r' = r1"
    using assms(4) False l(1) by (auto simp: next_block_def simp del: next_block_loop.simps)
  have bs: "0 < ?bs" using assms(2) by (simp add: br_ok_def)
  have parts: "cb_contents d = take ?bs (br_rest content r)" "br_rest content r1 = drop ?bs (br_rest content r)"
  proof -
    have "length (cb_contents d) \<le> ?bs" using filling_size [OF l(2)] by simp
    moreover have "length (cb_contents d) = ?bs \<or> br_rest content r1 = []" using l(7) by auto
    ultimately show "cb_contents d = take ?bs (br_rest content r)" "br_rest content r1 = drop ?bs (br_rest content r)"
      unfolding l(6) [symmetric] by auto
  qed
  have "cb_size d \<noteq> 0 \<longleftrightarrow> br_rest content r \<noteq> []"
    using arg_cong [OF parts(1), of length] bs by auto
  then show ?thesis using e l(2-5) parts False by simp
qed

subsection \<open>Single bytes\<close>

definition bb_rest :: "byte list \<Rightarrow> 'a byte_reader_scheme \<Rightarrow> byte list" where
  "bb_rest content r = cb_contents (bb_current_buffer2 r) @ br_rest content r"

definition bb_ok :: "os_read \<Rightarrow> byte list \<Rightarrow> 'a byte_reader_scheme \<Rightarrow> bool" where
  "bb_ok os_read content r \<longleftrightarrow> file_reads os_read content \<and> br_ok content r \<and> cb_flat (bb_current_buffer2 r)
     \<and> cb_size (bb_current_buffer2 r) \<le> br_block_size r"

text \<open>After every operation the second buffer is empty only at the end of the file.\<close>

definition bb_ready :: "byte list \<Rightarrow> 'a byte_reader_scheme \<Rightarrow> bool" where
  "bb_ready content r \<longleftrightarrow> (cb_size (bb_current_buffer2 r) = 0 \<longrightarrow> bb_rest content r = [])"

lemma more_current_buffer2: "block_reader.more r' = block_reader.more r \<Longrightarrow> bb_current_buffer2 r' = bb_current_buffer2 r"
  by (cases r; cases r') simp

lemma br_update_current_buffer2 [simp]:
  "br_ok content (r\<lparr>bb_current_buffer2 := c\<rparr>) = br_ok content r" "br_rest content (r\<lparr>bb_current_buffer2 := c\<rparr>) = br_rest content r"
  by (simp_all add: br_ok_def br_rest_def)

lemma cb_contents_empty: "cb_contents cb = [] \<longleftrightarrow> cb_size cb = 0"
  by (simp flip: length_0_conv)

lemma bb_read_more2_ok:
  assumes "bb_ok os_read content r" and "cb_size (bb_current_buffer2 r) = 0" and "bb_read_more2 os_read fresh r = (ret, r')"
  shows "ret = Inr (bb_rest content r \<noteq> []) \<and> bb_ok os_read content r' \<and> bb_ready content r'
    \<and> bb_rest content r' = bb_rest content r \<and> br_block_size r' = br_block_size r
    \<and> cb_contents (bb_current_buffer2 r') = take (br_block_size r) (bb_rest content r)"
proof -
  obtain ret0 c r0 where nb: "next_block os_read fresh (bb_current_buffer2 r) r = (ret0, c, r0)"
    by (cases "next_block os_read fresh (bb_current_buffer2 r) r")
  have ok: "file_reads os_read content" "br_ok content r" "cb_flat (bb_current_buffer2 r)"
    using assms(1) by (simp_all add: bb_ok_def)
  then have "length (cb_buffer (bb_current_buffer2 r)) = cb_capacity (bb_current_buffer2 r)" by (simp add: cb_flat_def)
  note n = next_block_ok [OF ok(1,2) this nb]
  have rest: "bb_rest content r = br_rest content r" using assms(2) by (simp add: bb_rest_def cb_contents_empty)
  have c: "cb_contents c = take (br_block_size r) (br_rest content r)" "cb_flat c" "cb_size c \<le> br_block_size r"
    using n ok(2,3) assms(2) by (auto simp: br_ok_def filling_def cb_contents_empty cb_flat_def split: if_splits)
  have e: "ret = Inr (cb_size c \<noteq> 0)" "r' = r0\<lparr>bb_current_buffer2 := c\<rparr>"
    using assms(3) nb n by (simp_all add: bb_read_more2_def)
  have bs: "0 < br_block_size r" using ok(2) by (simp add: br_ok_def)
  have z: "cb_size c = 0 \<longleftrightarrow> br_rest content r = []" using arg_cong [OF c(1), of length] bs by (auto simp: min_def split: if_splits)
  have rest': "bb_rest content r' = br_rest content r" using n c(1) by (simp add: e bb_rest_def)
  show ?thesis using rest rest' n c ok z e by (simp add: bb_ok_def bb_ready_def bb_rest_def)
qed

lemma bb_next_byte_ok:
  assumes "bb_ok os_read content r" and "bb_ready content r" and "bb_next_byte os_read fresh r = (ret, r')"
  shows "bb_ok os_read content r' \<and> bb_ready content r' \<and> br_block_size r' = br_block_size r
    \<and> (case bb_rest content r of [] \<Rightarrow> ret = Inr None \<and> bb_rest content r' = [] | b # bs \<Rightarrow> ret = Inr (Some b) \<and> bb_rest content r' = bs)"
proof (cases "cb_size (bb_current_buffer2 r) = 0")
  case True
  then show ?thesis using assms by (auto simp: bb_next_byte_def bb_ready_def)
next
  case False
  let ?c = "bb_current_buffer2 r"
  obtain b bs where c: "cb_contents ?c = b # bs" using False by (metis cb_contents_empty neq_Nil_conv)
  obtain c' where p: "cb_pop ?c = (b, c')" "cb_contents c' = bs" "cb_flat c'" "cb_size c' < cb_size ?c"
  proof -
    have flat: "cb_flat ?c" using assms(1) by (simp add: bb_ok_def)
    then have "cb_ok ?c" using False by (simp add: cb_flat_def cb_ok_def)
    note pop = cb_pop_contents [OF this c]
    have "cb_start ?c + 1 = cb_capacity ?c \<or> (cb_start ?c + 1) mod cb_capacity ?c = cb_start ?c + 1"
      using flat False by (cases "cb_start ?c + 1 = cb_capacity ?c") (simp_all add: cb_flat_def)
    then have "cb_flat (snd (cb_pop ?c))" using flat False by (auto simp: cb_flat_def cb_pop_def)
    moreover have "cb_size (snd (cb_pop ?c)) < cb_size ?c" using False by (simp add: cb_pop_def)
    ultimately show ?thesis using pop that [of "snd (cb_pop ?c)"] by (metis prod.collapse)
  qed
  define r1 where "r1 = r\<lparr>bb_current_buffer2 := c'\<rparr>"
  have r1: "bb_ok os_read content r1" "bb_rest content r1 = bs @ br_rest content r" "br_block_size r1 = br_block_size r"
    "bb_rest content r = b # bs @ br_rest content r"
    using assms(1) p c by (simp_all add: r1_def bb_ok_def bb_rest_def)
  show ?thesis
  proof (cases "cb_size c' = 0")
    case True
    obtain ret2 r2 where m: "bb_read_more2 os_read fresh r1 = (ret2, r2)" by (cases "bb_read_more2 os_read fresh r1")
    have "cb_size (bb_current_buffer2 r1) = 0" using True by (simp add: r1_def)
    note rm = bb_read_more2_ok [OF r1(1) this m]
    have "ret = Inr (Some b)" "r' = r2" using assms(3) False p(1) True m rm by (simp_all add: bb_next_byte_def r1_def)
    then show ?thesis using rm r1 by simp
  next
    case c': False
    then have "ret = Inr (Some b)" "r' = r1" using assms(3) False p(1) by (simp_all add: bb_next_byte_def r1_def)
    then show ?thesis using r1 c' by (simp add: bb_ready_def r1_def)
  qed
qed

lemma bb_top_up_ok:
  assumes "bb_ok os_read content r" and "br_block_size r = bs" and "filling bs dst"
    and "cb_contents (bb_current_buffer2 r) = take bs (bb_rest content r)"
    and "cb_pop_buffer (bb_current_buffer2 r) dst = (c', dst')"
  defines "r' \<equiv> r\<lparr>bb_current_buffer2 := c'\<rparr>"
  shows "filling bs dst'" and "cb_contents dst' @ bb_rest content r' = cb_contents dst @ bb_rest content r"
    and "cb_size dst' = bs \<or> bb_rest content r' = []" and "bb_ok os_read content r'" and "br_block_size r' = bs"
proof -
  have c: "cb_flat (bb_current_buffer2 r)" "cb_size (bb_current_buffer2 r) \<le> bs" using assms(1,2) by (simp_all add: bb_ok_def)
  note pb = filling_pop_buffer [OF assms(3) c(1) assms(5)]
  have "cb_size c' \<le> cb_size (bb_current_buffer2 r)"
    using arg_cong [OF pb(3), of length] pb(4) filling_size [OF assms(3)] by simp
  then show "filling bs dst'" "bb_ok os_read content r'" "br_block_size r' = bs"
    using assms(1,2) pb(1,2) c by (simp_all add: r'_def bb_ok_def)
  show "cb_contents dst' @ bb_rest content r' = cb_contents dst @ bb_rest content r"
    using pb(3) by (simp add: r'_def bb_rest_def)
  show "cb_size dst' = bs \<or> bb_rest content r' = []"
  proof (cases "length (bb_rest content r) \<le> bs")
    case True
    then have "cb_contents (bb_current_buffer2 r) = bb_rest content r" using assms(4) by simp
    then have "br_rest content r = []" by (simp add: bb_rest_def)
    moreover have "cb_size dst' = bs \<or> cb_contents c' = []"
      using arg_cong [OF pb(3), of length] pb(4) by (auto simp: min_def cb_contents_empty split: if_splits)
    ultimately show ?thesis by (auto simp: r'_def bb_rest_def)
  next
    case False
    then have "cb_size (bb_current_buffer2 r) = bs" using arg_cong [OF assms(4), of length] by simp
    then show ?thesis using pb(4) by simp
  qed
qed

text \<open>The end of \<open>whole_block\<close>.\<close>

lemma bb_refill_ok:
  assumes "R \<noteq> []" and "filling bs d" and "cb_contents d @ bb_rest content r = R" and "cb_size d = bs \<or> bb_rest content r = []"
    and "bb_ok os_read content r" and "br_block_size r = bs"
    and "(if cb_size (bb_current_buffer2 r) = 0 then (let (ret, r) = bb_read_more2 os_read fresh r in (map_sum id (\<lambda>_. True) ret, d, r))
          else (Inr True, d, r)) = (ret, dst', r')"
  shows "ret = Inr (R \<noteq> []) \<and> bb_ok os_read content r' \<and> bb_ready content r' \<and> br_block_size r' = bs
    \<and> bb_rest content r' = drop bs R \<and> (if R = [] then dst' = dst else filling bs dst' \<and> cb_contents dst' = take bs R)"
proof -
  have "length (cb_contents d) \<le> bs" "length (cb_contents d) = bs \<or> bb_rest content r = []"
    using filling_size [OF assms(2)] assms(4) by simp_all
  then have parts: "cb_contents d = take bs R" "bb_rest content r = drop bs R" unfolding assms(3) [symmetric] by auto
  show ?thesis
  proof (cases "cb_size (bb_current_buffer2 r) = 0")
    case True
    obtain ret4 r4 where m: "bb_read_more2 os_read fresh r = (ret4, r4)" by (cases "bb_read_more2 os_read fresh r")
    note rm = bb_read_more2_ok [OF assms(5) True m]
    have "ret = Inr True" "dst' = d" "r' = r4" using assms(7) True m rm by auto
    then show ?thesis using rm assms(1,2,6) parts by simp
  next
    case False
    then have "ret = Inr True" "dst' = d" "r' = r" using assms(7) by auto
    then show ?thesis using assms(1,2,5,6) parts False by (simp add: bb_ready_def)
  qed
qed

lemma bb_whole_block_ok:
  assumes "bb_ok os_read content r" and "length (cb_buffer dst) = cb_capacity dst"
    and "bb_whole_block os_read fresh dst r = (ret, dst', r')"
  shows "ret = Inr (bb_rest content r \<noteq> []) \<and> bb_ok os_read content r' \<and> bb_ready content r' \<and> br_block_size r' = br_block_size r
    \<and> bb_rest content r' = drop (br_block_size r) (bb_rest content r)
    \<and> (if bb_rest content r = [] then dst' = dst
       else filling (br_block_size r) dst' \<and> cb_contents dst' = take (br_block_size r) (bb_rest content r))"
proof -
  let ?bs = "br_block_size r" and ?R = "bb_rest content r"
  obtain ret1 r1 where m1: "(if cb_size (bb_current_buffer2 r) = 0 then bb_read_more2 os_read fresh r else (Inr True, r)) = (ret1, r1)"
    by (cases "if cb_size (bb_current_buffer2 r) = 0 then bb_read_more2 os_read fresh r else (Inr True, r)")
  have r1: "ret1 \<in> range Inr" "bb_ok os_read content r1" "bb_ready content r1" "bb_rest content r1 = ?R" "br_block_size r1 = ?bs"
    using m1 bb_read_more2_ok [OF assms(1), of fresh ret1 r1] assms(1) by (auto simp: bb_ready_def split: if_splits)
  show ?thesis
  proof (cases "cb_size (bb_current_buffer2 r1) = 0")
    case True
    then have "?R = []" using r1 by (simp add: bb_ready_def)
    moreover have "ret = Inr False" "dst' = dst" "r' = r1"
      using assms(3) r1(1) True by (auto simp: bb_whole_block_def m1)
    ultimately show ?thesis using r1 by simp
  next
    case some: False
    then have R: "?R \<noteq> []" using r1(4) by (metis bb_rest_def append_is_Nil_conv cb_contents_empty)
    define d0 where "d0 = cb_reset_size (cb_realloc fresh ?bs dst)"
    have d0: "filling ?bs d0" "cb_size d0 = 0" "cb_contents d0 = []" using filling_start(1) [of dst ?bs fresh] filling_start(2,3) [of fresh ?bs dst] assms(2) by (simp_all add: d0_def)
    obtain c1 d1 where p1: "cb_pop_buffer (bb_current_buffer2 r1) d0 = (c1, d1)" by (cases "cb_pop_buffer (bb_current_buffer2 r1) d0")
    have c: "cb_flat (bb_current_buffer2 r1)" "cb_size (bb_current_buffer2 r1) \<le> ?bs" using r1(2,5) by (simp_all add: bb_ok_def)
    note pb1 = filling_pop_buffer [OF d0(1) c(1) p1]
    have d1: "cb_size d1 = cb_size (bb_current_buffer2 r1)" using pb1(4) d0(2) c(2) by simp
    then have c1: "cb_contents c1 = []" "cb_contents d1 = cb_contents (bb_current_buffer2 r1)"
      using pb1(3) d0(3) by (metis append_Nil append_eq_append_conv append_Nil2 length_cb_contents)+
    then have c1s: "cb_size c1 = 0" by (simp add: cb_contents_empty)
    define r2 where "r2 = r1\<lparr>bb_current_buffer2 := c1\<rparr>"
    have r2: "bb_ok os_read content r2" "br_block_size r2 = ?bs" "cb_contents d1 @ bb_rest content r2 = ?R" "cb_size (bb_current_buffer2 r2) = 0"
      using r1(2,4,5) pb1(2) c1 c1s by (simp_all add: r2_def bb_ok_def bb_rest_def)
    have cap: "cb_capacity d1 = ?bs" using pb1(1) by (simp add: filling_def)
    note fin = bb_refill_ok [OF R]
    show ?thesis
    proof (cases "cb_size d1 = ?bs")
      case True
      show ?thesis
      proof (rule fin [OF pb1(1) r2(3) _ r2(1,2)])
        show "cb_size d1 = ?bs \<or> bb_rest content r2 = []" using True by simp
        show "(if cb_size (bb_current_buffer2 r2) = 0 then (let (ret, r) = bb_read_more2 os_read fresh r2 in (map_sum id (\<lambda>_. True) ret, d1, r))
            else (Inr True, d1, r2)) = (ret, dst', r')"
          using assms(3) r1(1) some p1 True cap by (auto simp: bb_whole_block_def m1 d0_def [symmetric] r1(5) r2_def c1s)
      qed
    next
      case part: False
      obtain ret3 r3 where m3: "bb_read_more2 os_read fresh r2 = (ret3, r3)" by (cases "bb_read_more2 os_read fresh r2")
      note rm = bb_read_more2_ok [OF r2(1,4) m3]
      show ?thesis
      proof (cases "bb_rest content r2 = []")
        case True
        then have "ret = Inr True" "dst' = d1" "r' = r3"
          using assms(3) r1(1) some p1 part cap m3 rm by (auto simp: bb_whole_block_def m1 d0_def [symmetric] r1(5) r2_def [symmetric])
        moreover have "cb_contents d1 = ?R" using r2(3) True by simp
        moreover have "length ?R \<le> ?bs" using d1 c(2) by (metis calculation(4) length_cb_contents)
        ultimately show ?thesis using rm True R pb1(1) r2(2) by simp
      next
        case False
        obtain c4 d4 where p4: "cb_pop_buffer (bb_current_buffer2 r3) d1 = (c4, d4)" by (cases "cb_pop_buffer (bb_current_buffer2 r3) d1")
        define r4 where "r4 = r3\<lparr>bb_current_buffer2 := c4\<rparr>"
        have rm': "bb_ok os_read content r3" "br_block_size r3 = ?bs" "cb_contents d1 @ bb_rest content r3 = ?R"
          "cb_contents (bb_current_buffer2 r3) = take ?bs (bb_rest content r3)"
          using rm r2(2,3) by simp_all
        note t = bb_top_up_ok [OF rm'(1,2) pb1(1) rm'(4) p4, folded r4_def, unfolded rm'(3)]
        show ?thesis
        proof (rule fin [OF t(1) t(2) t(3) t(4) t(5)])
          show "(if cb_size (bb_current_buffer2 r4) = 0 then (let (ret, r) = bb_read_more2 os_read fresh r4 in (map_sum id (\<lambda>_. True) ret, d4, r))
              else (Inr True, d4, r4)) = (ret, dst', r')"
            using assms(3) r1(1) some p1 part cap m3 rm False p4
            by (auto simp: bb_whole_block_def m1 d0_def [symmetric] r1(5) r2_def [symmetric] r4_def)
        qed
      qed
    qed
  qed
qed

lemma sr_read_more_pending:
  assumes "\<not> sr_eof r"
  shows "overlapped_offset (sr_overlapped (sr_read_more r)) = unat (sr_offset r)"
    and "sr_next_buffer (sr_read_more r) = cb_reset (sr_next_buffer r)"
  using assms by (simp_all add: sr_read_more_def Let_def sr_cancel_def overlapped_offset_split)

lemma bb_seek_ok:
  assumes "bb_ok os_read content r" and "off \<le> length content" and "bb_seek fresh None (word_of_nat off) r = (ret, r')"
  shows "ret = Inr () \<and> bb_ok os_read content r' \<and> bb_rest content r' = drop off content \<and> br_block_size r' = br_block_size r"
proof -
  define r1 where "r1 = (br_clear_buffers (sr_cancel r))\<lparr>bb_current_buffer2 := cb_reset_size (cb_new fresh 1), sr_eof := False,
    sr_offset := word_of_nat off\<rparr>"
  have e: "ret = Inr ()" "r' = sr_read_more r1"
    using assms(3) by (simp_all add: bb_seek_def sr_seek_def bb_clear_buffers_def r1_def Let_def)
  have ok: "file_reads os_read content" "length content < 2 ^ 64" "length (cb_buffer (sr_next_buffer r)) = cb_capacity (sr_next_buffer r)"
    "cb_capacity (sr_next_buffer r) = sr_disk_block_size r" "0 < sr_disk_block_size r" "0 < br_block_size r"
    using assms(1) by (simp_all add: bb_ok_def br_ok_def)
  have off: "unat (word_of_nat off :: u64) = off" using assms(2) ok(2) by (simp add: unat_of_nat)
  have r1: "\<not> sr_eof r1" "br_current_buffer r1 = None" "br_block_size r1 = br_block_size r" "sr_offset r1 = word_of_nat off"
    "sr_next_buffer r1 = sr_next_buffer r" "sr_disk_block_size r1 = sr_disk_block_size r"
    "bb_current_buffer2 r1 = cb_reset_size (cb_new fresh 1)"
    by (simp_all add: r1_def br_clear_buffers_def sr_cancel_def)
  have b2: "bb_current_buffer2 r' = cb_reset_size (cb_new fresh 1)" unfolding e using more_current_buffer2 [of "sr_read_more r1" r1] r1(7) by simp
  have c: "cb_flat (cb_reset_size (cb_new fresh 1))" "cb_size (cb_reset_size (cb_new fresh 1)) = 0" "cb_contents (cb_reset_size (cb_new fresh 1)) = []"
    by (simp_all add: cb_reset_size_def cb_flat_def cb_contents_def)
  have "br_ok content r'"
    using r1 ok off assms(2) sr_read_more_pending [OF r1(1)] by (simp add: e br_ok_def)
  moreover have "br_rest content r' = drop off content" using r1 off by (simp add: e br_rest_def)
  ultimately show ?thesis using e(1) ok(1) b2 c r1(3) by (simp add: bb_ok_def bb_rest_def e(2))
qed

lemma br_init_ok:
  assumes "length content < 2 ^ 64"
  shows "\<exists>r'. br_init None fresh bs r = Inr r' \<and> br_ok content r' \<and> br_rest content r' = content
    \<and> br_block_size r' = (if bs = 0 then 8192 else bs) \<and> \<not> sr_eof r'"
proof -
  define r0 where "r0 = r\<lparr>br_current_buffer := None, sr_eof := False, sr_reading := False, sr_offset := 0, sr_disk_block_size := 8192,
    sr_overlapped := (0, 0), sr_next_buffer := cb_new fresh 8192\<rparr>"
  define r1 where "r1 = (sr_read_more r0)\<lparr>br_block_size := (if bs = 0 then 8192 else bs)\<rparr>"
  have i: "br_init None fresh bs r = Inr r1"
    by (simp add: br_init_def sr_init_def sr_alloc_def r0_def r1_def Let_def push_bit_eq_mult)
  have r0: "\<not> sr_eof r0" "br_current_buffer r0 = None" "sr_offset r0 = 0" "sr_next_buffer r0 = cb_new fresh 8192" "sr_disk_block_size r0 = 8192"
    by (simp_all add: r0_def)
  have "br_ok content r1" "br_rest content r1 = content" "br_block_size r1 = (if bs = 0 then 8192 else bs)" "\<not> sr_eof r1"
    using assms r0 sr_read_more_pending [OF r0(1)] by (simp_all add: r1_def br_ok_def br_rest_def)
  with i show ?thesis by blast
qed

lemma bb_init_ok:
  assumes "file_reads os_read content" and "length content < 2 ^ 64"
  shows "\<exists>r'. bb_init None os_read fresh bs r = Inr r' \<and> bb_ok os_read content r' \<and> bb_ready content r' \<and> bb_rest content r' = content
    \<and> br_block_size r' = (if bs = 0 then 8192 else bs)"
proof -
  obtain r1 where i: "br_init None fresh bs r = Inr r1" and ok: "br_ok content r1" "br_rest content r1 = content"
    "br_block_size r1 = (if bs = 0 then 8192 else bs)" "\<not> sr_eof r1"
    using br_init_ok [OF assms(2), of fresh bs r] by blast
  obtain ret c r2 where nb: "next_block os_read fresh (cb_new fresh 1) r1 = (ret, c, r2)" by (cases "next_block os_read fresh (cb_new fresh 1) r1")
  note n = next_block_ok [OF assms(1) ok(1) _ nb, simplified]
  have f: "filling (br_block_size r1) c" "cb_contents c = take (br_block_size r1) content" using n ok by simp_all
  have "bb_init None os_read fresh bs r = Inr (r2\<lparr>bb_current_buffer2 := c\<rparr>)" using i nb n by (simp add: bb_init_def)
  moreover have "cb_flat c" "cb_size c \<le> br_block_size r1" using f(1) filling_size [OF f(1)] by (simp_all add: filling_def)
  moreover have "content = []" if "cb_size c = 0"
    using that f(2) ok(1) by (auto simp: br_ok_def simp flip: cb_contents_empty)
  ultimately show ?thesis using n ok assms(1) f(2) by (auto simp: bb_ok_def bb_ready_def bb_rest_def)
qed

subsection \<open>A source of bytes\<close>

text \<open>What the comparer relies on: a reader of the file from its current position. The state of the instance is the reader
  with the buffer that receives the blocks.\<close>

fun read_ops ::
  "('s \<Rightarrow> (u32 + byte option) \<times> 's) \<Rightarrow> ('s \<Rightarrow> (u32 + bool) \<times> 's) \<Rightarrow> ('s \<Rightarrow> byte list) \<Rightarrow> bool list \<Rightarrow> 's
   \<Rightarrow> (u32 + byte list option list) \<times> 's" where
  "read_ops next_byte whole_block block [] s = (Inr [], s)"
| "read_ops next_byte whole_block block (whole # ops) s =
     (let (ret, s) = (if whole then (let (ret, s) = whole_block s in (map_sum id (\<lambda>b. if b then Some (block s) else None) ret, s))
                      else (let (ret, s) = next_byte s in (map_sum id (map_option (\<lambda>b. [b])) ret, s)))
      in case ret of Inl e \<Rightarrow> (Inl e, s)
      | Inr r \<Rightarrow> (let (ret, s) = read_ops next_byte whole_block block ops s in (map_sum id ((#) r) ret, s)))"

text \<open>What a reader of blocks of \<open>n\<close> bytes has to give: a whole block for as long as there is one, then the short one, and at the
  end nothing; and the bytes that are left.\<close>

definition next_piece :: "nat \<Rightarrow> byte list \<Rightarrow> byte list option" where
  "next_piece n bytes = (if bytes = [] then None else Some (take n bytes))"

fun pieces_read :: "nat \<Rightarrow> bool list \<Rightarrow> byte list \<Rightarrow> byte list option list \<times> byte list" where
  "pieces_read n [] bytes = ([], bytes)"
| "pieces_read n (whole # ops) bytes =
     (let k = (if whole then n else 1);
          (rs, rest) = pieces_read n ops (drop k bytes)
      in (next_piece k bytes # rs, rest))"

locale byte_source =
  fixes next_byte :: "'s \<Rightarrow> (u32 + byte option) \<times> 's"
    and whole_block :: "'s \<Rightarrow> (u32 + bool) \<times> 's"
    and block :: "'s \<Rightarrow> byte list"
    and rest :: "'s \<Rightarrow> byte list"
    and bound :: "'s \<Rightarrow> nat"
    and ok :: "'s \<Rightarrow> bool"
  assumes next_byte_law: "ok s \<Longrightarrow> next_byte s = (ret, s') \<Longrightarrow> ok s' \<and> bound s' = bound s
      \<and> (case rest s of [] \<Rightarrow> ret = Inr None \<and> rest s' = [] | b # bs \<Rightarrow> ret = Inr (Some b) \<and> rest s' = bs)"
    and whole_block_law: "ok s \<Longrightarrow> whole_block s = (again, s') \<Longrightarrow> ok s' \<and> bound s' = bound s \<and> again = Inr (rest s \<noteq> [])
      \<and> rest s' = drop (bound s) (rest s) \<and> (rest s \<noteq> [] \<longrightarrow> block s' = take (bound s) (rest s))"
begin

lemma read_ops_pieces:
  "ok s \<Longrightarrow> read_ops next_byte whole_block block ops s = (ret, s')
   \<Longrightarrow> ok s' \<and> ret = Inr (fst (pieces_read (bound s) ops (rest s))) \<and> rest s' = snd (pieces_read (bound s) ops (rest s))"
proof (induction ops arbitrary: s ret s')
  case (Cons whole ops)
  show ?case
  proof (cases whole)
    case True
    obtain r1 s1 where 1: "whole_block s = (r1, s1)" by (cases "whole_block s")
    note w = whole_block_law [OF Cons.prems(1) 1]
    obtain r2 s2 where 2: "read_ops next_byte whole_block block ops s1 = (r2, s2)"
      by (cases "read_ops next_byte whole_block block ops s1")
    have "ret = map_sum id ((#) (next_piece (bound s) (rest s))) r2" "s' = s2"
      using Cons.prems(2) 1 2 True w by (auto simp: next_piece_def)
    then show ?thesis using Cons.IH [OF _ 2] w True by (simp add: Let_def split_beta)
  next
    case False
    obtain r1 s1 where 1: "next_byte s = (r1, s1)" by (cases "next_byte s")
    note w = next_byte_law [OF Cons.prems(1) 1]
    obtain r2 s2 where 2: "read_ops next_byte whole_block block ops s1 = (r2, s2)"
      by (cases "read_ops next_byte whole_block block ops s1")
    have "ret = map_sum id ((#) (next_piece 1 (rest s))) r2" "s' = s2" "rest s1 = drop 1 (rest s)"
      using Cons.prems(2) 1 2 False w by (cases "rest s"; auto simp: next_piece_def)+
    then show ?thesis using Cons.IH [OF _ 2] w False by (simp add: Let_def split_beta)
  qed
qed simp

end

text \<open>The instance: the reader with the buffer for the blocks.\<close>

definition src_next_byte :: "os_read \<Rightarrow> (nat \<Rightarrow> byte) \<Rightarrow> byte_reader \<times> circular_buffer \<Rightarrow> (u32 + byte option) \<times> byte_reader \<times> circular_buffer" where
  "src_next_byte os_read fresh s = (let (ret, r) = bb_next_byte os_read fresh (fst s) in (ret, r, snd s))"

definition src_whole_block :: "os_read \<Rightarrow> (nat \<Rightarrow> byte) \<Rightarrow> byte_reader \<times> circular_buffer \<Rightarrow> (u32 + bool) \<times> byte_reader \<times> circular_buffer" where
  "src_whole_block os_read fresh s = (let (ret, dst, r) = bb_whole_block os_read fresh (snd s) (fst s) in (ret, r, dst))"

definition src_ok :: "os_read \<Rightarrow> byte list \<Rightarrow> byte_reader \<times> circular_buffer \<Rightarrow> bool" where
  "src_ok os_read content s \<longleftrightarrow> bb_ok os_read content (fst s) \<and> bb_ready content (fst s)
     \<and> length (cb_buffer (snd s)) = cb_capacity (snd s)"

interpretation reader: byte_source "src_next_byte os_read fresh" "src_whole_block os_read fresh" "\<lambda>s. cb_contents (snd s)"
    "\<lambda>s. bb_rest content (fst s)" "\<lambda>s. br_block_size (fst s)" "src_ok os_read content" for os_read fresh content
proof unfold_locales
  fix s s' ret
  assume "src_ok os_read content s" and "src_next_byte os_read fresh s = (ret, s')"
  then show "src_ok os_read content s' \<and> br_block_size (fst s') = br_block_size (fst s)
      \<and> (case bb_rest content (fst s) of [] \<Rightarrow> ret = Inr None \<and> bb_rest content (fst s') = []
         | b # bs \<Rightarrow> ret = Inr (Some b) \<and> bb_rest content (fst s') = bs)"
    using bb_next_byte_ok [of os_read content "fst s" fresh ret "fst s'"]
    by (cases "bb_rest content (fst s)") (auto simp: src_ok_def src_next_byte_def split: prod.splits)
next
  fix s s' again
  assume "src_ok os_read content s" and "src_whole_block os_read fresh s = (again, s')"
  then show "src_ok os_read content s' \<and> br_block_size (fst s') = br_block_size (fst s) \<and> again = Inr (bb_rest content (fst s) \<noteq> [])
      \<and> bb_rest content (fst s') = drop (br_block_size (fst s)) (bb_rest content (fst s))
      \<and> (bb_rest content (fst s) \<noteq> [] \<longrightarrow> cb_contents (snd s') = take (br_block_size (fst s)) (bb_rest content (fst s)))"
    using bb_whole_block_ok [of os_read content "fst s" "snd s" fresh again "snd s'" "fst s'"]
    by (auto simp: src_ok_def src_whole_block_def filling_def cb_flat_def split: prod.splits if_splits)
qed

text \<open>C32. Whatever pieces the operating system returns the file in, the reader delivers it: after opening, any sequence of reads
  of single bytes and of whole blocks succeeds and gives exactly the consecutive pieces of the file. Every block that is
  delivered before the last bytes of the file has the full block size (8192 bytes when none was asked for), the last one holds what is
  left, and only at the end of the file does a read report that there is nothing more.\<close>

theorem reader_delivers_file:
  assumes "file_reads os_read content" and "length content < 2 ^ 64" and "length (cb_buffer dst) = cb_capacity dst"
    and "n = (if bs = 0 then 8192 else bs)"
  shows "\<exists>r s'. bb_init None os_read fresh bs r0 = Inr r
    \<and> read_ops (src_next_byte os_read fresh) (src_whole_block os_read fresh) (\<lambda>s. cb_contents (snd s)) ops (r, dst)
      = (Inr (fst (pieces_read n ops content)), s')
    \<and> bb_rest content (fst s') = snd (pieces_read n ops content)"
proof -
  obtain r where r: "bb_init None os_read fresh bs r0 = Inr r" "bb_ok os_read content r" "bb_ready content r" "bb_rest content r = content"
    "br_block_size r = n"
    using bb_init_ok [OF assms(1,2), of fresh bs r0] assms(4) by auto
  obtain ret s' where run: "read_ops (src_next_byte os_read fresh) (src_whole_block os_read fresh) (\<lambda>s. cb_contents (snd s)) ops (r, dst) = (ret, s')"
    by (metis surj_pair)
  have "src_ok os_read content (r, dst)" using r(2,3) assms(3) by (simp add: src_ok_def)
  from reader.read_ops_pieces [OF this run] r(1,4,5) run show ?thesis by (intro exI [of _ r] exI [of _ s']) simp
qed

definition example_read :: os_read where
  "example_read off n = (if 3 \<le> off then Inl ERROR_HANDLE_EOF else Inr (take 1 (drop off [5, 6, 7])))"

lemma example_read_reads: "file_reads example_read [5, 6, 7]"
  by (auto simp: file_reads_def example_read_def intro!: exI [of _ 1])

theorem reader_delivers_file_witness:
  "\<forall>fresh (r0 :: byte_reader). \<exists>r s'. bb_init None example_read fresh 2 r0 = Inr r
    \<and> read_ops (src_next_byte example_read fresh) (src_whole_block example_read fresh) (\<lambda>s. cb_contents (snd s)) [True, False, True]
        (r, cb_new fresh 1) = (Inr [Some [5, 6], Some [7], None], s')
    \<and> bb_rest [5, 6, 7] (fst s') = []"
proof (intro allI)
  fix fresh and r0 :: byte_reader
  have l: "length [5, 6, 7 :: byte] < 2 ^ 64" "length (cb_buffer (cb_new fresh 1)) = cb_capacity (cb_new fresh 1)"
    "2 = (if (2 :: nat) = 0 then 8192 else 2)" by simp_all
  from reader_delivers_file [OF example_read_reads l, of fresh r0 "[True, False, True]"]
  show "\<exists>r s'. bb_init None example_read fresh 2 r0 = Inr r
    \<and> read_ops (src_next_byte example_read fresh) (src_whole_block example_read fresh) (\<lambda>s. cb_contents (snd s)) [True, False, True]
        (r, cb_new fresh 1) = (Inr [Some [5, 6], Some [7], None], s')
    \<and> bb_rest [5, 6, 7] (fst s') = []" by (simp add: next_piece_def)
qed

end
