(* ===== verification/Rsyncable_File.thy ===== *)
theory Rsyncable_File
  imports Rsync_Types Block_Reader
begin

unbundle bit_operations_syntax

text \<open>
  The table of blocks of a file: RsyncableFile.h and RsyncableFile.cpp of src/BackupEngineNativePart. SHA-1 is
  CryptoPP's, the parameter \<open>sha1\<close>: feeding data in parts and finishing gives \<open>sha1\<close> of the data put together.
  The loop over the blocks has fuel, and \<open>None\<close> means that it did not suffice; one more than the
  bytes of the file is enough. Writing the table to a file (\<open>save\<close>) is not modelled.
\<close>

subsection \<open>RsyncableFile.h\<close>

abbreviation (input) sizeof_rsync_table_item :: u64 where "sizeof_rsync_table_item \<equiv> 32"

text \<open>The loop ends for every argument: beyond \<open>2 ^ 43\<close> bytes to a block no table is too large.\<close>

lemma scaler_continues:
  fixes x ret :: u64
  assumes "(x + (ret - 1)) div ret * sizeof_rsync_table_item > push_bit 20 64"
  shows "unat ret < 2 ^ 43 \<and> unat (push_bit 1 ret) = 2 * unat ret \<and> 0 < unat ret"
proof -
  let ?q = "(x + (ret - 1)) div ret"
  have "(2 :: nat) ^ 26 < unat (?q * 32)" using assms by (simp add: word_less_nat_alt push_bit_eq_mult)
  moreover have "unat (?q * 32) \<le> unat ?q * 32" by (simp add: unat_word_ariths)
  ultimately have q: "2 ^ 21 < unat ?q" by simp
  have "unat ?q = unat (x + (ret - 1)) div unat ret" by (rule unat_div)
  moreover have "unat (x + (ret - 1)) < 2 ^ 64" using unsigned_less [of "x + (ret - 1)", where 'a = nat] by simp
  ultimately have "unat ?q * unat ret < 2 ^ 64" by (metis div_times_less_eq_dividend le_less_trans)
  with q have "unat ret < 2 ^ 43"
  proof -
    assume a: "unat ?q * unat ret < 2 ^ 64"
    show ?thesis
    proof (rule ccontr)
      assume "\<not> unat ret < 2 ^ 43"
      then have "2 ^ 21 * 2 ^ 43 \<le> unat ?q * unat ret" using q by (intro mult_le_mono) simp_all
      with a show False by simp
    qed
  qed
  moreover have "0 < unat ret"
  proof (rule ccontr)
    assume "\<not> 0 < unat ret"
    then have "unat ?q = 0" by (simp add: unat_div)
    with q show False by simp
  qed
  moreover have "unat (push_bit 1 ret) = 2 * unat ret"
    using \<open>unat ret < 2 ^ 43\<close> by (subst unat_push_bit_mult) simp_all
  ultimately show ?thesis by simp
qed

function scaler_loop :: "u64 \<Rightarrow> u64 \<Rightarrow> u64" where
  "scaler_loop x ret =
     (if (x + (ret - 1)) div ret * sizeof_rsync_table_item > push_bit 20 64 then scaler_loop x (push_bit 1 ret) else ret)"
  by pat_completeness auto
termination
proof (relation "measure (\<lambda>(x, ret). 2 ^ 44 - unat ret)")
  fix x ret :: u64
  assume "(x + (ret - 1)) div ret * sizeof_rsync_table_item > push_bit 20 64"
  from scaler_continues [OF this] show "((x, push_bit 1 ret), x, ret) \<in> measure (\<lambda>(x, ret). 2 ^ 44 - unat ret)"
    by (simp add: diff_less_mono2)
qed simp

declare scaler_loop.simps [simp del]

definition scaler_function :: "u64 \<Rightarrow> u64" where
  "scaler_function x = scaler_loop x 512"

definition blocks_per_file :: "u64 \<Rightarrow> u64 \<Rightarrow> u64" where
  "blocks_per_file file_size block_size = (file_size + (block_size - 1)) div block_size"

record rsyncable_file =
  rf_sha1 :: "byte list"
  rf_rsync_table :: "rsync_table_item list"
  rf_bitmap :: "u32 \<Rightarrow> bool"
  rf_block_size :: u64

subsection \<open>RsyncableFile.cpp\<close>

definition init_bitmap :: "rsync_table_item list \<Rightarrow> u32 \<Rightarrow> bool" where
  "init_bitmap table = fold (\<lambda>i bitmap. bitmap(rolling_checksum i AND 0xFFFFFF := True)) table (\<lambda>_. False)"

definition does_not_contain :: "rsyncable_file \<Rightarrow> u32 \<Rightarrow> bool" where
  "does_not_contain f x \<longleftrightarrow> \<not> rf_bitmap f (x AND 0xFFFFFF)"

definition cb_data :: "circular_buffer \<Rightarrow> byte list" where
  "cb_data cb = take (cb_size cb) (drop (cb_start cb) (cb_buffer cb))"

fun rsyncable_loop ::
  "os_read \<Rightarrow> (nat \<Rightarrow> byte) \<Rightarrow> (byte list \<Rightarrow> byte list) \<Rightarrow> nat \<Rightarrow> circular_buffer \<Rightarrow> u64 \<Rightarrow> byte list \<Rightarrow> rsync_table_item list
   \<Rightarrow> block_reader \<Rightarrow> (u32 + byte list \<times> rsync_table_item list) option" where
  "rsyncable_loop os_read fresh sha1 0 buffer offset global table stream = None"
| "rsyncable_loop os_read fresh sha1 (Suc fuel) buffer offset global table stream =
     (let (ret, buffer, stream) = next_block os_read fresh buffer stream
      in case ret of
           Inl e \<Rightarrow> Some (Inl e)
         | Inr False \<Rightarrow> Some (Inr (global, table))
         | Inr True \<Rightarrow>
             let global = global @ cb_data buffer;
                 item = Rsync_table_item (cb_rolling_checksum buffer) (sha1 (cb_data buffer)) offset;
                 table = table @ [item]
             in rsyncable_loop os_read fresh sha1 fuel buffer (offset + word_of_nat (cb_size buffer)) global table stream)"

text \<open>\<open>file_size\<close> is the result of \<open>get_file_size\<close>; the members of \<open>stream0\<close> are those before construction.\<close>

definition rsyncable_file_new ::
  "os_read \<Rightarrow> (nat \<Rightarrow> byte) \<Rightarrow> (byte list \<Rightarrow> byte list) \<Rightarrow> u32 option \<Rightarrow> u64 \<Rightarrow> block_reader \<Rightarrow> nat \<Rightarrow> (u32 + rsyncable_file) option" where
  "rsyncable_file_new os_read fresh sha1 open_error file_size stream0 fuel =
     (let block_size = scaler_function file_size
      in case br_init open_error fresh (unat block_size) stream0 of
           Inl e \<Rightarrow> Some (Inl e)
         | Inr stream \<Rightarrow>
             (case rsyncable_loop os_read fresh sha1 fuel (cb_new fresh 1) 0 [] [] stream of
                None \<Rightarrow> None
              | Some (Inl e) \<Rightarrow> Some (Inl e)
              | Some (Inr (global, table)) \<Rightarrow>
                  (let table = sort table
                   in Some (Inr \<lparr>rf_sha1 = sha1 global, rf_rsync_table = table, rf_bitmap = init_bitmap table,
                                 rf_block_size = block_size\<rparr>))))"

definition rsyncable_file_of :: "rsync_table_item list \<Rightarrow> byte list \<Rightarrow> u64 \<Rightarrow> rsyncable_file" where
  "rsyncable_file_of new_table new_digest new_block_size =
     \<lparr>rf_sha1 = new_digest, rf_rsync_table = new_table, rf_bitmap = init_bitmap new_table, rf_block_size = new_block_size\<rparr>"

subsection \<open>The block size\<close>

text \<open>The size of the table, as the code intends it.\<close>

definition table_bytes :: "nat \<Rightarrow> nat \<Rightarrow> nat" where
  "table_bytes file_size block_size = (file_size + (block_size - 1)) div block_size * 32"

lemma table_bytes_unat:
  assumes "unat (x :: u64) < 2 ^ 63" and "unat ret = n" and "0 < n" and "n \<le> 2 ^ 44" and "512 \<le> n"
  shows "unat ((x + (ret - 1)) div ret * sizeof_rsync_table_item) = table_bytes (unat x) n"
proof -
  have r: "unat (ret - 1) = n - 1"
    using assms(2,3) by (subst unat_minus_one) auto
  then have s: "unat (x + (ret - 1)) = unat x + (n - 1)" using assms(1,4) by (subst unat_add_small) simp_all
  have "(unat x + (n - 1)) div n < 2 ^ 58"
  proof -
    have "unat x + (n - 1) < 2 ^ 64" using assms(1,4) by simp
    also have "(2 :: nat) ^ 64 \<le> 2 ^ 58 * n" using assms(5) by simp
    finally show ?thesis by (rule less_mult_imp_div_less)
  qed
  then show ?thesis using s assms(2) by (simp add: table_bytes_def unat_word_ariths unat_div)
qed

lemma table_bytes_mono:
  assumes "0 < a" and "a \<le> b"
  shows "table_bytes n b \<le> table_bytes n a"
proof -
  let ?q = "(n + (a - 1)) div a"
  have "n + (a - 1) < a + a * ?q" using assms(1) by (rule dividend_less_times_div)
  then have "n \<le> a * ?q" using assms(1) by linarith
  also have "\<dots> \<le> b * ?q" using assms(2) by (rule mult_le_mono1)
  finally have "n + (b - 1) < (?q + 1) * b" using assms by (simp add: algebra_simps)
  then have "(n + (b - 1)) div b < ?q + 1" by (rule less_mult_imp_div_less)
  then show ?thesis by (simp add: table_bytes_def)
qed

lemma scaler_loop_result:
  "unat x < 2 ^ 63 \<Longrightarrow> unat ret = 512 * 2 ^ k \<Longrightarrow> (k \<noteq> 0 \<longrightarrow> 2 ^ 26 < table_bytes (unat x) (256 * 2 ^ k)) \<Longrightarrow>
   \<exists>j. unat (scaler_loop x ret) = 512 * 2 ^ j \<and> table_bytes (unat x) (512 * 2 ^ j) \<le> 2 ^ 26
    \<and> (j \<noteq> 0 \<longrightarrow> 2 ^ 26 < table_bytes (unat x) (256 * 2 ^ j))"
proof (induction x ret arbitrary: k rule: scaler_loop.induct)
  case (1 x ret)
  let ?c = "(x + (ret - 1)) div ret * sizeof_rsync_table_item > push_bit 20 64"
  let ?n = "512 * 2 ^ k :: nat"
  have le: "?n \<le> 2 ^ 44"
  proof (cases "k = 0")
    case False
    let ?m = "256 * 2 ^ k :: nat"
    have "2 ^ 26 < table_bytes (unat x) ?m" using 1(4) False by simp
    then have "2 ^ 21 < (unat x + (?m - 1)) div ?m" by (simp add: table_bytes_def)
    then have "2 ^ 21 * ?m \<le> unat x + (?m - 1)"
      using less_eq_div_iff_mult_less_eq [of ?m "2 ^ 21" "unat x + (?m - 1)"] by (simp del: power_numeral)
    then show ?thesis using 1(2) by simp
  qed simp
  have sz: "unat ((x + (ret - 1)) div ret * sizeof_rsync_table_item) = table_bytes (unat x) ?n"
    by (rule table_bytes_unat [OF 1(2,3) _ le]) simp_all
  have c: "?c \<longleftrightarrow> 2 ^ 26 < table_bytes (unat x) ?n"
    unfolding word_less_nat_alt sz by (simp add: push_bit_eq_mult)
  show ?case
  proof (cases ?c)
    case True
    then have "unat (push_bit 1 ret) = 512 * 2 ^ Suc k" using scaler_continues [OF True] 1(3) by simp
    moreover have "Suc k \<noteq> 0 \<longrightarrow> 2 ^ 26 < table_bytes (unat x) (256 * 2 ^ Suc k)" using True c by simp
    moreover have "scaler_loop x ret = scaler_loop x (push_bit 1 ret)" using True by (subst scaler_loop.simps) (simp only: if_True)
    ultimately show ?thesis using "1.IH" [OF True 1(2), of "Suc k"] by metis
  next
    case False
    then show ?thesis using 1(3,4) c by (subst scaler_loop.simps) auto
  qed
qed

text \<open>C37. The block size is the least one of the form \<open>512 * 2 ^ j\<close> for which the table of a file of this size fits in
  64 MiB; the search for it ends for every size.\<close>

theorem scaler_function_least:
  assumes "unat file_size < 2 ^ 63"
  shows "\<exists>j. unat (scaler_function file_size) = 512 * 2 ^ j
    \<and> table_bytes (unat file_size) (512 * 2 ^ j) \<le> 64 * 2 ^ 20
    \<and> (\<forall>i < j. 64 * 2 ^ 20 < table_bytes (unat file_size) (512 * 2 ^ i))"
proof -
  obtain j where j: "unat (scaler_function file_size) = 512 * 2 ^ j" "table_bytes (unat file_size) (512 * 2 ^ j) \<le> 2 ^ 26"
    "j \<noteq> 0 \<longrightarrow> 2 ^ 26 < table_bytes (unat file_size) (256 * 2 ^ j)"
    using scaler_loop_result [OF assms, of 512 0] by (auto simp: scaler_function_def)
  have "2 ^ 26 < table_bytes (unat file_size) (512 * 2 ^ i)" if ij: "i < j" for i
  proof -
    obtain m where m: "j = Suc m" using ij by (cases j) auto
    then have "i \<le> m" using ij by simp
    let ?s = "unat file_size"
    have "(512 :: nat) * 2 ^ i \<le> 512 * 2 ^ m" using \<open>i \<le> m\<close> by (simp add: power_increasing)
    then have "table_bytes ?s (512 * 2 ^ m) \<le> table_bytes ?s (512 * 2 ^ i)"
      by (intro table_bytes_mono) simp_all
    then show ?thesis using j(3) m by simp
  qed
  then show ?thesis using j(1,2) by (intro exI [of _ j]) simp
qed

theorem scaler_function_least_witness:
  "scaler_function 0x40000001 = 1024 \<and> 64 * 2 ^ 20 < table_bytes 0x40000001 512"
proof -
  have s: "scaler_function 0x40000001 = 1024" by code_simp
  have "unat (0x40000001 :: u64) < 2 ^ 63" by simp
  from scaler_function_least [OF this] obtain j where j: "unat (scaler_function 0x40000001) = 512 * 2 ^ j"
    "\<forall>i < j. 64 * 2 ^ 20 < table_bytes (unat (0x40000001 :: u64)) (512 * 2 ^ i)" by blast
  have "(2 :: nat) ^ j = 2 ^ 1" using j(1) s by simp
  then have "j = 1" by (metis power_inject_exp one_less_numeral_iff semiring_norm(76))
  with j(2) s show ?thesis by auto
qed

subsection \<open>The table\<close>

text \<open>The items of a file that is cut into blocks.\<close>

function file_items :: "(byte list \<Rightarrow> byte list) \<Rightarrow> nat \<Rightarrow> nat \<Rightarrow> byte list \<Rightarrow> rsync_table_item list" where
  "file_items sha1 bs off content =
     (if content = [] \<or> bs = 0 then []
      else Rsync_table_item (rolling_of (take bs content)) (sha1 (take bs content)) (word_of_nat off)
        # file_items sha1 bs (off + length (take bs content)) (drop bs content))"
  by pat_completeness auto
termination
  by (relation "measure (\<lambda>(sha1, bs, off, content). length content)") auto

declare file_items.simps [simp del]

lemma file_items_block:
  assumes "item \<in> set (file_items sha1 bs off content)"
  shows "\<exists>k. k < length content \<and> item = Rsync_table_item (rolling_of (take bs (drop k content))) (sha1 (take bs (drop k content)))
    (word_of_nat (off + k))"
  using assms
proof (induction sha1 bs off content rule: file_items.induct)
  case (1 sha1 bs off content)
  have c: "content \<noteq> []" "bs \<noteq> 0" using "1.prems" by (auto simp: file_items.simps [of sha1 bs off content] split: if_splits)
  then have "item = Rsync_table_item (rolling_of (take bs content)) (sha1 (take bs content)) (word_of_nat off)
      \<or> item \<in> set (file_items sha1 bs (off + length (take bs content)) (drop bs content))"
    using "1.prems" by (simp add: file_items.simps [of sha1 bs off content])
  then show ?case
  proof
    assume "item = Rsync_table_item (rolling_of (take bs content)) (sha1 (take bs content)) (word_of_nat off)"
    then show ?thesis using c by (intro exI [of _ 0]) simp
  next
    assume "item \<in> set (file_items sha1 bs (off + length (take bs content)) (drop bs content))"
    then obtain k where k: "k < length (drop bs content)" "item = Rsync_table_item (rolling_of (take bs (drop k (drop bs content))))
        (sha1 (take bs (drop k (drop bs content)))) (word_of_nat (off + length (take bs content) + k))"
      using "1.IH" c by blast
    then have "length (take bs content) = bs" by simp
    with k show ?thesis by (intro exI [of _ "bs + k"]) (simp add: add.assoc add.commute)
  qed
qed

lemma cb_data_contents: "cb_flat cb \<Longrightarrow> cb_data cb = cb_contents cb"
  by (simp add: cb_data_def cb_flat_contents)

lemma rsyncable_loop_ok:
  "file_reads os_read content \<Longrightarrow> br_ok content stream \<Longrightarrow> length (cb_buffer buffer) = cb_capacity buffer \<Longrightarrow>
   length (br_rest content stream) < fuel \<Longrightarrow>
   rsyncable_loop os_read fresh sha1 fuel buffer (word_of_nat off) global table stream =
     Some (Inr (global @ br_rest content stream, table @ file_items sha1 (br_block_size stream) off (br_rest content stream)))"
proof (induction fuel arbitrary: buffer off global table stream)
  case (Suc fuel)
  let ?R = "br_rest content stream" and ?bs = "br_block_size stream"
  obtain ret b s where nb: "next_block os_read fresh buffer stream = (ret, b, s)" by (cases "next_block os_read fresh buffer stream")
  note n = next_block_ok [OF Suc.prems(1-3) nb]
  have bs: "0 < ?bs" using Suc.prems(2) by (simp add: br_ok_def)
  show ?case
  proof (cases "?R = []")
    case True
    then show ?thesis using nb n by (simp add: file_items.simps [of sha1 ?bs off "[]"])
  next
    case False
    then have "\<not> sr_eof stream" using Suc.prems(2) by (auto simp: br_ok_def)
    then have f: "filling ?bs b" "cb_contents b = take ?bs ?R" using n by simp_all
    have flat: "cb_flat b" "cb_start b = 0" "cb_capacity b = ?bs" "length (cb_buffer b) = cb_capacity b"
      using f(1) by (simp_all add: filling_def cb_flat_def)
    have data: "cb_data b = take ?bs ?R" using cb_data_contents [OF flat(1)] f(2) by simp
    have roll: "cb_rolling_checksum b = rolling_of (take ?bs ?R)"
      using cb_rolling_checksum_contents [OF cb_flat_ok [OF flat(1)]] f(2) flat(2,3) bs by simp
    have size: "cb_size b = length (take ?bs ?R)" using arg_cong [OF f(2), of length] by simp
    have "0 < length ?R" using False by simp
    then have "length ?R - ?bs < fuel" using Suc.prems(4) bs by linarith
    then have "length (br_rest content s) < fuel" using n by simp
    note ih = Suc.IH [OF Suc.prems(1) _ flat(4) this, of "off + length (take ?bs ?R)"]
    show ?thesis
      using ih n nb False bs by (simp add: data roll size file_items.simps [of sha1 ?bs off ?R] Let_def)
  qed
qed simp

text \<open>The constructor: the block size is never zero, so the loop meets every block.\<close>

lemma file_table:
  assumes "file_reads os_read content" and "length content < 2 ^ 63" and "file_size = word_of_nat (length content)"
    and "length content < fuel"
  shows "\<exists>f. rsyncable_file_new os_read fresh sha1 None file_size stream0 fuel = Some (Inr f)
    \<and> rf_rsync_table f = sort (file_items sha1 (unat (scaler_function file_size)) 0 content) \<and> rf_sha1 f = sha1 content
    \<and> rf_block_size f = scaler_function file_size \<and> rf_bitmap f = init_bitmap (rf_rsync_table f)"
proof -
  have "unat file_size < 2 ^ 63" using assms(2,3) by (simp add: unat_of_nat)
  then have "unat (scaler_function file_size) \<noteq> 0" using scaler_loop_result [of file_size 512 0] by (auto simp: scaler_function_def)
  then obtain s where s: "br_init None fresh (unat (scaler_function file_size)) stream0 = Inr s" "br_ok content s" "br_rest content s = content"
    "br_block_size s = unat (scaler_function file_size)"
    using br_init_ok [of content fresh "unat (scaler_function file_size)" stream0] assms(2) by auto
  have "rsyncable_loop os_read fresh sha1 fuel (cb_new fresh 1) 0 [] [] s =
      Some (Inr (content, file_items sha1 (unat (scaler_function file_size)) 0 content))"
    using rsyncable_loop_ok [OF assms(1) s(2), of "cb_new fresh 1" fuel fresh sha1 0 "[]" "[]"] s(3,4) assms(4) by simp
  then show ?thesis using s(1) by (simp add: rsyncable_file_new_def Let_def)
qed

text \<open>C33. A file that is read to its end gives the table of its blocks, sorted, with the hash of the whole file.
  Enough fuel is one more than the bytes of the file.\<close>

theorem rsyncable_file_table:
  assumes "file_reads os_read content" and "length content < 2 ^ 63" and "file_size = word_of_nat (length content)"
    and "length content < fuel"
  shows "\<exists>f. rsyncable_file_new os_read fresh sha1 None file_size stream0 fuel = Some (Inr f)
    \<and> rf_rsync_table f = sort (file_items sha1 (unat (scaler_function file_size)) 0 content) \<and> rf_sha1 f = sha1 content
    \<and> rf_block_size f = scaler_function file_size \<and> rf_bitmap f = init_bitmap (rf_rsync_table f)"
  by (rule file_table [OF assms])

theorem rsyncable_file_table_witness:
  "\<forall>fresh stream0. \<exists>f. rsyncable_file_new example_read fresh rev None 3 stream0 4 = Some (Inr f) \<and> rf_sha1 f = [7, 6, 5]"
proof (intro allI)
  fix fresh stream0
  have "length [5, 6, 7 :: byte] < 2 ^ 63" "(3 :: u64) = word_of_nat (length [5, 6, 7 :: byte])" "length [5, 6, 7 :: byte] < 4" by simp_all
  from rsyncable_file_table [OF example_read_reads this, of fresh rev stream0]
  show "\<exists>f. rsyncable_file_new example_read fresh rev None 3 stream0 4 = Some (Inr f) \<and> rf_sha1 f = [7, 6, 5]" by auto
qed

subsection \<open>The bitmap\<close>

lemma init_bitmap_iff: "init_bitmap table x \<longleftrightarrow> (\<exists>i \<in> set table. rolling_checksum i AND 0xFFFFFF = x)"
proof -
  have "fold (\<lambda>i bitmap. bitmap(rolling_checksum i AND 0xFFFFFF := True)) table m x
      \<longleftrightarrow> m x \<or> (\<exists>i \<in> set table. rolling_checksum i AND 0xFFFFFF = x)" for m
    by (induction table arbitrary: m) auto
  then show ?thesis by (simp add: init_bitmap_def)
qed

text \<open>The bitmap has no false negatives: a checksum of the table is never reported as missing.\<close>

theorem does_not_contain_sound:
  assumes "rf_bitmap f = init_bitmap (rf_rsync_table f)" and "does_not_contain f checksum"
  shows "\<forall>i \<in> set (rf_rsync_table f). rolling_checksum i \<noteq> checksum"
  using assms by (auto simp: does_not_contain_def init_bitmap_iff)

theorem does_not_contain_sound_witness:
  "\<forall>i \<in> set [Rsync_table_item 0x01000005 [] 0]. rolling_checksum i \<noteq> 0x01000006"
proof -
  let ?f = "rsyncable_file_of [Rsync_table_item 0x01000005 [] 0] [] 512"
  have "rf_bitmap ?f = init_bitmap (rf_rsync_table ?f)" by (simp add: rsyncable_file_of_def)
  moreover have "does_not_contain ?f 0x01000006" by code_simp
  ultimately show ?thesis using does_not_contain_sound [of ?f "0x01000006"] by (simp add: rsyncable_file_of_def)
qed

end
