(* ===== verification/File_Comparer.thy ===== *)
theory File_Comparer
  imports Rsyncable_File
begin

text \<open>
  The comparison of a new file with the table of an old one: FileComparer.h and FileComparer.cpp of
  src/BackupEngineNativePart. The abstract class and its only subclass are one record. The states of the machine are the
  code's; \<open>state_Matching\<close> and \<open>state_NonMatching\<close> are whole loops, which have fuel, and so has \<open>process\<close>.
  A member function returns its result and the object; \<open>Inl e\<close> is the exception \<open>Win32Error(e)\<close>. \<open>dbg\<close> says whether the
  code was built with \<open>_DEBUG\<close>; its \<open>__debugbreak\<close> ends the process.

  \<open>fc_queue\<close> is everything that was ever pushed onto the queue; \<open>thread_func\<close> is the run of the second thread over the buffers it
  takes from there. \<open>fc_process\<close> goes as far as the wait for that thread. Whether the wait ends, and what the second thread
  has taken by then, is the subject of Comparer\_Thread.
\<close>

subsection \<open>simple\_buffer\<close>

record simple_buffer =
  sb_data :: "byte list"
  sb_capacity :: nat
  sb_size :: nat

definition sb_realloc :: "(nat \<Rightarrow> byte) \<Rightarrow> nat \<Rightarrow> simple_buffer \<Rightarrow> simple_buffer" where
  "sb_realloc fresh capacity sb =
     (let sb = (if capacity \<noteq> sb_capacity sb then sb\<lparr>sb_data := map fresh [0..<capacity], sb_capacity := capacity\<rparr> else sb)
      in sb\<lparr>sb_size := 0\<rparr>)"

definition sb_new :: "(nat \<Rightarrow> byte) \<Rightarrow> nat \<Rightarrow> simple_buffer" where
  "sb_new fresh capacity = sb_realloc fresh capacity \<lparr>sb_data = [], sb_capacity = 0, sb_size = 0\<rparr>"

definition sb_full :: "simple_buffer \<Rightarrow> bool" where
  "sb_full sb \<longleftrightarrow> sb_size sb = sb_capacity sb"

text \<open>Assignment of a circular buffer.\<close>

definition sb_assign :: "(nat \<Rightarrow> byte) \<Rightarrow> circular_buffer \<Rightarrow> simple_buffer \<Rightarrow> simple_buffer" where
  "sb_assign fresh cb sb =
     (let sb = sb_realloc fresh (cb_size cb) sb;
          sb = sb\<lparr>sb_size := 0\<rparr>
      in cb_process_whole (\<lambda>buf sb. sb\<lparr>sb_data := put_bytes (sb_data sb) (sb_size sb) buf,
                                         sb_size := sb_size sb + length buf\<rparr>) cb sb)"

subsection \<open>The object\<close>

datatype comparer_state = Initial | Matching | NonMatching | Final

record file_comparer =
  fc_state :: comparer_state
  fc_result :: "rsync_command list"
  fc_new_offset :: u64
  fc_old_offset :: u64
  fc_reader :: byte_reader
  fc_old_file :: rsyncable_file
  fc_buffer :: circular_buffer
  fc_checksum :: u32
  fc_new_block_size :: u64
  fc_new_buffer :: simple_buffer
  fc_queue :: "simple_buffer list"

text \<open>\<open>reader_size\<close> is the size of the file that the reader reports; the members of \<open>reader0\<close> are those before construction.\<close>

definition file_comparer_new ::
  "os_read \<Rightarrow> (nat \<Rightarrow> byte) \<Rightarrow> u32 option \<Rightarrow> u64 \<Rightarrow> byte_reader \<Rightarrow> rsyncable_file \<Rightarrow> file_comparer \<Rightarrow> u32 + file_comparer" where
  "file_comparer_new os_read fresh open_error reader_size reader0 old_file fc0 =
     (case bb_init open_error os_read fresh (unat (rf_block_size old_file)) reader0 of
        Inl e \<Rightarrow> Inl e
      | Inr reader \<Rightarrow>
          (let new_block_size = scaler_function reader_size
           in Inr (fc0\<lparr>fc_result := [], fc_old_file := old_file, fc_buffer := cb_new fresh 1, fc_reader := reader,
                       fc_new_block_size := new_block_size, fc_queue := [],
                       fc_new_buffer := sb_realloc fresh (unat new_block_size) (sb_new fresh 0)\<rparr>)))"

subsection \<open>FileComparer\<close>

definition process_new_buffer :: "(nat \<Rightarrow> byte) \<Rightarrow> bool \<Rightarrow> file_comparer \<Rightarrow> file_comparer" where
  "process_new_buffer fresh force c =
     (if \<not> force \<and> \<not> sb_full (fc_new_buffer c) then c
      else
        let capacity = sb_capacity (fc_new_buffer c)
        in c\<lparr>fc_queue := fc_queue c @ [fc_new_buffer c], fc_new_buffer := sb_new fresh capacity\<rparr>)"

definition add_byte :: "(nat \<Rightarrow> byte) \<Rightarrow> byte \<Rightarrow> file_comparer \<Rightarrow> file_comparer" where
  "add_byte fresh b c =
     (let sb = fc_new_buffer c
      in process_new_buffer fresh False
           (c\<lparr>fc_new_buffer := sb\<lparr>sb_data := (sb_data sb)[sb_size sb := b], sb_size := sb_size sb + 1\<rparr>\<rparr>))"

text \<open>Every iteration takes at least one byte, so the number of bytes is enough fuel.\<close>

fun add_block_loop :: "(nat \<Rightarrow> byte) \<Rightarrow> nat \<Rightarrow> byte list \<Rightarrow> file_comparer \<Rightarrow> file_comparer" where
  "add_block_loop fresh 0 buf c = c"
| "add_block_loop fresh (Suc fuel) buf c =
     (if length buf \<noteq> 0 then
        let sb = fc_new_buffer c;
            beg = sb_size sb;
            consumed = min (sb_capacity sb - beg) (length buf);
            sb = sb\<lparr>sb_size := sb_size sb + consumed, sb_data := put_bytes (sb_data sb) beg (take consumed buf)\<rparr>;
            c = process_new_buffer fresh False (c\<lparr>fc_new_buffer := sb\<rparr>)
        in add_block_loop fresh fuel (drop consumed buf) c
      else c)"

definition add_block_bytes :: "(nat \<Rightarrow> byte) \<Rightarrow> byte list \<Rightarrow> file_comparer \<Rightarrow> file_comparer" where
  "add_block_bytes fresh buf c = add_block_loop fresh (length buf) buf c"

definition add_block :: "(nat \<Rightarrow> byte) \<Rightarrow> circular_buffer \<Rightarrow> file_comparer \<Rightarrow> file_comparer" where
  "add_block fresh buffer c = cb_process_whole (add_block_bytes fresh) buffer c"

definition read_another_byte :: "os_read \<Rightarrow> (nat \<Rightarrow> byte) \<Rightarrow> file_comparer \<Rightarrow> (u32 + byte option) \<times> file_comparer" where
  "read_another_byte os_read fresh c =
     (let (ret, reader) = bb_next_byte os_read fresh (fc_reader c);
          c = c\<lparr>fc_reader := reader\<rparr>
      in (ret, case ret of Inr (Some dst) \<Rightarrow> add_byte fresh dst c | _ \<Rightarrow> c))"

definition read_another_block :: "os_read \<Rightarrow> (nat \<Rightarrow> byte) \<Rightarrow> file_comparer \<Rightarrow> (u32 + bool) \<times> file_comparer" where
  "read_another_block os_read fresh c =
     (let (ret, buffer, reader) = bb_whole_block os_read fresh (fc_buffer c) (fc_reader c);
          c = c\<lparr>fc_reader := reader, fc_buffer := buffer\<rparr>
      in (ret, if ret = Inr True then add_block fresh buffer c else c))"

definition read_more_data :: "os_read \<Rightarrow> (nat \<Rightarrow> byte) \<Rightarrow> file_comparer \<Rightarrow> (u32 + bool) \<times> file_comparer" where
  "read_more_data os_read fresh c =
     (let (ret, c) = read_another_block os_read fresh c
      in (ret, if ret = Inr True then c\<lparr>fc_checksum := cb_rolling_checksum (fc_buffer c)\<rparr> else c))"

definition non_matching_read_more_data :: "os_read \<Rightarrow> (nat \<Rightarrow> byte) \<Rightarrow> file_comparer \<Rightarrow> (u32 + bool) \<times> file_comparer" where
  "non_matching_read_more_data os_read fresh c =
     (let sz = cb_size (fc_buffer c);
          (b, buffer) = cb_pop (fc_buffer c);
          c = c\<lparr>fc_buffer := buffer, fc_checksum := subtract_rsync_rolling_checksum (fc_checksum c) b (word_of_nat sz)\<rparr>;
          (ret, c) = read_another_byte os_read fresh c
      in case ret of
           Inl e \<Rightarrow> (Inl e, c)
         | Inr (Some b) \<Rightarrow>
             let c = c\<lparr>fc_buffer := snd (cb_push b (fc_buffer c))\<rparr>;
                 n = cb_size (fc_buffer c)
             in (Inr True, c\<lparr>fc_checksum := add_rsync_rolling_checksum (fc_checksum c) b (word_of_nat n)\<rparr>)
         | Inr None \<Rightarrow> if cb_size (fc_buffer c) = 0 then (Inr False, c) else (Inr True, c))"

definition unsignedcmp :: "'a::len word \<Rightarrow> 'a word \<Rightarrow> int" where
  "unsignedcmp a b = (if a < b then - 1 else if a > b then 1 else 0)"

definition search :: "(byte list \<Rightarrow> byte list) \<Rightarrow> bool \<Rightarrow> u64 \<Rightarrow> file_comparer \<Rightarrow> bool \<times> file_comparer" where
  "search sha1 offset_valid target_offset c =
     (if does_not_contain (fc_old_file c) (fc_checksum c) then (False, c)
      else
        let table = rf_rsync_table (fc_old_file c);
            (begin0, end0) = triple_search (\<lambda>a. unsignedcmp (rolling_checksum a) (fc_checksum c)) table 0 (length table)
        in if begin0 = end0 then (False, c)
           else
             let hash = sha1 (cb_process_whole (\<lambda>buf data. data @ buf) (fc_buffer c) []);
                 (begin1, end1) = triple_search (\<lambda>a. memcmp (complex_hash a) hash) table (the begin0) (the end0)
             in if begin1 = end1 then (False, c)
                else
                  let begin1 = (if offset_valid then
                        (let (begin2, end2) = triple_search (\<lambda>a. unsignedcmp (item_offset a) target_offset) table (the begin1) (the end1)
                         in if begin2 \<noteq> end2 then begin2 else begin1)
                        else begin1)
                  in (True, c\<lparr>fc_old_offset := item_offset (table ! the begin1)\<rparr>))"

definition matching_increment :: "bool \<Rightarrow> file_comparer \<Rightarrow> u64 option" where
  "matching_increment dbg c =
     (if dbg \<and> unat (rf_block_size (fc_old_file c)) \<noteq> cb_size (fc_buffer c) then None
      else Some (rf_block_size (fc_old_file c)))"

definition non_matching_increment :: u64 where
  "non_matching_increment = 1"

definition request_thread_stop :: "(nat \<Rightarrow> byte) \<Rightarrow> file_comparer \<Rightarrow> file_comparer" where
  "request_thread_stop fresh c =
     (let c = process_new_buffer fresh True c
      in c\<lparr>fc_queue := fc_queue c @ [sb_new fresh 0]\<rparr>)"

text \<open>The run of the second thread: the table and the bytes hashed so far, until the buffer without memory.\<close>

fun thread_loop :: "(byte list \<Rightarrow> byte list) \<Rightarrow> u64 \<Rightarrow> rsync_table_item list \<Rightarrow> byte list \<Rightarrow> simple_buffer list \<Rightarrow> rsync_table_item list \<times> byte list" where
  "thread_loop sha1 offset table hashed [] = (table, hashed)"
| "thread_loop sha1 offset table hashed (buffer # queue) =
     (if sb_capacity buffer = 0 then (table, hashed)
      else
        let item = Rsync_table_item (compute_rsync_rolling_checksum ((!) (sb_data buffer)) (sb_size buffer))
                     (sha1 (take (sb_size buffer) (sb_data buffer))) offset
        in thread_loop sha1 (offset + word_of_nat (sb_size buffer)) (table @ [item])
             (hashed @ take (sb_size buffer) (sb_data buffer)) queue)"

definition thread_func :: "(byte list \<Rightarrow> byte list) \<Rightarrow> simple_buffer list \<Rightarrow> rsync_table_item list \<times> byte list" where
  "thread_func sha1 queue = (let (table, hashed) = thread_loop sha1 0 [] [] queue in (sort table, sha1 hashed))"

subsection \<open>AbstractFileComparer\<close>

datatype comparer_stop = Win32_error u32 | Debug_break

definition push_command :: "bool \<Rightarrow> u64 \<Rightarrow> file_comparer \<Rightarrow> file_comparer" where
  "push_command x offset c =
     c\<lparr>fc_result := fc_result c @ [set_copy_from_old x \<lparr>cmd_offset = offset, cmd_length = 0\<rparr>]\<rparr>"

definition extend_last :: "u64 \<Rightarrow> file_comparer \<Rightarrow> file_comparer" where
  "extend_last n c = c\<lparr>fc_result := butlast (fc_result c) @ [(last (fc_result c))\<lparr>cmd_length := cmd_length (last (fc_result c)) + n\<rparr>]\<rparr>"

definition state_Initial ::
  "os_read \<Rightarrow> (nat \<Rightarrow> byte) \<Rightarrow> (byte list \<Rightarrow> byte list) \<Rightarrow> u32 option \<Rightarrow> file_comparer \<Rightarrow> (comparer_stop + unit) \<times> file_comparer" where
  "state_Initial os_read fresh sha1 seek_error c =
     (let (ret, reader) = bb_seek fresh seek_error 0 (fc_reader c);
          c = c\<lparr>fc_reader := reader\<rparr>
      in case ret of Inl e \<Rightarrow> (Inl (Win32_error e), c)
      | Inr _ \<Rightarrow>
        let c = c\<lparr>fc_new_offset := 0, fc_old_offset := 0\<rparr>;
            (ret, c) = read_more_data os_read fresh c
        in case ret of Inl e \<Rightarrow> (Inl (Win32_error e), c)
        | Inr again \<Rightarrow>
          if \<not> again then (Inr (), c\<lparr>fc_state := Final\<rparr>)
          else let (found, c) = search sha1 False 0 c
               in (Inr (), c\<lparr>fc_state := (if found then Matching else NonMatching)\<rparr>))"

text \<open>The body of the inner loop of \<open>state_Matching\<close>; when the next match is elsewhere, the outer loop starts a new command.\<close>

fun matching_loop ::
  "bool \<Rightarrow> os_read \<Rightarrow> (nat \<Rightarrow> byte) \<Rightarrow> (byte list \<Rightarrow> byte list) \<Rightarrow> nat \<Rightarrow> file_comparer \<Rightarrow> ((comparer_stop + unit) \<times> file_comparer) option" where
  "matching_loop dbg os_read fresh sha1 0 c = None"
| "matching_loop dbg os_read fresh sha1 (Suc fuel) c =
     (case matching_increment dbg c of
        None \<Rightarrow> Some (Inl Debug_break, c)
      | Some inc \<Rightarrow>
          let c = c\<lparr>fc_new_offset := fc_new_offset c + inc\<rparr>;
              c = extend_last inc c;
              (ret, c) = read_more_data os_read fresh c
          in case ret of Inl e \<Rightarrow> Some (Inl (Win32_error e), c)
          | Inr again \<Rightarrow>
            if \<not> again then Some (Inr (), c\<lparr>fc_state := Final\<rparr>)
            else
              let target = cmd_offset (last (fc_result c)) + get_length (last (fc_result c));
                  (found, c) = search sha1 True target c
              in if \<not> found then Some (Inr (), c\<lparr>fc_state := NonMatching\<rparr>)
                 else if fc_old_offset c \<noteq> target
                 then matching_loop dbg os_read fresh sha1 fuel (push_command True (fc_old_offset c) c)
                 else matching_loop dbg os_read fresh sha1 fuel c)"

definition state_Matching ::
  "bool \<Rightarrow> os_read \<Rightarrow> (nat \<Rightarrow> byte) \<Rightarrow> (byte list \<Rightarrow> byte list) \<Rightarrow> nat \<Rightarrow> file_comparer \<Rightarrow> ((comparer_stop + unit) \<times> file_comparer) option" where
  "state_Matching dbg os_read fresh sha1 fuel c = matching_loop dbg os_read fresh sha1 fuel (push_command True (fc_old_offset c) c)"

fun non_matching_loop ::
  "os_read \<Rightarrow> (nat \<Rightarrow> byte) \<Rightarrow> (byte list \<Rightarrow> byte list) \<Rightarrow> nat \<Rightarrow> file_comparer \<Rightarrow> ((comparer_stop + unit) \<times> file_comparer) option" where
  "non_matching_loop os_read fresh sha1 0 c = None"
| "non_matching_loop os_read fresh sha1 (Suc fuel) c =
     (let inc = non_matching_increment;
          c = c\<lparr>fc_new_offset := fc_new_offset c + inc\<rparr>;
          c = extend_last inc c;
          (ret, c) = non_matching_read_more_data os_read fresh c
      in case ret of Inl e \<Rightarrow> Some (Inl (Win32_error e), c)
      | Inr again \<Rightarrow>
        if \<not> again then Some (Inr (), c\<lparr>fc_state := Final\<rparr>)
        else
          let (found, c) = search sha1 False 0 c
          in if found then Some (Inr (), c\<lparr>fc_state := Matching\<rparr>)
             else non_matching_loop os_read fresh sha1 fuel c)"

definition state_NonMatching ::
  "os_read \<Rightarrow> (nat \<Rightarrow> byte) \<Rightarrow> (byte list \<Rightarrow> byte list) \<Rightarrow> nat \<Rightarrow> file_comparer \<Rightarrow> ((comparer_stop + unit) \<times> file_comparer) option" where
  "state_NonMatching os_read fresh sha1 fuel c = non_matching_loop os_read fresh sha1 fuel (push_command False (fc_new_offset c) c)"

fun process_loop ::
  "bool \<Rightarrow> os_read \<Rightarrow> (nat \<Rightarrow> byte) \<Rightarrow> (byte list \<Rightarrow> byte list) \<Rightarrow> u32 option \<Rightarrow> nat \<Rightarrow> file_comparer \<Rightarrow> ((comparer_stop + unit) \<times> file_comparer) option" where
  "process_loop dbg os_read fresh sha1 seek_error 0 c = None"
| "process_loop dbg os_read fresh sha1 seek_error (Suc fuel) c =
     (if fc_state c = Final then Some (Inr (), c)
      else
        case (case fc_state c of
                Initial \<Rightarrow> Some (state_Initial os_read fresh sha1 seek_error c)
              | Matching \<Rightarrow> state_Matching dbg os_read fresh sha1 fuel c
              | _ \<Rightarrow> state_NonMatching os_read fresh sha1 fuel c) of
          None \<Rightarrow> None
        | Some (Inl e, c) \<Rightarrow> Some (Inl e, c)
        | Some (Inr _, c) \<Rightarrow> process_loop dbg os_read fresh sha1 seek_error fuel c)"

text \<open>\<open>process\<close>, up to the wait for the second thread in \<open>finished\<close>.\<close>

definition fc_process ::
  "bool \<Rightarrow> os_read \<Rightarrow> (nat \<Rightarrow> byte) \<Rightarrow> (byte list \<Rightarrow> byte list) \<Rightarrow> u32 option \<Rightarrow> nat \<Rightarrow> file_comparer
   \<Rightarrow> ((comparer_stop + unit) \<times> file_comparer) option" where
  "fc_process dbg os_read fresh sha1 seek_error fuel c =
     (case process_loop dbg os_read fresh sha1 seek_error fuel (c\<lparr>fc_state := Initial\<rparr>) of
        None \<Rightarrow> None
      | Some (Inl e, c) \<Rightarrow> Some (Inl e, c)
      | Some (Inr _, c) \<Rightarrow> Some (Inr (), request_thread_stop fresh c))"

end
