(* ===== verification/New_Table.thy ===== *)
theory New_Table
  imports File_Comparer
begin

text \<open>
  The table of the new file, which the comparer builds while it reads: the bytes it read are cut into buffers of the new
  block size (\<open>collected\<close> are the bytes in the buffers, \<open>buffers_ok\<close> their invariant), and the second thread turns the
  queue of buffers into the table.
\<close>

definition sb_bytes :: "simple_buffer \<Rightarrow> byte list" where
  "sb_bytes sb = take (sb_size sb) (sb_data sb)"

definition collected :: "file_comparer \<Rightarrow> byte list" where
  "collected c = concat (map sb_bytes (fc_queue c)) @ sb_bytes (fc_new_buffer c)"

definition full_buffer :: "nat \<Rightarrow> simple_buffer \<Rightarrow> bool" where
  "full_buffer n sb \<longleftrightarrow> sb_size sb = n \<and> sb_capacity sb = n \<and> length (sb_data sb) = n"

definition buffers_ok :: "nat \<Rightarrow> file_comparer \<Rightarrow> bool" where
  "buffers_ok n c \<longleftrightarrow> 0 < n \<and> list_all (full_buffer n) (fc_queue c) \<and> sb_size (fc_new_buffer c) < n
     \<and> sb_capacity (fc_new_buffer c) = n \<and> length (sb_data (fc_new_buffer c)) = n"

text \<open>Nothing but the buffers changes.\<close>

definition only_buffers :: "file_comparer \<Rightarrow> file_comparer \<Rightarrow> bool" where
  "only_buffers c c' \<longleftrightarrow> c' = c\<lparr>fc_queue := fc_queue c', fc_new_buffer := fc_new_buffer c'\<rparr>"

lemma only_buffers_trans: "only_buffers c c' \<Longrightarrow> only_buffers c' c'' \<Longrightarrow> only_buffers c c''"
  by (cases c; cases c'; cases c'') (simp add: only_buffers_def)

lemma only_buffers_fields:
  assumes "only_buffers c c'"
  shows "fc_state c' = fc_state c" "fc_result c' = fc_result c" "fc_new_offset c' = fc_new_offset c" "fc_old_offset c' = fc_old_offset c"
    "fc_reader c' = fc_reader c" "fc_old_file c' = fc_old_file c" "fc_buffer c' = fc_buffer c" "fc_checksum c' = fc_checksum c"
    "fc_new_block_size c' = fc_new_block_size c"
  using assms by (cases c; cases c'; simp add: only_buffers_def)+

subsection \<open>Collecting bytes\<close>

lemma sb_new_fields: "sb_capacity (sb_new fresh n) = n" "sb_size (sb_new fresh n) = 0" "length (sb_data (sb_new fresh n)) = n"
    "sb_bytes (sb_new fresh n) = []"
  by (simp_all add: sb_new_def sb_realloc_def Let_def sb_bytes_def)

text \<open>Storing bytes that fit into the current buffer, and queueing it when it is full.\<close>

lemma store_bytes:
  assumes "buffers_ok n c" and "sb_size (fc_new_buffer c) + length buf \<le> n"
    and c': "c' = process_new_buffer fresh False (c\<lparr>fc_new_buffer := (fc_new_buffer c)
      \<lparr>sb_data := put_bytes (sb_data (fc_new_buffer c)) (sb_size (fc_new_buffer c)) buf,
       sb_size := sb_size (fc_new_buffer c) + length buf\<rparr>\<rparr>)"
  shows "buffers_ok n c' \<and> collected c' = collected c @ buf \<and> only_buffers c c'"
proof -
  define nb where "nb = (fc_new_buffer c)
      \<lparr>sb_data := put_bytes (sb_data (fc_new_buffer c)) (sb_size (fc_new_buffer c)) buf,
       sb_size := sb_size (fc_new_buffer c) + length buf\<rparr>"
  have ok: "0 < n" "list_all (full_buffer n) (fc_queue c)" "sb_capacity (fc_new_buffer c) = n" "length (sb_data (fc_new_buffer c)) = n"
    using assms(1) by (simp_all add: buffers_ok_def)
  have nb: "sb_capacity nb = n" "sb_size nb = sb_size (fc_new_buffer c) + length buf" "length (sb_data nb) = n"
    "sb_bytes nb = sb_bytes (fc_new_buffer c) @ buf"
    using ok assms(2) by (simp_all add: nb_def sb_bytes_def put_bytes_def)
  have c'': "c' = process_new_buffer fresh False (c\<lparr>fc_new_buffer := nb\<rparr>)" unfolding c' nb_def ..
  show ?thesis
  proof (cases "sb_size nb = n")
    case True
    then have "c' = c\<lparr>fc_queue := fc_queue c @ [nb], fc_new_buffer := sb_new fresh n\<rparr>"
      by (simp add: c'' process_new_buffer_def sb_full_def nb Let_def)
    then show ?thesis using True ok nb
      by (simp add: buffers_ok_def collected_def only_buffers_def sb_new_fields full_buffer_def)
  next
    case False
    then have "c' = c\<lparr>fc_new_buffer := nb\<rparr>" by (simp add: c'' process_new_buffer_def sb_full_def nb)
    then show ?thesis using False ok nb assms(2)
      by (simp add: buffers_ok_def collected_def only_buffers_def)
  qed
qed

lemma add_byte_ok:
  assumes "buffers_ok n c"
  shows "buffers_ok n (add_byte fresh b c) \<and> collected (add_byte fresh b c) = collected c @ [b] \<and> only_buffers c (add_byte fresh b c)"
proof -
  have "sb_size (fc_new_buffer c) < n" using assms by (simp add: buffers_ok_def)
  then have "add_byte fresh b c = process_new_buffer fresh False (c\<lparr>fc_new_buffer := (fc_new_buffer c)
      \<lparr>sb_data := put_bytes (sb_data (fc_new_buffer c)) (sb_size (fc_new_buffer c)) [b],
       sb_size := sb_size (fc_new_buffer c) + length [b]\<rparr>\<rparr>)"
    using assms by (simp add: add_byte_def Let_def put_bytes_single buffers_ok_def)
  from store_bytes [OF assms _ this] show ?thesis using assms by (simp add: buffers_ok_def)
qed

lemma sb_update_swap: "sb\<lparr>sb_size := a, sb_data := b\<rparr> = sb\<lparr>sb_data := b, sb_size := a\<rparr>"
  by simp

lemma add_block_loop_ok:
  assumes "buffers_ok n c" and "length buf \<le> fuel"
  shows "buffers_ok n (add_block_loop fresh fuel buf c) \<and> collected (add_block_loop fresh fuel buf c) = collected c @ buf
    \<and> only_buffers c (add_block_loop fresh fuel buf c)"
  using assms
proof (induction fuel arbitrary: buf c)
  case 0
  then show ?case by (simp add: only_buffers_def)
next
  case (Suc fuel)
  show ?case
  proof (cases "buf = []")
    case True
    then show ?thesis using Suc.prems(1) by (simp add: only_buffers_def)
  next
    case False
    let ?sb = "fc_new_buffer c"
    let ?k = "min (sb_capacity ?sb - sb_size ?sb) (length buf)"
    define c1 where "c1 = process_new_buffer fresh False (c\<lparr>fc_new_buffer := ?sb
      \<lparr>sb_data := put_bytes (sb_data ?sb) (sb_size ?sb) (take ?k buf), sb_size := sb_size ?sb + length (take ?k buf)\<rparr>\<rparr>)"
    have sz: "sb_size ?sb < n" "sb_capacity ?sb = n" using Suc.prems(1) by (simp_all add: buffers_ok_def)
    have k: "0 < ?k" "?k \<le> length buf" "length (take ?k buf) = ?k" using sz False by simp_all
    have s1: "buffers_ok n c1 \<and> collected c1 = collected c @ take ?k buf \<and> only_buffers c c1"
      by (rule store_bytes [OF Suc.prems(1) _ c1_def]) (use sz k in simp)
    have l: "length (drop ?k buf) \<le> fuel" unfolding length_drop using Suc.prems(2) k(1) by linarith
    have e: "add_block_loop fresh (Suc fuel) buf c = add_block_loop fresh fuel (drop ?k buf) c1"
      using False k(3) by (simp add: Let_def c1_def sb_update_swap)
    note i = Suc.IH [OF conjunct1 [OF s1] l]
    have "collected (add_block_loop fresh fuel (drop ?k buf) c1) = collected c @ buf"
      using i s1 append_take_drop_id [of ?k buf] by (metis append_assoc)
    moreover have "only_buffers c (add_block_loop fresh fuel (drop ?k buf) c1)" using i s1 only_buffers_trans by blast
    ultimately show ?thesis unfolding e using i by blast
  qed
qed

lemma add_block_ok:
  assumes "buffers_ok n c" and "cb_flat buffer"
  shows "buffers_ok n (add_block fresh buffer c) \<and> collected (add_block fresh buffer c) = collected c @ cb_contents buffer
    \<and> only_buffers c (add_block fresh buffer c)"
proof -
  have "add_block fresh buffer c = add_block_bytes fresh (cb_contents buffer) c"
    using assms(2) by (simp add: add_block_def cb_process_whole_def cb_flat_def cb_flat_contents)
  then show ?thesis using add_block_loop_ok [OF assms(1) order_refl, of fresh "cb_contents buffer"] by (simp only: add_block_bytes_def)
qed

subsection \<open>The second thread\<close>

text \<open>The code queues the last buffer even when it is empty, so a file that fills its buffers gets one more item.\<close>

definition table_tail :: "(byte list \<Rightarrow> byte list) \<Rightarrow> nat \<Rightarrow> byte list \<Rightarrow> rsync_table_item list" where
  "table_tail sha1 n content =
     (if n dvd length content then [Rsync_table_item (rolling_of []) (sha1 []) (word_of_nat (length content))] else [])"

lemma thread_loop_full:
  assumes "full_buffer n sb" and "0 < n"
  shows "thread_loop sha1 off table hashed (sb # queue) =
    thread_loop sha1 (off + word_of_nat n) (table @ [Rsync_table_item (rolling_of (sb_bytes sb)) (sha1 (sb_bytes sb)) off])
      (hashed @ sb_bytes sb) queue"
proof -
  have "map ((!) (sb_data sb)) [0..<sb_size sb] = sb_bytes sb" using assms(1) map_nth [of "sb_data sb"] by (simp add: full_buffer_def sb_bytes_def)
  then show ?thesis using assms by (simp add: full_buffer_def compute_rolling_eq sb_bytes_def Let_def)
qed

lemma thread_loop_items:
  assumes "list_all (full_buffer n) queue" and "0 < n" and "sb_capacity nb = n" and "sb_size nb < n" and "length (sb_data nb) = n"
  shows "thread_loop sha1 (word_of_nat off) table hashed (queue @ [nb, sb_new fresh 0]) =
    (table @ file_items sha1 n off (concat (map sb_bytes queue) @ sb_bytes nb)
       @ (if sb_size nb = 0 then [Rsync_table_item (rolling_of []) (sha1 []) (word_of_nat (off + n * length queue))] else []),
     hashed @ concat (map sb_bytes queue) @ sb_bytes nb)"
  using assms(1)
proof (induction queue arbitrary: off table hashed)
  case Nil
  have l: "length (sb_bytes nb) = sb_size nb" using assms(4,5) by (simp add: sb_bytes_def)
  have z: "sb_bytes nb = [] \<longleftrightarrow> sb_size nb = 0" by (simp add: l flip: length_0_conv)
  have m: "map ((!) (sb_data nb)) [0..<sb_size nb] = sb_bytes nb"
    using assms(4,5) by (intro nth_equalityI) (simp_all add: sb_bytes_def)
  have "file_items sha1 n off (sb_bytes nb) =
      (if sb_size nb = 0 then [] else [Rsync_table_item (rolling_of (sb_bytes nb)) (sha1 (sb_bytes nb)) (word_of_nat off)])"
    using l assms(2,4) z by (auto simp: file_items.simps [of sha1 n off] file_items.simps [of sha1 n _ "[]"])
  then show ?case using assms(2,3) m l by (auto simp: sb_new_fields compute_rolling_eq sb_bytes_def Let_def)
next
  case (Cons sb queue)
  then have full: "full_buffer n sb" "list_all (full_buffer n) queue" by simp_all
  then have l: "length (sb_bytes sb) = n" by (simp add: full_buffer_def sb_bytes_def)
  let ?rest = "concat (map sb_bytes queue) @ sb_bytes nb"
  have "sb_bytes sb @ ?rest \<noteq> []" using l assms(2) by auto
  then have items: "file_items sha1 n off (sb_bytes sb @ ?rest) =
      Rsync_table_item (rolling_of (sb_bytes sb)) (sha1 (sb_bytes sb)) (word_of_nat off) # file_items sha1 n (off + n) ?rest"
    using l assms(2) file_items.simps [of sha1 n off "sb_bytes sb @ ?rest"] by simp
  have "thread_loop sha1 (word_of_nat off) table hashed ((sb # queue) @ [nb, sb_new fresh 0]) =
      thread_loop sha1 (word_of_nat (off + n)) (table @ [Rsync_table_item (rolling_of (sb_bytes sb)) (sha1 (sb_bytes sb)) (word_of_nat off)])
        (hashed @ sb_bytes sb) (queue @ [nb, sb_new fresh 0])"
    using thread_loop_full [OF full(1) assms(2)] by (simp add: sb_new_fields)
  then show ?case unfolding Cons.IH [OF full(2)] using items by (simp add: algebra_simps)
qed

text \<open>What the second thread makes of the buffers.\<close>

lemma thread_func_table:
  assumes "buffers_ok n c"
  shows "thread_func sha1 (fc_queue (request_thread_stop fresh c)) =
    (sort (file_items sha1 n 0 (collected c) @ table_tail sha1 n (collected c)), sha1 (collected c))"
proof -
  let ?q = "fc_queue c" and ?nb = "fc_new_buffer c"
  have ok: "list_all (full_buffer n) ?q" "0 < n" "sb_capacity ?nb = n" "sb_size ?nb < n" "length (sb_data ?nb) = n"
    using assms by (simp_all add: buffers_ok_def)
  have q: "fc_queue (request_thread_stop fresh c) = ?q @ [?nb, sb_new fresh 0]"
    by (simp add: request_thread_stop_def process_new_buffer_def Let_def)
  have total: "sum_list (map (length \<circ> sb_bytes) q) = n * length q" if "list_all (full_buffer n) q" for q
    using that by (induction q) (simp_all add: full_buffer_def sb_bytes_def)
  have "sum_list (map (length \<circ> sb_bytes) ?q) = n * length ?q"
    using ok(1) by (rule total)
  then have l: "length (collected c) = n * length ?q + sb_size ?nb"
    using ok by (simp add: collected_def length_concat sb_bytes_def)
  have "n dvd length (collected c) \<longleftrightarrow> sb_size ?nb = 0" unfolding l using ok(2,4)
    by (auto simp: dvd_add_right_iff dest: nat_dvd_not_less [rotated])
  then have t: "table_tail sha1 n (collected c) =
      (if sb_size ?nb = 0 then [Rsync_table_item (rolling_of []) (sha1 []) (word_of_nat (0 + n * length ?q))] else [])"
    by (simp add: table_tail_def l)
  show ?thesis unfolding thread_func_def q t
    using thread_loop_items [OF ok, of sha1 0 "[]" "[]" fresh] by (simp add: collected_def)
qed

end
