(* ===== verification/Comparer_Search.thy ===== *)
theory Comparer_Search
  imports File_Comparer
begin

text \<open>
  The lookup of the current window in the sorted table of the old file, FileComparer::search of
  src/BackupEngineNativePart/FileComparer.cpp: three nested triple searches, by checksum, by hash and by offset.
  \<open>matches\<close> is the specification without an order: an item of the table with the checksum and the hash of the window.
\<close>

subsection \<open>Partitions of a sorted table\<close>

lemma unsignedcmp_sign [simp]: "unsignedcmp a b = 0 \<longleftrightarrow> a = b" "0 \<le> unsignedcmp a b \<longleftrightarrow> b \<le> a" "0 < unsignedcmp a b \<longleftrightarrow> b < a"
  by (auto simp: unsignedcmp_def)

lemma memcmp_mono:
  assumes "memcmp a b \<le> 0"
  shows "0 \<le> memcmp a h \<Longrightarrow> 0 \<le> memcmp b h" and "0 < memcmp a h \<Longrightarrow> 0 < memcmp b h"
proof -
  show "0 \<le> memcmp a h \<Longrightarrow> 0 \<le> memcmp b h"
    using assms memcmp_trans [of a b h] memcmp_zero [of a b] by (metis not_le order_le_less)
  show "0 < memcmp a h \<Longrightarrow> 0 < memcmp b h"
    using assms memcmp_trans [of h a b] memcmp_zero [of a b] memcmp_swap(2) by (metis order_le_less)
qed

lemma item_le:
  assumes "a \<le> (b :: rsync_table_item)"
  shows "rolling_checksum a \<le> rolling_checksum b"
    and "rolling_checksum a = rolling_checksum b \<Longrightarrow> memcmp (complex_hash a) (complex_hash b) \<le> 0"
    and "rolling_checksum a = rolling_checksum b \<Longrightarrow> complex_hash a = complex_hash b \<Longrightarrow> item_offset a \<le> item_offset b"
  using assms by (auto simp: less_eq_rsync_table_item_def less_rsync_table_item_def rsync_table_item_less_def Let_def split: if_splits)

lemma partitionedI:
  assumes "\<And>i j. lo \<le> i \<Longrightarrow> i \<le> j \<Longrightarrow> j < hi \<Longrightarrow> (0 \<le> f (xs ! i) \<longrightarrow> 0 \<le> f (xs ! j)) \<and> (0 < f (xs ! i) \<longrightarrow> 0 < f (xs ! j))"
  shows "partitioned f xs lo hi"
  unfolding partitioned_def using assms by blast

lemma sorted_partitions:
  assumes "sorted (T :: rsync_table_item list)" and "hi \<le> length T"
  shows "partitioned (\<lambda>a. unsignedcmp (rolling_checksum a) r) T lo hi"
    and "(\<And>i. lo \<le> i \<Longrightarrow> i < hi \<Longrightarrow> rolling_checksum (T ! i) = r) \<Longrightarrow> partitioned (\<lambda>a. memcmp (complex_hash a) h) T lo hi"
    and "(\<And>i. lo \<le> i \<Longrightarrow> i < hi \<Longrightarrow> rolling_checksum (T ! i) = r \<and> complex_hash (T ! i) = h)
      \<Longrightarrow> partitioned (\<lambda>a. unsignedcmp (item_offset a) t) T lo hi"
proof -
  have le: "T ! i \<le> T ! j" if "i \<le> j" "j < hi" for i j using assms that by (simp add: sorted_nth_mono)
  show "partitioned (\<lambda>a. unsignedcmp (rolling_checksum a) r) T lo hi"
  proof (rule partitionedI)
    fix i j assume "i \<le> j" "j < hi"
    then have "rolling_checksum (T ! i) \<le> rolling_checksum (T ! j)" by (intro item_le(1) le)
    then show "(0 \<le> unsignedcmp (rolling_checksum (T ! i)) r \<longrightarrow> 0 \<le> unsignedcmp (rolling_checksum (T ! j)) r)
        \<and> (0 < unsignedcmp (rolling_checksum (T ! i)) r \<longrightarrow> 0 < unsignedcmp (rolling_checksum (T ! j)) r)"
      unfolding unsignedcmp_sign by (meson order_trans less_le_trans)
  qed
  show "partitioned (\<lambda>a. memcmp (complex_hash a) h) T lo hi"
    if r: "\<And>i. lo \<le> i \<Longrightarrow> i < hi \<Longrightarrow> rolling_checksum (T ! i) = r"
  proof (rule partitionedI)
    fix i j assume ij: "lo \<le> i" "i \<le> j" "j < hi"
    then have "rolling_checksum (T ! i) = r" "rolling_checksum (T ! j) = r" by (auto intro!: r)
    then have "memcmp (complex_hash (T ! i)) (complex_hash (T ! j)) \<le> 0" using item_le(2) [OF le [OF ij(2,3)]] by simp
    from memcmp_mono [OF this] show "(0 \<le> memcmp (complex_hash (T ! i)) h \<longrightarrow> 0 \<le> memcmp (complex_hash (T ! j)) h)
        \<and> (0 < memcmp (complex_hash (T ! i)) h \<longrightarrow> 0 < memcmp (complex_hash (T ! j)) h)" by blast
  qed
  show "partitioned (\<lambda>a. unsignedcmp (item_offset a) t) T lo hi"
    if r: "\<And>i. lo \<le> i \<Longrightarrow> i < hi \<Longrightarrow> rolling_checksum (T ! i) = r \<and> complex_hash (T ! i) = h"
  proof (rule partitionedI)
    fix i j assume ij: "lo \<le> i" "i \<le> j" "j < hi"
    then have "rolling_checksum (T ! i) = r \<and> complex_hash (T ! i) = h" "rolling_checksum (T ! j) = r \<and> complex_hash (T ! j) = h"
      by (auto intro!: r)
    then have "item_offset (T ! i) \<le> item_offset (T ! j)" using item_le(3) [OF le [OF ij(2,3)]] by simp
    then show "(0 \<le> unsignedcmp (item_offset (T ! i)) t \<longrightarrow> 0 \<le> unsignedcmp (item_offset (T ! j)) t)
        \<and> (0 < unsignedcmp (item_offset (T ! i)) t \<longrightarrow> 0 < unsignedcmp (item_offset (T ! j)) t)"
      unfolding unsignedcmp_sign by (meson order_trans less_le_trans)
  qed
qed

text \<open>One stage of the search: the range it leaves.\<close>

lemma triple_search_stage:
  assumes "partitioned f T lo hi" and "lo \<le> hi" and "triple_search f T lo hi = (b, e)"
  shows "b \<noteq> e \<longleftrightarrow> (\<exists>i. lo \<le> i \<and> i < hi \<and> f (T ! i) = 0)"
    and "b \<noteq> e \<Longrightarrow> lo \<le> the b \<and> the b < the e \<and> the e \<le> hi"
    and "b \<noteq> e \<Longrightarrow> lo \<le> i \<Longrightarrow> i < hi \<Longrightarrow> f (T ! i) = 0 \<longleftrightarrow> the b \<le> i \<and> i < the e"
proof -
  note c = triple_search_correct [OF assms]
  have none: "b = e" if "\<not> (\<exists>i \<in> {lo..<hi}. f (T ! i) = 0)" using c that by (simp only: if_False)
  have some: "\<exists>l h. b = Some l \<and> e = Some h \<and> lo \<le> l \<and> l < h \<and> h \<le> hi \<and> {i \<in> {lo..<hi}. f (T ! i) = 0} = {l..<h}"
    if "\<exists>i \<in> {lo..<hi}. f (T ! i) = 0" using c that by (simp only: if_True)
  have "b \<noteq> e" if "\<exists>i \<in> {lo..<hi}. f (T ! i) = 0" using some [OF that] by auto
  then have ne: "b \<noteq> e \<longleftrightarrow> (\<exists>i \<in> {lo..<hi}. f (T ! i) = 0)" using none by blast
  then show "b \<noteq> e \<longleftrightarrow> (\<exists>i. lo \<le> i \<and> i < hi \<and> f (T ! i) = 0)" by (simp add: Bex_def conj_assoc)
  show "lo \<le> the b \<and> the b < the e \<and> the e \<le> hi" if be: "b \<noteq> e"
  proof -
    obtain l h where "b = Some l" "e = Some h" "lo \<le> l" "l < h" "h \<le> hi" using some [OF iffD1 [OF ne be]] by (elim exE conjE)
    then show ?thesis by simp
  qed
  show "f (T ! i) = 0 \<longleftrightarrow> the b \<le> i \<and> i < the e" if be: "b \<noteq> e" and i: "lo \<le> i" "i < hi"
  proof -
    obtain l h where lh: "b = Some l" "e = Some h" "{i \<in> {lo..<hi}. f (T ! i) = 0} = {l..<h}"
      using some [OF iffD1 [OF ne be]] by (elim exE conjE)
    have "i \<in> {i \<in> {lo..<hi}. f (T ! i) = 0} \<longleftrightarrow> i \<in> {l..<h}" by (simp only: lh(3))
    then show ?thesis using i lh(1,2) by simp
  qed
qed

definition table_ok :: "rsyncable_file \<Rightarrow> bool" where
  "table_ok f \<longleftrightarrow> sorted (rf_rsync_table f) \<and> rf_bitmap f = init_bitmap (rf_rsync_table f)"

definition matches :: "(byte list \<Rightarrow> byte list) \<Rightarrow> file_comparer \<Rightarrow> rsync_table_item \<Rightarrow> bool" where
  "matches sha1 c a \<longleftrightarrow> a \<in> set (rf_rsync_table (fc_old_file c)) \<and> rolling_checksum a = fc_checksum c
     \<and> complex_hash a = sha1 (cb_contents (fc_buffer c))"

text \<open>What the search returns: whether some item of the table matches, and then the offset of one, the wanted one if
  there is one.\<close>

lemma search_cases:
  assumes "table_ok (fc_old_file c)" and "cb_ok (fc_buffer c)" and "search sha1 ov t c = (found, c')"
  shows "found \<longleftrightarrow> (\<exists>a. matches sha1 c a)"
    and "\<not> found \<Longrightarrow> c' = c"
    and "found \<Longrightarrow> \<exists>a. matches sha1 c a \<and> c' = c\<lparr>fc_old_offset := item_offset a\<rparr>
      \<and> (ov \<and> (\<exists>a. matches sha1 c a \<and> item_offset a = t) \<longrightarrow> item_offset a = t)"
proof -
  let ?T = "rf_rsync_table (fc_old_file c)" and ?r = "fc_checksum c" and ?h = "sha1 (cb_contents (fc_buffer c))"
  let ?G = "(found \<longleftrightarrow> (\<exists>a. matches sha1 c a)) \<and> (\<not> found \<longrightarrow> c' = c)
    \<and> (found \<longrightarrow> (\<exists>a. matches sha1 c a \<and> c' = c\<lparr>fc_old_offset := item_offset a\<rparr>
      \<and> (ov \<and> (\<exists>a. matches sha1 c a \<and> item_offset a = t) \<longrightarrow> item_offset a = t)))"
  have T: "sorted ?T" and bitmap: "rf_bitmap (fc_old_file c) = init_bitmap ?T" using assms(1) by (simp_all add: table_ok_def)
  have hash: "sha1 (cb_process_whole (\<lambda>buf data. data @ buf) (fc_buffer c) []) = ?h"
    using cb_process_whole_contents [OF assms(2), of "\<lambda>buf data. data @ buf" "[]"] by simp
  have m: "(\<exists>a. matches sha1 c a \<and> P a)
      \<longleftrightarrow> (\<exists>i < length ?T. rolling_checksum (?T ! i) = ?r \<and> complex_hash (?T ! i) = ?h \<and> P (?T ! i))" for P
    by (auto simp: matches_def in_set_conv_nth)
  note m1 = m [of "\<lambda>_. True", simplified]
  have ?G
  proof (cases "does_not_contain (fc_old_file c) ?r")
    case True
    then have "\<not> (\<exists>a. matches sha1 c a)"
      unfolding does_not_contain_def bitmap init_bitmap_iff by (auto simp: matches_def)
    then show ?thesis using True assms(3) by (auto simp: search_def)
  next
    case contained: False
    obtain b0 e0 where s0: "triple_search (\<lambda>a. unsignedcmp (rolling_checksum a) ?r) ?T 0 (length ?T) = (b0, e0)" by fastforce
    note st0 = triple_search_stage [OF sorted_partitions(1) [OF T le_refl] le0 s0, unfolded unsignedcmp_sign]
    show ?thesis
    proof (cases "b0 = e0")
      case True
      then have "\<not> (\<exists>a. matches sha1 c a)" using st0(1) unfolding m1 by blast
      then show ?thesis using True contained assms(3) by (auto simp: search_def s0)
    next
      case be0: False
      note r0 = st0(2) [OF be0] and z0 = st0(3) [OF be0]
      have in0: "rolling_checksum (?T ! i) = ?r" if "the b0 \<le> i" "i < the e0" for i using z0 [of i] r0 that by simp
      obtain b1 e1 where s1: "triple_search (\<lambda>a. memcmp (complex_hash a) ?h) ?T (the b0) (the e0) = (b1, e1)" by fastforce
      have le1: "the b0 \<le> the e0" "the e0 \<le> length ?T" using r0 by simp_all
      have p1: "partitioned (\<lambda>a. memcmp (complex_hash a) ?h) ?T (the b0) (the e0)"
        by (rule sorted_partitions(2) [OF T le1(2)]) (rule in0)
      note st1 = triple_search_stage [OF p1 le1(1) s1, unfolded memcmp_zero]
      show ?thesis
      proof (cases "b1 = e1")
        case True
        have "\<not> (\<exists>a. matches sha1 c a)"
        proof
          assume "\<exists>a. matches sha1 c a"
          then obtain i where i: "i < length ?T" "rolling_checksum (?T ! i) = ?r" "complex_hash (?T ! i) = ?h" unfolding m1 by blast
          then have "the b0 \<le> i \<and> i < the e0" using z0 [of i] by simp
          then show False using st1(1) True i(3) by blast
        qed
        then show ?thesis using True be0 contained assms(3) by (auto simp: search_def s0 hash s1)
      next
        case be1: False
        note r1 = st1(2) [OF be1] and z1 = st1(3) [OF be1]
        have in1: "rolling_checksum (?T ! i) = ?r \<and> complex_hash (?T ! i) = ?h" if "the b1 \<le> i" "i < the e1" for i
          using z1 [of i] r1 in0 [of i] that by simp
        have le2: "the b1 \<le> the e1" "the e1 \<le> length ?T" using r1 le1 by simp_all
        have mi: "matches sha1 c (?T ! i)" if "the b1 \<le> i" "i < the e1" for i
          using in1 [OF that] that le2 by (simp add: matches_def)
        obtain b2 e2 where s2: "triple_search (\<lambda>a. unsignedcmp (item_offset a) t) ?T (the b1) (the e1) = (b2, e2)" by fastforce
        have p2: "partitioned (\<lambda>a. unsignedcmp (item_offset a) t) ?T (the b1) (the e1)"
          by (rule sorted_partitions(3) [OF T le2(2)]) (rule in1)
        note st2 = triple_search_stage [OF p2 le2(1) s2, unfolded unsignedcmp_sign]
        define k where "k = (if ov \<and> b2 \<noteq> e2 then the b2 else the b1)"
        have res: "found" "c' = c\<lparr>fc_old_offset := item_offset (?T ! k)\<rparr>"
          using assms(3) contained be0 be1 by (auto simp: search_def s0 hash s1 s2 k_def Let_def split: if_splits)
        have k: "the b1 \<le> k \<and> k < the e1" using st2(2) r1 by (auto simp: k_def)
        have "item_offset (?T ! k) = t" if ov: "ov" and ex: "\<exists>a. matches sha1 c a \<and> item_offset a = t"
        proof -
          obtain i where i: "i < length ?T" "rolling_checksum (?T ! i) = ?r" "complex_hash (?T ! i) = ?h" "item_offset (?T ! i) = t"
            using ex unfolding m by blast
          then have "the b0 \<le> i \<and> i < the e0" using z0 [of i] by simp
          then have "the b1 \<le> i \<and> i < the e1" using z1 [of i] i(3) by simp
          then have be2: "b2 \<noteq> e2" using st2(1) i(4) by blast
          then have "the b2 \<le> the b2 \<and> the b2 < the e2" "the b1 \<le> the b2" "the b2 < the e1" using st2(2) by auto
          then show ?thesis using st2(3) [OF be2, of "the b2"] ov be2 by (simp add: k_def)
        qed
        then show ?thesis using res mi [of k] k by blast
      qed
    qed
  qed
  then show "found \<longleftrightarrow> (\<exists>a. matches sha1 c a)" "\<not> found \<Longrightarrow> c' = c"
    "found \<Longrightarrow> \<exists>a. matches sha1 c a \<and> c' = c\<lparr>fc_old_offset := item_offset a\<rparr>
      \<and> (ov \<and> (\<exists>a. matches sha1 c a \<and> item_offset a = t) \<longrightarrow> item_offset a = t)"
    by blast+
qed

text \<open>C29. The search finds an item exactly when the table has one with the checksum and the hash of the window; it
  then leaves the offset of such an item, the wanted one if it is among them, and otherwise changes nothing.\<close>

theorem comparer_search_correct:
  assumes "table_ok (fc_old_file c)" and "cb_ok (fc_buffer c)" and "search sha1 offset_valid target c = (found, c')"
  shows "(found \<longleftrightarrow> (\<exists>a. matches sha1 c a)) \<and> (\<not> found \<longrightarrow> c' = c)
    \<and> (found \<longrightarrow> (\<exists>a. matches sha1 c a \<and> c' = c\<lparr>fc_old_offset := item_offset a\<rparr>
      \<and> (offset_valid \<and> (\<exists>a. matches sha1 c a \<and> item_offset a = target) \<longrightarrow> item_offset a = target)))"
  using search_cases [OF assms] by blast

definition example_search :: "file_comparer \<Rightarrow> file_comparer" where
  "example_search c = c\<lparr>fc_old_file := rsyncable_file_of [Rsync_table_item 5 [1] 0, Rsync_table_item 7 [2] 512, Rsync_table_item 7 [2] 1024] [] 512,
     fc_checksum := 7, fc_buffer := \<lparr>cb_buffer = [2], cb_capacity = 1, cb_size = 1, cb_start = 0\<rparr>\<rparr>"

theorem comparer_search_correct_witness:
  "\<forall>c. fst (search (\<lambda>data. data) True 1024 (example_search c))
    \<and> fc_old_offset (snd (search (\<lambda>data. data) True 1024 (example_search c))) = 1024"
proof
  fix c
  let ?c = "example_search c"
  have table: "table_ok (fc_old_file ?c)"
    by (simp add: table_ok_def example_search_def rsyncable_file_of_def less_eq_rsync_table_item_def less_rsync_table_item_def rsync_table_item_less_def)
  have buffer: "cb_ok (fc_buffer ?c)" by (simp add: cb_ok_def example_search_def)
  obtain found c' where s: "search (\<lambda>data. data) True 1024 ?c = (found, c')" by fastforce
  have m: "matches (\<lambda>data. data) ?c (Rsync_table_item 7 [2] 1024)"
    by (simp add: matches_def example_search_def rsyncable_file_of_def cb_contents_def)
  have ex: "\<exists>a. matches (\<lambda>data. data) ?c a" "\<exists>a. matches (\<lambda>data. data) ?c a \<and> item_offset a = 1024" using m by force+
  note r = comparer_search_correct [OF table buffer s]
  have found using ex(1) r by blast
  then obtain a where "c' = ?c\<lparr>fc_old_offset := item_offset a\<rparr>" "item_offset a = 1024" using r ex(2) by blast
  then show "fst (search (\<lambda>data. data) True 1024 ?c) \<and> fc_old_offset (snd (search (\<lambda>data. data) True 1024 ?c)) = 1024"
    using \<open>found\<close> by (simp add: s)
qed

end
