(* ===== verification/Comparer_Thread.thy ===== *)
theory Comparer_Thread
  imports File_Comparer
begin

text \<open>
  The two threads of the comparer and the queue between them: \<open>process_new_buffer\<close> and \<open>request_thread_stop\<close>
  on one side, \<open>thread_func\<close> on the other, with the mutex and the auto-reset event of Threads.h and Threads.cpp of
  src/BackupEngineNativePart. Every step of the relation is one call of the operating system or one statement between two
  of them; what a thread does on its own memory (filling a buffer, hashing it) is part of a neighbouring step. The push of the
  terminator, which holds no mutex, is two steps, so that the state in which it overlaps with the other thread's access
  is one of the relation.

  \<open>handed_over\<close> is the invariant: the buffers that were processed, the one in hand, those in the queue and
  those still to come are the buffers of the main thread, in order.
\<close>

subsection \<open>The threads\<close>

text \<open>
  The main thread has a list of buffers still to be queued, the last of them by \<open>request_thread_stop\<close>. Without one it
  queues the terminator, a buffer without memory, and waits for the other thread.
\<close>

datatype main_pc =
    Producing "simple_buffer list"   \<comment> \<open>before the constructor of AutoMutex\<close>
  | Queueing "simple_buffer list"    \<comment> \<open>with the mutex, before push\_back of the first one\<close>
  | Unlocking "simple_buffer list"   \<comment> \<open>before the destructor of AutoMutex\<close>
  | Signalling "simple_buffer list"  \<comment> \<open>before event.set()\<close>
  | Stopping                          \<comment> \<open>inside the push\_back of request\_thread\_stop, without the mutex\<close>
  | Joining                           \<comment> \<open>in WaitForSingleObject for the thread\<close>

datatype worker_pc =
    Looking                           \<comment> \<open>before the constructor of AutoMutex\<close>
  | Holding                           \<comment> \<open>with the mutex, before the test of the size\<close>
  | Leaving "simple_buffer option"   \<comment> \<open>before the destructor of AutoMutex, with the buffer it took\<close>
  | Waiting                           \<comment> \<open>in event.wait()\<close>
  | Working simple_buffer             \<comment> \<open>outside the loop, with a buffer\<close>
  | Ended

datatype thread_id = Main_Thread | Worker_Thread

record threads =
  t_queue :: "simple_buffer list"
  t_mutex :: "thread_id option"
  t_event :: bool
  t_main :: main_pc
  t_worker :: worker_pc
  t_processed :: "simple_buffer list"

definition terminator :: simple_buffer where
  "terminator = \<lparr>sb_data = [], sb_capacity = 0, sb_size = 0\<rparr>"

inductive thread_step :: "threads \<Rightarrow> threads \<Rightarrow> bool" where
  main_lock: "t_main s = Producing (b # bs) \<Longrightarrow> t_mutex s = None \<Longrightarrow>
    thread_step s (s\<lparr>t_mutex := Some Main_Thread, t_main := Queueing (b # bs)\<rparr>)"
| main_push: "t_main s = Queueing (b # bs) \<Longrightarrow>
    thread_step s (s\<lparr>t_queue := t_queue s @ [b], t_main := Unlocking bs\<rparr>)"
| main_unlock: "t_main s = Unlocking bs \<Longrightarrow> thread_step s (s\<lparr>t_mutex := None, t_main := Signalling bs\<rparr>)"
| main_set: "t_main s = Signalling bs \<Longrightarrow> thread_step s (s\<lparr>t_event := True, t_main := Producing bs\<rparr>)"
| main_stop_begin: "t_main s = Producing [] \<Longrightarrow> thread_step s (s\<lparr>t_main := Stopping\<rparr>)"
| main_stop: "t_main s = Stopping \<Longrightarrow>
    thread_step s (s\<lparr>t_queue := t_queue s @ [terminator], t_main := Joining\<rparr>)"
| worker_lock: "t_worker s = Looking \<Longrightarrow> t_mutex s = None \<Longrightarrow>
    thread_step s (s\<lparr>t_mutex := Some Worker_Thread, t_worker := Holding\<rparr>)"
| worker_take: "t_worker s = Holding \<Longrightarrow> t_queue s = b # q \<Longrightarrow>
    thread_step s (s\<lparr>t_queue := q, t_worker := Leaving (Some b)\<rparr>)"
| worker_none: "t_worker s = Holding \<Longrightarrow> t_queue s = [] \<Longrightarrow> thread_step s (s\<lparr>t_worker := Leaving None\<rparr>)"
| worker_unlock: "t_worker s = Leaving b \<Longrightarrow>
    thread_step s (s\<lparr>t_mutex := None, t_worker := (case b of None \<Rightarrow> Waiting | Some b \<Rightarrow> Working b)\<rparr>)"
| worker_wake: "t_worker s = Waiting \<Longrightarrow> t_event s \<Longrightarrow> thread_step s (s\<lparr>t_event := False, t_worker := Looking\<rparr>)"
| worker_process: "t_worker s = Working b \<Longrightarrow> sb_capacity b \<noteq> 0 \<Longrightarrow>
    thread_step s (s\<lparr>t_processed := t_processed s @ [b], t_worker := Looking\<rparr>)"
| worker_end: "t_worker s = Working b \<Longrightarrow> sb_capacity b = 0 \<Longrightarrow> thread_step s (s\<lparr>t_worker := Ended\<rparr>)"

code_pred thread_step .

inductive_cases thread_stepE: "thread_step s s'"

text \<open>The event and the mutex are new and the queue is empty when the second thread starts.\<close>

definition threads_start :: "simple_buffer list \<Rightarrow> threads" where
  "threads_start bs = \<lparr>t_queue = [], t_mutex = None, t_event = False, t_main = Producing bs, t_worker = Looking, t_processed = []\<rparr>"

definition threads_reach :: "simple_buffer list \<Rightarrow> threads \<Rightarrow> bool" where
  "threads_reach bs s \<longleftrightarrow> thread_step\<^sup>*\<^sup>* (threads_start bs) s"

lemma threads_reach_induct [consumes 1, case_names start step]:
  assumes "threads_reach bs s" and "P (threads_start bs)"
    and "\<And>s s'. threads_reach bs s \<Longrightarrow> P s \<Longrightarrow> thread_step s s' \<Longrightarrow> P s'"
  shows "P s"
  using assms(1) unfolding threads_reach_def
proof (induction rule: rtranclp_induct)
  case base
  show ?case by (rule assms(2))
next
  case (step s s')
  then show ?case using assms(3) [of s s'] by (simp add: threads_reach_def)
qed

subsection \<open>Mutual exclusion\<close>

definition main_inside :: "main_pc \<Rightarrow> bool" where
  "main_inside pc = (case pc of Queueing _ \<Rightarrow> True | Unlocking _ \<Rightarrow> True | _ \<Rightarrow> False)"

definition worker_inside :: "worker_pc \<Rightarrow> bool" where
  "worker_inside pc = (case pc of Holding \<Rightarrow> True | Leaving _ \<Rightarrow> True | _ \<Rightarrow> False)"

definition mutex_ok :: "threads \<Rightarrow> bool" where
  "mutex_ok s \<longleftrightarrow> (main_inside (t_main s) \<longleftrightarrow> t_mutex s = Some Main_Thread)
     \<and> (worker_inside (t_worker s) \<longleftrightarrow> t_mutex s = Some Worker_Thread)"

lemmas inside_defs = main_inside_def worker_inside_def mutex_ok_def

lemma mutex_step: "thread_step s s' \<Longrightarrow> mutex_ok s \<Longrightarrow> mutex_ok s'"
  by (induction rule: thread_step.induct) (auto simp: inside_defs split: option.splits)

lemma mutex_reach:
  assumes "threads_reach bs s"
  shows "mutex_ok s"
  using assms
proof (induction rule: threads_reach_induct)
  case start
  show ?case by (simp add: inside_defs threads_start_def)
next
  case (step s s')
  then show ?case using mutex_step by blast
qed

subsection \<open>The buffers arrive in order\<close>

fun to_come :: "main_pc \<Rightarrow> simple_buffer list" where
  "to_come (Producing bs) = bs @ [terminator]"
| "to_come (Queueing bs) = bs @ [terminator]"
| "to_come (Unlocking bs) = bs @ [terminator]"
| "to_come (Signalling bs) = bs @ [terminator]"
| "to_come Stopping = [terminator]"
| "to_come Joining = []"

fun in_hand :: "worker_pc \<Rightarrow> simple_buffer list" where
  "in_hand (Leaving (Some b)) = [b]"
| "in_hand (Working b) = [b]"
| "in_hand Ended = [terminator]"
| "in_hand _ = []"

definition handed_over :: "simple_buffer list \<Rightarrow> threads \<Rightarrow> bool" where
  "handed_over bs s \<longleftrightarrow> t_processed s @ in_hand (t_worker s) @ t_queue s @ to_come (t_main s) = bs @ [terminator]
     \<and> (\<forall>b \<in> set (t_processed s). sb_capacity b \<noteq> 0)"

lemma only_terminator:
  assumes "as @ b # cs = bs @ [terminator]" and "sb_capacity b = 0" and "\<forall>b \<in> set bs. sb_capacity b \<noteq> 0"
  shows "b = terminator \<and> cs = [] \<and> as = bs"
proof (cases cs rule: rev_cases)
  case Nil
  then show ?thesis using assms(1) by simp
next
  case (snoc ys y)
  then have "as @ b # ys = bs" using assms(1) by simp
  then have "b \<in> set bs" by force
  then show ?thesis using assms(2,3) by blast
qed

lemma handed_over_step:
  assumes "thread_step s s'" and "handed_over bs s" and "\<forall>b \<in> set bs. sb_capacity b \<noteq> 0"
  shows "handed_over bs s'"
  using assms
proof (induction rule: thread_step.induct)
  case (worker_unlock s b)
  then show ?case by (cases b) (simp_all add: handed_over_def)
next
  case (worker_end s b)
  then have h: "t_processed s @ b # t_queue s @ to_come (t_main s) = bs @ [terminator]" by (simp add: handed_over_def)
  from only_terminator [OF h worker_end.hyps(2) worker_end.prems(2)] h worker_end.prems(1) show ?case by (simp add: handed_over_def)
qed (simp_all add: handed_over_def)

lemma handed_over_reach:
  assumes "threads_reach bs s" and "\<forall>b \<in> set bs. sb_capacity b \<noteq> 0"
  shows "handed_over bs s"
  using assms(1)
proof (induction rule: threads_reach_induct)
  case start
  show ?case by (simp add: threads_start_def handed_over_def)
next
  case (step s s')
  then show ?case using handed_over_step assms(2) by blast
qed

lemma ended_processed:
  assumes "threads_reach bs s" and "\<forall>b \<in> set bs. sb_capacity b \<noteq> 0" and "t_worker s = Ended"
  shows "t_processed s = bs"
proof -
  have "t_processed s @ terminator # (t_queue s @ to_come (t_main s)) = bs @ [terminator]"
    using handed_over_reach [OF assms(1,2)] by (simp add: handed_over_def assms(3))
  from only_terminator [OF this _ assms(2)] show ?thesis by (simp add: terminator_def)
qed

text \<open>What the second thread computes does not depend on whether the terminator is among its buffers.\<close>

lemma thread_loop_terminator:
  "\<forall>b \<in> set bs. sb_capacity b \<noteq> 0 \<Longrightarrow> thread_loop sha1 off table hashed (bs @ [terminator]) = thread_loop sha1 off table hashed bs"
  by (induction bs arbitrary: off table hashed) (simp_all add: terminator_def Let_def)

text \<open>C30. However the two threads interleave, at most one of them is inside the mutex and the second one processes the buffers
  in the order in which the first one queued them; when it ends it has processed all of them.\<close>

theorem worker_processes_in_order:
  assumes "threads_reach bs s" and "\<forall>b \<in> set bs. sb_capacity b \<noteq> 0"
  shows "\<not> (main_inside (t_main s) \<and> worker_inside (t_worker s)) \<and> (\<exists>later. t_processed s @ later = bs)
    \<and> (t_worker s = Ended \<longrightarrow> t_processed s = bs)"
proof -
  have h: "t_processed s @ in_hand (t_worker s) @ t_queue s @ to_come (t_main s) = bs @ [terminator]"
    and nt: "terminator \<notin> set (t_processed s)"
    using handed_over_reach [OF assms] unfolding handed_over_def by (blast, force simp: terminator_def)
  have "t_processed s = bs" if "t_worker s = Ended" using ended_processed [OF assms that] .
  moreover have "\<exists>later. t_processed s @ later = bs"
  proof (cases "in_hand (t_worker s) @ t_queue s @ to_come (t_main s)" rule: rev_cases)
    case Nil
    then have "t_processed s = bs @ [terminator]" using h by simp
    then show ?thesis using nt by (metis in_set_conv_decomp)
  next
    case (snoc ys y)
    have "t_processed s @ ys @ [y] = bs @ [terminator]" using h unfolding snoc .
    then have "t_processed s @ ys = bs" by (metis append_assoc butlast_snoc)
    then show ?thesis by blast
  qed
  moreover have "mutex_ok s" by (rule mutex_reach [OF assms(1)])
  then have "\<not> (main_inside (t_main s) \<and> worker_inside (t_worker s))" by (simp add: mutex_ok_def)
  ultimately show ?thesis by blast
qed

definition example_buffer :: simple_buffer where
  "example_buffer = \<lparr>sb_data = [7], sb_capacity = 1, sb_size = 1\<rparr>"

theorem worker_processes_in_order_witness:
  "\<exists>s. threads_reach [example_buffer] s \<and> t_main s = Queueing [example_buffer]
    \<and> \<not> (main_inside (t_main s) \<and> worker_inside (t_worker s)) \<and> (\<exists>later. t_processed s @ later = [example_buffer])"
proof -
  let ?s = "(threads_start [example_buffer])\<lparr>t_mutex := Some Main_Thread, t_main := Queueing [example_buffer]\<rparr>"
  have "thread_step (threads_start [example_buffer]) ?s" by (rule main_lock) (simp_all add: threads_start_def)
  then have r: "threads_reach [example_buffer] ?s" by (simp add: threads_reach_def)
  have "\<forall>b \<in> set [example_buffer]. sb_capacity b \<noteq> 0" by (simp add: example_buffer_def)
  from worker_processes_in_order [OF r this] r show ?thesis by (intro exI [of _ ?s]) simp
qed

subsection \<open>The terminator is not announced\<close>

definition threads_at :: "simple_buffer list \<Rightarrow> thread_id option \<Rightarrow> bool \<Rightarrow> main_pc \<Rightarrow> worker_pc \<Rightarrow> simple_buffer list \<Rightarrow> threads" where
  "threads_at q m e pc w d = \<lparr>t_queue = q, t_mutex = m, t_event = e, t_main = pc, t_worker = w, t_processed = d\<rparr>"

text \<open>The second thread finds the queue empty and waits.\<close>

lemma worker_finds_nothing:
  "thread_step\<^sup>*\<^sup>* (threads_at [] None e pc Looking d) (threads_at [] None e pc Waiting d)"
proof -
  have "thread_step\<^sup>*\<^sup>* (threads_at [] None e pc Looking d) (threads_at [] (Some Worker_Thread) e pc Holding d)"
    using worker_lock [of "threads_at [] None e pc Looking d"] by (simp add: threads_at_def r_into_rtranclp)
  also have "thread_step \<dots> (threads_at [] (Some Worker_Thread) e pc (Leaving None) d)"
    using worker_none [of "threads_at [] (Some Worker_Thread) e pc Holding d"] by (simp add: threads_at_def)
  also have "thread_step \<dots> (threads_at [] None e pc Waiting d)"
    using worker_unlock [of "threads_at [] (Some Worker_Thread) e pc (Leaving None) d" None] by (simp add: threads_at_def)
  finally show ?thesis by simp
qed

lemma hand_over_one:
  assumes "sb_capacity b \<noteq> 0"
  shows "thread_step\<^sup>*\<^sup>* (threads_at [] None False (Producing (b # bs)) Waiting d) (threads_at [] None False (Producing bs) Waiting (d @ [b]))"
proof -
  have "thread_step\<^sup>*\<^sup>* (threads_at [] None False (Producing (b # bs)) Waiting d)
      (threads_at [] (Some Main_Thread) False (Queueing (b # bs)) Waiting d)"
    using main_lock [of "threads_at [] None False (Producing (b # bs)) Waiting d" b bs] by (simp add: threads_at_def r_into_rtranclp)
  also have "thread_step \<dots> (threads_at [b] (Some Main_Thread) False (Unlocking bs) Waiting d)"
    using main_push [of "threads_at [] (Some Main_Thread) False (Queueing (b # bs)) Waiting d" b bs] by (simp add: threads_at_def)
  also have "thread_step \<dots> (threads_at [b] None False (Signalling bs) Waiting d)"
    using main_unlock [of "threads_at [b] (Some Main_Thread) False (Unlocking bs) Waiting d" bs] by (simp add: threads_at_def)
  also have "thread_step \<dots> (threads_at [b] None True (Producing bs) Waiting d)"
    using main_set [of "threads_at [b] None False (Signalling bs) Waiting d" bs] by (simp add: threads_at_def)
  also have "thread_step \<dots> (threads_at [b] None False (Producing bs) Looking d)"
    using worker_wake [of "threads_at [b] None True (Producing bs) Waiting d"] by (simp add: threads_at_def)
  also have "thread_step \<dots> (threads_at [b] (Some Worker_Thread) False (Producing bs) Holding d)"
    using worker_lock [of "threads_at [b] None False (Producing bs) Looking d"] by (simp add: threads_at_def)
  also have "thread_step \<dots> (threads_at [] (Some Worker_Thread) False (Producing bs) (Leaving (Some b)) d)"
    using worker_take [of "threads_at [b] (Some Worker_Thread) False (Producing bs) Holding d" b "[]"] by (simp add: threads_at_def)
  also have "thread_step \<dots> (threads_at [] None False (Producing bs) (Working b) d)"
    using worker_unlock [of "threads_at [] (Some Worker_Thread) False (Producing bs) (Leaving (Some b)) d" "Some b"] by (simp add: threads_at_def)
  also have "thread_step \<dots> (threads_at [] None False (Producing bs) Looking (d @ [b]))"
    using worker_process [of "threads_at [] None False (Producing bs) (Working b) d" b] assms by (simp add: threads_at_def)
  also note worker_finds_nothing
  finally show ?thesis by simp
qed

lemma hand_over_all:
  "\<forall>b \<in> set bs. sb_capacity b \<noteq> 0 \<Longrightarrow>
   thread_step\<^sup>*\<^sup>* (threads_at [] None False (Producing bs) Waiting d) (threads_at [] None False (Producing []) Waiting (d @ bs))"
proof (induction bs arbitrary: d)
  case (Cons b bs)
  then have "thread_step\<^sup>*\<^sup>* (threads_at [] None False (Producing (b # bs)) Waiting d) (threads_at [] None False (Producing bs) Waiting (d @ [b]))"
    by (intro hand_over_one) simp
  also have "thread_step\<^sup>*\<^sup>* \<dots> (threads_at [] None False (Producing []) Waiting ((d @ [b]) @ bs))"
    using Cons.prems by (intro Cons.IH) simp
  finally show ?case by simp
qed simp

text \<open>The second thread can also end: when it finds everything in the queue.\<close>

lemma queue_all: "thread_step\<^sup>*\<^sup>* (threads_at q None ev (Producing bs) Looking d) (threads_at (q @ bs) None (ev \<or> bs \<noteq> []) (Producing []) Looking d)"
proof (induction bs arbitrary: q ev)
  case (Cons b bs)
  have "thread_step\<^sup>*\<^sup>* (threads_at q None ev (Producing (b # bs)) Looking d) (threads_at q (Some Main_Thread) ev (Queueing (b # bs)) Looking d)"
    using main_lock [of "threads_at q None ev (Producing (b # bs)) Looking d" b bs] by (simp add: threads_at_def r_into_rtranclp)
  also have "thread_step \<dots> (threads_at (q @ [b]) (Some Main_Thread) ev (Unlocking bs) Looking d)"
    using main_push [of "threads_at q (Some Main_Thread) ev (Queueing (b # bs)) Looking d" b bs] by (simp add: threads_at_def)
  also have "thread_step \<dots> (threads_at (q @ [b]) None ev (Signalling bs) Looking d)"
    using main_unlock [of "threads_at (q @ [b]) (Some Main_Thread) ev (Unlocking bs) Looking d" bs] by (simp add: threads_at_def)
  also have "thread_step \<dots> (threads_at (q @ [b]) None True (Producing bs) Looking d)"
    using main_set [of "threads_at (q @ [b]) None ev (Signalling bs) Looking d" bs] by (simp add: threads_at_def)
  also have "thread_step\<^sup>*\<^sup>* \<dots> (threads_at ((q @ [b]) @ bs) None (True \<or> bs \<noteq> []) (Producing []) Looking d)" by (rule Cons.IH)
  finally show ?case by simp
qed simp

lemma take_one:
  "thread_step\<^sup>*\<^sup>* (threads_at (b # q) None ev Joining Looking d) (threads_at q None ev Joining (Working b) d)"
proof -
  have "thread_step\<^sup>*\<^sup>* (threads_at (b # q) None ev Joining Looking d) (threads_at (b # q) (Some Worker_Thread) ev Joining Holding d)"
    using worker_lock [of "threads_at (b # q) None ev Joining Looking d"] by (simp add: threads_at_def r_into_rtranclp)
  also have "thread_step \<dots> (threads_at q (Some Worker_Thread) ev Joining (Leaving (Some b)) d)"
    using worker_take [of "threads_at (b # q) (Some Worker_Thread) ev Joining Holding d" b q] by (simp add: threads_at_def)
  also have "thread_step \<dots> (threads_at q None ev Joining (Working b) d)"
    using worker_unlock [of "threads_at q (Some Worker_Thread) ev Joining (Leaving (Some b)) d" "Some b"] by (simp add: threads_at_def)
  finally show ?thesis .
qed

lemma work_all:
  "\<forall>b \<in> set q. sb_capacity b \<noteq> 0 \<Longrightarrow>
   thread_step\<^sup>*\<^sup>* (threads_at (q @ [terminator]) None ev Joining Looking d) (threads_at [] None ev Joining Ended (d @ q))"
proof (induction q arbitrary: d)
  case Nil
  note take_one [of terminator "[]" ev d]
  also have "thread_step (threads_at [] None ev Joining (Working terminator) d) (threads_at [] None ev Joining Ended d)"
    using worker_end [of "threads_at [] None ev Joining (Working terminator) d" terminator] by (simp add: threads_at_def terminator_def)
  finally show ?case by simp
next
  case (Cons b q)
  note take_one [of b "q @ [terminator]" ev d]
  also have "thread_step (threads_at (q @ [terminator]) None ev Joining (Working b) d) (threads_at (q @ [terminator]) None ev Joining Looking (d @ [b]))"
    using worker_process [of "threads_at (q @ [terminator]) None ev Joining (Working b) d" b] Cons.prems by (simp add: threads_at_def)
  also have "thread_step\<^sup>*\<^sup>* \<dots> (threads_at [] None ev Joining Ended ((d @ [b]) @ q))" using Cons.prems by (intro Cons.IH) simp
  finally show ?case by simp
qed

lemma worker_can_end:
  assumes "\<forall>b \<in> set bs. sb_capacity b \<noteq> 0"
  shows "\<exists>s. threads_reach bs s \<and> t_worker s = Ended"
proof -
  let ?ev = "bs \<noteq> []"
  have "thread_step\<^sup>*\<^sup>* (threads_start bs) (threads_at bs None ?ev (Producing []) Looking [])"
    using queue_all [of "[]" False bs "[]"] by (simp add: threads_start_def threads_at_def)
  also have "thread_step \<dots> (threads_at bs None ?ev Stopping Looking [])"
    using main_stop_begin [of "threads_at bs None ?ev (Producing []) Looking []"] by (simp add: threads_at_def)
  also have "thread_step \<dots> (threads_at (bs @ [terminator]) None ?ev Joining Looking [])"
    using main_stop [of "threads_at bs None ?ev Stopping Looking []"] by (simp add: threads_at_def)
  also have "thread_step\<^sup>*\<^sup>* \<dots> (threads_at [] None ?ev Joining Ended ([] @ bs))" by (rule work_all [OF assms])
  finally have "threads_reach bs (threads_at [] None ?ev Joining Ended ([] @ bs))" by (simp add: threads_reach_def)
  then show ?thesis by (intro exI [of _ "threads_at [] None ?ev Joining Ended ([] @ bs)"]) (simp add: threads_at_def)
qed

text \<open>Nor is it queued with the mutex: the two threads can be at the queue at the same time. The steps above give this race the
  outcome of some order of its two accesses; the C++ standard gives it none.\<close>

lemma request_thread_stop_can_race:
  "\<exists>s. threads_reach [] s \<and> t_main s = Stopping \<and> t_worker s = Holding \<and> t_mutex s = Some Worker_Thread"
proof -
  let ?s = "threads_at [] (Some Worker_Thread) False Stopping Holding []"
  have "thread_step\<^sup>*\<^sup>* (threads_start []) (threads_at [] None False Stopping Looking [])"
    using main_stop_begin [of "threads_start []"] by (simp add: threads_start_def threads_at_def r_into_rtranclp)
  also have "thread_step \<dots> ?s"
    using worker_lock [of "threads_at [] None False Stopping Looking []"] by (simp add: threads_at_def)
  finally have "threads_reach [] ?s" by (simp add: threads_reach_def)
  then show ?thesis by (intro exI [of _ ?s]) (simp add: threads_at_def)
qed

text \<open>C31. The terminator is queued without setting the event: when the second thread has emptied the queue and waits, both
  threads wait for ever, the buffers processed and the table not finished. This can happen for every file.\<close>

theorem request_thread_stop_can_deadlock:
  assumes "\<forall>b \<in> set bs. sb_capacity b \<noteq> 0"
  shows "\<exists>s. threads_reach bs s \<and> t_main s = Joining \<and> t_worker s = Waiting \<and> t_processed s = bs
    \<and> t_queue s = [terminator] \<and> (\<forall>s'. \<not> thread_step s s')"
proof -
  let ?s = "threads_at [terminator] None False Joining Waiting bs"
  have "thread_step\<^sup>*\<^sup>* (threads_start bs) (threads_at [] None False (Producing bs) Waiting [])"
    using worker_finds_nothing [of False "Producing bs" "[]"] by (simp add: threads_start_def threads_at_def)
  also have "thread_step\<^sup>*\<^sup>* \<dots> (threads_at [] None False (Producing []) Waiting bs)" using hand_over_all [OF assms, of "[]"] by simp
  also have "thread_step \<dots> (threads_at [] None False Stopping Waiting bs)"
    using main_stop_begin [of "threads_at [] None False (Producing []) Waiting bs"] by (simp add: threads_at_def)
  also have "thread_step \<dots> ?s"
    using main_stop [of "threads_at [] None False Stopping Waiting bs"] by (simp add: threads_at_def)
  finally have "threads_reach bs ?s" by (simp add: threads_reach_def)
  moreover have "\<not> thread_step ?s s'" for s' by (auto simp: threads_at_def elim: thread_stepE)
  ultimately show ?thesis by (intro exI [of _ ?s]) (simp add: threads_at_def)
qed

theorem request_thread_stop_can_deadlock_witness:
  "\<exists>s. threads_reach [example_buffer] s \<and> t_main s = Joining \<and> t_worker s = Waiting \<and> \<not> (\<exists>s'. thread_step s s')"
proof -
  have "\<forall>b \<in> set [example_buffer]. sb_capacity b \<noteq> 0" by (simp add: example_buffer_def)
  from request_thread_stop_can_deadlock [OF this] show ?thesis by blast
qed

end
