(* ===== verification/Comparer_Correct.thy ===== *)
theory Comparer_Correct
  imports New_Table Comparer_Search Comparer_Thread
begin

text \<open>
  What the comparison of files guarantees, for a hash without collisions between the two files. \<open>window\<close> relates the object to the new file, cut into the part that the
  commands cover, the window that the buffer holds and the rest that the reader has not delivered; the loops keep it, and when the machine ends the
  commands rebuild the file.
\<close>

subsection \<open>The window\<close>

text \<open>The bytes that commands make of the old and the new file.\<close>

definition rebuild :: "byte list \<Rightarrow> byte list \<Rightarrow> rsync_command list \<Rightarrow> byte list" where
  "rebuild old new cmds = concat (map (\<lambda>c. take (unat (get_length c)) (drop (unat (cmd_offset c)) (if copy_from_old c then old else new))) cmds)"

lemma rebuild_simps [simp]: "rebuild old new [] = []"
    "rebuild old new (cs @ ds) = rebuild old new cs @ rebuild old new ds"
  by (simp_all add: rebuild_def)

lemma rebuild_command: "command_is x off len c \<Longrightarrow> rebuild old new [c] = take len (drop off (if x then old else new))"
  by (simp add: rebuild_def command_is_fields(1,3,4))

text \<open>A command that names bytes its file has; \<open>covers\<close>: such commands, and nothing else, make up the bytes.\<close>

definition inside :: "byte list \<Rightarrow> byte list \<Rightarrow> rsync_command \<Rightarrow> bool" where
  "inside old new c \<longleftrightarrow> get_length c \<noteq> 0
     \<and> unat (cmd_offset c) + unat (get_length c) \<le> length (if copy_from_old c then old else new)"

definition covers :: "byte list \<Rightarrow> byte list \<Rightarrow> rsync_command list \<Rightarrow> byte list \<Rightarrow> bool" where
  "covers old new cmds bytes \<longleftrightarrow> (\<forall>c \<in> set cmds. inside old new c) \<and> rebuild old new cmds = bytes"

text \<open>The commands without the last \<open>e\<close> bytes that the last of them announces.\<close>

definition shorten_last :: "nat \<Rightarrow> rsync_command list \<Rightarrow> rsync_command list" where
  "shorten_last e cmds = (if e = 0 then cmds else butlast cmds @ [(last cmds)\<lparr>cmd_length := cmd_length (last cmds) - word_of_nat e\<rparr>])"

lemma covers_Nil [simp]: "covers old new [] bytes \<longleftrightarrow> bytes = []"
  by (auto simp: covers_def)

lemma covers_snoc:
  assumes "covers old new cs bytes" and c: "command_is x off len c" and "0 < len" and "off + len \<le> length (if x then old else new)"
  shows "covers old new (cs @ [c]) (bytes @ take len (drop off (if x then old else new)))"
  using assms(1,3,4) rebuild_command [OF c, of old new] command_is_fields [OF c]
  by (auto simp: covers_def inside_def)

text \<open>No block of the old file has the hash of a different part of the new one.\<close>

definition no_collision :: "(byte list \<Rightarrow> byte list) \<Rightarrow> nat \<Rightarrow> byte list \<Rightarrow> byte list \<Rightarrow> bool" where
  "no_collision sha1 bs old new \<longleftrightarrow> (\<forall>k < length old. \<forall>i m. sha1 (take bs (drop k old)) = sha1 (take m (drop i new))
     \<longrightarrow> take bs (drop k old) = take m (drop i new))"

record comparison =
  old_content :: "byte list"
  new_content :: "byte list"
  old_table :: rsyncable_file
  old_bs :: nat
  new_bs :: nat

definition comparison_ok :: "os_read \<Rightarrow> (byte list \<Rightarrow> byte list) \<Rightarrow> comparison \<Rightarrow> bool" where
  "comparison_ok os_read sha1 p \<longleftrightarrow> file_reads os_read (new_content p)
     \<and> length (new_content p) + old_bs p < 2 ^ 62 \<and> length (old_content p) < 2 ^ 62 \<and> 0 < old_bs p
     \<and> rf_rsync_table (old_table p) = sort (file_items sha1 (old_bs p) 0 (old_content p))
     \<and> rf_bitmap (old_table p) = init_bitmap (rf_rsync_table (old_table p)) \<and> rf_block_size (old_table p) = word_of_nat (old_bs p)
     \<and> no_collision sha1 (old_bs p) (old_content p) (new_content p)"

definition window :: "os_read \<Rightarrow> comparison \<Rightarrow> byte list \<Rightarrow> byte list \<Rightarrow> byte list \<Rightarrow> file_comparer \<Rightarrow> bool" where
  "window os_read p D W R c \<longleftrightarrow> D @ W @ R = new_content p \<and> W \<noteq> [] \<and> (length W < old_bs p \<longrightarrow> R = [])
     \<and> cb_ok (fc_buffer c) \<and> cb_capacity (fc_buffer c) = old_bs p \<and> cb_contents (fc_buffer c) = W \<and> fc_checksum c = rolling_of W
     \<and> bb_ok os_read (new_content p) (fc_reader c) \<and> bb_ready (new_content p) (fc_reader c)
     \<and> bb_rest (new_content p) (fc_reader c) = R \<and> br_block_size (fc_reader c) = old_bs p
     \<and> buffers_ok (new_bs p) c \<and> collected c = D @ W \<and> fc_old_file c = old_table p"

text \<open>The control part of the object, which reading leaves alone.\<close>

definition same_control :: "file_comparer \<Rightarrow> file_comparer \<Rightarrow> bool" where
  "same_control c c' \<longleftrightarrow> fc_state c' = fc_state c \<and> fc_result c' = fc_result c \<and> fc_new_offset c' = fc_new_offset c
     \<and> fc_old_offset c' = fc_old_offset c"

lemma window_control [simp]:
  "window os_read p D W R (c\<lparr>fc_state := st\<rparr>) = window os_read p D W R c"
  "window os_read p D W R (c\<lparr>fc_result := cmds\<rparr>) = window os_read p D W R c"
  "window os_read p D W R (c\<lparr>fc_new_offset := off\<rparr>) = window os_read p D W R c"
  "window os_read p D W R (c\<lparr>fc_old_offset := off\<rparr>) = window os_read p D W R c"
  by (simp_all add: window_def buffers_ok_def collected_def)

lemma read_more_data_ok:
  assumes "comparison_ok os_read sha1 p" and "bb_ok os_read (new_content p) (fc_reader c)" and "br_block_size (fc_reader c) = old_bs p"
    and "length (cb_buffer (fc_buffer c)) = cb_capacity (fc_buffer c)" and "buffers_ok (new_bs p) c"
    and "collected c @ bb_rest (new_content p) (fc_reader c) = new_content p" and "fc_old_file c = old_table p"
    and "read_more_data os_read fresh c = (ret, c')"
  shows "ret = Inr (bb_rest (new_content p) (fc_reader c) \<noteq> []) \<and> same_control c c'
    \<and> (if bb_rest (new_content p) (fc_reader c) = [] then buffers_ok (new_bs p) c' \<and> collected c' = collected c
       else window os_read p (collected c) (take (old_bs p) (bb_rest (new_content p) (fc_reader c)))
              (drop (old_bs p) (bb_rest (new_content p) (fc_reader c))) c')"
proof -
  let ?R = "bb_rest (new_content p) (fc_reader c)"
  obtain ret1 buffer reader where w: "bb_whole_block os_read fresh (fc_buffer c) (fc_reader c) = (ret1, buffer, reader)"
    by (cases "bb_whole_block os_read fresh (fc_buffer c) (fc_reader c)")
  note b = bb_whole_block_ok [OF assms(2,4) w, unfolded assms(3)]
  define c1 where "c1 = c\<lparr>fc_reader := reader, fc_buffer := buffer\<rparr>"
  have ok1: "buffers_ok (new_bs p) c1" "collected c1 = collected c" using assms(5) by (simp_all add: c1_def buffers_ok_def collected_def)
  show ?thesis
  proof (cases "?R = []")
    case True
    then have "ret1 = Inr False" using b by simp
    then have "ret = Inr False" "c' = c1"
      using assms(8) w by (simp_all add: read_more_data_def read_another_block_def c1_def)
    then show ?thesis using True ok1 by (simp add: same_control_def c1_def)
  next
    case False
    have bs: "0 < old_bs p" using assms(1) by (simp add: comparison_ok_def)
    have f: "filling (old_bs p) buffer" "cb_contents buffer = take (old_bs p) ?R" using b False by simp_all
    have flat: "cb_flat buffer" "cb_ok buffer" "cb_capacity buffer = old_bs p"
      using f(1) bs cb_flat_ok [of buffer] by (simp_all add: filling_def)
    define c2 where "c2 = add_block fresh buffer c1"
    have a: "buffers_ok (new_bs p) c2" "collected c2 = collected c @ cb_contents buffer" "only_buffers c1 c2"
      using add_block_ok [OF ok1(1) flat(1), of fresh] ok1(2) by (simp_all add: c2_def)
    note fields = only_buffers_fields [OF a(3)]
    have fb: "fc_buffer c2 = buffer" "fc_reader c2 = reader" "fc_old_file c2 = old_table p"
      using fields assms(7) by (simp_all add: c1_def)
    have e: "ret = Inr True" "c' = c2\<lparr>fc_checksum := cb_rolling_checksum buffer\<rparr>"
      using assms(8) b w False fb(1) by (simp_all add: read_more_data_def read_another_block_def c2_def c1_def)
    have "window os_read p (collected c) (take (old_bs p) ?R) (drop (old_bs p) ?R) c'"
      unfolding window_def e using f(2) flat b fb a(1,2) False bs assms(6)
      by (simp add: cb_rolling_checksum_contents buffers_ok_def collected_def)
    then show ?thesis using False e(1) fields by (simp add: same_control_def e(2) c1_def)
  qed
qed

text \<open>The window moves by one byte.\<close>

lemma non_matching_read_ok:
  assumes "window os_read p D (w # ws) R c" and "non_matching_read_more_data os_read fresh c = (ret, c')"
  shows "ret = Inr (ws @ take 1 R \<noteq> []) \<and> same_control c c'
    \<and> (if ws @ take 1 R = [] then buffers_ok (new_bs p) c' \<and> collected c' = new_content p
       else window os_read p (D @ [w]) (ws @ take 1 R) (drop 1 R) c')"
proof -
  have win: "D @ (w # ws) @ R = new_content p" "length (w # ws) < old_bs p \<longrightarrow> R = []" "cb_ok (fc_buffer c)"
    "cb_capacity (fc_buffer c) = old_bs p" "cb_contents (fc_buffer c) = w # ws" "fc_checksum c = rolling_of (w # ws)"
    "bb_ok os_read (new_content p) (fc_reader c)" "bb_ready (new_content p) (fc_reader c)"
    "bb_rest (new_content p) (fc_reader c) = R" "br_block_size (fc_reader c) = old_bs p"
    "buffers_ok (new_bs p) c" "collected c = D @ w # ws" "fc_old_file c = old_table p"
    using assms(1) by (simp_all add: window_def)
  obtain b buffer where pop: "cb_pop (fc_buffer c) = (b, buffer)" by fastforce
  have q: "b = w" "cb_contents buffer = ws" "cb_ok buffer" "cb_capacity buffer = old_bs p"
    using cb.pop_step [OF win(3) pop] win(4,5) by auto
  have sz: "cb_size (fc_buffer c) = length ws + 1" using arg_cong [OF win(5), of length] by simp
  have sub: "subtract_rsync_rolling_checksum (fc_checksum c) b (word_of_nat (cb_size (fc_buffer c))) = rolling_of ws"
    unfolding sz win(6) q(1) by (rule subtract_rolling_eq)
  define c1 where "c1 = c\<lparr>fc_buffer := buffer, fc_checksum := rolling_of ws\<rparr>"
  obtain ret1 reader where nb: "bb_next_byte os_read fresh (fc_reader c) = (ret1, reader)" by fastforce
  note n = bb_next_byte_ok [OF win(7,8) nb, unfolded win(9,10)]
  have r1: "fc_reader c1 = fc_reader c" by (simp add: c1_def)
  have sizes: "cb_size buffer = 0 \<longleftrightarrow> ws = []" using q(2) by (simp flip: cb_contents_empty)
  show ?thesis
  proof (cases R)
    case Nil
    define c2 where "c2 = c1\<lparr>fc_reader := reader\<rparr>"
    have r: "ret1 = Inr None" "bb_rest (new_content p) reader = []" "bb_ok os_read (new_content p) reader" "bb_ready (new_content p) reader"
      "br_block_size reader = old_bs p" using n Nil by simp_all
    have e: "ret = Inr (ws \<noteq> [])" "c' = c2"
      using assms(2) sizes unfolding non_matching_read_more_data_def pop read_another_byte_def
      by (simp_all add: sub nb r(1) c1_def c2_def Let_def split: if_split_asm)
    have "buffers_ok (new_bs p) c2" "collected c2 = D @ w # ws" using win(11,12) by (simp_all add: c2_def c1_def buffers_ok_def collected_def)
    then show ?thesis using Nil e(1) r q win by (auto simp: e(2) window_def same_control_def c2_def c1_def)
  next
    case (Cons y ys)
    then have full: "length (w # ws) = old_bs p" using win(2) cb.within [OF win(3)] win(4,5) by auto
    define c2 where "c2 = add_byte fresh y (c1\<lparr>fc_reader := reader\<rparr>)"
    have r: "ret1 = Inr (Some y)" "bb_rest (new_content p) reader = ys" "bb_ok os_read (new_content p) reader" "bb_ready (new_content p) reader"
      "br_block_size reader = old_bs p" using n Cons by simp_all
    have "buffers_ok (new_bs p) (c1\<lparr>fc_reader := reader\<rparr>)" "collected (c1\<lparr>fc_reader := reader\<rparr>) = D @ w # ws"
      using win(11,12) by (simp_all add: c1_def buffers_ok_def collected_def)
    then have a: "buffers_ok (new_bs p) c2" "collected c2 = D @ w # ws @ [y]" "only_buffers (c1\<lparr>fc_reader := reader\<rparr>) c2"
      using add_byte_ok [of "new_bs p" "c1\<lparr>fc_reader := reader\<rparr>" fresh y] by (simp_all add: c2_def)
    note fields = only_buffers_fields [OF a(3)]
    have f2: "fc_buffer c2 = buffer" "fc_checksum c2 = rolling_of ws" "fc_reader c2 = reader" "fc_old_file c2 = old_table p"
      using fields win(13) by (simp_all add: c1_def)
    obtain b' buffer' where push: "cb_push y buffer = (b', buffer')" by fastforce
    have q': "cb_contents buffer' = ws @ [y]" "cb_ok buffer'" "cb_capacity buffer' = old_bs p"
      using cb.push_step [OF q(3) push] q(2,4) full by (auto split: if_splits)
    define c3 where "c3 = c2\<lparr>fc_buffer := buffer', fc_checksum := rolling_of (ws @ [y])\<rparr>"
    have e: "ret = Inr True" "c' = c3"
      using assms(2) unfolding non_matching_read_more_data_def pop read_another_byte_def
      by (simp_all add: sub nb r(1) f2 push add_rolling_eq c3_def c2_def [symmetric] c1_def [symmetric] Let_def)
    have "buffers_ok (new_bs p) c3" "collected c3 = (D @ [w]) @ ws @ [y]" using a by (simp_all add: c3_def buffers_ok_def collected_def)
    moreover have "same_control c c3" using fields by (simp add: same_control_def c3_def c1_def)
    ultimately show ?thesis using Cons e(1) r q' f2 full win(1) by (simp add: e(2) window_def c3_def)
  qed
qed

text \<open>What a successful search means: the window is a block of the old file.\<close>

lemma search_window:
  assumes ok: "comparison_ok os_read sha1 p" and win: "window os_read p D W R c" and s: "search sha1 ov t c = (found, c')"
  shows "\<not> found \<Longrightarrow> c' = c"
    and "found \<Longrightarrow> \<exists>k < length (old_content p). take (old_bs p) (drop k (old_content p)) = W \<and> c' = c\<lparr>fc_old_offset := word_of_nat k\<rparr>"
proof -
  have table: "table_ok (fc_old_file c)" "cb_ok (fc_buffer c)" using ok win by (simp_all add: table_ok_def comparison_ok_def window_def)
  note cases = search_cases [OF table s]
  show "\<not> found \<Longrightarrow> c' = c" by (rule cases(2))
  assume found
  with cases(3) obtain a where a: "matches sha1 c a" "c' = c\<lparr>fc_old_offset := item_offset a\<rparr>" by blast
  have "a \<in> set (file_items sha1 (old_bs p) 0 (old_content p))" "complex_hash a = sha1 W"
    using a(1) ok win by (simp_all add: matches_def comparison_ok_def window_def)
  then obtain k where k: "k < length (old_content p)" "item_offset a = word_of_nat k"
    "complex_hash a = sha1 (take (old_bs p) (drop k (old_content p)))"
    using file_items_block [of a sha1 "old_bs p" 0 "old_content p"] by auto
  have "W = take (length W) (drop (length D) (new_content p))" 
  proof -
    have n: "new_content p = D @ W @ R" using win by (simp add: window_def)
    show ?thesis unfolding n by simp
  qed
  moreover have "sha1 (take (old_bs p) (drop k (old_content p))) = sha1 W" using k(3) \<open>complex_hash a = sha1 W\<close> by simp
  ultimately have "take (old_bs p) (drop k (old_content p)) = W"
    using ok k(1) unfolding comparison_ok_def no_collision_def by metis
  then show "\<exists>k < length (old_content p). take (old_bs p) (drop k (old_content p)) = W \<and> c' = c\<lparr>fc_old_offset := word_of_nat k\<rparr>"
    using k(1,2) a(2) by auto
qed

subsection \<open>The loops\<close>

text \<open>A machine that has ended, and one that is about to look at the window \<open>W\<close> after the commands have covered \<open>D\<close>.\<close>

text \<open>A match counts as a whole block, so the last command can announce \<open>e\<close> bytes that neither file has. The
  debug build stops there.\<close>

definition announced :: "nat \<Rightarrow> byte list \<Rightarrow> byte list \<Rightarrow> rsync_command list \<Rightarrow> bool" where
  "announced e old new cmds \<longleftrightarrow> covers old new (shorten_last e cmds) new
     \<and> (e \<noteq> 0 \<longrightarrow> cmds \<noteq> [] \<and> copy_from_old (last cmds) \<and> e < unat (get_length (last cmds))
          \<and> unat (cmd_offset (last cmds)) + unat (get_length (last cmds)) = length old + e)"

definition finished :: "comparison \<Rightarrow> nat \<Rightarrow> file_comparer \<Rightarrow> bool" where
  "finished p e c \<longleftrightarrow> fc_state c = Final \<and> announced e (old_content p) (new_content p) (fc_result c) \<and> e < old_bs p
     \<and> buffers_ok (new_bs p) c \<and> collected c = new_content p"

definition at_window :: "os_read \<Rightarrow> comparison \<Rightarrow> byte list \<Rightarrow> byte list \<Rightarrow> byte list \<Rightarrow> file_comparer \<Rightarrow> bool" where
  "at_window os_read p D W R c \<longleftrightarrow> window os_read p D W R c
     \<and> covers (old_content p) (new_content p) (fc_result c) D \<and> fc_new_offset c = word_of_nat (length D)
     \<and> (fc_state c = NonMatching \<or> fc_state c = Matching \<and> (\<exists>k < length (old_content p).
          fc_old_offset c = word_of_nat k \<and> take (old_bs p) (drop k (old_content p)) = W))"

text \<open>The outcome of a loop that started with \<open>n\<close> bytes left, and what the debug build makes of it.\<close>

definition progress :: "os_read \<Rightarrow> comparison \<Rightarrow> nat \<Rightarrow> nat \<Rightarrow> file_comparer \<Rightarrow> bool" where
  "progress os_read p n e c \<longleftrightarrow> finished p e c \<or> e = 0 \<and> (\<exists>D W R. at_window os_read p D W R c \<and> length (W @ R) < n)"

definition debug_outcome :: "nat \<Rightarrow> file_comparer \<Rightarrow> ((comparer_stop + unit) \<times> file_comparer) option \<Rightarrow> bool" where
  "debug_outcome e c r \<longleftrightarrow> (if e = 0 then r = Some (Inr (), c) else \<exists>c'. r = Some (Inl Debug_break, c'))"

definition both_builds :: "os_read \<Rightarrow> comparison \<Rightarrow> nat \<Rightarrow> (bool \<Rightarrow> ((comparer_stop + unit) \<times> file_comparer) option) \<Rightarrow> bool" where
  "both_builds os_read p n run \<longleftrightarrow> (\<exists>c' e. run False = Some (Inr (), c') \<and> progress os_read p n e c' \<and> debug_outcome e c' (run True))"

lemma both_buildsI:
  "progress os_read p n 0 c' \<Longrightarrow> (\<And>dbg. run dbg = Some (Inr (), c')) \<Longrightarrow> both_builds os_read p n run"
  unfolding both_builds_def debug_outcome_def by (intro exI [of _ c'] exI [of _ 0]) simp

lemma progress_mono: "progress os_read p m e c \<Longrightarrow> m \<le> n \<Longrightarrow> progress os_read p n e c"
  unfolding progress_def by (meson less_le_trans)

lemma both_builds_mono: "both_builds os_read p m run \<Longrightarrow> m \<le> n \<Longrightarrow> both_builds os_read p n run"
  unfolding both_builds_def using progress_mono by blast

lemma progressI: "at_window os_read p D W R c \<Longrightarrow> length (W @ R) < n \<Longrightarrow> progress os_read p n 0 c"
  unfolding progress_def by blast

lemma window_read:
  assumes ok: "comparison_ok os_read sha1 p" and win: "window os_read p D W R c"
    and r: "read_more_data os_read fresh c = (ret, c')"
  shows "ret = Inr (R \<noteq> []) \<and> same_control c c'
    \<and> (if R = [] then buffers_ok (new_bs p) c' \<and> collected c' = new_content p
       else window os_read p (D @ W) (take (old_bs p) R) (drop (old_bs p) R) c')"
proof -
  have w: "bb_ok os_read (new_content p) (fc_reader c)" "br_block_size (fc_reader c) = old_bs p" "buffers_ok (new_bs p) c"
    "fc_old_file c = old_table p" "bb_rest (new_content p) (fc_reader c) = R" "collected c = D @ W" "cb_ok (fc_buffer c)"
    "D @ W @ R = new_content p"
    using win by (simp_all add: window_def)
  have b: "length (cb_buffer (fc_buffer c)) = cb_capacity (fc_buffer c)" using w(7) by (simp add: cb_ok_def)
  have col: "collected c @ bb_rest (new_content p) (fc_reader c) = new_content p" using w(5,6,8) by simp
  show ?thesis using read_more_data_ok [OF ok w(1,2) b w(3) col w(4) r] w(5,6,8) by auto
qed

text \<open>The command that the loop extends: \<open>D1\<close> is what it covers so far.\<close>

definition matched :: "comparison \<Rightarrow> file_comparer \<Rightarrow> rsync_command list \<Rightarrow> rsync_command \<Rightarrow> nat \<Rightarrow> byte list \<Rightarrow> byte list \<Rightarrow> byte list \<Rightarrow> bool" where
  "matched p c cs l off D D1 W \<longleftrightarrow> fc_result c = cs @ [l] \<and> command_is True off (length D1) l
     \<and> (\<exists>C. covers (old_content p) (new_content p) cs C \<and> C @ D1 = D) \<and> take (length D1) (drop off (old_content p)) = D1
     \<and> off + length D1 < length (old_content p) \<and> take (old_bs p) (drop (off + length D1) (old_content p)) = W
     \<and> fc_new_offset c = word_of_nat (length D)"

lemma matched_covers:
  assumes "matched p c cs l off D D1 W" and "W \<noteq> []" and "command_is True off (length (D1 @ W)) l'"
  shows "covers (old_content p) (new_content p) (cs @ [l']) (D @ W)" and "off + length (D1 @ W) \<le> length (old_content p)"
    and "take (length (D1 @ W)) (drop off (old_content p)) = D1 @ W"
    and "length W < old_bs p \<Longrightarrow> off + length (D1 @ W) = length (old_content p)"
proof -
  have m: "take (length D1) (drop off (old_content p)) = D1" "off + length D1 < length (old_content p)"
    "take (old_bs p) (drop (off + length D1) (old_content p)) = W" using assms(1) by (simp_all add: matched_def)
  obtain C where C: "covers (old_content p) (new_content p) cs C" "C @ D1 = D" using assms(1) unfolding matched_def by blast
  have len: "length W = min (old_bs p) (length (old_content p) - (off + length D1))" using arg_cong [OF m(3), of length] by simp
  then show le: "off + length (D1 @ W) \<le> length (old_content p)" using m(2) by simp
  show "length W < old_bs p \<Longrightarrow> off + length (D1 @ W) = length (old_content p)" using len m(2) by simp
  have "take (length W) (drop (off + length D1) (old_content p)) = W" using m(3) by (metis append_take_drop_id append_eq_conv_conj)
  then show grow: "take (length (D1 @ W)) (drop off (old_content p)) = D1 @ W"
    unfolding length_append take_add using m(1) by (simp add: add.commute)
  from covers_snoc [OF C(1) assms(3), of] le assms(2) grow C(2) show "covers (old_content p) (new_content p) (cs @ [l']) (D @ W)"
    by (metis append.assoc length_greater_0_conv append_is_Nil_conv)
qed

text \<open>The last block of the old file may be short; then the loop ends.\<close>

lemma matched_short:
  assumes m: "matched p c cs l off D D1 W" and W: "W \<noteq> []" "length W \<le> old_bs p"
    and l': "l' = l\<lparr>cmd_length := cmd_length l + word_of_nat (old_bs p)\<rparr>" and bound: "length D1 + old_bs p < 2 ^ 63"
    and new: "D @ W = new_content p"
  shows "announced (old_bs p - length W) (old_content p) (new_content p) (cs @ [l'])"
proof -
  have cmd: "command_is True off (length D1) l" using m by (simp add: matched_def)
  have c1: "command_is True off (length D1 + old_bs p) l'" unfolding l' by (rule command_extend [OF cmd bound])
  have "command_is True off (length (D1 @ W)) (l\<lparr>cmd_length := cmd_length l + word_of_nat (length W)\<rparr>)"
    unfolding length_append by (rule command_extend [OF cmd]) (use bound W(2) in simp)
  note cov = matched_covers [OF m W(1) this]
  show ?thesis
  proof (cases "length W = old_bs p")
    case True
    then show ?thesis using cov(1) by (simp add: announced_def shorten_last_def l' new)
  next
    case False
    have "word_of_nat (old_bs p) - word_of_nat (old_bs p - length W) = (word_of_nat (length W) :: u64)"
      using W(2) by (simp add: of_nat_diff)
    then have "shorten_last (old_bs p - length W) (cs @ [l']) = cs @ [l\<lparr>cmd_length := cmd_length l + word_of_nat (length W)\<rparr>]"
      using False W(2) by (simp add: shorten_last_def l' add_diff_eq [symmetric])
    then have "covers (old_content p) (new_content p) (shorten_last (old_bs p - length W) (cs @ [l'])) (new_content p)"
      using cov(1) by (simp add: new)
    moreover have "off + (length D1 + old_bs p) = length (old_content p) + (old_bs p - length W)"
      using cov(4) False W(2) by simp
    moreover have "old_bs p - length W < length D1 + old_bs p" using W by (cases W) simp_all
    ultimately show ?thesis using command_is_fields [OF c1] by (simp add: announced_def)
  qed
qed

lemma matching_loop_ok:
  assumes ok: "comparison_ok os_read sha1 p"
    and "window os_read p D W R c" and "matched p c cs l off D D1 W" and "length (W @ R) \<le> fuel"
  shows "both_builds os_read p (length (W @ R)) (\<lambda>dbg. matching_loop dbg os_read fresh sha1 fuel c)"
  using assms(2-)
proof (induction fuel arbitrary: D W R c cs l off D1)
  case 0
  then show ?case by (simp add: window_def)
next
  case (Suc fuel)
  note win = Suc.prems(1) and m = Suc.prems(2) and fuel = Suc.prems(3)
  have res: "fc_result c = cs @ [l]" and cmd: "command_is True off (length D1) l" and no: "fc_new_offset c = word_of_nat (length D)"
    and blk: "off + length D1 < length (old_content p)" "take (old_bs p) (drop (off + length D1) (old_content p)) = W"
    using m by (simp_all add: matched_def)
  obtain C where C: "covers (old_content p) (new_content p) cs C" "C @ D1 = D" using m unfolding matched_def by blast
  have bounds: "length (new_content p) + old_bs p < 2 ^ 62" "length (old_content p) < 2 ^ 62" "0 < old_bs p"
    "rf_block_size (old_table p) = word_of_nat (old_bs p)" using ok by (simp_all add: comparison_ok_def)
  have split: "D @ W @ R = new_content p" "W \<noteq> []" "length W < old_bs p \<longrightarrow> R = []" "length W \<le> old_bs p" "fc_old_file c = old_table p"
    "cb_contents (fc_buffer c) = W"
    using win arg_cong [OF blk(2), of length] by (simp_all add: window_def)
  have lenD: "length D1 + old_bs p < 2 ^ 63" using arg_cong [OF split(1), of length] arg_cong [OF C(2), of length] bounds(1) by simp
  have bs: "unat (word_of_nat (old_bs p) :: u64) = old_bs p" using bounds(1) by (simp add: unat_of_nat)
  have inc: "matching_increment dbg c = (if dbg \<and> old_bs p \<noteq> length W then None else Some (word_of_nat (old_bs p)))" for dbg
    using arg_cong [OF split(6), of length] by (simp add: matching_increment_def split(5) bounds(4) bs)
  define l' where "l' = l\<lparr>cmd_length := cmd_length l + word_of_nat (old_bs p)\<rparr>"
  have cmd': "command_is True off (length D1 + old_bs p) l'" unfolding l'_def using command_extend [OF cmd lenD] .
  define c1 where "c1 = extend_last (word_of_nat (old_bs p)) (c\<lparr>fc_new_offset := fc_new_offset c + word_of_nat (old_bs p)\<rparr>)"
  have c1: "c1 = c\<lparr>fc_new_offset := fc_new_offset c + word_of_nat (old_bs p), fc_result := cs @ [l']\<rparr>"
    by (simp add: c1_def extend_last_def res l'_def)
  have win1: "window os_read p D W R c1" unfolding c1 using win by simp
  obtain ret c2 where rd: "read_more_data os_read fresh c1 = (ret, c2)" by fastforce
  note r = window_read [OF ok win1 rd]
  have same: "fc_state c2 = fc_state c" "fc_result c2 = cs @ [l']" "fc_new_offset c2 = fc_new_offset c + word_of_nat (old_bs p)"
    using r by (simp_all add: same_control_def c1)
  show ?case
  proof (cases "R = []")
    case True
    let ?e = "old_bs p - length W"
    have e: "matching_loop dbg os_read fresh sha1 (Suc fuel) c =
        (if dbg \<and> old_bs p \<noteq> length W then Some (Inl Debug_break, c) else Some (Inr (), c2\<lparr>fc_state := Final\<rparr>))" for dbg
      using r rd True by (simp add: Let_def inc flip: c1_def)
    have "D @ W = new_content p" using split(1) True by simp
    from matched_short [OF m split(2,4) l'_def lenD this] have "finished p ?e (c2\<lparr>fc_state := Final\<rparr>)"
      using True r same split(2) bounds(3) by (simp add: finished_def buffers_ok_def collected_def)
    then show ?thesis unfolding both_builds_def e debug_outcome_def using split(4)
      by (intro exI [of _ "c2\<lparr>fc_state := Final\<rparr>"] exI [of _ ?e]) (auto simp: progress_def)
  next
    case False
    then have full: "length W = old_bs p" using split(3,4) by linarith
    let ?W = "take (old_bs p) R" and ?R = "drop (old_bs p) R"
    have win2: "window os_read p (D @ W) ?W ?R c2" using r False by simp
    have less: "length (?W @ ?R) < length (W @ R)" using split(2) by simp
    have off2: "fc_new_offset c2 = word_of_nat (length (D @ W))" using same(3) no full by simp
    have "command_is True off (length (D1 @ W)) l'" using cmd' full by simp
    note cov = matched_covers [OF m split(2) this]
    define target where "target = cmd_offset (last (fc_result c2)) + get_length (last (fc_result c2))"
    have target: "target = word_of_nat (off + length (D1 @ W))"
      using command_is_fields(2) [OF cmd'] cmd' full by (simp add: target_def same(2) command_is_def)
    have bound_off: "off + length (D1 @ W) < 2 ^ 64" using cov(2) bounds by simp
    obtain found c3 where s: "search sha1 True target c2 = (found, c3)" by fastforce
    have step: "matching_loop dbg os_read fresh sha1 (Suc fuel) c =
        (if \<not> found then Some (Inr (), c3\<lparr>fc_state := NonMatching\<rparr>)
         else if fc_old_offset c3 \<noteq> target
         then matching_loop dbg os_read fresh sha1 fuel (push_command True (fc_old_offset c3) c3)
         else matching_loop dbg os_read fresh sha1 fuel c3)" for dbg
      using r rd s False full by (simp add: Let_def inc flip: c1_def target_def)
    show ?thesis
    proof (cases found)
      case notfound: False
      then have "c3 = c2" using search_window(1) [OF ok win2 s] by simp
      then have "at_window os_read p (D @ W) ?W ?R (c3\<lparr>fc_state := NonMatching\<rparr>)"
        using win2 same cov(1) off2 by (simp add: at_window_def)
      from both_buildsI [OF progressI [OF this less]] show ?thesis using notfound step by simp
    next
      case True
      obtain k where k: "k < length (old_content p)" "take (old_bs p) (drop k (old_content p)) = ?W" "c3 = c2\<lparr>fc_old_offset := word_of_nat k\<rparr>"
        using search_window(2) [OF ok win2 s True] by blast
      have win3: "window os_read p (D @ W) ?W ?R c3" using win2 by (simp add: k(3))
      have f3: "fc_result c3 = cs @ [l']" "fc_new_offset c3 = word_of_nat (length (D @ W))" "fc_old_offset c3 = word_of_nat k"
        using same off2 by (simp_all add: k(3))
      have fuel': "length (?W @ ?R) \<le> fuel" using less fuel by linarith
      show ?thesis
      proof (cases "fc_old_offset c3 = target")
        case same_place: True
        then have "unat (word_of_nat k :: u64) = unat (word_of_nat (off + length (D1 @ W)) :: u64)" using f3(3) target by simp
        then have k': "k = off + length (D1 @ W)" using bound_off k(1) bounds(2) by (simp only: unat_of_nat) simp
        have "matched p c3 cs l' off (D @ W) (D1 @ W) ?W"
          unfolding matched_def using f3(1,2) cmd' full C cov(3) k(1,2) k' by (auto intro!: exI [of _ C])
        from Suc.IH [OF win3 this fuel'] both_builds_mono [OF _ less_imp_le [OF less]] show ?thesis
          unfolding step using True same_place by (simp del: matching_loop.simps)
      next
        case elsewhere: False
        define new where "new = set_copy_from_old True \<lparr>cmd_offset = word_of_nat k, cmd_length = 0\<rparr>"
        define c4 where "c4 = push_command True (fc_old_offset c3) c3"
        have c4: "c4 = c3\<lparr>fc_result := (cs @ [l']) @ [new]\<rparr>" by (simp add: c4_def push_command_def f3 new_def)
        have win4: "window os_read p (D @ W) ?W ?R c4" using win3 by (simp add: c4)
        have "command_is True k (length []) new" using command_new [of k True] k(1) bounds(2) by (simp add: new_def)
        then have "matched p c4 (cs @ [l']) new k (D @ W) [] ?W"
          unfolding matched_def using cov(1) k(1,2) f3(2) by (simp add: c4)
        from Suc.IH [OF win4 this fuel'] both_builds_mono [OF _ less_imp_le [OF less]] show ?thesis
          unfolding step using True elsewhere by (simp add: c4_def del: matching_loop.simps)
      qed
    qed
  qed
qed

lemma non_matching_loop_ok:
  assumes ok: "comparison_ok os_read sha1 p"
    and "window os_read p D W R c" and "fc_result c = cs @ [l]" and "covers (old_content p) (new_content p) cs C" and "D = C @ D1"
    and "command_is False (length C) (length D1) l" and "fc_new_offset c = word_of_nat (length D)" and "length (W @ R) \<le> fuel"
  shows "\<exists>c'. non_matching_loop os_read fresh sha1 fuel c = Some (Inr (), c') \<and> progress os_read p (length (W @ R)) 0 c'"
  using assms(2-)
proof (induction fuel arbitrary: D W R c l D1)
  case 0
  then show ?case by (simp add: window_def)
next
  case (Suc fuel)
  note win = Suc.prems(1) and res = Suc.prems(2) and cov = Suc.prems(3,4) and cmd = Suc.prems(5) and no = Suc.prems(6) and fuel = Suc.prems(7)
  obtain w ws where W: "W = w # ws" using win by (auto simp: window_def neq_Nil_conv)
  have split: "new_content p = D @ w # ws @ R" using win by (simp add: window_def W)
  have "length (new_content p) < 2 ^ 62" using ok by (simp add: comparison_ok_def)
  then have lenD: "length D1 + 1 < 2 ^ 63" using split cov(2) by simp
  define l' where "l' = l\<lparr>cmd_length := cmd_length l + word_of_nat 1\<rparr>"
  have cmd': "command_is False (length C) (length (D1 @ [w])) l'" unfolding l'_def using command_extend [OF cmd lenD] by simp
  have cov': "covers (old_content p) (new_content p) (cs @ [l']) (D @ [w])"
    using covers_snoc [OF cov(1) cmd'] cov(2) split by simp
  define c1 where "c1 = extend_last non_matching_increment (c\<lparr>fc_new_offset := fc_new_offset c + non_matching_increment\<rparr>)"
  have c1: "c1 = c\<lparr>fc_new_offset := word_of_nat (length (D @ [w])), fc_result := cs @ [l']\<rparr>"
    using no by (simp add: c1_def extend_last_def res non_matching_increment_def l'_def add.commute)
  have win1: "window os_read p D (w # ws) R c1" unfolding c1 using win W by simp
  obtain ret c2 where rd: "non_matching_read_more_data os_read fresh c1 = (ret, c2)" by fastforce
  note r = non_matching_read_ok [OF win1 rd]
  let ?W = "ws @ take 1 R" and ?R = "drop 1 R"
  have same: "fc_state c2 = fc_state c" "fc_result c2 = cs @ [l']" "fc_new_offset c2 = word_of_nat (length (D @ [w]))"
    using r by (simp_all add: same_control_def c1)
  show ?case
  proof (cases "?W = []")
    case True
    have e: "non_matching_loop os_read fresh sha1 (Suc fuel) c = Some (Inr (), c2\<lparr>fc_state := Final\<rparr>)"
      using r rd True by (simp add: Let_def flip: c1_def)
    have "new_content p = D @ [w]" using True split by (cases R) simp_all
    moreover have "0 < old_bs p" using ok by (simp add: comparison_ok_def)
    ultimately have "finished p 0 (c2\<lparr>fc_state := Final\<rparr>)"
      using True r same cov' by (simp add: finished_def announced_def shorten_last_def buffers_ok_def collected_def)
    then show ?thesis unfolding e by (auto simp: progress_def)
  next
    case False
    have win2: "window os_read p (D @ [w]) ?W ?R c2" using r False by presburger
    have less: "length (?W @ ?R) < length (W @ R)" by (simp add: W)
    have fuel': "length (?W @ ?R) \<le> fuel" using less fuel by linarith
    obtain found c3 where s: "search sha1 False 0 c2 = (found, c3)" by fastforce
    have step: "non_matching_loop os_read fresh sha1 (Suc fuel) c =
        (if found then Some (Inr (), c3\<lparr>fc_state := Matching\<rparr>) else non_matching_loop os_read fresh sha1 fuel c3)"
      using r rd s False by (simp add: Let_def flip: c1_def)
    show ?thesis
    proof (cases found)
      case True
      obtain k where k: "k < length (old_content p)" "take (old_bs p) (drop k (old_content p)) = ?W" "c3 = c2\<lparr>fc_old_offset := word_of_nat k\<rparr>"
        using search_window(2) [OF ok win2 s True] by blast
      have "at_window os_read p (D @ [w]) ?W ?R (c3\<lparr>fc_state := Matching\<rparr>)"
        using win2 same cov' k by (auto simp: at_window_def)
      from progressI [OF this less] show ?thesis using True unfolding step by simp
    next
      case notfound: False
      then have c3: "c3 = c2" using search_window(1) [OF ok win2 s] by simp
      have "D @ [w] = C @ (D1 @ [w])" using cov(2) by simp
      from Suc.IH [OF win2 same(2) cov(1) this cmd' same(3) fuel'] show ?thesis
        using notfound progress_mono [OF _ less_imp_le [OF less]] unfolding step c3 by auto
    qed
  qed
qed

text \<open>The machine, from any window.\<close>

lemma state_step_ok:
  assumes ok: "comparison_ok os_read sha1 p" and at: "at_window os_read p D W R c" and fuel: "length (W @ R) \<le> fuel"
  shows "both_builds os_read p (length (W @ R)) (\<lambda>dbg. if fc_state c = Matching then state_Matching dbg os_read fresh sha1 fuel c
      else state_NonMatching os_read fresh sha1 fuel c)"
proof (cases "fc_state c = Matching")
  case True
  then obtain k where k: "k < length (old_content p)" "fc_old_offset c = word_of_nat k" "take (old_bs p) (drop k (old_content p)) = W"
    using at by (auto simp: at_window_def)
  define new where "new = set_copy_from_old True \<lparr>cmd_offset = word_of_nat k, cmd_length = 0\<rparr>"
  define c0 where "c0 = push_command True (fc_old_offset c) c"
  have c0: "c0 = c\<lparr>fc_result := fc_result c @ [new]\<rparr>" by (simp add: c0_def push_command_def k new_def)
  have "k < 2 ^ 64" using k(1) ok by (simp add: comparison_ok_def)
  then have "command_is True k (length []) new" using command_new [of k True] by (simp add: new_def)
  then have "matched p c0 (fc_result c) new k D [] W" using at k by (simp add: matched_def at_window_def c0)
  moreover have "window os_read p D W R c0" using at by (simp add: at_window_def c0)
  ultimately show ?thesis using matching_loop_ok [OF ok _ _ fuel] True by (simp add: state_Matching_def c0_def)
next
  case False
  define new where "new = set_copy_from_old False \<lparr>cmd_offset = word_of_nat (length D), cmd_length = 0\<rparr>"
  define c0 where "c0 = push_command False (fc_new_offset c) c"
  have win: "window os_read p D W R c" "covers (old_content p) (new_content p) (fc_result c) D" "fc_new_offset c = word_of_nat (length D)"
    using at by (simp_all add: at_window_def)
  have c0: "c0 = c\<lparr>fc_result := fc_result c @ [new]\<rparr>" by (simp add: c0_def push_command_def win(3) new_def)
  have "D @ W @ R = new_content p" using win(1) by (simp add: window_def)
  then have "length D \<le> length (new_content p)" by (metis le_add1 length_append)
  then have "length D < 2 ^ 64" using ok by (simp add: comparison_ok_def)
  then have "command_is False (length D) (length []) new" using command_new [of "length D" False] by (simp add: new_def)
  with non_matching_loop_ok [OF ok, of D W R c0 "fc_result c" new D "[]" fuel fresh] obtain c1 where
    "non_matching_loop os_read fresh sha1 fuel c0 = Some (Inr (), c1)" "progress os_read p (length (W @ R)) 0 c1"
    using win fuel by (auto simp: c0)
  from both_buildsI [OF this(2)] this(1) False show ?thesis by (simp add: state_NonMatching_def c0_def)
qed

definition machine_ends :: "comparison \<Rightarrow> (bool \<Rightarrow> ((comparer_stop + unit) \<times> file_comparer) option) \<Rightarrow> bool" where
  "machine_ends p run \<longleftrightarrow> (\<exists>c' e. run False = Some (Inr (), c') \<and> finished p e c' \<and> debug_outcome e c' (run True))"

lemma process_loop_ok:
  assumes ok: "comparison_ok os_read sha1 p" and "at_window os_read p D W R c" and "length (W @ R) + 2 \<le> fuel"
  shows "machine_ends p (\<lambda>dbg. process_loop dbg os_read fresh sha1 seek_error fuel c)"
  using assms(2,3)
proof (induction fuel arbitrary: D W R c)
  case (Suc fuel)
  note at = Suc.prems(1)
  have fuel: "length (W @ R) \<le> fuel" "fuel \<noteq> 0" using Suc.prems(2) by simp_all
  define run where "run dbg = (if fc_state c = Matching then state_Matching dbg os_read fresh sha1 fuel c
      else state_NonMatching os_read fresh sha1 fuel c)" for dbg
  have e: "process_loop dbg os_read fresh sha1 seek_error (Suc fuel) c =
      (case run dbg of None \<Rightarrow> None | Some (Inl e, c) \<Rightarrow> Some (Inl e, c) | Some (Inr _, c) \<Rightarrow> process_loop dbg os_read fresh sha1 seek_error fuel c)" for dbg
    using at by (auto simp: at_window_def run_def)
  obtain c1 e1 where step: "run False = Some (Inr (), c1)" "progress os_read p (length (W @ R)) e1 c1" "debug_outcome e1 c1 (run True)"
    using state_step_ok [OF ok at fuel(1), of fresh] unfolding both_builds_def run_def by blast
  show ?case
  proof (cases "finished p e1 c1")
    case True
    have stop: "process_loop dbg os_read fresh sha1 seek_error fuel c1 = Some (Inr (), c1)" for dbg
      using fuel(2) True by (cases fuel) (simp_all add: finished_def)
    then show ?thesis unfolding machine_ends_def e step(1) using True step(3)
      by (intro exI [of _ c1] exI [of _ e1]) (auto simp: debug_outcome_def split: if_splits)
  next
    case False
    then obtain D' W' R' where w: "at_window os_read p D' W' R' c1" "length (W' @ R') < length (W @ R)" "e1 = 0"
      using step(2) by (auto simp: progress_def)
    have "length (W' @ R') + 2 \<le> fuel" using w(2) Suc.prems(2) by linarith
    from Suc.IH [OF w(1) this] show ?thesis using step(1,3) w(3) unfolding machine_ends_def e by (simp add: debug_outcome_def)
  qed
qed simp

subsection \<open>The whole comparison\<close>

lemma scaler_function_bounds:
  assumes "unat x < 2 ^ 61"
  shows "0 < unat (scaler_function x) \<and> unat (scaler_function x) < 2 ^ 61"
proof -
  obtain j where j: "unat (scaler_function x) = 512 * 2 ^ j" "j \<noteq> 0 \<longrightarrow> 2 ^ 26 < table_bytes (unat x) (256 * 2 ^ j)"
    using scaler_loop_result [of x 512 0] assms by (auto simp: scaler_function_def)
  have "512 * 2 ^ j < (2 :: nat) ^ 61"
  proof (cases "j = 0")
    case False
    let ?b = "256 * 2 ^ j :: nat"
    have "2 ^ 21 < (unat x + (?b - 1)) div ?b" using j(2) False by (simp add: table_bytes_def)
    then have "2 ^ 21 * ?b \<le> unat x + (?b - 1)" by (meson div_times_less_eq_dividend less_imp_le mult_le_mono1 order_trans)
    then show ?thesis using assms by simp
  qed simp
  then show ?thesis using j(1) by simp
qed

lemma process_ok:
  assumes ok: "comparison_ok os_read sha1 p" and c: "bb_ok os_read (new_content p) (fc_reader c)" "br_block_size (fc_reader c) = old_bs p"
      "length (cb_buffer (fc_buffer c)) = cb_capacity (fc_buffer c)" "buffers_ok (new_bs p) c" "collected c = []"
      "fc_old_file c = old_table p" "fc_result c = []"
    and fuel: "length (new_content p) + 3 \<le> fuel"
  shows "machine_ends p (\<lambda>dbg. process_loop dbg os_read fresh sha1 None fuel (c\<lparr>fc_state := Initial\<rparr>))"
proof -
  let ?N = "new_content p"
  obtain ret reader where seek: "bb_seek fresh None 0 (fc_reader c) = (ret, reader)" by fastforce
  have sk: "ret = Inr ()" "bb_ok os_read ?N reader" "bb_rest ?N reader = ?N" "br_block_size reader = old_bs p"
    using bb_seek_ok [OF c(1), of 0 fresh ret reader] seek c(2) by simp_all
  define c1 where "c1 = c\<lparr>fc_state := Initial, fc_reader := reader, fc_new_offset := 0, fc_old_offset := 0\<rparr>"
  obtain again c2 where rd: "read_more_data os_read fresh c1 = (again, c2)" by fastforce
  have c1: "buffers_ok (new_bs p) c1" "collected c1 = []" "fc_old_file c1 = old_table p" "fc_reader c1 = reader" "fc_buffer c1 = fc_buffer c"
    using c(4-6) by (simp_all add: c1_def buffers_ok_def collected_def)
  have "collected c1 @ bb_rest ?N reader = ?N" using c1(2) sk(3) by simp
  note r = read_more_data_ok [OF ok, of c1, unfolded c1(4,5), OF sk(2,4) c(3) c1(1) this c1(3) rd, unfolded sk(3) c1(2)]
  have same: "fc_result c2 = []" "fc_new_offset c2 = 0" using r c(7) by (simp_all add: same_control_def c1_def)
  obtain fuel1 where f: "fuel = Suc (Suc fuel1)" "length ?N + 1 \<le> fuel1" using fuel by (cases fuel; cases "fuel - 1"; simp)
  have i: "process_loop dbg os_read fresh sha1 None fuel (c\<lparr>fc_state := Initial\<rparr>)
      = (case state_Initial os_read fresh sha1 None (c\<lparr>fc_state := Initial\<rparr>) of
           (Inl e, c) \<Rightarrow> Some (Inl e, c) | (Inr _, c) \<Rightarrow> process_loop dbg os_read fresh sha1 None (Suc fuel1) c)" for dbg
    unfolding f(1) process_loop.simps(2) [of dbg os_read fresh sha1 None "Suc fuel1"] by (simp del: process_loop.simps split: prod.split sum.split)
  have init: "state_Initial os_read fresh sha1 None (c\<lparr>fc_state := Initial\<rparr>) =
      (if ?N = [] then (Inr (), c2\<lparr>fc_state := Final\<rparr>)
       else let (found, c) = search sha1 False 0 c2 in (Inr (), c\<lparr>fc_state := (if found then Matching else NonMatching)\<rparr>))"
    unfolding state_Initial_def using seek sk(1) rd r by (simp add: Let_def flip: c1_def)
  show ?thesis
  proof (cases "?N = []")
    case True
    have "0 < old_bs p" using ok by (simp add: comparison_ok_def)
    then have "finished p 0 (c2\<lparr>fc_state := Final\<rparr>)"
      using True r same by (simp add: finished_def announced_def shorten_last_def buffers_ok_def collected_def)
    then show ?thesis unfolding machine_ends_def i init debug_outcome_def using True by (intro exI [of _ "c2\<lparr>fc_state := Final\<rparr>"] exI [of _ 0]) simp
  next
    case False
    let ?W = "take (old_bs p) ?N" and ?R = "drop (old_bs p) ?N"
    have win: "window os_read p [] ?W ?R c2" using r False by simp
    obtain found c3 where s: "search sha1 False 0 c2 = (found, c3)" by fastforce
    define c4 where "c4 = c3\<lparr>fc_state := (if found then Matching else NonMatching)\<rparr>"
    have "at_window os_read p [] ?W ?R c4"
    proof (cases found)
      case True
      obtain k where "k < length (old_content p)" "take (old_bs p) (drop k (old_content p)) = ?W" "c3 = c2\<lparr>fc_old_offset := word_of_nat k\<rparr>"
        using search_window(2) [OF ok win s True] by blast
      then show ?thesis using win same True by (auto simp: at_window_def c4_def)
    next
      case notfound: False
      then have "c3 = c2" using search_window(1) [OF ok win s] by simp
      then show ?thesis using win same notfound by (simp add: at_window_def c4_def)
    qed
    from process_loop_ok [OF ok this, of "Suc fuel1" fresh None] f(2) show ?thesis
      unfolding i init using False by (simp add: s c4_def del: process_loop.simps)
  qed
qed

text \<open>The commands of a comparison, the bytes that it queued for the second thread, and what the debug build does.\<close>

lemma comparer_run:
  assumes "file_reads old_read old" and "length old < 2 ^ 61" and "file_reads new_read new" and "length new < 2 ^ 61"
    and "rsyncable_file_new old_read fresh sha1 None (word_of_nat (length old)) stream0 (length old + 1) = Some (Inr f)"
    and "file_comparer_new new_read fresh None (word_of_nat (length new)) reader0 f fc0 = Inr c"
    and "no_collision sha1 (unat (rf_block_size f)) old new" and "n = unat (scaler_function (word_of_nat (length new)))"
    and "length new + 3 \<le> fuel"
  obtains c1 e where "process_loop False new_read fresh sha1 None fuel (c\<lparr>fc_state := Initial\<rparr>) = Some (Inr (), c1)"
    and "debug_outcome e c1 (process_loop True new_read fresh sha1 None fuel (c\<lparr>fc_state := Initial\<rparr>))"
    and "announced e old new (fc_result c1)" and "e < unat (rf_block_size f)" and "buffers_ok n c1" and "collected c1 = new"
    and "unat (rf_block_size f) < 2 ^ 61"
proof -
  let ?bs = "unat (rf_block_size f)"
  have f: "rf_rsync_table f = sort (file_items sha1 ?bs 0 old)" "rf_bitmap f = init_bitmap (rf_rsync_table f)"
    "rf_block_size f = scaler_function (word_of_nat (length old))"
    using file_table [OF assms(1), of "word_of_nat (length old)" "length old + 1" fresh sha1 stream0] assms(2,5) by auto
  have bs: "0 < ?bs" "?bs < 2 ^ 61" and n: "0 < n"
    using scaler_function_bounds [of "word_of_nat (length old)"] scaler_function_bounds [of "word_of_nat (length new)"] assms(2,4,8) f(3)
    by (simp_all add: unat_of_nat)
  define p where "p = \<lparr>old_content = old, new_content = new, old_table = f, old_bs = ?bs, new_bs = n\<rparr>"
  have ok: "comparison_ok new_read sha1 p" using assms(2-4,7) f bs by (simp add: p_def comparison_ok_def)
  obtain reader where reader: "bb_init None new_read fresh ?bs reader0 = Inr reader" "bb_ok new_read new reader" "br_block_size reader = ?bs"
    using bb_init_ok [OF assms(3), of fresh ?bs reader0] assms(4) bs(1) by auto
  have c: "fc_reader c = reader" "fc_result c = []" "fc_queue c = []" "fc_old_file c = f" "fc_buffer c = cb_new fresh 1"
    "fc_new_buffer c = sb_realloc fresh n (sb_new fresh 0)"
    using assms(6) reader(1) by (auto simp: file_comparer_new_def Let_def assms(8))
  have "buffers_ok (new_bs p) c" "collected c = []"
    using c n by (simp_all add: buffers_ok_def collected_def p_def sb_realloc_def sb_new_def sb_bytes_def Let_def)
  with process_ok [OF ok, of c fuel fresh] have "machine_ends p (\<lambda>dbg. process_loop dbg new_read fresh sha1 None fuel (c\<lparr>fc_state := Initial\<rparr>))"
    using c reader assms(9) by (auto simp: p_def)
  then obtain c1 e where "process_loop False new_read fresh sha1 None fuel (c\<lparr>fc_state := Initial\<rparr>) = Some (Inr (), c1)" "finished p e c1"
    "debug_outcome e c1 (process_loop True new_read fresh sha1 None fuel (c\<lparr>fc_state := Initial\<rparr>))"
    unfolding machine_ends_def by blast
  then show thesis using that bs(2) by (simp add: finished_def p_def)
qed

text \<open>What \<open>request_thread_stop\<close> leaves in the queue, and what the second thread makes of it when it ends.\<close>

lemma request_thread_stop_ok:
  assumes "buffers_ok n c"
  obtains bs where "fc_queue (request_thread_stop fresh c) = bs @ [terminator]" and "\<forall>b \<in> set bs. sb_capacity b \<noteq> 0"
    and "thread_func sha1 bs = (sort (file_items sha1 n 0 (collected c) @ table_tail sha1 n (collected c)), sha1 (collected c))"
proof -
  define bs where "bs = fc_queue c @ [fc_new_buffer c]"
  have q: "fc_queue (request_thread_stop fresh c) = bs @ [terminator]"
    by (simp add: request_thread_stop_def process_new_buffer_def Let_def bs_def terminator_def sb_new_def sb_realloc_def)
  have cap: "\<forall>b \<in> set bs. sb_capacity b \<noteq> 0"
    using assms by (auto simp: buffers_ok_def bs_def full_buffer_def list_all_iff)
  have "thread_func sha1 bs = thread_func sha1 (bs @ [terminator])" by (simp add: thread_func_def thread_loop_terminator [OF cap])
  then show thesis using that [OF q cap] thread_func_table [OF assms, of sha1 fresh] q by simp
qed

text \<open>A file of three bytes, compared with itself.\<close>

lemma example_comparer:
  "\<exists>f c. rsyncable_file_new example_read fresh (\<lambda>data. data) None (word_of_nat (length [5, 6, 7 :: byte])) stream0 (length [5, 6, 7 :: byte] + 1)
      = Some (Inr f)
    \<and> file_comparer_new example_read fresh None (word_of_nat (length [5, 6, 7 :: byte])) reader0 f fc0 = Inr c"
proof -
  let ?N = "[5, 6, 7 :: byte]" and ?h = "\<lambda>data :: byte list. data"
  have n: "length ?N < 2 ^ 63" "length ?N < 2 ^ 64" "length ?N < length ?N + 1" by simp_all
  obtain f where f: "rsyncable_file_new example_read fresh ?h None (word_of_nat (length ?N)) stream0 (length ?N + 1) = Some (Inr f)"
    using file_table [OF example_read_reads n(1) refl n(3), of fresh ?h stream0] by (elim exE conjE)
  obtain reader where "bb_init None example_read fresh (unat (rf_block_size f)) reader0 = Inr reader"
    using bb_init_ok [OF example_read_reads n(2), of fresh "unat (rf_block_size f)" reader0] by (elim exE conjE)
  with f show ?thesis by (simp add: file_comparer_new_def Let_def)
qed

text \<open>C2. Incremental backup, for a hash that does not confuse a block of the old file with a different part of the new one: take the
  table of the old file and compare the new file with it. The main thread gets as far as the wait for the second thread. Its
  commands name bytes that the two files have, and these bytes, in order, are the new file, except that the last command may announce
  \<open>e\<close> bytes too many: that is when it ends with the last block of the old file and this block is short, and
  then, and only then, a debug build stops in \<open>matching_increment\<close>. In every interleaving of the two threads in which the second
  one ends (there is one, but it need not, see Comparer\_Thread), it leaves the digest of the new file and the table of its blocks, with one more,
  empty, block when the block size divides the length of the file.\<close>

theorem comparer_rebuilds_new_file:
  assumes "file_reads old_read old" and "length old < 2 ^ 61" and "file_reads new_read new" and "length new < 2 ^ 61"
    and "rsyncable_file_new old_read fresh sha1 None (word_of_nat (length old)) stream0 (length old + 1) = Some (Inr f)"
    and "file_comparer_new new_read fresh None (word_of_nat (length new)) reader0 f fc0 = Inr c"
    and "no_collision sha1 (unat (rf_block_size f)) old new" and "n = unat (scaler_function (word_of_nat (length new)))"
    and "length new + 3 \<le> fuel"
  shows "\<exists>c' e bs. fc_process False new_read fresh sha1 None fuel c = Some (Inr (), c')
    \<and> announced e old new (fc_result c') \<and> e < unat (rf_block_size f)
    \<and> (if e = 0 then fc_process True new_read fresh sha1 None fuel c = Some (Inr (), c')
       else \<exists>c''. fc_process True new_read fresh sha1 None fuel c = Some (Inl Debug_break, c''))
    \<and> fc_queue c' = bs @ [terminator] \<and> (\<exists>s. threads_reach bs s \<and> t_worker s = Ended)
    \<and> (\<forall>s. threads_reach bs s \<and> t_worker s = Ended
         \<longrightarrow> thread_func sha1 (t_processed s) = (sort (file_items sha1 n 0 new @ table_tail sha1 n new), sha1 new))"
proof -
  obtain c1 e where c1: "process_loop False new_read fresh sha1 None fuel (c\<lparr>fc_state := Initial\<rparr>) = Some (Inr (), c1)"
    "debug_outcome e c1 (process_loop True new_read fresh sha1 None fuel (c\<lparr>fc_state := Initial\<rparr>))"
    "announced e old new (fc_result c1)" "e < unat (rf_block_size f)" "buffers_ok n c1" "collected c1 = new"
    using comparer_run [OF assms] by blast
  obtain bs where bs: "fc_queue (request_thread_stop fresh c1) = bs @ [terminator]" "\<forall>b \<in> set bs. sb_capacity b \<noteq> 0"
    "thread_func sha1 bs = (sort (file_items sha1 n 0 new @ table_tail sha1 n new), sha1 new)"
    using request_thread_stop_ok [OF c1(5), of fresh sha1] c1(6) by auto
  have "fc_result (request_thread_stop fresh c1) = fc_result c1"
    by (simp add: request_thread_stop_def process_new_buffer_def Let_def)
  moreover have "thread_func sha1 (t_processed s) = (sort (file_items sha1 n 0 new @ table_tail sha1 n new), sha1 new)"
    if "threads_reach bs s" "t_worker s = Ended" for s
    using ended_processed [OF that(1) bs(2) that(2)] bs(3) by simp
  ultimately show ?thesis using c1 bs(1) worker_can_end [OF bs(2)]
    by (intro exI [of _ "request_thread_stop fresh c1"] exI [of _ e] exI [of _ bs]) (auto simp: fc_process_def debug_outcome_def)
qed

text \<open>The only block of this file is shorter than the block size, and the debug build stops.\<close>

theorem comparer_rebuilds_new_file_witness:
  "\<forall>fresh stream0 reader0 fc0. \<exists>f c c' e bs. rsyncable_file_new example_read fresh (\<lambda>data. data) None 3 stream0 4 = Some (Inr f)
    \<and> file_comparer_new example_read fresh None 3 reader0 f fc0 = Inr c
    \<and> fc_process False example_read fresh (\<lambda>data. data) None 6 c = Some (Inr (), c')
    \<and> announced e [5, 6, 7] [5, 6, 7] (fc_result c') \<and> fc_queue c' = bs @ [terminator]"
proof (intro allI)
  fix fresh :: "nat \<Rightarrow> byte" and stream0 :: block_reader and reader0 :: byte_reader and fc0 :: file_comparer
  let ?N = "[5, 6, 7 :: byte]" and ?h = "\<lambda>data :: byte list. data"
  obtain f c where fc: "rsyncable_file_new example_read fresh ?h None (word_of_nat (length ?N)) stream0 (length ?N + 1) = Some (Inr f)"
    "file_comparer_new example_read fresh None (word_of_nat (length ?N)) reader0 f fc0 = Inr c"
    using example_comparer [of fresh stream0 reader0 fc0] by blast
  have n: "length ?N < 2 ^ 61" "length ?N + 3 \<le> 6" by simp_all
  have coll: "no_collision ?h (unat (rf_block_size f)) ?N ?N" by (simp add: no_collision_def)
  have fc': "rsyncable_file_new example_read fresh ?h None 3 stream0 4 = Some (Inr f)"
    "file_comparer_new example_read fresh None 3 reader0 f fc0 = Inr c"
    using fc by (simp_all add: eval_nat_numeral)
  show "\<exists>f c c' e bs. rsyncable_file_new example_read fresh ?h None 3 stream0 4 = Some (Inr f)
      \<and> file_comparer_new example_read fresh None 3 reader0 f fc0 = Inr c
      \<and> fc_process False example_read fresh ?h None 6 c = Some (Inr (), c')
      \<and> announced e ?N ?N (fc_result c') \<and> fc_queue c' = bs @ [terminator]"
    using comparer_rebuilds_new_file [OF example_read_reads n(1) example_read_reads n(1) fc coll refl n(2)] fc'
    by (elim exE conjE) (intro exI conjI; assumption)
qed

end
