(* ===== verification/Rsync_Stream.thy ===== *)
theory Rsync_Stream
  imports Comparer_Correct
begin

text \<open>
  The streams of src/BackupEngineNativePart/Rsync.h and Rsync.cpp: a normal file, a sparse file with the parts that a table
  of commands copies from the old version, and the link of a chain that puts the parts of two streams together. The virtual
  functions of \<open>Stream\<close> are arguments. A \<open>size_t\<close> that the code obtains from two iterators is an \<open>int\<close>, and reading
  an element outside a vector is the result \<open>None\<close>.

  \<open>chain_reconstructs\<close> is the purpose of a link: the sections it lists are the requested bytes of the file that the
  commands rebuild.
\<close>

record reconstructed_part =
  rp_source :: u64
  rp_offset_in_source :: u64
  rp_size :: u64

subsection \<open>NormalFile\<close>

record normal_file =
  nf_reader :: block_reader
  nf_temp :: simple_buffer
  nf_unique_id :: u64

definition normal_file_new ::
  "u32 option \<Rightarrow> (nat \<Rightarrow> byte) \<Rightarrow> block_reader \<Rightarrow> u64 \<Rightarrow> u32 + normal_file" where
  "normal_file_new open_error fresh reader0 unique_id =
     map_sum (\<lambda>e. e) (\<lambda>reader. \<lparr>nf_reader = reader, nf_temp = sb_new fresh 0, nf_unique_id = unique_id\<rparr>) (br_init open_error fresh 0 reader0)"

definition normal_reconstruct_section :: "u64 \<Rightarrow> reconstructed_part list \<Rightarrow> u64 \<Rightarrow> u64 \<Rightarrow> reconstructed_part list" where
  "normal_reconstruct_section unique_id dst virtual_offset sz =
     dst @ [\<lparr>rp_source = unique_id, rp_offset_in_source = virtual_offset, rp_size = sz\<rparr>]"

definition normal_seek :: "u32 option \<Rightarrow> u64 \<Rightarrow> normal_file \<Rightarrow> bool \<times> normal_file" where
  "normal_seek seek_error offset f =
     (case sr_seek br_clear_buffers seek_error offset (nf_reader f) of
        (Inl e, reader) \<Rightarrow> (False, f\<lparr>nf_reader := reader\<rparr>)
      | (Inr _, reader) \<Rightarrow> (True, f\<lparr>nf_reader := reader, nf_temp := (nf_temp f)\<lparr>sb_size := 0\<rparr>\<rparr>))"

text \<open>The loop of \<open>read\<close>: whether it succeeds and the bytes it stores, of which \<open>bytes_read\<close> is the number. Each byte takes at
  most two iterations, so twice their number and one is enough fuel.\<close>

fun normal_read_loop :: "os_read \<Rightarrow> (nat \<Rightarrow> byte) \<Rightarrow> nat \<Rightarrow> nat \<Rightarrow> byte list \<Rightarrow> normal_file \<Rightarrow> (bool \<times> byte list \<times> normal_file) option" where
  "normal_read_loop os_read fresh 0 sz dst f = None"
| "normal_read_loop os_read fresh (Suc fuel) sz dst f =
     (if sz \<noteq> 0 then
        let temp = nf_temp f
        in if sb_size temp \<noteq> 0 then
             let consumed = min (sb_size temp) sz
             in normal_read_loop os_read fresh fuel (sz - consumed)
                  (dst @ take consumed (drop (sb_capacity temp - sb_size temp) (sb_data temp)))
                  (f\<lparr>nf_temp := temp\<lparr>sb_size := sb_size temp - consumed\<rparr>\<rparr>)
           else
             (case next_block os_read fresh (cb_new fresh 1) (nf_reader f) of
                (Inl e, buffer, reader) \<Rightarrow> Some (False, dst, f\<lparr>nf_reader := reader\<rparr>)
              | (Inr again, buffer, reader) \<Rightarrow>
                  if \<not> again then Some (True, dst, f\<lparr>nf_reader := reader\<rparr>)
                  else normal_read_loop os_read fresh fuel sz dst (f\<lparr>nf_reader := reader, nf_temp := sb_assign fresh buffer temp\<rparr>))
      else Some (True, dst, f))"

definition normal_read :: "os_read \<Rightarrow> (nat \<Rightarrow> byte) \<Rightarrow> nat \<Rightarrow> normal_file \<Rightarrow> (bool \<times> byte list \<times> normal_file) option" where
  "normal_read os_read fresh sz f = normal_read_loop os_read fresh (2 * sz + 1) sz [] f"

definition normal_eof :: "normal_file \<Rightarrow> bool" where
  "normal_eof f = sr_eof (nf_reader f)"

subsection \<open>Parts\<close>

record part =
  part_physical :: u64
  part_virtual :: u64
  part_size :: u64
  part_file :: u64

definition part_order :: "part \<Rightarrow> part \<Rightarrow> bool" where
  "part_order a b \<longleftrightarrow> part_virtual a < part_virtual b"

definition find_part :: "part list \<Rightarrow> u64 \<Rightarrow> nat" where
  "find_part parts offset =
     find_all (\<lambda>p. (part_virtual p \<le> offset \<and> offset < part_virtual p + part_size p) \<or> part_virtual p \<ge> offset) parts 0 (length parts)"

subsection \<open>SparseFile\<close>

fun sparse_parts :: "u64 \<Rightarrow> rsync_command list \<Rightarrow> part list" where
  "sparse_parts offset [] = []"
| "sparse_parts offset (item # items) =
     (if copy_from_old item
      then [\<lparr>part_physical = offset, part_virtual = cmd_offset item, part_size = get_length item, part_file = 0\<rparr>] else [])
     @ sparse_parts (offset + cmd_length item) items"

definition sparse_file_new :: "rsync_command list \<Rightarrow> part list" where
  "sparse_file_new table = sort_key part_virtual (sparse_parts 0 table)"

definition sparse_transform_offset :: "part list \<Rightarrow> u64 \<Rightarrow> (int \<times> u64) option" where
  "sparse_transform_offset parts offset =
     (let it = find_part parts offset
      in if it = length parts \<or> offset \<ge> part_virtual (parts ! it) + part_size (parts ! it) then None
         else Some (int it - int (length parts), part_physical (parts ! it) + (offset - part_virtual (parts ! it))))"

subsection \<open>RsyncChainLink\<close>

fun chain_parts :: "u64 \<Rightarrow> rsync_command list \<Rightarrow> part list" where
  "chain_parts offset [] = []"
| "chain_parts offset (item # items) =
     \<lparr>part_physical = cmd_offset item, part_virtual = offset, part_size = get_length item,
      part_file = (if copy_from_old item then 0 else 1)\<rparr> # chain_parts (offset + get_length item) items"

definition chain_link_new :: "rsync_command list \<Rightarrow> part list" where
  "chain_link_new table = sort_key part_virtual (chain_parts 0 table)"

definition chain_transform_offset :: "part list \<Rightarrow> u64 \<Rightarrow> (nat \<times> u64) option" where
  "chain_transform_offset parts offset =
     (let it = find_part parts offset
      in if it = length parts \<or> offset \<ge> part_virtual (parts ! it) + part_size (parts ! it) then None
         else Some (it, part_physical (parts ! it) + (offset - part_virtual (parts ! it))))"

lemma find_all_loop_le: "beg \<le> fin \<Longrightarrow> find_all_loop P xs beg fin \<le> fin"
proof (induction P xs beg fin rule: find_all_loop.induct)
  case (1 P xs beg fin)
  then show ?case by (subst find_all_loop.simps) (auto simp: Let_def intro: order_trans)
qed

text \<open>A section inside a part is never empty, whatever the parts are, so the loop ends.\<close>

lemma chain_transform_part:
  assumes "chain_transform_offset parts offset = Some (it, physical)"
  shows "it < length parts" and "offset < part_virtual (parts ! it) + part_size (parts ! it)"
    and "physical = part_physical (parts ! it) + (offset - part_virtual (parts ! it))"
proof -
  have "find_part parts offset \<le> length parts"
    unfolding find_part_def find_all_def by (simp add: find_all_loop_le)
  then show "it < length parts" "offset < part_virtual (parts ! it) + part_size (parts ! it)"
    "physical = part_physical (parts ! it) + (offset - part_virtual (parts ! it))"
    using assms by (auto simp: chain_transform_offset_def Let_def split: if_splits)
qed

lemma consumed_nonzero:
  fixes offset v s n :: u64
  assumes "offset < v + s" and "n \<noteq> 0"
  shows "min n (s - (offset - v)) \<noteq> 0"
proof -
  have "s - (offset - v) \<noteq> 0"
  proof
    assume "s - (offset - v) = 0"
    then have "v + s = offset" by simp
    then show False using assms(1) by simp
  qed
  then show ?thesis using assms(2) by (simp add: min_def)
qed

function chain_reconstruct_section ::
  "(reconstructed_part list \<Rightarrow> u64 \<Rightarrow> u64 \<Rightarrow> reconstructed_part list) \<Rightarrow> (reconstructed_part list \<Rightarrow> u64 \<Rightarrow> u64 \<Rightarrow> reconstructed_part list)
   \<Rightarrow> part list \<Rightarrow> reconstructed_part list \<Rightarrow> u64 \<Rightarrow> u64 \<Rightarrow> reconstructed_part list" where
  "chain_reconstruct_section old_file new_file parts dst virtual_offset sz =
     (if sz \<noteq> 0 then
        case chain_transform_offset parts virtual_offset of
          None \<Rightarrow> dst
        | Some (containing_part, physical_offset) \<Rightarrow>
            let part = parts ! containing_part;
                consumed = min sz (part_size part - (virtual_offset - part_virtual part));
                stream = (if part_file part = 0 then old_file else new_file)
            in chain_reconstruct_section old_file new_file parts (stream dst physical_offset consumed)
                 (virtual_offset + consumed) (sz - consumed)
      else dst)"
  by pat_completeness auto
termination
proof (relation "measure (\<lambda>(old_file, new_file, parts, dst, virtual_offset, sz). unat sz)", simp, goal_cases)
  case (1 old_file new_file parts dst virtual_offset sz x it physical part consumed stream)
  have t: "chain_transform_offset parts virtual_offset = Some (it, physical)" using 1(2,3) by simp
  have "consumed \<noteq> 0"
    using consumed_nonzero [OF chain_transform_part(2) [OF t] 1(1)] 1(4,5) by simp
  moreover have "consumed \<le> sz" using 1 by simp
  ultimately have "unat (sz - consumed) < unat sz"
    by (simp add: unat_sub word_le_nat_alt) (use 1(1) in \<open>simp add: unat_gt_0\<close>)
  then show ?case by simp
qed

declare chain_reconstruct_section.simps [simp del]

definition chain_seek :: "(u64 \<Rightarrow> bool) \<Rightarrow> (u64 \<Rightarrow> bool) \<Rightarrow> part list \<Rightarrow> nat \<Rightarrow> u64 \<Rightarrow> bool option" where
  "chain_seek old_seek new_seek parts containing_part offset =
     (case chain_transform_offset parts offset of
        Some _ \<Rightarrow> Some False
      | None \<Rightarrow>
          if containing_part < length parts
          then Some ((if part_file (parts ! containing_part) = 0 then old_seek else new_seek) offset) else None)"

subsection \<open>Parts of a table\<close>

definition lens :: "rsync_command list \<Rightarrow> nat" where
  "lens table = (\<Sum>c \<leftarrow> table. unat (get_length c))"

lemma lens_simps [simp]: "lens [] = 0" "lens (xs @ ys) = lens xs + lens ys" "lens (c # cs) = unat (get_length c) + lens cs"
  by (simp_all add: lens_def)

lemma lens_take_Suc: "i < length table \<Longrightarrow> lens (take (Suc i) table) = lens (take i table) + unat (get_length (table ! i))"
  by (simp add: take_Suc_conv_app_nth)

lemma lens_take_mono: "i \<le> j \<Longrightarrow> lens (take i table) \<le> lens (take j table)"
  by (metis le_add1 le_add_diff_inverse lens_simps(2) take_add)

lemma length_chain_parts [simp]: "length (chain_parts v table) = length table"
  by (induction table arbitrary: v) simp_all

lemma chain_parts_nth:
  "i < length table \<Longrightarrow> chain_parts (word_of_nat v) table ! i =
    \<lparr>part_physical = cmd_offset (table ! i), part_virtual = word_of_nat (v + lens (take i table)), part_size = get_length (table ! i),
     part_file = (if copy_from_old (table ! i) then 0 else 1)\<rparr>"
proof (induction table arbitrary: v i)
  case (Cons c table)
  have "word_of_nat v + get_length c = word_of_nat (v + unat (get_length c))" by simp
  then show ?case using Cons by (cases i) (simp_all only: chain_parts.simps nth_Cons_0 nth_Cons_Suc take_Suc_Cons lens_simps length_Cons
      Suc_less_eq add.assoc, simp_all)
qed simp

lemma chain_link_new_parts:
  assumes "lens table < 2 ^ 64"
  shows "chain_link_new table = chain_parts 0 table"
proof -
  have "sorted (map part_virtual (chain_parts 0 table))"
  proof (rule sorted_iff_nth_mono [THEN iffD2], intro allI impI)
    fix i j assume ij: "i \<le> j" "j < length (map part_virtual (chain_parts 0 table))"
    have le: "lens (take i table) \<le> lens (take j table)" using ij(1) by (rule lens_take_mono)
    have "lens (take j table) \<le> lens table" using lens_take_mono [of j "length table" table] ij(2) by simp
    then show "map part_virtual (chain_parts 0 table) ! i \<le> map part_virtual (chain_parts 0 table) ! j"
      using ij le assms chain_parts_nth [of i table 0] chain_parts_nth [of j table 0] by (simp add: word_le_nat_alt unat_of_nat)
  qed
  then show ?thesis by (simp add: chain_link_new_def sort_key_id_if_sorted)
qed

text \<open>The command that covers an offset.\<close>

lemma covering_command:
  "off < lens table \<Longrightarrow> \<exists>i < length table. lens (take i table) \<le> off \<and> off < lens (take (Suc i) table)"
proof (induction table arbitrary: off)
  case (Cons c table)
  show ?case
  proof (cases "off < unat (get_length c)")
    case True
    then show ?thesis by (intro exI [of _ 0]) simp
  next
    case False
    then have "off - unat (get_length c) < lens table" using Cons.prems by simp
    from Cons.IH [OF this] obtain i where "i < length table" "lens (take i table) \<le> off - unat (get_length c)"
      "off - unat (get_length c) < lens (take (Suc i) table)" by blast
    then show ?thesis using False by (intro exI [of _ "Suc i"]) auto
  qed
qed simp

lemma find_part_covering:
  assumes "lens table < 2 ^ 64" and "i < length table" and "lens (take i table) \<le> off" and "off < lens (take (Suc i) table)"
    and nonempty: "\<forall>c \<in> set table. get_length c \<noteq> 0"
  shows "find_part (chain_parts 0 table) (word_of_nat off) = i"
proof -
  let ?xs = "chain_parts 0 table"
  define Q where "Q = (\<lambda>p :: part. (part_virtual p \<le> word_of_nat off \<and> word_of_nat off < part_virtual p + part_size p)
    \<or> part_virtual p \<ge> (word_of_nat off :: u64))"
  have bound: "lens (take j table) \<le> lens table" for j using lens_take_mono [of j "max j (length table)" table] by simp
  have off: "off < 2 ^ 64" using assms(1,4) bound [of "Suc i"] by linarith
  have P: "Q (?xs ! j) \<longleftrightarrow> (lens (take j table) \<le> off \<and> off < lens (take (Suc j) table)) \<or> off \<le> lens (take j table)"
    if j: "j < length table" for j
  proof -
    have "part_virtual (?xs ! j) = word_of_nat (lens (take j table))"
      "part_virtual (?xs ! j) + part_size (?xs ! j) = word_of_nat (lens (take (Suc j) table))"
      using chain_parts_nth [OF j, of 0] lens_take_Suc [OF j] by simp_all
    then show ?thesis using bound [of j] bound [of "Suc j"] assms(1) off by (simp add: Q_def word_le_nat_alt word_less_nat_alt unat_of_nat)
  qed
  have iff: "Q (?xs ! j) \<longleftrightarrow> i \<le> j" if j: "j < length table" for j
  proof (cases "i \<le> j")
    case True
    then have "off < lens (take (Suc j) table)" using assms(4) lens_take_mono [of "Suc i" "Suc j" table] by simp
    then show ?thesis unfolding P [OF j] using True assms(3) by auto
  next
    case False
    then have "lens (take (Suc j) table) \<le> off" using assms(3) lens_take_mono [of "Suc j" i table] by simp
    moreover have "unat (get_length (table ! j)) \<noteq> 0" using nonempty j by (simp add: unat_eq_0)
    then have "lens (take j table) < lens (take (Suc j) table)" using lens_take_Suc [OF j] by simp
    ultimately show ?thesis unfolding P [OF j] using False by simp
  qed
  have mono: "Q (?xs ! k)" if "0 \<le> j" "j \<le> k" "k < length ?xs" "Q (?xs ! j)" for j k
    using that iff [of j] iff [of k] by (metis le_less_trans le_trans length_chain_parts)
  let ?f = "find_part ?xs (word_of_nat off)"
  have "?f = find_all Q ?xs 0 (length ?xs)" by (simp add: find_part_def Q_def)
  moreover have "0 \<le> find_all Q ?xs 0 (length ?xs) \<and> find_all Q ?xs 0 (length ?xs) \<le> length ?xs
      \<and> (\<forall>j. 0 \<le> j \<and> j < length ?xs \<longrightarrow> (Q (?xs ! j) \<longleftrightarrow> find_all Q ?xs 0 (length ?xs) \<le> j))"
  proof (rule find_all_correct)
    show "Q (?xs ! k)" if "0 \<le> j" "j \<le> k" "k < length ?xs" "Q (?xs ! j)" for j k by (rule mono [OF that])
  qed simp
  ultimately have f: "?f \<le> length table" "\<forall>j < length table. Q (?xs ! j) \<longleftrightarrow> ?f \<le> j" by simp_all
  have "?f \<le> i" using f(2) iff assms(2) by blast
  moreover have "i \<le> ?f"
  proof (cases "?f < length table")
    case True
    then show ?thesis using f(2) iff by blast
  next
    case False
    then show ?thesis using assms(2) by simp
  qed
  ultimately show ?thesis by simp
qed

lemma chain_transform_covering:
  assumes "lens table < 2 ^ 64" and "i < length table" and "lens (take i table) \<le> off" and "off < lens (take (Suc i) table)"
    and "\<forall>c \<in> set table. get_length c \<noteq> 0"
  shows "chain_transform_offset (chain_link_new table) (word_of_nat off) =
    Some (i, cmd_offset (table ! i) + word_of_nat (off - lens (take i table)))"
proof -
  have v: "part_virtual (chain_parts 0 table ! i) = word_of_nat (lens (take i table))"
    "word_of_nat (lens (take i table)) + part_size (chain_parts 0 table ! i) = word_of_nat (lens (take (Suc i) table))"
    "part_physical (chain_parts 0 table ! i) = cmd_offset (table ! i)"
    using chain_parts_nth [OF assms(2), of 0] lens_take_Suc [OF assms(2)] by simp_all
  have "lens (take (Suc i) table) \<le> lens table" using lens_take_mono [of "Suc i" "length table" table] assms(2) by simp
  then have "(word_of_nat off :: u64) < word_of_nat (lens (take (Suc i) table))"
    using assms(1,4) by (simp add: word_less_nat_alt unat_of_nat)
  moreover have "(word_of_nat off :: u64) - word_of_nat (lens (take i table)) = word_of_nat (off - lens (take i table))"
    using assms(3) by (simp add: of_nat_diff)
  ultimately show ?thesis
    using assms(2) by (simp add: chain_transform_offset_def chain_link_new_parts [OF assms(1)] find_part_covering [OF assms] v Let_def not_le)
qed

subsection \<open>The sections of a stream\<close>

text \<open>The bytes of sections, the sources being named by their unique ids.\<close>

definition section_bytes :: "(u64 \<Rightarrow> byte list) \<Rightarrow> reconstructed_part list \<Rightarrow> byte list" where
  "section_bytes files ps = concat (map (\<lambda>p. take (unat (rp_size p)) (drop (unat (rp_offset_in_source p)) (files (rp_source p)))) ps)"

text \<open>The contract of \<open>reconstruct_section\<close>: it appends sections with the requested bytes of the stream's content.\<close>

definition delivers ::
  "(u64 \<Rightarrow> byte list) \<Rightarrow> (reconstructed_part list \<Rightarrow> u64 \<Rightarrow> u64 \<Rightarrow> reconstructed_part list) \<Rightarrow> byte list \<Rightarrow> bool" where
  "delivers files stream content \<longleftrightarrow> length content < 2 ^ 64 \<and> (\<forall>dst offset sz. unat offset + unat sz \<le> length content
     \<longrightarrow> section_bytes files (stream dst offset sz) = section_bytes files dst @ take (unat sz) (drop (unat offset) content))"

lemma normal_file_delivers: "length (files unique_id) < 2 ^ 64 \<Longrightarrow> delivers files (normal_reconstruct_section unique_id) (files unique_id)"
  by (simp add: delivers_def normal_reconstruct_section_def section_bytes_def)

lemma rebuild_Cons: "rebuild old new (c # cs) = rebuild old new [c] @ rebuild old new cs"
  by (simp add: rebuild_def)

lemma length_piece: "b + a \<le> length xs \<Longrightarrow> length (take a (drop b xs)) = a"
  by simp

lemma length_rebuild_one: "inside old new c \<Longrightarrow> length (rebuild old new [c]) = unat (get_length c)"
  unfolding inside_def rebuild_def by (simp add: length_piece del: length_take length_drop)

lemma take_drop_middle:
  "length as = a \<Longrightarrow> length bs = m \<Longrightarrow> a \<le> k \<Longrightarrow> k + n \<le> a + m \<Longrightarrow> take n (drop k (as @ bs @ cs)) = take n (drop (k - a) bs)"
  by simp

lemma take_drop_nested: "k + n \<le> m \<Longrightarrow> take n (drop k (take m (drop b xs))) = take n (drop (b + k) xs)"
  by (simp add: drop_take min_def add.commute)

lemma length_rebuild:
  "\<forall>c \<in> set table. inside old new c \<Longrightarrow> length (rebuild old new table) = lens table"
proof (induction table)
  case (Cons c table)
  then have "length (rebuild old new [c]) = unat (get_length c)" by (simp add: length_rebuild_one)
  then show ?case using Cons by (subst rebuild_Cons) simp
qed simp

text \<open>A table whose commands are not empty and name bytes of their files; only the last command may name more bytes
  than there are, as the one for a short last block does.\<close>

definition usable :: "byte list \<Rightarrow> byte list \<Rightarrow> rsync_command list \<Rightarrow> bool" where
  "usable old new table \<longleftrightarrow> (\<forall>c \<in> set table. get_length c \<noteq> 0) \<and> (\<forall>c \<in> set (butlast table). inside old new c)"

lemma usable_before:
  assumes "usable old new table" and "i < length table"
  shows "\<forall>c \<in> set (take i table). inside old new c"
proof -
  have "take i table = take i (butlast table)" using assms(2) by (simp add: take_butlast)
  then show ?thesis using assms(1) unfolding usable_def by (metis in_set_takeD)
qed

lemma length_rebuild_one_le: "length (rebuild old new [c]) \<le> unat (get_length c)"
  by (simp add: rebuild_def)

lemma length_rebuild_le: "length (rebuild old new table) \<le> lens table"
proof (induction table)
  case (Cons c table)
  then show ?case using length_rebuild_one_le [of old new c] by (subst rebuild_Cons) simp
qed simp

lemma rebuild_last:
  assumes "usable old new table" and "table \<noteq> []"
  shows "length (rebuild old new table) = lens (butlast table) + length (rebuild old new [last table])"
proof -
  have "length (rebuild old new (butlast table)) = lens (butlast table)" using assms(1) by (intro length_rebuild) (simp add: usable_def)
  then show ?thesis using assms(2) by (metis append_butlast_last_id length_append rebuild_simps(2))
qed

text \<open>A piece of the rebuilt file that lies in one command.\<close>

lemma rebuild_piece:
  assumes u: "usable old new table" and i: "i < length table" and off: "lens (take i table) \<le> off" "off + n \<le> lens (take (Suc i) table)"
    and fits: "off + n \<le> length (rebuild old new table)" and n: "0 < n"
  shows "take n (drop off (rebuild old new table)) =
    take n (drop (unat (cmd_offset (table ! i)) + (off - lens (take i table))) (if copy_from_old (table ! i) then old else new))"
    and "unat (cmd_offset (table ! i)) + (off - lens (take i table)) + n \<le> length (if copy_from_old (table ! i) then old else new)"
proof -
  let ?c = "table ! i" and ?src = "if copy_from_old (table ! i) then old else new"
  have "table = take i table @ ?c # drop (Suc i) table" using i by (rule id_take_nth_drop)
  then have parts: "rebuild old new table = rebuild old new (take i table) @ rebuild old new [?c] @ rebuild old new (drop (Suc i) table)"
    by (metis rebuild_Cons rebuild_simps(2))
  have before: "length (rebuild old new (take i table)) = lens (take i table)" by (rule length_rebuild [OF usable_before [OF u i]])
  have c: "rebuild old new [?c] = take (unat (get_length ?c)) (drop (unat (cmd_offset ?c)) ?src)" by (simp add: rebuild_def)
  have m: "off + n \<le> lens (take i table) + length (rebuild old new [?c])"
  proof (cases "i = length table - 1")
    case True
    moreover from i have "table \<noteq> []" by auto
    ultimately have "?c = last table" "take i table = butlast table" "table \<noteq> []" by (simp_all add: last_conv_nth butlast_conv_take)
    then show ?thesis using fits rebuild_last [OF u] by simp
  next
    case False
    then have "?c \<in> set (butlast table)" using i by (metis Suc_pred' length_butlast less_SucE less_zeroE nth_butlast nth_mem not_gr_zero)
    then have "length (rebuild old new [?c]) = unat (get_length ?c)" using u by (intro length_rebuild_one) (simp add: usable_def)
    then show ?thesis using off(2) lens_take_Suc [OF i] by simp
  qed
  have "take n (drop off (rebuild old new table)) = take n (drop (off - lens (take i table)) (rebuild old new [?c]))"
    unfolding parts by (rule take_drop_middle [OF before refl off(1) m])
  also have "\<dots> = take n (drop (unat (cmd_offset ?c) + (off - lens (take i table))) ?src)"
    unfolding c using off lens_take_Suc [OF i] by (intro take_drop_nested) simp
  finally show "take n (drop off (rebuild old new table)) = take n (drop (unat (cmd_offset ?c) + (off - lens (take i table))) ?src)" .
  have "length (rebuild old new [?c]) = min (unat (get_length ?c)) (length ?src - unat (cmd_offset ?c))" unfolding c by (simp add: min.commute)
  then have "off + n \<le> lens (take i table) + (length ?src - unat (cmd_offset ?c))" using m by linarith
  then show "unat (cmd_offset ?c) + (off - lens (take i table)) + n \<le> length ?src" using off(1) n by linarith
qed

lemma chain_section_ok:
  assumes old: "delivers files old_file old" and new: "delivers files new_file new"
    and table: "usable old new table" "lens table < 2 ^ 64" and "unat offset + unat sz \<le> length (rebuild old new table)"
  shows "section_bytes files (chain_reconstruct_section old_file new_file (chain_link_new table) dst offset sz) =
    section_bytes files dst @ take (unat sz) (drop (unat offset) (rebuild old new table))"
  using assms(5)
proof (induction "unat sz" arbitrary: dst offset sz rule: less_induct)
  case less
  show ?case
  proof (cases "sz = 0")
    case True
    then show ?thesis by (simp add: chain_reconstruct_section.simps [of old_file new_file])
  next
    case False
    let ?off = "unat offset"
    have nz: "\<forall>c \<in> set table. get_length c \<noteq> 0" using table(1) by (simp add: usable_def)
    have sz: "0 < unat sz" using False by (simp add: unat_gt_0)
    then obtain i where i: "i < length table" "lens (take i table) \<le> ?off" "?off < lens (take (Suc i) table)"
      using covering_command [of ?off table] less.prems length_rebuild_le [of old new table] by auto
    let ?c = "table ! i"
    define n where "n = min (unat sz) (lens (take (Suc i) table) - ?off)"
    have n: "0 < n" "n \<le> unat sz" "?off + n \<le> lens (take (Suc i) table)" using sz i(3) by (auto simp: n_def)
    have lens_i: "lens (take (Suc i) table) = lens (take i table) + unat (get_length ?c)" by (rule lens_take_Suc [OF i(1)])
    have "?off + n \<le> length (rebuild old new table)" using less.prems n(2) by linarith
    note piece_of = rebuild_piece [OF table(1) i(1,2) n(3) this n(1)]
    have tr: "chain_transform_offset (chain_link_new table) offset = Some (i, cmd_offset ?c + word_of_nat (?off - lens (take i table)))"
      using chain_transform_covering [OF table(2) i nz] by simp
    have part: "part_virtual (chain_link_new table ! i) = word_of_nat (lens (take i table))" "part_size (chain_link_new table ! i) = get_length ?c"
      "part_file (chain_link_new table ! i) = (if copy_from_old ?c then 0 else 1)"
      using chain_parts_nth [OF i(1), of 0] by (simp_all add: chain_link_new_parts [OF table(2)])
    define consumed where "consumed = min sz (get_length ?c - (offset - word_of_nat (lens (take i table))))"
    have consumed: "unat consumed = n"
    proof -
      have "offset - word_of_nat (lens (take i table)) = (word_of_nat (?off - lens (take i table)) :: u64)" using i(2) by (simp add: of_nat_diff)
      moreover have small: "?off - lens (take i table) < 2 ^ 64" using unsigned_less [of offset, where 'a = nat] by simp
      ultimately have d: "unat (offset - word_of_nat (lens (take i table))) = ?off - lens (take i table)" by (simp add: unat_of_nat)
      have "unat (get_length ?c - (offset - word_of_nat (lens (take i table)))) = unat (get_length ?c) - (?off - lens (take i table))"
        unfolding d [symmetric] by (rule unat_sub) (use i(2,3) lens_i d in \<open>simp add: word_le_nat_alt\<close>)
      moreover have "unat (min a b) = min (unat a) (unat b)" for a b :: u64 by (simp add: min_def word_le_nat_alt)
      ultimately show ?thesis unfolding consumed_def n_def lens_i using i(2) by simp
    qed
    define stream where "stream = (if copy_from_old ?c then old_file else new_file)"
    define src where "src = (if copy_from_old ?c then old else new)"
    have deliv: "delivers files stream src" using old new by (simp add: stream_def src_def)
    have src: "length src < 2 ^ 64" "unat (cmd_offset ?c) + (?off - lens (take i table)) + n \<le> length src"
      using deliv piece_of(2) by (simp_all add: delivers_def src_def)
    define physical where "physical = cmd_offset ?c + word_of_nat (?off - lens (take i table))"
    have "unat (word_of_nat (?off - lens (take i table)) :: u64) = ?off - lens (take i table)"
      using src by (simp add: unat_of_nat)
    then have phys: "unat physical = unat (cmd_offset ?c) + (?off - lens (take i table))"
      unfolding physical_def using src n(1) by (subst unat_add_small) simp_all
    have step: "chain_reconstruct_section old_file new_file (chain_link_new table) dst offset sz =
        chain_reconstruct_section old_file new_file (chain_link_new table)
          (stream dst physical consumed) (offset + consumed) (sz - consumed)"
      using False by (subst chain_reconstruct_section.simps) (simp add: tr part consumed_def stream_def physical_def Let_def)
    have piece: "section_bytes files (stream dst physical consumed) = section_bytes files dst @ take n (drop ?off (rebuild old new table))"
      using deliv src(2) unfolding delivers_def piece_of(1)
      by (simp add: phys consumed src_def)
    have sz': "unat (sz - consumed) = unat sz - n"
      using n(2) unfolding consumed [symmetric] by (intro unat_sub) (simp add: word_le_nat_alt)
    have off': "unat (offset + consumed) = ?off + n"
      using less.prems n(2) table(2) length_rebuild_le [of old new table] by (subst unat_add_small) (simp_all add: consumed)
    have "section_bytes files (chain_reconstruct_section old_file new_file (chain_link_new table) dst offset sz)
        = (section_bytes files dst @ take n (drop ?off (rebuild old new table)))
          @ take (unat sz - n) (drop (?off + n) (rebuild old new table))"
      unfolding step piece [symmetric] off' [symmetric] sz' [symmetric]
      by (rule less.hyps) (use sz' off' n less.prems in simp_all)
    also have "\<dots> = section_bytes files dst @ take (n + (unat sz - n)) (drop ?off (rebuild old new table))"
      unfolding take_add by (simp add: add.commute)
    finally show ?thesis using n(2) by simp
  qed
qed

lemma chain_link_delivers:
  assumes "delivers files old_file old" and "delivers files new_file new"
    and "usable old new table" and "lens table < 2 ^ 64"
  shows "delivers files (chain_reconstruct_section old_file new_file (chain_link_new table)) (rebuild old new table)"
  using chain_section_ok [OF assms] length_rebuild_le [of old new table] assms(4) unfolding delivers_def by auto

text \<open>C28. A link of a chain of versions, over a table of commands that are not empty, that all except the last one name
  bytes which their files have, and whose lengths sum up to less than \<open>2 ^ 64\<close>: when the streams of the old and the
  new version list sections with their own bytes, the link lists, for every range of the file that the commands rebuild, sections with the bytes
  of that range. The last command may announce more bytes than its file has, as the comparer's command for a short last block does; the file that the
  commands rebuild has only those that exist.\<close>

theorem chain_reconstructs:
  assumes "delivers files old_file old" and "delivers files new_file new"
    and "usable old new table" and "lens table < 2 ^ 64"
  shows "delivers files (chain_reconstruct_section old_file new_file (chain_link_new table)) (rebuild old new table)"
  by (rule chain_link_delivers [OF assms])

definition example_commands :: "rsync_command list" where
  "example_commands = [\<lparr>cmd_offset = 0, cmd_length = 1\<rparr>, \<lparr>cmd_offset = 1, cmd_length = command_mask + 5\<rparr>]"

text \<open>Two versions: the byte 9 of the new one, then the block from byte 1 of the old file, which has only two of the five
  bytes of a block.\<close>

theorem chain_reconstructs_witness:
  "section_bytes (\<lambda>i. if i = 1 then [1, 2, 3] else [9])
     (chain_reconstruct_section (normal_reconstruct_section 1) (normal_reconstruct_section 2) (chain_link_new example_commands) [] 0 3) = [9, 2, 3]"
proof -
  let ?files = "\<lambda>i :: u64. if i = 1 then [1, 2, 3] else [9 :: byte]"
  have d: "delivers ?files (normal_reconstruct_section 1) [1, 2, 3]" "delivers ?files (normal_reconstruct_section 2) [9]"
    using normal_file_delivers [of ?files 1] normal_file_delivers [of ?files 2] by simp_all
  have c: "command_is False 0 1 \<lparr>cmd_offset = 0, cmd_length = 1\<rparr>" "command_is True 1 5 \<lparr>cmd_offset = 1, cmd_length = command_mask + 5\<rparr>"
    by (simp_all add: command_is_def)
  have u: "usable [1, 2, 3] [9] example_commands" "lens example_commands < 2 ^ 64"
    using command_is_fields [OF c(1)] command_is_fields [OF c(2)] by (simp_all add: example_commands_def usable_def inside_def unat_eq_0)
  have r: "rebuild [1, 2, 3] [9 :: byte] example_commands = [9, 2, 3]"
    unfolding example_commands_def using rebuild_command [OF c(1)] rebuild_command [OF c(2)] by (subst rebuild_Cons) simp
  from chain_reconstructs [OF d u] show ?thesis unfolding r by (simp add: delivers_def section_bytes_def)
qed

text \<open>The condition of \<open>seek\<close> is inverted: for every offset inside the rebuilt file it refuses.\<close>

lemma chain_seek_refuses:
  assumes "\<forall>c \<in> set table. inside old new c" and "length (rebuild old new table) < 2 ^ 64" and "off < length (rebuild old new table)"
  shows "chain_seek old_seek new_seek (chain_link_new table) unset (word_of_nat off) = Some False"
proof -
  have l: "length (rebuild old new table) = lens table" by (rule length_rebuild [OF assms(1)])
  then obtain i where "i < length table" "lens (take i table) \<le> off" "off < lens (take (Suc i) table)"
    using covering_command [of off table] assms(3) by auto
  with chain_transform_covering [of table i off] show ?thesis
    using assms(1,2) l by (simp add: chain_seek_def inside_def)
qed

subsection \<open>A link over the commands of a comparison\<close>

lemma command_is_self: "command_is (copy_from_old c) (unat (cmd_offset c)) (unat (get_length c)) c"
proof -
  let ?w = "cmd_length c"
  have g: "get_length c = take_bit 63 ?w"
    by (rule bit_word_eqI) (auto simp: get_length_def bit_and_iff bit_not_iff bit_command_mask bit_take_bit_iff)
  have "unat (take_bit 63 ?w) = take_bit 63 (unat ?w)" by (rule unsigned_take_bit_eq)
  then have less: "unat (get_length c) < 2 ^ 63" unfolding g by (simp only: take_bit_nat_less_exp)
  have "unat (drop_bit 63 ?w) < 2" using unsigned_less [of ?w, where 'a = nat] by (simp add: drop_bit_eq_div unat_div)
  then have top: "drop_bit 63 ?w = (if copy_from_old c then 1 else 0)"
    unfolding copy_from_old_def by (cases "unat (drop_bit 63 ?w) = 0") (auto simp only: unat_eq_0 if_False not_True_eq_False if_True
        intro!: word_unat_eq_iff [THEN iffD2], simp_all)
  have "?w = push_bit 63 (drop_bit 63 ?w) + take_bit 63 ?w" by (simp only: bits_ident)
  then show ?thesis using less unsigned_less [of "cmd_offset c", where 'a = nat]
    unfolding command_is_def top g command_mask_def by auto
qed

lemma command_shorten:
  assumes "copy_from_old c" and "e \<le> unat (get_length c)"
  shows "command_is True (unat (cmd_offset c)) (unat (get_length c) - e) (c\<lparr>cmd_length := cmd_length c - word_of_nat e\<rparr>)"
proof -
  have "unat (get_length c) - e < 2 ^ 63" using command_is_self [of c] unfolding command_is_def by linarith
  then show ?thesis using command_is_self [of c] assms by (simp add: command_is_def of_nat_diff)
qed

text \<open>The commands of a comparison are such a table, even when the last one announces too many bytes.\<close>

lemma announced_usable:
  assumes "announced e old new cmds"
  shows "usable old new cmds" and "rebuild old new cmds = new" and "lens cmds = length new + e"
proof -
  have cov: "\<forall>c \<in> set (shorten_last e cmds). inside old new c" "rebuild old new (shorten_last e cmds) = new"
    using assms by (simp_all add: announced_def covers_def)
  have len: "lens (shorten_last e cmds) = length new" using length_rebuild [OF cov(1)] cov(2) by simp
  have "usable old new cmds \<and> rebuild old new cmds = new \<and> lens cmds = length new + e"
  proof (cases "e = 0")
    case True
    then have "\<forall>c \<in> set cmds. inside old new c \<and> get_length c \<noteq> 0" using cov(1) by (simp add: shorten_last_def inside_def)
    then have "usable old new cmds" unfolding usable_def by (blast dest: in_set_butlastD)
    then show ?thesis using cov(2) len True by (simp add: shorten_last_def)
  next
    case False
    then have l: "cmds \<noteq> []" "copy_from_old (last cmds)" "e < unat (get_length (last cmds))"
      "unat (cmd_offset (last cmds)) + unat (get_length (last cmds)) = length old + e"
      using assms by (simp_all add: announced_def)
    let ?l = "last cmds" and ?s = "(last cmds)\<lparr>cmd_length := cmd_length (last cmds) - word_of_nat e\<rparr>"
    have cmds: "cmds = butlast cmds @ [?l]" "shorten_last e cmds = butlast cmds @ [?s]" using l(1) False by (simp_all add: shorten_last_def)
    note s = command_shorten [OF l(2) less_imp_le [OF l(3)]]
    have "rebuild old new [?s] = rebuild old new [?l]"
      unfolding rebuild_command [OF s] using rebuild_command [OF command_is_self [of ?l]] l(2,3,4) by simp
    then have "rebuild old new cmds = new" using cov(2) cmds by (metis rebuild_simps(2))
    moreover have "usable old new cmds"
    proof -
      have "\<forall>c \<in> set (butlast cmds). inside old new c" using cov(1) by (simp add: cmds(2))
      moreover have "get_length ?l \<noteq> 0" using l(3) by auto
      ultimately have "\<forall>c \<in> set (butlast cmds @ [?l]). get_length c \<noteq> 0" by (simp add: inside_def)
      then show ?thesis using \<open>\<forall>c \<in> set (butlast cmds). inside old new c\<close> unfolding usable_def by (simp flip: cmds(1))
    qed
    moreover have "lens cmds = lens (shorten_last e cmds) + e"
      unfolding cmds(2) by (subst cmds(1)) (use l(3) command_is_fields(3) [OF s] in simp)
    ultimately show ?thesis using len by simp
  qed
  then show "usable old new cmds" "rebuild old new cmds = new" "lens cmds = length new + e" by simp_all
qed

text \<open>C40. A comparison and the link over its commands together, for a hash that does not confuse a block of the old file
  with a different part of the new one: where the streams of the old and the new version list sections with the bytes of the two files, the link
  lists, for every range of the new file, sections with the bytes of that range. This includes the commands whose
  last one announces too many bytes. The link may stand for the old version in the next comparison.\<close>

theorem comparer_chain_delivers:
  assumes "file_reads old_read old" and "length old < 2 ^ 61" and "file_reads new_read new" and "length new < 2 ^ 61"
    and "rsyncable_file_new old_read fresh sha1 None (word_of_nat (length old)) stream0 (length old + 1) = Some (Inr f)"
    and "file_comparer_new new_read fresh None (word_of_nat (length new)) reader0 f fc0 = Inr c"
    and "no_collision sha1 (unat (rf_block_size f)) old new" and "n = unat (scaler_function (word_of_nat (length new)))"
    and "length new + 3 \<le> fuel" and "delivers files old_file old" and "delivers files new_file new"
  shows "\<exists>c'. fc_process False new_read fresh sha1 None fuel c = Some (Inr (), c')
    \<and> delivers files (chain_reconstruct_section old_file new_file (chain_link_new (fc_result c'))) new"
proof -
  obtain c1 e where c1: "process_loop False new_read fresh sha1 None fuel (c\<lparr>fc_state := Initial\<rparr>) = Some (Inr (), c1)"
    "announced e old new (fc_result c1)" "e < unat (rf_block_size f)" "unat (rf_block_size f) < 2 ^ 61"
    using comparer_run [OF assms(1-9)] by blast
  note u = announced_usable [OF c1(2)]
  have "lens (fc_result c1) < 2 ^ 64" using u(3) c1(3,4) assms(4) by simp
  from chain_link_delivers [OF assms(10,11) u(1) this]
  have "delivers files (chain_reconstruct_section old_file new_file (chain_link_new (fc_result c1))) new" unfolding u(2) .
  moreover have "fc_result (request_thread_stop fresh c1) = fc_result c1"
    by (simp add: request_thread_stop_def process_new_buffer_def Let_def)
  ultimately show ?thesis using c1(1) by (intro exI [of _ "request_thread_stop fresh c1"]) (simp add: fc_process_def)
qed

text \<open>The file of three bytes compared with itself; the range is its last two bytes, which come from the old file.\<close>

theorem comparer_chain_delivers_witness:
  "\<forall>fresh stream0 reader0 fc0. \<exists>f c c'. rsyncable_file_new example_read fresh (\<lambda>data. data) None 3 stream0 4 = Some (Inr f)
    \<and> file_comparer_new example_read fresh None 3 reader0 f fc0 = Inr c
    \<and> fc_process False example_read fresh (\<lambda>data. data) None 6 c = Some (Inr (), c')
    \<and> section_bytes (\<lambda>i. [5, 6, 7]) (chain_reconstruct_section (normal_reconstruct_section 1) (normal_reconstruct_section 2)
         (chain_link_new (fc_result c')) [] 1 2) = [6, 7]"
proof (intro allI)
  fix fresh :: "nat \<Rightarrow> byte" and stream0 :: block_reader and reader0 :: byte_reader and fc0 :: file_comparer
  let ?N = "[5, 6, 7 :: byte]" and ?h = "\<lambda>data :: byte list. data" and ?files = "\<lambda>i :: u64. [5, 6, 7 :: byte]"
  obtain f c where fc: "rsyncable_file_new example_read fresh ?h None (word_of_nat (length ?N)) stream0 (length ?N + 1) = Some (Inr f)"
    "file_comparer_new example_read fresh None (word_of_nat (length ?N)) reader0 f fc0 = Inr c"
    using example_comparer [of fresh stream0 reader0 fc0] by blast
  have coll: "no_collision ?h (unat (rf_block_size f)) ?N ?N" by (simp add: no_collision_def)
  have d: "delivers ?files (normal_reconstruct_section 1) ?N" "delivers ?files (normal_reconstruct_section 2) ?N"
    using normal_file_delivers [of ?files 1] normal_file_delivers [of ?files 2] by simp_all
  have n: "length ?N < 2 ^ 61" "length ?N + 3 \<le> 6" by simp_all
  obtain c' where c': "fc_process False example_read fresh ?h None 6 c = Some (Inr (), c')"
    "delivers ?files (chain_reconstruct_section (normal_reconstruct_section 1) (normal_reconstruct_section 2) (chain_link_new (fc_result c'))) ?N"
    using comparer_chain_delivers [OF example_read_reads n(1) example_read_reads n(1) fc coll refl n(2) d] by blast
  from c'(2) have "section_bytes ?files (chain_reconstruct_section (normal_reconstruct_section 1) (normal_reconstruct_section 2)
      (chain_link_new (fc_result c')) [] 1 2) = [6, 7]" by (simp add: delivers_def section_bytes_def)
  moreover have "rsyncable_file_new example_read fresh ?h None 3 stream0 4 = Some (Inr f)"
    "file_comparer_new example_read fresh None 3 reader0 f fc0 = Inr c"
    using fc by (simp_all add: eval_nat_numeral)
  ultimately show "\<exists>f c c'. rsyncable_file_new example_read fresh ?h None 3 stream0 4 = Some (Inr f)
    \<and> file_comparer_new example_read fresh None 3 reader0 f fc0 = Inr c
    \<and> fc_process False example_read fresh ?h None 6 c = Some (Inr (), c')
    \<and> section_bytes ?files (chain_reconstruct_section (normal_reconstruct_section 1) (normal_reconstruct_section 2)
         (chain_link_new (fc_result c')) [] 1 2) = [6, 7]" using c'(1) by blast
qed

subsection \<open>Reading a normal file\<close>

definition nf_rest :: "byte list \<Rightarrow> normal_file \<Rightarrow> byte list" where
  "nf_rest content f = drop (sb_capacity (nf_temp f) - sb_size (nf_temp f)) (sb_data (nf_temp f)) @ br_rest content (nf_reader f)"

definition nf_ok :: "os_read \<Rightarrow> byte list \<Rightarrow> normal_file \<Rightarrow> bool" where
  "nf_ok os_read content f \<longleftrightarrow> file_reads os_read content \<and> br_ok content (nf_reader f)
     \<and> length (sb_data (nf_temp f)) = sb_capacity (nf_temp f) \<and> sb_size (nf_temp f) \<le> sb_capacity (nf_temp f)"

lemma sb_assign_flat:
  assumes "cb_flat buffer" and "length (sb_data sb) = sb_capacity sb"
  shows "sb_data (sb_assign fresh buffer sb) = cb_contents buffer" and "sb_capacity (sb_assign fresh buffer sb) = cb_size buffer"
    and "sb_size (sb_assign fresh buffer sb) = cb_size buffer"
proof -
  have p: "cb_process_whole f buffer s = f (cb_contents buffer) s" for f and s :: simple_buffer
    using assms(1) by (simp add: cb_process_whole_def cb_flat_def cb_flat_contents)
  show "sb_data (sb_assign fresh buffer sb) = cb_contents buffer" "sb_capacity (sb_assign fresh buffer sb) = cb_size buffer"
    "sb_size (sb_assign fresh buffer sb) = cb_size buffer"
    using assms(2) by (simp_all add: sb_assign_def p sb_realloc_def Let_def put_bytes_def)
qed

lemma normal_read_loop_ok:
  assumes "nf_ok os_read content f" and "2 * sz + (if sb_size (nf_temp f) = 0 \<or> sz = 0 then 1 else 0) \<le> fuel"
  shows "\<exists>f'. normal_read_loop os_read fresh fuel sz dst f = Some (True, dst @ take sz (nf_rest content f), f')
    \<and> nf_ok os_read content f' \<and> nf_rest content f' = drop sz (nf_rest content f)"
  using assms
proof (induction fuel arbitrary: sz dst f)
  case 0
  then show ?case by (auto split: if_splits)
next
  case (Suc fuel)
  let ?t = "nf_temp f" and ?rest = "nf_rest content f"
  have ok: "file_reads os_read content" "br_ok content (nf_reader f)" "length (sb_data ?t) = sb_capacity ?t" "sb_size ?t \<le> sb_capacity ?t"
    using Suc.prems(1) by (simp_all add: nf_ok_def)
  show ?case
  proof (cases "sz = 0")
    case True
    then show ?thesis using Suc.prems(1) by simp
  next
    case sz: False
    show ?thesis
    proof (cases "sb_size ?t = 0")
      case False
      let ?k = "min (sb_size ?t) sz"
      define f1 where "f1 = f\<lparr>nf_temp := ?t\<lparr>sb_size := sb_size ?t - ?k\<rparr>\<rparr>"
      have k: "0 < ?k" "?k \<le> sz" "?k \<le> sb_size ?t" using sz False by simp_all
      have bytes: "take ?k (drop (sb_capacity ?t - sb_size ?t) (sb_data ?t)) = take ?k ?rest" using ok k(3) by (simp add: nf_rest_def)
      have "sb_capacity ?t - (sb_size ?t - ?k) = ?k + (sb_capacity ?t - sb_size ?t)" using ok(4) k(3) by linarith
      then have rest1: "nf_rest content f1 = drop ?k ?rest" using ok k(3) by (simp add: f1_def nf_rest_def)
      have ok1: "nf_ok os_read content f1" using Suc.prems(1) by (auto simp: f1_def nf_ok_def)
      have fuel: "2 * (sz - ?k) + (if sb_size (nf_temp f1) = 0 \<or> sz - ?k = 0 then 1 else 0) \<le> fuel"
        using Suc.prems(2) False sz k by (auto split: if_splits)
      have step: "normal_read_loop os_read fresh (Suc fuel) sz dst f = normal_read_loop os_read fresh fuel (sz - ?k) (dst @ take ?k ?rest) f1"
        using sz False by (simp add: Let_def f1_def bytes)
      from Suc.IH [OF ok1 fuel, of "dst @ take ?k ?rest"] obtain f' where f': "nf_ok os_read content f'"
        "normal_read_loop os_read fresh fuel (sz - ?k) (dst @ take ?k ?rest) f1 = Some (True, (dst @ take ?k ?rest) @ take (sz - ?k) (drop ?k ?rest), f')"
        "nf_rest content f' = drop (sz - ?k) (drop ?k ?rest)" unfolding rest1 by blast
      have "take ?k ?rest @ take (sz - ?k) (drop ?k ?rest) = take sz ?rest" "drop (sz - ?k) (drop ?k ?rest) = drop sz ?rest"
        using k(2) by (metis le_add_diff_inverse take_add) (simp add: min_def)
      then show ?thesis unfolding step using f' by simp
    next
      case True
      obtain ret buffer reader where nb: "next_block os_read fresh (cb_new fresh 1) (nf_reader f) = (ret, buffer, reader)"
        by (cases "next_block os_read fresh (cb_new fresh 1) (nf_reader f)")
      note n = next_block_ok [OF ok(1,2) _ nb, simplified]
      have rest: "?rest = br_rest content (nf_reader f)" using True ok(3) by (simp add: nf_rest_def)
      show ?thesis
      proof (cases "br_rest content (nf_reader f) = []")
        case empty: True
        then show ?thesis using sz True n ok rest
          by (intro exI [of _ "f\<lparr>nf_reader := reader\<rparr>"]) (simp add: nb [unfolded One_nat_def] nf_ok_def nf_rest_def)
      next
        case False
        let ?bs = "br_block_size (nf_reader f)"
        have bs: "0 < ?bs" "\<not> sr_eof (nf_reader f)" using ok(2) False by (auto simp: br_ok_def)
        then have b: "cb_flat buffer" "cb_contents buffer = take ?bs ?rest" using n rest by (simp_all add: filling_def)
        define f1 where "f1 = f\<lparr>nf_reader := reader, nf_temp := sb_assign fresh buffer ?t\<rparr>"
        note a = sb_assign_flat [OF b(1) ok(3)]
        have t1: "sb_size (nf_temp f1) \<noteq> 0" using arg_cong [OF b(2), of length] bs(1) False rest by (simp add: f1_def a)
        have ok1: "nf_ok os_read content f1" using n ok a by (simp add: f1_def nf_ok_def flip: length_cb_contents)
        have rest1: "nf_rest content f1 = ?rest" using n a b(2) rest by (simp add: f1_def nf_rest_def)
        have fuel: "2 * sz + (if sb_size (nf_temp f1) = 0 \<or> sz = 0 then 1 else 0) \<le> fuel" using Suc.prems(2) True sz t1 by simp
        have step: "normal_read_loop os_read fresh (Suc fuel) sz dst f = normal_read_loop os_read fresh fuel sz dst f1"
          using sz True nb n False by (simp add: Let_def f1_def)
        from Suc.IH [OF ok1 fuel, of dst] show ?thesis unfolding step rest1 .
      qed
    qed
  qed
qed

text \<open>C38. Reading a normal file returns the next bytes, as many as were asked for unless the file ends before, and the next
  read goes on where this one ended.\<close>

theorem normal_read_continues:
  assumes "nf_ok os_read content f"
  shows "\<exists>f'. normal_read os_read fresh sz f = Some (True, take sz (nf_rest content f), f') \<and> nf_ok os_read content f'
    \<and> nf_rest content f' = drop sz (nf_rest content f)"
  using normal_read_loop_ok [OF assms, of sz "2 * sz + 1" fresh "[]"] by (simp add: normal_read_def)

theorem normal_read_continues_witness:
  "\<forall>fresh reader0. \<exists>f f' f''. normal_file_new None fresh reader0 1 = Inr f
    \<and> normal_read example_read fresh 2 f = Some (True, [5, 6], f') \<and> normal_read example_read fresh 2 f' = Some (True, [7], f'')"
proof (intro allI)
  fix fresh and reader0 :: block_reader
  let ?N = "[5, 6, 7 :: byte]"
  obtain r where r: "br_init None fresh 0 reader0 = Inr r" "br_ok ?N r" "br_rest ?N r = ?N"
    using br_init_ok [of ?N fresh 0 reader0] by auto
  define f where "f = \<lparr>nf_reader = r, nf_temp = sb_new fresh 0, nf_unique_id = 1\<rparr>"
  have new: "normal_file_new None fresh reader0 1 = Inr f" using r(1) by (simp add: normal_file_new_def f_def)
  have ok: "nf_ok example_read ?N f" "nf_rest ?N f = ?N"
    using r(2,3) example_read_reads by (simp_all add: f_def nf_ok_def nf_rest_def sb_new_def sb_realloc_def)
  obtain f' where f': "normal_read example_read fresh 2 f = Some (True, [5, 6], f')" "nf_ok example_read ?N f'" "nf_rest ?N f' = [7]"
    using normal_read_continues [OF ok(1), of fresh 2] ok(2) by auto
  obtain f'' where "normal_read example_read fresh 2 f' = Some (True, [7], f'')"
    using normal_read_continues [OF f'(2), of fresh 2] f'(3) by auto
  with new f'(1) show "\<exists>f f' f''. normal_file_new None fresh reader0 1 = Inr f
    \<and> normal_read example_read fresh 2 f = Some (True, [5, 6], f') \<and> normal_read example_read fresh 2 f' = Some (True, [7], f'')" by blast
qed

end
