(* ===== verification/Rdiff.thy ===== *)
theory Rdiff
  imports Block_Reader
begin

unbundle bit_operations_syntax

text \<open>
  The division of a text file into lines, Rdiff.h and Rdiff.cpp of src/BackupEngineNativePart, as built for 64 bits.
  Lines end with CR, LF or CR LF; a line keeps its end. The state of the loop (the line so far, the lines, whether the last byte was a
  CR, the offset of the line) survives from block to block. \<open>lines_of\<close> is the specification on the whole text.
\<close>

subsection \<open>text\_file\_line\<close>

datatype text_file_line = Text_file_line (line_hash: u64) (line_offset: u64) (line_string: "byte list")

text \<open>The code compares signed characters.\<close>

fun strcmp2 :: "byte list \<Rightarrow> byte list \<Rightarrow> int" where
  "strcmp2 (a # as) (b # bs) = (let diff = sint a - sint b in if diff \<noteq> 0 then diff else strcmp2 as bs)"
| "strcmp2 [] (b # bs) = - 1"
| "strcmp2 (a # as) [] = 1"
| "strcmp2 [] [] = 0"

lemma strcmp2_zero: "strcmp2 as bs = 0 \<longleftrightarrow> as = bs"
  by (induction as bs rule: strcmp2.induct) (auto simp: Let_def intro: signed_word_eqI)

lemma strcmp2_swap: "strcmp2 bs as < 0 \<longleftrightarrow> 0 < strcmp2 as bs"
  by (induction as bs rule: strcmp2.induct) (auto simp: Let_def)

lemma strcmp2_trans: "strcmp2 as bs < 0 \<Longrightarrow> strcmp2 bs cs < 0 \<Longrightarrow> strcmp2 as cs < 0"
proof (induction as bs arbitrary: cs rule: strcmp2.induct)
  case (1 a as b bs)
  then show ?case by (cases cs) (auto simp: Let_def split: if_splits)
next
  case (2 b bs)
  then show ?case by (cases cs) auto
qed simp_all

text \<open>The code's \<open>operator<\<close>, and the order it gives.\<close>

definition text_file_line_less :: "text_file_line \<Rightarrow> text_file_line \<Rightarrow> bool" where
  "text_file_line_less a b =
     (if line_hash a < line_hash b then True
      else if line_hash a > line_hash b then False
      else let cmp = strcmp2 (line_string a) (line_string b)
           in if cmp < 0 then True else if cmp > 0 then False else line_offset a < line_offset b)"

instantiation text_file_line :: linorder
begin

definition less_text_file_line :: "text_file_line \<Rightarrow> text_file_line \<Rightarrow> bool" where
  "less_text_file_line = text_file_line_less"

definition less_eq_text_file_line :: "text_file_line \<Rightarrow> text_file_line \<Rightarrow> bool" where
  "less_eq_text_file_line a b \<longleftrightarrow> a < b \<or> a = (b :: text_file_line)"

lemma line_total: "a < b \<or> a = b \<or> b < (a :: text_file_line)"
  using strcmp2_zero [of "line_string a" "line_string b"] strcmp2_swap [of "line_string b" "line_string a"]
    strcmp2_swap [of "line_string a" "line_string b"]
  by (cases a; cases b) (auto simp: less_text_file_line_def text_file_line_less_def Let_def)

lemma line_trans: "a < b \<Longrightarrow> b < c \<Longrightarrow> a < (c :: text_file_line)"
  using strcmp2_trans [of "line_string a" "line_string b" "line_string c"]
    strcmp2_zero [of "line_string a" "line_string b"] strcmp2_zero [of "line_string b" "line_string c"]
  by (auto simp: less_text_file_line_def text_file_line_less_def Let_def split: if_splits)

lemma line_irrefl: "\<not> a < (a :: text_file_line)"
  using strcmp2_zero [of "line_string a" "line_string a"] by (simp add: less_text_file_line_def text_file_line_less_def)

instance
proof
  fix a b c :: text_file_line
  show "a < b \<longleftrightarrow> a \<le> b \<and> \<not> b \<le> a" using line_trans [of a b a] line_irrefl [of a] by (auto simp: less_eq_text_file_line_def)
  show "a \<le> a" by (simp add: less_eq_text_file_line_def)
  show "a \<le> b \<Longrightarrow> b \<le> c \<Longrightarrow> a \<le> c" using line_trans [of a b c] by (auto simp: less_eq_text_file_line_def)
  show "a \<le> b \<Longrightarrow> b \<le> a \<Longrightarrow> a = b" using line_trans [of a b a] line_irrefl [of a] by (auto simp: less_eq_text_file_line_def)
  show "a \<le> b \<or> b \<le> a" using line_total [of a b] by (auto simp: less_eq_text_file_line_def)
qed

end

definition simple_hash :: "byte list \<Rightarrow> u64" where
  "simple_hash string = fold (\<lambda>c ret. (ret * 0x8BADF00DDEADBEEF) XOR scast c) string 0xF00BA8"

definition to_text_file_line :: "byte list \<Rightarrow> u64 \<Rightarrow> text_file_line" where
  "to_text_file_line string offset = Text_file_line (simple_hash string) offset string"

subsection \<open>split\_file\<close>

record split_state =
  sp_accumulator :: "byte list"
  sp_ret :: "text_file_line list"
  sp_CR :: bool
  sp_start_offset :: u64

definition push_line :: "split_state \<Rightarrow> split_state" where
  "push_line s = s\<lparr>sp_ret := sp_ret s @ [to_text_file_line (sp_accumulator s) (sp_start_offset s)],
     sp_start_offset := sp_start_offset s + word_of_nat (length (sp_accumulator s)), sp_accumulator := []\<rparr>"

definition split_byte :: "byte \<Rightarrow> split_state \<Rightarrow> split_state" where
  "split_byte c s =
     (let s = (if sp_CR s then
                 let s = s\<lparr>sp_CR := False\<rparr> in if c \<noteq> 0x0A then push_line s else s
               else s);
          s = s\<lparr>sp_accumulator := sp_accumulator s @ [c]\<rparr>
      in if c = 0x0D then s\<lparr>sp_CR := True\<rparr> else if c = 0x0A then push_line s else s)"

text \<open>The loop over the blocks; one more iteration than there are bytes is enough.\<close>

fun split_loop :: "os_read \<Rightarrow> (nat \<Rightarrow> byte) \<Rightarrow> nat \<Rightarrow> circular_buffer \<Rightarrow> block_reader \<Rightarrow> split_state \<Rightarrow> (u32 + split_state) option" where
  "split_loop os_read fresh 0 temp reader s = None"
| "split_loop os_read fresh (Suc fuel) temp reader s =
     (if \<not> sr_eof reader then
        (case next_block os_read fresh temp reader of
           (Inl e, temp, reader) \<Rightarrow> Some (Inl e)
         | (Inr again, temp, reader) \<Rightarrow>
             if \<not> again then Some (Inr s)
             else split_loop os_read fresh fuel temp reader (cb_process_whole (fold split_byte) temp s))
      else Some (Inr s))"

definition split_file :: "os_read \<Rightarrow> (nat \<Rightarrow> byte) \<Rightarrow> u32 option \<Rightarrow> block_reader \<Rightarrow> nat \<Rightarrow> (u32 + text_file_line list) option" where
  "split_file os_read fresh open_error reader0 fuel =
     (case br_init open_error fresh 0 reader0 of
        Inl e \<Rightarrow> Some (Inl e)
      | Inr reader \<Rightarrow>
          (case split_loop os_read fresh fuel (cb_new fresh 1) reader
                  \<lparr>sp_accumulator = [], sp_ret = [], sp_CR = False, sp_start_offset = 0\<rparr> of
             None \<Rightarrow> None
           | Some (Inl e) \<Rightarrow> Some (Inl e)
           | Some (Inr s) \<Rightarrow> Some (Inr (sort (sp_ret s @ [to_text_file_line (sp_accumulator s) (sp_start_offset s)])))))"

subsection \<open>The lines of a text\<close>

text \<open>What follows the last line end is a line too, an empty one if nothing follows; a CR at the very end stays open.\<close>

fun lines_of :: "byte list \<Rightarrow> byte list list" where
  "lines_of [] = [[]]"
| "lines_of [c] = (if c = 0x0A then [[c], []] else [[c]])"
| "lines_of (c # d # cs) =
     (if c = 0x0A \<or> c = 0x0D \<and> d \<noteq> 0x0A then [c] # lines_of (d # cs)
      else (c # hd (lines_of (d # cs))) # tl (lines_of (d # cs)))"

lemma lines_of_nonempty [simp]: "lines_of cs \<noteq> []"
  by (induction cs rule: lines_of.induct) auto

lemma concat_lines_of: "concat (lines_of cs) = cs"
proof (induction cs rule: lines_of.induct)
  case (3 c d cs)
  then show ?case by (cases "lines_of (d # cs)") auto
qed auto

text \<open>Lines with their hashes and offsets.\<close>

fun line_items :: "nat \<Rightarrow> byte list list \<Rightarrow> text_file_line list" where
  "line_items off [] = []"
| "line_items off (l # ls) = to_text_file_line l (word_of_nat off) # line_items (off + length l) ls"

text \<open>The state while the text is processed.\<close>

definition finish_split :: "split_state \<Rightarrow> text_file_line list" where
  "finish_split s = sp_ret s @ [to_text_file_line (sp_accumulator s) (sp_start_offset s)]"

text \<open>A pending CR ends the line unless LF follows.\<close>

lemma split_byte_CR:
  "sp_CR s \<Longrightarrow> split_byte d s = split_byte d (if d \<noteq> 0x0A then push_line (s\<lparr>sp_CR := False\<rparr>) else s\<lparr>sp_CR := False\<rparr>)"
  by (simp add: split_byte_def push_line_def Let_def)

lemma CR_LF: "(0x0D :: byte) \<noteq> 0x0A" "(0x0A :: byte) \<noteq> 0x0D"
  by (simp_all only: word_eq_iff_unsigned [where 'a = nat] unsigned_numeral) simp_all

lemma split_byte_LF: "\<not> sp_CR s \<Longrightarrow> c = 0x0A \<Longrightarrow> split_byte c s = push_line (s\<lparr>sp_accumulator := sp_accumulator s @ [c]\<rparr>)"
  using CR_LF by (simp only: split_byte_def Let_def if_False if_True simp_thms)

lemma split_byte_other:
  "\<not> sp_CR s \<Longrightarrow> c \<noteq> 0x0A \<Longrightarrow> split_byte c s = s\<lparr>sp_accumulator := sp_accumulator s @ [c], sp_CR := (c = 0x0D)\<rparr>"
  by (simp add: split_byte_def Let_def)

lemma split_bytes_lines:
  assumes "sp_start_offset s = word_of_nat off" and "\<not> sp_CR s"
  shows "finish_split (fold split_byte cs s) = sp_ret s @ (let ls = lines_of cs in line_items off ((sp_accumulator s @ hd ls) # tl ls))"
  using assms
proof (induction cs arbitrary: s off rule: lines_of.induct)
  case 1
  then show ?case by (simp add: finish_split_def)
next
  case (2 c)
  show ?case
  proof (cases "c = 0x0A")
    case True
    note e = split_byte_LF [OF 2(2) True]
    show ?thesis using 2(1) True e by (simp add: finish_split_def push_line_def add.assoc add.left_commute)
  next
    case False
    then show ?thesis using 2(1) split_byte_other [OF 2(2) False] by (simp add: finish_split_def)
  qed
next
  case (3 c d cs)
  let ?ls = "lines_of (d # cs)"
  define s0 where "s0 = s\<lparr>sp_accumulator := sp_accumulator s @ [c]\<rparr>"
  have f: "fold split_byte (x # xs) t = fold split_byte xs (split_byte x t)" for x xs t by simp
  have s0: "s0\<lparr>sp_CR := False\<rparr> = s0" using "3.prems"(2) by (cases s) (simp add: s0_def)
  have CR: "split_byte c s = s0\<lparr>sp_CR := True\<rparr>" if "c = 0x0D"
    using split_byte_other [OF "3.prems"(2), of c] that CR_LF by (simp only: s0_def simp_thms)
  show ?case
  proof (cases "c = 0x0A \<or> c = 0x0D \<and> d \<noteq> 0x0A")
    case True
    have "fold split_byte (c # d # cs) s = fold split_byte (d # cs) (push_line s0)"
    proof (cases "c = 0x0A")
      case True
      then have "split_byte c s = push_line s0" unfolding s0_def by (intro split_byte_LF "3.prems"(2))
      then show ?thesis unfolding f [of c] by (rule arg_cong)
    next
      case False
      then have cd: "c = 0x0D" "d \<noteq> 0x0A" using True by simp_all
      then have "split_byte d (s0\<lparr>sp_CR := True\<rparr>) = split_byte d (push_line s0)"
        using split_byte_CR [of "s0\<lparr>sp_CR := True\<rparr>" d] s0 by simp
      then show ?thesis unfolding f CR [OF cd(1)] by (rule arg_cong)
    qed
    moreover have "sp_start_offset (push_line s0) = word_of_nat (off + length (sp_accumulator s) + 1)" "\<not> sp_CR (push_line s0)"
      using "3.prems" by (simp_all add: push_line_def s0_def)
    note ih = 3(1) [OF True this]
    ultimately have "finish_split (fold split_byte (c # d # cs) s)
        = sp_ret (push_line s0) @ line_items (off + length (sp_accumulator s) + 1) ((sp_accumulator (push_line s0) @ hd ?ls) # tl ?ls)"
      using ih by (simp add: Let_def)
    moreover have "sp_ret (push_line s0) = sp_ret s @ [to_text_file_line (sp_accumulator s @ [c]) (word_of_nat off)]"
      "sp_accumulator (push_line s0) = []" using "3.prems"(1) by (simp_all add: push_line_def s0_def)
    moreover have "lines_of (c # d # cs) = [c] # ?ls" unfolding lines_of.simps(3) by (rule if_P [OF True])
    ultimately show ?thesis by (simp add: Let_def)
  next
    case False
    have "fold split_byte (c # d # cs) s = fold split_byte (d # cs) s0"
    proof (cases "c = 0x0D")
      case True
      then have "split_byte d (s0\<lparr>sp_CR := True\<rparr>) = split_byte d s0"
        using False split_byte_CR [of "s0\<lparr>sp_CR := True\<rparr>" d] s0 by simp
      then show ?thesis unfolding f CR [OF True] by (rule arg_cong)
    next
      case notCR: False
      have "split_byte c s = s0" using split_byte_other [OF "3.prems"(2), of c] False notCR s0 by (simp add: s0_def)
      then show ?thesis unfolding f [of c] by (rule arg_cong)
    qed
    moreover have "sp_start_offset s0 = word_of_nat off" "\<not> sp_CR s0" using "3.prems" by (simp_all add: s0_def)
    note ih = 3(2) [OF False this]
    moreover have "lines_of (c # d # cs) = (c # hd ?ls) # tl ?ls"
      unfolding lines_of.simps(3) by (rule if_not_P [OF False])
    ultimately show ?thesis by (simp add: Let_def s0_def)
  qed
qed

lemma split_loop_ok:
  "file_reads os_read content \<Longrightarrow> br_ok content reader \<Longrightarrow> length (cb_buffer temp) = cb_capacity temp \<Longrightarrow>
   length (br_rest content reader) < fuel \<Longrightarrow>
   split_loop os_read fresh fuel temp reader s = Some (Inr (fold split_byte (br_rest content reader) s))"
proof (induction fuel arbitrary: temp reader s)
  case (Suc fuel)
  let ?R = "br_rest content reader" and ?bs = "br_block_size reader"
  obtain ret b r where nb: "next_block os_read fresh temp reader = (ret, b, r)" by (cases "next_block os_read fresh temp reader")
  note n = next_block_ok [OF Suc.prems(1-3) nb]
  have bs: "0 < ?bs" using Suc.prems(2) by (simp add: br_ok_def)
  show ?case
  proof (cases "?R = []")
    case True
    then show ?thesis using nb n by simp
  next
    case False
    then have eof: "\<not> sr_eof reader" using Suc.prems(2) by (auto simp: br_ok_def)
    then have f: "filling ?bs b" "cb_contents b = take ?bs ?R" using n by simp_all
    then have flat: "cb_flat b" "length (cb_buffer b) = cb_capacity b" by (simp_all add: filling_def cb_flat_def)
    have p: "cb_process_whole (fold split_byte) b s = fold split_byte (take ?bs ?R) s"
      using flat(1) f(2) by (simp add: cb_process_whole_def cb_flat_def cb_flat_contents)
    have "0 < length ?R" using False by simp
    then have "length (br_rest content r) < fuel" using n Suc.prems(4) bs by (simp; linarith)
    note ih = Suc.IH [OF Suc.prems(1) _ flat(2) this]
    have "fold split_byte (drop ?bs ?R) (fold split_byte (take ?bs ?R) s) = fold split_byte ?R s"
      by (metis append_take_drop_id comp_apply fold_append)
    then show ?thesis using ih n nb False eof by (simp add: p)
  qed
qed simp

text \<open>C39. The lines of a file are those of its whole text, whatever the blocks in which it is read: each is recorded with
  its offset and its hash, and together they are the file.\<close>

theorem split_file_lines:
  assumes "file_reads os_read content" and "length content < 2 ^ 63" and "length content < fuel"
  shows "split_file os_read fresh None reader0 fuel = Some (Inr (sort (line_items 0 (lines_of content))))
    \<and> concat (lines_of content) = content"
proof -
  obtain r where r: "br_init None fresh 0 reader0 = Inr r" "br_ok content r" "br_rest content r = content"
    using br_init_ok [of content fresh 0 reader0] assms(2) by auto
  let ?s = "\<lparr>sp_accumulator = [], sp_ret = [], sp_CR = False, sp_start_offset = 0\<rparr>"
  have "finish_split (fold split_byte content ?s) = line_items 0 (lines_of content)"
    using split_bytes_lines [of ?s 0 content] by (simp add: Let_def del: line_items.simps)
  moreover have "split_loop os_read fresh fuel (cb_new fresh 1) r ?s = Some (Inr (fold split_byte content ?s))"
    using split_loop_ok [OF assms(1) r(2), of "cb_new fresh 1" fuel fresh ?s] r(3) assms(3) by simp
  ultimately show ?thesis using r(1) by (simp add: split_file_def finish_split_def concat_lines_of)
qed

theorem split_file_lines_witness:
  "\<forall>fresh reader0. \<exists>ls. split_file example_read fresh None reader0 4 = Some (Inr ls) \<and> lines_of [5, 6, 7] = [[5, 6, 7]]"
proof (intro allI)
  fix fresh reader0
  have "length [5, 6, 7 :: byte] < 2 ^ 63" "length [5, 6, 7 :: byte] < 4" by simp_all
  from split_file_lines [OF example_read_reads this, of fresh reader0]
  show "\<exists>ls. split_file example_read fresh None reader0 4 = Some (Inr ls) \<and> lines_of [5, 6, 7] = [[5, 6, 7]]" by simp
qed

end
