(* ===== verification/Range_Coder.thy ===== *)
theory Range_Coder
  imports Lzma_Prelude "HOL-Library.Monad_Syntax"
begin

unbundle bit_operations_syntax

text \<open>
  The range coder: range\_common.h, range\_encoder.h and range\_decoder.h of src/liblzma/src/liblzma/rangecoder. The
  encoder queues symbols and encodes them when there is room; the decoder's macros are functions, \<open>None\<close> for the
  jump to \<open>out\<close> when the input is exhausted. A pointer to a probability is an array of the caller's with an index (an
  integer, since LZMA forms pointers before the beginning of an array), and a function from pointers to probabilities is the
  memory. The list \<open>out\<close> holds the bytes written so far, so \<open>*out_pos\<close> is its length.

  \<open>enc_value\<close> is the number that the encoder's state stands for: the digits it has written, the digits it withholds because
  a carry may still change them, and \<open>low\<close>. Encoding a symbol narrows the interval from this number to the number plus \<open>range\<close>,
  and a normalisation only changes the scale; the decoder's \<open>code\<close> is the distance of the number that the
  stream stands for from the lower bound.
\<close>

subsection \<open>range\_common.h\<close>

abbreviation (input) RC_SHIFT_BITS :: nat where "RC_SHIFT_BITS \<equiv> 8"
abbreviation (input) RC_BIT_MODEL_TOTAL_BITS :: nat where "RC_BIT_MODEL_TOTAL_BITS \<equiv> 11"
abbreviation (input) RC_MOVE_BITS :: nat where "RC_MOVE_BITS \<equiv> 5"

definition RC_TOP_VALUE :: u32 where "RC_TOP_VALUE = push_bit 24 1"
definition RC_BIT_MODEL_TOTAL :: u32 where "RC_BIT_MODEL_TOTAL = push_bit RC_BIT_MODEL_TOTAL_BITS 1"

type_synonym probability = "16 word"

definition bit_reset :: probability where
  "bit_reset = ucast (drop_bit 1 RC_BIT_MODEL_TOTAL)"

type_synonym 'p pointer = "'p \<times> int"
type_synonym 'p memory = "'p pointer \<Rightarrow> probability"

definition elem :: "'p pointer \<Rightarrow> nat \<Rightarrow> 'p pointer" where
  "elem probs i = (fst probs, snd probs + int i)"

definition bittree_reset :: "'p pointer \<Rightarrow> nat \<Rightarrow> 'p memory \<Rightarrow> 'p memory" where
  "bittree_reset probs bit_levels mem = fold (\<lambda>bt_i mem. mem(elem probs bt_i := bit_reset)) [0..<2 ^ bit_levels] mem"

subsection \<open>range\_encoder.h\<close>

abbreviation (input) RC_SYMBOLS_MAX :: nat where "RC_SYMBOLS_MAX \<equiv> 58"

datatype rc_symbol = RC_BIT_0 | RC_BIT_1 | RC_DIRECT_0 | RC_DIRECT_1 | RC_FLUSH

record 'p range_encoder =
  rc_low :: u64
  rc_cache_size :: u64
  rc_range :: u32
  rc_cache :: byte
  rc_count :: nat
  rc_pos :: nat
  rc_symbols :: "rc_symbol list"
  rc_probs :: "'p pointer list"

definition rc_reset :: "'p range_encoder \<Rightarrow> 'p range_encoder" where
  "rc_reset rc = rc\<lparr>rc_low := 0, rc_cache_size := 1, rc_range := - 1, rc_cache := 0, rc_count := 0, rc_pos := 0\<rparr>"

definition rc_bit :: "'p pointer \<Rightarrow> u32 \<Rightarrow> 'p range_encoder \<Rightarrow> 'p range_encoder" where
  "rc_bit prob b rc =
     rc\<lparr>rc_symbols := (rc_symbols rc)[rc_count rc := (if b = 0 then RC_BIT_0 else RC_BIT_1)],
        rc_probs := (rc_probs rc)[rc_count rc := prob], rc_count := rc_count rc + 1\<rparr>"

fun rc_bittree_loop :: "'p pointer \<Rightarrow> nat \<Rightarrow> u32 \<Rightarrow> u32 \<Rightarrow> 'p range_encoder \<Rightarrow> 'p range_encoder" where
  "rc_bittree_loop probs 0 symbol model_index rc = rc"
| "rc_bittree_loop probs (Suc bit_count) symbol model_index rc =
     (let b = drop_bit bit_count symbol AND 1
      in rc_bittree_loop probs bit_count symbol (push_bit 1 model_index + b) (rc_bit (elem probs (unat model_index)) b rc))"

definition rc_bittree :: "'p pointer \<Rightarrow> nat \<Rightarrow> u32 \<Rightarrow> 'p range_encoder \<Rightarrow> 'p range_encoder" where
  "rc_bittree probs bit_count symbol rc = rc_bittree_loop probs bit_count symbol 1 rc"

fun rc_bittree_reverse_loop :: "'p pointer \<Rightarrow> nat \<Rightarrow> u32 \<Rightarrow> u32 \<Rightarrow> 'p range_encoder \<Rightarrow> 'p range_encoder" where
  "rc_bittree_reverse_loop probs 0 symbol model_index rc = rc"
| "rc_bittree_reverse_loop probs (Suc bit_count) symbol model_index rc =
     (let b = symbol AND 1
      in rc_bittree_reverse_loop probs bit_count (drop_bit 1 symbol) (push_bit 1 model_index + b) (rc_bit (elem probs (unat model_index)) b rc))"

definition rc_bittree_reverse :: "'p pointer \<Rightarrow> nat \<Rightarrow> u32 \<Rightarrow> 'p range_encoder \<Rightarrow> 'p range_encoder" where
  "rc_bittree_reverse probs bit_count symbol rc = rc_bittree_reverse_loop probs bit_count symbol 1 rc"

fun rc_direct :: "u32 \<Rightarrow> nat \<Rightarrow> 'p range_encoder \<Rightarrow> 'p range_encoder" where
  "rc_direct value 0 rc = rc"
| "rc_direct value (Suc bit_count) rc =
     rc_direct value bit_count
       (rc\<lparr>rc_symbols := (rc_symbols rc)[rc_count rc := (if drop_bit bit_count value AND 1 = 0 then RC_DIRECT_0 else RC_DIRECT_1)],
           rc_count := rc_count rc + 1\<rparr>)"

definition rc_flush :: "'p range_encoder \<Rightarrow> 'p range_encoder" where
  "rc_flush rc = fold (\<lambda>i rc. rc\<lparr>rc_symbols := (rc_symbols rc)[rc_count rc := RC_FLUSH], rc_count := rc_count rc + 1\<rparr>) [0..<5] rc"

text \<open>The loop that writes the withheld bytes; the result says whether the output is full.\<close>

function rc_shift_out :: "nat \<Rightarrow> 'p range_encoder \<Rightarrow> byte list \<Rightarrow> bool \<times> 'p range_encoder \<times> byte list" where
  "rc_shift_out out_size rc out =
     (if length out = out_size then (True, rc, out)
      else
        let out = out @ [rc_cache rc + ucast (drop_bit 32 (rc_low rc))];
            rc = rc\<lparr>rc_cache := 0xFF, rc_cache_size := rc_cache_size rc - 1\<rparr>
        in if rc_cache_size rc \<noteq> 0 then rc_shift_out out_size rc out else (False, rc, out))"
  by pat_completeness auto
termination
proof (relation "measure (\<lambda>(out_size, rc, out). unat (rc_cache_size rc - 1))", simp, goal_cases)
  case (1 out_size rc out out' rc')
  then have nz: "rc_cache_size rc - 1 \<noteq> 0" and e: "rc_cache_size rc' - 1 = rc_cache_size rc - 1 - 1" by simp_all
  have "unat (rc_cache_size rc - 1 - 1) < unat (rc_cache_size rc - 1)"
    unfolding unat_minus_one [OF nz] using unat_gt_0 [THEN iffD2, OF nz] by linarith
  then show ?case using 1(3) e by simp
qed

declare rc_shift_out.simps [simp del]

definition rc_shift_low :: "nat \<Rightarrow> 'p range_encoder \<Rightarrow> byte list \<Rightarrow> bool \<times> 'p range_encoder \<times> byte list" where
  "rc_shift_low out_size rc out =
     (let (full, rc, out) =
            (if (ucast (rc_low rc) :: u32) < 0xFF000000 \<or> (ucast (drop_bit 32 (rc_low rc)) :: u32) \<noteq> 0
             then let (full, rc, out) = rc_shift_out out_size rc out
                  in (full, if full then rc else rc\<lparr>rc_cache := ucast (drop_bit 24 (rc_low rc) AND 0xFF)\<rparr>, out)
             else (False, rc, out))
      in if full then (True, rc, out)
         else (False, rc\<lparr>rc_cache_size := rc_cache_size rc + 1, rc_low := push_bit RC_SHIFT_BITS (rc_low rc AND 0x00FFFFFF)\<rparr>, out))"

definition prob_update_0 :: "probability \<Rightarrow> probability" where
  "prob_update_0 prob = ucast (ucast prob + drop_bit RC_MOVE_BITS (RC_BIT_MODEL_TOTAL - ucast prob))"

definition prob_update_1 :: "probability \<Rightarrow> probability" where
  "prob_update_1 prob = prob - drop_bit RC_MOVE_BITS prob"

text \<open>Writing changes only the cache and \<open>low\<close>.\<close>

lemma rc_shift_out_fields:
  "rc_shift_out out_size rc out = (full, rc', out') \<Longrightarrow>
   rc_count rc' = rc_count rc \<and> rc_pos rc' = rc_pos rc \<and> rc_range rc' = rc_range rc \<and> rc_symbols rc' = rc_symbols rc
   \<and> rc_probs rc' = rc_probs rc \<and> rc_low rc' = rc_low rc"
proof (induction out_size rc out arbitrary: full rc' out' rule: rc_shift_out.induct)
  case (1 out_size rc out)
  let ?out = "out @ [rc_cache rc + ucast (drop_bit 32 (rc_low rc))]"
  let ?rc = "rc\<lparr>rc_cache := 0xFF, rc_cache_size := rc_cache_size rc - 1\<rparr>"
  show ?case
  proof (cases "length out \<noteq> out_size \<and> rc_cache_size ?rc \<noteq> 0")
    case True
    then have "rc_shift_out out_size rc out = rc_shift_out out_size ?rc ?out"
      by (subst rc_shift_out.simps) (simp add: Let_def)
    then have "rc_shift_out out_size ?rc ?out = (full, rc', out')" using "1.prems" by simp
    then show ?thesis using "1.IH" [OF _ refl refl] True by simp
  next
    case False
    then have "rc' = rc \<or> rc' = ?rc" using "1.prems" by (subst (asm) rc_shift_out.simps) (auto simp: Let_def split: if_splits)
    then show ?thesis by auto
  qed
qed

lemma rc_shift_low_fields:
  assumes "rc_shift_low out_size rc out = (full, rc', out')"
  shows "rc_count rc' = rc_count rc \<and> rc_pos rc' = rc_pos rc \<and> rc_range rc' = rc_range rc \<and> rc_symbols rc' = rc_symbols rc
    \<and> rc_probs rc' = rc_probs rc"
proof -
  obtain f1 rc1 out1 where s: "rc_shift_out out_size rc out = (f1, rc1, out1)" by (cases "rc_shift_out out_size rc out")
  from rc_shift_out_fields [OF s] assms show ?thesis by (auto simp: rc_shift_low_def s Let_def split: if_splits)
qed

text \<open>The inner loop of a flush.\<close>

function rc_flush_loop :: "nat \<Rightarrow> 'p range_encoder \<Rightarrow> byte list \<Rightarrow> bool \<times> 'p range_encoder \<times> byte list" where
  "rc_flush_loop out_size rc out =
     (let (full, rc, out) = rc_shift_low out_size rc out
      in if full then (True, rc, out)
         else let rc = rc\<lparr>rc_pos := rc_pos rc + 1\<rparr>
              in if rc_pos rc < rc_count rc then rc_flush_loop out_size rc out else (False, rc, out))"
  by pat_completeness auto
termination
proof (relation "measure (\<lambda>(out_size, rc, out). rc_count rc - rc_pos rc)", simp, goal_cases)
  case (1 out_size rc out r full s rc1 out1 rc2)
  then have "rc_shift_low out_size rc out = (full, rc1, out1)" by simp
  from rc_shift_low_fields [OF this] 1 show ?case by simp
qed

declare rc_flush_loop.simps [simp del]

definition rc_normalize_encoder :: "nat \<Rightarrow> 'p range_encoder \<Rightarrow> byte list \<Rightarrow> bool \<times> 'p range_encoder \<times> byte list" where
  "rc_normalize_encoder out_size rc out =
     (if rc_range rc < RC_TOP_VALUE then
        let (full, rc, out) = rc_shift_low out_size rc out
        in (full, if full then rc else rc\<lparr>rc_range := push_bit RC_SHIFT_BITS (rc_range rc)\<rparr>, out)
      else (False, rc, out))"

text \<open>One of the first four cases of the switch.\<close>

definition rc_encode_bit ::
  "rc_symbol \<Rightarrow> 'p pointer \<Rightarrow> 'p range_encoder \<Rightarrow> 'p memory \<Rightarrow> 'p range_encoder \<times> 'p memory" where
  "rc_encode_bit symbol address rc probs =
     (case symbol of
        RC_BIT_0 \<Rightarrow>
          let prob = probs address;
              rc = rc\<lparr>rc_range := drop_bit RC_BIT_MODEL_TOTAL_BITS (rc_range rc) * ucast prob\<rparr>
          in (rc, probs(address := prob_update_0 prob))
      | RC_BIT_1 \<Rightarrow>
          let prob = probs address;
              bound = ucast prob * drop_bit RC_BIT_MODEL_TOTAL_BITS (rc_range rc);
              rc = rc\<lparr>rc_low := rc_low rc + ucast bound, rc_range := rc_range rc - bound\<rparr>
          in (rc, probs(address := prob_update_1 prob))
      | RC_DIRECT_0 \<Rightarrow> (rc\<lparr>rc_range := drop_bit 1 (rc_range rc)\<rparr>, probs)
      | RC_DIRECT_1 \<Rightarrow>
          let rc = rc\<lparr>rc_range := drop_bit 1 (rc_range rc)\<rparr>
          in (rc\<lparr>rc_low := rc_low rc + ucast (rc_range rc)\<rparr>, probs)
      | RC_FLUSH \<Rightarrow> (rc, probs))"

lemma rc_encode_bit_fields:
  "rc_encode_bit symbol address rc probs = (rc', probs') \<Longrightarrow>
   rc_count rc' = rc_count rc \<and> rc_pos rc' = rc_pos rc \<and> rc_symbols rc' = rc_symbols rc \<and> rc_probs rc' = rc_probs rc
   \<and> rc_cache rc' = rc_cache rc \<and> rc_cache_size rc' = rc_cache_size rc"
  by (auto simp: rc_encode_bit_def Let_def split: rc_symbol.splits)

lemma rc_normalize_encoder_fields:
  assumes "rc_normalize_encoder out_size rc out = (full, rc', out')"
  shows "rc_count rc' = rc_count rc \<and> rc_pos rc' = rc_pos rc \<and> rc_symbols rc' = rc_symbols rc \<and> rc_probs rc' = rc_probs rc"
proof -
  obtain f1 rc1 out1 where s: "rc_shift_low out_size rc out = (f1, rc1, out1)" by (cases "rc_shift_low out_size rc out")
  from rc_shift_low_fields [OF s] assms show ?thesis by (auto simp: rc_normalize_encoder_def s Let_def split: if_splits)
qed

function rc_encode_loop ::
  "nat \<Rightarrow> 'p range_encoder \<Rightarrow> 'p memory \<Rightarrow> byte list \<Rightarrow> bool \<times> 'p range_encoder \<times> 'p memory \<times> byte list" where
  "rc_encode_loop out_size rc probs out =
     (if rc_pos rc < rc_count rc then
        let (full, rc, out) = rc_normalize_encoder out_size rc out
        in if full then (True, rc, probs, out)
           else if rc_symbols rc ! rc_pos rc = RC_FLUSH then
             let (full, rc, out) = rc_flush_loop out_size (rc\<lparr>rc_range := - 1\<rparr>) out
             in if full then (True, rc, probs, out) else (False, rc_reset rc, probs, out)
           else
             let (rc, probs) = rc_encode_bit (rc_symbols rc ! rc_pos rc) (rc_probs rc ! rc_pos rc) rc probs
             in rc_encode_loop out_size (rc\<lparr>rc_pos := rc_pos rc + 1\<rparr>) probs out
      else (False, rc\<lparr>rc_count := 0, rc_pos := 0\<rparr>, probs, out))"
  by pat_completeness auto
termination
proof (relation "measure (\<lambda>(out_size, rc, probs, out). rc_count rc - rc_pos rc)", simp, goal_cases)
  case (1 out_size rc probs out r full s rc1 out1 t rc2 probs2)
  then have "rc_normalize_encoder out_size rc out = (full, rc1, out1)"
    "rc_encode_bit (rc_symbols rc1 ! rc_pos rc1) (rc_probs rc1 ! rc_pos rc1) rc1 probs = (rc2, probs2)" by simp_all
  from rc_normalize_encoder_fields [OF this(1)] rc_encode_bit_fields [OF this(2)] 1(1) show ?case by simp
qed

declare rc_encode_loop.simps [simp del]

definition rc_encode ::
  "nat \<Rightarrow> 'p range_encoder \<Rightarrow> 'p memory \<Rightarrow> byte list \<Rightarrow> bool \<times> 'p range_encoder \<times> 'p memory \<times> byte list" where
  "rc_encode out_size rc probs out = rc_encode_loop out_size rc probs out"

definition rc_pending :: "'p range_encoder \<Rightarrow> u64" where
  "rc_pending rc = rc_cache_size rc + 5 - 1"

subsection \<open>range\_decoder.h\<close>

record range_decoder =
  rd_range :: u32
  rd_code :: u32
  rd_init_bytes_left :: u32

definition rd_reset :: "range_decoder \<Rightarrow> range_decoder" where
  "rd_reset rc = rc\<lparr>rd_range := - 1, rd_code := 0, rd_init_bytes_left := 5\<rparr>"

function rc_read_init :: "byte list \<Rightarrow> nat \<Rightarrow> range_decoder \<Rightarrow> nat \<Rightarrow> lzma_ret \<times> range_decoder \<times> nat" where
  "rc_read_init inb in_size rc in_pos =
     (if rd_init_bytes_left rc > 0 then
        if in_pos = in_size then (LZMA_OK, rc, in_pos)
        else if rd_init_bytes_left rc = 5 \<and> inb ! in_pos \<noteq> 0x00 then (LZMA_DATA_ERROR, rc, in_pos)
        else rc_read_init inb in_size
               (rc\<lparr>rd_code := push_bit 8 (rd_code rc) OR ucast (inb ! in_pos), rd_init_bytes_left := rd_init_bytes_left rc - 1\<rparr>) (in_pos + 1)
      else (LZMA_STREAM_END, rc, in_pos))"
  by pat_completeness auto
termination
  by (relation "measure (\<lambda>(inb, in_size, rc, in_pos). unat (rd_init_bytes_left rc))") (auto simp: unat_minus_one word_gt_0 unat_gt_0)

declare rc_read_init.simps [simp del]

definition rc_is_finished :: "range_decoder \<Rightarrow> bool" where
  "rc_is_finished rc \<longleftrightarrow> rd_code rc = 0"

definition rc_normalize :: "byte list \<Rightarrow> nat \<Rightarrow> range_decoder \<times> nat \<Rightarrow> (range_decoder \<times> nat) option" where
  "rc_normalize inb in_size s =
     (let (rc, in_pos) = s
      in if rd_range rc < RC_TOP_VALUE then
           if in_pos = in_size then None
           else Some (rc\<lparr>rd_range := push_bit RC_SHIFT_BITS (rd_range rc),
                         rd_code := push_bit RC_SHIFT_BITS (rd_code rc) OR ucast (inb ! in_pos)\<rparr>, in_pos + 1)
         else Some (rc, in_pos))"

text \<open>The decoding macros, on the memory, the local copy of the decoder and \<open>rc_in_pos\<close>. \<open>rc_if_0\<close> with
  \<open>rc_update_0\<close> and \<open>rc_update_1\<close> gives the bit; \<open>rc_bit\<close> and \<open>rc_bit_last\<close> differ in the update of \<open>symbol\<close>.\<close>

type_synonym 'p decoding = "'p memory \<times> range_decoder \<times> nat"

definition rc_decode_bit :: "byte list \<Rightarrow> nat \<Rightarrow> 'p pointer \<Rightarrow> 'p decoding \<Rightarrow> (bool \<times> 'p decoding) option" where
  "rc_decode_bit inb in_size prob s =
     (let (mem, s) = s in
      do { (rc, in_pos) \<leftarrow> rc_normalize inb in_size s;
           let rc_bound = drop_bit RC_BIT_MODEL_TOTAL_BITS (rd_range rc) * ucast (mem prob);
           Some (if rd_code rc < rc_bound
                 then (False, mem(prob := prob_update_0 (mem prob)), rc\<lparr>rd_range := rc_bound\<rparr>, in_pos)
                 else (True, mem(prob := prob_update_1 (mem prob)), rc\<lparr>rd_range := rd_range rc - rc_bound, rd_code := rd_code rc - rc_bound\<rparr>, in_pos)) })"

definition rc_decode_symbol :: "byte list \<Rightarrow> nat \<Rightarrow> 'p pointer \<Rightarrow> u32 \<Rightarrow> 'p decoding \<Rightarrow> (u32 \<times> 'p decoding) option" where
  "rc_decode_symbol inb in_size prob symbol s =
     do { (b, s) \<leftarrow> rc_decode_bit inb in_size prob s;
          Some (if b then push_bit 1 symbol + 1 else push_bit 1 symbol, s) }"

definition rc_decode_direct :: "byte list \<Rightarrow> nat \<Rightarrow> u32 \<Rightarrow> 'p decoding \<Rightarrow> (u32 \<times> 'p decoding) option" where
  "rc_decode_direct inb in_size dest s =
     (let (mem, s) = s in
      do { (rc, in_pos) \<leftarrow> rc_normalize inb in_size s;
           let rc = rc\<lparr>rd_range := drop_bit 1 (rd_range rc)\<rparr>;
           let rc = rc\<lparr>rd_code := rd_code rc - rd_range rc\<rparr>;
           let rc_bound = 0 - drop_bit 31 (rd_code rc);
           let rc = rc\<lparr>rd_code := rd_code rc + (rd_range rc AND rc_bound)\<rparr>;
           Some (push_bit 1 dest + (rc_bound + 1), mem, rc, in_pos) })"

end
