(* ===== verification/Range_Coder_Correct.thy ===== *)
theory Range_Coder_Correct
  imports Range_Coder
begin

unbundle bit_operations_syntax

text \<open>
  The range decoder undoes the range encoder. \<open>digits\<close> is the number that bytes stand for, \<open>enc_value\<close> the
  lower bound of the encoder's interval and \<open>enc_inv\<close> its invariant: a carry never goes beyond the digits that are withheld.
  \<open>in_step\<close> relates a decoder to an encoder.
\<close>

subsection \<open>Numbers\<close>

fun digits :: "byte list \<Rightarrow> nat" where
  "digits [] = 0"
| "digits (b # bs) = unat b * 256 ^ length bs + digits bs"

lemma digits_append: "digits (xs @ ys) = digits xs * 256 ^ length ys + digits ys"
  by (induction xs) (simp_all add: power_add algebra_simps)

lemma digits_less: "digits bs < 256 ^ length bs"
proof (induction bs)
  case (Cons b bs)
  have "unat b + 1 \<le> 256" using unsigned_less [of b, where 'a = nat] by simp
  then have "(unat b + 1) * 256 ^ length bs \<le> 256 * 256 ^ length bs" by (rule mult_le_mono1)
  then show ?case using Cons by (simp only: digits.simps power_Suc length_Cons add_mult_distrib mult_1)
qed simp

lemma digits_FF: "digits (replicate n 0xFF) + 1 = 256 ^ n"
  by (induction n) simp_all

lemma digits_00: "digits (replicate n 0) = 0"
  by (induction n) simp_all

subsection \<open>The withheld digits\<close>

definition withheld :: "'p range_encoder \<Rightarrow> nat" where
  "withheld rc = digits (rc_cache rc # replicate (unat (rc_cache_size rc) - 1) 0xFF)"

definition enc_value :: "'p range_encoder \<Rightarrow> byte list \<Rightarrow> nat" where
  "enc_value rc out = (digits out * 256 ^ unat (rc_cache_size rc) + withheld rc) * 2 ^ 32 + unat (rc_low rc)"

definition enc_length :: "'p range_encoder \<Rightarrow> byte list \<Rightarrow> nat" where
  "enc_length rc out = length out + unat (rc_cache_size rc)"

text \<open>The size \<open>g\<close> of the interval is a number of its own, since a flush no longer maintains \<open>range\<close>.\<close>

definition enc_inv :: "nat \<Rightarrow> 'p range_encoder \<Rightarrow> bool" where
  "enc_inv g rc \<longleftrightarrow> 0 < g \<and> rc_cache_size rc \<noteq> 0 \<and> unat (rc_low rc) + g \<le> 2 ^ 33
     \<and> withheld rc * 2 ^ 32 + unat (rc_low rc) + g \<le> 256 ^ unat (rc_cache_size rc) * 2 ^ 32"

lemma rc_shift_out_writes:
  "rc_cache_size rc \<noteq> 0 \<Longrightarrow> length out + unat (rc_cache_size rc) \<le> out_size \<Longrightarrow>
   rc_shift_out out_size rc out = (False, rc\<lparr>rc_cache := 0xFF, rc_cache_size := 0\<rparr>,
     out @ (rc_cache rc + ucast (drop_bit 32 (rc_low rc))) # replicate (unat (rc_cache_size rc) - 1) (0xFF + ucast (drop_bit 32 (rc_low rc))))"
proof (induction "unat (rc_cache_size rc)" arbitrary: rc out)
  case 0
  then show ?case by (simp add: unat_eq_0)
next
  case (Suc n)
  let ?rc = "rc\<lparr>rc_cache := 0xFF, rc_cache_size := rc_cache_size rc - 1\<rparr>"
  let ?out = "out @ [rc_cache rc + ucast (drop_bit 32 (rc_low rc))]"
  have n: "unat (rc_cache_size rc - 1) = n" using Suc(2,3) by (simp add: unat_minus_one)
  have room: "length out \<noteq> out_size" using Suc(2,4) by simp
  show ?case
  proof (cases "rc_cache_size rc - 1 = 0")
    case True
    then have "n = 0" using n by simp
    then show ?thesis using True room Suc(2) by (subst rc_shift_out.simps) (simp add: Let_def)
  next
    case False
    have e: "rc_shift_out out_size rc out = rc_shift_out out_size ?rc ?out"
      using False room by (subst rc_shift_out.simps) (simp add: Let_def)
    have "rc_shift_out out_size ?rc ?out = (False, ?rc\<lparr>rc_cache := 0xFF, rc_cache_size := 0\<rparr>,
        ?out @ (rc_cache ?rc + ucast (drop_bit 32 (rc_low ?rc))) # replicate (unat (rc_cache_size ?rc) - 1) (0xFF + ucast (drop_bit 32 (rc_low ?rc))))"
      using Suc(1) [of ?rc ?out] n False Suc(2,4) by simp
    moreover have "replicate (unat (rc_cache_size rc) - 1) x = x # replicate (n - 1) x" for x :: byte
    proof -
      have "0 < n" using False n unat_gt_0 by blast
      then show ?thesis unfolding Suc(2) [symmetric] by (cases n) simp_all
    qed
    ultimately show ?thesis unfolding e by (simp add: n)
  qed
qed

text \<open>The digits written with the carry.\<close>

lemma digits_written:
  fixes cache :: byte
  assumes "c \<le> 1" and "digits (cache # replicate n 0xFF) + c < 256 ^ (n + 1)"
  shows "digits ((cache + word_of_nat c) # replicate n (0xFF + word_of_nat c)) = digits (cache # replicate n 0xFF) + c"
proof (cases "c = 0")
  case False
  then have c: "c = 1" using assms(1) by simp
  have F: "digits (replicate n 0xFF) + 1 = 256 ^ n" by (rule digits_FF)
  have "(unat cache + 1) * 256 ^ n < 256 * 256 ^ n"
  proof -
    have "(256 :: nat) ^ (n + 1) = 256 * 256 ^ n" by simp
    then show ?thesis using assms(2) F unfolding c digits.simps length_replicate add_mult_distrib mult_1 by linarith
  qed
  then have "unat cache + 1 < 256" unfolding mult_less_cancel2 by blast
  then have "unat (cache + 1) = unat cache + 1" by (simp add: unat_add_small [of cache 1])
  moreover have "(0xFF + word_of_nat c :: byte) = 0" unfolding c unat_eq_0 [symmetric] by (simp add: unat_word_ariths)
  note z = this
  ultimately show ?thesis unfolding z using F by (simp add: digits_00 c)
qed simp

text \<open>The parts of \<open>low\<close>.\<close>

lemma low_carry:
  assumes "unat (low :: u64) < 2 ^ 33" and "c = unat low div 2 ^ 32"
  shows "c \<le> 1" and "ucast (drop_bit 32 low) = (word_of_nat c :: byte)" and "(ucast (drop_bit 32 low) :: u32) \<noteq> 0 \<longleftrightarrow> c = 1"
proof -
  show c: "c \<le> 1" using assms by simp
  have u: "unat (drop_bit 32 low) = c" by (simp only: assms(2) unat_drop_bit_div)
  have d: "drop_bit 32 low = word_of_nat c" unfolding u [symmetric] by simp
  show "ucast (drop_bit 32 low) = (word_of_nat c :: byte)" unfolding d using c by (cases "c = 0") (auto simp: le_Suc_eq)
  show "(ucast (drop_bit 32 low) :: u32) \<noteq> 0 \<longleftrightarrow> c = 1" unfolding d using c by (cases "c = 0") (auto simp: le_Suc_eq)
qed

lemma low_kept: "unat (push_bit 8 ((low :: u64) AND 0x00FFFFFF)) = 256 * (unat low mod 2 ^ 24)"
proof -
  have "low AND 0x00FFFFFF = take_bit 24 low" by (simp add: take_bit_eq_mask mask_eq_exp_minus_1)
  then have "unat (low AND 0x00FFFFFF) = unat low mod 2 ^ 24" by (simp only: unat_take_bit_mod)
  moreover have "unat low mod 2 ^ 24 * 2 ^ 8 < 2 ^ LENGTH(64)" using mod_less_divisor [of "2 ^ 24" "unat low"] by simp
  ultimately show ?thesis using unat_push_bit_mult [of "low AND 0x00FFFFFF" 8] by simp
qed

lemma low_top:
  fixes low :: u64
  assumes "t = unat low mod 2 ^ 32 div 2 ^ 24"
  shows "(ucast low :: u32) < 0xFF000000 \<longleftrightarrow> t < 255" and "unat (ucast (drop_bit 24 low AND 0xFF) :: byte) = t"
proof -
  have "unat (ucast low :: u32) = unat low mod 2 ^ 32" by (simp add: unat_ucast_mod)
  moreover have "unat low mod 2 ^ 32 < 255 * 2 ^ 24 \<longleftrightarrow> unat low mod 2 ^ 32 div 2 ^ 24 < 255" by (simp add: div_less_iff_less_mult)
  ultimately show "(ucast low :: u32) < 0xFF000000 \<longleftrightarrow> t < 255" unfolding assms word_less_nat_alt by simp
  have "drop_bit 24 low AND 0xFF = take_bit 8 (drop_bit 24 low)" by (simp add: take_bit_eq_mask mask_eq_exp_minus_1)
  then have "unat (drop_bit 24 low AND 0xFF) = unat low div 2 ^ 24 mod 2 ^ 8" by (simp only: unat_take_bit_mod unat_drop_bit_div)
  also have "\<dots> = t" unfolding assms using mod_mult2_eq [of "unat low" "2 ^ 24" "2 ^ 8"] by (simp add: div_mult2_eq)
  finally have u: "unat (drop_bit 24 low AND 0xFF) = t" .
  have "t < 256" unfolding assms by (simp add: div_less_iff_less_mult)
  then show "unat (ucast (drop_bit 24 low AND 0xFF) :: byte) = t" using u by (simp add: unat_ucast_mod)
qed

lemma low_parts:
  assumes "c = unat (low :: u64) div 2 ^ 32" and "t = unat low mod 2 ^ 32 div 2 ^ 24"
  shows "unat low = c * 2 ^ 32 + t * 2 ^ 24 + unat low mod 2 ^ 24"
proof -
  have "unat low mod 2 ^ 32 = t * 2 ^ 24 + unat low mod 2 ^ 32 mod 2 ^ 24" unfolding assms(2) by (rule div_mult_mod_eq [symmetric])
  moreover have "unat low mod 2 ^ 32 mod 2 ^ 24 = unat low mod 2 ^ 24" by (simp add: mod_mod_cancel)
  moreover have "unat low = c * 2 ^ 32 + unat low mod 2 ^ 32" unfolding assms(1) by (rule div_mult_mod_eq [symmetric])
  ultimately show ?thesis by linarith
qed

text \<open>The two ways to normalise: one more digit is withheld, or the withheld digits are written.\<close>

lemma shift_low_withhold:
  assumes inv: "enc_inv g rc" and g: "g \<le> 2 ^ 24" and size: "unat (rc_cache_size rc) + 1 < 2 ^ 64"
    and c: "unat (rc_low rc) div 2 ^ 32 = 0" and t: "unat (rc_low rc) mod 2 ^ 32 div 2 ^ 24 = 255"
    and rc': "rc' = rc\<lparr>rc_cache_size := rc_cache_size rc + 1, rc_low := push_bit 8 (rc_low rc AND 0x00FFFFFF)\<rparr>"
  shows "enc_value rc' out = 256 * enc_value rc out \<and> enc_length rc' out = enc_length rc out + 1 \<and> enc_inv (256 * g) rc'"
proof -
  let ?low = "unat (rc_low rc)" and ?cs = "unat (rc_cache_size rc)"
  have cs: "0 < ?cs" using inv by (simp add: enc_inv_def unat_gt_0)
  have cs1: "unat (rc_cache_size rc') = ?cs + 1" unfolding rc' using size by (simp add: unat_add_small)
  have low': "unat (rc_low rc') = 256 * (?low mod 2 ^ 24)" unfolding rc' using low_kept by simp
  have split: "?low = 255 * 2 ^ 24 + ?low mod 2 ^ 24" using low_parts [of 0 "rc_low rc" 255] c t by simp
  have w: "withheld rc' = withheld rc * 256 + 255"
  proof -
    have "replicate ?cs (0xFF :: byte) = replicate (?cs - 1) 0xFF @ [0xFF]"
      using cs by (cases ?cs) (simp_all add: replicate_append_same)
    then have "rc_cache rc' # replicate ?cs 0xFF = (rc_cache rc # replicate (?cs - 1) 0xFF) @ [0xFF]" by (simp add: rc')
    then have "withheld rc' = digits ((rc_cache rc # replicate (?cs - 1) 0xFF) @ [0xFF])"
      unfolding withheld_def cs1 by (simp only: diff_add_inverse2)
    then show ?thesis unfolding digits_append withheld_def by simp
  qed
  have p: "256 ^ unat (rc_cache_size rc') = 256 * (256 :: nat) ^ ?cs" by (simp add: cs1)
  have i: "?low + g \<le> 2 ^ 33" "withheld rc * 2 ^ 32 + ?low + g \<le> 256 ^ ?cs * 2 ^ 32" "0 < g" using inv by (simp_all add: enc_inv_def)
  have "enc_value rc' out = 256 * enc_value rc out"
    unfolding enc_value_def w p low' using split by (simp add: algebra_simps)
  moreover have "enc_length rc' out = enc_length rc out + 1" by (simp add: enc_length_def cs1)
  moreover have "rc_cache_size rc' \<noteq> 0" using cs1 by (metis Zero_not_Suc Suc_eq_plus1 unat_0)
  moreover have "unat (rc_low rc') + 256 * g \<le> 2 ^ 33" 
  proof -
    have "?low mod 2 ^ 24 < 2 ^ 24" by simp
    then show ?thesis unfolding low' using g by simp
  qed
  moreover have "withheld rc' * 2 ^ 32 + unat (rc_low rc') + 256 * g \<le> 256 ^ unat (rc_cache_size rc') * 2 ^ 32"
    unfolding w p low' using i(2) split by (simp add: algebra_simps)
  ultimately show ?thesis using i(3) by (simp add: enc_inv_def)
qed

lemma shift_low_write:
  assumes inv: "enc_inv g rc" and g: "g \<le> 2 ^ 24" and c: "c = unat (rc_low rc) div 2 ^ 32" and t: "t = unat (rc_low rc) mod 2 ^ 32 div 2 ^ 24"
    and ct: "t < 255 \<or> c = 1" and tb: "unat tb = t"
    and rc': "rc' = rc\<lparr>rc_cache := tb, rc_cache_size := 1, rc_low := push_bit 8 (rc_low rc AND 0x00FFFFFF)\<rparr>"
    and out': "out' = out @ (rc_cache rc + word_of_nat c) # replicate (unat (rc_cache_size rc) - 1) (0xFF + word_of_nat c)"
  shows "enc_value rc' out' = 256 * enc_value rc out \<and> enc_length rc' out' = enc_length rc out + 1 \<and> enc_inv (256 * g) rc'"
proof -
  let ?low = "unat (rc_low rc)" and ?cs = "unat (rc_cache_size rc)"
  have i: "?low + g \<le> 2 ^ 33" "withheld rc * 2 ^ 32 + ?low + g \<le> 256 ^ ?cs * 2 ^ 32" "0 < g" "0 < ?cs"
    using inv by (simp_all add: enc_inv_def unat_gt_0)
  have c1: "c \<le> 1" using i(1,3) unfolding c by (intro low_carry(1) [of "rc_low rc", OF _ refl]) simp
  have low': "unat (rc_low rc') = 256 * (?low mod 2 ^ 24)" unfolding rc' using low_kept by simp
  have split: "?low = c * 2 ^ 32 + t * 2 ^ 24 + ?low mod 2 ^ 24" by (rule low_parts [OF c t])
  have t256: "t < 256" unfolding t by (simp add: div_less_iff_less_mult)
  have len: "length out' = length out + ?cs" using i(4) by (simp add: out')
  have "(withheld rc + c) * 2 ^ 32 < 256 ^ ?cs * 2 ^ 32" using i(2,3) split by (simp add: add_mult_distrib)
  then have "withheld rc + c < 256 ^ ?cs" by (simp only: mult_less_cancel2)
  moreover have n: "?cs - 1 + 1 = ?cs" using i(4) by simp
  ultimately have "digits ((rc_cache rc + word_of_nat c) # replicate (?cs - 1) (0xFF + word_of_nat c)) = withheld rc + c"
    unfolding withheld_def by (intro digits_written [OF c1]) (simp only: n)
  moreover have "length ((rc_cache rc + word_of_nat c) # replicate (?cs - 1) (0xFF + word_of_nat c)) = ?cs" using n by simp
  ultimately have d: "digits out' = digits out * 256 ^ ?cs + (withheld rc + c)" unfolding out' digits_append by (simp only:)
  have w: "withheld rc' = t" by (simp add: withheld_def rc' tb)
  have cs': "unat (rc_cache_size rc') = 1" by (simp add: rc')
  have "enc_value rc' out' = 256 * enc_value rc out"
    unfolding enc_value_def w d cs' low' using split by (simp add: algebra_simps)
  moreover have "enc_length rc' out' = enc_length rc out + 1" by (simp add: enc_length_def cs' len)
  moreover have bound: "t * 2 ^ 24 + ?low mod 2 ^ 24 + g \<le> 2 ^ 32"
  proof (cases "c = 1")
    case True
    then show ?thesis using split i(1) by simp
  next
    case False
    then have "t \<le> 254" using ct by simp
    then have "t * 2 ^ 24 \<le> 254 * 2 ^ 24" by (rule mult_le_mono1)
    moreover have "?low mod 2 ^ 24 < 2 ^ 24" by simp
    ultimately show ?thesis using g by simp
  qed
  moreover have "withheld rc' * 2 ^ 32 + unat (rc_low rc') + 256 * g \<le> 256 ^ unat (rc_cache_size rc') * 2 ^ 32"
    unfolding w cs' low' using bound by simp
  moreover have "unat (rc_low rc') + 256 * g \<le> 2 ^ 33"
  proof -
    have "?low mod 2 ^ 24 < 2 ^ 24" by simp
    then show ?thesis unfolding low' using g by simp
  qed
  ultimately show ?thesis using i(3) by (simp add: enc_inv_def rc')
qed

lemma rc_shift_low_ok:
  assumes inv: "enc_inv g rc" and g: "g \<le> 2 ^ 24" and room: "enc_length rc out \<le> out_size" and size: "unat (rc_cache_size rc) + 1 < 2 ^ 64"
  shows "\<exists>rc' out'. rc_shift_low out_size rc out = (False, rc', out') \<and> enc_value rc' out' = 256 * enc_value rc out
    \<and> enc_length rc' out' = enc_length rc out + 1 \<and> enc_inv (256 * g) rc' \<and> unat (rc_low rc') = 256 * (unat (rc_low rc) mod 2 ^ 24)
    \<and> (unat (rc_low rc) < 2 ^ 24 \<longrightarrow> rc_cache_size rc' = 1 \<and> withheld rc' = 0)"
proof -
  let ?low = "unat (rc_low rc)"
  define c t where "c = ?low div 2 ^ 32" and "t = ?low mod 2 ^ 32 div 2 ^ 24"
  have low: "?low < 2 ^ 33" using inv by (simp add: enc_inv_def)
  note carry = low_carry [OF low c_def] and top = low_top [OF t_def]
  have cs: "rc_cache_size rc \<noteq> 0" using inv by (simp add: enc_inv_def)
  show ?thesis
  proof (cases "t = 255 \<and> c = 0")
    case True
    define rc' where "rc' = rc\<lparr>rc_cache_size := rc_cache_size rc + 1, rc_low := push_bit 8 (rc_low rc AND 0x00FFFFFF)\<rparr>"
    have e: "rc_shift_low out_size rc out = (False, rc', out)"
      using True top(1) carry(3) by (simp add: rc_shift_low_def rc'_def Let_def)
    have ct: "?low div 2 ^ 32 = 0" "?low mod 2 ^ 32 div 2 ^ 24 = 255" using True by (simp_all only: c_def t_def)
    have "\<not> ?low < 2 ^ 24" using ct(2) by auto
    moreover have "rc_low rc' = push_bit 8 (rc_low rc AND 0x00FFFFFF)" by (simp add: rc'_def)
    then have "unat (rc_low rc') = 256 * (?low mod 2 ^ 24)" by (simp only: low_kept)
    ultimately show ?thesis using e shift_low_withhold [OF inv g size ct rc'_def] by blast
  next
    case False
    have ct: "t < 255 \<or> c = 1" using False carry(1) unfolding t_def by (auto simp: div_less_iff_less_mult less_Suc_eq_le)
    define rc' where "rc' = rc\<lparr>rc_cache := ucast (drop_bit 24 (rc_low rc) AND 0xFF), rc_cache_size := 1,
      rc_low := push_bit 8 (rc_low rc AND 0x00FFFFFF)\<rparr>"
    define out' where "out' = out @ (rc_cache rc + word_of_nat c) # replicate (unat (rc_cache_size rc) - 1) (0xFF + word_of_nat c)"
    have wr: "rc_shift_out out_size rc out = (False, rc\<lparr>rc_cache := 0xFF, rc_cache_size := 0\<rparr>, out')"
      using rc_shift_out_writes [OF cs, of out out_size] room by (simp add: enc_length_def out'_def carry(2))
    have e: "rc_shift_low out_size rc out = (False, rc', out')"
      using ct top(1) carry(3) by (auto simp: rc_shift_low_def wr rc'_def Let_def)
    have "?low < 2 ^ 24 \<longrightarrow> rc_cache_size rc' = 1 \<and> withheld rc' = 0" using top(2) by (auto simp: rc'_def withheld_def t_def)
    then show ?thesis using e shift_low_write [OF inv g c_def t_def ct top(2) rc'_def out'_def] low_kept [of "rc_low rc"]
      by simp (simp add: rc'_def)
  qed
qed

subsection \<open>Narrowing the interval\<close>

text \<open>The interval as numbers: its lower bound, its size and the number of its digits, with the probabilities. A step first
  normalises, then takes the part of the interval that belongs to the symbol.\<close>

definition prob_ok :: "probability \<Rightarrow> bool" where
  "prob_ok prob \<longleftrightarrow> 31 \<le> unat prob \<and> unat prob \<le> 2017"

datatype 'p sym = Sym_bit "'p pointer" bool | Sym_direct bool | Sym_flush

fun sym_of :: "rc_symbol \<Rightarrow> 'p pointer \<Rightarrow> 'p sym" where
  "sym_of RC_BIT_0 prob = Sym_bit prob False"
| "sym_of RC_BIT_1 prob = Sym_bit prob True"
| "sym_of RC_DIRECT_0 prob = Sym_direct False"
| "sym_of RC_DIRECT_1 prob = Sym_direct True"
| "sym_of RC_FLUSH prob = Sym_flush"

text \<open>The probabilities that symbols touch.\<close>

fun sym_ptrs :: "'p sym list \<Rightarrow> 'p pointer set" where
  "sym_ptrs [] = {}"
| "sym_ptrs (Sym_bit prob b # syms) = insert prob (sym_ptrs syms)"
| "sym_ptrs (_ # syms) = sym_ptrs syms"

lemma sym_ptrs_append [simp]: "sym_ptrs (xs @ ys) = sym_ptrs xs \<union> sym_ptrs ys"
  by (induction xs rule: sym_ptrs.induct) simp_all

record 'p interval =
  iv_value :: nat
  iv_size :: nat
  iv_digits :: nat
  iv_probs :: "'p memory"

definition iv_normalize :: "'p interval \<Rightarrow> 'p interval" where
  "iv_normalize iv = (if iv_size iv < 2 ^ 24 then iv\<lparr>iv_value := 256 * iv_value iv, iv_size := 256 * iv_size iv, iv_digits := iv_digits iv + 1\<rparr> else iv)"

fun iv_narrow :: "'p sym \<Rightarrow> 'p interval \<Rightarrow> 'p interval" where
  "iv_narrow (Sym_bit prob b) iv =
     (let p = iv_probs iv prob; bound = iv_size iv div 2 ^ 11 * unat p
      in if b then iv\<lparr>iv_value := iv_value iv + bound, iv_size := iv_size iv - bound, iv_probs := (iv_probs iv)(prob := prob_update_1 p)\<rparr>
         else iv\<lparr>iv_size := bound, iv_probs := (iv_probs iv)(prob := prob_update_0 p)\<rparr>)"
| "iv_narrow (Sym_direct b) iv = iv\<lparr>iv_value := iv_value iv + (if b then iv_size iv div 2 else 0), iv_size := iv_size iv div 2\<rparr>"
| "iv_narrow Sym_flush iv = iv"

definition iv_step :: "'p sym \<Rightarrow> 'p interval \<Rightarrow> 'p interval" where
  "iv_step sa iv = iv_narrow sa (iv_normalize iv)"

definition iv_ok :: "'p interval \<Rightarrow> bool" where
  "iv_ok iv \<longleftrightarrow> 2 ^ 16 \<le> iv_size iv \<and> iv_size iv < 2 ^ 32 \<and> (\<forall>a. prob_ok (iv_probs iv a))"

lemma prob_updates:
  assumes "prob_ok prob"
  shows "prob_ok (prob_update_0 prob)" and "prob_ok (prob_update_1 prob)"
proof -
  let ?p = "unat prob"
  have p: "31 \<le> ?p" "?p \<le> 2017" using assms by (simp_all add: prob_ok_def)
  have u: "unat (ucast prob :: u32) = ?p" by (simp add: unat_ucast_up)
  have total: "unat RC_BIT_MODEL_TOTAL = 2048" by (simp add: RC_BIT_MODEL_TOTAL_def)
  have d: "unat (RC_BIT_MODEL_TOTAL - ucast prob) = 2048 - ?p" using p u total by (subst unat_sub) (simp_all add: word_le_nat_alt)
  have s: "unat (ucast prob + drop_bit 5 (RC_BIT_MODEL_TOTAL - ucast prob) :: u32) = ?p + (2048 - ?p) div 32"
    using p by (subst unat_add_small) (simp_all add: u unat_drop_bit_div d)
  have "?p + (2048 - ?p) div 32 \<le> 2017" using p by linarith
  moreover have "unat (prob_update_0 prob) = ?p + (2048 - ?p) div 32"
    using calculation s by (simp add: prob_update_0_def unat_ucast_mod)
  ultimately show "prob_ok (prob_update_0 prob)" using p by (simp add: prob_ok_def)
  have "unat (prob_update_1 prob) = ?p - ?p div 32"
    unfolding prob_update_1_def by (subst unat_sub) (simp_all add: word_le_nat_alt unat_drop_bit_div)
  moreover have "31 \<le> ?p - ?p div 32" using p by linarith
  ultimately show "prob_ok (prob_update_1 prob)" using p by (simp add: prob_ok_def)
qed

lemma iv_normalize_ok:
  "iv_ok iv \<Longrightarrow> iv_ok (iv_normalize iv) \<and> 2 ^ 24 \<le> iv_size (iv_normalize iv)"
  by (auto simp: iv_ok_def iv_normalize_def)

text \<open>The bound of a bit splits a normalised interval into two parts that are not too small.\<close>

lemma bound_parts:
  assumes "2 ^ 24 \<le> r" and "r < 2 ^ 32" and "31 \<le> p" and "p \<le> (2017 :: nat)"
  shows "2 ^ 16 \<le> r div 2 ^ 11 * p" and "r div 2 ^ 11 * p < r" and "2 ^ 16 \<le> r - r div 2 ^ 11 * p"
proof -
  have q: "2 ^ 13 \<le> r div 2 ^ 11" using div_le_mono [OF assms(1), of "2 ^ 11"] by simp
  have "2 ^ 13 * 31 \<le> r div 2 ^ 11 * p" using q assms(3) by (rule mult_le_mono)
  then show "2 ^ 16 \<le> r div 2 ^ 11 * p" by simp
  have a: "r div 2 ^ 11 * p + r div 2 ^ 11 * 31 \<le> r div 2 ^ 11 * 2048"
    using assms(4) by (simp flip: add_mult_distrib2)
  have b: "r div 2 ^ 11 * 2048 \<le> r" using div_times_less_eq_dividend [of r "2 ^ 11"] by simp
  have c: "2 ^ 13 * 31 \<le> r div 2 ^ 11 * 31" using q by (rule mult_le_mono1)
  have d: "r div 2 ^ 11 * p + 2 ^ 13 * 31 \<le> r" using a b c by linarith
  then show "r div 2 ^ 11 * p < r" by simp
  have "253952 \<le> r - r div 2 ^ 11 * p" using d by simp
  then show "2 ^ 16 \<le> r - r div 2 ^ 11 * p" by simp
qed

lemma iv_narrow_ok:
  assumes "iv_ok iv" and "2 ^ 24 \<le> iv_size iv"
  shows "iv_ok (iv_narrow sa iv)" and "iv_value iv \<le> iv_value (iv_narrow sa iv)"
    and "iv_value (iv_narrow sa iv) + iv_size (iv_narrow sa iv) \<le> iv_value iv + iv_size iv"
    and "iv_digits (iv_narrow sa iv) = iv_digits iv"
proof -
  have "iv_ok (iv_narrow sa iv) \<and> iv_value iv \<le> iv_value (iv_narrow sa iv)
    \<and> iv_value (iv_narrow sa iv) + iv_size (iv_narrow sa iv) \<le> iv_value iv + iv_size iv \<and> iv_digits (iv_narrow sa iv) = iv_digits iv"
  proof (cases sa)
    case (Sym_bit prob b)
    have p: "prob_ok (iv_probs iv prob)" using assms(1) unfolding iv_ok_def by blast
    have "iv_size iv < 2 ^ 32" using assms(1) by (simp add: iv_ok_def)
    note b = bound_parts [OF assms(2) this, of "unat (iv_probs iv prob)"]
    have b': "2 ^ 16 \<le> iv_size iv div 2 ^ 11 * unat (iv_probs iv prob)" "iv_size iv div 2 ^ 11 * unat (iv_probs iv prob) < iv_size iv"
      "2 ^ 16 \<le> iv_size iv - iv_size iv div 2 ^ 11 * unat (iv_probs iv prob)"
      using b p by (simp_all add: prob_ok_def)
    then show ?thesis using assms prob_updates [OF p] by (auto simp: Sym_bit iv_ok_def Let_def)
  next
    case (Sym_direct b)
    then show ?thesis using assms by (auto simp: iv_ok_def)
  next
    case Sym_flush
    then show ?thesis using assms by simp
  qed
  then show "iv_ok (iv_narrow sa iv)" "iv_value iv \<le> iv_value (iv_narrow sa iv)"
    "iv_value (iv_narrow sa iv) + iv_size (iv_narrow sa iv) \<le> iv_value iv + iv_size iv" "iv_digits (iv_narrow sa iv) = iv_digits iv" by simp_all
qed

text \<open>Later intervals lie inside earlier ones, at their scale.\<close>

definition iv_inside :: "'p interval \<Rightarrow> 'p interval \<Rightarrow> bool" where
  "iv_inside iv iv' \<longleftrightarrow> iv_digits iv \<le> iv_digits iv' \<and> iv_value iv * 256 ^ (iv_digits iv' - iv_digits iv) \<le> iv_value iv'
     \<and> iv_value iv' + iv_size iv' \<le> (iv_value iv + iv_size iv) * 256 ^ (iv_digits iv' - iv_digits iv)"

lemma iv_inside_refl: "iv_inside iv iv"
  by (simp add: iv_inside_def)

lemma iv_inside_trans:
  assumes "iv_inside a b" and "iv_inside b c"
  shows "iv_inside a c"
proof -
  let ?m = "(256 :: nat) ^ (iv_digits b - iv_digits a)" and ?n = "(256 :: nat) ^ (iv_digits c - iv_digits b)"
  have ab: "iv_digits a \<le> iv_digits b" "iv_value a * ?m \<le> iv_value b" "iv_value b + iv_size b \<le> (iv_value a + iv_size a) * ?m"
    and bc: "iv_digits b \<le> iv_digits c" "iv_value b * ?n \<le> iv_value c" "iv_value c + iv_size c \<le> (iv_value b + iv_size b) * ?n"
    using assms by (simp_all add: iv_inside_def)
  have p: "256 ^ (iv_digits c - iv_digits a) = ?m * ?n" using ab(1) bc(1) by (simp flip: power_add)
  have "iv_value a * (?m * ?n) \<le> iv_value c" using order_trans [OF mult_le_mono1 [OF ab(2)] bc(2)] by (simp only: mult.assoc)
  moreover have "iv_value c + iv_size c \<le> (iv_value a + iv_size a) * (?m * ?n)"
    using order_trans [OF bc(3) mult_le_mono1 [OF ab(3)]] by (simp only: mult.assoc)
  ultimately show ?thesis using ab(1) bc(1) unfolding iv_inside_def p by simp
qed

lemma iv_inside_normalize: "iv_inside iv (iv_normalize iv)"
  by (simp add: iv_inside_def iv_normalize_def)

lemma iv_step_ok:
  assumes "iv_ok iv"
  shows "iv_ok (iv_step sa iv)" and "iv_inside iv (iv_step sa iv)" and "iv_inside (iv_normalize iv) (iv_step sa iv)"
proof -
  note n = iv_normalize_ok [OF assms]
  note s = iv_narrow_ok [of "iv_normalize iv" sa]
  show "iv_ok (iv_step sa iv)" using n s(1) by (simp add: iv_step_def)
  show i: "iv_inside (iv_normalize iv) (iv_step sa iv)" using n s by (simp add: iv_step_def iv_inside_def)
  show "iv_inside iv (iv_step sa iv)" by (rule iv_inside_trans [OF iv_inside_normalize i])
qed

lemma iv_run_ok:
  "iv_ok iv \<Longrightarrow> iv_ok (fold iv_step syms iv) \<and> iv_inside iv (fold iv_step syms iv)"
proof (induction syms arbitrary: iv)
  case (Cons sa syms)
  then show ?case using iv_step_ok [OF Cons.prems, of sa] iv_inside_trans by fastforce
qed (simp add: iv_inside_refl)

lemma iv_digits_run: "iv_digits (fold iv_step syms iv) \<le> iv_digits iv + length syms"
proof (induction syms arbitrary: iv)
  case (Cons sa syms)
  have "iv_digits (iv_step sa iv) \<le> iv_digits iv + 1"
    by (cases sa) (auto simp: iv_step_def iv_normalize_def Let_def)
  with Cons [of "iv_step sa iv"] show ?case by simp
qed simp

subsection \<open>The encoder narrows the interval\<close>

definition enc_iv :: "'p range_encoder \<Rightarrow> 'p memory \<Rightarrow> byte list \<Rightarrow> 'p interval" where
  "enc_iv rc probs out = \<lparr>iv_value = enc_value rc out, iv_size = unat (rc_range rc), iv_digits = enc_length rc out, iv_probs = probs\<rparr>"

lemma enc_iv_fields [simp]: "iv_value (enc_iv rc probs out) = enc_value rc out" "iv_size (enc_iv rc probs out) = unat (rc_range rc)"
    "iv_digits (enc_iv rc probs out) = enc_length rc out" "iv_probs (enc_iv rc probs out) = probs"
  by (simp_all add: enc_iv_def)

lemma RC_TOP_VALUE_less: "w < RC_TOP_VALUE \<longleftrightarrow> unat w < 2 ^ 24"
  by (simp add: RC_TOP_VALUE_def word_less_nat_alt unat_push_bit_mult)

lemma cache_size_le: "unat (rc_cache_size rc) \<le> enc_length rc out"
  by (simp add: enc_length_def)

lemma rc_normalize_encoder_ok:
  assumes "enc_inv (unat (rc_range rc)) rc" and "enc_length rc out \<le> out_size" and "enc_length rc out + 1 < 2 ^ 64"
  shows "\<exists>rc' out'. rc_normalize_encoder out_size rc out = (False, rc', out')
    \<and> enc_iv rc' probs out' = iv_normalize (enc_iv rc probs out) \<and> enc_inv (unat (rc_range rc')) rc'"
proof (cases "rc_range rc < RC_TOP_VALUE")
  case True
  then have r: "unat (rc_range rc) < 2 ^ 24" by (simp add: RC_TOP_VALUE_less)
  have "unat (rc_cache_size rc) + 1 < 2 ^ 64" using cache_size_le [of rc out] assms(3) by linarith
  then obtain rc1 out1 where s: "rc_shift_low out_size rc out = (False, rc1, out1)" "enc_value rc1 out1 = 256 * enc_value rc out"
    "enc_length rc1 out1 = enc_length rc out + 1" "enc_inv (256 * unat (rc_range rc)) rc1"
    using rc_shift_low_ok [OF assms(1) less_imp_le [OF r] assms(2)] by blast
  define rc' where "rc' = rc1\<lparr>rc_range := push_bit 8 (rc_range rc)\<rparr>"
  have r': "unat (rc_range rc') = 256 * unat (rc_range rc)" using r unat_push_bit_mult [of "rc_range rc" 8] by (simp add: rc'_def)
  have "rc_range rc1 = rc_range rc" using rc_shift_low_fields [OF s(1)] by simp
  then have e: "rc_normalize_encoder out_size rc out = (False, rc', out1)" using True s(1) by (simp add: rc_normalize_encoder_def rc'_def)
  have f: "enc_value rc' out1 = enc_value rc1 out1" "enc_length rc' out1 = enc_length rc1 out1" "enc_inv g rc' = enc_inv g rc1" for g
    by (simp_all add: rc'_def enc_value_def enc_length_def enc_inv_def withheld_def)
  have "enc_iv rc' probs out1 = iv_normalize (enc_iv rc probs out)"
    using r by (simp add: iv_normalize_def enc_iv_def f r' s(2,3))
  then show ?thesis using e f(3) r' s(4) by simp
next
  case False
  then show ?thesis using assms(1) by (simp add: rc_normalize_encoder_def iv_normalize_def RC_TOP_VALUE_less)
qed

lemma unat_bound:
  assumes "2 ^ 24 \<le> unat (r :: u32)" and "prob_ok prob"
  shows "unat (drop_bit 11 r * ucast prob) = unat r div 2 ^ 11 * unat prob"
proof -
  have "unat r < 2 ^ 32" using unsigned_less [of r, where 'a = nat] by simp
  note b = bound_parts [OF assms(1) this, of "unat prob"]
  have "unat r div 2 ^ 11 * unat prob < 2 ^ 32"
    using b(2) assms(2) unsigned_less [of r, where 'a = nat] by (simp add: prob_ok_def)
  then show ?thesis by (simp add: unat_word_ariths unat_drop_bit_div unat_ucast_up)
qed

lemma enc_inv_narrow:
  assumes "enc_inv g rc" and "unat (rc_low rc') = unat (rc_low rc) + off" and "off + g' \<le> g" and "0 < g'"
    and "rc_cache rc' = rc_cache rc" and "rc_cache_size rc' = rc_cache_size rc"
  shows "enc_inv g' rc'" and "enc_value rc' out = enc_value rc out + off" and "enc_length rc' out = enc_length rc out"
  using assms by (simp_all add: enc_inv_def withheld_def enc_value_def enc_length_def)

lemma rc_encode_bit_ok:
  assumes ok: "iv_ok (enc_iv rc probs out)" "enc_inv (unat (rc_range rc)) rc" and big: "2 ^ 24 \<le> unat (rc_range rc)" and "symbol \<noteq> RC_FLUSH"
    and e: "rc_encode_bit symbol address rc probs = (rc', probs')"
  shows "enc_iv rc' probs' out = iv_narrow (sym_of symbol address) (enc_iv rc probs out)" and "enc_inv (unat (rc_range rc')) rc'"
proof -
  let ?r = "unat (rc_range rc)" and ?p = "unat (probs address)"
  have p: "prob_ok (probs address)" using ok(1) unfolding iv_ok_def enc_iv_fields by blast
  have r: "?r < 2 ^ 32" using unsigned_less [of "rc_range rc", where 'a = nat] by simp
  have parts: "2 ^ 16 \<le> ?r div 2 ^ 11 * ?p" "?r div 2 ^ 11 * ?p < ?r" "2 ^ 16 \<le> ?r - ?r div 2 ^ 11 * ?p"
    using bound_parts [OF big r, of ?p] p by (simp_all add: prob_ok_def)
  note bound = unat_bound [OF big p]
  have low: "unat (rc_low rc) < 2 ^ 33" using ok(2) by (simp add: enc_inv_def)
  have half: "unat (drop_bit (Suc 0) (rc_range rc)) = ?r div 2" using unat_drop_bit_div [of 1 "rc_range rc"] by simp
  have add: "unat (rc_low rc + ucast w) = unat (rc_low rc) + unat w" for w :: u32
    using low unsigned_less [of w, where 'a = nat] by (subst unat_add_small) (simp_all add: unat_ucast_up)
  have sub: "unat (rc_range rc - ucast (probs address) * drop_bit 11 (rc_range rc)) = ?r - ?r div 2 ^ 11 * ?p"
    using parts(2) bound by (subst unat_sub) (simp_all add: word_le_nat_alt mult.commute [of "ucast (probs address)"])
  have c: "unat (ucast (probs address) * drop_bit 11 (rc_range rc)) = ?r div 2 ^ 11 * ?p" using bound by (simp add: mult.commute)
  have f: "rc_cache rc' = rc_cache rc" "rc_cache_size rc' = rc_cache_size rc" using rc_encode_bit_fields [OF e] by simp_all
  have goal: "enc_iv rc' probs' out = iv_narrow (sym_of symbol address) (enc_iv rc probs out) \<and> enc_inv (unat (rc_range rc')) rc'"
    if "unat (rc_low rc') = unat (rc_low rc) + off" and "off + unat (rc_range rc') \<le> ?r" and "0 < unat (rc_range rc')"
      and "iv_narrow (sym_of symbol address) (enc_iv rc probs out) = \<lparr>iv_value = enc_value rc out + off, iv_size = unat (rc_range rc'),
        iv_digits = enc_length rc out, iv_probs = probs'\<rparr>" for off
    using enc_inv_narrow [OF ok(2) that(1-3) f] that(4) by (simp add: enc_iv_def [of rc' probs' out])
  have "enc_iv rc' probs' out = iv_narrow (sym_of symbol address) (enc_iv rc probs out) \<and> enc_inv (unat (rc_range rc')) rc'"
  proof (cases symbol)
    case RC_BIT_0
    then have r': "rc' = rc\<lparr>rc_range := drop_bit 11 (rc_range rc) * ucast (probs address)\<rparr>" "probs' = probs(address := prob_update_0 (probs address))"
      using e by (simp_all add: rc_encode_bit_def Let_def)
    have pr: "unat (rc_range rc') = ?r div 2 ^ 11 * ?p" using bound by (simp add: r')
    have "0 < unat (rc_range rc')" unfolding pr by (rule less_le_trans [OF _ parts(1)]) simp
    then show ?thesis using pr parts(2) RC_BIT_0 by (intro goal [of 0]) (simp_all add: r' enc_iv_def Let_def)
  next
    case RC_BIT_1
    let ?b = "ucast (probs address) * drop_bit 11 (rc_range rc)"
    have r': "rc' = rc\<lparr>rc_low := rc_low rc + ucast ?b, rc_range := rc_range rc - ?b\<rparr>" "probs' = probs(address := prob_update_1 (probs address))"
      using e RC_BIT_1 by (simp_all add: rc_encode_bit_def Let_def)
    have "unat (rc_range rc') = ?r - ?r div 2 ^ 11 * ?p" "unat (rc_low rc') = unat (rc_low rc) + ?r div 2 ^ 11 * ?p"
      using sub add [of ?b] c by (simp_all add: r')
    then show ?thesis using parts RC_BIT_1 by (intro goal [of "?r div 2 ^ 11 * ?p"]) (simp_all add: r'(2) enc_iv_def Let_def)
  next
    case RC_DIRECT_0
    then have r': "rc' = rc\<lparr>rc_range := drop_bit 1 (rc_range rc)\<rparr>" "probs' = probs" using e by (simp_all add: rc_encode_bit_def)
    have "unat (rc_range rc') = ?r div 2" using half by (simp add: r')
    then show ?thesis using big RC_DIRECT_0 by (intro goal [of 0]) (simp_all add: r' enc_iv_def Let_def)
  next
    case RC_DIRECT_1
    let ?h = "drop_bit 1 (rc_range rc)"
    have r': "rc' = rc\<lparr>rc_range := ?h, rc_low := rc_low rc + ucast ?h\<rparr>" "probs' = probs"
      using e RC_DIRECT_1 by (simp_all add: rc_encode_bit_def Let_def)
    have "unat (rc_range rc') = ?r div 2" "unat (rc_low rc') = unat (rc_low rc) + ?r div 2"
      using half add [of ?h] by (simp_all add: r')
    then show ?thesis using big RC_DIRECT_1 by (intro goal [of "?r div 2"]) (simp_all add: r'(2) enc_iv_def Let_def)
  next
    case RC_FLUSH
    then show ?thesis using assms(4) by simp
  qed
  then show "enc_iv rc' probs' out = iv_narrow (sym_of symbol address) (enc_iv rc probs out)" "enc_inv (unat (rc_range rc')) rc'" by simp_all
qed

text \<open>The symbols that are waiting in the encoder.\<close>

definition rc_queue :: "'p range_encoder \<Rightarrow> 'p sym list" where
  "rc_queue rc = map (\<lambda>i. sym_of (rc_symbols rc ! i) (rc_probs rc ! i)) [rc_pos rc..<rc_count rc]"

lemma rc_queue_Cons:
  assumes "rc_queue rc = sa # syms"
  shows "rc_pos rc < rc_count rc" and "sa = sym_of (rc_symbols rc ! rc_pos rc) (rc_probs rc ! rc_pos rc)"
    and "rc_symbols rc' = rc_symbols rc \<Longrightarrow> rc_probs rc' = rc_probs rc \<Longrightarrow> rc_count rc' = rc_count rc \<Longrightarrow> rc_pos rc' = rc_pos rc + 1
      \<Longrightarrow> rc_queue rc' = syms"
proof -
  have "[rc_pos rc..<rc_count rc] \<noteq> []" using assms by (metis list.distinct(1) list.simps(8) rc_queue_def)
  then show l: "rc_pos rc < rc_count rc" by (simp add: upt_eq_Nil_conv)
  then show "sa = sym_of (rc_symbols rc ! rc_pos rc) (rc_probs rc ! rc_pos rc)"
    using assms by (simp add: rc_queue_def upt_conv_Cons)
  show "rc_queue rc' = syms" if "rc_symbols rc' = rc_symbols rc" "rc_probs rc' = rc_probs rc" "rc_count rc' = rc_count rc" "rc_pos rc' = rc_pos rc + 1"
    using assms l that by (simp add: rc_queue_def upt_conv_Cons)
qed

lemma rc_queue_empty: "rc_queue rc = [] \<longleftrightarrow> \<not> rc_pos rc < rc_count rc"
  by (auto simp add: rc_queue_def)

lemma rc_pos_cong:
  "enc_iv (rc\<lparr>rc_pos := n\<rparr>) probs out = enc_iv rc probs out" "enc_inv g (rc\<lparr>rc_pos := n\<rparr>) = enc_inv g rc"
  "enc_iv (rc\<lparr>rc_count := n\<rparr>) probs out = enc_iv rc probs out" "enc_inv g (rc\<lparr>rc_count := n\<rparr>) = enc_inv g rc"
  by (simp_all add: enc_iv_def enc_inv_def enc_value_def enc_length_def withheld_def)

lemma rc_encode_loop_steps:
  "rc_queue rc = syms @ rest \<Longrightarrow> Sym_flush \<notin> set syms \<Longrightarrow> iv_ok (enc_iv rc probs out) \<Longrightarrow> enc_inv (unat (rc_range rc)) rc
   \<Longrightarrow> enc_length rc out + length syms \<le> out_size \<Longrightarrow> out_size + 1 < 2 ^ 64 \<Longrightarrow>
   \<exists>rc' probs' out'. rc_encode_loop out_size rc probs out = rc_encode_loop out_size rc' probs' out' \<and> rc_queue rc' = rest
     \<and> enc_iv rc' probs' out' = fold iv_step syms (enc_iv rc probs out) \<and> enc_inv (unat (rc_range rc')) rc'
     \<and> rc_symbols rc' = rc_symbols rc \<and> rc_probs rc' = rc_probs rc \<and> rc_count rc' = rc_count rc"
proof (induction syms arbitrary: rc probs out)
  case Nil
  then show ?case by (intro exI [of _ rc] exI [of _ probs] exI [of _ out]) simp
next
  case (Cons sa syms)
  have q: "rc_queue rc = sa # (syms @ rest)" using Cons.prems(1) by simp
  note sa = rc_queue_Cons(2) [OF q] and l = rc_queue_Cons(1) [OF q]
  have nf: "rc_symbols rc ! rc_pos rc \<noteq> RC_FLUSH" using Cons.prems(2) sa by auto
  have len: "enc_length rc out \<le> out_size" "enc_length rc out + 1 < 2 ^ 64" using Cons.prems(5,6) by simp_all
  obtain rc1 out1 where n: "rc_normalize_encoder out_size rc out = (False, rc1, out1)"
    "enc_iv rc1 probs out1 = iv_normalize (enc_iv rc probs out)" "enc_inv (unat (rc_range rc1)) rc1"
    using rc_normalize_encoder_ok [OF Cons.prems(4) len] by blast
  note nfields = rc_normalize_encoder_fields [OF n(1)]
  obtain rc2 probs2 where b: "rc_encode_bit (rc_symbols rc ! rc_pos rc) (rc_probs rc ! rc_pos rc) rc1 probs = (rc2, probs2)" by fastforce
  note bfields = rc_encode_bit_fields [OF b]
  note no = iv_normalize_ok [OF Cons.prems(3)]
  have ok1: "iv_ok (enc_iv rc1 probs out1)" "2 ^ 24 \<le> unat (rc_range rc1)"
    unfolding n(2) using no by (simp_all flip: n(2))
  note bit = rc_encode_bit_ok [OF ok1(1) n(3) ok1(2) nf b]
  define rc3 where "rc3 = rc2\<lparr>rc_pos := rc_pos rc2 + 1\<rparr>"
  have e: "rc_encode_loop out_size rc probs out = rc_encode_loop out_size rc3 probs2 out1"
    using l nf nfields b by (subst rc_encode_loop.simps) (simp add: n(1) rc3_def)
  have iv3: "enc_iv rc3 probs2 out1 = iv_step sa (enc_iv rc probs out)" "enc_inv (unat (rc_range rc3)) rc3"
    unfolding rc3_def rc_pos_cong using bit by (simp_all add: n(2) iv_step_def sa)
  have q3: "rc_queue rc3 = syms @ rest" using rc_queue_Cons(3) [OF q, of rc3] nfields bfields by (simp add: rc3_def)
  have "iv_digits (enc_iv rc3 probs2 out1) \<le> iv_digits (enc_iv rc probs out) + 1"
    unfolding iv3 using iv_digits_run [of "[sa]" "enc_iv rc probs out"] by simp
  then have len3: "enc_length rc3 out1 + length syms \<le> out_size" using Cons.prems(5) by simp
  have ok3: "iv_ok (enc_iv rc3 probs2 out1)" unfolding iv3 by (rule iv_step_ok(1) [OF Cons.prems(3)])
  have nf3: "Sym_flush \<notin> set syms" using Cons.prems(2) by simp
  obtain rc' probs' out' where "rc_encode_loop out_size rc3 probs2 out1 = rc_encode_loop out_size rc' probs' out'" "rc_queue rc' = rest"
    "enc_iv rc' probs' out' = fold iv_step syms (enc_iv rc3 probs2 out1)" "enc_inv (unat (rc_range rc')) rc'"
    "rc_symbols rc' = rc_symbols rc3" "rc_probs rc' = rc_probs rc3" "rc_count rc' = rc_count rc3"
    using Cons.IH [OF q3 nf3 ok3 iv3(2) len3 Cons.prems(6)] by blast
  then show ?case using e iv3(1) nfields bfields
    by (intro exI [of _ rc'] exI [of _ probs'] exI [of _ out']) (simp add: rc3_def)
qed

lemma rc_encode_ok:
  assumes "rc_queue rc = syms" and "Sym_flush \<notin> set syms" and "iv_ok (enc_iv rc probs out)" and "enc_inv (unat (rc_range rc)) rc"
    and "enc_length rc out + length syms \<le> out_size" and "out_size + 1 < 2 ^ 64"
  shows "\<exists>rc' probs' out'. rc_encode out_size rc probs out = (False, rc', probs', out') \<and> rc_count rc' = 0 \<and> rc_pos rc' = 0
     \<and> enc_iv rc' probs' out' = fold iv_step syms (enc_iv rc probs out) \<and> enc_inv (unat (rc_range rc')) rc'
     \<and> rc_symbols rc' = rc_symbols rc \<and> rc_probs rc' = rc_probs rc"
proof -
  have "rc_queue rc = syms @ []" using assms(1) by simp
  from rc_encode_loop_steps [OF this assms(2-6)]
  obtain rc1 probs' out' where s: "rc_encode_loop out_size rc probs out = rc_encode_loop out_size rc1 probs' out'" "rc_queue rc1 = []"
    "enc_iv rc1 probs' out' = fold iv_step syms (enc_iv rc probs out)" "enc_inv (unat (rc_range rc1)) rc1"
    "rc_symbols rc1 = rc_symbols rc" "rc_probs rc1 = rc_probs rc" by blast
  have "rc_encode out_size rc probs out = (False, rc1\<lparr>rc_count := 0, rc_pos := 0\<rparr>, probs', out')"
    unfolding rc_encode_def s(1) using s(2) by (subst rc_encode_loop.simps) (simp add: rc_queue_empty)
  then show ?thesis using s(3-6)
    by (intro exI [of _ "rc1\<lparr>rc_count := 0, rc_pos := 0\<rparr>"] exI [of _ probs'] exI [of _ out']) (simp add: rc_pos_cong)
qed

text \<open>Flushing writes what is withheld and the four bytes of \<open>low\<close>.\<close>

lemma enc_inv_mono: "enc_inv g rc \<Longrightarrow> 0 < g' \<Longrightarrow> g' \<le> g \<Longrightarrow> enc_inv g' rc"
  by (simp add: enc_inv_def)

lemma shift_low_one:
  assumes "enc_inv 1 rc" and "enc_length rc out \<le> out_size" and "out_size + 1 < 2 ^ 64"
  shows "\<exists>rc' out'. rc_shift_low out_size rc out = (False, rc', out') \<and> enc_value rc' out' = 256 * enc_value rc out
    \<and> enc_length rc' out' = enc_length rc out + 1 \<and> enc_inv 1 rc' \<and> unat (rc_low rc') = 256 * (unat (rc_low rc) mod 2 ^ 24)
    \<and> (unat (rc_low rc) < 2 ^ 24 \<longrightarrow> rc_cache_size rc' = 1 \<and> withheld rc' = 0) \<and> rc_pos rc' = rc_pos rc \<and> rc_count rc' = rc_count rc"
proof -
  have "unat (rc_cache_size rc) + 1 < 2 ^ 64" using cache_size_le [of rc out] assms(2,3) by linarith
  from rc_shift_low_ok [OF assms(1) _ assms(2) this]
  obtain rc' out' where s: "rc_shift_low out_size rc out = (False, rc', out')" "enc_value rc' out' = 256 * enc_value rc out"
    "enc_length rc' out' = enc_length rc out + 1" "enc_inv (256 * 1) rc'" "unat (rc_low rc') = 256 * (unat (rc_low rc) mod 2 ^ 24)"
    "unat (rc_low rc) < 2 ^ 24 \<longrightarrow> rc_cache_size rc' = 1 \<and> withheld rc' = 0" by auto
  have "enc_inv 1 rc'" by (rule enc_inv_mono [OF s(4)]) simp_all
  then show ?thesis using s rc_shift_low_fields [OF s(1)] by blast
qed

lemma rc_flush_loop_step:
  assumes "rc_pos rc < rc_count rc" and "enc_inv 1 rc" and "enc_length rc out \<le> out_size" and "out_size + 1 < 2 ^ 64"
  shows "\<exists>rc' out'. rc_flush_loop out_size rc out = (if rc_pos rc + 1 < rc_count rc then rc_flush_loop out_size rc' out' else (False, rc', out'))
    \<and> enc_value rc' out' = 256 * enc_value rc out
    \<and> enc_length rc' out' = enc_length rc out + 1 \<and> enc_inv 1 rc' \<and> unat (rc_low rc') = 256 * (unat (rc_low rc) mod 2 ^ 24)
    \<and> (unat (rc_low rc) < 2 ^ 24 \<longrightarrow> rc_cache_size rc' = 1 \<and> withheld rc' = 0) \<and> rc_pos rc' = rc_pos rc + 1 \<and> rc_count rc' = rc_count rc"
proof -
  from shift_low_one [OF assms(2-4)]
  obtain rc' out' where s: "rc_shift_low out_size rc out = (False, rc', out')" "enc_value rc' out' = 256 * enc_value rc out"
    "enc_length rc' out' = enc_length rc out + 1" "enc_inv 1 rc'" "unat (rc_low rc') = 256 * (unat (rc_low rc) mod 2 ^ 24)"
    "unat (rc_low rc) < 2 ^ 24 \<longrightarrow> rc_cache_size rc' = 1 \<and> withheld rc' = 0" "rc_pos rc' = rc_pos rc" "rc_count rc' = rc_count rc" by blast
  have "rc_flush_loop out_size rc out = (if rc_pos rc + 1 < rc_count rc then rc_flush_loop out_size (rc'\<lparr>rc_pos := rc_pos rc' + 1\<rparr>) out'
      else (False, rc'\<lparr>rc_pos := rc_pos rc' + 1\<rparr>, out'))"
    by (subst rc_flush_loop.simps) (simp add: s(1,7,8) Let_def)
  moreover have "enc_value (rc'\<lparr>rc_pos := rc_pos rc' + 1\<rparr>) out' = enc_value rc' out'" "enc_length (rc'\<lparr>rc_pos := rc_pos rc' + 1\<rparr>) out' = enc_length rc' out'"
    "withheld (rc'\<lparr>rc_pos := rc_pos rc' + 1\<rparr>) = withheld rc'"
    by (simp_all add: enc_value_def enc_length_def withheld_def)
  ultimately show ?thesis using s(2-8) by (intro exI [of _ "rc'\<lparr>rc_pos := rc_pos rc' + 1\<rparr>"] exI [of _ out']) (simp add: rc_pos_cong)
qed

lemma low_shifted_out:
  assumes "l1 = 256 * (l0 mod 2 ^ 24)" and "l2 = 256 * (l1 mod 2 ^ 24)" and "l3 = 256 * (l2 mod 2 ^ 24)" and "l4 = 256 * (l3 mod (2 :: nat) ^ 24)"
  shows "l4 = 0"
proof -
  have m: "256 * (l mod 2 ^ 24) mod 2 ^ 24 = 256 * (l mod 2 ^ 16)" for l :: nat
  proof -
    have "256 * (l mod 2 ^ 24) mod (256 * 2 ^ 16) = 256 * (l mod 2 ^ 24 mod 2 ^ 16)" by (rule mult_mod_right [symmetric])
    then show ?thesis by (simp add: mod_mod_cancel)
  qed
  have n: "256 * (l mod 2 ^ 24) mod 2 ^ 16 = 256 * (l mod 2 ^ 8)" for l :: nat
  proof -
    have "256 * (l mod 2 ^ 24) mod (256 * 2 ^ 8) = 256 * (l mod 2 ^ 24 mod 2 ^ 8)" by (rule mult_mod_right [symmetric])
    then show ?thesis by (simp add: mod_mod_cancel)
  qed
  have "l3 mod 2 ^ 24 = 256 * (l2 mod 2 ^ 16)" unfolding assms(3) by (rule m)
  moreover have "l2 mod 2 ^ 16 = 256 * (l1 mod 2 ^ 8)"
    unfolding assms(2) by (rule n)
  moreover have "l1 mod 2 ^ 8 = 0" unfolding assms(1) by simp
  ultimately show ?thesis by (simp add: assms(4))
qed

lemma rc_flush_loop_ok:
  assumes "rc_count rc = rc_pos rc + 5" and "enc_inv 1 rc" and "enc_length rc out + 4 \<le> out_size" and "out_size + 1 < 2 ^ 64"
  shows "\<exists>rc' out'. rc_flush_loop out_size rc out = (False, rc', out') \<and> digits out' = enc_value rc out \<and> length out' = enc_length rc out + 4"
proof -
  have a0: "rc_pos rc < rc_count rc" "enc_length rc out \<le> out_size" using assms(1,3) by simp_all
  from rc_flush_loop_step [OF a0(1) assms(2) a0(2) assms(4)] obtain rc1 out1 where
    s1: "rc_flush_loop out_size rc out = rc_flush_loop out_size rc1 out1" "enc_value rc1 out1 = 256 * enc_value rc out"
    "enc_length rc1 out1 = enc_length rc out + 1" "enc_inv 1 rc1" "unat (rc_low rc1) = 256 * (unat (rc_low rc) mod 2 ^ 24)"
    "rc_pos rc1 = rc_pos rc + 1" "rc_count rc1 = rc_pos rc + 5" using assms(1) by auto
  have a1: "rc_pos rc1 < rc_count rc1" "enc_length rc1 out1 \<le> out_size" using s1(3,6,7) assms(3) by simp_all
  from rc_flush_loop_step [OF a1(1) s1(4) a1(2) assms(4)] obtain rc2 out2 where
    s2: "rc_flush_loop out_size rc1 out1 = rc_flush_loop out_size rc2 out2" "enc_value rc2 out2 = 256 * enc_value rc1 out1"
    "enc_length rc2 out2 = enc_length rc out + 2" "enc_inv 1 rc2" "unat (rc_low rc2) = 256 * (unat (rc_low rc1) mod 2 ^ 24)"
    "rc_pos rc2 = rc_pos rc + 2" "rc_count rc2 = rc_pos rc + 5" using s1(3,6,7) by auto
  have a2: "rc_pos rc2 < rc_count rc2" "enc_length rc2 out2 \<le> out_size" using s2(3,6,7) assms(3) by simp_all
  from rc_flush_loop_step [OF a2(1) s2(4) a2(2) assms(4)] obtain rc3 out3 where
    s3: "rc_flush_loop out_size rc2 out2 = rc_flush_loop out_size rc3 out3" "enc_value rc3 out3 = 256 * enc_value rc2 out2"
    "enc_length rc3 out3 = enc_length rc out + 3" "enc_inv 1 rc3" "unat (rc_low rc3) = 256 * (unat (rc_low rc2) mod 2 ^ 24)"
    "rc_pos rc3 = rc_pos rc + 3" "rc_count rc3 = rc_pos rc + 5" using s2(3,6,7) by auto
  have a3: "rc_pos rc3 < rc_count rc3" "enc_length rc3 out3 \<le> out_size" using s3(3,6,7) assms(3) by simp_all
  from rc_flush_loop_step [OF a3(1) s3(4) a3(2) assms(4)] obtain rc4 out4 where
    s4: "rc_flush_loop out_size rc3 out3 = rc_flush_loop out_size rc4 out4" "enc_value rc4 out4 = 256 * enc_value rc3 out3"
    "enc_length rc4 out4 = enc_length rc out + 4" "enc_inv 1 rc4" "unat (rc_low rc4) = 256 * (unat (rc_low rc3) mod 2 ^ 24)"
    "rc_pos rc4 = rc_pos rc + 4" "rc_count rc4 = rc_pos rc + 5" using s3(3,6,7) by auto
  have a4: "rc_pos rc4 < rc_count rc4" "enc_length rc4 out4 \<le> out_size" using s4(3,6,7) assms(3) by simp_all
  have z: "unat (rc_low rc4) = 0" by (rule low_shifted_out [OF s1(5) s2(5) s3(5) s4(5)])
  from rc_flush_loop_step [OF a4(1) s4(4) a4(2) assms(4)] obtain rc5 out5 where
    s5: "rc_flush_loop out_size rc4 out4 = (False, rc5, out5)" "enc_value rc5 out5 = 256 * enc_value rc4 out4"
    "enc_length rc5 out5 = enc_length rc out + 5" "unat (rc_low rc5) = 0" "rc_cache_size rc5 = 1" "withheld rc5 = 0"
    using z s4(3,6,7) by auto
  have "digits out5 * 256 ^ 5 = enc_value rc out * 256 ^ 5"
    using s5(2,4,5,6) s4(2) s3(2) s2(2) s1(2) by (simp add: enc_value_def)
  then have "digits out5 = enc_value rc out" by (simp only: mult_cancel2) simp
  moreover have "length out5 = enc_length rc out + 4" using s5(3,5) by (simp add: enc_length_def)
  ultimately show ?thesis using s1(1) s2(1) s3(1) s4(1) s5(1) by (intro exI [of _ rc5] exI [of _ out5]) simp
qed

lemma rc_encode_flush_ok:
  assumes "rc_queue rc = replicate 5 Sym_flush" and "enc_inv (unat (rc_range rc)) rc"
    and "enc_length rc out + 5 \<le> out_size" and "out_size + 1 < 2 ^ 64"
  shows "\<exists>rc' out'. rc_encode out_size rc probs out = (False, rc_reset rc', probs, out')
    \<and> digits out' = iv_value (iv_normalize (enc_iv rc probs out)) \<and> length out' = iv_digits (iv_normalize (enc_iv rc probs out)) + 4"
proof -
  have "length (rc_queue rc) = 5" using arg_cong [OF assms(1), of length] by simp
  then have l: "rc_count rc = rc_pos rc + 5" by (simp add: rc_queue_def)
  have "rc_queue rc ! 0 = Sym_flush" unfolding assms(1) by simp
  then have "sym_of (rc_symbols rc ! rc_pos rc) (rc_probs rc ! rc_pos rc) = Sym_flush" using l by (simp add: rc_queue_def)
  then have f: "rc_symbols rc ! rc_pos rc = RC_FLUSH" by (cases "rc_symbols rc ! rc_pos rc") simp_all
  have len: "enc_length rc out \<le> out_size" "enc_length rc out + 1 < 2 ^ 64" using assms(3,4) by simp_all
  obtain rc1 out1 where n: "rc_normalize_encoder out_size rc out = (False, rc1, out1)"
    "enc_iv rc1 probs out1 = iv_normalize (enc_iv rc probs out)" "enc_inv (unat (rc_range rc1)) rc1"
    using rc_normalize_encoder_ok [OF assms(2) len] by blast
  define rc2 where "rc2 = rc1\<lparr>rc_range := - 1\<rparr>"
  have i1: "enc_inv 1 rc1" using n(3) by (auto intro!: enc_inv_mono [OF n(3)] simp: enc_inv_def)
  have i2: "enc_inv 1 rc2" using i1 by (simp add: enc_inv_def rc2_def withheld_def)
  have e2: "enc_value rc2 out1 = iv_value (enc_iv rc1 probs out1)" "enc_length rc2 out1 = iv_digits (enc_iv rc1 probs out1)"
    by (simp_all add: rc2_def enc_value_def enc_length_def withheld_def)
  have "iv_digits (iv_normalize (enc_iv rc probs out)) \<le> enc_length rc out + 1" by (simp add: iv_normalize_def)
  then have len2: "enc_length rc2 out1 + 4 \<le> out_size" using assms(3) unfolding e2(2) n(2) by linarith
  have p2: "rc_count rc2 = rc_pos rc2 + 5" using l rc_normalize_encoder_fields [OF n(1)] by (simp add: rc2_def)
  obtain rc3 out3 where f3: "rc_flush_loop out_size rc2 out1 = (False, rc3, out3)" "digits out3 = enc_value rc2 out1" "length out3 = enc_length rc2 out1 + 4"
    using rc_flush_loop_ok [OF p2 i2 len2 assms(4)] by blast
  have "rc_encode out_size rc probs out = (False, rc_reset rc3, probs, out3)"
    unfolding rc_encode_def using l f rc_normalize_encoder_fields [OF n(1)] f3(1)
    by (subst rc_encode_loop.simps) (simp add: n(1) flip: rc2_def)
  then show ?thesis using f3(2,3) unfolding e2 n(2) by blast
qed

text \<open>The encoder depends on the probabilities of its queue only.\<close>

lemma rc_encode_bit_cong:
  assumes "sym_ptrs [sym_of symbol prob] \<subseteq> ptrs" and "\<forall>a\<in>ptrs. mem a = mem' a"
  shows "fst (rc_encode_bit symbol prob rc mem) = fst (rc_encode_bit symbol prob rc mem')"
    and "\<forall>a\<in>ptrs. snd (rc_encode_bit symbol prob rc mem) a = snd (rc_encode_bit symbol prob rc mem') a"
  using assms by (cases symbol; simp add: rc_encode_bit_def Let_def)+

lemma rc_encode_loop_cong:
  "sym_ptrs (rc_queue rc) \<subseteq> ptrs \<Longrightarrow> \<forall>a\<in>ptrs. mem a = mem' a \<Longrightarrow>
   \<exists>full rc2 mem2 mem2' out2. rc_encode_loop out_size rc mem out = (full, rc2, mem2, out2)
     \<and> rc_encode_loop out_size rc mem' out = (full, rc2, mem2', out2) \<and> (\<forall>a\<in>ptrs. mem2 a = mem2' a)"
proof (induction out_size rc mem out arbitrary: mem' rule: rc_encode_loop.induct)
  case (1 out_size rc mem out)
  obtain full rc1 out1 where n: "rc_normalize_encoder out_size rc out = (full, rc1, out1)" by (cases "rc_normalize_encoder out_size rc out")
  note nf = rc_normalize_encoder_fields [OF n]
  show ?case
  proof (cases "rc_pos rc < rc_count rc \<and> \<not> full \<and> rc_symbols rc1 ! rc_pos rc1 \<noteq> RC_FLUSH")
    case False
    then show ?thesis using "1.prems"(2) nf
      by (subst (1 2) rc_encode_loop.simps) (auto simp: n Let_def split: prod.splits if_splits)
  next
    case True
    let ?sy = "sym_of (rc_symbols rc1 ! rc_pos rc1) (rc_probs rc1 ! rc_pos rc1)"
    have q: "rc_queue rc \<noteq> []" using True rc_queue_empty by blast
    then obtain sa rest where sa: "rc_queue rc = sa # rest" by (cases "rc_queue rc") simp_all
    have sy: "sa = ?sy" using rc_queue_Cons(2) [OF sa] nf by simp
    have p: "sym_ptrs [?sy] \<subseteq> ptrs" "sym_ptrs rest \<subseteq> ptrs"
      using "1.prems"(1) sym_ptrs_append [of "[sa]" rest] unfolding sa sy [symmetric] by simp_all
    let ?e = "rc_encode_bit (rc_symbols rc1 ! rc_pos rc1) (rc_probs rc1 ! rc_pos rc1) rc1"
    note c = rc_encode_bit_cong [OF p(1) "1.prems"(2), of rc1]
    obtain rc2 m2 where e: "?e mem = (rc2, m2)" by (cases "?e mem")
    obtain m2' where e': "?e mem' = (rc2, m2')" using c(1) e by (cases "?e mem'") simp
    note bf = rc_encode_bit_fields [OF e]
    let ?rc = "rc2\<lparr>rc_pos := rc_pos rc2 + 1\<rparr>"
    have "rc_queue ?rc = rest" using rc_queue_Cons(3) [OF sa, of ?rc] nf bf by simp
    then have pr: "sym_ptrs (rc_queue ?rc) \<subseteq> ptrs" using p(2) by simp
    have agree: "\<forall>a\<in>ptrs. m2 a = m2' a" using c(2) e e' by simp
    have s: "rc_encode_loop out_size rc mem out = rc_encode_loop out_size ?rc m2 out1"
      "rc_encode_loop out_size rc mem' out = rc_encode_loop out_size ?rc m2' out1"
      using True e e' by (subst rc_encode_loop.simps, simp add: n Let_def)+
    show ?thesis unfolding s
      by (rule "1.IH" [OF _ n [symmetric] refl refl _ _ e [symmetric] refl pr agree]) (use True in simp_all)
  qed
qed

end
