(* ===== verification/Range_Decoder_Correct.thy ===== *)
theory Range_Decoder_Correct
  imports Range_Coder_Correct
begin

unbundle bit_operations_syntax

text \<open>
  The range decoder follows the encoder's intervals. A \<open>stream\<close> gives the bytes that the encoder wrote, their place in the input,
  the last interval and the probabilities that it touches; \<open>in_step\<close> relates the decoder to an interval: \<open>code\<close> is the distance of the bytes read so far from
  its lower bound. \<open>decodes\<close> says of a decoding function that it gives a value where the encoder has put some symbols; such
  functions compose as their symbols do.
\<close>

record 'p stream =
  st_in :: "byte list"
  st_size :: nat
  st_off :: nat
  st_last :: "'p interval"
  st_ptrs :: "'p pointer set"

definition st_bytes :: "'p stream \<Rightarrow> byte list" where
  "st_bytes st = take (iv_digits (st_last st) + 4) (drop (st_off st) (st_in st))"

definition stream_ok :: "'p stream \<Rightarrow> bool" where
  "stream_ok st \<longleftrightarrow> st_off st + iv_digits (st_last st) + 4 \<le> st_size st \<and> st_size st \<le> length (st_in st)
     \<and> digits (st_bytes st) = iv_value (st_last st) \<and> 0 < iv_size (st_last st)"

definition in_step :: "'p stream \<Rightarrow> 'p interval \<Rightarrow> 'p decoding \<Rightarrow> bool" where
  "in_step st iv s \<longleftrightarrow> (case s of (mem, rc, in_pos) \<Rightarrow> (\<forall>a\<in>st_ptrs st. mem a = iv_probs iv a) \<and> rd_init_bytes_left rc = 0 \<and> in_pos = st_off st + iv_digits iv + 4
     \<and> unat (rd_range rc) = iv_size iv \<and> unat (rd_code rc) + iv_value iv = digits (take (iv_digits iv + 4) (st_bytes st)))"

lemma st_bytes_length: "stream_ok st \<Longrightarrow> length (st_bytes st) = iv_digits (st_last st) + 4"
  by (auto simp: stream_ok_def st_bytes_def)

lemma st_bytes_nth:
  assumes "stream_ok st" and "i < iv_digits (st_last st) + 4"
  shows "st_bytes st ! i = st_in st ! (st_off st + i)"
  using assms by (simp add: stream_ok_def st_bytes_def nth_drop)

text \<open>The number of the bytes read so far lies in the interval.\<close>

lemma inside_bounds:
  assumes "stream_ok st" and "iv_inside iv (st_last st)"
  defines "t \<equiv> digits (take (iv_digits iv + 4) (st_bytes st))"
  shows "iv_value iv \<le> t" and "t < iv_value iv + iv_size iv"
proof -
  let ?F = "st_last st" and ?k = "iv_digits (st_last st) - iv_digits iv" and ?p = "iv_digits iv + 4"
  have i: "iv_digits iv \<le> iv_digits ?F" "iv_value iv * 256 ^ ?k \<le> iv_value ?F" "iv_value ?F + iv_size ?F \<le> (iv_value iv + iv_size iv) * 256 ^ ?k"
    using assms(2) by (simp_all add: iv_inside_def)
  have k: "length (drop ?p (st_bytes st)) = ?k" using st_bytes_length [OF assms(1)] i(1) by simp
  have "iv_value ?F = digits (take ?p (st_bytes st) @ drop ?p (st_bytes st))" using assms(1) by (simp add: stream_ok_def)
  then have v: "iv_value ?F = t * 256 ^ ?k + digits (drop ?p (st_bytes st))" unfolding digits_append k t_def .
  have r: "digits (drop ?p (st_bytes st)) < 256 ^ ?k" using digits_less [of "drop ?p (st_bytes st)"] by (simp only: k)
  have "iv_value iv * 256 ^ ?k < (t + 1) * 256 ^ ?k" using i(2) v r by (simp only: add_mult_distrib mult_1)
  then show "iv_value iv \<le> t" unfolding mult_less_cancel2 by simp
  have "0 < iv_size ?F" using assms(1) by (simp add: stream_ok_def)
  then have "t * 256 ^ ?k < (iv_value iv + iv_size iv) * 256 ^ ?k" using i(3) v by linarith
  then show "t < iv_value iv + iv_size iv" unfolding mult_less_cancel2 by simp
qed

lemma in_step_code:
  assumes "stream_ok st" and "iv_inside iv (st_last st)" and "in_step st iv (mem, rc, in_pos)"
  shows "unat (rd_code rc) < iv_size iv"
  using inside_bounds(2) [OF assms(1,2)] assms(3) by (simp add: in_step_def)

lemma unat_push_byte:
  assumes "unat (code :: u32) < 2 ^ 24"
  shows "unat (push_bit 8 code OR ucast (b :: byte)) = 256 * unat code + unat b"
proof -
  have d: "push_bit 8 code AND ucast b = 0"
  proof (rule bit_word_eqI)
    fix n
    show "bit (push_bit 8 code AND ucast b) n = bit (0 :: u32) n"
      using bit_imp_le_length [of b n] by (auto simp: bit_and_iff bit_push_bit_iff bit_unsigned_iff)
  qed
  have p: "unat (push_bit 8 code) = 256 * unat code" using assms unat_push_bit_mult [of code 8] by simp
  have "unat b < 256" using unsigned_less [of b, where 'a = nat] by simp
  then have "unat (push_bit 8 code + ucast b) = 256 * unat code + unat b"
    using assms by (subst unat_add_small) (simp_all add: p unat_ucast_up)
  then show ?thesis using word_plus_and_or [of "push_bit 8 code" "ucast b"] d by simp
qed

lemma normalize_in_step:
  assumes "stream_ok st" and "in_step st iv (mem, rc, in_pos)" and "iv_inside iv (st_last st)" and "iv_inside (iv_normalize iv) (st_last st)"
  shows "\<exists>rc' in_pos'. rc_normalize (st_in st) (st_size st) (rc, in_pos) = Some (rc', in_pos') \<and> in_step st (iv_normalize iv) (mem, rc', in_pos')"
proof (cases "iv_size iv < 2 ^ 24")
  case True
  have s: "\<forall>a\<in>st_ptrs st. mem a = iv_probs iv a" "in_pos = st_off st + (iv_digits iv + 4)" "unat (rd_range rc) = iv_size iv"
    "unat (rd_code rc) + iv_value iv = digits (take (iv_digits iv + 4) (st_bytes st))" "rd_init_bytes_left rc = 0"
    using assms(2) by (simp_all add: in_step_def)
  have d: "iv_digits iv + 1 \<le> iv_digits (st_last st)" using assms(4) True by (simp add: iv_inside_def iv_normalize_def)
  have room: "in_pos < st_size st" using assms(1) d s(2) by (simp add: stream_ok_def)
  define b where "b = st_in st ! in_pos"
  have b: "b = st_bytes st ! (iv_digits iv + 4)" using st_bytes_nth [OF assms(1), of "iv_digits iv + 4"] d s(2) by (simp add: b_def)
  have "iv_digits iv + 4 < length (st_bytes st)" using st_bytes_length [OF assms(1)] d by simp
  then have "take (Suc (iv_digits iv + 4)) (st_bytes st) = take (iv_digits iv + 4) (st_bytes st) @ [b]"
    unfolding b by (rule take_Suc_conv_app_nth)
  moreover have "iv_digits iv + 1 + 4 = Suc (iv_digits iv + 4)" by simp
  ultimately have t: "digits (take (iv_digits iv + 1 + 4) (st_bytes st)) = digits (take (iv_digits iv + 4) (st_bytes st)) * 256 + unat b"
    by (simp only: digits_append) simp
  have c: "unat (rd_code rc) < 2 ^ 24" using in_step_code [OF assms(1,3,2)] True by linarith
  have r: "unat (push_bit 8 (rd_range rc)) = 256 * iv_size iv" using True s(3) unat_push_bit_mult [of "rd_range rc" 8] by simp
  define rc' where "rc' = rc\<lparr>rd_range := push_bit 8 (rd_range rc), rd_code := push_bit 8 (rd_code rc) OR ucast b\<rparr>"
  have "rc_normalize (st_in st) (st_size st) (rc, in_pos) = Some (rc', in_pos + 1)"
    using True s(3) room by (simp add: rc_normalize_def RC_TOP_VALUE_less rc'_def b_def)
  moreover have "in_step st (iv_normalize iv) (mem, rc', in_pos + 1)"
  proof -
    have "unat (rd_code rc') + 256 * iv_value iv = digits (take (iv_digits iv + 1 + 4) (st_bytes st))"
      using s(4) unat_push_byte [OF c, of b] unfolding t by (simp add: rc'_def)
    then show ?thesis using True s(1,2,5) r by (simp add: in_step_def iv_normalize_def) (simp add: rc'_def)
  qed
  ultimately show ?thesis by blast
next
  case False
  then have "\<not> rd_range rc < RC_TOP_VALUE" using assms(2) by (simp add: RC_TOP_VALUE_less in_step_def)
  then show ?thesis using False assms(2) by (simp add: rc_normalize_def iv_normalize_def)
qed

text \<open>One symbol.\<close>

lemma iv_step_inside:
  assumes "iv_ok iv" and "iv_inside (iv_step sy iv) F"
  shows "iv_inside iv F" and "iv_inside (iv_normalize iv) F"
  using iv_inside_trans [OF iv_step_ok(2) [OF assms(1)] assms(2)] iv_inside_trans [OF iv_step_ok(3) [OF assms(1)] assms(2)] by simp_all

lemma step_bounds:
  assumes "stream_ok st" and "iv_ok iv" and "iv_inside (iv_step sy iv) (st_last st)"
    and "in_step st (iv_normalize iv) (mem, rc, in_pos)"
  shows "iv_value (iv_step sy iv) \<le> unat (rd_code rc) + iv_value (iv_normalize iv)"
    and "unat (rd_code rc) + iv_value (iv_normalize iv) < iv_value (iv_step sy iv) + iv_size (iv_step sy iv)"
    and "iv_digits (iv_step sy iv) = iv_digits (iv_normalize iv)"
proof -
  note n = iv_normalize_ok [OF assms(2)]
  show d: "iv_digits (iv_step sy iv) = iv_digits (iv_normalize iv)" using iv_narrow_ok(4) [OF conjunct1 [OF n] conjunct2 [OF n], of sy] by (simp only: iv_step_def)
  have "unat (rd_code rc) + iv_value (iv_normalize iv) = digits (take (iv_digits (iv_step sy iv) + 4) (st_bytes st))"
    using assms(4) by (simp add: in_step_def d)
  then show "iv_value (iv_step sy iv) \<le> unat (rd_code rc) + iv_value (iv_normalize iv)"
    "unat (rd_code rc) + iv_value (iv_normalize iv) < iv_value (iv_step sy iv) + iv_size (iv_step sy iv)"
    using inside_bounds [OF assms(1,3)] by simp_all
qed

lemma decode_bit_in_step:
  assumes st: "stream_ok st" and ptr: "prob \<in> st_ptrs st" and iv: "iv_ok iv" and inside: "iv_inside (iv_step (Sym_bit prob b) iv) (st_last st)" and s: "in_step st iv s"
  shows "\<exists>s'. rc_decode_bit (st_in st) (st_size st) prob s = Some (b, s') \<and> in_step st (iv_step (Sym_bit prob b) iv) s'"
proof -
  obtain mem rc0 in_pos0 where s0: "s = (mem, rc0, in_pos0)" by (cases s)
  note i = iv_step_inside [OF iv inside]
  obtain rc in_pos where n: "rc_normalize (st_in st) (st_size st) (rc0, in_pos0) = Some (rc, in_pos)" "in_step st (iv_normalize iv) (mem, rc, in_pos)"
    using normalize_in_step [OF st s [unfolded s0] i] by blast
  note bounds = step_bounds [OF st iv inside n(2)]
  define iv1 where "iv1 = iv_normalize iv"
  have iv1: "iv_ok iv1" "2 ^ 24 \<le> iv_size iv1" using iv_normalize_ok [OF iv] by (simp_all add: iv1_def)
  have step: "iv_step (Sym_bit prob b) iv = iv_narrow (Sym_bit prob b) iv1" by (simp add: iv_step_def iv1_def)
  have n2: "\<forall>a\<in>st_ptrs st. mem a = iv_probs iv1 a" "in_pos = st_off st + iv_digits iv1 + 4" "unat (rd_range rc) = iv_size iv1"
    "unat (rd_code rc) + iv_value iv1 = digits (take (iv_digits iv1 + 4) (st_bytes st))" "rd_init_bytes_left rc = 0"
    using n(2) by (simp_all add: in_step_def iv1_def)
  have pm: "mem prob = iv_probs iv1 prob" using n2(1) ptr by blast
  have p: "prob_ok (mem prob)" using iv1(1) unfolding pm iv_ok_def by blast
  define bound where "bound = drop_bit 11 (rd_range rc) * ucast (mem prob)"
  have ub: "unat bound = iv_size iv1 div 2 ^ 11 * unat (iv_probs iv1 prob)"
    unfolding bound_def using unat_bound [OF _ p, of "rd_range rc"] iv1(2) by (simp add: pm n2(3))
  have size1: "iv_size iv1 < 2 ^ 32" using iv1(1) by (simp add: iv_ok_def)
  have less: "unat bound < iv_size iv1" unfolding ub
    by (rule bound_parts(2) [OF iv1(2) size1]) (use p pm in \<open>simp_all add: prob_ok_def\<close>)
  show ?thesis
  proof (cases b)
    case False
    have v: "iv_value (iv_step (Sym_bit prob b) iv) = iv_value iv1" "iv_size (iv_step (Sym_bit prob b) iv) = unat bound"
      "iv_probs (iv_step (Sym_bit prob b) iv) = (iv_probs iv1)(prob := prob_update_0 (mem prob))" "iv_digits (iv_step (Sym_bit prob b) iv) = iv_digits iv1"
      unfolding step using False pm ub by (simp_all add: Let_def)
    have "rd_code rc < bound" using bounds(2) v(1,2) by (simp add: word_less_nat_alt iv1_def)
    then have "rc_decode_bit (st_in st) (st_size st) prob s
        = Some (b, mem(prob := prob_update_0 (mem prob)), rc\<lparr>rd_range := bound\<rparr>, in_pos)"
      using False by (simp add: rc_decode_bit_def s0 n(1) Let_def bound_def)
    moreover have "in_step st (iv_step (Sym_bit prob b) iv) (mem(prob := prob_update_0 (mem prob)), rc\<lparr>rd_range := bound\<rparr>, in_pos)"
      using n2 by (simp add: in_step_def v)
    ultimately show ?thesis by blast
  next
    case True
    have v: "iv_value (iv_step (Sym_bit prob b) iv) = iv_value iv1 + unat bound" "iv_size (iv_step (Sym_bit prob b) iv) = iv_size iv1 - unat bound"
      "iv_probs (iv_step (Sym_bit prob b) iv) = (iv_probs iv1)(prob := prob_update_1 (mem prob))" "iv_digits (iv_step (Sym_bit prob b) iv) = iv_digits iv1"
      unfolding step using True pm ub by (simp_all add: Let_def)
    have ge: "unat bound \<le> unat (rd_code rc)" using bounds(1) v(1) by (simp add: iv1_def)
    then have "\<not> rd_code rc < bound" by (simp add: word_less_nat_alt)
    then have "rc_decode_bit (st_in st) (st_size st) prob s
        = Some (b, mem(prob := prob_update_1 (mem prob)), rc\<lparr>rd_range := rd_range rc - bound, rd_code := rd_code rc - bound\<rparr>, in_pos)"
      using True by (simp add: rc_decode_bit_def s0 n(1) Let_def bound_def)
    moreover have "in_step st (iv_step (Sym_bit prob b) iv)
        (mem(prob := prob_update_1 (mem prob)), rc\<lparr>rd_range := rd_range rc - bound, rd_code := rd_code rc - bound\<rparr>, in_pos)"
    proof -
      have "unat (rd_range rc - bound) = iv_size iv1 - unat bound" using less n2(3) by (subst unat_sub) (simp_all add: word_le_nat_alt)
      moreover have "unat (rd_code rc - bound) = unat (rd_code rc) - unat bound" using ge by (subst unat_sub) (simp_all add: word_le_nat_alt)
      ultimately show ?thesis using n2 ge by (simp add: in_step_def v)
    qed
    ultimately show ?thesis by blast
  qed
qed

text \<open>The branch-free arithmetic of a direct bit.\<close>

lemma direct_code:
  fixes code range :: u32
  assumes r: "unat range < 2 ^ 31" and c: "unat code < 2 * unat range"
  defines "rb \<equiv> 0 - drop_bit 31 (code - range)"
  shows "unat (code - range + (range AND rb)) = (if unat range \<le> unat code then unat code - unat range else unat code)"
    and "rb + 1 = (if unat range \<le> unat code then 1 else 0)"
proof -
  have top: "drop_bit 31 (code - range) = (if unat range \<le> unat code then 0 else 1)"
  proof (cases "unat range \<le> unat code")
    case True
    then have "unat (code - range) = unat code - unat range" by (subst unat_sub) (simp_all add: word_le_nat_alt)
    then have "unat (drop_bit 31 (code - range)) = 0" using r c by (simp only: unat_drop_bit_div) simp
    then show ?thesis using True by (simp add: unat_eq_0)
  next
    case False
    have "unat (code - range) = 2 ^ 32 + unat code - unat range" using False by (simp add: unat_sub_if_size word_size)
    then have "unat (drop_bit 31 (code - range)) = (2 ^ 32 + unat code - unat range) div 2 ^ 31" by (simp only: unat_drop_bit_div)
    also have "\<dots> = 1" using False r by (simp add: div_nat_eqI)
    finally have "drop_bit 31 (code - range) = 1" using word_unat_eq_iff [of "drop_bit 31 (code - range)" 1] by simp
    then show ?thesis using False by simp
  qed
  show "unat (code - range + (range AND rb)) = (if unat range \<le> unat code then unat code - unat range else unat code)"
  proof (cases "unat range \<le> unat code")
    case True
    then show ?thesis unfolding rb_def top by (simp add: unat_sub word_le_nat_alt)
  next
    case False
    then show ?thesis unfolding rb_def top by simp
  qed
  show "rb + 1 = (if unat range \<le> unat code then 1 else 0)" unfolding rb_def top by simp
qed

lemma decode_direct_in_step:
  assumes st: "stream_ok st" and iv: "iv_ok iv" and inside: "iv_inside (iv_step (Sym_direct b) iv) (st_last st)" and s: "in_step st iv s"
  shows "\<exists>s'. rc_decode_direct (st_in st) (st_size st) dest s = Some (push_bit 1 dest + of_bool b, s') \<and> in_step st (iv_step (Sym_direct b) iv) s'"
proof -
  obtain mem rc0 in_pos0 where s0: "s = (mem, rc0, in_pos0)" by (cases s)
  note i = iv_step_inside [OF iv inside]
  obtain rc in_pos where n: "rc_normalize (st_in st) (st_size st) (rc0, in_pos0) = Some (rc, in_pos)" "in_step st (iv_normalize iv) (mem, rc, in_pos)"
    using normalize_in_step [OF st s [unfolded s0] i] by blast
  note bounds = step_bounds [OF st iv inside n(2)]
  define iv1 where "iv1 = iv_normalize iv"
  have step: "iv_step (Sym_direct b) iv = iv_narrow (Sym_direct b) iv1" by (simp add: iv_step_def iv1_def)
  have n2: "\<forall>a\<in>st_ptrs st. mem a = iv_probs iv1 a" "in_pos = st_off st + iv_digits iv1 + 4" "unat (rd_range rc) = iv_size iv1"
    "unat (rd_code rc) + iv_value iv1 = digits (take (iv_digits iv1 + 4) (st_bytes st))" "rd_init_bytes_left rc = 0"
    using n(2) by (simp_all add: in_step_def iv1_def)
  define half where "half = drop_bit 1 (rd_range rc)"
  have h: "unat half = iv_size iv1 div 2" using n2(3) unat_drop_bit_div [of 1 "rd_range rc"] by (simp add: half_def)
  have v: "iv_value (iv_step (Sym_direct b) iv) = iv_value iv1 + (if b then unat half else 0)" "iv_size (iv_step (Sym_direct b) iv) = unat half"
      "iv_probs (iv_step (Sym_direct b) iv) = iv_probs iv1" "iv_digits (iv_step (Sym_direct b) iv) = iv_digits iv1"
    unfolding step using h by simp_all
  have c: "unat (rd_code rc) < (if b then unat half else 0) + unat half" "(if b then unat half else 0) \<le> unat (rd_code rc)"
    using bounds(1,2) v(1,2) by (simp_all add: iv1_def)
  have "iv_size iv1 < 2 ^ 32" using iv_normalize_ok [OF iv] by (simp add: iv1_def iv_ok_def)
  then have r31: "unat half < 2 ^ 31" unfolding h by simp
  have c2: "unat (rd_code rc) < 2 * unat half" using c(1) by (simp split: if_splits)
  have b: "unat half \<le> unat (rd_code rc) \<longleftrightarrow> b" using c by (cases b) simp_all
  note d = direct_code [OF r31 c2, unfolded b]
  define rc' where "rc' = rc\<lparr>rd_range := half, rd_code := rd_code rc - half + (half AND (0 - drop_bit 31 (rd_code rc - half)))\<rparr>"
  have "rc_decode_direct (st_in st) (st_size st) dest s = Some (push_bit 1 dest + (0 - drop_bit 31 (rd_code rc - half) + 1), mem, rc', in_pos)"
    by (simp add: rc_decode_direct_def s0 n(1) Let_def rc'_def half_def)
  then have "rc_decode_direct (st_in st) (st_size st) dest s = Some (push_bit 1 dest + of_bool b, mem, rc', in_pos)"
    unfolding d(2) by simp
  moreover have "in_step st (iv_step (Sym_direct b) iv) (mem, rc', in_pos)"
  proof -
    have "unat (rd_code rc') = (if b then unat (rd_code rc) - unat half else unat (rd_code rc))" using d(1) by (simp add: rc'_def)
    moreover have "unat (rd_range rc') = unat half" by (simp add: rc'_def)
    moreover have "(if b then unat (rd_code rc) - unat half else unat (rd_code rc)) + (iv_value iv1 + (if b then unat half else 0))
        = unat (rd_code rc) + iv_value iv1" using c(2) by (cases b) simp_all
    moreover have "rd_init_bytes_left rc' = 0" using n2(5) by (simp add: rc'_def)
    ultimately show ?thesis using n2(1,2) by (simp only: in_step_def v prod.case n2(4))
  qed
  ultimately show ?thesis by blast
qed

subsection \<open>Decoding functions\<close>

definition decodes :: "'p stream \<Rightarrow> ('p decoding \<Rightarrow> ('a \<times> 'p decoding) option) \<Rightarrow> 'p sym list \<Rightarrow> 'a \<Rightarrow> bool" where
  "decodes st f syms x \<longleftrightarrow> (sym_ptrs syms \<subseteq> st_ptrs st \<longrightarrow> (\<forall>iv s. iv_ok iv \<longrightarrow> iv_inside (fold iv_step syms iv) (st_last st) \<longrightarrow> in_step st iv s \<longrightarrow>
     (\<exists>s'. f s = Some (x, s') \<and> in_step st (fold iv_step syms iv) s')))"

lemma decodesD:
  assumes "decodes st f syms x" and "sym_ptrs syms \<subseteq> st_ptrs st" and "iv_ok iv" and "iv_inside (fold iv_step syms iv) (st_last st)" and "in_step st iv s"
  shows "\<exists>s'. f s = Some (x, s') \<and> in_step st (fold iv_step syms iv) s'"
  using assms unfolding decodes_def by blast

lemma decodes_return: "decodes st (\<lambda>s. Some (x, s)) [] x"
  by (simp add: decodes_def)

lemma decodes_bind:
  assumes "decodes st f xs x" and "decodes st (g x) ys y"
  shows "decodes st (\<lambda>s. do { (x, s) \<leftarrow> f s; g x s }) (xs @ ys) y"
  unfolding decodes_def
proof (intro allI impI)
  fix iv s assume "sym_ptrs (xs @ ys) \<subseteq> st_ptrs st" and a: "iv_ok iv" "iv_inside (fold iv_step (xs @ ys) iv) (st_last st)" "in_step st iv s"
  let ?iv = "fold iv_step xs iv"
  have p: "sym_ptrs xs \<subseteq> st_ptrs st" "sym_ptrs ys \<subseteq> st_ptrs st" using \<open>sym_ptrs (xs @ ys) \<subseteq> st_ptrs st\<close> by simp_all
  have ok: "iv_ok ?iv" using iv_run_ok [OF a(1)] by blast
  have ins: "iv_inside (fold iv_step ys ?iv) (st_last st)" using a(2) by simp
  have "iv_inside ?iv (st_last st)" using iv_run_ok [OF ok, of ys] iv_inside_trans [OF _ ins] by blast
  then obtain s1 where s1: "f s = Some (x, s1)" "in_step st ?iv s1" using assms(1) p(1) a(1,3) unfolding decodes_def by blast
  then obtain s2 where "g x s1 = Some (y, s2)" "in_step st (fold iv_step ys ?iv) s2" using assms(2) p(2) ok ins unfolding decodes_def by blast
  then show "\<exists>s'. (do { (x, s) \<leftarrow> f s; g x s }) = Some (y, s') \<and> in_step st (fold iv_step (xs @ ys) iv) s'"
    using s1(1) by simp
qed

lemma decodes_bit: "stream_ok st \<Longrightarrow> decodes st (rc_decode_bit (st_in st) (st_size st) prob) [Sym_bit prob b] b"
  unfolding decodes_def using decode_bit_in_step by fastforce

lemma decodes_direct:
  "stream_ok st \<Longrightarrow> decodes st (rc_decode_direct (st_in st) (st_size st) dest) [Sym_direct b] (push_bit 1 dest + of_bool b)"
  unfolding decodes_def using decode_direct_in_step by fastforce

lemma decodes_symbol:
  assumes "stream_ok st"
  shows "decodes st (rc_decode_symbol (st_in st) (st_size st) prob symbol) [Sym_bit prob b] (push_bit 1 symbol + of_bool b)"
proof -
  have "decodes st (\<lambda>s. do { (b, s) \<leftarrow> rc_decode_bit (st_in st) (st_size st) prob s;
      Some (if b then push_bit 1 symbol + 1 else push_bit 1 symbol, s) }) ([Sym_bit prob b] @ []) (if b then push_bit 1 symbol + 1 else push_bit 1 symbol)"
    by (rule decodes_bind [OF decodes_bit [OF assms]]) (rule decodes_return)
  then show ?thesis unfolding rc_decode_symbol_def by (cases b) simp_all
qed

end
