(* ===== verification/Range_Coder_Roundtrip.thy ===== *)
theory Range_Coder_Roundtrip
  imports Range_Decoder_Correct
begin

unbundle bit_operations_syntax

text \<open>
  The operations that queue symbols, the start and the end of a stream, and the round trip of the range coder: what is
  encoded in any batches is decoded again, with the same probabilities, to the last byte.
\<close>

subsection \<open>Queueing\<close>

text \<open>There is room for \<open>n\<close> symbols more.\<close>

definition rc_room :: "nat \<Rightarrow> 'p range_encoder \<Rightarrow> bool" where
  "rc_room n rc \<longleftrightarrow> rc_pos rc \<le> rc_count rc \<and> rc_count rc + n \<le> RC_SYMBOLS_MAX
     \<and> length (rc_symbols rc) = RC_SYMBOLS_MAX \<and> length (rc_probs rc) = RC_SYMBOLS_MAX"

text \<open>What queueing must not change.\<close>

definition same_state :: "'p range_encoder \<Rightarrow> 'p range_encoder \<Rightarrow> bool" where
  "same_state rc rc' \<longleftrightarrow> rc_low rc' = rc_low rc \<and> rc_cache_size rc' = rc_cache_size rc \<and> rc_range rc' = rc_range rc
     \<and> rc_cache rc' = rc_cache rc \<and> rc_pos rc' = rc_pos rc"

definition queues :: "('p range_encoder \<Rightarrow> 'p range_encoder) \<Rightarrow> 'p sym list \<Rightarrow> bool" where
  "queues f syms \<longleftrightarrow> (\<forall>rc n. rc_room (n + length syms) rc \<longrightarrow>
     rc_queue (f rc) = rc_queue rc @ syms \<and> same_state rc (f rc) \<and> rc_room n (f rc))"

lemma same_state_iv: "same_state rc rc' \<Longrightarrow> enc_iv rc' mem out = enc_iv rc mem out \<and> enc_inv g rc' = enc_inv g rc"
  by (simp add: same_state_def enc_iv_def enc_inv_def enc_value_def enc_length_def withheld_def)

lemma queues_id: "queues (\<lambda>rc. rc) []"
  by (simp add: queues_def same_state_def)

lemma queues_comp:
  assumes "queues f xs" and "queues g ys"
  shows "queues (\<lambda>rc. g (f rc)) (xs @ ys)"
  unfolding queues_def
proof (intro allI impI)
  fix rc :: "'a range_encoder" and n
  assume r: "rc_room (n + length (xs @ ys)) rc"
  then have "rc_room ((n + length ys) + length xs) rc" by (simp add: ac_simps)
  then have f: "rc_queue (f rc) = rc_queue rc @ xs \<and> same_state rc (f rc) \<and> rc_room (n + length ys) (f rc)"
    using assms(1) unfolding queues_def by blast
  then have "rc_queue (g (f rc)) = rc_queue (f rc) @ ys \<and> same_state (f rc) (g (f rc)) \<and> rc_room n (g (f rc))"
    using assms(2) unfolding queues_def by blast
  with f show "rc_queue (g (f rc)) = rc_queue rc @ xs @ ys \<and> same_state rc (g (f rc)) \<and> rc_room n (g (f rc))"
    by (simp add: same_state_def)
qed

lemma queue_one:
  assumes "rc_room (Suc n) rc"
    and "rc' = rc\<lparr>rc_symbols := (rc_symbols rc)[rc_count rc := symbol], rc_probs := probs, rc_count := rc_count rc + 1\<rparr>"
    and "length probs = length (rc_probs rc)" and "take (rc_count rc) probs = take (rc_count rc) (rc_probs rc)"
  shows "rc_queue rc' = rc_queue rc @ [sym_of symbol (probs ! rc_count rc)] \<and> same_state rc rc' \<and> rc_room n rc'"
proof -
  have r: "rc_pos rc \<le> rc_count rc" "rc_count rc < length (rc_symbols rc)" "rc_count rc < length (rc_probs rc)"
    using assms(1) by (simp_all add: rc_room_def)
  have "probs ! i = rc_probs rc ! i" if "i < rc_count rc" for i
    using arg_cong [OF assms(4), of "\<lambda>xs. xs ! i"] that by simp
  then have "map (\<lambda>i. sym_of (rc_symbols rc' ! i) (rc_probs rc' ! i)) [rc_pos rc..<rc_count rc] = rc_queue rc"
    using r unfolding rc_queue_def assms(2) by (intro map_cong) simp_all
  moreover have "rc_queue rc' = map (\<lambda>i. sym_of (rc_symbols rc' ! i) (rc_probs rc' ! i)) [rc_pos rc..<rc_count rc] @ [sym_of symbol (probs ! rc_count rc)]"
    using r unfolding rc_queue_def assms(2) by simp
  ultimately show ?thesis using assms(1,3) by (simp add: assms(2) same_state_def rc_room_def)
qed

lemma queues_oneI:
  assumes "\<And>rc n. rc_room (Suc n) rc \<Longrightarrow> rc_queue (f rc) = rc_queue rc @ [sy] \<and> same_state rc (f rc) \<and> rc_room n (f rc)"
  shows "queues f [sy]"
  using assms by (simp add: queues_def)

lemma queues_bit: "queues (rc_bit prob b) [Sym_bit prob (b \<noteq> 0)]"
proof (rule queues_oneI)
  fix rc :: "'a range_encoder" and n
  assume r: "rc_room (Suc n) rc"
  let ?symbol = "if b = 0 then RC_BIT_0 else RC_BIT_1"
  have "rc_count rc < length (rc_probs rc)" using r by (simp add: rc_room_def)
  then have p: "(rc_probs rc)[rc_count rc := prob] ! rc_count rc = prob" by simp
  have s: "sym_of ?symbol prob = Sym_bit prob (b \<noteq> 0)" by simp
  have e: "rc_bit prob b rc = rc\<lparr>rc_symbols := (rc_symbols rc)[rc_count rc := ?symbol], rc_probs := (rc_probs rc)[rc_count rc := prob],
      rc_count := rc_count rc + 1\<rparr>" by (simp add: rc_bit_def)
  show "rc_queue (rc_bit prob b rc) = rc_queue rc @ [Sym_bit prob (b \<noteq> 0)] \<and> same_state rc (rc_bit prob b rc) \<and> rc_room n (rc_bit prob b rc)"
    using queue_one [OF r e] unfolding p s by simp
qed

fun direct_syms :: "u32 \<Rightarrow> nat \<Rightarrow> 'p sym list" where
  "direct_syms value 0 = []"
| "direct_syms value (Suc n) = Sym_direct (bit value n) # direct_syms value n"

lemma queues_direct: "queues (rc_direct value n) (direct_syms value n)"
proof (induction n)
  case 0
  then show ?case using queues_id by simp
next
  case (Suc n)
  let ?symbol = "if drop_bit n value AND 1 = 0 then RC_DIRECT_0 else RC_DIRECT_1"
  let ?f = "\<lambda>rc :: 'a range_encoder. rc\<lparr>rc_symbols := (rc_symbols rc)[rc_count rc := ?symbol], rc_count := rc_count rc + 1\<rparr>"
  have s: "sym_of ?symbol prob = Sym_direct (bit value n)" for prob :: "'a pointer" by (simp add: and_one_eq bit_iff_odd_drop_bit odd_iff_mod_2_eq_one)
  have "queues ?f [Sym_direct (bit value n)]"
  proof (rule queues_oneI)
    fix rc :: "'a range_encoder" and m
    assume r: "rc_room (Suc m) rc"
    have e: "?f rc = rc\<lparr>rc_symbols := (rc_symbols rc)[rc_count rc := ?symbol], rc_probs := rc_probs rc, rc_count := rc_count rc + 1\<rparr>" by simp
    show "rc_queue (?f rc) = rc_queue rc @ [Sym_direct (bit value n)] \<and> same_state rc (?f rc) \<and> rc_room m (?f rc)"
      using queue_one [OF r e] unfolding s by simp
  qed
  from queues_comp [OF this Suc] show ?case by simp
qed

lemma queues_flush: "queues rc_flush (replicate 5 Sym_flush)"
proof -
  let ?f = "\<lambda>rc :: 'a range_encoder. rc\<lparr>rc_symbols := (rc_symbols rc)[rc_count rc := RC_FLUSH], rc_count := rc_count rc + 1\<rparr>"
  have one: "queues ?f [Sym_flush]"
  proof (rule queues_oneI)
    fix rc :: "'a range_encoder" and m
    assume r: "rc_room (Suc m) rc"
    have e: "?f rc = rc\<lparr>rc_symbols := (rc_symbols rc)[rc_count rc := RC_FLUSH], rc_probs := rc_probs rc, rc_count := rc_count rc + 1\<rparr>" by simp
    show "rc_queue (?f rc) = rc_queue rc @ [Sym_flush] \<and> same_state rc (?f rc) \<and> rc_room m (?f rc)"
      using queue_one [OF r e] by simp
  qed
  have "queues (\<lambda>rc. fold (\<lambda>i. ?f) [0..<m] rc) (replicate m Sym_flush)" for m
  proof (induction m)
    case (Suc m)
    from queues_comp [OF Suc one] show ?case by (simp add: replicate_append_same)
  qed (simp add: queues_id)
  from this [of 5] show ?thesis by (simp add: rc_flush_def [abs_def])
qed

text \<open>An encoding of what was queued.\<close>

lemma encode_queued:
  assumes "queues f syms" and "rc_count rc = 0" and "rc_pos rc = 0" and "rc_room (length syms) rc"
    and "Sym_flush \<notin> set syms" and "iv_ok (enc_iv rc mem out)" and "enc_inv (unat (rc_range rc)) rc"
    and "enc_length rc out + length syms \<le> out_size" and "out_size + 1 < 2 ^ 64"
  shows "\<exists>rc' mem' out'. rc_encode out_size (f rc) mem out = (False, rc', mem', out') \<and> rc_count rc' = 0 \<and> rc_pos rc' = 0
     \<and> enc_iv rc' mem' out' = fold iv_step syms (enc_iv rc mem out) \<and> enc_inv (unat (rc_range rc')) rc' \<and> rc_room 58 rc'"
proof -
  have "rc_room (0 + length syms) rc" using assms(4) by simp
  then have q: "rc_queue (f rc) = rc_queue rc @ syms" "same_state rc (f rc)" "rc_room 0 (f rc)"
    using assms(1) unfolding queues_def by blast+
  have "rc_queue rc = []" using assms(2,3) by (simp add: rc_queue_def)
  then have qs: "rc_queue (f rc) = syms" using q(1) by simp
  note s = same_state_iv [OF q(2)]
  have r: "rc_range (f rc) = rc_range rc" and l: "enc_length (f rc) out = enc_length rc out"
    using q(2) by (simp_all add: same_state_def enc_length_def)
  from rc_encode_ok [OF qs assms(5)] obtain rc' mem' out' where
    "rc_encode out_size (f rc) mem out = (False, rc', mem', out')" "rc_count rc' = 0" "rc_pos rc' = 0"
    "enc_iv rc' mem' out' = fold iv_step syms (enc_iv (f rc) mem out)" "enc_inv (unat (rc_range rc')) rc'"
    "rc_symbols rc' = rc_symbols (f rc)" "rc_probs rc' = rc_probs (f rc)"
    using s assms(6-9) by (metis r l)
  then show ?thesis using s q(3) by (simp add: rc_room_def)
qed

subsection \<open>The start and the end of a stream\<close>

definition iv_start :: "'p memory \<Rightarrow> 'p interval" where
  "iv_start mem = \<lparr>iv_value = 0, iv_size = 2 ^ 32 - 1, iv_digits = 1, iv_probs = mem\<rparr>"

lemma unat_max_u32: "unat (- 1 :: u32) = 2 ^ 32 - 1"
  by (simp add: unsigned_minus_1_eq_mask mask_eq_exp_minus_1)

lemma enc_start: "enc_iv (rc_reset rc) mem [] = iv_start mem" "enc_inv (unat (rc_range (rc_reset rc))) (rc_reset rc)"
proof -
  have r: "unat (rc_range (rc_reset rc)) = 2 ^ 32 - 1" by (simp add: rc_reset_def unat_max_u32)
  show "enc_iv (rc_reset rc) mem [] = iv_start mem"
    unfolding enc_iv_def iv_start_def r by (simp add: rc_reset_def enc_value_def enc_length_def withheld_def)
  show "enc_inv (unat (rc_range (rc_reset rc))) (rc_reset rc)"
    unfolding enc_inv_def r by (simp add: rc_reset_def withheld_def)
qed

lemma iv_start_ok: "iv_ok (iv_start mem) \<longleftrightarrow> (\<forall>a. prob_ok (mem a))"
  by (simp add: iv_ok_def iv_start_def)

lemma read_bytes:
  "unat (rd_init_bytes_left rd) = length bs \<Longrightarrow> (\<And>i. i < length bs \<Longrightarrow> inb ! (pos + i) = bs ! i) \<Longrightarrow> pos + length bs \<le> in_size
   \<Longrightarrow> length bs \<le> 4 \<Longrightarrow> unat (rd_code rd) < 256 ^ (4 - length bs) \<Longrightarrow>
   \<exists>rc. rc_read_init inb in_size rd pos = (LZMA_STREAM_END, rc, pos + length bs) \<and> rd_range rc = rd_range rd \<and> rd_init_bytes_left rc = 0
     \<and> unat (rd_code rc) = unat (rd_code rd) * 256 ^ length bs + digits bs"
proof (induction bs arbitrary: rd pos)
  case Nil
  then have "rd_init_bytes_left rd = 0" by (simp add: unat_eq_0)
  then show ?case by (subst rc_read_init.simps) simp
next
  case (Cons b bs)
  define rd' where "rd' = rd\<lparr>rd_code := push_bit 8 (rd_code rd) OR ucast b, rd_init_bytes_left := rd_init_bytes_left rd - 1\<rparr>"
  have left: "unat (rd_init_bytes_left rd) = Suc (length bs)" using Cons.prems(1) by simp
  have nz: "rd_init_bytes_left rd \<noteq> 0" using left by auto
  have n5: "rd_init_bytes_left rd \<noteq> 5" using left Cons.prems(4) by auto
  have left': "unat (rd_init_bytes_left rd') = length bs" using left nz by (simp add: rd'_def unat_minus_one)
  have "unat (rd_code rd) < 256 ^ (4 - length (b # bs))" by (rule Cons.prems(5))
  also have "\<dots> \<le> (256 :: nat) ^ 3" by (rule power_increasing) simp_all
  finally have c: "unat (rd_code rd) < 2 ^ 24" by simp
  have code': "unat (rd_code rd') = 256 * unat (rd_code rd) + unat b" using unat_push_byte [OF c, of b] by (simp add: rd'_def)
  have "256 * (unat (rd_code rd) + 1) \<le> 256 * 256 ^ (4 - length (b # bs))" using Cons.prems(5) by (intro mult_le_mono2) simp
  also have "\<dots> = (256 :: nat) ^ (4 - length bs)" using Cons.prems(4) by (simp add: Suc_diff_Suc flip: power_Suc)
  finally have small: "unat (rd_code rd') < 256 ^ (4 - length bs)" using unat_byte_less [of b] unfolding code' by simp
  have byte: "inb ! pos = b" using Cons.prems(2) [of 0] by simp
  have bytes: "inb ! (Suc pos + i) = bs ! i" if "i < length bs" for i using Cons.prems(2) [of "Suc i"] that by simp
  have room: "Suc pos + length bs \<le> in_size" "length bs \<le> 4" "pos \<noteq> in_size" using Cons.prems(3,4) by simp_all
  have e: "rc_read_init inb in_size rd pos = rc_read_init inb in_size rd' (Suc pos)"
    using nz n5 room(3) byte by (subst rc_read_init.simps) (simp add: rd'_def word_neq_0_conv)
  obtain rc where "rc_read_init inb in_size rd' (Suc pos) = (LZMA_STREAM_END, rc, Suc pos + length bs)" "rd_range rc = rd_range rd'" "rd_init_bytes_left rc = 0"
    "unat (rd_code rc) = unat (rd_code rd') * 256 ^ length bs + digits bs"
    using Cons.IH [OF left' bytes room(1,2) small] by blast
  then show ?case unfolding e code' by (simp add: rd'_def algebra_simps)
qed

text \<open>The first byte of a stream is zero, and with the next four the decoder is in step.\<close>

lemma first_byte:
  assumes "stream_ok st" and "iv_inside (iv_start mem) (st_last st)"
  shows "st_bytes st ! 0 = 0"
proof -
  let ?d = "iv_digits (st_last st)"
  have i: "1 \<le> ?d" "iv_value (st_last st) + iv_size (st_last st) \<le> (2 ^ 32 - 1) * 256 ^ (?d - 1)" "0 < iv_size (st_last st)"
    using assms by (simp_all add: iv_inside_def iv_start_def stream_ok_def)
  have len: "length (st_bytes st) = ?d + 4" by (rule st_bytes_length [OF assms(1)])
  obtain b bs where bs: "st_bytes st = b # bs" using len by (cases "st_bytes st") simp_all
  have "(2 ^ 32 - 1) * 256 ^ (?d - 1) \<le> 2 ^ 32 * (256 :: nat) ^ (?d - 1)" by (rule mult_le_mono1) simp
  also have "\<dots> = 256 ^ (4 + (?d - 1))" by (simp add: power_add)
  also have "4 + (?d - 1) = length bs" using len bs i(1) by simp
  finally have le: "(2 ^ 32 - 1) * 256 ^ (?d - 1) \<le> (256 :: nat) ^ length bs" .
  have "digits (st_bytes st) = iv_value (st_last st)" using assms(1) by (simp add: stream_ok_def)
  then have "unat b * 256 ^ length bs + digits bs = iv_value (st_last st)" by (simp add: bs)
  then have "unat b * 256 ^ length bs < 1 * 256 ^ length bs" using i(2,3) le unfolding mult_1 by linarith
  then have "unat b < 1" unfolding mult_less_cancel2 by blast
  then show ?thesis by (simp add: bs unat_eq_0)
qed

lemma read_init_ok:
  assumes st: "stream_ok st" and inside: "iv_inside (iv_start mem) (st_last st)" and mem: "\<forall>a\<in>st_ptrs st. mem' a = mem a"
  shows "\<exists>rc. rc_read_init (st_in st) (st_size st) (rd_reset rd) (st_off st) = (LZMA_STREAM_END, rc, st_off st + 5)
    \<and> in_step st (iv_start mem) (mem', rc, st_off st + 5)"
proof -
  let ?bs = "take 4 (tl (st_bytes st))"
  have d: "1 \<le> iv_digits (st_last st)" using inside by (simp add: iv_inside_def iv_start_def)
  have len: "5 \<le> length (st_bytes st)" using st_bytes_length [OF st] d by simp
  have l4: "length ?bs = 4" using len by simp
  have nth: "st_in st ! (st_off st + i) = st_bytes st ! i" if "i < 5" for i
    using st_bytes_nth [OF st, of i] that d by simp
  define rd' where "rd' = (rd_reset rd)\<lparr>rd_init_bytes_left := 4\<rparr>"
  have room: "Suc (st_off st) + length ?bs \<le> st_size st" "st_off st \<noteq> st_size st" using st d l4 by (simp_all add: stream_ok_def)
  have zero: "st_in st ! st_off st = 0" using nth [of 0] first_byte [OF st inside] by simp
  have e: "rc_read_init (st_in st) (st_size st) (rd_reset rd) (st_off st) = rc_read_init (st_in st) (st_size st) rd' (Suc (st_off st))"
    using room(2) zero by (subst rc_read_init.simps) (simp add: rd'_def rd_reset_def)
  have left: "unat (rd_init_bytes_left rd') = length ?bs" unfolding l4 by (simp add: rd'_def)
  have bytes: "st_in st ! (Suc (st_off st) + i) = ?bs ! i" if "i < length ?bs" for i
    using that nth [of "Suc i"] l4 len by (simp add: nth_tl)
  have "unat (rd_code rd') < 256 ^ (4 - length ?bs)" by (simp add: rd'_def rd_reset_def)
  then obtain rc where rc: "rc_read_init (st_in st) (st_size st) rd' (Suc (st_off st)) = (LZMA_STREAM_END, rc, Suc (st_off st) + length ?bs)"
    "rd_range rc = rd_range rd'" "unat (rd_code rc) = unat (rd_code rd') * 256 ^ length ?bs + digits ?bs" "rd_init_bytes_left rc = 0"
    using read_bytes [OF left bytes room(1)] l4 by auto
  have five: "take 5 (st_bytes st) = 0 # ?bs"
  proof -
    obtain b bs where bs: "st_bytes st = b # bs" using len by (cases "st_bytes st") simp_all
    then show ?thesis using first_byte [OF st inside] by simp
  qed
  have "unat (rd_code rc) = digits (take 5 (st_bytes st))" unfolding rc(3) five by (simp add: rd'_def rd_reset_def)
  moreover have "unat (rd_range rc) = 2 ^ 32 - 1" unfolding rc(2) by (simp add: rd'_def rd_reset_def unat_max_u32)
  ultimately have "in_step st (iv_start mem) (mem', rc, st_off st + 5)" using mem rc(4) by (simp add: in_step_def iv_start_def)
  then show ?thesis using e rc(1) l4 by auto
qed

text \<open>The stream that a flush has finished, with what may stand before it and after it.\<close>

lemma finished_stream:
  assumes "digits out = iv_value (iv_normalize iv)" and "length out = iv_digits (iv_normalize iv) + 4" and "iv_ok iv"
    and "st = \<lparr>st_in = pre @ out @ rest, st_size = length (pre @ out @ rest), st_off = length pre, st_last = iv_normalize iv, st_ptrs = ptrs\<rparr>"
  shows "stream_ok st" and "iv_inside iv (st_last st)"
  using assms iv_normalize_ok [OF assms(3)] by (auto simp: stream_ok_def st_bytes_def iv_inside_normalize)

text \<open>At the end the decoder has read everything and its code is zero.\<close>

lemma decoder_finishes:
  assumes st: "stream_ok st" and last: "st_last st = iv_normalize iv" and s: "in_step st iv (mem, rc, in_pos)"
  shows "\<exists>rc'. rc_normalize (st_in st) (st_size st) (rc, in_pos) = Some (rc', st_off st + length (st_bytes st)) \<and> rc_is_finished rc'"
proof -
  have i: "iv_inside iv (st_last st)" "iv_inside (iv_normalize iv) (st_last st)"
    unfolding last by (rule iv_inside_normalize iv_inside_refl)+
  obtain rc' in_pos' where n: "rc_normalize (st_in st) (st_size st) (rc, in_pos) = Some (rc', in_pos')" "in_step st (st_last st) (mem, rc', in_pos')"
    using normalize_in_step [OF st s i] unfolding last by blast
  have "take (iv_digits (st_last st) + 4) (st_bytes st) = st_bytes st" using st_bytes_length [OF st] by simp
  then have "unat (rd_code rc') + iv_value (st_last st) = iv_value (st_last st)" "in_pos' = st_off st + length (st_bytes st)"
    using n(2) st st_bytes_length [OF st] by (simp_all add: in_step_def stream_ok_def)
  then show ?thesis using n(1) by (simp add: rc_is_finished_def unat_eq_0)
qed

subsection \<open>The round trip of the range coder\<close>

text \<open>A caller that encodes bits in batches, each with the pointer to its probability or without one, and flushes; and a caller
  that decodes them.\<close>

fun put_bit :: "'p pointer option \<times> bool \<Rightarrow> 'p range_encoder \<Rightarrow> 'p range_encoder" where
  "put_bit (Some prob, b) rc = rc_bit prob (of_bool b) rc"
| "put_bit (None, b) rc = rc_direct (of_bool b) 1 rc"

fun encode_batches ::
  "nat \<Rightarrow> ('p pointer option \<times> bool) list list \<Rightarrow> 'p range_encoder \<Rightarrow> 'p memory \<Rightarrow> byte list \<Rightarrow> ('p memory \<times> byte list) option" where
  "encode_batches out_size [] rc mem out =
     (let (full, rc, mem, out) = rc_encode out_size (rc_flush rc) mem out in if full then None else Some (mem, out))"
| "encode_batches out_size (batch # batches) rc mem out =
     (let (full, rc, mem, out) = rc_encode out_size (fold put_bit batch rc) mem out
      in if full then None else encode_batches out_size batches rc mem out)"

fun decode_bits :: "byte list \<Rightarrow> nat \<Rightarrow> 'p pointer option list \<Rightarrow> 'p decoding \<Rightarrow> (bool list \<times> 'p decoding) option" where
  "decode_bits inb in_size [] s = Some ([], s)"
| "decode_bits inb in_size (Some prob # kinds) s =
     do { (b, s) \<leftarrow> rc_decode_bit inb in_size prob s; (bs, s) \<leftarrow> decode_bits inb in_size kinds s; Some (b # bs, s) }"
| "decode_bits inb in_size (None # kinds) s =
     do { (dest, s) \<leftarrow> rc_decode_direct inb in_size 0 s; (bs, s) \<leftarrow> decode_bits inb in_size kinds s; Some ((dest \<noteq> 0) # bs, s) }"

fun bit_sym :: "'p pointer option \<times> bool \<Rightarrow> 'p sym" where
  "bit_sym (Some prob, b) = Sym_bit prob b"
| "bit_sym (None, b) = Sym_direct b"

lemma bit_sym_no_flush: "(Sym_flush :: 'a sym) \<notin> set (map bit_sym bits)"
proof
  assume "(Sym_flush :: 'a sym) \<in> set (map bit_sym bits)"
  then obtain x where "bit_sym x = (Sym_flush :: 'a sym)" by (metis imageE list.set_map)
  then show False by (cases x rule: bit_sym.cases) simp_all
qed

lemma queues_put_bits: "queues (fold put_bit bits) (map bit_sym bits :: 'a sym list)"
proof (induction bits)
  case (Cons x bits)
  obtain k b where x: "x = (k, b)" by (cases x)
  have one: "queues (put_bit x) [bit_sym x :: 'a sym]"
  proof (cases k)
    case None
    have "(put_bit (None, b) :: 'a range_encoder \<Rightarrow> 'a range_encoder) = rc_direct (of_bool b) 1" by (rule ext) (simp only: put_bit.simps)
    then have "queues (put_bit (None, b) :: 'a range_encoder \<Rightarrow> 'a range_encoder) (direct_syms (of_bool b) 1)" by (simp only: queues_direct)
    then show ?thesis using None by (cases b) (simp_all add: x)
  next
    case (Some prob)
    have "put_bit (Some prob, b) = rc_bit prob (of_bool b)" by (rule ext) (simp only: put_bit.simps)
    moreover have "(of_bool b \<noteq> (0 :: u32)) = b" by (cases b) simp_all
    ultimately show ?thesis using queues_bit [of prob "of_bool b"] Some by (simp only: x bit_sym.simps)
  qed
  from queues_comp [OF one Cons] show ?case by (simp add: comp_def)
qed (simp add: queues_id)

lemma decodes_bits:
  assumes "stream_ok st"
  shows "decodes st (decode_bits (st_in st) (st_size st) (map fst bits)) (map bit_sym bits) (map snd bits)"
proof (induction bits)
  case Nil
  show ?case using decodes_return by simp
next
  case (Cons x bits)
  obtain k b where x: "x = (k, b)" by (cases x)
  have rest: "decodes st (\<lambda>s. do { (bs, s) \<leftarrow> decode_bits (st_in st) (st_size st) (map fst bits) s; Some (c # bs, s) }) (map bit_sym bits @ []) (c # map snd bits)" for c
    by (rule decodes_bind [OF Cons]) (rule decodes_return)
  show ?case
  proof (cases k)
    case None
    have c: "decodes st (\<lambda>s. do { (bs, s) \<leftarrow> decode_bits (st_in st) (st_size st) (map fst bits) s; Some ((push_bit 1 (0 :: u32) + of_bool b \<noteq> 0) # bs, s) })
        (map bit_sym bits @ []) (b # map snd bits)" using rest [of b] by (cases b) simp_all
    have "decodes st (decode_bits (st_in st) (st_size st) (None # map fst bits)) ([Sym_direct b] @ map bit_sym bits @ []) (b # map snd bits)"
      unfolding decode_bits.simps by (rule decodes_bind [OF decodes_direct [OF assms]]) (rule c)
    then show ?thesis unfolding None x list.map fst_conv snd_conv bit_sym.simps append_Nil2 append_Cons append_Nil .
  next
    case (Some prob)
    have "decodes st (decode_bits (st_in st) (st_size st) (Some prob # map fst bits)) ([Sym_bit prob b] @ map bit_sym bits @ []) (b # map snd bits)"
      unfolding decode_bits.simps by (rule decodes_bind [OF decodes_bit [OF assms]]) (rule rest)
    then show ?thesis unfolding Some x list.map fst_conv snd_conv bit_sym.simps append_Nil2 append_Cons append_Nil .
  qed
qed

lemma encode_batches_ok:
  "list_all (\<lambda>batch. length batch \<le> RC_SYMBOLS_MAX) batches \<Longrightarrow> rc_count rc = 0 \<Longrightarrow> rc_pos rc = 0 \<Longrightarrow> rc_room 58 rc
   \<Longrightarrow> iv_ok (enc_iv rc mem out) \<Longrightarrow> enc_inv (unat (rc_range rc)) rc
   \<Longrightarrow> enc_length rc out + length (concat batches) + 5 \<le> out_size \<Longrightarrow> out_size + 1 < 2 ^ 64 \<Longrightarrow>
   \<exists>mem' out'. encode_batches out_size batches rc mem out = Some (mem', out')
     \<and> mem' = iv_probs (fold iv_step (map bit_sym (concat batches)) (enc_iv rc mem out))
     \<and> digits out' = iv_value (iv_normalize (fold iv_step (map bit_sym (concat batches)) (enc_iv rc mem out)))
     \<and> length out' = iv_digits (iv_normalize (fold iv_step (map bit_sym (concat batches)) (enc_iv rc mem out))) + 4"
proof (induction batches arbitrary: rc mem out)
  case Nil
  have "rc_room (53 + length (replicate 5 Sym_flush)) rc" using Nil.prems(4) by simp
  then have q: "rc_queue (rc_flush rc) = rc_queue rc @ replicate 5 Sym_flush" "same_state rc (rc_flush rc)"
    using queues_flush unfolding queues_def by blast+
  have qs: "rc_queue (rc_flush rc) = replicate 5 Sym_flush" using q(1) Nil.prems(2,3) by (simp add: rc_queue_def)
  note s = same_state_iv [OF q(2)]
  have inv: "enc_inv (unat (rc_range (rc_flush rc))) (rc_flush rc)" "enc_length (rc_flush rc) out + 5 \<le> out_size"
    using s Nil.prems(6,7) q(2) by (simp_all add: same_state_def enc_length_def)
  from rc_encode_flush_ok [OF qs inv Nil.prems(8), of mem] show ?case using s by auto
next
  case (Cons batch batches)
  have b: "length batch \<le> 58" "list_all (\<lambda>batch. length batch \<le> RC_SYMBOLS_MAX) batches" using Cons.prems(1) by simp_all
  have room: "rc_room (length (map bit_sym batch)) rc" using Cons.prems(2,4) b(1) by (simp add: rc_room_def)
  have len: "enc_length rc out + length (map bit_sym batch) \<le> out_size" using Cons.prems(7) by simp
  obtain rc' mem' out' where e: "rc_encode out_size (fold put_bit batch rc) mem out = (False, rc', mem', out')" "rc_count rc' = 0" "rc_pos rc' = 0"
    "enc_iv rc' mem' out' = fold iv_step (map bit_sym batch) (enc_iv rc mem out)" "enc_inv (unat (rc_range rc')) rc'" "rc_room 58 rc'"
    using encode_queued [OF queues_put_bits Cons.prems(2,3) room bit_sym_no_flush Cons.prems(5,6) len Cons.prems(8)] by blast
  have ok: "iv_ok (enc_iv rc' mem' out')" unfolding e(4) using iv_run_ok [OF Cons.prems(5)] by blast
  have "iv_digits (enc_iv rc' mem' out') \<le> iv_digits (enc_iv rc mem out) + length (map bit_sym batch)"
    unfolding e(4) by (rule iv_digits_run)
  then have len': "enc_length rc' out' + length (concat batches) + 5 \<le> out_size" using Cons.prems(7) by simp
  from Cons.IH [OF b(2) e(2,3,6) ok e(5) len' Cons.prems(8)] show ?case by (simp add: e(1) e(4))
qed

text \<open>C4. What is encoded in batches that fit into the encoder's queue and flushed is decoded again: the decoder accepts the first
  five bytes, gives the bits, ends with the encoder's probabilities, and after a last normalisation it has consumed every byte and
  \<open>rc_is_finished\<close> holds.\<close>

theorem range_coder_roundtrip:
  assumes "\<forall>prob. prob_ok (mem prob)" and "list_all (\<lambda>batch. length batch \<le> RC_SYMBOLS_MAX) batches"
    and "length (rc_symbols rc) = RC_SYMBOLS_MAX" and "length (rc_probs rc) = RC_SYMBOLS_MAX"
    and "length (concat batches) + 6 \<le> out_size" and "out_size + 1 < 2 ^ 64"
  shows "\<exists>mem' out rd1 rd2 in_pos rd3. encode_batches out_size batches (rc_reset rc) mem [] = Some (mem', out)
    \<and> rc_read_init out (length out) (rd_reset rd) 0 = (LZMA_STREAM_END, rd1, 5)
    \<and> decode_bits out (length out) (map fst (concat batches)) (mem, rd1, 5) = Some (map snd (concat batches), mem', rd2, in_pos)
    \<and> rc_normalize out (length out) (rd2, in_pos) = Some (rd3, length out) \<and> rc_is_finished rd3"
proof -
  define iv where "iv = fold iv_step (map bit_sym (concat batches)) (iv_start mem)"
  have ok0: "iv_ok (iv_start mem)" unfolding iv_start_ok by (rule assms(1))
  have room: "rc_count (rc_reset rc) = 0" "rc_pos (rc_reset rc) = 0" "rc_room 58 (rc_reset rc)"
    using assms(3,4) by (simp_all add: rc_reset_def rc_room_def)
  have len: "enc_length (rc_reset rc) [] + length (concat batches) + 5 \<le> out_size" using assms(5) by (simp add: enc_length_def rc_reset_def)
  obtain mem' out where e: "encode_batches out_size batches (rc_reset rc) mem [] = Some (mem', out)" "mem' = iv_probs iv"
    "digits out = iv_value (iv_normalize iv)" "length out = iv_digits (iv_normalize iv) + 4"
    using encode_batches_ok [OF assms(2) room _ enc_start(2) len assms(6), of mem] ok0 unfolding enc_start(1) iv_def by blast
  note run = iv_run_ok [OF ok0, of "map bit_sym (concat batches)", folded iv_def]
  define st where "st = \<lparr>st_in = [] @ out @ [], st_size = length ([] @ out @ []), st_off = length ([] :: byte list), st_last = iv_normalize iv, st_ptrs = UNIV\<rparr>"
  note fin = finished_stream [OF e(3,4) conjunct1 [OF run] st_def]
  have fields: "st_in st = out" "st_size st = length out" "st_off st = 0" "st_last st = iv_normalize iv" "st_ptrs st = UNIV" by (simp_all add: st_def)
  have "iv_inside (iv_start mem) (st_last st)" using iv_inside_trans [OF conjunct2 [OF run] fin(2)] .
  then obtain rd1 where i: "rc_read_init out (length out) (rd_reset rd) 0 = (LZMA_STREAM_END, rd1, 5)" "in_step st (iv_start mem) (mem, rd1, 5)"
    using read_init_ok [OF fin(1), where mem = mem and mem' = mem] unfolding fields by auto
  obtain s where d: "decode_bits out (length out) (map fst (concat batches)) (mem, rd1, 5) = Some (map snd (concat batches), s)" "in_step st iv s"
    using decodesD [OF decodes_bits [OF fin(1), of "concat batches"] _ ok0 _ i(2)] fin(2) unfolding fields iv_def by blast
  obtain m2 rd2 in_pos where s: "s = (m2, rd2, in_pos)" by (cases s)
  have m2: "m2 = mem'" using d(2) fields(5) by (simp add: s e(2) in_step_def fun_eq_iff)
  have "st_bytes st = out" using e(4) by (simp add: st_bytes_def fields)
  then obtain rd3 where "rc_normalize out (length out) (rd2, in_pos) = Some (rd3, length out)" "rc_is_finished rd3"
    using decoder_finishes [OF fin(1) fields(4) d(2) [unfolded s]] unfolding fields by auto
  then show ?thesis using e(1) i(1) d(1) unfolding s m2 by blast
qed

definition example_rc :: "nat range_encoder" where
  "example_rc = \<lparr>rc_low = 0, rc_cache_size = 1, rc_range = 0, rc_cache = 0, rc_count = 0, rc_pos = 0,
     rc_symbols = replicate 58 RC_BIT_0, rc_probs = replicate 58 (0, 0)\<rparr>"

definition example_rd :: range_decoder where
  "example_rd = \<lparr>rd_range = 0, rd_code = 0, rd_init_bytes_left = 0\<rparr>"

theorem range_coder_roundtrip_witness:
  "\<exists>mem' out rd1 rd2 in_pos. encode_batches 100 [[(Some (0, 1), True), (None, True)], [(Some (0, 1), True)]] (rc_reset example_rc) (\<lambda>prob. bit_reset) []
      = Some (mem', out)
    \<and> rc_read_init out (length out) (rd_reset example_rd) 0 = (LZMA_STREAM_END, rd1, 5)
    \<and> decode_bits out (length out) [Some (0, 1), None, Some (0, 1)] (\<lambda>prob. bit_reset, rd1, 5) = Some ([True, True, True], mem', rd2, in_pos)"
  using range_coder_roundtrip [of "\<lambda>prob. bit_reset" "[[(Some (0, 1), True), (None, True)], [(Some (0, 1), True)]]" example_rc 100 example_rd]
  by (simp add: example_rc_def prob_ok_def bit_reset_def RC_BIT_MODEL_TOTAL_def) blast

end
