(* ===== verification/Lz_Decoder.thy ===== *)
theory Lz_Decoder
  imports Lzma_Prelude
begin

unbundle bit_operations_syntax

text \<open>
  The dictionary of the LZ decoder and the loop that moves decoded data from it to the output: lz\_decoder.h and lz\_decoder.c of
  src/liblzma/src/liblzma/lz. Sizes and positions are \<open>size_t\<close> values that stay in range, so they are natural numbers.

  \<open>dict_ok d h\<close> says that the dictionary stands for the history \<open>h\<close>, all that has been decoded: it holds the last
  \<open>full\<close> bytes of it, at their distances, whether the buffer has wrapped or not.
\<close>

subsection \<open>lz\_decoder.h\<close>

record lzma_dict =
  dc_buf :: "byte list"
  dc_pos :: nat
  dc_full :: nat
  dc_limit :: nat
  dc_size :: nat
  dc_need_reset :: bool

definition dict_get :: "lzma_dict \<Rightarrow> nat \<Rightarrow> byte" where
  "dict_get dict distance =
     dc_buf dict ! (dc_pos dict + (if distance < dc_pos dict then 0 else dc_size dict) - distance - 1)"

definition dict_is_empty :: "lzma_dict \<Rightarrow> bool" where
  "dict_is_empty dict \<longleftrightarrow> dc_full dict = 0"

definition dict_is_distance_valid :: "lzma_dict \<Rightarrow> nat \<Rightarrow> bool" where
  "dict_is_distance_valid dict distance \<longleftrightarrow> dc_full dict > distance"

text \<open>The loop of \<open>dict_repeat\<close> for areas that overlap.\<close>

fun dict_copy :: "nat \<Rightarrow> nat \<Rightarrow> lzma_dict \<Rightarrow> lzma_dict" where
  "dict_copy distance 0 dict = dict"
| "dict_copy distance (Suc left) dict =
     dict_copy distance left
       (dict\<lparr>dc_buf := (dc_buf dict)[dc_pos dict := dict_get dict distance], dc_pos := dc_pos dict + 1\<rparr>)"

text \<open>\<open>memcpy\<close> and \<open>memmove\<close> within the buffer, to \<open>dict->pos\<close>, which moves on.\<close>

definition dict_move :: "nat \<Rightarrow> nat \<Rightarrow> lzma_dict \<Rightarrow> lzma_dict" where
  "dict_move from n dict =
     dict\<lparr>dc_buf := put_bytes (dc_buf dict) (dc_pos dict) (slice from (from + n) (dc_buf dict)), dc_pos := dc_pos dict + n\<rparr>"

definition dict_repeat :: "lzma_dict \<Rightarrow> nat \<Rightarrow> nat \<Rightarrow> bool \<times> lzma_dict \<times> nat" where
  "dict_repeat dict distance len =
     (let dict_avail = dc_limit dict - dc_pos dict;
          left = min dict_avail len;
          len = len - left;
          dict =
            (if distance < left then dict_copy distance left dict
             else if distance < dc_pos dict then dict_move (dc_pos dict - distance - 1) left dict
             else
               let copy_pos = dc_pos dict + dc_size dict - distance - 1;
                   copy_size = dc_size dict - copy_pos
               in if copy_size < left then dict_move 0 (left - copy_size) (dict_move copy_pos copy_size dict)
                  else dict_move copy_pos left dict);
          dict = (if dc_full dict < dc_pos dict then dict\<lparr>dc_full := dc_pos dict\<rparr> else dict)
      in (len \<noteq> 0, dict, len))"

definition dict_put :: "lzma_dict \<Rightarrow> byte \<Rightarrow> bool \<times> lzma_dict" where
  "dict_put dict b =
     (if dc_pos dict = dc_limit dict then (True, dict)
      else let dict = dict\<lparr>dc_buf := (dc_buf dict)[dc_pos dict := b], dc_pos := dc_pos dict + 1\<rparr>
           in (False, if dc_pos dict > dc_full dict then dict\<lparr>dc_full := dc_pos dict\<rparr> else dict))"

definition dict_reset :: "lzma_dict \<Rightarrow> lzma_dict" where
  "dict_reset dict = dict\<lparr>dc_need_reset := True\<rparr>"

subsection \<open>lz\_decoder.c\<close>

definition lz_decoder_reset :: "lzma_dict \<Rightarrow> lzma_dict" where
  "lz_decoder_reset dict = dict\<lparr>dc_pos := 0, dc_full := 0, dc_buf := (dc_buf dict)[dc_size dict - 1 := 0], dc_need_reset := False\<rparr>"

text \<open>What a decoder that may run out of input, or a loop with bounded fuel, gives.\<close>

datatype 'a run = Need_input | Running | Result 'a

primrec lz_decode_buffer_loop ::
  "nat \<Rightarrow> ('c \<Rightarrow> lzma_dict \<Rightarrow> nat \<Rightarrow> (lzma_ret \<times> 'c \<times> lzma_dict \<times> nat) run) \<Rightarrow> nat \<Rightarrow> 'c \<Rightarrow> lzma_dict \<Rightarrow> nat \<Rightarrow> byte list
   \<Rightarrow> (lzma_ret \<times> 'c \<times> lzma_dict \<times> nat \<times> byte list) run" where
  "lz_decode_buffer_loop 0 code out_size coder dict in_pos out = Running"
| "lz_decode_buffer_loop (Suc fuel) code out_size coder dict in_pos out =
     (let dict = (if dc_pos dict = dc_size dict then dict\<lparr>dc_pos := 0\<rparr> else dict);
          dict_start = dc_pos dict;
          dict = dict\<lparr>dc_limit := dc_pos dict + min (out_size - length out) (dc_size dict - dc_pos dict)\<rparr>
      in case code coder dict in_pos of
           Need_input \<Rightarrow> Need_input
         | Running \<Rightarrow> Running
         | Result (ret, coder, dict, in_pos) \<Rightarrow>
             let out = out @ slice dict_start (dc_pos dict) (dc_buf dict)
             in if dc_need_reset dict then
                  let dict = lz_decoder_reset dict
                  in if ret \<noteq> LZMA_OK \<or> length out = out_size then Result (ret, coder, dict, in_pos, out)
                     else lz_decode_buffer_loop fuel code out_size coder dict in_pos out
                else if ret \<noteq> LZMA_OK \<or> length out = out_size \<or> dc_pos dict < dc_size dict then Result (ret, coder, dict, in_pos, out)
                else lz_decode_buffer_loop fuel code out_size coder dict in_pos out)"

definition lz_decode_buffer ::
  "('c \<Rightarrow> lzma_dict \<Rightarrow> nat \<Rightarrow> (lzma_ret \<times> 'c \<times> lzma_dict \<times> nat) run) \<Rightarrow> nat \<Rightarrow> 'c \<Rightarrow> lzma_dict \<Rightarrow> nat \<Rightarrow> byte list
   \<Rightarrow> (lzma_ret \<times> 'c \<times> lzma_dict \<times> nat \<times> byte list) run" where
  "lz_decode_buffer code out_size coder dict in_pos out = lz_decode_buffer_loop (out_size - length out + 1) code out_size coder dict in_pos out"

text \<open>The part of \<open>lzma_lz_decoder_init\<close> that computes the size and starts the dictionary, with the newly allocated bytes.\<close>

definition lz_dict_size :: "u64 \<Rightarrow> u64 option" where
  "lz_dict_size wanted =
     (let wanted = (if wanted < 4096 then 4096 else wanted)
      in if wanted > - 1 - 15 then None else Some ((wanted + 15) AND NOT 15))"

definition lz_dict_init :: "byte list \<Rightarrow> byte list \<Rightarrow> lzma_dict" where
  "lz_dict_init fresh preset =
     (let dict_size = length fresh;
          dict = lz_decoder_reset \<lparr>dc_buf = fresh, dc_pos = 0, dc_full = 0, dc_limit = 0, dc_size = dict_size, dc_need_reset = False\<rparr>
      in if preset = [] then dict
         else let copy_size = min (length preset) dict_size; offset = length preset - copy_size
              in dict\<lparr>dc_buf := put_bytes (dc_buf dict) 0 (slice offset (offset + copy_size) preset), dc_pos := copy_size, dc_full := copy_size\<rparr>)"

definition lzma_lz_decoder_memusage :: "u64 \<Rightarrow> u64 \<Rightarrow> u64" where
  "lzma_lz_decoder_memusage sizeof_coder dictionary_size = sizeof_coder + dictionary_size"

subsection \<open>The history\<close>

definition dict_ok :: "lzma_dict \<Rightarrow> byte list \<Rightarrow> bool" where
  "dict_ok d h \<longleftrightarrow> length (dc_buf d) = dc_size d \<and> 0 < dc_size d \<and> dc_pos d \<le> dc_size d \<and> dc_full d = min (length h) (dc_size d)
     \<and> (length h < dc_size d \<longrightarrow> dc_pos d = length h) \<and> dc_pos d mod dc_size d = length h mod dc_size d
     \<and> (\<forall>k < dc_full d. dict_get d k = h ! (length h - 1 - k)) \<and> (h = [] \<longrightarrow> dc_buf d ! (dc_size d - 1) = 0)"

text \<open>One byte, as \<open>dict_put\<close> and one round of the copying loop write it.\<close>

definition dict_byte :: "byte \<Rightarrow> lzma_dict \<Rightarrow> lzma_dict" where
  "dict_byte b d = d\<lparr>dc_buf := (dc_buf d)[dc_pos d := b], dc_pos := dc_pos d + 1, dc_full := max (dc_full d) (dc_pos d + 1)\<rparr>"

lemma dict_byte_ok:
  assumes "dict_ok d h" and "dc_pos d < dc_size d"
  shows "dict_ok (dict_byte b d) (h @ [b])"
proof -
  let ?d = "dict_byte b d" and ?s = "dc_size d" and ?p = "dc_pos d"
  have ok: "length (dc_buf d) = ?s" "0 < ?s" "dc_full d = min (length h) ?s" "length h < ?s \<Longrightarrow> ?p = length h" "?p mod ?s = length h mod ?s"
    "\<And>k. k < dc_full d \<Longrightarrow> dict_get d k = h ! (length h - 1 - k)"
    using assms(1) by (simp_all add: dict_ok_def)
  have full: "dc_full ?d = min (length h + 1) ?s" using ok(3,4) assms(2) by (cases "length h < ?s") (simp_all add: dict_byte_def max_def)
  have "dict_get ?d k = (h @ [b]) ! (length h - k)" if k: "k < dc_full ?d" for k
  proof (cases k)
    case 0
    then show ?thesis using ok(1) assms(2) by (simp add: dict_get_def dict_byte_def nth_append)
  next
    case (Suc j)
    have j: "j < dc_full d" using k Suc unfolding full ok(3) by simp
    have js: "j < ?s" "j < length h" using j ok(3) by simp_all
    let ?i = "?p + (if j < ?p then 0 else ?s) - j - 1"
    have "Suc j < ?s" using k Suc full by simp
    then have "?i \<noteq> ?p" using js by auto
    then have "dict_get ?d k = dict_get d j" using Suc by (cases "j < ?p") (simp_all add: dict_get_def dict_byte_def)
    have "length h - k < length h" using js Suc by linarith
    then show ?thesis using \<open>dict_get ?d k = dict_get d j\<close> ok(6) [OF j] Suc by (simp add: nth_append)
  qed
  moreover have "(?p + 1) mod ?s = (length h + 1) mod ?s" using ok(5) by (metis mod_add_left_eq)
  ultimately show ?thesis using ok(1,2,4) assms(2) full by (auto simp: dict_ok_def dict_byte_def)
qed

lemma dict_put_ok:
  assumes "dict_ok d h" and "dc_limit d \<le> dc_size d" and "dc_pos d < dc_limit d"
  shows "dict_put d b = (False, dict_byte b d)"
  using assms by (simp add: dict_put_def dict_byte_def Let_def max_def)

lemma dict_put_full: "dc_pos d = dc_limit d \<Longrightarrow> dict_put d b = (True, d)"
  by (simp add: dict_put_def)

text \<open>The byte at a distance, and what a copy from a distance appends.\<close>

lemma dict_get_ok: "dict_ok d h \<Longrightarrow> distance < length h \<Longrightarrow> distance < dc_size d \<Longrightarrow> dict_get d distance = h ! (length h - 1 - distance)"
  by (simp add: dict_ok_def)

lemma dict_valid_iff: "dict_ok d h \<Longrightarrow> dict_is_distance_valid d distance \<longleftrightarrow> distance < length h \<and> distance < dc_size d"
  by (simp add: dict_ok_def dict_is_distance_valid_def)

lemma dict_get_start: "dict_ok d [] \<Longrightarrow> dict_get d 0 = 0"
  by (simp add: dict_ok_def dict_get_def)

fun copied :: "nat \<Rightarrow> nat \<Rightarrow> byte list \<Rightarrow> byte list" where
  "copied distance 0 h = h"
| "copied distance (Suc n) h = copied distance n (h @ [h ! (length h - 1 - distance)])"

fun dict_copied :: "nat \<Rightarrow> nat \<Rightarrow> lzma_dict \<Rightarrow> lzma_dict" where
  "dict_copied distance 0 d = d"
| "dict_copied distance (Suc n) d = dict_copied distance n (dict_byte (dict_get d distance) d)"

lemma dict_byte_fields [simp]:
  "dc_size (dict_byte b d) = dc_size d" "dc_pos (dict_byte b d) = dc_pos d + 1" "dc_limit (dict_byte b d) = dc_limit d"
  "dc_need_reset (dict_byte b d) = dc_need_reset d" "length (dc_buf (dict_byte b d)) = length (dc_buf d)"
  by (simp_all add: dict_byte_def)

lemma dict_copied_fields [simp]:
  "dc_size (dict_copied distance n d) = dc_size d" "dc_pos (dict_copied distance n d) = dc_pos d + n"
  "dc_limit (dict_copied distance n d) = dc_limit d" "dc_need_reset (dict_copied distance n d) = dc_need_reset d"
  by (induction n arbitrary: d) simp_all

lemma dict_copied_ok:
  "dict_ok d h \<Longrightarrow> distance < length h \<Longrightarrow> distance < dc_size d \<Longrightarrow> dc_pos d + n \<le> dc_size d \<Longrightarrow>
   dict_ok (dict_copied distance n d) (copied distance n h)"
proof (induction n arbitrary: d h)
  case (Suc n)
  have "dict_ok (dict_byte (dict_get d distance) d) (h @ [h ! (length h - 1 - distance)])"
    using dict_byte_ok [OF Suc.prems(1)] Suc.prems(4) dict_get_ok [OF Suc.prems(1-3)] by simp
  from Suc.IH [OF this] show ?case using Suc.prems(2-4) by simp
qed simp

subsection \<open>The three ways to copy\<close>

lemma dict_copy_fields [simp]:
  "dc_size (dict_copy distance n d) = dc_size d" "dc_pos (dict_copy distance n d) = dc_pos d + n" "dc_limit (dict_copy distance n d) = dc_limit d"
  "dc_full (dict_copy distance n d) = dc_full d" "length (dc_buf (dict_copy distance n d)) = length (dc_buf d)"
  by (induction n arbitrary: d) simp_all

lemma dict_move_fields [simp]:
  "dc_size (dict_move from n d) = dc_size d" "dc_pos (dict_move from n d) = dc_pos d + n" "dc_limit (dict_move from n d) = dc_limit d"
  "dc_full (dict_move from n d) = dc_full d"
  by (simp_all add: dict_move_def)

lemma dict_copy_append: "dict_copy distance (m + n) d = dict_copy distance n (dict_copy distance m d)"
  by (induction m arbitrary: d) simp_all

lemma dict_move_Suc:
  assumes "from + Suc n \<le> dc_pos d \<or> dc_pos d \<le> from" and "dc_pos d + Suc n \<le> length (dc_buf d)" and "from + Suc n \<le> length (dc_buf d)"
  shows "dict_move (from + 1) n (d\<lparr>dc_buf := (dc_buf d)[dc_pos d := dc_buf d ! from], dc_pos := dc_pos d + 1\<rparr>) = dict_move from (Suc n) d"
proof -
  have keep: "slice (Suc from) (Suc (from + n)) ((dc_buf d)[dc_pos d := dc_buf d ! from]) = slice (Suc from) (Suc (from + n)) (dc_buf d)"
    using assms by (intro nth_equalityI) (auto simp: slice_def nth_list_update)
  have cons: "slice from (Suc (from + n)) (dc_buf d) = dc_buf d ! from # slice (Suc from) (Suc (from + n)) (dc_buf d)"
    using assms(3) by (simp add: slice_def Cons_nth_drop_Suc [symmetric])
  have "length (slice (Suc from) (Suc (from + n)) (dc_buf d)) = n" using assms(3) by simp
  then have "put_bytes ((dc_buf d)[dc_pos d := b]) (Suc (dc_pos d)) (slice (Suc from) (Suc (from + n)) (dc_buf d))
      = put_bytes (dc_buf d) (dc_pos d) (b # slice (Suc from) (Suc (from + n)) (dc_buf d))" for b
    using assms(2) by (simp add: put_bytes_def take_Suc_conv_app_nth upd_conv_take_nth_drop add.commute)
  then show ?thesis unfolding dict_move_def by (simp add: keep cons del: put_bytes_update)
qed

lemma dict_copy_near:
  "distance < dc_pos d \<Longrightarrow> n \<le> distance + 1 \<Longrightarrow> dc_pos d + n \<le> length (dc_buf d) \<Longrightarrow>
   dict_copy distance n d = dict_move (dc_pos d - distance - 1) n d"
proof (induction n arbitrary: d)
  case 0
  then show ?case by (simp add: dict_move_def)
next
  case (Suc n)
  let ?from = "dc_pos d - distance - 1" and ?d = "d\<lparr>dc_buf := (dc_buf d)[dc_pos d := dict_get d distance], dc_pos := dc_pos d + 1\<rparr>"
  have g: "dict_get d distance = dc_buf d ! ?from" using Suc.prems(1) by (simp add: dict_get_def)
  have "dict_copy distance n ?d = dict_move (dc_pos ?d - distance - 1) n ?d" by (rule Suc.IH) (use Suc.prems in simp_all)
  moreover have "dc_pos ?d - distance - 1 = ?from + 1" using Suc.prems(1) by simp
  moreover have "dict_move (?from + 1) n ?d = dict_move ?from (Suc n) d"
    unfolding g
  proof (rule dict_move_Suc)
    show "?from + Suc n \<le> dc_pos d \<or> dc_pos d \<le> ?from" by (rule disjI1) (use Suc.prems in linarith)
  qed (use Suc.prems in linarith)+
  ultimately show ?case by simp
qed

lemma dict_copy_far:
  "dc_pos d \<le> distance \<Longrightarrow> distance < dc_size d \<Longrightarrow> length (dc_buf d) = dc_size d \<Longrightarrow> dc_pos d + dc_size d - distance - 1 + n \<le> dc_size d \<Longrightarrow>
   dc_pos d + n \<le> dc_size d \<Longrightarrow> dict_copy distance n d = dict_move (dc_pos d + dc_size d - distance - 1) n d"
proof (induction n arbitrary: d)
  case 0
  then show ?case by (simp add: dict_move_def)
next
  case (Suc n)
  let ?from = "dc_pos d + dc_size d - distance - 1" and ?d = "d\<lparr>dc_buf := (dc_buf d)[dc_pos d := dict_get d distance], dc_pos := dc_pos d + 1\<rparr>"
  have g: "dict_get d distance = dc_buf d ! ?from" using Suc.prems(1) by (simp add: dict_get_def)
  have "dict_copy distance n ?d = dict_move (?from + 1) n ?d"
  proof (cases "n = 0")
    case True
    then show ?thesis by (simp add: dict_move_def)
  next
    case False
    have "dict_copy distance n ?d = dict_move (dc_pos ?d + dc_size ?d - distance - 1) n ?d"
      by (rule Suc.IH) (use Suc.prems False in simp_all)
    moreover have "dc_pos ?d + dc_size ?d - distance - 1 = ?from + 1" using Suc.prems(1,2) by simp
    ultimately show ?thesis by simp
  qed
  moreover have "dict_move (?from + 1) n ?d = dict_move ?from (Suc n) d"
    unfolding g
  proof (rule dict_move_Suc)
    show "?from + Suc n \<le> dc_pos d \<or> dc_pos d \<le> ?from" by (rule disjI2) (use Suc.prems in linarith)
  qed (use Suc.prems in linarith)+
  ultimately show ?case by simp
qed

text \<open>All of them write what the copy byte by byte writes.\<close>

lemma dict_copy_full:
  "dict_copy distance n (d\<lparr>dc_full := f\<rparr>) = (dict_copy distance n d)\<lparr>dc_full := f\<rparr>"
proof (induction n arbitrary: d)
  case (Suc n)
  have g: "dict_get (d\<lparr>dc_full := f\<rparr>) distance = dict_get d distance" by (simp add: dict_get_def)
  have e: "d\<lparr>dc_full := f, dc_buf := b, dc_pos := p\<rparr> = d\<lparr>dc_buf := b, dc_pos := p, dc_full := f\<rparr>" for b p by (cases d) simp
  show ?case using Suc [of "d\<lparr>dc_buf := (dc_buf d)[dc_pos d := dict_get d distance], dc_pos := dc_pos d + 1\<rparr>"]
    by (simp add: g e)
qed simp

lemma dict_copied_copy:
  "dict_copied distance n d = (dict_copy distance n d)\<lparr>dc_full := (if n = 0 then dc_full d else max (dc_full d) (dc_pos d + n))\<rparr>"
proof (induction n arbitrary: d)
  case (Suc n)
  let ?d = "d\<lparr>dc_buf := (dc_buf d)[dc_pos d := dict_get d distance], dc_pos := dc_pos d + 1\<rparr>"
  have "dict_byte (dict_get d distance) d = ?d\<lparr>dc_full := max (dc_full d) (dc_pos d + 1)\<rparr>" by (simp add: dict_byte_def)
  then show ?case by (simp add: Suc dict_copy_full max_def)
qed simp

lemma dict_repeat_ok:
  assumes d: "dict_ok d h" and dist: "distance < length h" "distance < dc_size d" and limit: "dc_pos d \<le> dc_limit d" "dc_limit d \<le> dc_size d"
    and n_def: "n = min (dc_limit d - dc_pos d) len"
  shows "dict_repeat d distance len = (len - n \<noteq> 0, dict_copied distance n d, len - n)"
proof -
  have ok: "length (dc_buf d) = dc_size d" "dc_full d = min (length h) (dc_size d)" "length h < dc_size d \<Longrightarrow> dc_pos d = length h"
    using d by (simp_all add: dict_ok_def)
  have pn: "dc_pos d + n \<le> dc_size d" using limit by (simp add: n_def)
  have pf: "dc_pos d \<le> dc_full d" using ok(2,3) limit by (cases "length h < dc_size d") simp_all
  let ?copy = "if distance < n then dict_copy distance n d
     else if distance < dc_pos d then dict_move (dc_pos d - distance - 1) n d
     else let copy_pos = dc_pos d + dc_size d - distance - 1; copy_size = dc_size d - copy_pos
          in if copy_size < n then dict_move 0 (n - copy_size) (dict_move copy_pos copy_size d) else dict_move copy_pos n d"
  have copy: "?copy = dict_copy distance n d"
  proof (cases "distance < n \<or> distance < dc_pos d")
    case True
    then show ?thesis using dict_copy_near [of distance d n] pn ok(1) by auto
  next
    case False
    define copy_pos copy_size where "copy_pos = dc_pos d + dc_size d - distance - 1" and "copy_size = dc_size d - copy_pos"
    have far: "dict_copy distance m d = dict_move copy_pos m d" if "m \<le> copy_size" "dc_pos d + m \<le> dc_size d" for m
      unfolding copy_pos_def using False dist(2) ok(1) that by (intro dict_copy_far) (unfold copy_size_def copy_pos_def, linarith+)
    have nf: "\<not> distance < n" "\<not> distance < dc_pos d" using False by simp_all
    have u: "?copy = (if copy_size < n then dict_move 0 (n - copy_size) (dict_move copy_pos copy_size d) else dict_move copy_pos n d)"
      unfolding copy_size_def copy_pos_def Let_def if_not_P [OF nf(1)] if_not_P [OF nf(2)] by (rule refl)
    show ?thesis
    proof (cases "copy_size < n")
      case True
      let ?d = "dict_copy distance copy_size d"
      have pos: "dc_pos ?d = distance + 1" using False dist(2) by (simp add: copy_size_def copy_pos_def)
      have "dict_copy distance n d = dict_copy distance (n - copy_size) ?d"
        using True dict_copy_append [of distance copy_size "n - copy_size" d] by simp
      also have "\<dots> = dict_move 0 (n - copy_size) ?d"
      proof -
        have "n - copy_size \<le> distance + 1" using False by linarith
        moreover have "dc_pos ?d + (n - copy_size) \<le> length (dc_buf ?d)" using pn ok(1) True by simp
        ultimately show ?thesis using dict_copy_near [of distance ?d "n - copy_size"] pos by simp
      qed
      finally show ?thesis unfolding u using True far [of copy_size] pn by simp
    next
      case False': False
      then show ?thesis unfolding u using far [of n] pn by simp
    qed
  qed
  have "dict_repeat d distance len = (let e = ?copy in (len - n \<noteq> 0, if dc_full e < dc_pos e then e\<lparr>dc_full := dc_pos e\<rparr> else e, len - n))"
    unfolding dict_repeat_def n_def Let_def by simp
  then show ?thesis using pf unfolding copy by (auto simp: dict_copied_copy max_def Let_def)
qed

end
