(* ===== verification/Lzma_Common.thy ===== *)
theory Lzma_Common
  imports Range_Coder Filters
begin

unbundle bit_operations_syntax

text \<open>
  What the LZMA encoder and the LZMA decoder share: lzma\_common.h of src/liblzma/src/liblzma/lzma. Both keep the same arrays of
  probabilities in their structures; \<open>prob_array\<close> names the arrays, with an index for every dimension but the last.
\<close>

subsection \<open>The arrays of probabilities\<close>

datatype len_array = L_choice | L_choice2 | L_low nat | L_mid nat | L_high

datatype prob_array =
    P_literal nat
  | P_is_match nat
  | P_is_rep
  | P_is_rep0
  | P_is_rep1
  | P_is_rep2
  | P_is_rep0_long nat
  | P_dist_slot nat
  | P_dist_special
  | P_dist_align
  | P_match_len len_array
  | P_rep_len len_array

type_synonym prob = "prob_array pointer"
type_synonym probs = "prob_array memory"

subsection \<open>State\<close>

text \<open>The code computes with the constants of the enumeration, so a state is its number.\<close>

type_synonym lzma_lzma_state = nat

abbreviation (input) STATE_LIT_LIT :: lzma_lzma_state where "STATE_LIT_LIT \<equiv> 0"
abbreviation (input) STATE_MATCH_LIT_LIT :: lzma_lzma_state where "STATE_MATCH_LIT_LIT \<equiv> 1"
abbreviation (input) STATE_REP_LIT_LIT :: lzma_lzma_state where "STATE_REP_LIT_LIT \<equiv> 2"
abbreviation (input) STATE_SHORTREP_LIT_LIT :: lzma_lzma_state where "STATE_SHORTREP_LIT_LIT \<equiv> 3"
abbreviation (input) STATE_MATCH_LIT :: lzma_lzma_state where "STATE_MATCH_LIT \<equiv> 4"
abbreviation (input) STATE_REP_LIT :: lzma_lzma_state where "STATE_REP_LIT \<equiv> 5"
abbreviation (input) STATE_SHORTREP_LIT :: lzma_lzma_state where "STATE_SHORTREP_LIT \<equiv> 6"
abbreviation (input) STATE_LIT_MATCH :: lzma_lzma_state where "STATE_LIT_MATCH \<equiv> 7"
abbreviation (input) STATE_LIT_LONGREP :: lzma_lzma_state where "STATE_LIT_LONGREP \<equiv> 8"
abbreviation (input) STATE_LIT_SHORTREP :: lzma_lzma_state where "STATE_LIT_SHORTREP \<equiv> 9"
abbreviation (input) STATE_NONLIT_MATCH :: lzma_lzma_state where "STATE_NONLIT_MATCH \<equiv> 10"
abbreviation (input) STATE_NONLIT_REP :: lzma_lzma_state where "STATE_NONLIT_REP \<equiv> 11"

abbreviation (input) STATES :: nat where "STATES \<equiv> 12"
abbreviation (input) LIT_STATES :: nat where "LIT_STATES \<equiv> 7"

definition update_literal :: "lzma_lzma_state \<Rightarrow> lzma_lzma_state" where
  "update_literal state =
     (if state \<le> STATE_SHORTREP_LIT_LIT then STATE_LIT_LIT
      else if state \<le> STATE_LIT_SHORTREP then state - 3 else state - 6)"

definition update_match :: "lzma_lzma_state \<Rightarrow> lzma_lzma_state" where
  "update_match state = (if state < LIT_STATES then STATE_LIT_MATCH else STATE_NONLIT_MATCH)"

definition update_long_rep :: "lzma_lzma_state \<Rightarrow> lzma_lzma_state" where
  "update_long_rep state = (if state < LIT_STATES then STATE_LIT_LONGREP else STATE_NONLIT_REP)"

definition update_short_rep :: "lzma_lzma_state \<Rightarrow> lzma_lzma_state" where
  "update_short_rep state = (if state < LIT_STATES then STATE_LIT_SHORTREP else STATE_NONLIT_REP)"

definition is_literal_state :: "lzma_lzma_state \<Rightarrow> bool" where
  "is_literal_state state \<longleftrightarrow> state < LIT_STATES"

subsection \<open>Literals, lengths and distances\<close>

abbreviation (input) LITERAL_CODER_SIZE :: nat where "LITERAL_CODER_SIZE \<equiv> 0x300"

definition literal_subcoder :: "u32 \<Rightarrow> u32 \<Rightarrow> u32 \<Rightarrow> byte \<Rightarrow> prob" where
  "literal_subcoder lc_bits lp_mask pos prev_byte =
     (P_literal (unat (push_bit (unat lc_bits) (pos AND lp_mask) + ucast (drop_bit (8 - unat lc_bits) prev_byte))), 0)"

definition literal_init :: "u32 \<Rightarrow> u32 \<Rightarrow> probs \<Rightarrow> probs" where
  "literal_init lc_bits lp_bits probs =
     fold (\<lambda>i probs. fold (\<lambda>j probs. probs((P_literal i, int j) := bit_reset)) [0..<LITERAL_CODER_SIZE] probs)
       [0..<unat (push_bit (unat (lc_bits + lp_bits)) (1 :: u32))] probs"

abbreviation (input) MATCH_LEN_MIN :: nat where "MATCH_LEN_MIN \<equiv> 2"
abbreviation (input) LEN_LOW_BITS :: nat where "LEN_LOW_BITS \<equiv> 3"
abbreviation (input) LEN_LOW_SYMBOLS :: nat where "LEN_LOW_SYMBOLS \<equiv> 2 ^ LEN_LOW_BITS"
abbreviation (input) LEN_MID_BITS :: nat where "LEN_MID_BITS \<equiv> 3"
abbreviation (input) LEN_MID_SYMBOLS :: nat where "LEN_MID_SYMBOLS \<equiv> 2 ^ LEN_MID_BITS"
abbreviation (input) LEN_HIGH_BITS :: nat where "LEN_HIGH_BITS \<equiv> 8"
abbreviation (input) LEN_HIGH_SYMBOLS :: nat where "LEN_HIGH_SYMBOLS \<equiv> 2 ^ LEN_HIGH_BITS"
abbreviation (input) LEN_SYMBOLS :: nat where "LEN_SYMBOLS \<equiv> LEN_LOW_SYMBOLS + LEN_MID_SYMBOLS + LEN_HIGH_SYMBOLS"
abbreviation (input) MATCH_LEN_MAX :: nat where "MATCH_LEN_MAX \<equiv> MATCH_LEN_MIN + LEN_SYMBOLS - 1"

abbreviation (input) DIST_STATES :: nat where "DIST_STATES \<equiv> 4"
abbreviation (input) DIST_SLOT_BITS :: nat where "DIST_SLOT_BITS \<equiv> 6"
abbreviation (input) DIST_SLOTS :: nat where "DIST_SLOTS \<equiv> 2 ^ DIST_SLOT_BITS"
abbreviation (input) DIST_MODEL_START :: nat where "DIST_MODEL_START \<equiv> 4"
abbreviation (input) DIST_MODEL_END :: nat where "DIST_MODEL_END \<equiv> 14"
abbreviation (input) FULL_DISTANCES :: nat where "FULL_DISTANCES \<equiv> 2 ^ (DIST_MODEL_END div 2)"
abbreviation (input) ALIGN_BITS :: nat where "ALIGN_BITS \<equiv> 4"
abbreviation (input) REPS :: nat where "REPS \<equiv> 4"

definition get_dist_state :: "u32 \<Rightarrow> u32" where
  "get_dist_state len = (if len < 4 + 2 then len - 2 else 4 - 1)"

subsection \<open>The reset of the probabilities\<close>

text \<open>\<open>length_encoder_reset\<close> without its prices; the decoder's reset does the same.\<close>

definition length_reset :: "(len_array \<Rightarrow> prob_array) \<Rightarrow> nat \<Rightarrow> probs \<Rightarrow> probs" where
  "length_reset arr num_pos_states probs =
     (let probs = probs((arr L_choice, 0) := bit_reset, (arr L_choice2, 0) := bit_reset);
          probs = fold (\<lambda>pos_state probs. bittree_reset (arr (L_mid pos_state), 0) LEN_MID_BITS
                                            (bittree_reset (arr (L_low pos_state), 0) LEN_LOW_BITS probs)) [0..<num_pos_states] probs
      in bittree_reset (arr L_high, 0) LEN_HIGH_BITS probs)"

definition states_reset :: "u32 \<Rightarrow> probs \<Rightarrow> probs" where
  "states_reset pos_mask probs =
     fold (\<lambda>i probs.
       (fold (\<lambda>j probs. probs((P_is_match i, int j) := bit_reset, (P_is_rep0_long i, int j) := bit_reset)) [0..<Suc (unat pos_mask)] probs)
         ((P_is_rep, int i) := bit_reset, (P_is_rep0, int i) := bit_reset, (P_is_rep1, int i) := bit_reset, (P_is_rep2, int i) := bit_reset))
       [0..<STATES] probs"

definition dist_reset :: "probs \<Rightarrow> probs" where
  "dist_reset probs =
     (let probs = fold (\<lambda>i. bittree_reset (P_dist_slot i, 0) DIST_SLOT_BITS) [0..<DIST_STATES] probs;
          probs = fold (\<lambda>i probs. probs((P_dist_special, int i) := bit_reset)) [0..<FULL_DISTANCES - DIST_MODEL_END] probs
      in bittree_reset (P_dist_align, 0) ALIGN_BITS probs)"

text \<open>The transition table of the decoder.\<close>

definition next_state :: "lzma_lzma_state list" where
  "next_state = [STATE_LIT_LIT, STATE_LIT_LIT, STATE_LIT_LIT, STATE_LIT_LIT, STATE_MATCH_LIT_LIT, STATE_REP_LIT_LIT, STATE_SHORTREP_LIT_LIT,
     STATE_MATCH_LIT, STATE_REP_LIT, STATE_SHORTREP_LIT, STATE_MATCH_LIT, STATE_REP_LIT]"

lemma all_states: "state < STATES \<Longrightarrow> state \<in> set [0..<12]"
  by simp

lemma next_state_update_literal: "state < STATES \<Longrightarrow> next_state ! state = update_literal state"
  by (drule all_states, simp add: upt_rec) (elim disjE; simp add: next_state_def update_literal_def)

lemma state_bounds:
  "state < STATES \<Longrightarrow> update_literal state < STATES" "update_match state < STATES" "update_long_rep state < STATES" "update_short_rep state < STATES"
  by (auto simp: update_literal_def update_match_def update_long_rep_def update_short_rep_def)

end
