(* ===== verification/Lzma_Encoder.thy ===== *)
theory Lzma_Encoder
  imports Lzma_Common Price Fastpos
begin

unbundle bit_operations_syntax

text \<open>
  The symbols of the LZMA encoder: lzma\_encoder.c of src/liblzma/src/liblzma/lzma, with the parts of lzma\_encoder\_private.h and
  lz\_encoder.h that they use. A symbol is a literal (\<open>back\<close> is \<open>UINT32_MAX\<close>), a repeated match (\<open>back < REPS\<close>) or a
  match. Which symbols the encoder takes is up to the match finder and to \<open>lzma_lzma_optimum_fast\<close> or \<open>lzma_lzma_optimum_normal\<close>;
  here the results of their calls are an argument, a list of choices, and the theorems of the round trip hold for all choices that describe the data.
\<close>

subsection \<open>lz\_encoder.h\<close>

text \<open>The window of \<open>lzma_mf\<close>, as far as the encoding of symbols reads it; the fields of the match finder are left out.\<close>

record lzma_mf =
  mf_buffer :: "byte list"
  mf_read_pos :: u32
  mf_read_ahead :: u32
  mf_read_limit :: u32
  mf_action :: lzma_action

definition mf_position :: "lzma_mf \<Rightarrow> u32" where
  "mf_position mf = mf_read_pos mf - mf_read_ahead mf"

text \<open>The match finder's \<open>skip\<close> advances \<open>read_pos\<close>; its hash tables do not matter for the encoding.\<close>

definition mf_skip :: "lzma_mf \<Rightarrow> u32 \<Rightarrow> lzma_mf" where
  "mf_skip mf amount =
     (if amount \<noteq> 0 then mf\<lparr>mf_read_pos := mf_read_pos mf + amount, mf_read_ahead := mf_read_ahead mf + amount\<rparr> else mf)"

subsection \<open>lzma\_encoder\_private.h\<close>

text \<open>The fields of \<open>lzma_length_encoder\<close> that are not probabilities.\<close>

record len_prices =
  lp_prices :: "nat \<Rightarrow> nat \<Rightarrow> u32"
  lp_table_size :: u32
  lp_counters :: "nat \<Rightarrow> u32"

text \<open>The encoder without the arrays that only the choosing functions use.\<close>

record lzma_encoder =
  le_rc :: "prob_array range_encoder"
  le_state :: lzma_lzma_state
  le_reps :: "u32 list"
  le_fast_mode :: bool
  le_is_initialized :: bool
  le_is_flushed :: bool
  le_pos_mask :: u32
  le_literal_context_bits :: u32
  le_literal_pos_mask :: u32
  le_probs :: probs
  le_match_len_prices :: len_prices
  le_rep_len_prices :: len_prices
  le_dist_table_size :: u32
  le_match_price_count :: u32
  le_align_price_count :: u32

subsection \<open>lzma\_encoder.c\<close>

text \<open>The loop runs until \<open>symbol\<close> has left its 16 bits; that takes 8 rounds.\<close>

primrec literal_matched_loop :: "nat \<Rightarrow> prob \<Rightarrow> u32 \<Rightarrow> u32 \<Rightarrow> u32 \<Rightarrow> prob_array range_encoder \<Rightarrow> prob_array range_encoder" where
  "literal_matched_loop 0 subcoder offset match_byte symbol rc = rc"
| "literal_matched_loop (Suc fuel) subcoder offset match_byte symbol rc =
     (let match_byte = push_bit 1 match_byte;
          match_bit = match_byte AND offset;
          subcoder_index = offset + match_bit + drop_bit 8 symbol;
          b = drop_bit 7 symbol AND 1;
          rc = rc_bit (elem subcoder (unat subcoder_index)) b rc;
          symbol = push_bit 1 symbol;
          offset = offset AND NOT (match_byte XOR symbol)
      in if symbol < push_bit 16 1 then literal_matched_loop fuel subcoder offset match_byte symbol rc else rc)"

definition literal_matched :: "prob \<Rightarrow> u32 \<Rightarrow> u32 \<Rightarrow> prob_array range_encoder \<Rightarrow> prob_array range_encoder" where
  "literal_matched subcoder match_byte symbol rc = literal_matched_loop 8 subcoder 0x100 match_byte (symbol + push_bit 8 1) rc"

definition literal :: "lzma_mf \<Rightarrow> u32 \<Rightarrow> lzma_encoder \<Rightarrow> lzma_encoder" where
  "literal mf position coder =
     (let cur_byte = mf_buffer mf ! unat (mf_read_pos mf - mf_read_ahead mf);
          subcoder = literal_subcoder (le_literal_context_bits coder) (le_literal_pos_mask coder) position
                       (mf_buffer mf ! unat (mf_read_pos mf - mf_read_ahead mf - 1));
          coder =
            (if is_literal_state (le_state coder) then
               coder\<lparr>le_rc := rc_bittree subcoder 8 (ucast cur_byte) (le_rc coder)\<rparr>
             else
               let match_byte = mf_buffer mf ! unat (mf_read_pos mf - le_reps coder ! 0 - 1 - mf_read_ahead mf)
               in coder\<lparr>le_rc := literal_matched subcoder (ucast match_byte) (ucast cur_byte) (le_rc coder)\<rparr>)
      in coder\<lparr>le_state := update_literal (le_state coder)\<rparr>)"

definition length_update_prices :: "(len_array \<Rightarrow> prob_array) \<Rightarrow> probs \<Rightarrow> nat \<Rightarrow> len_prices \<Rightarrow> len_prices" where
  "length_update_prices arr probs pos_state lps =
     (let table_size = lp_table_size lps;
          a0 = rc_bit_0_price (probs (arr L_choice, 0));
          a1 = rc_bit_1_price (probs (arr L_choice, 0));
          b0 = a1 + rc_bit_0_price (probs (arr L_choice2, 0));
          b1 = a1 + rc_bit_1_price (probs (arr L_choice2, 0));
          price = (\<lambda>i. if i < LEN_LOW_SYMBOLS then a0 + rc_bittree_price probs (arr (L_low pos_state), 0) LEN_LOW_BITS (word_of_nat i)
                        else if i < LEN_LOW_SYMBOLS + LEN_MID_SYMBOLS
                        then b0 + rc_bittree_price probs (arr (L_mid pos_state), 0) LEN_MID_BITS (word_of_nat (i - LEN_LOW_SYMBOLS))
                        else b1 + rc_bittree_price probs (arr L_high, 0) LEN_HIGH_BITS (word_of_nat (i - LEN_LOW_SYMBOLS - LEN_MID_SYMBOLS)))
      in lps\<lparr>lp_counters := (lp_counters lps)(pos_state := table_size),
            lp_prices := (lp_prices lps)(pos_state := fold (\<lambda>i prices. prices(i := price i)) [0..<unat table_size] (lp_prices lps pos_state))\<rparr>)"

text \<open>\<open>length\<close> in its two parts: the bits and the prices.\<close>

definition length_bits :: "(len_array \<Rightarrow> prob_array) \<Rightarrow> nat \<Rightarrow> u32 \<Rightarrow> prob_array range_encoder \<Rightarrow> prob_array range_encoder" where
  "length_bits arr pos_state len rc =
     (let len = len - 2
      in if len < 8 then rc_bittree (arr (L_low pos_state), 0) LEN_LOW_BITS len (rc_bit (arr L_choice, 0) 0 rc)
         else
           let rc = rc_bit (arr L_choice, 0) 1 rc; len = len - 8
           in if len < 8 then rc_bittree (arr (L_mid pos_state), 0) LEN_MID_BITS len (rc_bit (arr L_choice2, 0) 0 rc)
              else rc_bittree (arr L_high, 0) LEN_HIGH_BITS (len - 8) (rc_bit (arr L_choice2, 0) 1 rc))"

definition length_count :: "(len_array \<Rightarrow> prob_array) \<Rightarrow> probs \<Rightarrow> nat \<Rightarrow> bool \<Rightarrow> len_prices \<Rightarrow> len_prices" where
  "length_count arr probs pos_state fast_mode lps =
     (if \<not> fast_mode then
        let lps = lps\<lparr>lp_counters := (lp_counters lps)(pos_state := lp_counters lps pos_state - 1)\<rparr>
        in if lp_counters lps pos_state = 0 then length_update_prices arr probs pos_state lps else lps
      else lps)"

definition match_distance :: "u32 \<Rightarrow> u32 \<Rightarrow> prob_array range_encoder \<Rightarrow> prob_array range_encoder" where
  "match_distance distance len rc =
     (let dist_slot = get_dist_slot distance;
          dist_state = get_dist_state len;
          rc = rc_bittree (P_dist_slot (unat dist_state), 0) DIST_SLOT_BITS dist_slot rc
      in if dist_slot \<ge> 4 then
           let footer_bits = drop_bit 1 dist_slot - 1;
               base = push_bit (unat footer_bits) (2 OR (dist_slot AND 1));
               dist_reduced = distance - base
           in if dist_slot < 14 then
                rc_bittree_reverse (P_dist_special, int (unat base) - int (unat dist_slot) - 1) (unat footer_bits) dist_reduced rc
              else
                rc_bittree_reverse (P_dist_align, 0) ALIGN_BITS (dist_reduced AND 15)
                  (rc_direct (drop_bit ALIGN_BITS dist_reduced) (unat (footer_bits - 4)) rc)
         else rc)"

definition match :: "nat \<Rightarrow> u32 \<Rightarrow> u32 \<Rightarrow> lzma_encoder \<Rightarrow> lzma_encoder" where
  "match pos_state distance len coder =
     (let coder = coder\<lparr>le_state := update_match (le_state coder)\<rparr>;
          coder = coder\<lparr>le_rc := length_bits P_match_len pos_state len (le_rc coder),
                        le_match_len_prices := length_count P_match_len (le_probs coder) pos_state (le_fast_mode coder) (le_match_len_prices coder)\<rparr>;
          coder = coder\<lparr>le_rc := match_distance distance len (le_rc coder),
                        le_align_price_count :=
                          (if get_dist_slot distance \<ge> 14 then le_align_price_count coder + 1 else le_align_price_count coder)\<rparr>;
          reps = le_reps coder
      in coder\<lparr>le_reps := [distance, reps ! 0, reps ! 1, reps ! 2], le_match_price_count := le_match_price_count coder + 1\<rparr>)"

definition rep_match :: "nat \<Rightarrow> u32 \<Rightarrow> u32 \<Rightarrow> lzma_encoder \<Rightarrow> lzma_encoder" where
  "rep_match pos_state rep len coder =
     (let state = le_state coder;
          coder =
            (if rep = 0 then
               coder\<lparr>le_rc := rc_bit (P_is_rep0_long state, int pos_state) (if len \<noteq> 1 then 1 else 0)
                               (rc_bit (P_is_rep0, int state) 0 (le_rc coder))\<rparr>
             else
               let distance = le_reps coder ! unat rep;
                   coder = coder\<lparr>le_rc := rc_bit (P_is_rep0, int state) 1 (le_rc coder)\<rparr>;
                   coder =
                     (if rep = 1 then coder\<lparr>le_rc := rc_bit (P_is_rep1, int state) 0 (le_rc coder)\<rparr>
                      else
                        let coder = coder\<lparr>le_rc := rc_bit (P_is_rep2, int state) (rep - 2) (rc_bit (P_is_rep1, int state) 1 (le_rc coder))\<rparr>;
                            coder = (if rep = 3 then coder\<lparr>le_reps := (le_reps coder)[3 := le_reps coder ! 2]\<rparr> else coder)
                        in coder\<lparr>le_reps := (le_reps coder)[2 := le_reps coder ! 1]\<rparr>)
               in coder\<lparr>le_reps := (le_reps coder)[1 := le_reps coder ! 0, 0 := distance]\<rparr>)
      in if len = 1 then coder\<lparr>le_state := update_short_rep (le_state coder)\<rparr>
         else coder\<lparr>le_rc := length_bits P_rep_len pos_state len (le_rc coder),
                    le_rep_len_prices := length_count P_rep_len (le_probs coder) pos_state (le_fast_mode coder) (le_rep_len_prices coder),
                    le_state := update_long_rep (le_state coder)\<rparr>)"

definition encode_symbol :: "u32 \<Rightarrow> u32 \<Rightarrow> u32 \<Rightarrow> lzma_encoder \<times> lzma_mf \<Rightarrow> lzma_encoder \<times> lzma_mf" where
  "encode_symbol back len position s =
     (let (coder, mf) = s;
          pos_state = unat (position AND le_pos_mask coder);
          is_match = (P_is_match (le_state coder), int pos_state);
          coder =
            (if back = - 1 then literal mf position (coder\<lparr>le_rc := rc_bit is_match 0 (le_rc coder)\<rparr>)
             else
               let coder = coder\<lparr>le_rc := rc_bit is_match 1 (le_rc coder)\<rparr>
               in if back < 4 then rep_match pos_state back len (coder\<lparr>le_rc := rc_bit (P_is_rep, int (le_state coder)) 1 (le_rc coder)\<rparr>)
                  else match pos_state (back - 4) len (coder\<lparr>le_rc := rc_bit (P_is_rep, int (le_state coder)) 0 (le_rc coder)\<rparr>))
      in (coder, mf\<lparr>mf_read_ahead := mf_read_ahead mf - len\<rparr>))"

text \<open>The initialization, with the first byte when there is one.\<close>

definition encode_init_byte :: "lzma_encoder \<times> lzma_mf \<Rightarrow> lzma_encoder \<times> lzma_mf" where
  "encode_init_byte s =
     (let (coder, mf) = s;
          mf = (mf_skip mf 1)\<lparr>mf_read_ahead := 0\<rparr>
      in (coder\<lparr>le_rc := rc_bittree (P_literal 0, 0) 8 (ucast (mf_buffer mf ! 0)) (rc_bit (P_is_match 0, 0) 0 (le_rc coder))\<rparr>, mf))"

definition encode_init :: "lzma_encoder \<times> lzma_mf \<Rightarrow> bool \<times> lzma_encoder \<times> lzma_mf" where
  "encode_init s =
     (let (coder, mf) = s
      in if mf_read_pos mf = mf_read_limit mf \<and> mf_action mf = LZMA_RUN then (False, coder, mf)
         else let (coder, mf) = (if mf_read_pos mf = mf_read_limit mf then (coder, mf) else encode_init_byte (coder, mf))
              in (True, coder\<lparr>le_is_initialized := True\<rparr>, mf))"

definition encode_eopm :: "u32 \<Rightarrow> lzma_encoder \<Rightarrow> lzma_encoder" where
  "encode_eopm position coder =
     (let pos_state = unat (position AND le_pos_mask coder);
          coder = coder\<lparr>le_rc := rc_bit (P_is_rep, int (le_state coder)) 0
                                  (rc_bit (P_is_match (le_state coder), int pos_state) 1 (le_rc coder))\<rparr>
      in match pos_state (- 1) 2 coder)"

text \<open>The reset; the price tables of the normal mode are computed by \<open>length_encoder_reset\<close>.\<close>

definition length_prices_reset :: "(len_array \<Rightarrow> prob_array) \<Rightarrow> probs \<Rightarrow> nat \<Rightarrow> bool \<Rightarrow> len_prices \<Rightarrow> len_prices" where
  "length_prices_reset arr probs num_pos_states fast_mode lps =
     (if \<not> fast_mode then fold (length_update_prices arr probs) [0..<num_pos_states] lps else lps)"

definition lzma_lzma_encoder_reset :: "lzma_options_lzma \<Rightarrow> lzma_encoder \<Rightarrow> lzma_ret \<times> lzma_encoder" where
  "lzma_lzma_encoder_reset options coder =
     (if \<not> is_options_valid options then (LZMA_OPTIONS_ERROR, coder)
      else
        let pos_mask = push_bit (unat (pb options)) 1 - 1;
            num_pos_states = unat (push_bit (unat (pb options)) (1 :: u32));
            probs = literal_init (lc options) (lp options) (le_probs coder);
            probs = dist_reset (states_reset pos_mask probs);
            probs = length_reset P_match_len num_pos_states probs;
            match_len_prices = length_prices_reset P_match_len probs num_pos_states (le_fast_mode coder) (le_match_len_prices coder);
            probs = length_reset P_rep_len num_pos_states probs;
            rep_len_prices = length_prices_reset P_rep_len probs num_pos_states (le_fast_mode coder) (le_rep_len_prices coder)
        in (LZMA_OK, coder\<lparr>le_pos_mask := pos_mask, le_literal_context_bits := lc options,
              le_literal_pos_mask := push_bit (unat (lp options)) 1 - 1, le_rc := rc_reset (le_rc coder), le_state := STATE_LIT_LIT,
              le_reps := replicate REPS 0, le_probs := probs, le_match_len_prices := match_len_prices, le_rep_len_prices := rep_len_prices,
              le_match_price_count := (- 1) div 2, le_align_price_count := (- 1) div 2\<rparr>))"

text \<open>\<open>lzma_lzma_encoder_create\<close> for a coder that has been allocated. The loop has 32 rounds at most as long as C
  defines it: with a dictionary of more than \<open>2 ^ 31\<close> bytes, which only the LZ encoder refuses later, the code would shift by 32.\<close>

primrec log_size_loop :: "nat \<Rightarrow> u32 \<Rightarrow> nat \<Rightarrow> nat" where
  "log_size_loop 0 wanted log_size = log_size"
| "log_size_loop (Suc fuel) wanted log_size =
     (if push_bit log_size (1 :: u32) < wanted then log_size_loop fuel wanted (log_size + 1) else log_size)"

definition lzma_lzma_encoder_create :: "lzma_options_lzma \<Rightarrow> lzma_encoder \<Rightarrow> lzma_ret \<times> lzma_encoder" where
  "lzma_lzma_encoder_create options coder =
     (if lzma_mode options \<noteq> 1 \<and> lzma_mode options \<noteq> 2 then (LZMA_OPTIONS_ERROR, coder)
      else
        let coder =
              (if lzma_mode options = 1 then coder\<lparr>le_fast_mode := True\<rparr>
               else coder\<lparr>le_fast_mode := False,
                 le_dist_table_size := word_of_nat (log_size_loop 32 (dict_size options) 0 * 2),
                 le_match_len_prices := (le_match_len_prices coder)\<lparr>lp_table_size := nice_len options + 1 - 2\<rparr>,
                 le_rep_len_prices := (le_rep_len_prices coder)\<lparr>lp_table_size := nice_len options + 1 - 2\<rparr>\<rparr>);
            coder = coder\<lparr>le_is_initialized := (preset_dict_size options > 0), le_is_flushed := False\<rparr>
        in lzma_lzma_encoder_reset options coder)"

subsection \<open>The encoding loop\<close>

abbreviation (input) LOOP_INPUT_MAX :: u64 where "LOOP_INPUT_MAX \<equiv> 4097"
abbreviation (input) LZMA2_CHUNK_MAX :: u64 where "LZMA2_CHUNK_MAX \<equiv> 65536"

text \<open>One round of the loop up to the choice: the pending symbols are encoded, and the loop goes on, ends or the function returns.\<close>

datatype encode_verdict = Choose | Break | Return lzma_ret

definition encode_pending ::
  "nat \<Rightarrow> u32 \<Rightarrow> lzma_encoder \<times> lzma_mf \<Rightarrow> byte list \<Rightarrow> encode_verdict \<times> lzma_encoder \<times> byte list" where
  "encode_pending out_size limit s out =
     (let (coder, mf) = s;
          (full, rc, probs, out) = rc_encode out_size (le_rc coder) (le_probs coder) out;
          coder = coder\<lparr>le_rc := rc, le_probs := probs\<rparr>
      in (if full then Return LZMA_OK
          else if limit \<noteq> - 1 \<and> (mf_read_pos mf - mf_read_ahead mf \<ge> limit
                 \<or> word_of_nat (length out) + rc_pending rc \<ge> LZMA2_CHUNK_MAX - LOOP_INPUT_MAX) then Break
          else if mf_read_pos mf \<ge> mf_read_limit mf then
            if mf_action mf = LZMA_RUN then Return LZMA_OK else if mf_read_ahead mf = 0 then Break else Choose
          else Choose, coder, out))"

text \<open>The loop. A choice is the number of bytes that the choosing function runs the match finder ahead, with its two results;
  \<open>None\<close> when there are not enough of them.\<close>

type_synonym choice = "u32 \<times> u32 \<times> u32"

primrec lzma_encode_loop ::
  "nat \<Rightarrow> u32 \<Rightarrow> choice list \<Rightarrow> u32 \<Rightarrow> lzma_encoder \<times> lzma_mf \<Rightarrow> byte list
   \<Rightarrow> (encode_verdict \<times> u32 \<times> (lzma_encoder \<times> lzma_mf) \<times> byte list) option" where
  "lzma_encode_loop out_size limit [] position s out =
     (let (verdict, coder, out) = encode_pending out_size limit s out
      in if verdict = Choose then None else Some (verdict, position, (coder, snd s), out))"
| "lzma_encode_loop out_size limit (choice # choices) position s out =
     (let (verdict, coder, out) = encode_pending out_size limit s out
      in if verdict = Choose then
           let (ahead, back, len) = choice;
               s = encode_symbol back len position (coder, mf_skip (snd s) ahead)
           in lzma_encode_loop out_size limit choices (position + len) s out
         else Some (verdict, position, (coder, snd s), out))"

text \<open>What follows the loop: the end marker, without a limit, and the flush.\<close>

definition encode_end :: "nat \<Rightarrow> u32 \<Rightarrow> u32 \<Rightarrow> lzma_encoder \<Rightarrow> byte list \<Rightarrow> lzma_ret \<times> lzma_encoder \<times> byte list" where
  "encode_end out_size limit position coder out =
     (if \<not> le_is_flushed coder then
        let coder = coder\<lparr>le_is_flushed := True\<rparr>;
            coder = (if limit = - 1 then encode_eopm position coder else coder);
            (full, rc, probs, out) = rc_encode out_size (rc_flush (le_rc coder)) (le_probs coder) out;
            coder = coder\<lparr>le_rc := rc, le_probs := probs\<rparr>
        in if full then (LZMA_OK, coder, out) else (LZMA_STREAM_END, coder\<lparr>le_is_flushed := False\<rparr>, out)
      else (LZMA_STREAM_END, coder\<lparr>le_is_flushed := False\<rparr>, out))"

definition lzma_lzma_encode ::
  "nat \<Rightarrow> u32 \<Rightarrow> choice list \<Rightarrow> lzma_encoder \<Rightarrow> lzma_mf \<Rightarrow> byte list \<Rightarrow> (lzma_ret \<times> lzma_encoder \<times> lzma_mf \<times> byte list) option" where
  "lzma_lzma_encode out_size limit choices coder mf out =
     (let (initialized, coder, mf) = (if \<not> le_is_initialized coder then encode_init (coder, mf) else (True, coder, mf))
      in if \<not> initialized then Some (LZMA_OK, coder, mf, out)
         else
           case lzma_encode_loop out_size limit choices (mf_position mf) (coder, mf) out of
             None \<Rightarrow> None
           | Some (verdict, position, (coder, mf), out) \<Rightarrow>
               (case verdict of
                  Return ret \<Rightarrow> Some (ret, coder, mf, out)
                | _ \<Rightarrow> let (ret, coder, out) = encode_end out_size limit position coder out in Some (ret, coder, mf, out)))"

definition lzma_encode ::
  "nat \<Rightarrow> choice list \<Rightarrow> lzma_encoder \<Rightarrow> lzma_mf \<Rightarrow> byte list \<Rightarrow> (lzma_ret \<times> lzma_encoder \<times> lzma_mf \<times> byte list) option" where
  "lzma_encode out_size choices coder mf out =
     (if mf_action mf = LZMA_SYNC_FLUSH then Some (LZMA_OPTIONS_ERROR, coder, mf, out)
      else lzma_lzma_encode out_size (- 1) choices coder mf out)"

end
