(* ===== verification/Lzma_Decoder.thy ===== *)
theory Lzma_Decoder
  imports Lzma_Common Lz_Decoder
begin

unbundle bit_operations_syntax

text \<open>
  The LZMA decoder: lzma\_decoder.c of src/liblzma/src/liblzma/lzma. \<open>lzma_decode\<close> is followed as long as the input
  lasts: where the code leaves its loop in the middle of a symbol because the input is exhausted, the functions give \<open>None\<close> or
  \<open>Need_input\<close>. A full dictionary, on the other hand, interrupts and resumes the loop as in the code, at
  \<open>SEQ_LITERAL_WRITE\<close>, \<open>SEQ_SHORTREP\<close> or \<open>SEQ_COPY\<close>. The unrolled sequences of \<open>rc_bit_case\<close> are loops here, as they
  are with \<open>HAVE_SMALL\<close>.
\<close>

subsection \<open>Trees of bits\<close>

primrec rd_bittree :: "byte list \<Rightarrow> nat \<Rightarrow> nat \<Rightarrow> prob \<Rightarrow> u32 \<Rightarrow> prob_array decoding \<Rightarrow> (u32 \<times> prob_array decoding) option" where
  "rd_bittree inb in_size 0 probs symbol s = Some (symbol, s)"
| "rd_bittree inb in_size (Suc n) probs symbol s =
     do { (symbol, s) \<leftarrow> rc_decode_symbol inb in_size (elem probs (unat symbol)) symbol s;
          rd_bittree inb in_size n probs symbol s }"

text \<open>The reverse trees add the bits to the distance.\<close>

primrec rd_reverse ::
  "byte list \<Rightarrow> nat \<Rightarrow> nat \<Rightarrow> prob \<Rightarrow> u32 \<Rightarrow> nat \<Rightarrow> u32 \<Rightarrow> prob_array decoding \<Rightarrow> (u32 \<times> prob_array decoding) option" where
  "rd_reverse inb in_size 0 probs symbol offset rep0 s = Some (rep0, s)"
| "rd_reverse inb in_size (Suc n) probs symbol offset rep0 s =
     do { (b, s) \<leftarrow> rc_decode_bit inb in_size (elem probs (unat symbol)) s;
          rd_reverse inb in_size n probs (push_bit 1 symbol + of_bool b) (offset + 1) (if b then rep0 + push_bit offset 1 else rep0) s }"

primrec rd_direct :: "byte list \<Rightarrow> nat \<Rightarrow> nat \<Rightarrow> u32 \<Rightarrow> prob_array decoding \<Rightarrow> (u32 \<times> prob_array decoding) option" where
  "rd_direct inb in_size 0 rep0 s = Some (rep0, s)"
| "rd_direct inb in_size (Suc limit) rep0 s =
     do { (rep0, s) \<leftarrow> rc_decode_direct inb in_size rep0 s; rd_direct inb in_size limit rep0 s }"

text \<open>A literal after a match; \<open>len\<close> holds the match byte.\<close>

primrec rd_literal_matched ::
  "byte list \<Rightarrow> nat \<Rightarrow> nat \<Rightarrow> prob \<Rightarrow> u32 \<Rightarrow> u32 \<Rightarrow> u32 \<Rightarrow> prob_array decoding \<Rightarrow> (u32 \<times> prob_array decoding) option" where
  "rd_literal_matched inb in_size 0 probs offset len symbol s = Some (symbol, s)"
| "rd_literal_matched inb in_size (Suc n) probs offset len symbol s =
     (let match_bit = len AND offset; subcoder_index = offset + match_bit + symbol
      in do { (b, s) \<leftarrow> rc_decode_bit inb in_size (elem probs (unat subcoder_index)) s;
              rd_literal_matched inb in_size n probs (if b then offset AND match_bit else offset AND NOT match_bit) (push_bit 1 len)
                (push_bit 1 symbol + of_bool b) s })"

subsection \<open>Lengths and distances\<close>

definition len_decode ::
  "byte list \<Rightarrow> nat \<Rightarrow> (len_array \<Rightarrow> prob_array) \<Rightarrow> nat \<Rightarrow> prob_array decoding \<Rightarrow> (u32 \<times> prob_array decoding) option" where
  "len_decode inb in_size ld pos_state s =
     do { (choice, s) \<leftarrow> rc_decode_bit inb in_size (ld L_choice, 0) s;
          if \<not> choice then
            do { (symbol, s) \<leftarrow> rd_bittree inb in_size LEN_LOW_BITS (ld (L_low pos_state), 0) 1 s;
                 Some (symbol - 8 + 2, s) }
          else
            do { (choice2, s) \<leftarrow> rc_decode_bit inb in_size (ld L_choice2, 0) s;
                 if \<not> choice2 then
                   do { (symbol, s) \<leftarrow> rd_bittree inb in_size LEN_MID_BITS (ld (L_mid pos_state), 0) 1 s;
                        Some (symbol - 8 + 2 + 8, s) }
                 else
                   do { (symbol, s) \<leftarrow> rd_bittree inb in_size LEN_HIGH_BITS (ld L_high, 0) 1 s;
                        Some (symbol - 256 + 2 + 8 + 8, s) } } }"

text \<open>The distance after its slot, and whether it is the end marker.\<close>

definition dist_decode :: "byte list \<Rightarrow> nat \<Rightarrow> u32 \<Rightarrow> prob_array decoding \<Rightarrow> ((u32 \<times> bool) \<times> prob_array decoding) option" where
  "dist_decode inb in_size symbol s =
     (if symbol < 4 then Some ((symbol, False), s)
      else
        let limit = drop_bit 1 symbol - 1; rep0 = 2 + (symbol AND 1)
        in if symbol < 14 then
             let rep0 = push_bit (unat limit) rep0
             in do { (rep0, s) \<leftarrow> rd_reverse inb in_size (unat limit) (P_dist_special, int (unat rep0) - int (unat symbol) - 1) 1 0 rep0 s;
                     Some ((rep0, False), s) }
           else
             do { (rep0, s) \<leftarrow> rd_direct inb in_size (unat (limit - 4)) rep0 s;
                  (rep0, s) \<leftarrow> rd_reverse inb in_size ALIGN_BITS (P_dist_align, 0) 1 0 (push_bit ALIGN_BITS rep0) s;
                  Some ((rep0, rep0 = - 1), s) })"

definition slot_decode :: "byte list \<Rightarrow> nat \<Rightarrow> u32 \<Rightarrow> prob_array decoding \<Rightarrow> ((u32 \<times> bool) \<times> prob_array decoding) option" where
  "slot_decode inb in_size len s =
     do { (symbol, s) \<leftarrow> rd_bittree inb in_size DIST_SLOT_BITS (P_dist_slot (unat (get_dist_state len)), 0) 1 s;
          dist_decode inb in_size (symbol - 64) s }"

subsection \<open>The decoder\<close>

datatype decoder_sequence = SEQ_NORMALIZE | SEQ_IS_MATCH | SEQ_LITERAL_WRITE | SEQ_SHORTREP | SEQ_COPY

record lzma_decoder =
  ld_probs :: probs
  ld_rc :: range_decoder
  ld_state :: lzma_lzma_state
  ld_rep0 :: u32
  ld_rep1 :: u32
  ld_rep2 :: u32
  ld_rep3 :: u32
  ld_pos_mask :: u32
  ld_literal_context_bits :: u32
  ld_literal_pos_mask :: u32
  ld_uncompressed_size :: lzma_vli
  ld_sequence :: decoder_sequence
  ld_symbol :: u32
  ld_len :: u32

text \<open>Each part of the loop gives the code for \<open>goto out\<close>, or the place where the dictionary is written, as the sequence.\<close>

type_synonym symbol_result = "((lzma_ret option \<times> lzma_decoder) \<times> prob_array decoding) option"

definition decode_literal :: "byte list \<Rightarrow> nat \<Rightarrow> lzma_dict \<Rightarrow> lzma_decoder \<Rightarrow> prob_array decoding \<Rightarrow> symbol_result" where
  "decode_literal inb in_size dict coder s =
     (let probs = literal_subcoder (ld_literal_context_bits coder) (ld_literal_pos_mask coder) (word_of_nat (dc_pos dict)) (dict_get dict 0)
      in do { (symbol, s) \<leftarrow>
                (if is_literal_state (ld_state coder) then rd_bittree inb in_size 8 probs 1 s
                 else rd_literal_matched inb in_size 8 probs 0x100 (push_bit 1 (ucast (dict_get dict (unat (ld_rep0 coder))))) 1 s);
              Some ((None, coder\<lparr>ld_state := next_state ! ld_state coder, ld_symbol := symbol, ld_sequence := SEQ_LITERAL_WRITE\<rparr>), s) })"

definition decode_match :: "byte list \<Rightarrow> nat \<Rightarrow> nat \<Rightarrow> lzma_dict \<Rightarrow> lzma_decoder \<Rightarrow> prob_array decoding \<Rightarrow> symbol_result" where
  "decode_match inb in_size pos_state dict coder s =
     (let coder = coder\<lparr>ld_state := update_match (ld_state coder), ld_rep3 := ld_rep2 coder, ld_rep2 := ld_rep1 coder, ld_rep1 := ld_rep0 coder\<rparr>
      in do { (len, s) \<leftarrow> len_decode inb in_size P_match_len pos_state s;
              ((rep0, eopm), s) \<leftarrow> slot_decode inb in_size len s;
              let coder = coder\<lparr>ld_len := len, ld_rep0 := rep0\<rparr>;
              if eopm then
                if ld_uncompressed_size coder \<noteq> LZMA_VLI_UNKNOWN then Some ((Some LZMA_DATA_ERROR, coder), s)
                else do { (rc, in_pos) \<leftarrow> rc_normalize inb in_size (snd s); Some ((Some LZMA_STREAM_END, coder), fst s, rc, in_pos) }
              else if \<not> dict_is_distance_valid dict (unat rep0) then Some ((Some LZMA_DATA_ERROR, coder), s)
              else Some ((None, coder\<lparr>ld_sequence := SEQ_COPY\<rparr>), s) })"

text \<open>The rest of a long repeated match.\<close>

definition decode_rep_len :: "byte list \<Rightarrow> nat \<Rightarrow> nat \<Rightarrow> lzma_decoder \<Rightarrow> prob_array decoding \<Rightarrow> symbol_result" where
  "decode_rep_len inb in_size pos_state coder s =
     (let coder = coder\<lparr>ld_state := update_long_rep (ld_state coder)\<rparr>
      in do { (len, s) \<leftarrow> len_decode inb in_size P_rep_len pos_state s;
              Some ((None, coder\<lparr>ld_len := len, ld_sequence := SEQ_COPY\<rparr>), s) })"

definition decode_rep :: "byte list \<Rightarrow> nat \<Rightarrow> nat \<Rightarrow> lzma_dict \<Rightarrow> lzma_decoder \<Rightarrow> prob_array decoding \<Rightarrow> symbol_result" where
  "decode_rep inb in_size pos_state dict coder s =
     (if \<not> dict_is_distance_valid dict 0 then Some ((Some LZMA_DATA_ERROR, coder), s)
      else
        do { (is_rep0, s) \<leftarrow> rc_decode_bit inb in_size (P_is_rep0, int (ld_state coder)) s;
             if \<not> is_rep0 then
               do { (long, s) \<leftarrow> rc_decode_bit inb in_size (P_is_rep0_long (ld_state coder), int pos_state) s;
                    if \<not> long then Some ((None, coder\<lparr>ld_state := update_short_rep (ld_state coder), ld_sequence := SEQ_SHORTREP\<rparr>), s)
                    else decode_rep_len inb in_size pos_state coder s }
             else
               do { (is_rep1, s) \<leftarrow> rc_decode_bit inb in_size (P_is_rep1, int (ld_state coder)) s;
                    if \<not> is_rep1 then
                      decode_rep_len inb in_size pos_state (coder\<lparr>ld_rep1 := ld_rep0 coder, ld_rep0 := ld_rep1 coder\<rparr>) s
                    else
                      do { (is_rep2, s) \<leftarrow> rc_decode_bit inb in_size (P_is_rep2, int (ld_state coder)) s;
                           if \<not> is_rep2 then
                             decode_rep_len inb in_size pos_state
                               (coder\<lparr>ld_rep2 := ld_rep1 coder, ld_rep1 := ld_rep0 coder, ld_rep0 := ld_rep2 coder\<rparr>) s
                           else
                             decode_rep_len inb in_size pos_state
                               (coder\<lparr>ld_rep3 := ld_rep2 coder, ld_rep2 := ld_rep1 coder, ld_rep1 := ld_rep0 coder, ld_rep0 := ld_rep3 coder\<rparr>) s } } })"

definition decode_symbol :: "byte list \<Rightarrow> nat \<Rightarrow> lzma_dict \<Rightarrow> lzma_decoder \<Rightarrow> prob_array decoding \<Rightarrow> symbol_result" where
  "decode_symbol inb in_size dict coder s =
     (let pos_state = unat (word_of_nat (dc_pos dict) AND ld_pos_mask coder)
      in do { (is_match, s) \<leftarrow> rc_decode_bit inb in_size (P_is_match (ld_state coder), int pos_state) s;
              if \<not> is_match then decode_literal inb in_size dict coder s
              else
                do { (is_rep, s) \<leftarrow> rc_decode_bit inb in_size (P_is_rep, int (ld_state coder)) s;
                     if \<not> is_rep then decode_match inb in_size pos_state dict coder s
                     else decode_rep inb in_size pos_state dict coder s } })"

text \<open>The write to the dictionary; \<open>True\<close> when it is full. After it the loop starts over.\<close>

definition decode_write :: "lzma_decoder \<Rightarrow> lzma_dict \<Rightarrow> bool \<times> lzma_decoder \<times> lzma_dict" where
  "decode_write coder dict =
     (case ld_sequence coder of
        SEQ_LITERAL_WRITE \<Rightarrow>
          let (full, dict) = dict_put dict (ucast (ld_symbol coder))
          in (full, if full then coder else coder\<lparr>ld_sequence := SEQ_IS_MATCH\<rparr>, dict)
      | SEQ_SHORTREP \<Rightarrow>
          let (full, dict) = dict_put dict (dict_get dict (unat (ld_rep0 coder)))
          in (full, if full then coder else coder\<lparr>ld_sequence := SEQ_IS_MATCH\<rparr>, dict)
      | SEQ_COPY \<Rightarrow>
          let (full, dict, len) = dict_repeat dict (unat (ld_rep0 coder)) (unat (ld_len coder));
              coder = coder\<lparr>ld_len := word_of_nat len\<rparr>
          in (full, if full then coder else coder\<lparr>ld_sequence := SEQ_IS_MATCH\<rparr>, dict)
      | _ \<Rightarrow> (False, coder, dict))"

text \<open>The main loop. \<open>seq\<close> is \<open>coder->sequence\<close> when the loop was entered: \<open>goto out\<close> with a code does not change it.\<close>

primrec lzma_decode_loop ::
  "nat \<Rightarrow> byte list \<Rightarrow> nat \<Rightarrow> decoder_sequence \<Rightarrow> lzma_decoder \<Rightarrow> lzma_dict \<Rightarrow> prob_array decoding
   \<Rightarrow> (lzma_ret \<times> lzma_decoder \<times> lzma_dict \<times> prob_array decoding) run" where
  "lzma_decode_loop 0 inb in_size seq coder dict s = Running"
| "lzma_decode_loop (Suc fuel) inb in_size seq coder dict s =
     (if ld_sequence coder \<in> {SEQ_NORMALIZE, SEQ_IS_MATCH} then
        if ld_uncompressed_size coder \<noteq> LZMA_VLI_UNKNOWN \<and> dc_pos dict = dc_limit dict then
          case rc_normalize inb in_size (snd s) of
            None \<Rightarrow> Need_input
          | Some (rc, in_pos) \<Rightarrow> Result (LZMA_OK, coder\<lparr>ld_sequence := SEQ_IS_MATCH\<rparr>, dict, fst s, rc, in_pos)
        else
          case decode_symbol inb in_size dict coder s of
            None \<Rightarrow> Need_input
          | Some ((Some ret, coder), s) \<Rightarrow> Result (ret, coder\<lparr>ld_sequence := seq\<rparr>, dict, s)
          | Some ((None, coder), s) \<Rightarrow>
              let (full, coder, dict) = decode_write coder dict
              in if full then Result (LZMA_OK, coder, dict, s) else lzma_decode_loop fuel inb in_size seq coder dict s
      else
        let (full, coder, dict) = decode_write coder dict
        in if full then Result (LZMA_OK, coder, dict, s) else lzma_decode_loop fuel inb in_size seq coder dict s)"

text \<open>What follows the label \<open>out\<close>.\<close>

definition lzma_decode_out ::
  "nat \<Rightarrow> nat \<Rightarrow> lzma_ret \<times> lzma_decoder \<times> lzma_dict \<times> prob_array decoding \<Rightarrow> lzma_ret \<times> lzma_decoder \<times> lzma_dict \<times> nat" where
  "lzma_decode_out dict_start limit r =
     (let (ret, coder, dict, probs, rc, in_pos) = r;
          dict = dict\<lparr>dc_limit := limit\<rparr>;
          coder = coder\<lparr>ld_probs := probs, ld_rc := rc\<rparr>;
          (ret, coder) =
            (if ld_uncompressed_size coder \<noteq> LZMA_VLI_UNKNOWN then
               let coder = coder\<lparr>ld_uncompressed_size := ld_uncompressed_size coder - word_of_nat (dc_pos dict - dict_start)\<rparr>
               in (if ld_uncompressed_size coder = 0 \<and> ret = LZMA_OK \<and> ld_sequence coder \<noteq> SEQ_NORMALIZE
                   then (if ld_sequence coder = SEQ_IS_MATCH then LZMA_STREAM_END else LZMA_DATA_ERROR) else ret, coder)
             else (ret, coder));
          (ret, coder) =
            (if ret = LZMA_STREAM_END then
               (if \<not> rc_is_finished (ld_rc coder) then LZMA_DATA_ERROR else ret, coder\<lparr>ld_rc := rd_reset (ld_rc coder)\<rparr>)
             else (ret, coder))
      in (ret, coder, dict, in_pos))"

text \<open>Every round of the loop writes at least one byte or is the last, so the room in the dictionary bounds the rounds.\<close>

definition lzma_decode ::
  "byte list \<Rightarrow> nat \<Rightarrow> lzma_decoder \<Rightarrow> lzma_dict \<Rightarrow> nat \<Rightarrow> (lzma_ret \<times> lzma_decoder \<times> lzma_dict \<times> nat) run" where
  "lzma_decode inb in_size coder dict in_pos =
     (let (ret, rc, in_pos) = rc_read_init inb in_size (ld_rc coder) in_pos;
          coder = coder\<lparr>ld_rc := rc\<rparr>
      in if ret \<noteq> LZMA_STREAM_END then Result (ret, coder, dict, in_pos)
         else
           let dict_start = dc_pos dict;
               limit = dc_limit dict;
               dict = (if ld_uncompressed_size coder \<noteq> LZMA_VLI_UNKNOWN \<and> unat (ld_uncompressed_size coder) < limit - dict_start
                       then dict\<lparr>dc_limit := dict_start + unat (ld_uncompressed_size coder)\<rparr> else dict)
           in case lzma_decode_loop (dc_limit dict - dict_start + 1) inb in_size (ld_sequence coder) coder dict (ld_probs coder, rc, in_pos) of
                Need_input \<Rightarrow> Need_input
              | Running \<Rightarrow> Running
              | Result r \<Rightarrow> Result (lzma_decode_out dict_start limit r))"

definition lzma_decoder_uncompressed :: "lzma_vli \<Rightarrow> lzma_decoder \<Rightarrow> lzma_decoder" where
  "lzma_decoder_uncompressed uncompressed_size coder = coder\<lparr>ld_uncompressed_size := uncompressed_size\<rparr>"

definition lzma_decoder_reset :: "lzma_options_lzma \<Rightarrow> lzma_decoder \<Rightarrow> lzma_decoder" where
  "lzma_decoder_reset options coder =
     (let pos_mask = push_bit (unat (pb options)) 1 - 1;
          num_pos_states = unat (push_bit (unat (pb options)) (1 :: u32));
          probs = literal_init (lc options) (lp options) (ld_probs coder);
          probs = dist_reset (states_reset pos_mask probs);
          probs = length_reset P_rep_len num_pos_states (length_reset P_match_len num_pos_states probs)
      in coder\<lparr>ld_pos_mask := pos_mask, ld_literal_context_bits := lc options, ld_literal_pos_mask := push_bit (unat (lp options)) 1 - 1,
           ld_state := STATE_LIT_LIT, ld_rep0 := 0, ld_rep1 := 0, ld_rep2 := 0, ld_rep3 := 0, ld_rc := rd_reset (ld_rc coder), ld_probs := probs,
           ld_sequence := SEQ_IS_MATCH, ld_symbol := 0, ld_len := 0\<rparr>)"

definition lzma_decoder_init :: "lzma_options_lzma \<Rightarrow> lzma_decoder \<Rightarrow> lzma_ret \<times> lzma_decoder" where
  "lzma_decoder_init options coder =
     (if \<not> is_lclppb_valid options then (LZMA_PROG_ERROR, coder)
      else (LZMA_OK, lzma_decoder_uncompressed LZMA_VLI_UNKNOWN (lzma_decoder_reset options coder)))"

definition lzma_lzma_decoder_memusage :: "u64 \<Rightarrow> u64 \<Rightarrow> lzma_options_lzma \<Rightarrow> u64" where
  "lzma_lzma_decoder_memusage sizeof_lzma_coder sizeof_lz_coder options =
     (if \<not> is_lclppb_valid options then - 1
      else sizeof_lzma_coder + lzma_lz_decoder_memusage sizeof_lz_coder (ucast (dict_size options)))"

end
