(* ===== verification/Lzma_Symbols.thy ===== *)
theory Lzma_Symbols
  imports Lzma_Encoder Lzma_Decoder Range_Coder_Roundtrip
begin

unbundle bit_operations_syntax

text \<open>
  The bits of the parts of an LZMA symbol: what the encoder's functions queue is what the decoder's functions decode. For every
  part there is the list of its range coder symbols, a \<open>queues\<close> lemma for the encoder and a \<open>decodes\<close> lemma for the decoder.
\<close>

lemma and_1_of_bool: "drop_bit n (w :: u32) AND 1 = of_bool (bit w n)"
  by (simp add: and_one_eq bit_iff_odd_drop_bit mod2_eq_if)

lemma of_bool_neq_0: "(of_bool b \<noteq> (0 :: u32)) = b"
  by (cases b) simp_all

lemma take_bit_msb: "take_bit (Suc n) (w :: u32) = take_bit n w + of_bool (bit w n) * 2 ^ n"
proof -
  let ?b = "push_bit n (of_bool (bit w n))"
  have "take_bit n w AND ?b = 0" by (rule bit_word_eqI) (auto simp: bit_and_iff bit_take_bit_iff bit_push_bit_iff)
  then have "take_bit n w + ?b = take_bit n w OR ?b" using word_plus_and_or [of "take_bit n w" ?b] by simp
  also have "\<dots> = take_bit (Suc n) w"
    by (rule bit_word_eqI) (auto simp: bit_or_iff bit_take_bit_iff bit_push_bit_iff bit_1_iff less_Suc_eq of_bool_def)
  finally show ?thesis by (simp add: push_bit_eq_mult)
qed

lemma unat_pow2: "n < 32 \<Longrightarrow> unat (2 ^ n :: u32) = 2 ^ n"
  using unat_push_bit_mult [of "1 :: u32" n] power_strict_increasing [of n 32 "2 :: nat"] by (simp add: push_bit_of_1)

lemma rc_loops_0: "rc_bittree_loop probs 0 symbol m = (\<lambda>rc. rc)" "rc_bittree_reverse_loop probs 0 symbol m = (\<lambda>rc. rc)"
  by (rule ext, simp)+

subsection \<open>Trees\<close>

primrec tree_syms :: "nat \<Rightarrow> prob \<Rightarrow> u32 \<Rightarrow> u32 \<Rightarrow> prob_array sym list" where
  "tree_syms 0 probs symbol m = []"
| "tree_syms (Suc n) probs symbol m =
     Sym_bit (elem probs (unat m)) (bit symbol n) # tree_syms n probs symbol (push_bit 1 m + of_bool (bit symbol n))"

lemma length_tree_syms [simp]: "length (tree_syms n probs symbol m) = n"
  by (induction n arbitrary: m) simp_all

lemma queues_tree_loop: "queues (rc_bittree_loop probs n symbol m) (tree_syms n probs symbol m)"
proof (induction n arbitrary: m)
  case (Suc n)
  let ?b = "bit symbol n"
  have one: "queues (rc_bit (elem probs (unat m)) (of_bool ?b)) [Sym_bit (elem probs (unat m)) ?b]"
    using queues_bit [of "elem probs (unat m)" "of_bool ?b"] unfolding of_bool_neq_0 .
  have "rc_bittree_loop probs (Suc n) symbol m = (\<lambda>rc. rc_bittree_loop probs n symbol (push_bit 1 m + of_bool ?b) (rc_bit (elem probs (unat m)) (of_bool ?b) rc))"
    by (rule ext) (simp only: rc_bittree_loop.simps Let_def and_1_of_bool)
  with queues_comp [OF one Suc] show ?case by simp
qed (simp add: rc_loops_0 queues_id)

lemma queues_tree: "queues (rc_bittree probs n symbol) (tree_syms n probs symbol 1)"
proof -
  have "rc_bittree probs n symbol = rc_bittree_loop probs n symbol 1" by (rule ext) (simp only: rc_bittree_def)
  then show ?thesis by (simp only: queues_tree_loop)
qed

lemma decodes_tree:
  assumes "stream_ok st"
  shows "decodes st (rd_bittree (st_in st) (st_size st) n probs m) (tree_syms n probs symbol m) (push_bit n m + take_bit n symbol)"
proof (induction n arbitrary: m)
  case 0
  then show ?case using decodes_return by simp
next
  case (Suc n)
  let ?m = "push_bit 1 m + of_bool (bit symbol n)"
  have e: "push_bit n ?m + take_bit n symbol = push_bit (Suc n) m + take_bit (Suc n) symbol"
    unfolding take_bit_msb by (simp add: push_bit_eq_mult algebra_simps)
  have "decodes st (rd_bittree (st_in st) (st_size st) (Suc n) probs m)
      ([Sym_bit (elem probs (unat m)) (bit symbol n)] @ tree_syms n probs symbol ?m) (push_bit n ?m + take_bit n symbol)"
    unfolding rd_bittree.simps by (rule decodes_bind [OF decodes_symbol [OF assms] Suc])
  then show ?case unfolding e by (simp only: append_Cons append_Nil tree_syms.simps)
qed

text \<open>A tree read from its root gives the symbol with a one before it.\<close>

lemma decodes_tree_root:
  assumes "stream_ok st" and "symbol < 2 ^ n" and "n < 32"
  shows "decodes st (rd_bittree (st_in st) (st_size st) n probs 1) (tree_syms n probs symbol 1) (2 ^ n + symbol)"
proof -
  have "unat symbol < 2 ^ n" using assms(2) unat_pow2 [OF assms(3)] by (simp add: word_less_nat_alt)
  then have "take_bit n symbol = symbol" by (simp add: word_unat_eq_iff unat_take_bit_mod)
  then show ?thesis using decodes_tree [OF assms(1), of n probs 1 symbol] by (simp add: push_bit_of_1)
qed

subsection \<open>Reverse trees and direct bits\<close>

primrec reverse_syms :: "nat \<Rightarrow> prob \<Rightarrow> u32 \<Rightarrow> u32 \<Rightarrow> prob_array sym list" where
  "reverse_syms 0 probs symbol m = []"
| "reverse_syms (Suc n) probs symbol m =
     Sym_bit (elem probs (unat m)) (bit symbol 0) # reverse_syms n probs (drop_bit 1 symbol) (push_bit 1 m + of_bool (bit symbol 0))"

lemma length_reverse_syms [simp]: "length (reverse_syms n probs symbol m) = n"
  by (induction n arbitrary: symbol m) simp_all

lemma queues_reverse_loop: "queues (rc_bittree_reverse_loop probs n symbol m) (reverse_syms n probs symbol m)"
proof (induction n arbitrary: symbol m)
  case (Suc n)
  let ?b = "bit symbol 0"
  have one: "queues (rc_bit (elem probs (unat m)) (of_bool ?b)) [Sym_bit (elem probs (unat m)) ?b]"
    using queues_bit [of "elem probs (unat m)" "of_bool ?b"] unfolding of_bool_neq_0 .
  have b: "symbol AND 1 = of_bool ?b" using and_1_of_bool [of 0 symbol] by simp
  have "rc_bittree_reverse_loop probs (Suc n) symbol m
      = (\<lambda>rc. rc_bittree_reverse_loop probs n (drop_bit 1 symbol) (push_bit 1 m + of_bool ?b) (rc_bit (elem probs (unat m)) (of_bool ?b) rc))"
    by (rule ext) (simp only: rc_bittree_reverse_loop.simps Let_def b)
  with queues_comp [OF one Suc] show ?case by simp
qed (simp add: rc_loops_0 queues_id)

lemma queues_reverse: "queues (rc_bittree_reverse probs n symbol) (reverse_syms n probs symbol 1)"
proof -
  have "rc_bittree_reverse probs n symbol = rc_bittree_reverse_loop probs n symbol 1" by (rule ext) (simp only: rc_bittree_reverse_def)
  then show ?thesis by (simp only: queues_reverse_loop)
qed

lemma decodes_reverse:
  assumes "stream_ok st"
  shows "decodes st (rd_reverse (st_in st) (st_size st) n probs m offset rep0) (reverse_syms n probs symbol m) (rep0 + push_bit offset (take_bit n symbol))"
proof (induction n arbitrary: m offset rep0 symbol)
  case 0
  then show ?case using decodes_return by simp
next
  case (Suc n)
  let ?b = "bit symbol 0"
  let ?rep0 = "if ?b then rep0 + push_bit offset 1 else rep0"
  have e: "?rep0 + push_bit (offset + 1) (take_bit n (drop_bit 1 symbol)) = rep0 + push_bit offset (take_bit (Suc n) symbol)"
    by (simp add: take_bit_Suc push_bit_eq_mult drop_bit_Suc mod2_eq_if bit_0 algebra_simps)
  have "decodes st (rd_reverse (st_in st) (st_size st) (Suc n) probs m offset rep0)
      ([Sym_bit (elem probs (unat m)) ?b] @ reverse_syms n probs (drop_bit 1 symbol) (push_bit 1 m + of_bool ?b))
      (?rep0 + push_bit (offset + 1) (take_bit n (drop_bit 1 symbol)))"
    unfolding rd_reverse.simps by (rule decodes_bind [OF decodes_bit [OF assms] Suc])
  then show ?case unfolding e by (simp only: append_Cons append_Nil reverse_syms.simps)
qed

lemma length_direct_syms [simp]: "length (direct_syms value n) = n"
  by (induction n) simp_all

lemma decodes_direct_bits:
  assumes "stream_ok st"
  shows "decodes st (rd_direct (st_in st) (st_size st) n rep0) (direct_syms value n) (push_bit n rep0 + take_bit n value)"
proof (induction n arbitrary: rep0)
  case 0
  then show ?case using decodes_return by simp
next
  case (Suc n)
  let ?rep0 = "push_bit 1 rep0 + of_bool (bit value n)"
  have e: "push_bit n ?rep0 + take_bit n value = push_bit (Suc n) rep0 + take_bit (Suc n) value"
    unfolding take_bit_msb by (simp add: push_bit_eq_mult algebra_simps)
  have "decodes st (rd_direct (st_in st) (st_size st) (Suc n) rep0) ([Sym_direct (bit value n)] @ direct_syms value n) (push_bit n ?rep0 + take_bit n value)"
    unfolding rd_direct.simps by (rule decodes_bind [OF decodes_direct [OF assms] Suc])
  then show ?case unfolding e by (simp only: append_Cons append_Nil direct_syms.simps)
qed

subsection \<open>Literals after a match\<close>

primrec matched_syms :: "nat \<Rightarrow> prob \<Rightarrow> u32 \<Rightarrow> u32 \<Rightarrow> u32 \<Rightarrow> prob_array sym list" where
  "matched_syms 0 subcoder offset match_byte symbol = []"
| "matched_syms (Suc n) subcoder offset match_byte symbol =
     (let match_byte = push_bit 1 match_byte
      in Sym_bit (elem subcoder (unat (offset + (match_byte AND offset) + drop_bit 8 symbol))) (bit symbol 7)
           # matched_syms n subcoder (offset AND NOT (match_byte XOR push_bit 1 symbol)) match_byte (push_bit 1 symbol))"

lemma length_matched_syms [simp]: "length (matched_syms n subcoder offset match_byte symbol) = n"
  by (induction n arbitrary: offset match_byte symbol) (simp_all add: Let_def)

text \<open>With \<open>n\<close> rounds to go, the symbol has its highest bit at \<open>16 - n\<close>.\<close>

definition rounds_left :: "nat \<Rightarrow> u32 \<Rightarrow> bool" where
  "rounds_left n symbol \<longleftrightarrow> n \<le> 8 \<and> 2 ^ (16 - n) \<le> unat symbol \<and> unat symbol < 2 ^ (17 - n)"

lemma rounds_left_Suc:
  assumes "rounds_left (Suc n) symbol"
  shows "rounds_left n (push_bit 1 symbol)" and "unat (push_bit 1 symbol) = 2 * unat symbol" and "push_bit 1 symbol < push_bit 16 1 \<longleftrightarrow> n \<noteq> 0"
proof -
  have n: "n < 8" and b: "2 ^ (16 - Suc n) \<le> unat symbol" "unat symbol < 2 ^ (17 - Suc n)" using assms by (simp_all add: rounds_left_def)
  have e: "17 - Suc n = 16 - n" "16 - n = Suc (16 - Suc n)" "17 - n = Suc (16 - n)" using n by simp_all
  have "2 ^ (17 - Suc n) \<le> (2 :: nat) ^ 16" by (rule power_increasing) simp_all
  then show u: "unat (push_bit 1 symbol) = 2 * unat symbol" using b(2) unat_push_bit_mult [of symbol 1] by simp
  have lo: "2 ^ (16 - n) \<le> 2 * unat symbol" using b(1) unfolding e(2) by simp
  have hi: "2 * unat symbol < 2 ^ (17 - n)" using b(2) unfolding e(1) e(3) by simp
  show "rounds_left n (push_bit 1 symbol)" unfolding rounds_left_def u using n lo hi by simp
  have t: "unat (push_bit 16 1 :: u32) = 2 ^ 16" by simp
  show "push_bit 1 symbol < push_bit 16 1 \<longleftrightarrow> n \<noteq> 0"
  proof (cases "n = 0")
    case True
    then show ?thesis using lo unfolding word_less_nat_alt u t by simp
  next
    case False
    then have "2 ^ (17 - n) \<le> (2 :: nat) ^ 16" by (intro power_increasing) simp_all
    then show ?thesis using hi False unfolding word_less_nat_alt u t by simp
  qed
qed

lemma queues_matched_loop:
  "rounds_left n symbol \<Longrightarrow> 0 < n \<Longrightarrow> queues (literal_matched_loop n subcoder offset match_byte symbol) (matched_syms n subcoder offset match_byte symbol)"
proof (induction n arbitrary: offset match_byte symbol)
  case (Suc n)
  let ?mb = "push_bit 1 match_byte" and ?b = "bit symbol 7" and ?symbol = "push_bit 1 symbol"
  let ?prob = "elem subcoder (unat (offset + (?mb AND offset) + drop_bit 8 symbol))" and ?offset = "offset AND NOT (?mb XOR ?symbol)"
  note r = rounds_left_Suc [OF Suc.prems(1)]
  have one: "queues (rc_bit ?prob (of_bool ?b)) [Sym_bit ?prob ?b]"
    using queues_bit [of ?prob "of_bool ?b"] unfolding of_bool_neq_0 .
  have e: "literal_matched_loop (Suc n) subcoder offset match_byte symbol
      = (\<lambda>rc. (if n \<noteq> 0 then literal_matched_loop n subcoder ?offset ?mb ?symbol else (\<lambda>rc. rc)) (rc_bit ?prob (of_bool ?b) rc))"
    by (rule ext) (simp only: literal_matched_loop.simps Let_def and_1_of_bool r(3) if_distribR)
  have "queues (if n \<noteq> 0 then literal_matched_loop n subcoder ?offset ?mb ?symbol else (\<lambda>rc. rc)) (matched_syms n subcoder ?offset ?mb ?symbol)"
  proof (cases "n = 0")
    case True
    then show ?thesis using queues_id by (simp only: matched_syms.simps) simp
  next
    case False
    then show ?thesis using Suc.IH [OF r(1), of ?offset ?mb] by (simp only: if_True simp_thms neq0_conv)
  qed
  from queues_comp [OF one this] show ?case unfolding e matched_syms.simps Let_def by (simp only: append_Cons append_Nil)
qed simp

lemma decodes_matched_loop:
  assumes st: "stream_ok st"
  shows "rounds_left n symbol \<Longrightarrow> (\<And>i. bit offset i \<Longrightarrow> i = 8) \<Longrightarrow>
    decodes st (rd_literal_matched (st_in st) (st_size st) n subcoder offset (push_bit 1 match_byte) (drop_bit 8 symbol))
      (matched_syms n subcoder offset match_byte symbol) (drop_bit 8 (push_bit n symbol))"
proof (induction n arbitrary: offset match_byte symbol)
  case 0
  then show ?case using decodes_return by simp
next
  case (Suc n)
  let ?mb = "push_bit 1 match_byte" and ?b = "bit symbol 7" and ?symbol = "push_bit 1 symbol"
  let ?prob = "elem subcoder (unat (offset + (?mb AND offset) + drop_bit 8 symbol))" and ?offset = "offset AND NOT (?mb XOR ?symbol)"
  note r = rounds_left_Suc [OF Suc.prems(1)]
  have sy: "bit ?symbol 8 = ?b" unfolding bit_push_bit_iff by simp
  have off: "(if ?b then offset AND (?mb AND offset) else offset AND NOT (?mb AND offset)) = ?offset"
  proof (rule bit_word_eqI)
    fix i
    show "bit (if ?b then offset AND (?mb AND offset) else offset AND NOT (?mb AND offset)) i = bit ?offset i"
      using Suc.prems(2) [of i] sy by (cases "bit offset i") (auto simp: bit_and_iff bit_or_iff bit_xor_iff bit_not_iff)
  qed
  have next_symbol: "push_bit 1 (drop_bit 8 symbol) + of_bool ?b = drop_bit 8 ?symbol"
  proof -
    let ?s = "unat symbol"
    have s: "?s < 2 ^ 16" using Suc.prems(1) power_increasing [of "17 - Suc n" 16 "2 :: nat"] by (simp add: rounds_left_def)
    have "unat (push_bit 1 (drop_bit 8 symbol)) = 2 * (?s div 256)"
      using s unat_push_bit_mult [of "drop_bit 8 symbol" 1] by (simp add: unat_drop_bit_div)
    moreover have "unat (of_bool ?b :: u32) = ?s div 128 mod 2"
    proof -
      have "?b = odd (unat symbol div 2 ^ 7)" by (simp only: bit_iff_odd_drop_bit even_unat [symmetric] unat_drop_bit_div)
      then show ?thesis by (cases ?b) (simp_all add: odd_iff_mod_2_eq_one even_iff_mod_2_eq_zero)
    qed
    ultimately have "unat (push_bit 1 (drop_bit 8 symbol) + of_bool ?b) = 2 * (?s div 256) + ?s div 128 mod 2"
      using s by (subst unat_add_small) simp_all
    moreover have "unat (drop_bit 8 ?symbol) = 2 * ?s div 256" by (simp only: unat_drop_bit_div r(2)) simp
    moreover have "2 * (?s div 256) + ?s div 128 mod 2 = 2 * ?s div 256"
    proof -
      have "2 * ?s div 256 = ?s div 128" "?s div 256 = ?s div 128 div 2" by (simp_all add: div_mult2_eq [symmetric])
      then show ?thesis by (simp only: mult_div_mod_eq)
    qed
    ultimately show ?thesis by (simp add: word_unat_eq_iff)
  qed
  have ih: "decodes st (rd_literal_matched (st_in st) (st_size st) n subcoder ?offset (push_bit 1 ?mb) (drop_bit 8 ?symbol))
      (matched_syms n subcoder ?offset ?mb ?symbol) (drop_bit 8 (push_bit n ?symbol))"
    by (rule Suc.IH [OF r(1)]) (use Suc.prems(2) in \<open>simp add: bit_and_iff\<close>)
  have "decodes st (rd_literal_matched (st_in st) (st_size st) (Suc n) subcoder offset ?mb (drop_bit 8 symbol))
      ([Sym_bit ?prob ?b] @ matched_syms n subcoder ?offset ?mb ?symbol) (drop_bit 8 (push_bit n ?symbol))"
    unfolding rd_literal_matched.simps Let_def
    by (rule decodes_bind [OF decodes_bit [OF st]]) (unfold off next_symbol, rule ih)
  moreover have "push_bit n ?symbol = push_bit (Suc n) symbol" by (simp only: push_bit_push_bit Suc_eq_plus1)
  ultimately show ?case unfolding matched_syms.simps Let_def by (simp only: append_Cons append_Nil)
qed

lemma rounds_left_start: "rounds_left 8 (ucast (b :: byte) + push_bit 8 1)" "unat (ucast b + push_bit 8 1 :: u32) = 256 + unat b"
proof -
  show u: "unat (ucast b + push_bit 8 1 :: u32) = 256 + unat b"
    using unat_byte_less [of b] by (subst unat_add_small) (simp_all add: unat_ucast_up)
  show "rounds_left 8 (ucast b + push_bit 8 1)" unfolding rounds_left_def u using unat_byte_less [of b] by simp
qed

definition literal_matched_syms :: "prob \<Rightarrow> byte \<Rightarrow> byte \<Rightarrow> prob_array sym list" where
  "literal_matched_syms subcoder match_byte b = matched_syms 8 subcoder 0x100 (ucast match_byte) (ucast b + push_bit 8 1)"

lemma queues_literal_matched: "queues (literal_matched subcoder (ucast match_byte) (ucast b)) (literal_matched_syms subcoder match_byte b)"
proof -
  have "literal_matched subcoder (ucast match_byte) (ucast b) = literal_matched_loop 8 subcoder 0x100 (ucast match_byte) (ucast b + push_bit 8 1)"
    by (rule ext) (simp only: literal_matched_def)
  then show ?thesis unfolding literal_matched_syms_def using queues_matched_loop [OF rounds_left_start(1)] by simp
qed

lemma decodes_literal_matched:
  assumes "stream_ok st"
  shows "decodes st (rd_literal_matched (st_in st) (st_size st) 8 subcoder 0x100 (push_bit 1 (ucast match_byte)) 1)
    (literal_matched_syms subcoder match_byte b) (2 ^ 8 + ucast b)"
proof -
  let ?s = "ucast b + push_bit 8 1 :: u32"
  have "unat (drop_bit 8 ?s) = 1" unfolding unat_drop_bit_div rounds_left_start(2) using unat_byte_less [of b] by simp
  then have one: "drop_bit 8 ?s = 1" by (simp add: word_unat_eq_iff)
  have "unat (push_bit 8 ?s) = (256 + unat b) * 256"
    using unat_push_bit_mult [of ?s 8] unat_byte_less [of b] unfolding rounds_left_start(2) by simp
  then have "unat (drop_bit 8 (push_bit 8 ?s)) = 256 + unat b" by (simp only: unat_drop_bit_div) simp
  then have final: "drop_bit 8 (push_bit 8 ?s) = ?s" unfolding word_unat_eq_iff rounds_left_start(2) .
  have bits: "i = 8" if "bit (0x100 :: u32) i" for i
  proof -
    have "(0x100 :: u32) = push_bit 8 1" by simp
    then show ?thesis using that by (metis bit_1_iff bit_push_bit_iff diff_is_0_eq le_antisym)
  qed
  have "decodes st (rd_literal_matched (st_in st) (st_size st) 8 subcoder 0x100 (push_bit 1 (ucast match_byte)) (drop_bit 8 ?s))
      (matched_syms 8 subcoder 0x100 (ucast match_byte) ?s) (drop_bit 8 (push_bit 8 ?s))"
    by (rule decodes_matched_loop [OF assms rounds_left_start(1)]) (rule bits)
  moreover have "?s = 2 ^ 8 + ucast b" by (simp add: push_bit_of_1)
  ultimately show ?thesis unfolding literal_matched_syms_def one final by (simp only:)
qed

subsection \<open>Lengths\<close>

lemma unat_numeral_u32: "unat (2 :: u32) = 2" "unat (4 :: u32) = 4" "unat (8 :: u32) = 8"
  by simp_all

definition len_syms :: "(len_array \<Rightarrow> prob_array) \<Rightarrow> nat \<Rightarrow> u32 \<Rightarrow> prob_array sym list" where
  "len_syms arr pos_state len =
     (if len - 2 < 8 then [Sym_bit (arr L_choice, 0) False] @ tree_syms 3 (arr (L_low pos_state), 0) (len - 2) 1
      else [Sym_bit (arr L_choice, 0) True] @
        (if len - 2 - 8 < 8 then [Sym_bit (arr L_choice2, 0) False] @ tree_syms 3 (arr (L_mid pos_state), 0) (len - 2 - 8) 1
         else [Sym_bit (arr L_choice2, 0) True] @ tree_syms 8 (arr L_high, 0) (len - 2 - 8 - 8) 1))"

lemma length_len_syms: "length (len_syms arr pos_state len) \<le> 10"
  by (simp add: len_syms_def)

lemma queues_bits: "queues (rc_bit prob 0) [Sym_bit prob False]" "queues (rc_bit prob 1) [Sym_bit prob True]"
  using queues_bit [of prob 0] queues_bit [of prob 1] by simp_all

lemma queues_length: "queues (length_bits arr pos_state len) (len_syms arr pos_state len)"
proof (cases "len - 2 < 8")
  case True
  have "length_bits arr pos_state len = (\<lambda>rc. rc_bittree (arr (L_low pos_state), 0) 3 (len - 2) (rc_bit (arr L_choice, 0) 0 rc))"
    using True by (intro ext) (simp only: length_bits_def Let_def if_True)
  moreover have "len_syms arr pos_state len = [Sym_bit (arr L_choice, 0) False] @ tree_syms 3 (arr (L_low pos_state), 0) (len - 2) 1"
    using True by (simp only: len_syms_def if_True)
  ultimately show ?thesis using queues_comp [OF queues_bits(1) queues_tree] by (simp only:)
next
  case False
  show ?thesis
  proof (cases "len - 2 - 8 < 8")
    case True
    have "length_bits arr pos_state len
        = (\<lambda>rc. rc_bittree (arr (L_mid pos_state), 0) 3 (len - 2 - 8) (rc_bit (arr L_choice2, 0) 0 (rc_bit (arr L_choice, 0) 1 rc)))"
      using False True by (intro ext) (simp only: length_bits_def Let_def if_True if_False)
    moreover have "len_syms arr pos_state len = [Sym_bit (arr L_choice, 0) True] @ [Sym_bit (arr L_choice2, 0) False]
        @ tree_syms 3 (arr (L_mid pos_state), 0) (len - 2 - 8) 1"
      using False True by (simp only: len_syms_def if_True if_False)
    ultimately show ?thesis using queues_comp [OF queues_bits(2) queues_comp [OF queues_bits(1) queues_tree]] by (simp only:)
  next
    case False': False
    have "length_bits arr pos_state len
        = (\<lambda>rc. rc_bittree (arr L_high, 0) 8 (len - 2 - 8 - 8) (rc_bit (arr L_choice2, 0) 1 (rc_bit (arr L_choice, 0) 1 rc)))"
      using False False' by (intro ext) (simp only: length_bits_def Let_def if_False)
    moreover have "len_syms arr pos_state len = [Sym_bit (arr L_choice, 0) True] @ [Sym_bit (arr L_choice2, 0) True]
        @ tree_syms 8 (arr L_high, 0) (len - 2 - 8 - 8) 1"
      using False False' by (simp only: len_syms_def if_False)
    ultimately show ?thesis using queues_comp [OF queues_bits(2) queues_comp [OF queues_bits(2) queues_tree]] by (simp only:)
  qed
qed

lemma decodes_length:
  assumes st: "stream_ok st" and len: "2 \<le> len" "len \<le> 273"
  shows "decodes st (len_decode (st_in st) (st_size st) arr pos_state) (len_syms arr pos_state len) len"
proof -
  let ?tree = "\<lambda>n probs. rd_bittree (st_in st) (st_size st) n probs 1"
  have root: "decodes st (\<lambda>s. do { (symbol, s) \<leftarrow> ?tree n probs s; Some (g symbol, s) }) (tree_syms n probs l 1) (g (2 ^ n + l))"
    if "l < 2 ^ n" "n < 32" for n probs l and g :: "u32 \<Rightarrow> u32"
    using decodes_bind [OF decodes_tree_root [OF st that] decodes_return, of probs g] by simp
  show ?thesis
  proof (cases "len - 2 < 8")
    case True
    have "decodes st (len_decode (st_in st) (st_size st) arr pos_state)
        ([Sym_bit (arr L_choice, 0) False] @ tree_syms 3 (arr (L_low pos_state), 0) (len - 2) 1) (2 ^ 3 + (len - 2) - 8 + 2)"
      unfolding len_decode_def [abs_def]
      by (rule decodes_bind [OF decodes_bit [OF st]]) (use root [of "len - 2" 3 "(arr (L_low pos_state), 0)" "\<lambda>symbol. symbol - 8 + 2"] True in simp)
    then show ?thesis using True by (simp add: len_syms_def)
  next
    case False
    show ?thesis
    proof (cases "len - 2 - 8 < 8")
      case True
      have "decodes st (len_decode (st_in st) (st_size st) arr pos_state)
          ([Sym_bit (arr L_choice, 0) True] @ [Sym_bit (arr L_choice2, 0) False] @ tree_syms 3 (arr (L_mid pos_state), 0) (len - 2 - 8) 1)
          (2 ^ 3 + (len - 2 - 8) - 8 + 2 + 8)"
        unfolding len_decode_def [abs_def] not_True_eq_False if_False
        by (rule decodes_bind [OF decodes_bit [OF st]], simp only: not_True_eq_False if_False, rule decodes_bind [OF decodes_bit [OF st]])
          (use root [of "len - 2 - 8" 3 "(arr (L_mid pos_state), 0)" "\<lambda>symbol. symbol - 8 + 2 + 8"] True in simp)
      then show ?thesis using False True by (simp add: len_syms_def)
    next
      case False': False
      have small: "len - 2 - 8 - 8 < 2 ^ 8"
      proof -
        have "unat (len - 2) = unat len - unat (2 :: u32)" by (rule unat_sub [OF len(1)])
        moreover have "unat (len - 2 - 8) = unat (len - 2) - unat (8 :: u32)" by (rule unat_sub) (use False in simp)
        moreover have "unat (len - 2 - 8 - 8) = unat (len - 2 - 8) - unat (8 :: u32)" by (rule unat_sub) (use False' in simp)
        ultimately have "unat (len - 2 - 8 - 8) = unat len - 2 - 8 - 8" by (simp only: unat_numeral_u32)
        moreover have "unat len \<le> 273" using len(2) by (simp add: word_le_nat_alt)
        ultimately show ?thesis by (simp add: word_less_nat_alt)
      qed
      have "decodes st (len_decode (st_in st) (st_size st) arr pos_state)
          ([Sym_bit (arr L_choice, 0) True] @ [Sym_bit (arr L_choice2, 0) True] @ tree_syms 8 (arr L_high, 0) (len - 2 - 8 - 8) 1)
          (2 ^ 8 + (len - 2 - 8 - 8) - 256 + 2 + 8 + 8)"
        unfolding len_decode_def [abs_def]
        by (rule decodes_bind [OF decodes_bit [OF st]], simp only: not_True_eq_False if_False, rule decodes_bind [OF decodes_bit [OF st]])
          (use root [of "len - 2 - 8 - 8" 8 "(arr L_high, 0)" "\<lambda>symbol. symbol - 256 + 2 + 8 + 8"] small in simp)
      then show ?thesis using False False' by (simp add: len_syms_def)
    qed
  qed
qed

subsection \<open>Distances\<close>

text \<open>The numbers of a distance: its slot, the number of the other bits and their value.\<close>

definition footer_bits :: "u32 \<Rightarrow> nat" where
  "footer_bits dist_slot = unat (drop_bit 1 dist_slot - 1)"

definition slot_base :: "u32 \<Rightarrow> u32" where
  "slot_base dist_slot = push_bit (footer_bits dist_slot) (2 OR (dist_slot AND 1))"

definition dist_syms :: "u32 \<Rightarrow> prob_array sym list" where
  "dist_syms distance =
     (let dist_slot = get_dist_slot distance; dist_reduced = distance - slot_base dist_slot
      in if dist_slot \<ge> 4 then
           if dist_slot < 14 then
             reverse_syms (footer_bits dist_slot) (P_dist_special, int (unat (slot_base dist_slot)) - int (unat dist_slot) - 1) dist_reduced 1
           else direct_syms (drop_bit 4 dist_reduced) (footer_bits dist_slot - 4) @ reverse_syms 4 (P_dist_align, 0) (dist_reduced AND 15) 1
         else [])"

definition slot_syms :: "u32 \<Rightarrow> u32 \<Rightarrow> prob_array sym list" where
  "slot_syms distance len = tree_syms 6 (P_dist_slot (unat (get_dist_state len)), 0) (get_dist_slot distance) 1"

lemma get_dist_slot_less: "unat (get_dist_slot distance) < 64"
proof -
  have "slot_start (unat (get_dist_slot distance)) \<le> unat distance" using get_dist_slot_in_slot [of distance] by (simp add: in_slot_def)
  moreover have "unat distance < 2 ^ 32" using unsigned_less [of distance, where 'a = nat] by simp
  moreover have "slot_start 64 = 2 ^ 32" by (simp add: slot_start_def)
  moreover have "64 \<le> unat (get_dist_slot distance) \<Longrightarrow> slot_start 64 \<le> slot_start (unat (get_dist_slot distance))" by (rule slot_start_mono)
  ultimately show ?thesis by linarith
qed

lemma slot_small:
  assumes "get_dist_slot distance < 4"
  shows "get_dist_slot distance = distance" and "distance \<noteq> - 1"
proof -
  have s: "unat (get_dist_slot distance) < 4" using assms by (simp add: word_less_nat_alt)
  have i: "slot_start (unat (get_dist_slot distance)) \<le> unat distance" "unat distance < slot_start (Suc (unat (get_dist_slot distance)))"
    using get_dist_slot_in_slot [of distance] by (simp_all add: in_slot_def)
  have start: "slot_start k = k" if "k < 5" for k
  proof -
    have "k = 0 \<or> k = 1 \<or> k = 2 \<or> k = 3 \<or> k = 4" using that by linarith
    then show ?thesis by (auto simp: slot_start_def)
  qed
  have u: "unat distance = unat (get_dist_slot distance)" using i s start [of "unat (get_dist_slot distance)"] start [of "Suc (unat (get_dist_slot distance))"] by simp
  then show "get_dist_slot distance = distance" by (simp add: word_unat_eq_iff)
  show "distance \<noteq> - 1" 
  proof
    assume "distance = - 1"
    then have "unat distance = 2 ^ 32 - 1" by (simp only: unat_max_u32)
    then show False using u s by simp
  qed
qed

lemma low_bit: "2 OR ((w :: u32) AND 1) = 2 + (w AND 1)" "unat (2 OR (w AND 1)) = 2 + unat w mod 2"
proof -
  have w: "w AND 1 = of_bool (odd (unat w))" using and_1_of_bool [of 0 w] by (simp add: bit_0 even_unat)
  show e: "2 OR (w AND 1) = 2 + (w AND 1)" unfolding w by (cases "odd (unat w)") simp_all
  show "unat (2 OR (w AND 1)) = 2 + unat w mod 2" unfolding e unfolding w by (cases "odd (unat w)") (simp_all add: odd_iff_mod_2_eq_one)
qed

lemma slot_numbers:
  assumes "\<not> get_dist_slot distance < 4"
  shows "footer_bits (get_dist_slot distance) = unat (get_dist_slot distance) div 2 - 1"
    and "unat (slot_base (get_dist_slot distance)) = slot_start (unat (get_dist_slot distance))"
    and "unat (distance - slot_base (get_dist_slot distance)) < 2 ^ footer_bits (get_dist_slot distance)"
    and "slot_base (get_dist_slot distance) \<le> distance"
    and "2 OR (get_dist_slot distance AND 1) = 2 + (get_dist_slot distance AND 1)"
    and "footer_bits (get_dist_slot distance) < 32"
proof -
  let ?s = "unat (get_dist_slot distance)"
  have s: "4 \<le> ?s" "?s < 64" using assms get_dist_slot_less [of distance] by (simp_all add: word_less_nat_alt)
  have d: "unat (drop_bit 1 (get_dist_slot distance)) = ?s div 2" using unat_drop_bit_div [of 1 "get_dist_slot distance"] by simp
  show f: "footer_bits (get_dist_slot distance) = ?s div 2 - 1"
    unfolding footer_bits_def using s d by (subst unat_sub) (simp_all add: word_le_nat_alt)
  show f32: "footer_bits (get_dist_slot distance) < 32" unfolding f using s by simp
  show or: "2 OR (get_dist_slot distance AND 1) = 2 + (get_dist_slot distance AND 1)" by (rule low_bit(1))
  have two: "unat (2 OR (get_dist_slot distance AND 1)) = 2 + ?s mod 2" by (rule low_bit(2))
  have start: "slot_start ?s = (2 + ?s mod 2) * 2 ^ (?s div 2 - 1)" using s by (simp add: slot_start_def)
  have i: "slot_start ?s \<le> unat distance" "unat distance < slot_start (Suc ?s)" using get_dist_slot_in_slot [of distance] by (simp_all add: in_slot_def)
  have "slot_start ?s < 2 ^ 32" using i(1) unsigned_less [of distance, where 'a = nat] by simp
  then have lt: "unat (2 OR (get_dist_slot distance AND 1)) * 2 ^ (?s div 2 - 1) < 2 ^ LENGTH(32)" unfolding two start by simp
  show base: "unat (slot_base (get_dist_slot distance)) = slot_start ?s"
    unfolding slot_base_def f start unat_push_bit_mult [OF lt] two ..
  show le: "slot_base (get_dist_slot distance) \<le> distance" using i(1) unfolding word_le_nat_alt base .
  have "unat (distance - slot_base (get_dist_slot distance)) = unat distance - slot_start ?s"
    using le base by (simp add: unat_sub word_le_nat_alt)
  note sub = this
  have suc: "slot_start (Suc ?s) = slot_start ?s + 2 ^ (?s div 2 - 1)" by (rule slot_start_Suc) (rule order_trans [OF _ s(1)], simp)
  show "unat (distance - slot_base (get_dist_slot distance)) < 2 ^ footer_bits (get_dist_slot distance)"
    unfolding f sub less_diff_conv2 [OF i(1)] using i(2) unfolding suc by (simp only: add.commute)
qed

lemma queues_distance: "queues (match_distance distance len) (slot_syms distance len @ dist_syms distance)"
proof -
  let ?slot = "get_dist_slot distance" and ?reduced = "distance - slot_base (get_dist_slot distance)"
  have rest: "queues (\<lambda>rc. if ?slot \<ge> 4 then
        if ?slot < 14 then rc_bittree_reverse (P_dist_special, int (unat (slot_base ?slot)) - int (unat ?slot) - 1) (footer_bits ?slot) ?reduced rc
        else rc_bittree_reverse (P_dist_align, 0) 4 (?reduced AND 15) (rc_direct (drop_bit 4 ?reduced) (footer_bits ?slot - 4) rc)
      else rc) (dist_syms distance)"
  proof (cases "?slot \<ge> 4")
    case True
    show ?thesis
    proof (cases "?slot < 14")
      case True': True
      show ?thesis using True True' queues_reverse unfolding dist_syms_def Let_def by simp
    next
      case False
      show ?thesis using True False queues_comp [OF queues_direct queues_reverse] unfolding dist_syms_def Let_def by simp
    qed
  next
    case False
    then show ?thesis using queues_id by (simp add: dist_syms_def Let_def)
  qed
  have f4: "unat (drop_bit 1 ?slot - 1 - 4) = footer_bits ?slot - 4" if "\<not> ?slot < 14"
  proof -
    have s: "14 \<le> unat ?slot" using that by (simp add: word_less_nat_alt)
    then have n4: "\<not> ?slot < 4" by (simp add: word_less_nat_alt)
    have "4 \<le> footer_bits ?slot" unfolding slot_numbers(1) [OF n4] using s by simp
    then show ?thesis unfolding footer_bits_def by (subst unat_sub) (simp_all add: word_le_nat_alt)
  qed
  have "match_distance distance len = (\<lambda>rc. (\<lambda>rc. if ?slot \<ge> 4 then
        if ?slot < 14 then rc_bittree_reverse (P_dist_special, int (unat (slot_base ?slot)) - int (unat ?slot) - 1) (footer_bits ?slot) ?reduced rc
        else rc_bittree_reverse (P_dist_align, 0) 4 (?reduced AND 15) (rc_direct (drop_bit 4 ?reduced) (footer_bits ?slot - 4) rc)
      else rc) (rc_bittree (P_dist_slot (unat (get_dist_state len)), 0) 6 ?slot rc))"
    using f4 by (intro ext) (simp add: match_distance_def Let_def slot_base_def footer_bits_def)
  with queues_comp [OF queues_tree rest] show ?thesis unfolding slot_syms_def by (simp only:)
qed

lemma decodes_distance:
  assumes st: "stream_ok st"
  shows "decodes st (slot_decode (st_in st) (st_size st) len) (slot_syms distance len @ dist_syms distance) (distance, distance = - 1)"
proof -
  let ?slot = "get_dist_slot distance" and ?reduced = "distance - slot_base (get_dist_slot distance)"
  let ?f = "footer_bits ?slot"
  have slot64: "?slot < 2 ^ 6" using get_dist_slot_less [of distance] by (simp add: word_less_nat_alt)
  have rest: "decodes st (dist_decode (st_in st) (st_size st) ?slot) (dist_syms distance) (distance, distance = - 1)"
  proof (cases "?slot < 4")
    case True
    have "dist_decode (st_in st) (st_size st) ?slot = (\<lambda>s. Some ((?slot, False), s))" using True by (intro ext) (simp only: dist_decode_def if_True)
    moreover have "dist_syms distance = []" using True by (simp add: dist_syms_def Let_def not_le [symmetric])
    moreover have "(distance, distance = - 1) = (?slot, False)" using slot_small [OF True] by simp
    ultimately show ?thesis by (simp only: decodes_return)
  next
    case False
    note n = slot_numbers [OF False]
    have base: "push_bit ?f (2 + (?slot AND 1)) = slot_base ?slot" unfolding slot_base_def n(5) ..
    have f: "unat (drop_bit 1 ?slot - 1) = ?f" by (simp add: footer_bits_def)
    have red: "take_bit ?f ?reduced = ?reduced" using n(3) by (simp add: word_unat_eq_iff unat_take_bit_mod)
    show ?thesis
    proof (cases "?slot < 14")
      case True
      have "unat distance < slot_start 14"
        using get_dist_slot_in_slot [of distance] slot_start_mono [of "Suc (unat ?slot)" 14] True by (simp add: in_slot_def word_less_nat_alt)
      moreover have "slot_start 14 = 128" by (simp add: slot_start_def)
      ultimately have small: "distance \<noteq> - 1" using unat_max_u32 by auto
      have "decodes st (\<lambda>s. do { (rep0, s) \<leftarrow> rd_reverse (st_in st) (st_size st) ?f (P_dist_special, int (unat (slot_base ?slot)) - int (unat ?slot) - 1) 1 0 (slot_base ?slot) s;
            Some ((rep0, False), s) })
          (reverse_syms ?f (P_dist_special, int (unat (slot_base ?slot)) - int (unat ?slot) - 1) ?reduced 1 @ []) (slot_base ?slot + push_bit 0 (take_bit ?f ?reduced), False)"
        by (rule decodes_bind [OF decodes_reverse [OF st] decodes_return])
      moreover have "dist_decode (st_in st) (st_size st) ?slot
          = (\<lambda>s. do { (rep0, s) \<leftarrow> rd_reverse (st_in st) (st_size st) ?f (P_dist_special, int (unat (slot_base ?slot)) - int (unat ?slot) - 1) 1 0 (slot_base ?slot) s;
            Some ((rep0, False), s) })"
        using False True by (intro ext) (simp only: dist_decode_def Let_def if_False if_True f base)
      moreover have "dist_syms distance
          = reverse_syms ?f (P_dist_special, int (unat (slot_base ?slot)) - int (unat ?slot) - 1) ?reduced 1 @ []"
        using False True by (simp only: dist_syms_def Let_def not_less if_True append_Nil2)
      moreover have "(slot_base ?slot + push_bit 0 (take_bit ?f ?reduced), False) = (distance, distance = - 1)"
        using small unfolding red by simp
      ultimately show ?thesis by (simp only:)
    next
      case False': False
      have s: "14 \<le> unat ?slot" using False' by (simp add: word_less_nat_alt)
      have f4: "unat (drop_bit 1 ?slot - 1 - 4) = ?f - 4" "4 \<le> ?f"
      proof -
        show "4 \<le> ?f" unfolding n(1) using s by simp
        then show "unat (drop_bit 1 ?slot - 1 - 4) = ?f - 4" unfolding footer_bits_def by (subst unat_sub) (simp_all add: word_le_nat_alt)
      qed
      let ?rep0 = "push_bit (?f - 4) (2 + (?slot AND 1)) + take_bit (?f - 4) (drop_bit 4 ?reduced)"
      have val: "push_bit 4 ?rep0 + push_bit 0 (take_bit 4 (?reduced AND 15)) = distance"
      proof -
        have "take_bit (?f - 4) (drop_bit 4 ?reduced) = drop_bit 4 (take_bit ?f ?reduced)"
          using f4(2) by (simp add: drop_bit_take_bit)
        then have "push_bit 4 ?rep0 = push_bit 4 (push_bit (?f - 4) (2 + (?slot AND 1))) + push_bit 4 (drop_bit 4 ?reduced)"
          by (simp only: red push_bit_add)
        also have "push_bit 4 (push_bit (?f - 4) (2 + (?slot AND 1))) = slot_base ?slot"
          using f4(2) by (simp add: push_bit_push_bit base)
        finally have "push_bit 4 ?rep0 = slot_base ?slot + push_bit 4 (drop_bit 4 ?reduced)" .
        moreover have "?reduced AND 15 = take_bit 4 ?reduced" by (simp add: take_bit_eq_mask mask_eq_exp_minus_1)
        moreover have "push_bit 4 (drop_bit 4 ?reduced) + take_bit 4 ?reduced = ?reduced" by (rule bits_ident)
        ultimately show ?thesis by (simp add: add.assoc)
      qed
      have "decodes st (\<lambda>s. do { (rep0, s) \<leftarrow> rd_direct (st_in st) (st_size st) (?f - 4) (2 + (?slot AND 1)) s;
            (rep0, s) \<leftarrow> rd_reverse (st_in st) (st_size st) 4 (P_dist_align, 0) 1 0 (push_bit 4 rep0) s;
            Some ((rep0, rep0 = - 1), s) })
          (direct_syms (drop_bit 4 ?reduced) (?f - 4) @ reverse_syms 4 (P_dist_align, 0) (?reduced AND 15) 1 @ [])
          (push_bit 4 ?rep0 + push_bit 0 (take_bit 4 (?reduced AND 15)), push_bit 4 ?rep0 + push_bit 0 (take_bit 4 (?reduced AND 15)) = - 1)"
        by (rule decodes_bind [OF decodes_direct_bits [OF st] decodes_bind [OF decodes_reverse [OF st] decodes_return]])
      moreover have "dist_decode (st_in st) (st_size st) ?slot
          = (\<lambda>s. do { (rep0, s) \<leftarrow> rd_direct (st_in st) (st_size st) (?f - 4) (2 + (?slot AND 1)) s;
            (rep0, s) \<leftarrow> rd_reverse (st_in st) (st_size st) 4 (P_dist_align, 0) 1 0 (push_bit 4 rep0) s;
            Some ((rep0, rep0 = - 1), s) })"
        using False False' by (intro ext) (simp only: dist_decode_def Let_def if_False f4(1))
      moreover have "dist_syms distance
          = direct_syms (drop_bit 4 ?reduced) (?f - 4) @ reverse_syms 4 (P_dist_align, 0) (?reduced AND 15) 1 @ []"
        using False False' by (simp only: dist_syms_def Let_def not_less [symmetric] if_True if_False append_Nil2 not_False_eq_True)
      ultimately show ?thesis unfolding val by (simp only:)
    qed
  qed
  have "decodes st (slot_decode (st_in st) (st_size st) len) (slot_syms distance len @ dist_syms distance) (distance, distance = - 1)"
    unfolding slot_decode_def [abs_def] slot_syms_def
    by (rule decodes_bind [OF decodes_tree_root [OF st slot64]]) (use rest in \<open>simp_all add: algebra_simps\<close>)
  then show ?thesis .
qed

lemma length_dist_syms: "length (slot_syms distance len @ dist_syms distance) \<le> 36"
proof -
  have "length (dist_syms distance) \<le> 30"
  proof (cases "get_dist_slot distance < 4")
    case True
    then show ?thesis by (simp add: dist_syms_def Let_def not_le [symmetric])
  next
    case False
    have f: "footer_bits (get_dist_slot distance) \<le> 30" using slot_numbers(1) [OF False] get_dist_slot_less [of distance] by simp
    then show ?thesis by (auto simp add: dist_syms_def Let_def)
  qed
  then show ?thesis by (simp add: slot_syms_def)
qed

end
