(* ===== verification/Lzma_Memory.thy ===== *)
theory Lzma_Memory
  imports Lzma_Symbols
begin

unbundle bit_operations_syntax

text \<open>
  The probabilities in memory. \<open>lzma_ptrs\<close> are the elements of the arrays that the options make valid: the reset of the encoder and
  that of the decoder set all of them to one half, and the symbols touch no others. So nothing depends on what the allocated
  structures held before, and no access is outside the part of an array that was reset.
\<close>

subsection \<open>The arrays\<close>

fun len_array_size :: "nat \<Rightarrow> len_array \<Rightarrow> nat" where
  "len_array_size pos_states L_choice = 1"
| "len_array_size pos_states L_choice2 = 1"
| "len_array_size pos_states (L_low i) = (if i < pos_states then LEN_LOW_SYMBOLS else 0)"
| "len_array_size pos_states (L_mid i) = (if i < pos_states then LEN_MID_SYMBOLS else 0)"
| "len_array_size pos_states L_high = LEN_HIGH_SYMBOLS"

fun array_size :: "nat \<Rightarrow> nat \<Rightarrow> prob_array \<Rightarrow> nat" where
  "array_size literals pos_states (P_literal i) = (if i < literals then LITERAL_CODER_SIZE else 0)"
| "array_size literals pos_states (P_is_match i) = (if i < STATES then pos_states else 0)"
| "array_size literals pos_states (P_is_rep0_long i) = (if i < STATES then pos_states else 0)"
| "array_size literals pos_states P_is_rep = STATES"
| "array_size literals pos_states P_is_rep0 = STATES"
| "array_size literals pos_states P_is_rep1 = STATES"
| "array_size literals pos_states P_is_rep2 = STATES"
| "array_size literals pos_states (P_dist_slot i) = (if i < DIST_STATES then DIST_SLOTS else 0)"
| "array_size literals pos_states P_dist_special = FULL_DISTANCES - DIST_MODEL_END"
| "array_size literals pos_states P_dist_align = 2 ^ ALIGN_BITS"
| "array_size literals pos_states (P_match_len a) = len_array_size pos_states a"
| "array_size literals pos_states (P_rep_len a) = len_array_size pos_states a"

definition lzma_ptrs :: "lzma_options_lzma \<Rightarrow> prob set" where
  "lzma_ptrs options = {(arr, k). 0 \<le> k \<and> k < int (array_size (2 ^ (unat (lc options) + unat (lp options))) (2 ^ unat (pb options)) arr)}"

lemma lzma_ptrs_iff: "(arr, int k) \<in> lzma_ptrs options \<longleftrightarrow> k < array_size (2 ^ (unat (lc options) + unat (lp options))) (2 ^ unat (pb options)) arr"
  by (simp add: lzma_ptrs_def)

subsection \<open>The resets\<close>

definition resets :: "(probs \<Rightarrow> probs) \<Rightarrow> prob set \<Rightarrow> bool" where
  "resets f A \<longleftrightarrow> (\<forall>m a. (a \<in> A \<longrightarrow> f m a = bit_reset) \<and> (m a = bit_reset \<longrightarrow> f m a = bit_reset))"

lemma resets_comp: "resets f A \<Longrightarrow> resets g B \<Longrightarrow> resets (\<lambda>m. g (f m)) (A \<union> B)"
  by (simp add: resets_def)

lemma resets_update: "resets (\<lambda>m. m(p := bit_reset)) {p}"
  by (simp add: resets_def)

lemma resets_fold:
  assumes "\<And>i. resets (f i) (A i)"
  shows "resets (fold f xs) (\<Union>i\<in>set xs. A i)"
proof (induction xs)
  case (Cons x xs)
  from resets_comp [OF assms [of x] Cons] show ?case by (simp add: comp_def Un_commute)
qed (simp add: resets_def)

lemma resets_mono: "resets f A \<Longrightarrow> B \<subseteq> A \<Longrightarrow> resets f B"
  by (auto simp: resets_def)

lemma resets_bittree: "resets (bittree_reset (arr, 0) n) {(arr, int k) |k. k < 2 ^ n}"
proof -
  have "resets (fold (\<lambda>i m. m(elem (arr, 0) i := bit_reset)) [0..<2 ^ n]) (\<Union>i\<in>set [0..<2 ^ n]. {elem (arr, 0) i})"
    by (rule resets_fold) (rule resets_update)
  moreover have "(\<Union>i\<in>set [0..<2 ^ n]. {elem (arr, 0) i}) = {(arr, int k) |k. k < 2 ^ n}" by (auto simp: elem_def)
  moreover have "bittree_reset (arr, 0) n = fold (\<lambda>i m. m(elem (arr, 0) i := bit_reset)) [0..<2 ^ n]" by (rule ext) (simp add: bittree_reset_def)
  ultimately show ?thesis by simp
qed

lemma resets_array: "resets (fold (\<lambda>k m. m((arr, int k) := bit_reset)) [0..<n]) {(arr, int k) |k. k < n}"
  by (rule resets_mono [OF resets_fold [OF resets_update]]) auto

definition cells :: "prob_array set \<Rightarrow> nat \<Rightarrow> prob set" where
  "cells arrs n = {(arr, int k) |arr k. arr \<in> arrs \<and> k < n}"

lemma resets_literal:
  assumes "unat (lc' + lp') = n" and "n < 32"
  shows "resets (literal_init lc' lp') (cells (P_literal ` {..<2 ^ n}) LITERAL_CODER_SIZE)"
proof -
  have n: "unat (push_bit (unat (lc' + lp')) (1 :: u32)) = 2 ^ n" unfolding assms(1) using unat_pow2 [OF assms(2)] by (simp add: push_bit_of_1)
  have "resets (fold (\<lambda>i. fold (\<lambda>j m. m((P_literal i, int j) := bit_reset)) [0..<768]) [0..<2 ^ n]) (\<Union>i\<in>set [0..<2 ^ n]. {(P_literal i, int k) |k. k < 768})"
    by (rule resets_fold) (rule resets_array)
  moreover have "literal_init lc' lp' = fold (\<lambda>i. fold (\<lambda>j m. m((P_literal i, int j) := bit_reset)) [0..<768]) [0..<2 ^ n]"
    by (rule ext) (simp only: literal_init_def n)
  ultimately show ?thesis by (auto simp: cells_def elim!: resets_mono)
qed

lemma resets_states:
  assumes "Suc (unat pos_mask) = n"
  shows "resets (states_reset pos_mask)
    (cells (P_is_match ` {..<12}) n \<union> cells (P_is_rep0_long ` {..<12}) n \<union> cells {P_is_rep, P_is_rep0, P_is_rep1, P_is_rep2} 12)"
proof -
  let ?row = "\<lambda>i m. fold (\<lambda>j m. m((P_is_match i, int j) := bit_reset, (P_is_rep0_long i, int j) := bit_reset)) [0..<n] m"
  let ?one = "\<lambda>i m. (?row i m)((P_is_rep, int i) := bit_reset, (P_is_rep0, int i) := bit_reset, (P_is_rep1, int i) := bit_reset, (P_is_rep2, int i) := bit_reset)"
  let ?A = "\<lambda>i :: nat. (\<Union>j\<in>set [0..<n]. {(P_is_match i, int j), (P_is_rep0_long i, int j)})
      \<union> {(P_is_rep, int i), (P_is_rep0, int i), (P_is_rep1, int i), (P_is_rep2, int i)}"
  have row: "resets (?row i) (\<Union>j\<in>set [0..<n]. {(P_is_match i, int j), (P_is_rep0_long i, int j)})" for i
    by (rule resets_fold) (simp add: resets_def)
  have "resets (?one i) (?A i)" for i
    by (rule resets_comp [OF row]) (simp add: resets_def)
  then have r: "resets (fold ?one [0..<12]) (\<Union>i\<in>set [0..<12]. ?A i)" by (rule resets_fold)
  have e: "states_reset pos_mask = fold ?one [0..<12]" by (rule ext) (simp only: states_reset_def assms)
  have sub: "cells (P_is_match ` {..<12}) n \<union> cells (P_is_rep0_long ` {..<12}) n \<union> cells {P_is_rep, P_is_rep0, P_is_rep1, P_is_rep2} 12
      \<subseteq> (\<Union>i\<in>set [0..<12]. ?A i)" by (auto simp: cells_def)
  show ?thesis unfolding e by (rule resets_mono [OF r sub])
qed

lemma resets_dist: "resets dist_reset (cells (P_dist_slot ` {..<4}) 64 \<union> cells {P_dist_special} 114 \<union> cells {P_dist_align} 16)"
proof -
  have slots: "resets (fold (\<lambda>i. bittree_reset (P_dist_slot i, 0) 6) [0..<4]) (\<Union>i\<in>set [0..<4]. {(P_dist_slot i, int k) |k. k < 2 ^ 6})"
    by (rule resets_fold) (rule resets_bittree)
  have special: "resets (fold (\<lambda>i m. m((P_dist_special, int i) := bit_reset)) [0..<2 ^ (14 div 2) - 14]) {(P_dist_special, int k) |k. k < 2 ^ (14 div 2) - 14}"
    by (rule resets_array)
  have e: "dist_reset = (\<lambda>m. bittree_reset (P_dist_align, 0) 4 (fold (\<lambda>i m. m((P_dist_special, int i) := bit_reset)) [0..<2 ^ (14 div 2) - 14]
      (fold (\<lambda>i. bittree_reset (P_dist_slot i, 0) 6) [0..<4] m)))"
    by (rule ext) (simp only: dist_reset_def Let_def)
  show ?thesis unfolding e
    by (rule resets_mono [OF resets_comp [OF resets_comp [OF slots special] resets_bittree]]) (auto simp: cells_def)
qed

lemma resets_length:
  "resets (length_reset arr n) (cells {arr L_choice, arr L_choice2} 1 \<union> cells ((\<lambda>i. arr (L_low i)) ` {..<n}) 8
     \<union> cells ((\<lambda>i. arr (L_mid i)) ` {..<n}) 8 \<union> cells {arr L_high} 256)"
proof -
  let ?step = "\<lambda>i m. bittree_reset (arr (L_mid i), 0) 3 (bittree_reset (arr (L_low i), 0) 3 m)"
  have choice: "resets (\<lambda>m. m((arr L_choice, 0) := bit_reset, (arr L_choice2, 0) := bit_reset)) {(arr L_choice, 0), (arr L_choice2, 0)}"
    by (simp add: resets_def)
  have "resets (?step i) ({(arr (L_low i), int k) |k. k < 2 ^ 3} \<union> {(arr (L_mid i), int k) |k. k < 2 ^ 3})" for i
    by (rule resets_comp [OF resets_bittree resets_bittree])
  then have steps: "resets (fold ?step [0..<n]) (\<Union>i\<in>set [0..<n]. {(arr (L_low i), int k) |k. k < 2 ^ 3} \<union> {(arr (L_mid i), int k) |k. k < 2 ^ 3})"
    by (rule resets_fold)
  have e: "length_reset arr n = (\<lambda>m. bittree_reset (arr L_high, 0) 8 (fold ?step [0..<n] (m((arr L_choice, 0) := bit_reset, (arr L_choice2, 0) := bit_reset))))"
    by (rule ext) (simp only: length_reset_def Let_def)
  show ?thesis unfolding e
    by (rule resets_mono [OF resets_comp [OF resets_comp [OF choice steps] resets_bittree]]) (auto simp: cells_def)
qed

text \<open>All of them together.\<close>

definition probs_reset :: "lzma_options_lzma \<Rightarrow> probs \<Rightarrow> probs" where
  "probs_reset options probs =
     (let num_pos_states = unat (push_bit (unat (pb options)) (1 :: u32))
      in length_reset P_rep_len num_pos_states (length_reset P_match_len num_pos_states (dist_reset
           (states_reset (push_bit (unat (pb options)) 1 - 1) (literal_init (lc options) (lp options) probs)))))"

lemma lclppb_bounds:
  assumes "is_lclppb_valid options"
  shows "unat (lc options + lp options) = unat (lc options) + unat (lp options)" and "unat (lc options) + unat (lp options) \<le> 4"
    and "unat (pb options) \<le> 4"
proof -
  have u: "unat (lc options) \<le> 4" "unat (lp options) \<le> 4" "unat (pb options) \<le> 4"
    using assms by (simp_all add: is_lclppb_valid_def word_le_nat_alt)
  then show a: "unat (lc options + lp options) = unat (lc options) + unat (lp options)" by (subst unat_add_small) simp_all
  have "lc options + lp options \<le> 4" using assms by (simp add: is_lclppb_valid_def)
  then have "unat (lc options + lp options) \<le> unat (4 :: u32)" by (simp only: word_le_nat_alt)
  then show "unat (lc options) + unat (lp options) \<le> 4" by (simp only: a) simp
  show "unat (pb options) \<le> 4" by (rule u(3))
qed

lemma pos_mask_bits:
  assumes "n \<le> 4"
  shows "unat (push_bit n (1 :: u32)) = 2 ^ n" and "unat (push_bit n (1 :: u32) - 1) = 2 ^ n - 1" and "push_bit n (1 :: u32) - 1 = mask n"
proof -
  show p: "unat (push_bit n (1 :: u32)) = 2 ^ n" using unat_pow2 [of n] assms by (simp add: push_bit_of_1)
  show "unat (push_bit n (1 :: u32) - 1) = 2 ^ n - 1" using p by (subst unat_sub) (simp_all add: word_le_nat_alt)
  show "push_bit n (1 :: u32) - 1 = mask n" by (simp add: mask_eq_exp_minus_1 push_bit_of_1)
qed

lemma probs_reset_ok:
  assumes "is_lclppb_valid options" and "a \<in> lzma_ptrs options"
  shows "probs_reset options m a = bit_reset"
proof -
  note b = lclppb_bounds [OF assms(1)] and p = pos_mask_bits [OF lclppb_bounds(3) [OF assms(1)]]
  let ?l = "unat (lc options) + unat (lp options)" and ?p = "2 ^ unat (pb options)"
  have mask: "Suc (unat (push_bit (unat (pb options)) (1 :: u32) - 1)) = ?p" unfolding p(2) by simp
  have l32: "?l < 32" using b(2) by simp
  have r: "resets (probs_reset options)
     ((((cells (P_literal ` {..<2 ^ ?l}) LITERAL_CODER_SIZE
        \<union> (cells (P_is_match ` {..<12}) ?p \<union> cells (P_is_rep0_long ` {..<12}) ?p \<union> cells {P_is_rep, P_is_rep0, P_is_rep1, P_is_rep2} 12))
       \<union> (cells (P_dist_slot ` {..<4}) 64 \<union> cells {P_dist_special} 114 \<union> cells {P_dist_align} 16))
      \<union> (cells {P_match_len L_choice, P_match_len L_choice2} 1 \<union> cells ((\<lambda>i. P_match_len (L_low i)) ` {..<?p}) 8
         \<union> cells ((\<lambda>i. P_match_len (L_mid i)) ` {..<?p}) 8 \<union> cells {P_match_len L_high} 256))
     \<union> (cells {P_rep_len L_choice, P_rep_len L_choice2} 1 \<union> cells ((\<lambda>i. P_rep_len (L_low i)) ` {..<?p}) 8
         \<union> cells ((\<lambda>i. P_rep_len (L_mid i)) ` {..<?p}) 8 \<union> cells {P_rep_len L_high} 256))"
    (is "resets _ ?A")
    using resets_comp [OF resets_comp [OF resets_comp [OF resets_comp [OF resets_literal [OF b(1) l32] resets_states [OF mask]] resets_dist]
        resets_length [of P_match_len ?p]] resets_length [of P_rep_len ?p]]
    unfolding probs_reset_def [abs_def] Let_def p(1) .
  obtain arr k where a: "a = (arr, int k)" and k: "k < array_size (2 ^ ?l) ?p arr"
    using assms(2) by (cases a) (auto simp: lzma_ptrs_def dest: zero_le_imp_eq_int)
  have "a \<in> ?A"
  proof (cases arr)
    case (P_match_len la)
    then show ?thesis using k by (cases la) (simp_all add: a cells_def image_iff split: if_splits)
  next
    case (P_rep_len la)
    then show ?thesis using k by (cases la) (simp_all add: a cells_def image_iff split: if_splits)
  qed (use k in \<open>simp_all add: a cells_def image_iff split: if_splits\<close>)
  then show ?thesis using r unfolding resets_def by blast
qed

subsection \<open>The probabilities that the symbols touch\<close>

definition indices :: "prob \<Rightarrow> nat set \<Rightarrow> prob set" where
  "indices p A = {(fst p, snd p + int k) |k. k \<in> A}"

lemma indicesI: "k \<in> A \<Longrightarrow> elem p k \<in> indices p A"
  by (auto simp: indices_def elem_def)

lemma indices_mono: "A \<subseteq> B \<Longrightarrow> indices p A \<subseteq> indices p B"
  by (auto simp: indices_def)

lemma next_index:
  assumes "(unat m + 1) * 2 ^ Suc n \<le> 2 ^ 32"
  shows "unat (push_bit 1 m + of_bool b :: u32) = 2 * unat m + of_bool b"
    and "(unat (push_bit 1 m + of_bool b :: u32) + 1) * 2 ^ n \<le> (unat m + 1) * 2 ^ Suc n"
proof -
  have "(unat m + 1) * 2 * 1 \<le> (unat m + 1) * 2 * 2 ^ n" by (intro mult_le_mono2) simp
  then have "(unat m + 1) * 2 \<le> 2 ^ 32" using assms by (simp add: mult.assoc)
  then have m: "2 * unat m + 2 \<le> 2 ^ 32" by simp
  then have "unat (push_bit 1 m) = 2 * unat m" using unat_push_bit_mult [of m 1] by simp
  then show u: "unat (push_bit 1 m + of_bool b :: u32) = 2 * unat m + of_bool b"
    using m by (subst unat_add_small) (cases b; simp)+
  have "(2 * unat m + of_bool b + 1) * 2 ^ n \<le> (2 * unat m + 2) * 2 ^ n" by (intro mult_le_mono1) simp
  then show "(unat (push_bit 1 m + of_bool b :: u32) + 1) * 2 ^ n \<le> (unat m + 1) * 2 ^ Suc n" unfolding u by simp
qed

lemma first_index: "elem p (unat m) \<in> indices p {k. unat m \<le> k \<and> 2 * k < (unat m + 1) * 2 ^ Suc n}"
proof (rule indicesI)
  have "(unat m + 1) * 2 * 1 \<le> (unat m + 1) * 2 * 2 ^ n" by (intro mult_le_mono2) simp
  moreover have "2 * unat m < (unat m + 1) * 2 * 1" by simp
  ultimately have "2 * unat m < (unat m + 1) * 2 * 2 ^ n" by (rule less_le_trans [rotated])
  then show "unat m \<in> {k. unat m \<le> k \<and> 2 * k < (unat m + 1) * 2 ^ Suc n}" by (simp only: mem_Collect_eq power_Suc mult.assoc order_refl simp_thms)
qed

lemma tree_ptrs:
  "(unat m + 1) * 2 ^ n \<le> 2 ^ 32 \<Longrightarrow> sym_ptrs (tree_syms n p symbol m) \<subseteq> indices p {k. unat m \<le> k \<and> 2 * k < (unat m + 1) * 2 ^ n}"
proof (induction n arbitrary: m)
  case (Suc n)
  let ?m = "push_bit 1 m + of_bool (bit symbol n) :: u32"
  note nx = next_index [OF Suc.prems, of "bit symbol n"]
  have "sym_ptrs (tree_syms n p symbol ?m) \<subseteq> indices p {k. unat ?m \<le> k \<and> 2 * k < (unat ?m + 1) * 2 ^ n}"
    by (rule Suc.IH) (use nx(2) Suc.prems in linarith)
  also have "\<dots> \<subseteq> indices p {k. unat m \<le> k \<and> 2 * k < (unat m + 1) * 2 ^ Suc n}"
    by (intro indices_mono subsetI) (use nx in auto)
  finally show ?case using first_index [of p m n] by (simp only: tree_syms.simps reverse_syms.simps sym_ptrs.simps insert_subset simp_thms)
qed simp

lemma reverse_ptrs:
  "(unat m + 1) * 2 ^ n \<le> 2 ^ 32 \<Longrightarrow> sym_ptrs (reverse_syms n p symbol m) \<subseteq> indices p {k. unat m \<le> k \<and> 2 * k < (unat m + 1) * 2 ^ n}"
proof (induction n arbitrary: m symbol)
  case (Suc n)
  let ?m = "push_bit 1 m + of_bool (bit symbol 0) :: u32"
  note nx = next_index [OF Suc.prems, of "bit symbol 0"]
  have "sym_ptrs (reverse_syms n p (drop_bit 1 symbol) ?m) \<subseteq> indices p {k. unat ?m \<le> k \<and> 2 * k < (unat ?m + 1) * 2 ^ n}"
    by (rule Suc.IH) (use nx(2) Suc.prems in linarith)
  also have "\<dots> \<subseteq> indices p {k. unat m \<le> k \<and> 2 * k < (unat m + 1) * 2 ^ Suc n}"
    by (intro indices_mono subsetI) (use nx in auto)
  finally show ?case using first_index [of p m n] by (simp only: tree_syms.simps reverse_syms.simps sym_ptrs.simps insert_subset simp_thms)
qed simp

lemma root_ptrs:
  assumes "n \<le> 31"
  shows "sym_ptrs (tree_syms n p symbol 1) \<subseteq> indices p {1..<2 ^ n}" and "sym_ptrs (reverse_syms n p symbol 1) \<subseteq> indices p {1..<2 ^ n}"
proof -
  have "2 * 2 ^ n \<le> 2 * (2 :: nat) ^ 31" using assms by (intro mult_le_mono2 power_increasing) simp_all
  then have b: "(unat (1 :: u32) + 1) * 2 ^ n \<le> 2 ^ 32" by simp
  have e: "{k. unat (1 :: u32) \<le> k \<and> 2 * k < (unat (1 :: u32) + 1) * 2 ^ n} = {1..<2 ^ n}" by auto
  show "sym_ptrs (tree_syms n p symbol 1) \<subseteq> indices p {1..<2 ^ n}" using tree_ptrs [OF b] unfolding e .
  show "sym_ptrs (reverse_syms n p symbol 1) \<subseteq> indices p {1..<2 ^ n}" using reverse_ptrs [OF b] unfolding e .
qed

lemma direct_ptrs: "sym_ptrs (direct_syms value n) = {}"
  by (induction n) simp_all

lemma matched_ptrs:
  "rounds_left n symbol \<Longrightarrow> (\<And>i. bit offset i \<Longrightarrow> i = 8) \<Longrightarrow> sym_ptrs (matched_syms n p offset match_byte symbol) \<subseteq> indices p {..<0x300}"
proof (induction n arbitrary: offset match_byte symbol)
  case (Suc n)
  let ?mb = "push_bit 1 match_byte" and ?symbol = "push_bit 1 symbol"
  have small: "unat w \<le> 256" if "\<And>i. bit (w :: u32) i \<Longrightarrow> i = 8" for w
  proof -
    have c: "bit (push_bit 8 1 :: u32) i \<longleftrightarrow> i = 8" for i unfolding bit_push_bit_iff bit_1_iff by auto
    have "w = 0 \<or> w = push_bit 8 1"
    proof (cases "bit w 8")
      case True
      have "bit w i = bit (push_bit 8 1 :: u32) i" for i unfolding c using True that [of i] by (cases "i = 8") blast+
      then show ?thesis by (intro disjI2 bit_word_eqI)
    next
      case False
      then have "bit w i = bit (0 :: u32) i" for i using that [of i] by (cases "bit w i") simp_all
      then show ?thesis by (intro disjI1 bit_word_eqI)
    qed
    then show ?thesis by auto
  qed
  have "(2 :: nat) ^ (17 - Suc n) \<le> 2 ^ 16" by (rule power_increasing) simp_all
  then have "unat symbol < 2 ^ 16" using Suc.prems(1) by (simp add: rounds_left_def)
  then have s: "unat (drop_bit 8 symbol) < 256" unfolding unat_drop_bit_div by simp
  have o: "unat offset \<le> 256" "unat (?mb AND offset) \<le> 256" using Suc.prems(2) by (intro small, simp add: bit_and_iff)+
  have "unat (offset + (?mb AND offset)) = unat offset + unat (?mb AND offset)" using o by (subst unat_add_small) simp_all
  then have "unat (offset + (?mb AND offset) + drop_bit 8 symbol) < 0x300" using o s by (subst unat_add_small) simp_all
  then have hd: "elem p (unat (offset + (?mb AND offset) + drop_bit 8 symbol)) \<in> indices p {..<0x300}" by (intro indicesI) simp
  have "sym_ptrs (matched_syms n p (offset AND NOT (?mb XOR ?symbol)) ?mb ?symbol) \<subseteq> indices p {..<0x300}"
    by (rule Suc.IH [OF rounds_left_Suc(1) [OF Suc.prems(1)]]) (use Suc.prems(2) in \<open>simp add: bit_and_iff\<close>)
  then show ?case using hd by (simp add: Let_def)
qed simp

end
