(* ===== verification/Lzma_Choice.thy ===== *)
theory Lzma_Choice
  imports Lzma_Memory
begin

unbundle bit_operations_syntax

text \<open>
  The symbols of a choice: what \<open>encode_symbol\<close> and \<open>encode_eopm\<close> queue, as a function of the data, the position, the state and the
  last distances.
\<close>

subsection \<open>The symbols\<close>

definition pos_state_of :: "lzma_options_lzma \<Rightarrow> nat \<Rightarrow> nat" where
  "pos_state_of options p = p mod 2 ^ unat (pb options)"

definition prev_byte :: "byte list \<Rightarrow> nat \<Rightarrow> byte" where
  "prev_byte data p = (if p = 0 then 0 else data ! (p - 1))"

definition literal_coder :: "lzma_options_lzma \<Rightarrow> nat \<Rightarrow> byte \<Rightarrow> prob" where
  "literal_coder options p prev = literal_subcoder (lc options) (push_bit (unat (lp options)) 1 - 1) (word_of_nat p) prev"

definition literal_syms :: "prob \<Rightarrow> lzma_lzma_state \<Rightarrow> byte \<Rightarrow> byte \<Rightarrow> prob_array sym list" where
  "literal_syms subcoder state match_byte b =
     (if is_literal_state state then tree_syms 8 subcoder (ucast b) 1 else literal_matched_syms subcoder match_byte b)"

definition rep_syms :: "nat \<Rightarrow> lzma_lzma_state \<Rightarrow> u32 \<Rightarrow> u32 \<Rightarrow> prob_array sym list" where
  "rep_syms pos_state state rep len =
     (if rep = 0 then [Sym_bit (P_is_rep0, int state) False, Sym_bit (P_is_rep0_long state, int pos_state) (len \<noteq> 1)]
      else Sym_bit (P_is_rep0, int state) True
        # (if rep = 1 then [Sym_bit (P_is_rep1, int state) False]
           else [Sym_bit (P_is_rep1, int state) True, Sym_bit (P_is_rep2, int state) (rep \<noteq> 2)]))
     @ (if len = 1 then [] else len_syms P_rep_len pos_state len)"

definition match_syms :: "nat \<Rightarrow> u32 \<Rightarrow> u32 \<Rightarrow> prob_array sym list" where
  "match_syms pos_state distance len = len_syms P_match_len pos_state len @ slot_syms distance len @ dist_syms distance"

definition symbol_syms ::
  "lzma_options_lzma \<Rightarrow> byte list \<Rightarrow> nat \<Rightarrow> lzma_lzma_state \<Rightarrow> u32 list \<Rightarrow> u32 \<Rightarrow> u32 \<Rightarrow> prob_array sym list" where
  "symbol_syms options data p state reps back len =
     (let ps = pos_state_of options p
      in if back = - 1 then
           [Sym_bit (P_is_match state, int ps) False]
           @ literal_syms (literal_coder options p (prev_byte data p)) state (data ! (p - 1 - unat (reps ! 0))) (data ! p)
         else if back < 4 then [Sym_bit (P_is_match state, int ps) True, Sym_bit (P_is_rep, int state) True] @ rep_syms ps state back len
         else [Sym_bit (P_is_match state, int ps) True, Sym_bit (P_is_rep, int state) False] @ match_syms ps (back - 4) len)"

definition eopm_syms :: "lzma_options_lzma \<Rightarrow> nat \<Rightarrow> lzma_lzma_state \<Rightarrow> prob_array sym list" where
  "eopm_syms options p state =
     [Sym_bit (P_is_match state, int (pos_state_of options p)) True, Sym_bit (P_is_rep, int state) False] @ match_syms (pos_state_of options p) (- 1) 2"

definition next_reps :: "u32 list \<Rightarrow> u32 \<Rightarrow> u32 list" where
  "next_reps reps back =
     (if back = - 1 \<or> back = 0 then reps
      else if back = 1 then [reps ! 1, reps ! 0, reps ! 2, reps ! 3]
      else if back = 2 then [reps ! 2, reps ! 0, reps ! 1, reps ! 3]
      else if back = 3 then [reps ! 3, reps ! 0, reps ! 1, reps ! 2]
      else [back - 4, reps ! 0, reps ! 1, reps ! 2])"

definition state_after :: "lzma_lzma_state \<Rightarrow> u32 \<Rightarrow> u32 \<Rightarrow> lzma_lzma_state" where
  "state_after state back len =
     (if back = - 1 then update_literal state
      else if back < 4 then (if len = 1 then update_short_rep state else update_long_rep state)
      else update_match state)"

subsection \<open>The encoder queues them\<close>

definition queued :: "prob_array sym list \<Rightarrow> lzma_lzma_state \<Rightarrow> u32 list \<Rightarrow> lzma_encoder \<Rightarrow> lzma_encoder \<Rightarrow> bool" where
  "queued syms state reps coder coder' \<longleftrightarrow> (\<exists>f. queues f syms \<and> le_rc coder' = f (le_rc coder)) \<and> le_state coder' = state \<and> le_reps coder' = reps
     \<and> le_probs coder' = le_probs coder \<and> le_pos_mask coder' = le_pos_mask coder \<and> le_literal_context_bits coder' = le_literal_context_bits coder
     \<and> le_literal_pos_mask coder' = le_literal_pos_mask coder \<and> le_is_initialized coder' = le_is_initialized coder
     \<and> le_is_flushed coder' = le_is_flushed coder"

lemma queued_comp:
  assumes "queued xs state reps coder coder'" and "queued ys state' reps' coder' coder''"
  shows "queued (xs @ ys) state' reps' coder coder''"
proof -
  obtain f g where "queues f xs" "le_rc coder' = f (le_rc coder)" "queues g ys" "le_rc coder'' = g (le_rc coder')"
    using assms unfolding queued_def by blast
  then have "queues (\<lambda>rc. g (f rc)) (xs @ ys) \<and> le_rc coder'' = g (f (le_rc coder))" using queues_comp by simp
  then show ?thesis using assms unfolding queued_def by (intro conjI exI [of _ "\<lambda>rc. g (f rc)"]) simp_all
qed

lemma queued_rc: "queues f syms \<Longrightarrow> queued syms (le_state coder) (le_reps coder) coder (coder\<lparr>le_rc := f (le_rc coder)\<rparr>)"
  by (auto simp: queued_def)

lemma queued_bit:
  "queued [Sym_bit prob (b \<noteq> 0)] (le_state coder) (le_reps coder) coder (coder\<lparr>le_rc := rc_bit prob b (le_rc coder)\<rparr>)"
  by (rule queued_rc [OF queues_bit])

lemma queued_literal:
  fixes mf :: lzma_mf
  assumes cur: "unat (mf_read_pos mf - mf_read_ahead mf) = p" and prev: "unat (mf_read_pos mf - mf_read_ahead mf - 1) = p - 1" "0 < p"
    and match: "\<not> is_literal_state (le_state coder) \<Longrightarrow> unat (mf_read_pos mf - le_reps coder ! 0 - 1 - mf_read_ahead mf) = p - 1 - unat (le_reps coder ! 0)"
    and masks: "le_literal_context_bits coder = lc options" "le_literal_pos_mask coder = push_bit (unat (lp options)) 1 - 1"
  shows "queued (literal_syms (literal_coder options p (prev_byte (mf_buffer mf) p)) (le_state coder) (mf_buffer mf ! (p - 1 - unat (le_reps coder ! 0)))
      (mf_buffer mf ! p)) (update_literal (le_state coder)) (le_reps coder) coder (literal mf (word_of_nat p) coder)"
proof (cases "is_literal_state (le_state coder)")
  case True
  then show ?thesis
    using queues_tree [of "literal_coder options p (prev_byte (mf_buffer mf) p)" 8 "ucast (mf_buffer mf ! p)"] prev
    by (auto simp: queued_def literal_def literal_syms_def literal_coder_def prev_byte_def masks cur Let_def)
next
  case False
  then show ?thesis
    using queues_literal_matched [of "literal_coder options p (prev_byte (mf_buffer mf) p)" "mf_buffer mf ! (p - 1 - unat (le_reps coder ! 0))"
        "mf_buffer mf ! p"] prev match
    by (auto simp: queued_def literal_def literal_syms_def literal_coder_def prev_byte_def masks cur Let_def)
qed

lemma queued_match:
  "queued (match_syms pos_state distance len) (update_match (le_state coder)) [distance, le_reps coder ! 0, le_reps coder ! 1, le_reps coder ! 2] coder
     (match pos_state distance len coder)"
proof -
  have "queues (\<lambda>rc. match_distance distance len (length_bits P_match_len pos_state len rc)) (match_syms pos_state distance len)"
    unfolding match_syms_def by (rule queues_comp [OF queues_length queues_distance])
  then show ?thesis unfolding queued_def match_def Let_def by auto
qed

lemma u32_cases4: "(rep :: u32) < 4 \<Longrightarrow> rep = 0 \<or> rep = 1 \<or> rep = 2 \<or> rep = 3"
proof -
  assume "rep < 4"
  then have "unat rep < 4" by (simp add: word_less_nat_alt)
  then have "unat rep = 0 \<or> unat rep = 1 \<or> unat rep = 2 \<or> unat rep = 3" by linarith
  then show ?thesis by (auto simp: word_unat_eq_iff)
qed

lemma list_of_four: "length xs = 4 \<Longrightarrow> \<exists>a b c d. xs = [a, b, c, d]"
  by (simp add: length_Suc_conv numeral_eq_Suc) blast

lemma queued_rep_match:
  assumes rep: "rep < 4" and reps: "length (le_reps coder) = 4"
  shows "queued (rep_syms pos_state (le_state coder) rep len) (state_after (le_state coder) rep len) (next_reps (le_reps coder) rep) coder
     (rep_match pos_state rep len coder)"
proof -
  let ?s = "le_state coder" and ?l = "rc_bit (P_is_rep0_long (le_state coder), int pos_state) (if len \<noteq> 1 then 1 else 0)"
  obtain a b c d where r: "le_reps coder = [a, b, c, d]" using list_of_four [OF reps] by blast
  have long: "queues ?l [Sym_bit (P_is_rep0_long ?s, int pos_state) (len \<noteq> 1)]"
    using queues_bit [of "(P_is_rep0_long ?s, int pos_state)" "if len \<noteq> 1 then 1 else 0"] by (cases "len = 1") simp_all
  define coder1 where "coder1 = (if rep = 0 then coder\<lparr>le_rc := ?l (rc_bit (P_is_rep0, int ?s) 0 (le_rc coder))\<rparr>
    else if rep = 1 then coder\<lparr>le_rc := rc_bit (P_is_rep1, int ?s) 0 (rc_bit (P_is_rep0, int ?s) 1 (le_rc coder)), le_reps := [b, a, c, d]\<rparr>
    else coder\<lparr>le_rc := rc_bit (P_is_rep2, int ?s) (rep - 2) (rc_bit (P_is_rep1, int ?s) 1 (rc_bit (P_is_rep0, int ?s) 1 (le_rc coder))),
      le_reps := (if rep = 2 then [c, a, b, d] else [d, a, b, c])\<rparr>)"
  have e: "rep_match pos_state rep len coder =
      (if len = 1 then coder1\<lparr>le_state := update_short_rep ?s\<rparr>
       else coder1\<lparr>le_rc := length_bits P_rep_len pos_state len (le_rc coder1),
          le_rep_len_prices := length_count P_rep_len (le_probs coder1) pos_state (le_fast_mode coder1) (le_rep_len_prices coder1),
          le_state := update_long_rep ?s\<rparr>)"
    using u32_cases4 [OF rep] r by (elim disjE) (simp_all add: rep_match_def coder1_def Let_def)
  let ?head = "if rep = 0 then [Sym_bit (P_is_rep0, int ?s) False, Sym_bit (P_is_rep0_long ?s, int pos_state) (len \<noteq> 1)]
      else Sym_bit (P_is_rep0, int ?s) True
        # (if rep = 1 then [Sym_bit (P_is_rep1, int ?s) False]
           else [Sym_bit (P_is_rep1, int ?s) True, Sym_bit (P_is_rep2, int ?s) (rep \<noteq> 2)])"
  have head: "queued ?head ?s (next_reps (le_reps coder) rep) coder coder1"
  proof (cases "rep = 0 \<or> rep = 1")
    case True
    then show ?thesis
      using queues_comp [OF queues_bits(1) long, of "(P_is_rep0, int ?s)"]
        queues_comp [OF queues_bits(2) queues_bits(1), of "(P_is_rep1, int ?s)" "(P_is_rep0, int ?s)"]
      by (elim disjE) (auto simp: queued_def coder1_def next_reps_def r)
  next
    case False
    have two: "rep - 2 \<noteq> 0 \<longleftrightarrow> rep \<noteq> 2" by simp
    have "queues (\<lambda>rc. rc_bit (P_is_rep2, int ?s) (rep - 2) (rc_bit (P_is_rep1, int ?s) 1 (rc_bit (P_is_rep0, int ?s) 1 rc)))
        ([Sym_bit (P_is_rep0, int ?s) True] @ [Sym_bit (P_is_rep1, int ?s) True] @ [Sym_bit (P_is_rep2, int ?s) (rep \<noteq> 2)])"
      using queues_comp [OF queues_bits(2) queues_comp [OF queues_bits(2) queues_bit [of _ "rep - 2"]]] unfolding two .
    then show ?thesis using False u32_cases4 [OF rep] by (elim disjE) (auto simp: queued_def coder1_def next_reps_def r)
  qed
  have "queued (if len = 1 then [] else len_syms P_rep_len pos_state len) (state_after ?s rep len) (next_reps (le_reps coder) rep) coder1
      (rep_match pos_state rep len coder)"
    using head queues_id queues_length [of P_rep_len pos_state len] rep u32_cases4 [OF rep]
    unfolding e by (auto simp: queued_def state_after_def)
  from queued_comp [OF head this] show ?thesis by (simp only: rep_syms_def)
qed


text \<open>The whole symbol, with the match finder's positions for a window that holds all of the data.\<close>

definition mf_at :: "byte list \<Rightarrow> nat \<Rightarrow> nat \<Rightarrow> lzma_mf \<Rightarrow> bool" where
  "mf_at data p ahead mf \<longleftrightarrow> mf_buffer mf = data \<and> mf_read_pos mf = word_of_nat (p + ahead) \<and> mf_read_ahead mf = word_of_nat ahead
     \<and> p + ahead \<le> length data"

definition masks_ok :: "lzma_options_lzma \<Rightarrow> lzma_encoder \<Rightarrow> bool" where
  "masks_ok options coder \<longleftrightarrow> le_pos_mask coder = push_bit (unat (pb options)) 1 - 1 \<and> le_literal_context_bits coder = lc options
     \<and> le_literal_pos_mask coder = push_bit (unat (lp options)) 1 - 1"

lemma queued_masks: "queued syms state reps coder coder' \<Longrightarrow> masks_ok options coder \<Longrightarrow> masks_ok options coder'"
  by (simp add: queued_def masks_ok_def)

lemma and_mask_mod:
  assumes "n \<le> 4" and "p < 2 ^ 32"
  shows "unat (word_of_nat p AND (push_bit n 1 - 1) :: u32) = p mod 2 ^ n"
proof -
  have u: "unat (word_of_nat p :: u32) = p" using assms(2) by (simp add: unat_of_nat take_bit_nat_eq_self)
  show ?thesis unfolding pos_mask_bits(3) [OF assms(1)] take_bit_eq_mask [symmetric] unat_take_bit_mod u ..
qed

lemma u32_of_nat: "n < 2 ^ 32 \<Longrightarrow> unat (word_of_nat n :: u32) = n"
  by (simp add: unat_of_nat take_bit_nat_eq_self)

lemma encode_symbol_queued:
  assumes mf: "mf_at data p ahead mf" and data: "length data < 2 ^ 32" and len: "unat len \<le> ahead" and p: "0 < p" "p < length data"
    and masks: "masks_ok options coder" and pb: "unat (pb options) \<le> 4" and reps: "length (le_reps coder) = 4"
    and match: "\<not> is_literal_state (le_state coder) \<Longrightarrow> unat (le_reps coder ! 0) < p"
    and r: "encode_symbol back len (word_of_nat p) (coder, mf) = (coder', mf')"
  shows "queued (symbol_syms options data p (le_state coder) (le_reps coder) back len) (state_after (le_state coder) back len)
      (next_reps (le_reps coder) back) coder coder'" and "mf_at data (p + unat len) (ahead - unat len) mf'"
    and "mf_read_limit mf' = mf_read_limit mf" and "mf_action mf' = mf_action mf"
proof -
  have pa: "p + ahead \<le> length data" using mf by (simp add: mf_at_def)
  have cur: "mf_read_pos mf - mf_read_ahead mf = word_of_nat p" using mf by (simp add: mf_at_def)
  have u: "unat (word_of_nat k :: u32) = k" if "k \<le> length data" for k using that data by (intro u32_of_nat) simp
  have sub: "(word_of_nat m :: u32) - word_of_nat n = word_of_nat (m - n)" if "n \<le> m" for m n using that by (simp add: of_nat_diff)
  have prev: "unat (mf_read_pos mf - mf_read_ahead mf - 1) = p - 1"
    using sub [of 1 p] u [of "p - 1"] p unfolding cur by simp
  have ps: "unat (word_of_nat p AND le_pos_mask coder) = pos_state_of options p"
    using and_mask_mod [OF pb, of p] p data masks by (simp add: masks_ok_def pos_state_of_def)
  have psu: "uint (word_of_nat p AND le_pos_mask coder) = int (pos_state_of options p)" using arg_cong [OF ps, of int] by simp
  have m: "unat (mf_read_pos mf - le_reps coder ! 0 - 1 - mf_read_ahead mf) = p - 1 - unat (le_reps coder ! 0)" if "\<not> is_literal_state (le_state coder)"
  proof -
    let ?d = "unat (le_reps coder ! 0)"
    have "mf_read_pos mf - le_reps coder ! 0 - 1 - mf_read_ahead mf = (mf_read_pos mf - mf_read_ahead mf) - word_of_nat (?d + 1)" by (simp add: algebra_simps)
    also have "\<dots> = word_of_nat (p - (?d + 1))" unfolding cur using match [OF that] by (intro sub) simp
    finally show ?thesis using u [of "p - (?d + 1)"] p by simp
  qed
  have "mf' = mf\<lparr>mf_read_ahead := mf_read_ahead mf - len\<rparr>" using r by (simp add: encode_symbol_def Let_def split: prod.splits)
  moreover have "mf_read_ahead mf - len = word_of_nat (ahead - unat len)"
    using sub [OF len] mf by (simp add: mf_at_def)
  ultimately show "mf_at data (p + unat len) (ahead - unat len) mf'" "mf_read_limit mf' = mf_read_limit mf" "mf_action mf' = mf_action mf"
    using mf len by (simp_all add: mf_at_def)
  show "queued (symbol_syms options data p (le_state coder) (le_reps coder) back len) (state_after (le_state coder) back len)
      (next_reps (le_reps coder) back) coder coder'"
  proof (cases "back = - 1")
    case True
    define coder1 where "coder1 = coder\<lparr>le_rc := rc_bit (P_is_match (le_state coder), int (pos_state_of options p)) 0 (le_rc coder)\<rparr>"
    have one: "queued [Sym_bit (P_is_match (le_state coder), int (pos_state_of options p)) False] (le_state coder) (le_reps coder) coder coder1"
      unfolding coder1_def using queued_bit [of _ 0] by simp
    have e: "coder' = literal mf (word_of_nat p) coder1" using r True ps psu by (simp add: encode_symbol_def Let_def coder1_def)
    have f: "le_state coder1 = le_state coder" "le_reps coder1 = le_reps coder" by (simp_all add: coder1_def)
    have b: "mf_buffer mf = data" using mf by (simp add: mf_at_def)
    have "queued (literal_syms (literal_coder options p (prev_byte data p)) (le_state coder) (data ! (p - 1 - unat (le_reps coder ! 0)))
        (data ! p)) (update_literal (le_state coder)) (le_reps coder) coder1 coder'"
      unfolding e using queued_literal [of mf p coder1 options, unfolded f b] cur prev p m masks u [of p]
      by (simp add: coder1_def masks_ok_def)
    from queued_comp [OF one this] show ?thesis using True by (simp add: symbol_syms_def Let_def state_after_def next_reps_def)
  next
    case False
    let ?rep = "back < 4"
    define coder1 where "coder1 = coder\<lparr>le_rc := rc_bit (P_is_rep, int (le_state coder)) (of_bool ?rep)
        (rc_bit (P_is_match (le_state coder), int (pos_state_of options p)) 1 (le_rc coder))\<rparr>"
    have f: "le_state coder1 = le_state coder" "le_reps coder1 = le_reps coder" by (simp_all add: coder1_def)
    have "queues (\<lambda>rc. rc_bit (P_is_rep, int (le_state coder)) (of_bool ?rep) (rc_bit (P_is_match (le_state coder), int (pos_state_of options p)) 1 rc))
        ([Sym_bit (P_is_match (le_state coder), int (pos_state_of options p)) True] @ [Sym_bit (P_is_rep, int (le_state coder)) ?rep])"
      using queues_comp [OF queues_bits(2) queues_bit [of _ "of_bool ?rep"]] unfolding of_bool_neq_0 .
    then have two: "queued ([Sym_bit (P_is_match (le_state coder), int (pos_state_of options p)) True] @ [Sym_bit (P_is_rep, int (le_state coder)) ?rep])
        (le_state coder) (le_reps coder) coder coder1"
      unfolding coder1_def by (rule queued_rc)
    show ?thesis
    proof (cases ?rep)
      case True
      have e: "coder' = rep_match (pos_state_of options p) back len coder1" using r False True ps psu by (simp add: encode_symbol_def Let_def coder1_def)
      have "queued (rep_syms (pos_state_of options p) (le_state coder) back len) (state_after (le_state coder) back len) (next_reps (le_reps coder) back)
          coder1 coder'"
        unfolding e using queued_rep_match [OF True, of coder1, unfolded f, OF reps] .
      from queued_comp [OF two this] show ?thesis using True False by (simp add: symbol_syms_def Let_def)
    next
      case False': False
      have e: "coder' = match (pos_state_of options p) (back - 4) len coder1" using r False False' ps psu by (simp add: encode_symbol_def Let_def coder1_def)
      have "queued (match_syms (pos_state_of options p) (back - 4) len) (state_after (le_state coder) back len) (next_reps (le_reps coder) back)
          coder1 coder'"
        unfolding e using queued_match [of "pos_state_of options p" "back - 4" len coder1, unfolded f] False False'
        by (auto simp: state_after_def next_reps_def)
      from queued_comp [OF two this] show ?thesis using False False' by (simp add: symbol_syms_def Let_def)
    qed
  qed
qed

lemma encode_eopm_queued:
  assumes "masks_ok options coder" and "unat (pb options) \<le> 4" and "p < 2 ^ 32"
  shows "\<exists>state reps. queued (eopm_syms options p (le_state coder)) state reps coder (encode_eopm (word_of_nat p) coder)"
proof -
  let ?m = "(P_is_match (le_state coder), int (pos_state_of options p))" and ?r = "(P_is_rep, int (le_state coder))"
  define coder1 where "coder1 = coder\<lparr>le_rc := rc_bit ?r 0 (rc_bit ?m 1 (le_rc coder))\<rparr>"
  have ps: "unat (word_of_nat p AND le_pos_mask coder) = pos_state_of options p"
    using and_mask_mod [OF assms(2,3)] assms(1) by (simp add: masks_ok_def pos_state_of_def)
  have two: "queued ([Sym_bit ?m True] @ [Sym_bit ?r False]) (le_state coder) (le_reps coder) coder coder1"
    unfolding coder1_def by (rule queued_rc) (rule queues_comp [OF queues_bits(2) queues_bits(1)])
  have "encode_eopm (word_of_nat p) coder = match (pos_state_of options p) (- 1) 2 coder1"
    using arg_cong [OF ps, of int] by (simp add: encode_eopm_def Let_def ps coder1_def)
  then show ?thesis using queued_comp [OF two queued_match [of "pos_state_of options p" "- 1" 2 coder1]] by (auto simp: eopm_syms_def)
qed

subsection \<open>What they touch\<close>

lemma no_flush_tree: "Sym_flush \<notin> set (tree_syms n p symbol m)"
  by (induction n arbitrary: m) simp_all

lemma no_flush_reverse: "Sym_flush \<notin> set (reverse_syms n p symbol m)"
  by (induction n arbitrary: m symbol) simp_all

lemma no_flush_direct: "Sym_flush \<notin> set (direct_syms value n)"
  by (induction n) simp_all

lemma no_flush_matched: "Sym_flush \<notin> set (matched_syms n p offset match_byte symbol)"
  by (induction n arbitrary: offset match_byte symbol) (simp_all add: Let_def)

lemmas no_flush = no_flush_tree no_flush_reverse no_flush_direct no_flush_matched

lemma symbol_syms_no_flush: "Sym_flush \<notin> set (symbol_syms options data p state reps back len)" "Sym_flush \<notin> set (eopm_syms options p state)"
  by (auto simp: no_flush symbol_syms_def eopm_syms_def Let_def literal_syms_def literal_matched_syms_def rep_syms_def match_syms_def len_syms_def slot_syms_def
      dist_syms_def)

lemma length_symbol_syms: "length (symbol_syms options data p state reps back len) \<le> 48" "length (eopm_syms options p state) \<le> 48"
proof -
  have m: "length (match_syms ps distance l) \<le> 46" for ps distance l
    using length_len_syms [of P_match_len ps l] length_dist_syms [of distance l] by (simp add: match_syms_def)
  have r: "length (rep_syms ps state back len) \<le> 46" for ps
    using length_len_syms [of P_rep_len ps len] by (simp add: rep_syms_def)
  have l: "length (literal_syms subcoder state mb b) \<le> 47" for subcoder mb b
    by (simp add: literal_syms_def literal_matched_syms_def)
  show "length (symbol_syms options data p state reps back len) \<le> 48" "length (eopm_syms options p state) \<le> 48"
    using m r l by (simp_all add: symbol_syms_def eopm_syms_def Let_def)
qed

lemma indices_arr: "indices (arr, 0) A = {(arr, int k) |k. k \<in> A}"
  by (simp add: indices_def)

lemma indices_ptrs:
  assumes "n \<le> array_size (2 ^ (unat (lc options) + unat (lp options))) (2 ^ unat (pb options)) arr"
  shows "indices (arr, 0) {..<n} \<subseteq> lzma_ptrs options" and "indices (arr, 0) {1..<n} \<subseteq> lzma_ptrs options"
  using assms by (auto simp: indices_arr lzma_ptrs_iff)

lemma tree_in_ptrs:
  assumes "2 ^ n \<le> array_size (2 ^ (unat (lc options) + unat (lp options))) (2 ^ unat (pb options)) arr" and "n \<le> 31"
  shows "sym_ptrs (tree_syms n (arr, 0) symbol 1) \<subseteq> lzma_ptrs options" and "sym_ptrs (reverse_syms n (arr, 0) symbol 1) \<subseteq> lzma_ptrs options"
  by (rule subset_trans [OF root_ptrs(1) [OF assms(2)] indices_ptrs(2) [OF assms(1)]],
    rule subset_trans [OF root_ptrs(2) [OF assms(2)] indices_ptrs(2) [OF assms(1)]])

lemma pos_state_less: "pos_state_of options p < 2 ^ unat (pb options)"
  by (simp add: pos_state_of_def)

lemma len_syms_in_ptrs:
  assumes "arr = P_match_len \<or> arr = P_rep_len" and "ps < 2 ^ unat (pb options)"
  shows "sym_ptrs (len_syms arr ps len) \<subseteq> lzma_ptrs options"
proof -
  have c: "(arr L_choice, 0) \<in> lzma_ptrs options" "(arr L_choice2, 0) \<in> lzma_ptrs options" using assms(1) by (auto simp: lzma_ptrs_def)
  have t: "sym_ptrs (tree_syms 3 (arr (L_low ps), 0) l 1) \<subseteq> lzma_ptrs options" "sym_ptrs (tree_syms 3 (arr (L_mid ps), 0) l 1) \<subseteq> lzma_ptrs options"
    "sym_ptrs (tree_syms 8 (arr L_high, 0) l 1) \<subseteq> lzma_ptrs options" for l
    by (rule tree_in_ptrs; use assms in auto)+
  show ?thesis using c t by (auto simp: len_syms_def)
qed

lemma special_bounds:
  assumes "4 \<le> (n :: nat)" and "n < 14"
  shows "0 \<le> int (slot_start n) - int n - 1 + 1" and "int (slot_start n) - int n - 1 + 2 ^ (n div 2 - 1) \<le> 114"
proof -
  have "\<forall>n\<in>set [4..<14]. 0 \<le> int (slot_start n) - int n - 1 + 1 \<and> int (slot_start n) - int n - 1 + 2 ^ (n div 2 - 1) \<le> 114"
    by (simp add: upt_rec slot_start_def)
  moreover have "n \<in> set [4..<14]" using assms unfolding set_upt atLeastLessThan_iff by blast
  ultimately show "0 \<le> int (slot_start n) - int n - 1 + 1" "int (slot_start n) - int n - 1 + 2 ^ (n div 2 - 1) \<le> 114"
    by blast+
qed

lemma dist_syms_in_ptrs: "sym_ptrs (dist_syms distance) \<subseteq> lzma_ptrs options"
proof (cases "get_dist_slot distance < 4")
  case True
  then show ?thesis by (simp add: dist_syms_def Let_def not_le [symmetric])
next
  case False
  let ?s = "unat (get_dist_slot distance)" and ?f = "footer_bits (get_dist_slot distance)"
  note numbers = slot_numbers [OF False]
  have align: "sym_ptrs (reverse_syms 4 (P_dist_align, 0) symbol 1) \<subseteq> lzma_ptrs options" for symbol
    by (rule tree_in_ptrs) simp_all
  show ?thesis
  proof (cases "get_dist_slot distance < 14")
    case True
    let ?off = "int (unat (slot_base (get_dist_slot distance))) - int ?s - 1"
    have s: "4 \<le> ?s" "?s < 14" using True False by (simp_all add: word_less_nat_alt)
    have b: "0 \<le> ?off + 1" "?off + 2 ^ ?f \<le> 114" unfolding numbers(1,2) by (rule special_bounds [OF s])+
    have "indices (P_dist_special, ?off) {1..<2 ^ ?f} \<subseteq> lzma_ptrs options"
    proof
      fix a assume "a \<in> indices (P_dist_special, ?off) {1..<2 ^ ?f}"
      then obtain k where k: "a = (P_dist_special, ?off + int k)" "1 \<le> k" "k < 2 ^ ?f" by (auto simp: indices_def)
      have "int k < 2 ^ ?f" using k(3) by (metis of_nat_less_numeral_power_cancel_iff of_nat_less_iff of_nat_power of_nat_numeral)
      then have "0 \<le> ?off + int k" "?off + int k < 114" using b k(2) by linarith+
      then show "a \<in> lzma_ptrs options" by (simp add: k(1) lzma_ptrs_def)
    qed
    moreover have "sym_ptrs (reverse_syms ?f (P_dist_special, ?off) (distance - slot_base (get_dist_slot distance)) 1) \<subseteq> indices (P_dist_special, ?off) {1..<2 ^ ?f}"
      by (rule root_ptrs) (use numbers(1) s in simp)
    ultimately have "sym_ptrs (reverse_syms ?f (P_dist_special, ?off) (distance - slot_base (get_dist_slot distance)) 1) \<subseteq> lzma_ptrs options"
      by (rule subset_trans [rotated])
    moreover have "dist_syms distance = reverse_syms ?f (P_dist_special, ?off) (distance - slot_base (get_dist_slot distance)) 1"
      using True False by (simp only: dist_syms_def Let_def not_less if_True)
    ultimately show ?thesis by (simp only:)
  next
    case False': False
    then show ?thesis using False align by (simp add: dist_syms_def Let_def direct_ptrs)
  qed
qed

lemma dist_state_less: "unat (get_dist_state len) < 4" if "2 \<le> len"
proof (cases "len < 4 + 2")
  case True
  have "unat (len - 2) = unat len - 2" using unat_sub [OF that] by simp
  then show ?thesis using True by (simp add: get_dist_state_def word_less_nat_alt)
next
  case False
  then show ?thesis by (simp add: get_dist_state_def)
qed

lemma match_syms_in_ptrs:
  assumes "ps < 2 ^ unat (pb options)" and "2 \<le> len"
  shows "sym_ptrs (match_syms ps distance len) \<subseteq> lzma_ptrs options"
proof -
  have "sym_ptrs (slot_syms distance len) \<subseteq> lzma_ptrs options"
    unfolding slot_syms_def by (rule tree_in_ptrs) (use dist_state_less [OF assms(2)] in simp_all)
  then show ?thesis using len_syms_in_ptrs [of P_match_len, OF _ assms(1)] dist_syms_in_ptrs by (simp add: match_syms_def)
qed

lemma literal_index:
  assumes "is_lclppb_valid options" and "p < 2 ^ 32"
  shows "\<exists>i < 2 ^ (unat (lc options) + unat (lp options)). literal_coder options p prev = (P_literal i, 0)"
proof -
  note b = lclppb_bounds(2) [OF assms(1)]
  let ?lc = "unat (lc options)" and ?lp = "unat (lp options)"
  let ?i = "push_bit ?lc (word_of_nat p AND (push_bit ?lp 1 - 1)) :: u32" and ?j = "ucast (drop_bit (8 - ?lc) prev) :: u32"
  have m: "unat (word_of_nat p AND (push_bit ?lp 1 - 1) :: u32) = p mod 2 ^ ?lp" using and_mask_mod [OF _ assms(2), of ?lp] b by simp
  have lt: "p mod 2 ^ ?lp * 2 ^ ?lc + 2 ^ ?lc \<le> 2 ^ (?lc + ?lp)"
  proof -
    have "(p mod 2 ^ ?lp + 1) * 2 ^ ?lc \<le> 2 ^ ?lp * 2 ^ ?lc" by (intro mult_le_mono1) (simp add: Suc_leI)
    then show ?thesis by (simp add: power_add algebra_simps)
  qed
  have small: "(2 :: nat) ^ (?lc + ?lp) \<le> 2 ^ 4" using b by (intro power_increasing) simp_all
  have "unat (word_of_nat p AND (push_bit ?lp 1 - 1) :: u32) * 2 ^ ?lc < 2 ^ LENGTH(32)" unfolding m using lt small by simp
  from unat_push_bit_mult [OF this] have i: "unat ?i = p mod 2 ^ ?lp * 2 ^ ?lc" unfolding m .
  have "unat prev div 2 ^ (8 - ?lc) < 2 ^ ?lc"
  proof -
    have "(2 :: nat) ^ ?lc * 2 ^ (8 - ?lc) = 2 ^ 8" using b by (simp flip: power_add)
    then have "unat prev < 2 ^ ?lc * 2 ^ (8 - ?lc)" using unat_byte_less [of prev] by simp
    then show ?thesis by (rule less_mult_imp_div_less)
  qed
  then have j: "unat ?j < 2 ^ ?lc" by (simp add: unat_ucast_up unat_drop_bit_div)
  have "unat (?i + ?j) = unat ?i + unat ?j" using i j lt small by (subst unat_add_small) simp_all
  then show ?thesis using i j lt by (intro exI [of _ "unat (?i + ?j)"]) (simp add: literal_coder_def literal_subcoder_def)
qed

lemma literal_syms_in_ptrs:
  assumes "is_lclppb_valid options" and "p < 2 ^ 32"
  shows "sym_ptrs (literal_syms (literal_coder options p prev) state match_byte b) \<subseteq> lzma_ptrs options"
proof -
  obtain i where i: "i < 2 ^ (unat (lc options) + unat (lp options))" "literal_coder options p prev = (P_literal i, 0)"
    using literal_index [OF assms] by blast
  have "sym_ptrs (tree_syms 8 (P_literal i, 0) (ucast b) 1) \<subseteq> lzma_ptrs options" by (rule tree_in_ptrs) (use i(1) in simp_all)
  moreover have "sym_ptrs (literal_matched_syms (P_literal i, 0) match_byte b) \<subseteq> lzma_ptrs options"
    unfolding literal_matched_syms_def
  proof (rule subset_trans [OF matched_ptrs [OF rounds_left_start(1)] indices_ptrs(1)])
    fix k assume "bit (0x100 :: u32) k"
    moreover have "(0x100 :: u32) = push_bit 8 1" by simp
    ultimately show "k = 8" by (metis bit_1_iff bit_push_bit_iff diff_is_0_eq le_antisym)
  qed (use i(1) in simp)
  ultimately show ?thesis unfolding literal_syms_def i(2) by simp
qed

lemma state_ptrs:
  assumes "state < STATES" and "ps < 2 ^ unat (pb options)"
  shows "(P_is_match state, int ps) \<in> lzma_ptrs options" "(P_is_rep0_long state, int ps) \<in> lzma_ptrs options"
    "(P_is_rep, int state) \<in> lzma_ptrs options" "(P_is_rep0, int state) \<in> lzma_ptrs options"
    "(P_is_rep1, int state) \<in> lzma_ptrs options" "(P_is_rep2, int state) \<in> lzma_ptrs options"
  using assms by (simp_all add: lzma_ptrs_iff)

lemma symbol_syms_in_ptrs:
  assumes "is_lclppb_valid options" and "p < 2 ^ 32" and "state < STATES" and "back = - 1 \<or> back < 4 \<or> 2 \<le> len"
  shows "sym_ptrs (symbol_syms options data p state reps back len) \<subseteq> lzma_ptrs options"
proof -
  note s = state_ptrs [OF assms(3) pos_state_less [of options p]]
  have l: "sym_ptrs (len_syms P_rep_len (pos_state_of options p) len) \<subseteq> lzma_ptrs options" by (rule len_syms_in_ptrs) (simp_all add: pos_state_less)
  have r: "sym_ptrs (rep_syms (pos_state_of options p) state back len) \<subseteq> lzma_ptrs options"
    using s l by (simp add: rep_syms_def)
  have m: "sym_ptrs (match_syms (pos_state_of options p) (back - 4) len) \<subseteq> lzma_ptrs options" if "2 \<le> len"
    by (rule match_syms_in_ptrs [OF pos_state_less that])
  show ?thesis using assms(4) s r m literal_syms_in_ptrs [OF assms(1,2)] by (auto simp: symbol_syms_def Let_def)
qed

lemma eopm_syms_in_ptrs:
  assumes "state < STATES"
  shows "sym_ptrs (eopm_syms options p state) \<subseteq> lzma_ptrs options"
  using state_ptrs [OF assms pos_state_less [of options p]] match_syms_in_ptrs [OF pos_state_less [of options p]]
  by (simp add: eopm_syms_def)

end
