(* ===== verification/Lzma_Encode_Correct.thy ===== *)
theory Lzma_Encode_Correct
  imports Lzma_Choice
begin

unbundle bit_operations_syntax

text \<open>
  The encoder on a whole input: for choices that describe the data, \<open>lzma_encode\<close> writes the bytes of the last interval
  of their symbols. The probabilities that the reset leaves unset do not matter, so the intervals start with a memory in which all
  are one half.
\<close>

subsection \<open>Choices that describe the data\<close>

definition choice_ok :: "nat \<Rightarrow> byte list \<Rightarrow> nat \<Rightarrow> u32 list \<Rightarrow> u32 \<Rightarrow> u32 \<Rightarrow> bool" where
  "choice_ok dict data p reps back len \<longleftrightarrow>
     (if back = - 1 then len = 1
      else let distance = unat (next_reps reps back ! 0)
           in (if back < 4 then 1 \<le> len \<and> (len = 1 \<longrightarrow> back = 0) else 2 \<le> len) \<and> len \<le> 273 \<and> distance < p \<and> distance < dict
              \<and> list_all (\<lambda>i. data ! (p + i) = data ! (p + i - 1 - distance)) [0..<unat len])"

primrec choices_ok :: "nat \<Rightarrow> byte list \<Rightarrow> nat \<Rightarrow> nat \<Rightarrow> u32 list \<Rightarrow> choice list \<Rightarrow> bool" where
  "choices_ok dict data p read_ahead reps [] \<longleftrightarrow> p = length data"
| "choices_ok dict data p read_ahead reps (choice # choices) \<longleftrightarrow>
     (let (ahead, back, len) = choice
      in choice_ok dict data p reps back len \<and> unat len \<le> read_ahead + unat ahead \<and> p + (read_ahead + unat ahead) \<le> length data
         \<and> choices_ok dict data (p + unat len) (read_ahead + unat ahead - unat len) (next_reps reps back) choices)"

primrec choices_syms ::
  "lzma_options_lzma \<Rightarrow> byte list \<Rightarrow> nat \<Rightarrow> lzma_lzma_state \<Rightarrow> u32 list \<Rightarrow> choice list \<Rightarrow> prob_array sym list" where
  "choices_syms options data p state reps [] = eopm_syms options p state"
| "choices_syms options data p state reps (choice # choices) =
     (let (ahead, back, len) = choice
      in symbol_syms options data p state reps back len
         @ choices_syms options data (p + unat len) (state_after state back len) (next_reps reps back) choices)"

lemma length_next_reps: "length reps = 4 \<Longrightarrow> length (next_reps reps back) = 4"
  by (auto simp: next_reps_def)

lemma state_after_less: "state < STATES \<Longrightarrow> state_after state back len < STATES"
  by (simp add: state_after_def state_bounds)

text \<open>After anything but a literal the last distance is one of the data.\<close>

definition rep0_ok :: "nat \<Rightarrow> nat \<Rightarrow> lzma_lzma_state \<Rightarrow> u32 list \<Rightarrow> bool" where
  "rep0_ok dict p state reps \<longleftrightarrow> (is_literal_state state \<or> unat (reps ! 0) < p \<and> unat (reps ! 0) < dict)"

lemma update_literal_is: "state < STATES \<Longrightarrow> is_literal_state (update_literal state)"
  by (auto simp: is_literal_state_def update_literal_def)

lemma choice_len: "choice_ok dict data p reps back len \<Longrightarrow> 1 \<le> unat len"
proof -
  assume "choice_ok dict data p reps back len"
  then have "1 \<le> len \<or> 2 \<le> len" by (auto simp: choice_ok_def Let_def split: if_splits)
  then have "unat (1 :: u32) \<le> unat len \<or> unat (2 :: u32) \<le> unat len" by (simp only: word_le_nat_alt)
  then show ?thesis by (auto simp: unat_numeral_u32)
qed

lemma rep0_ok_after:
  assumes "choice_ok dict data p reps back len" and "state < STATES"
  shows "rep0_ok dict (p + unat len) (state_after state back len) (next_reps reps back)"
  using assms update_literal_is by (auto simp: rep0_ok_def choice_ok_def state_after_def Let_def)

subsection \<open>The encoder between two choices\<close>

definition iv0 :: "prob_array interval" where
  "iv0 = iv_start (\<lambda>prob. bit_reset)"

lemma iv0_ok: "iv_ok iv0"
  by (simp add: iv0_def iv_start_ok prob_ok_def bit_reset_def RC_BIT_MODEL_TOTAL_def)

definition enc_idle :: "lzma_options_lzma \<Rightarrow> prob_array sym list \<Rightarrow> lzma_encoder \<Rightarrow> byte list \<Rightarrow> bool" where
  "enc_idle options syms coder out \<longleftrightarrow> (\<exists>mem. (\<forall>a\<in>lzma_ptrs options. mem a = le_probs coder a)
     \<and> rc_count (le_rc coder) = 0 \<and> rc_pos (le_rc coder) = 0 \<and> rc_room 58 (le_rc coder)
     \<and> enc_iv (le_rc coder) mem out = fold iv_step syms iv0 \<and> enc_inv (unat (rc_range (le_rc coder))) (le_rc coder))"

definition enc_at :: "lzma_options_lzma \<Rightarrow> prob_array sym list \<Rightarrow> lzma_encoder \<Rightarrow> byte list \<Rightarrow> bool" where
  "enc_at options syms coder out \<longleftrightarrow> (\<exists>mem coded pending. (\<forall>a\<in>lzma_ptrs options. mem a = le_probs coder a) \<and> syms = coded @ pending
     \<and> rc_queue (le_rc coder) = pending \<and> length pending \<le> 48 \<and> Sym_flush \<notin> set pending \<and> sym_ptrs pending \<subseteq> lzma_ptrs options
     \<and> rc_room (58 - length pending) (le_rc coder)
     \<and> enc_iv (le_rc coder) mem out = fold iv_step coded iv0 \<and> enc_inv (unat (rc_range (le_rc coder))) (le_rc coder))"

lemma iv_digits_0: "iv_digits (fold iv_step syms iv0) \<le> 1 + length syms"
  using iv_digits_run [of syms iv0] by (simp add: iv0_def iv_start_def)

lemma enc_at_encode:
  assumes "enc_at options syms coder out" and "length syms + 49 \<le> out_size" and "out_size + 1 < 2 ^ 64"
  shows "\<exists>rc probs out'. rc_encode out_size (le_rc coder) (le_probs coder) out = (False, rc, probs, out')
    \<and> enc_idle options syms (coder\<lparr>le_rc := rc, le_probs := probs\<rparr>) out'"
proof -
  obtain mem coded pending where m: "\<forall>a\<in>lzma_ptrs options. mem a = le_probs coder a" and s: "syms = coded @ pending"
    and q: "rc_queue (le_rc coder) = pending" "length pending \<le> 48" "Sym_flush \<notin> set pending" "sym_ptrs pending \<subseteq> lzma_ptrs options"
      "rc_room (58 - length pending) (le_rc coder)"
    and iv: "enc_iv (le_rc coder) mem out = fold iv_step coded iv0" "enc_inv (unat (rc_range (le_rc coder))) (le_rc coder)"
    using assms(1) unfolding enc_at_def by blast
  have ok: "iv_ok (enc_iv (le_rc coder) mem out)" unfolding iv(1) using iv_run_ok [OF iv0_ok] by blast
  have "iv_digits (enc_iv (le_rc coder) mem out) \<le> 1 + length coded" unfolding iv(1) by (rule iv_digits_0)
  then have len: "enc_length (le_rc coder) out + length pending \<le> out_size" using assms(2) by (simp add: s)
  obtain rc mem' out' where e: "rc_encode out_size (le_rc coder) mem out = (False, rc, mem', out')" "rc_count rc = 0" "rc_pos rc = 0"
    "enc_iv rc mem' out' = fold iv_step pending (enc_iv (le_rc coder) mem out)" "enc_inv (unat (rc_range rc)) rc"
    "rc_symbols rc = rc_symbols (le_rc coder)" "rc_probs rc = rc_probs (le_rc coder)"
    using rc_encode_ok [OF q(1,3) ok iv(2) len assms(3)] by blast
  obtain probs where p: "rc_encode out_size (le_rc coder) (le_probs coder) out = (False, rc, probs, out')" "\<forall>a\<in>lzma_ptrs options. mem' a = probs a"
    using rc_encode_loop_cong [of "le_rc coder" "lzma_ptrs options" mem "le_probs coder" out_size out] q(1,4) m e(1)
    unfolding rc_encode_def by auto
  have "rc_room 58 rc" using e(2,3,6,7) q(5) by (simp add: rc_room_def)
  then show ?thesis using e p iv(1) s by (auto simp: enc_idle_def)
qed

lemma enc_at_queued:
  assumes "enc_idle options syms coder out" and "queued ys state reps coder coder'" and "length ys \<le> 48" and "Sym_flush \<notin> set ys"
    and "sym_ptrs ys \<subseteq> lzma_ptrs options"
  shows "enc_at options (syms @ ys) coder' out"
proof -
  obtain mem where m: "\<forall>a\<in>lzma_ptrs options. mem a = le_probs coder a"
    "rc_count (le_rc coder) = 0" "rc_pos (le_rc coder) = 0" "rc_room 58 (le_rc coder)"
    "enc_iv (le_rc coder) mem out = fold iv_step syms iv0" "enc_inv (unat (rc_range (le_rc coder))) (le_rc coder)"
    using assms(1) unfolding enc_idle_def by blast
  obtain f where f: "queues f ys" "le_rc coder' = f (le_rc coder)" "le_probs coder' = le_probs coder" using assms(2) unfolding queued_def by blast
  have "rc_room ((58 - length ys) + length ys) (le_rc coder)" using m(4) assms(3) by simp
  then have q: "rc_queue (le_rc coder') = rc_queue (le_rc coder) @ ys" "same_state (le_rc coder) (le_rc coder')" "rc_room (58 - length ys) (le_rc coder')"
    using f(1) unfolding queues_def f(2) by blast+
  have "rc_queue (le_rc coder) = []" using m(2,3) by (simp add: rc_queue_def)
  moreover have "rc_range (le_rc coder') = rc_range (le_rc coder)" using q(2) by (simp add: same_state_def)
  ultimately show ?thesis using m q same_state_iv [OF q(2)] assms(3-5) f(3) unfolding enc_at_def
    by (intro exI [of _ mem] exI [of _ syms] exI [of _ ys]) simp
qed


subsection \<open>The loop and the end\<close>

definition enc_fields :: "lzma_options_lzma \<Rightarrow> nat \<Rightarrow> nat \<Rightarrow> lzma_encoder \<Rightarrow> bool" where
  "enc_fields options dict p coder \<longleftrightarrow> masks_ok options coder \<and> le_state coder < STATES \<and> length (le_reps coder) = 4
     \<and> rep0_ok dict p (le_state coder) (le_reps coder) \<and> \<not> le_is_flushed coder \<and> le_is_initialized coder"

lemma encode_loop_ok:
  "choices_ok dict data p ahead (le_reps coder) choices \<Longrightarrow> enc_at options syms coder out \<Longrightarrow> enc_fields options dict p coder \<Longrightarrow> mf_at data p ahead mf
   \<Longrightarrow> mf_read_limit mf = word_of_nat (length data) \<Longrightarrow> mf_action mf = LZMA_FINISH \<Longrightarrow> is_lclppb_valid options \<Longrightarrow> 0 < p \<or> choices = []
   \<Longrightarrow> length data < 2 ^ 32 \<Longrightarrow> length syms + 48 * length choices + 49 \<le> out_size \<Longrightarrow> out_size + 1 < 2 ^ 64 \<Longrightarrow>
   \<exists>coder' mf' out' syms'. lzma_encode_loop out_size (- 1) choices (word_of_nat p) (coder, mf) out
       = Some (Break, word_of_nat (length data), (coder', mf'), out')
     \<and> enc_idle options syms' coder' out' \<and> enc_fields options dict (length data) coder' \<and> length syms' \<le> length syms + 48 * length choices
     \<and> syms' @ eopm_syms options (length data) (le_state coder') = syms @ choices_syms options data p (le_state coder) (le_reps coder) choices"
proof (induction choices arbitrary: p ahead coder mf out syms)
  case Nil
  have p: "p = length data" using Nil.prems(1) by simp
  have "ahead = 0" using Nil.prems(4) by (simp add: mf_at_def p)
  then have mf: "mf_read_pos mf = mf_read_limit mf" "mf_read_ahead mf = 0" using Nil.prems(4,5) by (simp_all add: mf_at_def p)
  have len: "length syms + 49 \<le> out_size" using Nil.prems(10) by simp
  obtain rc probs out' where e: "rc_encode out_size (le_rc coder) (le_probs coder) out = (False, rc, probs, out')"
    "enc_idle options syms (coder\<lparr>le_rc := rc, le_probs := probs\<rparr>) out'"
    using enc_at_encode [OF Nil.prems(2) len Nil.prems(11)] by blast
  have "enc_fields options dict (length data) (coder\<lparr>le_rc := rc, le_probs := probs\<rparr>)"
    using Nil.prems(3) by (simp add: enc_fields_def masks_ok_def p)
  then show ?case using e mf Nil.prems(6) by (intro exI [of _ "coder\<lparr>le_rc := rc, le_probs := probs\<rparr>"] exI [of _ mf] exI [of _ out'] exI [of _ syms])
      (simp add: encode_pending_def p)
next
  case (Cons choice choices)
  obtain ahead1 "back" len where c: "choice = (ahead1, back, len)" by (cases choice)
  let ?ahead = "ahead + unat ahead1"
  have ok: "choice_ok dict data p (le_reps coder) back len" "unat len \<le> ?ahead" "p + ?ahead \<le> length data"
    "choices_ok dict data (p + unat len) (?ahead - unat len) (next_reps (le_reps coder) back) choices"
    using Cons.prems(1) by (simp_all add: c)
  note l1 = choice_len [OF ok(1)]
  have p: "0 < p" "p < length data" "p < 2 ^ 32" using Cons.prems(8,9) ok(2,3) l1 by simp_all
  have len: "length syms + 49 \<le> out_size" using Cons.prems(10) by simp
  obtain rc probs out1 where e: "rc_encode out_size (le_rc coder) (le_probs coder) out = (False, rc, probs, out1)"
    "enc_idle options syms (coder\<lparr>le_rc := rc, le_probs := probs\<rparr>) out1"
    using enc_at_encode [OF Cons.prems(2) len Cons.prems(11)] by blast
  define coder1 where "coder1 = coder\<lparr>le_rc := rc, le_probs := probs\<rparr>"
  have f1: "enc_fields options dict p coder1" "le_state coder1 = le_state coder" "le_reps coder1 = le_reps coder"
    using Cons.prems(3) by (simp_all add: enc_fields_def masks_ok_def coder1_def)
  define mf1 where "mf1 = mf_skip mf ahead1"
  have mf1: "mf_at data p ?ahead mf1" "mf_read_limit mf1 = mf_read_limit mf" "mf_action mf1 = mf_action mf"
    using Cons.prems(4) ok(3) by (auto simp: mf1_def mf_at_def mf_skip_def unat_gt_0)
  have choose: "encode_pending out_size (- 1) (coder, mf) out = (Choose, coder1, out1)"
  proof -
    have pa: "p + ahead \<le> length data" using Cons.prems(4) by (simp add: mf_at_def)
    have "mf_read_ahead mf \<noteq> 0" if "mf_read_limit mf \<le> mf_read_pos mf"
    proof
      assume "mf_read_ahead mf = 0"
      moreover have "ahead < 2 ^ 32" using pa Cons.prems(9) by simp
      ultimately have "ahead = 0" using Cons.prems(4) u32_of_nat [of ahead] by (simp add: mf_at_def)
      then have "unat (mf_read_pos mf) = p" "unat (mf_read_limit mf) = length data"
        using Cons.prems(4,5,9) u32_of_nat p by (simp_all add: mf_at_def)
      then show False using that p(2) by (simp add: word_le_nat_alt)
    qed
    then show ?thesis using Cons.prems(6) by (simp add: encode_pending_def e(1) coder1_def)
  qed
  obtain coder2 mf2 where s: "encode_symbol back len (word_of_nat p) (coder1, mf1) = (coder2, mf2)" by fastforce
  have fields: "masks_ok options coder1" "length (le_reps coder1) = 4" "le_state coder1 < STATES"
    "rep0_ok dict p (le_state coder1) (le_reps coder1)" "\<not> le_is_flushed coder1" "le_is_initialized coder1"
    using f1(1) by (simp_all add: enc_fields_def)
  have match: "\<not> is_literal_state (le_state coder1) \<Longrightarrow> unat (le_reps coder1 ! 0) < p" using fields(4) by (simp add: rep0_ok_def)
  note sym = encode_symbol_queued [OF mf1(1) Cons.prems(9) ok(2) p(1,2) fields(1) lclppb_bounds(3) [OF Cons.prems(7)] fields(2) match s]
  let ?syms = "symbol_syms options data p (le_state coder1) (le_reps coder1) back len"
  have "back = - 1 \<or> back < 4 \<or> 2 \<le> len" using ok(1) by (auto simp: choice_ok_def Let_def split: if_splits)
  from symbol_syms_in_ptrs [OF Cons.prems(7) p(3) fields(3) this]
  have at: "enc_at options (syms @ ?syms) coder2 out1"
    using enc_at_queued [OF e(2) [folded coder1_def] sym(1) length_symbol_syms(1) symbol_syms_no_flush(1)] by blast
  have q: "le_state coder2 = state_after (le_state coder) back len" "le_reps coder2 = next_reps (le_reps coder) back"
    using sym(1) f1(2,3) by (simp_all add: queued_def)
  have f2: "enc_fields options dict (p + unat len) coder2"
    using queued_masks [OF sym(1) fields(1)] q fields length_next_reps [of "le_reps coder" "back"] state_after_less [of "le_state coder" "back" len]
      rep0_ok_after [OF ok(1), of "le_state coder"] sym(1) f1(2,3)
    by (simp add: enc_fields_def queued_def)
  have ok2: "choices_ok dict data (p + unat len) (?ahead - unat len) (le_reps coder2) choices" using ok(4) q(2) by simp
  have l2: "length (syms @ ?syms) + 48 * length choices + 49 \<le> out_size"
    using Cons.prems(10) length_symbol_syms(1) [of options data p "le_state coder1" "le_reps coder1" "back" len] by simp
  have pos: "word_of_nat p + len = (word_of_nat (p + unat len) :: u32)" by simp
  obtain coder' mf' out' syms' where r: "lzma_encode_loop out_size (- 1) choices (word_of_nat (p + unat len)) (coder2, mf2) out1
       = Some (Break, word_of_nat (length data), (coder', mf'), out')"
    "enc_idle options syms' coder' out'" "enc_fields options dict (length data) coder'" "length syms' \<le> length (syms @ ?syms) + 48 * length choices"
    "syms' @ eopm_syms options (length data) (le_state coder')
       = (syms @ ?syms) @ choices_syms options data (p + unat len) (le_state coder2) (le_reps coder2) choices"
    using Cons.IH [OF ok2 at f2 sym(2) _ _ Cons.prems(7) _ Cons.prems(9) l2 Cons.prems(11)] sym(3,4) mf1(2,3) Cons.prems(5,6) p(1) by auto
  have "lzma_encode_loop out_size (- 1) (choice # choices) (word_of_nat p) (coder, mf) out
      = lzma_encode_loop out_size (- 1) choices (word_of_nat (p + unat len)) (coder2, mf2) out1"
    by (simp add: choose c s [unfolded mf1_def] del: of_nat_add add: pos)
  moreover have "length ?syms \<le> 48" by (rule length_symbol_syms)
  ultimately show ?case using r q f1(2,3) by (intro exI [of _ coder'] exI [of _ mf'] exI [of _ out'] exI [of _ syms']) (simp add: c)
qed

lemma encode_end_ok:
  assumes idle: "enc_idle options syms coder out" and fields: "enc_fields options dict p coder" and options: "is_lclppb_valid options" and p: "p < 2 ^ 32"
    and len: "length syms + 54 \<le> out_size" "out_size + 1 < 2 ^ 64"
  defines "iv \<equiv> fold iv_step (syms @ eopm_syms options p (le_state coder)) iv0"
  shows "\<exists>coder' out'. encode_end out_size (- 1) (word_of_nat p) coder out = (LZMA_STREAM_END, coder', out')
     \<and> digits out' = iv_value (iv_normalize iv) \<and> length out' = iv_digits (iv_normalize iv) + 4"
proof -
  let ?eopm = "eopm_syms options p (le_state coder)"
  define coder1 where "coder1 = encode_eopm (word_of_nat p) (coder\<lparr>le_is_flushed := True\<rparr>)"
  have masks: "masks_ok options (coder\<lparr>le_is_flushed := True\<rparr>)" "le_state coder < STATES" "\<not> le_is_flushed coder"
    using fields by (simp_all add: enc_fields_def masks_ok_def)
  obtain state reps where "queued ?eopm state reps (coder\<lparr>le_is_flushed := True\<rparr>) coder1"
    using encode_eopm_queued [OF masks(1) lclppb_bounds(3) [OF options] p] by (auto simp: coder1_def)
  moreover have "enc_idle options syms (coder\<lparr>le_is_flushed := True\<rparr>) out" using idle by (simp add: enc_idle_def)
  ultimately have at: "enc_at options (syms @ ?eopm) coder1 out" and idle': "le_probs coder1 = le_probs coder"
    using enc_at_queued length_symbol_syms(2) symbol_syms_no_flush(2) eopm_syms_in_ptrs [OF masks(2)] by (blast, simp add: queued_def)
  obtain mem coded pending where m: "\<forall>a\<in>lzma_ptrs options. mem a = le_probs coder1 a" and s: "syms @ ?eopm = coded @ pending"
    and q: "rc_queue (le_rc coder1) = pending" "length pending \<le> 48" "Sym_flush \<notin> set pending" "sym_ptrs pending \<subseteq> lzma_ptrs options"
      "rc_room (58 - length pending) (le_rc coder1)"
    and i: "enc_iv (le_rc coder1) mem out = fold iv_step coded iv0" "enc_inv (unat (rc_range (le_rc coder1))) (le_rc coder1)"
    using at unfolding enc_at_def by blast
  define rc where "rc = rc_flush (le_rc coder1)"
  have "rc_room ((53 - length pending) + length (replicate 5 Sym_flush)) (le_rc coder1)" using q(2,5) by (simp add: rc_room_def)
  then have f: "rc_queue rc = rc_queue (le_rc coder1) @ replicate 5 Sym_flush" "same_state (le_rc coder1) rc"
    using queues_flush unfolding queues_def rc_def by blast+
  note same = same_state_iv [OF f(2)]
  have range: "rc_range rc = rc_range (le_rc coder1)" using f(2) by (simp add: same_state_def)
  have qs: "rc_queue rc = pending @ replicate 5 Sym_flush" using f(1) q(1) by simp
  have ok: "iv_ok (enc_iv rc mem out)" using same iv_run_ok [OF iv0_ok, of coded] i(1) by simp
  have inv: "enc_inv (unat (rc_range rc)) rc" using same i(2) range by simp
  have tot: "length coded + length pending \<le> length syms + 48" using arg_cong [OF s, of length] length_symbol_syms(2) [of options p "le_state coder"] by simp
  have "iv_digits (enc_iv rc mem out) \<le> 1 + length coded" using same i(1) iv_digits_0 by simp
  then have room: "enc_length rc out + length pending \<le> out_size" using tot len(1) by simp
  obtain rc1 mem1 out1 where l: "rc_encode_loop out_size rc mem out = rc_encode_loop out_size rc1 mem1 out1" "rc_queue rc1 = replicate 5 Sym_flush"
    "enc_iv rc1 mem1 out1 = fold iv_step pending (enc_iv rc mem out)" "enc_inv (unat (rc_range rc1)) rc1"
    using rc_encode_loop_steps [OF qs q(3) ok inv room len(2)] by blast
  have iv: "enc_iv rc1 mem1 out1 = iv" using l(3) same i(1) by (simp add: iv_def s)
  have "iv_digits (enc_iv rc1 mem1 out1) \<le> 1 + length (syms @ ?eopm)" unfolding iv iv_def by (rule iv_digits_0)
  then have room1: "enc_length rc1 out1 + 5 \<le> out_size" using len(1) length_symbol_syms(2) [of options p "le_state coder"] by simp
  obtain rc2 out2 where e: "rc_encode out_size rc1 mem1 out1 = (False, rc2, mem1, out2)"
    "digits out2 = iv_value (iv_normalize iv)" "length out2 = iv_digits (iv_normalize iv) + 4"
    using rc_encode_flush_ok [OF l(2,4) room1 len(2), of mem1] unfolding iv by blast
  have sub: "sym_ptrs (rc_queue rc) \<subseteq> lzma_ptrs options" using q(4) by (simp add: qs numeral_eq_Suc)
  obtain probs where "rc_encode out_size rc (le_probs coder1) out = (False, rc2, probs, out2)"
    using rc_encode_loop_cong [OF sub m, of out_size out] e(1) l(1) unfolding rc_encode_def by auto
  then show ?thesis using e(2,3) masks(3) by (simp add: encode_end_def coder1_def rc_def Let_def)
qed

subsection \<open>The whole input\<close>

definition first_choice :: "byte list \<Rightarrow> choice list" where
  "first_choice data = (if data = [] then [] else [(1, - 1, 1)])"

definition whole_input :: "byte list \<Rightarrow> lzma_mf" where
  "whole_input data =
     \<lparr>mf_buffer = data, mf_read_pos = 0, mf_read_ahead = 0, mf_read_limit = word_of_nat (length data), mf_action = LZMA_FINISH\<rparr>"

lemma encoder_created:
  assumes "lzma_lzma_encoder_create options coder = (LZMA_OK, coder')" and "preset_dict_size options = 0"
    and "length (rc_symbols (le_rc coder)) = RC_SYMBOLS_MAX" and "length (rc_probs (le_rc coder)) = RC_SYMBOLS_MAX"
  shows "is_lclppb_valid options" and "enc_idle options [] coder' []" and "masks_ok options coder'" and "le_state coder' = 0"
    and "le_reps coder' = [0, 0, 0, 0]" and "\<not> le_is_flushed coder'" and "\<not> le_is_initialized coder'"
proof -
  obtain coder0 where c: "lzma_lzma_encoder_reset options coder0 = (LZMA_OK, coder')" "le_rc coder0 = le_rc coder" "\<not> le_is_flushed coder0"
    "\<not> le_is_initialized coder0"
    using assms(1,2) by (auto simp: lzma_lzma_encoder_create_def Let_def split: if_splits)
  have v: "is_options_valid options" using c(1) by (auto simp: lzma_lzma_encoder_reset_def split: if_splits)
  then show options: "is_lclppb_valid options" by (simp add: is_options_valid_def)
  have f: "le_rc coder' = rc_reset (le_rc coder)" "le_probs coder' = probs_reset options (le_probs coder0)" "masks_ok options coder'" "le_state coder' = 0"
    "le_reps coder' = replicate 4 0" "\<not> le_is_flushed coder'" "\<not> le_is_initialized coder'"
    using c v by (auto simp: lzma_lzma_encoder_reset_def probs_reset_def masks_ok_def Let_def)
  show "masks_ok options coder'" "le_state coder' = 0" "\<not> le_is_flushed coder'" "\<not> le_is_initialized coder'" by (rule f)+
  show "le_reps coder' = [0, 0, 0, 0]" unfolding f(5) by (simp add: numeral_eq_Suc)
  have room: "rc_count (le_rc coder') = 0" "rc_pos (le_rc coder') = 0" "rc_room 58 (le_rc coder')"
    using assms(3,4) by (simp_all add: f(1) rc_reset_def rc_room_def)
  have "enc_iv (le_rc coder') (\<lambda>prob. bit_reset) [] = fold iv_step [] iv0" unfolding f(1) enc_start(1) by (simp add: iv0_def)
  moreover have "enc_inv (unat (rc_range (le_rc coder'))) (le_rc coder')" unfolding f(1) by (rule enc_start(2))
  moreover have "\<forall>a\<in>lzma_ptrs options. bit_reset = le_probs coder' a" unfolding f(2) using probs_reset_ok [OF options] by metis
  ultimately show "enc_idle options [] coder' []" using room unfolding enc_idle_def by (intro exI [of _ "\<lambda>prob. bit_reset"]) blast
qed

lemma init_byte_queued:
  assumes data: "data \<noteq> []" and masks: "masks_ok options coder" "le_state coder = 0" "le_reps coder = [0, 0, 0, 0]"
    and r: "encode_init_byte (coder, whole_input data) = (coder', mf')"
  shows "queued (symbol_syms options data 0 0 [0, 0, 0, 0] (- 1) 1) 0 [0, 0, 0, 0] coder coder'" and "mf_at data 1 0 mf'"
    and "mf_read_limit mf' = word_of_nat (length data)" and "mf_action mf' = LZMA_FINISH"
proof -
  have sub: "literal_coder options 0 0 = (P_literal 0, 0)" by (simp add: literal_coder_def literal_subcoder_def)
  have syms: "symbol_syms options data 0 0 [0, 0, 0, 0] (- 1) 1
      = [Sym_bit (P_is_match 0, 0) False] @ tree_syms 8 (P_literal 0, 0) (ucast (data ! 0)) 1"
    by (simp add: symbol_syms_def Let_def literal_syms_def prev_byte_def sub pos_state_of_def is_literal_state_def)
  have "queues (\<lambda>rc. rc_bittree (P_literal 0, 0) 8 (ucast (data ! 0)) (rc_bit (P_is_match 0, 0) 0 rc))
      (symbol_syms options data 0 0 [0, 0, 0, 0] (- 1) 1)"
    unfolding syms by (rule queues_comp [OF queues_bits(1) queues_tree])
  from queued_rc [OF this, of coder] r masks(2,3)
  show "queued (symbol_syms options data 0 0 [0, 0, 0, 0] (- 1) 1) 0 [0, 0, 0, 0] coder coder'"
    by (simp add: encode_init_byte_def whole_input_def mf_skip_def Let_def)
  have "1 \<le> length data" using data by (cases data) simp_all
  then show "mf_at data 1 0 mf'" "mf_read_limit mf' = word_of_nat (length data)" "mf_action mf' = LZMA_FINISH"
    using r by (auto simp: encode_init_byte_def whole_input_def mf_skip_def mf_at_def Let_def)
qed

lemma lzma_encode_ok:
  assumes create: "lzma_lzma_encoder_create options coder0 = (LZMA_OK, coder)" "preset_dict_size options = 0"
      "length (rc_symbols (le_rc coder0)) = RC_SYMBOLS_MAX" "length (rc_probs (le_rc coder0)) = RC_SYMBOLS_MAX"
    and choices: "choices_ok dict data 0 0 [0, 0, 0, 0] (first_choice data @ choices)"
    and size: "length data < 2 ^ 32" "48 * length (first_choice data @ choices) + 100 \<le> out_size" "out_size + 1 < 2 ^ 64"
  defines "iv \<equiv> fold iv_step (choices_syms options data 0 0 [0, 0, 0, 0] (first_choice data @ choices)) iv0"
  shows "\<exists>coder' mf' out. lzma_encode out_size choices coder (whole_input data) [] = Some (LZMA_STREAM_END, coder', mf', out)
     \<and> digits out = iv_value (iv_normalize iv) \<and> length out = iv_digits (iv_normalize iv) + 4"
proof -
  note c = encoder_created [OF create]
  define p where "p = length (first_choice data)"
  have data0: "word_of_nat (length data) \<noteq> (0 :: u32)" if "data \<noteq> []"
  proof
    assume "word_of_nat (length data) = (0 :: u32)"
    then have "length data = 0" using u32_of_nat [OF size(1)] by simp
    then show False using that by simp
  qed
  \<comment> \<open>the initialization\<close>
  obtain coder1 mf1 syms where i: "encode_init (coder, whole_input data) = (True, coder1, mf1)" "enc_at options syms coder1 []"
    "enc_fields options dict p coder1" "mf_at data p 0 mf1" "mf_read_limit mf1 = word_of_nat (length data)" "mf_action mf1 = LZMA_FINISH"
    "le_state coder1 = 0" "le_reps coder1 = [0, 0, 0, 0]" "length syms \<le> 48 * length (first_choice data)"
    "choices_syms options data 0 0 [0, 0, 0, 0] (first_choice data @ choices) = syms @ choices_syms options data p 0 [0, 0, 0, 0] choices"
    "choices_ok dict data p 0 [0, 0, 0, 0] choices" "0 < p \<or> choices = []" "mf_position mf1 = word_of_nat p"
  proof (cases "data = []")
    case True
    define coder1 where "coder1 = coder\<lparr>le_is_initialized := True\<rparr>"
    have at: "enc_at options [] coder1 []"
      using c(2) by (auto simp: enc_at_def enc_idle_def coder1_def rc_queue_def)
    have ch: "choices = []"
    proof (cases choices)
      case (Cons choice rest)
      obtain ahead bk len where "choice = (ahead, bk, len)" by (cases choice)
      then have "choice_ok dict [] 0 [0, 0, 0, 0] bk len" "unat len \<le> unat ahead" "unat ahead \<le> 0"
        using choices True Cons by (simp_all add: first_choice_def)
      then show ?thesis using choice_len [of dict "[]" 0 "[0, 0, 0, 0]" bk len] by linarith
    qed simp
    have p0: "p = 0" "first_choice data = []" using True by (simp_all add: p_def first_choice_def)
    show ?thesis
    proof (rule that [of coder1 "whole_input data" "[]"])
      show "encode_init (coder, whole_input data) = (True, coder1, whole_input data)" using True by (simp add: encode_init_def whole_input_def coder1_def)
      show "enc_fields options dict p coder1"
        using c by (simp add: enc_fields_def masks_ok_def coder1_def rep0_ok_def is_literal_state_def)
      show "mf_at data p 0 (whole_input data)" "mf_position (whole_input data) = word_of_nat p"
        by (simp_all add: p0 mf_at_def whole_input_def mf_position_def)
      show "choices_ok dict data p 0 [0, 0, 0, 0] choices" using True by (simp add: p0 ch)
    qed (use c at ch p0 in \<open>simp_all add: coder1_def whole_input_def\<close>)
  next
    case False
    obtain coder2 mf2 where b: "encode_init_byte (coder, whole_input data) = (coder2, mf2)" by fastforce
    note q = init_byte_queued [OF False c(3-5) b]
    define coder1 where "coder1 = coder2\<lparr>le_is_initialized := True\<rparr>"
    let ?syms = "symbol_syms options data 0 0 [0, 0, 0, 0] (- 1) 1"
    have "sym_ptrs ?syms \<subseteq> lzma_ptrs options" by (rule symbol_syms_in_ptrs [OF c(1)]) simp_all
    from enc_at_queued [OF c(2) q(1) length_symbol_syms(1) symbol_syms_no_flush(1) this]
    have at: "enc_at options ?syms coder1 []" by (simp add: enc_at_def coder1_def)
    have len: "length ?syms \<le> 48" by (rule length_symbol_syms)
    have f: "masks_ok options coder2" "le_state coder2 = 0" "le_reps coder2 = [0, 0, 0, 0]" "\<not> le_is_flushed coder2"
      using queued_masks [OF q(1) c(3)] q(1) c(6) by (simp_all add: queued_def)
    have init: "encode_init (coder, whole_input data) = (True, coder1, mf2)"
      using False data0 [OF False] b by (simp add: encode_init_def coder1_def whole_input_def)
    have after: "state_after 0 (- 1) 1 = 0" "next_reps [0, 0, 0, 0] (- 1) = [0, 0, 0, 0]"
      by (simp_all add: state_after_def update_literal_def next_reps_def)
    have p1: "p = 1" "first_choice data = [(1, - 1, 1)]" using False by (simp_all add: p_def first_choice_def)
    show ?thesis
    proof (rule that [of coder1 mf2 ?syms])
      show "enc_fields options dict p coder1"
        using f by (simp add: enc_fields_def masks_ok_def coder1_def rep0_ok_def is_literal_state_def)
      show "mf_at data p 0 mf2" unfolding p1 by (rule q(2))
      show "mf_position mf2 = word_of_nat p" using q(2) by (simp add: p1 mf_at_def mf_position_def)
      show "choices_ok dict data p 0 [0, 0, 0, 0] choices" using choices by (simp add: p1 after(2))
      show "choices_syms options data 0 0 [0, 0, 0, 0] (first_choice data @ choices) = ?syms @ choices_syms options data p 0 [0, 0, 0, 0] choices"
        by (simp add: p1 after)
      show "length ?syms \<le> 48 * length (first_choice data)" using len by (simp add: p1)
    qed (use init at f q(3,4) p1 in \<open>simp_all add: coder1_def\<close>)
  qed
  have l: "length syms + 48 * length choices + 49 \<le> out_size" using i(9) size(2) by simp
  obtain coder2 mf2 out2 syms2 where r: "lzma_encode_loop out_size (- 1) choices (word_of_nat p) (coder1, mf1) []
       = Some (Break, word_of_nat (length data), (coder2, mf2), out2)"
     "enc_idle options syms2 coder2 out2" "enc_fields options dict (length data) coder2" "length syms2 \<le> length syms + 48 * length choices"
     "syms2 @ eopm_syms options (length data) (le_state coder2) = syms @ choices_syms options data p (le_state coder1) (le_reps coder1) choices"
    using encode_loop_ok [OF _ i(2-6) c(1) i(12) size(1) l size(3)] i(11) unfolding i(8) by blast
  have iv: "fold iv_step (syms2 @ eopm_syms options (length data) (le_state coder2)) iv0 = iv" unfolding r(5) iv_def i(7,8,10) ..
  have l2: "length syms2 + 54 \<le> out_size" using r(4) i(9) size(2) by simp
  obtain coder' out' where e: "encode_end out_size (- 1) (word_of_nat (length data)) coder2 out2 = (LZMA_STREAM_END, coder', out')"
    "digits out' = iv_value (iv_normalize iv)" "length out' = iv_digits (iv_normalize iv) + 4"
    using encode_end_ok [OF r(2,3) c(1) size(1) l2 size(3)] unfolding iv by blast
  have "mf_action (whole_input data) \<noteq> LZMA_SYNC_FLUSH" by (simp add: whole_input_def)
  then show ?thesis using e(2,3) unfolding lzma_encode_def lzma_lzma_encode_def by (simp add: c(7) i(1,13) r(1) e(1))
qed

end
