(* ===== verification/Lzma_Decode_Correct.thy ===== *)
theory Lzma_Decode_Correct
  imports Lzma_Encode_Correct
begin

unbundle bit_operations_syntax

text \<open>
  The decoder on the stream of the encoder: where the encoder has put the symbols of a choice, \<open>decode_symbol\<close> decodes them and
  leaves the bytes that the choice stands for to \<open>decode_write\<close>.
\<close>

subsection \<open>The fields\<close>

definition dec_fields :: "lzma_options_lzma \<Rightarrow> lzma_lzma_state \<Rightarrow> u32 list \<Rightarrow> lzma_decoder \<Rightarrow> bool" where
  "dec_fields options state reps coder \<longleftrightarrow> ld_pos_mask coder = push_bit (unat (pb options)) 1 - 1 \<and> ld_literal_context_bits coder = lc options
     \<and> ld_literal_pos_mask coder = push_bit (unat (lp options)) 1 - 1 \<and> ld_uncompressed_size coder = LZMA_VLI_UNKNOWN
     \<and> ld_state coder = state \<and> [ld_rep0 coder, ld_rep1 coder, ld_rep2 coder, ld_rep3 coder] = reps"

text \<open>The positions of the dictionary and of the data agree in the bits that the masks leave.\<close>

lemma and_mask_cong:
  assumes "n \<le> 4" and "a mod 2 ^ n = b mod 2 ^ n"
  shows "word_of_nat a AND (push_bit n 1 - 1) = (word_of_nat b AND (push_bit n 1 - 1) :: u32)"
proof -
  have e: "word_of_nat c AND (push_bit n 1 - 1) = (word_of_nat (c mod 2 ^ n) :: u32)" for c
    unfolding pos_mask_bits(3) [OF assms(1)] take_bit_eq_mask [symmetric] take_bit_of_nat take_bit_eq_mod [of n c] ..
  show ?thesis unfolding e assms(2) ..
qed

lemma dict_pos_mod:
  assumes "dict_ok d h" and "16 dvd dc_size d" and "n \<le> 4"
  shows "dc_pos d mod 2 ^ n = length h mod 2 ^ n"
proof -
  have "(2 :: nat) ^ n dvd 2 ^ 4" using assms(3) by (rule le_imp_power_dvd)
  moreover have "2 ^ 4 dvd dc_size d" using assms(2) by simp
  ultimately have "2 ^ n dvd dc_size d" by (rule dvd_trans)
  then show ?thesis using assms(1) unfolding dict_ok_def by (metis mod_mod_cancel)
qed


lemma pos_state_agrees:
  assumes "is_lclppb_valid options" and "dict_ok d (take p data)" and "16 dvd dc_size d" and "p \<le> length data"
  shows "unat (word_of_nat (dc_pos d) AND (push_bit (unat (pb options)) 1 - 1) :: u32) = pos_state_of options p"
proof -
  let ?n = "unat (pb options)"
  note n = lclppb_bounds(3) [OF assms(1)]
  have m: "dc_pos d mod 2 ^ ?n = p mod 2 ^ ?n" using dict_pos_mod [OF assms(2,3) n] assms(4) by simp
  have "(2 :: nat) ^ ?n \<le> 2 ^ 32" by (rule power_increasing) (use n in simp_all)
  then have small: "p mod 2 ^ ?n < 2 ^ 32" by (rule less_le_trans [OF mod_less_divisor, rotated]) simp
  have "word_of_nat (dc_pos d) AND (push_bit ?n 1 - 1) = (word_of_nat (p mod 2 ^ ?n) :: u32)"
    unfolding and_mask_cong [OF n m] unfolding pos_mask_bits(3) [OF n] take_bit_eq_mask [symmetric] take_bit_of_nat take_bit_eq_mod [of ?n p] ..
  then show ?thesis using u32_of_nat [OF small] by (simp only: pos_state_of_def)
qed

subsection \<open>The decoding of a choice\<close>

lemma decodes_literal:
  assumes st: "stream_ok st" and fields: "dec_fields options state reps coder" and state: "state < STATES"
    and sub: "literal_subcoder (lc options) (push_bit (unat (lp options)) 1 - 1) (word_of_nat (dc_pos dict)) (dict_get dict 0) = sub"
    and match: "\<not> is_literal_state state \<Longrightarrow> dict_get dict (unat (reps ! 0)) = match_byte"
  shows "decodes st (decode_literal (st_in st) (st_size st) dict coder) (literal_syms sub state match_byte b)
    (None, coder\<lparr>ld_state := update_literal state, ld_symbol := 2 ^ 8 + ucast b, ld_sequence := SEQ_LITERAL_WRITE\<rparr>)"
proof -
  have f: "ld_literal_context_bits coder = lc options" "ld_literal_pos_mask coder = push_bit (unat (lp options)) 1 - 1" "ld_state coder = state"
    "ld_rep0 coder = reps ! 0" using fields by (auto simp: dec_fields_def)
  have "ucast b < (2 ^ 8 :: u32)" using unat_byte_less [of b] by (simp add: word_less_nat_alt unat_ucast_up)
  then have tree: "decodes st (rd_bittree (st_in st) (st_size st) 8 sub 1) (tree_syms 8 sub (ucast b) 1) (2 ^ 8 + ucast b)"
    by (rule decodes_tree_root [OF st]) simp
  have "decodes st (\<lambda>s. if is_literal_state state then rd_bittree (st_in st) (st_size st) 8 sub 1 s
      else rd_literal_matched (st_in st) (st_size st) 8 sub 0x100 (push_bit 1 (ucast (dict_get dict (unat (reps ! 0))))) 1 s)
      (literal_syms sub state match_byte b) (2 ^ 8 + ucast b)"
  proof (cases "is_literal_state state")
    case True
    then show ?thesis using tree by (simp only: literal_syms_def if_True)
  next
    case False
    then show ?thesis using decodes_literal_matched [OF st] match by (simp only: literal_syms_def if_False not_False_eq_True)
  qed
  from decodes_bind [OF this decodes_return] show ?thesis
    unfolding decode_literal_def [abs_def] Let_def f sub next_state_update_literal [OF state] append_Nil2 .
qed

lemma decodes_last:
  assumes "decodes st f xs x" and "\<And>s. g x s = Some (y, s)"
  shows "decodes st (\<lambda>s. do { (x, s) \<leftarrow> f s; g x s }) xs y"
proof -
  have "g x = (\<lambda>s. Some (y, s))" using assms(2) by (rule ext)
  then have "decodes st (g x) [] y" using decodes_return by simp
  from decodes_bind [where f = f and x = x and g = g, OF assms(1) this] show ?thesis by (simp only: append_Nil2)
qed

lemma decodes_match:
  assumes st: "stream_ok st" and len: "2 \<le> len" "len \<le> 273" and distance: "distance \<noteq> - 1" "dict_is_distance_valid dict (unat distance)"
  shows "decodes st (decode_match (st_in st) (st_size st) pos_state dict coder) (match_syms pos_state distance len)
    (None, coder\<lparr>ld_state := update_match (ld_state coder), ld_rep3 := ld_rep2 coder, ld_rep2 := ld_rep1 coder, ld_rep1 := ld_rep0 coder,
       ld_len := len, ld_rep0 := distance, ld_sequence := SEQ_COPY\<rparr>)"
proof -
  have "decodes st (slot_decode (st_in st) (st_size st) len) (slot_syms distance len @ dist_syms distance) (distance, False)"
    using decodes_distance [OF st, of len distance] distance(1) by (simp only:)
  then show ?thesis unfolding decode_match_def [abs_def] match_syms_def Let_def
    by (rule decodes_bind [OF decodes_length [OF st len] decodes_last]) (simp add: distance(2))
qed

lemma decodes_rep_len:
  assumes st: "stream_ok st" and len: "2 \<le> len" "len \<le> 273"
  shows "decodes st (decode_rep_len (st_in st) (st_size st) pos_state coder) (len_syms P_rep_len pos_state len)
    (None, coder\<lparr>ld_state := update_long_rep (ld_state coder), ld_len := len, ld_sequence := SEQ_COPY\<rparr>)"
  unfolding decode_rep_len_def [abs_def] Let_def by (rule decodes_last [OF decodes_length [OF st len]]) simp

lemma decodes_bit_bind:
  assumes "stream_ok st" and "decodes st (g b) ys y"
  shows "decodes st (\<lambda>s. do { (b, s) \<leftarrow> rc_decode_bit (st_in st) (st_size st) prob s; g b s }) (Sym_bit prob b # ys) y"
  using decodes_bind [where x = b and g = g, OF decodes_bit [OF assms(1), of prob b] assms(2)] by simp

lemma decodes_rep:
  assumes st: "stream_ok st" and rep: "rep < 4" and len: "1 \<le> len" "len \<le> 273" "len = 1 \<Longrightarrow> rep = 0" and valid: "dict_is_distance_valid dict 0"
    and fields: "dec_fields options state reps coder"
  shows "\<exists>coder'. decodes st (decode_rep (st_in st) (st_size st) pos_state dict coder) (rep_syms pos_state state rep len) (None, coder')
    \<and> dec_fields options (state_after state rep len) (next_reps reps rep) coder'
    \<and> ld_sequence coder' = (if len = 1 then SEQ_SHORTREP else SEQ_COPY) \<and> (len \<noteq> 1 \<longrightarrow> ld_len coder' = len)"
proof -
  let ?decode = "decode_rep (st_in st) (st_size st) pos_state dict coder"
  have f: "ld_state coder = state" "reps = [ld_rep0 coder, ld_rep1 coder, ld_rep2 coder, ld_rep3 coder]" using fields by (auto simp: dec_fields_def)
  note unfold_rep = decode_rep_def [abs_def] f(1) eqTrueI [OF valid] not_True_eq_False if_False
  show ?thesis
  proof (cases "len = 1")
    case True
    have "decodes st ?decode [Sym_bit (P_is_rep0, int state) False, Sym_bit (P_is_rep0_long state, int pos_state) False]
        (None, coder\<lparr>ld_state := update_short_rep state, ld_sequence := SEQ_SHORTREP\<rparr>)"
      unfolding unfold_rep
      by (rule decodes_bit_bind [OF st], simp only: not_False_eq_True if_True, rule decodes_bit_bind [OF st],
        simp only: not_False_eq_True if_True f(1), rule decodes_return)
    then show ?thesis using True len(3) fields
      by (intro exI [of _ "coder\<lparr>ld_state := update_short_rep state, ld_sequence := SEQ_SHORTREP\<rparr>"])
        (simp add: rep_syms_def dec_fields_def state_after_def next_reps_def)
  next
    case False
    have "unat len \<noteq> 1" "1 \<le> unat len" using False len(1) by (auto simp: word_le_nat_alt word_unat_eq_iff)
    then have two: "2 \<le> len" by (simp add: word_le_nat_alt)
    let ?long = "\<lambda>coder :: lzma_decoder. coder\<lparr>ld_state := update_long_rep (ld_state coder), ld_len := len, ld_sequence := SEQ_COPY\<rparr>"
    let ?len = "len_syms P_rep_len pos_state len"
    note rest = decodes_rep_len [OF st two len(2), of pos_state]
    consider "rep = 0" | "rep = 1" | "rep = 2" | "rep = 3" using u32_cases4 [OF rep] by blast
    then show ?thesis
    proof cases
      case 1
      have "decodes st ?decode (Sym_bit (P_is_rep0, int state) False # Sym_bit (P_is_rep0_long state, int pos_state) True # ?len) (None, ?long coder)"
        unfolding unfold_rep
        by (rule decodes_bit_bind [OF st], simp only: not_False_eq_True if_True, rule decodes_bit_bind [OF st],
          simp only: not_True_eq_False if_False, rule rest [of coder, unfolded f(1)])
      then show ?thesis using 1 False fields
        by (intro exI [of _ "?long coder"]) (simp add: rep_syms_def dec_fields_def state_after_def next_reps_def)
    next
      case 2
      let ?coder = "coder\<lparr>ld_rep1 := ld_rep0 coder, ld_rep0 := ld_rep1 coder\<rparr>"
      have "decodes st ?decode (Sym_bit (P_is_rep0, int state) True # Sym_bit (P_is_rep1, int state) False # ?len) (None, ?long ?coder)"
        unfolding unfold_rep
        by (rule decodes_bit_bind [OF st], simp only: not_True_eq_False if_False, rule decodes_bit_bind [OF st],
          simp only: not_False_eq_True if_True, rule rest)
      then show ?thesis using 2 False fields
        by (intro exI [of _ "?long ?coder"]) (auto simp: rep_syms_def dec_fields_def state_after_def next_reps_def)
    next
      case 3
      let ?coder = "coder\<lparr>ld_rep2 := ld_rep1 coder, ld_rep1 := ld_rep0 coder, ld_rep0 := ld_rep2 coder\<rparr>"
      have "decodes st ?decode (Sym_bit (P_is_rep0, int state) True # Sym_bit (P_is_rep1, int state) True # Sym_bit (P_is_rep2, int state) False # ?len)
          (None, ?long ?coder)"
        unfolding unfold_rep
        by (rule decodes_bit_bind [OF st], simp only: not_True_eq_False if_False, rule decodes_bit_bind [OF st],
          simp only: not_True_eq_False if_False, rule decodes_bit_bind [OF st], simp only: not_False_eq_True if_True, rule rest)
      then show ?thesis using 3 False fields
        by (intro exI [of _ "?long ?coder"]) (auto simp: rep_syms_def dec_fields_def state_after_def next_reps_def)
    next
      case 4
      let ?coder = "coder\<lparr>ld_rep3 := ld_rep2 coder, ld_rep2 := ld_rep1 coder, ld_rep1 := ld_rep0 coder, ld_rep0 := ld_rep3 coder\<rparr>"
      have "decodes st ?decode (Sym_bit (P_is_rep0, int state) True # Sym_bit (P_is_rep1, int state) True # Sym_bit (P_is_rep2, int state) True # ?len)
          (None, ?long ?coder)"
        unfolding unfold_rep
        by (rule decodes_bit_bind [OF st], simp only: not_True_eq_False if_False, rule decodes_bit_bind [OF st],
          simp only: not_True_eq_False if_False, rule decodes_bit_bind [OF st], simp only: not_True_eq_False if_False, rule rest)
      then show ?thesis using 4 False fields
        by (intro exI [of _ "?long ?coder"]) (auto simp: rep_syms_def dec_fields_def state_after_def next_reps_def)
    qed
  qed
qed

subsection \<open>The bytes of a choice\<close>

definition pending_write :: "nat \<Rightarrow> byte list \<Rightarrow> nat \<Rightarrow> lzma_decoder \<Rightarrow> nat \<Rightarrow> bool" where
  "pending_write dict data p coder n \<longleftrightarrow>
     (case ld_sequence coder of
        SEQ_LITERAL_WRITE \<Rightarrow> n = 1 \<and> ucast (ld_symbol coder) = data ! p
      | SEQ_SHORTREP \<Rightarrow> n = 1 \<and> unat (ld_rep0 coder) < p \<and> unat (ld_rep0 coder) < dict \<and> data ! p = data ! (p - 1 - unat (ld_rep0 coder))
      | SEQ_COPY \<Rightarrow> n = unat (ld_len coder) \<and> 0 < n \<and> unat (ld_rep0 coder) < p \<and> unat (ld_rep0 coder) < dict
          \<and> (\<forall>i < n. data ! (p + i) = data ! (p + i - 1 - unat (ld_rep0 coder)))
      | _ \<Rightarrow> n = 0)"

lemma pending_none: "pending_write dict data p coder n \<Longrightarrow> ld_sequence coder \<in> {SEQ_NORMALIZE, SEQ_IS_MATCH} \<longleftrightarrow> n = 0"
  by (auto simp: pending_write_def split: decoder_sequence.splits)

lemma copied_take:
  "p + n \<le> length data \<Longrightarrow> d < p \<Longrightarrow> \<forall>i < n. data ! (p + i) = data ! (p + i - 1 - d) \<Longrightarrow> copied d n (take p data) = take (p + n) data"
proof (induction n arbitrary: p)
  case (Suc n)
  have "data ! p = data ! (p - 1 - d)" using Suc.prems(3) by (metis add_0_right zero_less_Suc)
  then have "take p data @ [take p data ! (length (take p data) - 1 - d)] = take (Suc p) data"
    using Suc.prems(1,2) by (simp add: take_Suc_conv_app_nth)
  moreover have "copied d n (take (Suc p) data) = take (Suc p + n) data"
    by (rule Suc.IH) (use Suc.prems in \<open>auto dest: spec [of _ "Suc _"]\<close>)
  ultimately show ?case by simp
qed simp

lemma decode_write_ok:
  assumes d: "dict_ok d (take p data)" and pending: "pending_write (dc_size d) data p coder n" and n: "p + n \<le> length data"
    and limit: "dc_pos d \<le> dc_limit d" "dc_limit d \<le> dc_size d" and m: "m = min n (dc_limit d - dc_pos d)"
  shows "\<exists>coder' d'. decode_write coder d = (n - m \<noteq> 0, coder', d') \<and> dict_ok d' (take (p + m) data)
    \<and> pending_write (dc_size d) data (p + m) coder' (n - m) \<and> dc_pos d' = dc_pos d + m \<and> dc_limit d' = dc_limit d \<and> dc_size d' = dc_size d
    \<and> dc_need_reset d' = dc_need_reset d \<and> (dec_fields options state reps coder \<longrightarrow> dec_fields options state reps coder')"
proof -
  have lp: "length (take p data) = p" using n by simp
  have put: "\<exists>d'. dict_put d (data ! p) = (1 - m \<noteq> 0, d') \<and> dict_ok d' (take (p + m) data) \<and> dc_pos d' = dc_pos d + m
      \<and> dc_limit d' = dc_limit d \<and> dc_size d' = dc_size d \<and> dc_need_reset d' = dc_need_reset d" if "n = 1"
  proof (cases "dc_pos d = dc_limit d")
    case True
    then show ?thesis using d m that by (simp add: dict_put_full)
  next
    case False
    then have pos: "dc_pos d < dc_limit d" using limit(1) by simp
    then have m1: "m = 1" using m that by simp
    have "take p data @ [data ! p] = take (p + 1) data" using n that by (simp add: take_Suc_conv_app_nth)
    then have "dict_ok (dict_byte (data ! p) d) (take (p + 1) data)" using dict_byte_ok [OF d, of "data ! p"] pos limit(2) by simp
    then show ?thesis using dict_put_ok [OF d limit(2) pos] m1 by simp
  qed
  have one: ?thesis if n1: "n = 1" and seq: "ld_sequence coder = SEQ_LITERAL_WRITE \<or> ld_sequence coder = SEQ_SHORTREP"
    and byte: "b = data ! p" and w: "decode_write coder d = (let (full, d) = dict_put d b in (full, if full then coder else coder\<lparr>ld_sequence := SEQ_IS_MATCH\<rparr>, d))" for b
  proof -
    obtain d' where d': "dict_put d (data ! p) = (1 - m \<noteq> 0, d')" "dict_ok d' (take (p + m) data)" "dc_pos d' = dc_pos d + m"
      "dc_limit d' = dc_limit d" "dc_size d' = dc_size d" "dc_need_reset d' = dc_need_reset d" using put [OF n1] by blast
    let ?coder = "if 1 - m \<noteq> 0 then coder else coder\<lparr>ld_sequence := SEQ_IS_MATCH\<rparr>"
    have "decode_write coder d = (n - m \<noteq> 0, ?coder, d')" unfolding w byte d'(1) n1 by (simp only: Let_def prod.case)
    moreover have "pending_write (dc_size d) data (p + m) ?coder (n - m)"
    proof (cases "m = 0")
      case True
      then show ?thesis using pending n1 by simp
    next
      case False
      then show ?thesis using n1 by (simp add: pending_write_def)
    qed
    moreover have "dec_fields options state reps coder \<longrightarrow> dec_fields options state reps ?coder" by (simp add: dec_fields_def)
    ultimately show ?thesis using d'(2-6) by blast
  qed
  show ?thesis
  proof (cases "ld_sequence coder")
    case SEQ_LITERAL_WRITE
    then have r: "n = 1" "ucast (ld_symbol coder) = data ! p" using pending by (simp_all add: pending_write_def)
    show ?thesis by (rule one [OF r(1) _ r(2)]) (simp_all add: SEQ_LITERAL_WRITE decode_write_def)
  next
    case SEQ_SHORTREP
    then have r: "n = 1" "unat (ld_rep0 coder) < p" "unat (ld_rep0 coder) < dc_size d" "data ! p = data ! (p - 1 - unat (ld_rep0 coder))"
      using pending by (simp_all add: pending_write_def)
    have byte: "dict_get d (unat (ld_rep0 coder)) = data ! p" using dict_get_ok [OF d _ r(3)] r(2,4) unfolding lp by simp
    show ?thesis by (rule one [OF r(1) _ byte]) (simp_all add: SEQ_SHORTREP decode_write_def)
  next
    case SEQ_COPY
    then have r: "n = unat (ld_len coder)" "0 < n" "unat (ld_rep0 coder) < p" "unat (ld_rep0 coder) < dc_size d"
      "\<forall>i < n. data ! (p + i) = data ! (p + i - 1 - unat (ld_rep0 coder))"
      using pending by (simp_all add: pending_write_def)
    define left where "left = (word_of_nat (n - m) :: u32)"
    let ?d = "dict_copied (unat (ld_rep0 coder)) m d" and ?coder = "coder\<lparr>ld_len := left\<rparr>"
    have rep: "dict_repeat d (unat (ld_rep0 coder)) (unat (ld_len coder)) = (n - m \<noteq> 0, ?d, n - m)"
      using dict_repeat_ok [OF d _ r(4) limit, of m n] r(1,3) m unfolding lp by (simp add: min.commute)
    have mn: "m \<le> n" using m by simp
    have "copied (unat (ld_rep0 coder)) m (take p data) = take (p + m) data" by (rule copied_take) (use n r(3,5) mn in auto)
    moreover have "dict_ok ?d (copied (unat (ld_rep0 coder)) m (take p data))"
      by (rule dict_copied_ok [OF d]) (use r(3,4) limit m lp in \<open>simp_all\<close>)
    ultimately have ok: "dict_ok ?d (take (p + m) data)" by simp
    have "n < 2 ^ 32" unfolding r(1) using unsigned_less [of "ld_len coder", where 'a = nat] by simp
    then have u: "unat left = n - m" unfolding left_def by (intro u32_of_nat) simp
    have later: "\<forall>i < n - m. data ! (p + m + i) = data ! (p + m + i - 1 - unat (ld_rep0 coder))"
    proof (intro allI impI)
      fix i assume "i < n - m"
      then have "m + i < n" by simp
      from r(5) [rule_format, OF this] show "data ! (p + m + i) = data ! (p + m + i - 1 - unat (ld_rep0 coder))" by (simp only: add.assoc)
    qed
    have w: "decode_write coder d = (n - m \<noteq> 0, if n - m \<noteq> 0 then ?coder else ?coder\<lparr>ld_sequence := SEQ_IS_MATCH\<rparr>, ?d)"
      by (simp only: decode_write_def SEQ_COPY rep Let_def prod.case decoder_sequence.case left_def)
    have "pending_write (dc_size d) data (p + m) (if n - m \<noteq> 0 then ?coder else ?coder\<lparr>ld_sequence := SEQ_IS_MATCH\<rparr>) (n - m)"
      using r(3,4) later u by (simp add: pending_write_def SEQ_COPY)
    moreover have "dec_fields options state reps coder
        \<longrightarrow> dec_fields options state reps (if n - m \<noteq> 0 then ?coder else ?coder\<lparr>ld_sequence := SEQ_IS_MATCH\<rparr>)" by (simp add: dec_fields_def)
    ultimately show ?thesis using w ok dict_copied_fields by blast
  qed (use pending m d in \<open>simp_all add: decode_write_def pending_write_def\<close>)
qed

lemma ucast_literal: "ucast (2 ^ 8 + ucast b :: u32) = (b :: byte)"
proof -
  have "unat (2 ^ 8 + ucast b :: u32) = 256 + unat b" using unat_byte_less [of b] by (subst unat_add_small) (simp_all add: unat_ucast_up)
  then show ?thesis using unat_byte_less [of b] by (simp add: word_unat_eq_iff unsigned_ucast_eq take_bit_eq_mod)
qed

lemma decodes_choice:
  assumes st: "stream_ok st" and options: "is_lclppb_valid options" and d: "dict_ok d (take p data)" "16 dvd dc_size d" and p: "p < length data"
    and fields: "dec_fields options state reps coder" "state < STATES" and choice: "choice_ok (dc_size d) data p reps back len"
    and rep0: "rep0_ok (dc_size d) p state reps"
  shows "\<exists>coder'. decodes st (decode_symbol (st_in st) (st_size st) d coder) (symbol_syms options data p state reps back len) (None, coder')
    \<and> dec_fields options (state_after state back len) (next_reps reps back) coder' \<and> pending_write (dc_size d) data p coder' (unat len)"
proof -
  note b = lclppb_bounds(2,3) [OF options]
  have lp: "length (take p data) = p" using p by simp
  have f: "ld_pos_mask coder = push_bit (unat (pb options)) 1 - 1" "ld_state coder = state"
    "reps = [ld_rep0 coder, ld_rep1 coder, ld_rep2 coder, ld_rep3 coder]"
    using fields(1) by (auto simp: dec_fields_def)
  have ps: "unat (word_of_nat (dc_pos d) AND ld_pos_mask coder) = pos_state_of options p"
    unfolding f(1) using pos_state_agrees [OF options d] p by simp
  note unfold_symbol = decode_symbol_def [abs_def] Let_def ps f(2)
  show ?thesis
  proof (cases "back = - 1")
    case True
    then have len: "len = 1" using choice by (simp add: choice_ok_def)
    have lp4: "unat (lp options) \<le> 4" using b(1) by simp
    have prev: "dict_get d 0 = prev_byte data p"
    proof (cases "p = 0")
      case True
      then show ?thesis using dict_get_start [of d] d(1) by (simp add: prev_byte_def)
    next
      case False
      moreover have "0 < dc_size d" using d(1) by (simp add: dict_ok_def)
      ultimately show ?thesis using dict_get_ok [OF d(1), of 0, unfolded lp] by (simp add: prev_byte_def)
    qed
    have sub: "literal_subcoder (lc options) (push_bit (unat (lp options)) 1 - 1) (word_of_nat (dc_pos d)) (dict_get d 0)
        = literal_coder options p (prev_byte data p)"
      unfolding literal_coder_def literal_subcoder_def and_mask_cong [OF lp4 dict_pos_mod [OF d lp4, unfolded lp]] prev ..
    have match: "dict_get d (unat (reps ! 0)) = data ! (p - 1 - unat (reps ! 0))" if "\<not> is_literal_state state"
      using that rep0 dict_get_ok [OF d(1), of "unat (reps ! 0)", unfolded lp] by (simp add: rep0_ok_def)
    let ?coder = "coder\<lparr>ld_state := update_literal state, ld_symbol := 2 ^ 8 + ucast (data ! p), ld_sequence := SEQ_LITERAL_WRITE\<rparr>"
    have "decodes st (decode_symbol (st_in st) (st_size st) d coder) (symbol_syms options data p state reps back len) (None, ?coder)"
      unfolding unfold_symbol symbol_syms_def if_P [OF True] append_Cons append_Nil
      by (rule decodes_bit_bind [OF st], simp only: not_False_eq_True if_True, rule decodes_literal [OF st fields sub match])
    moreover have "ucast (2 ^ 8 + ucast (data ! p) :: u32) = data ! p" by (rule ucast_literal)
    ultimately show ?thesis using True len fields(1)
      by (intro exI [of _ ?coder]) (simp add: dec_fields_def pending_write_def state_after_def next_reps_def)
  next
    case False
    have c: "(if back < 4 then 1 \<le> len \<and> (len = 1 \<longrightarrow> back = 0) else 2 \<le> len)" "len \<le> 273" "unat (next_reps reps back ! 0) < p"
      "unat (next_reps reps back ! 0) < dc_size d"
      "\<forall>i < unat len. data ! (p + i) = data ! (p + i - 1 - unat (next_reps reps back ! 0))"
      using choice False by (simp_all add: choice_ok_def Let_def list_all_iff)
    note l1 = choice_len [OF choice]
    show ?thesis
    proof (cases "back < 4")
      case True
      have "dict_is_distance_valid d 0" unfolding dict_valid_iff [OF d(1), of 0, unfolded lp] using c(3,4) by linarith
      then obtain coder' where r: "decodes st (decode_rep (st_in st) (st_size st) (pos_state_of options p) d coder)
          (rep_syms (pos_state_of options p) state back len) (None, coder')"
        "dec_fields options (state_after state back len) (next_reps reps back) coder'"
        "ld_sequence coder' = (if len = 1 then SEQ_SHORTREP else SEQ_COPY)" "len \<noteq> 1 \<longrightarrow> ld_len coder' = len"
        using decodes_rep [OF st True _ c(2) _ _ fields(1), of d "pos_state_of options p"] c(1) True by auto
      have "decodes st (decode_symbol (st_in st) (st_size st) d coder) (symbol_syms options data p state reps back len) (None, coder')"
        unfolding unfold_symbol symbol_syms_def if_not_P [OF False] if_P [OF True] append_Cons append_Nil
        by (rule decodes_bit_bind [OF st], simp only: not_True_eq_False if_False, rule decodes_bit_bind [OF st],
          simp only: not_True_eq_False if_False, rule r(1))
      moreover have "pending_write (dc_size d) data p coder' (unat len)"
      proof -
        have r0: "ld_rep0 coder' = next_reps reps back ! 0" using r(2) unfolding dec_fields_def by (metis nth_Cons_0)
        show ?thesis
        proof (cases "len = 1")
          case True
          then show ?thesis using c(3,4) c(5) [rule_format, of 0] l1 by (simp add: pending_write_def r(3) r0)
        next
          case False
          then show ?thesis using c(3-5) l1 r(4) by (simp add: pending_write_def r(3) r0)
        qed
      qed
      ultimately show ?thesis using r(2) by blast
    next
      case False': False
      then have len: "2 \<le> len" using c(1) by simp
      have back3: "\<not> back < 4 \<Longrightarrow> back \<noteq> 0 \<and> back \<noteq> 1 \<and> back \<noteq> 2 \<and> back \<noteq> 3" by auto
      then have n: "next_reps reps back = [back - 4, reps ! 0, reps ! 1, reps ! 2]" using False False' by (simp add: next_reps_def)
      then have dist: "unat (back - 4) < p" "unat (back - 4) < dc_size d" using c(3,4) by simp_all
      have "back - 4 \<noteq> - 1"
      proof
        assume "back - 4 = - 1"
        then have "back = - 1 + 4" by (simp only: diff_eq_eq)
        then show False using back3 [OF False'] by simp
      qed
      moreover have "dict_is_distance_valid d (unat (back - 4))" unfolding dict_valid_iff [OF d(1), unfolded lp] using dist by blast
      ultimately have m: "decodes st (decode_match (st_in st) (st_size st) (pos_state_of options p) d coder) (match_syms (pos_state_of options p) (back - 4) len)
          (None, coder\<lparr>ld_state := update_match (ld_state coder), ld_rep3 := ld_rep2 coder, ld_rep2 := ld_rep1 coder, ld_rep1 := ld_rep0 coder,
             ld_len := len, ld_rep0 := back - 4, ld_sequence := SEQ_COPY\<rparr>)" (is "decodes st _ _ (None, ?coder)")
        by (rule decodes_match [OF st len c(2)])
      have "decodes st (decode_symbol (st_in st) (st_size st) d coder) (symbol_syms options data p state reps back len) (None, ?coder)"
        unfolding unfold_symbol symbol_syms_def if_not_P [OF False] if_not_P [OF False'] append_Cons append_Nil
        by (rule decodes_bit_bind [OF st], simp only: not_True_eq_False if_False, rule decodes_bit_bind [OF st],
          simp only: not_False_eq_True if_True, rule m [unfolded f(2)])
      then show ?thesis using False False' fields(1) n f(3) c(5) dist l1
        by (intro exI [of _ ?coder]) (auto simp: dec_fields_def pending_write_def state_after_def)
    qed
  qed
qed

end
