(* ===== verification/Lzma_Roundtrip.thy ===== *)
theory Lzma_Roundtrip
  imports Lzma_Decode_Correct
begin

unbundle bit_operations_syntax

text \<open>
  The round trip of LZMA: the decoder of lzma\_decoder.c, run by \<open>lz_decode_buffer\<close> of lz\_decoder.c with its wrapping dictionary,
  gives the data from which the encoder of lzma\_encoder.c has made its stream, whatever choices it took.
\<close>

subsection \<open>The end marker\<close>

lemma decodes_step:
  assumes "decodes st f xs x" and "in_step st iv s" and "iv_ok iv" and "iv_inside (fold iv_step (xs @ ys) iv) (st_last st)"
    and "sym_ptrs (xs @ ys) \<subseteq> st_ptrs st"
  shows "\<exists>s'. f s = Some (x, s') \<and> in_step st (fold iv_step xs iv) s' \<and> iv_ok (fold iv_step xs iv)
    \<and> iv_inside (fold iv_step ys (fold iv_step xs iv)) (st_last st) \<and> sym_ptrs ys \<subseteq> st_ptrs st"
proof -
  have ok: "iv_ok (fold iv_step xs iv)" using iv_run_ok [OF assms(3)] by blast
  have ins: "iv_inside (fold iv_step ys (fold iv_step xs iv)) (st_last st)" using assms(4) by simp
  have "iv_inside (fold iv_step xs iv) (st_last st)" using iv_run_ok [OF ok, of ys] iv_inside_trans [OF _ ins] by blast
  then show ?thesis using decodesD [OF assms(1) _ assms(3) _ assms(2)] assms(5) ok ins by auto
qed

lemma decode_eopm:
  assumes st: "stream_ok st" "st_last st = iv_normalize (fold iv_step (eopm_syms options p state) iv)" "sym_ptrs (eopm_syms options p state) \<subseteq> st_ptrs st"
    and iv: "iv_ok iv" "in_step st iv s" and fields: "dec_fields options state reps coder"
    and ps: "unat (word_of_nat (dc_pos d) AND ld_pos_mask coder) = pos_state_of options p"
  shows "\<exists>coder' mem rc. decode_symbol (st_in st) (st_size st) d coder s
    = Some ((Some LZMA_STREAM_END, coder'), mem, rc, st_off st + length (st_bytes st)) \<and> rc_is_finished rc \<and> ld_uncompressed_size coder' = LZMA_VLI_UNKNOWN"
proof -
  let ?ps = "pos_state_of options p" and ?m = "(P_is_match state, int (pos_state_of options p))" and ?r = "(P_is_rep, int state)"
  let ?len = "len_syms P_match_len ?ps 2" and ?slot = "slot_syms (- 1) 2 @ dist_syms (- 1)"
  have f: "ld_state coder = state" "ld_uncompressed_size coder = LZMA_VLI_UNKNOWN" using fields by (simp_all add: dec_fields_def)
  have e: "eopm_syms options p state = [Sym_bit ?m True] @ [Sym_bit ?r False] @ ?len @ ?slot" by (simp add: eopm_syms_def match_syms_def)
  have ins: "iv_inside (fold iv_step (eopm_syms options p state) iv) (st_last st)" unfolding st(2) by (rule iv_inside_normalize)
  obtain s1 where s1: "rc_decode_bit (st_in st) (st_size st) ?m s = Some (True, s1)" "in_step st (fold iv_step [Sym_bit ?m True] iv) s1"
    "iv_ok (fold iv_step [Sym_bit ?m True] iv)" "iv_inside (fold iv_step ([Sym_bit ?r False] @ ?len @ ?slot) (fold iv_step [Sym_bit ?m True] iv)) (st_last st)"
    "sym_ptrs ([Sym_bit ?r False] @ ?len @ ?slot) \<subseteq> st_ptrs st"
    using decodes_step [OF decodes_bit [OF st(1)] iv(2,1) ins [unfolded e] st(3) [unfolded e]] by blast
  obtain s2 where s2: "rc_decode_bit (st_in st) (st_size st) ?r s1 = Some (False, s2)"
    "in_step st (fold iv_step [Sym_bit ?r False] (fold iv_step [Sym_bit ?m True] iv)) s2" "iv_ok (fold iv_step [Sym_bit ?r False] (fold iv_step [Sym_bit ?m True] iv))"
    "iv_inside (fold iv_step (?len @ ?slot) (fold iv_step [Sym_bit ?r False] (fold iv_step [Sym_bit ?m True] iv))) (st_last st)"
    "sym_ptrs (?len @ ?slot) \<subseteq> st_ptrs st"
    using decodes_step [OF decodes_bit [OF st(1)] s1(2-5)] by blast
  have two: "(2 :: u32) \<le> 2" "(2 :: u32) \<le> 273" by simp_all
  obtain s3 where s3: "len_decode (st_in st) (st_size st) P_match_len ?ps s2 = Some (2, s3)"
    "in_step st (fold iv_step ?len (fold iv_step [Sym_bit ?r False] (fold iv_step [Sym_bit ?m True] iv))) s3"
    "iv_ok (fold iv_step ?len (fold iv_step [Sym_bit ?r False] (fold iv_step [Sym_bit ?m True] iv)))"
    "iv_inside (fold iv_step ?slot (fold iv_step ?len (fold iv_step [Sym_bit ?r False] (fold iv_step [Sym_bit ?m True] iv)))) (st_last st)"
    "sym_ptrs ?slot \<subseteq> st_ptrs st"
    using decodes_step [OF decodes_length [OF st(1) two] s2(2-5)] by blast
  obtain s4 where s4: "slot_decode (st_in st) (st_size st) 2 s3 = Some ((- 1, True), s4)"
    "in_step st (fold iv_step ?slot (fold iv_step ?len (fold iv_step [Sym_bit ?r False] (fold iv_step [Sym_bit ?m True] iv)))) s4"
    using decodesD [OF decodes_distance [OF st(1), of 2 "- 1"] s3(5,3,4,2)] by auto
  obtain mem rc in_pos where v: "s4 = (mem, rc, in_pos)" by (cases s4)
  have "in_step st (fold iv_step (eopm_syms options p state) iv) (mem, rc, in_pos)" using s4(2) unfolding e v by simp
  then obtain rc' where n: "rc_normalize (st_in st) (st_size st) (rc, in_pos) = Some (rc', st_off st + length (st_bytes st))" "rc_is_finished rc'"
    using decoder_finishes [OF st(1,2)] by blast
  have "decode_match (st_in st) (st_size st) ?ps d coder s2
      = Some ((Some LZMA_STREAM_END, coder\<lparr>ld_state := update_match state, ld_rep3 := ld_rep2 coder, ld_rep2 := ld_rep1 coder, ld_rep1 := ld_rep0 coder,
          ld_len := 2, ld_rep0 := - 1\<rparr>), mem, rc', st_off st + length (st_bytes st))"
    by (simp add: decode_match_def Let_def s3(1) s4(1) v n(1) f)
  moreover have "decode_symbol (st_in st) (st_size st) d coder s = decode_match (st_in st) (st_size st) ?ps d coder s2"
    unfolding decode_symbol_def Let_def ps f(1) s1(1) by (simp add: s2(1))
  ultimately show ?thesis using n(2) f(2) by auto
qed

subsection \<open>The loop of the decoder\<close>

definition dec_at ::
  "prob_array stream \<Rightarrow> lzma_options_lzma \<Rightarrow> byte list \<Rightarrow> choice list \<Rightarrow> nat \<Rightarrow> nat \<Rightarrow> lzma_decoder \<Rightarrow> lzma_dict \<Rightarrow> prob_array decoding \<Rightarrow> bool" where
  "dec_at st options data choices p n coder d s \<longleftrightarrow> (\<exists>state reps ahead iv. dec_fields options state reps coder \<and> state < STATES
     \<and> dict_ok d (take p data) \<and> 16 dvd dc_size d \<and> \<not> dc_need_reset d \<and> pending_write (dc_size d) data p coder n \<and> p + n \<le> length data
     \<and> choices_ok (dc_size d) data (p + n) ahead reps choices \<and> rep0_ok (dc_size d) (p + n) state reps
     \<and> in_step st iv s \<and> iv_ok iv \<and> st_last st = iv_normalize (fold iv_step (choices_syms options data (p + n) state reps choices) iv))"

definition dec_end :: "prob_array stream \<Rightarrow> byte list \<Rightarrow> lzma_decoder \<Rightarrow> lzma_dict \<Rightarrow> prob_array decoding \<Rightarrow> bool" where
  "dec_end st data coder d s \<longleftrightarrow> dict_ok d data \<and> \<not> dc_need_reset d \<and> ld_uncompressed_size coder = LZMA_VLI_UNKNOWN
     \<and> rc_is_finished (fst (snd s)) \<and> snd (snd s) = st_off st + length (st_bytes st)"

text \<open>How the loop ends: with everything written, or with a full dictionary and the rest to come.\<close>

definition dec_result ::
  "prob_array stream \<Rightarrow> lzma_options_lzma \<Rightarrow> byte list \<Rightarrow> nat \<Rightarrow> lzma_dict \<Rightarrow> (lzma_ret \<times> lzma_decoder \<times> lzma_dict \<times> prob_array decoding) run \<Rightarrow> bool" where
  "dec_result st options data p d r \<longleftrightarrow> (\<exists>ret coder' d' s' p'. r = Result (ret, coder', d', s') \<and> p \<le> p' \<and> dc_pos d' = dc_pos d + (p' - p)
     \<and> dc_limit d' = dc_limit d \<and> dc_size d' = dc_size d
     \<and> (ret = LZMA_STREAM_END \<and> p' = length data \<and> dec_end st data coder' d' s'
        \<or> ret = LZMA_OK \<and> dc_pos d' = dc_limit d' \<and> (\<exists>choices n. dec_at st options data choices p' n coder' d' s')))"

lemma dec_result_later:
  assumes "dec_result st options data (p + m) d' r" and "dc_pos d' = dc_pos d + m" and "dc_limit d' = dc_limit d" and "dc_size d' = dc_size d"
  shows "dec_result st options data p d r"
proof -
  obtain ret coder2 d2 s2 p2 where r: "r = Result (ret, coder2, d2, s2)" "p + m \<le> p2" "dc_pos d2 = dc_pos d' + (p2 - (p + m))"
    "dc_limit d2 = dc_limit d'" "dc_size d2 = dc_size d'"
    "ret = LZMA_STREAM_END \<and> p2 = length data \<and> dec_end st data coder2 d2 s2
        \<or> ret = LZMA_OK \<and> dc_pos d2 = dc_limit d2 \<and> (\<exists>choices n. dec_at st options data choices p2 n coder2 d2 s2)"
    using assms(1) unfolding dec_result_def by blast
  have "p \<le> p2" "dc_pos d2 = dc_pos d + (p2 - p)" using r(2,3) assms(2) by simp_all
  then show ?thesis using r assms(3,4) unfolding dec_result_def by (intro exI [of _ ret] exI [of _ coder2] exI [of _ d2] exI [of _ s2] exI [of _ p2]) simp
qed

text \<open>The write of the bytes of a choice, and what follows it.\<close>

lemma decode_write_loop:
  assumes at: "dec_at st options data choices p n coder d s" and n: "0 < n" and limit: "dc_pos d \<le> dc_limit d" "dc_limit d \<le> dc_size d"
    and loop: "\<And>coder' d'. dec_at st options data choices (p + n) 0 coder' d' s \<Longrightarrow> dc_pos d' = dc_pos d + n \<Longrightarrow> dc_limit d' = dc_limit d
      \<Longrightarrow> dc_size d' = dc_size d \<Longrightarrow> dc_pos d' \<le> dc_limit d' \<Longrightarrow> dec_result st options data (p + n) d' (k coder' d')"
  shows "dec_result st options data p d (let (full, coder, d) = decode_write coder d in if full then Result (LZMA_OK, coder, d, s) else k coder d)"
proof -
  obtain state reps ahead iv where a: "dec_fields options state reps coder" "state < STATES" "dict_ok d (take p data)" "16 dvd dc_size d" "\<not> dc_need_reset d"
    "pending_write (dc_size d) data p coder n" "p + n \<le> length data" "choices_ok (dc_size d) data (p + n) ahead reps choices"
    "rep0_ok (dc_size d) (p + n) state reps" "in_step st iv s" "iv_ok iv"
    "st_last st = iv_normalize (fold iv_step (choices_syms options data (p + n) state reps choices) iv)"
    using at unfolding dec_at_def by blast
  define m where "m = min n (dc_limit d - dc_pos d)"
  obtain coder' d' where w: "decode_write coder d = (n - m \<noteq> 0, coder', d')" "dict_ok d' (take (p + m) data)"
    "pending_write (dc_size d) data (p + m) coder' (n - m)" "dc_pos d' = dc_pos d + m" "dc_limit d' = dc_limit d" "dc_size d' = dc_size d"
    "dc_need_reset d' = dc_need_reset d" "dec_fields options state reps coder'"
    using decode_write_ok [OF a(3,6,7) limit m_def, of options state reps] a(1) by blast
  have sum: "p + m + (n - m) = p + n" by (simp add: m_def)
  have at': "dec_at st options data choices (p + m) (n - m) coder' d' s"
    unfolding dec_at_def sum w(6) using a w(2,3,7,8) by (intro exI [of _ state] exI [of _ reps] exI [of _ ahead] exI [of _ iv]) simp
  show ?thesis
  proof (cases "n - m = 0")
    case True
    then have m: "m = n" by (simp add: m_def)
    have "dec_result st options data (p + n) d' (k coder' d')"
      by (rule loop) (use at' w(4-6) limit(1) m_def m in simp_all)
    then have "dec_result st options data p d (k coder' d')" by (rule dec_result_later) (use w(4-6) m in simp_all)
    then show ?thesis by (simp add: w(1) True)
  next
    case False
    then have "dc_pos d' = dc_limit d'" using w(4,5) limit(1) by (simp add: m_def min_def split: if_splits)
    moreover have "(let (full, coder, d) = decode_write coder d in if full then Result (LZMA_OK, coder, d, s) else k coder d)
        = Result (LZMA_OK, coder', d', s)" using False by (simp add: w(1))
    moreover have "p \<le> p + m" "dc_pos d' = dc_pos d + (p + m - p)" using w(4) by simp_all
    ultimately show ?thesis using at' w(5,6) unfolding dec_result_def by blast
  qed
qed

lemma decode_loop_ok:
  assumes st: "stream_ok st" "st_ptrs st = lzma_ptrs options" and options: "is_lclppb_valid options" and data: "length data < 2 ^ 32"
  shows "dec_at st options data choices p n coder d s \<Longrightarrow> dc_pos d \<le> dc_limit d \<Longrightarrow> dc_limit d \<le> dc_size d \<Longrightarrow> dc_limit d - dc_pos d < fuel
    \<Longrightarrow> dec_result st options data p d (lzma_decode_loop fuel (st_in st) (st_size st) seq coder d s)"
proof (induction fuel arbitrary: choices p n coder d s)
  case (Suc fuel)
  obtain state reps ahead iv where a: "dec_fields options state reps coder" "state < STATES" "dict_ok d (take p data)" "16 dvd dc_size d" "\<not> dc_need_reset d"
    "pending_write (dc_size d) data p coder n" "p + n \<le> length data" "choices_ok (dc_size d) data (p + n) ahead reps choices"
    "rep0_ok (dc_size d) (p + n) state reps" "in_step st iv s" "iv_ok iv"
    "st_last st = iv_normalize (fold iv_step (choices_syms options data (p + n) state reps choices) iv)"
    using Suc.prems(1) unfolding dec_at_def by blast
  have unknown: "ld_uncompressed_size coder = LZMA_VLI_UNKNOWN" using a(1) by (simp add: dec_fields_def)
  have written: "dec_result st options data p d (let (full, coder, d) = decode_write coder1 d
      in if full then Result (LZMA_OK, coder, d, s1) else lzma_decode_loop fuel (st_in st) (st_size st) seq coder d s1)"
    if "dec_at st options data choices1 p n1 coder1 d s1" and "0 < n1" for choices1 n1 coder1 s1
  proof (rule decode_write_loop [OF that Suc.prems(2,3)])
    fix coder' d'
    assume "dec_at st options data choices1 (p + n1) 0 coder' d' s1" and "dc_pos d' = dc_pos d + n1" and "dc_limit d' = dc_limit d"
      and "dc_size d' = dc_size d" and "dc_pos d' \<le> dc_limit d'"
    then show "dec_result st options data (p + n1) d' (lzma_decode_loop fuel (st_in st) (st_size st) seq coder' d' s1)"
      using Suc.prems(3,4) that(2) by (intro Suc.IH) simp_all
  qed
  show ?case
  proof (cases "n = 0")
    case False
    then have "ld_sequence coder \<notin> {SEQ_NORMALIZE, SEQ_IS_MATCH}" using pending_none [OF a(6)] by simp
    then have "lzma_decode_loop (Suc fuel) (st_in st) (st_size st) seq coder d s = (let (full, coder, d) = decode_write coder d
      in if full then Result (LZMA_OK, coder, d, s) else lzma_decode_loop fuel (st_in st) (st_size st) seq coder d s)"
      by (simp only: lzma_decode_loop.simps if_False)
    then show ?thesis using written [OF Suc.prems(1)] False by simp
  next
    case True
    then have seq: "ld_sequence coder \<in> {SEQ_NORMALIZE, SEQ_IS_MATCH}" using pending_none [OF a(6)] by simp
    note e = lzma_decode_loop.simps(2) [of fuel "st_in st" "st_size st" seq coder d s, unfolded if_P [OF seq] unknown simp_thms if_False]
    show ?thesis
    proof (cases choices)
      case Nil
      have p: "p = length data" using a(8) Nil True by simp
      have last: "st_last st = iv_normalize (fold iv_step (eopm_syms options p state) iv)" using a(12) Nil True by simp
      have ptrs: "sym_ptrs (eopm_syms options p state) \<subseteq> st_ptrs st" unfolding st(2) by (rule eopm_syms_in_ptrs [OF a(2)])
      have ps: "unat (word_of_nat (dc_pos d) AND ld_pos_mask coder) = pos_state_of options p"
        using pos_state_agrees [OF options a(3,4)] a(1) p by (simp add: dec_fields_def)
      obtain coder' mem rc where r: "decode_symbol (st_in st) (st_size st) d coder s
          = Some ((Some LZMA_STREAM_END, coder'), mem, rc, st_off st + length (st_bytes st))" "rc_is_finished rc"
        "ld_uncompressed_size coder' = LZMA_VLI_UNKNOWN"
        using decode_eopm [OF st(1) last ptrs a(11,10,1) ps] by blast
      have "dec_end st data (coder'\<lparr>ld_sequence := seq\<rparr>) d (mem, rc, st_off st + length (st_bytes st))"
        using a(3,5) r(2,3) p by (simp add: dec_end_def)
      then show ?thesis unfolding e r(1) using p by (auto simp: dec_result_def)
    next
      case (Cons choice rest)
      obtain ahead1 "back" len where c: "choice = (ahead1, back, len)" by (cases choice)
      have ok: "choice_ok (dc_size d) data p reps back len" "unat len \<le> ahead + unat ahead1" "p + (ahead + unat ahead1) \<le> length data"
        "choices_ok (dc_size d) data (p + unat len) (ahead + unat ahead1 - unat len) (next_reps reps back) rest"
        using a(8) Cons True by (simp_all add: c)
      note l1 = choice_len [OF ok(1)]
      have pl: "p < length data" "p + unat len \<le> length data" using ok(2,3) l1 by simp_all
      have p32: "p < 2 ^ 32" using pl(1) data by simp
      have rep0: "rep0_ok (dc_size d) p state reps" using a(9) True by simp
      let ?syms = "symbol_syms options data p state reps back len"
      let ?rest = "choices_syms options data (p + unat len) (state_after state back len) (next_reps reps back) rest"
      have last: "st_last st = iv_normalize (fold iv_step ?rest (fold iv_step ?syms iv))" using a(12) Cons True by (simp add: c)
      have ok1: "iv_ok (fold iv_step ?syms iv)" using iv_run_ok [OF a(11)] by blast
      have ins: "iv_inside (fold iv_step ?syms iv) (st_last st)"
        unfolding last using iv_run_ok [OF ok1, of ?rest] iv_inside_trans [OF _ iv_inside_normalize] by blast
      have "back = - 1 \<or> back < 4 \<or> 2 \<le> len" using ok(1) by (auto simp: choice_ok_def Let_def split: if_splits)
      then have ptrs: "sym_ptrs ?syms \<subseteq> st_ptrs st" unfolding st(2) by (rule symbol_syms_in_ptrs [OF options p32 a(2)])
      obtain coder1 where d1: "decodes st (decode_symbol (st_in st) (st_size st) d coder) ?syms (None, coder1)"
        "dec_fields options (state_after state back len) (next_reps reps back) coder1" "pending_write (dc_size d) data p coder1 (unat len)"
        using decodes_choice [OF st(1) options a(3,4) pl(1) a(1,2) ok(1) rep0] by blast
      obtain s1 where s1: "decode_symbol (st_in st) (st_size st) d coder s = Some ((None, coder1), s1)" "in_step st (fold iv_step ?syms iv) s1"
        using decodesD [OF d1(1) ptrs a(11) ins a(10)] by blast
      have "dec_at st options data rest p (unat len) coder1 d s1"
        unfolding dec_at_def
        using d1(2,3) state_after_less [OF a(2)] a(3-5) pl(2) ok(4) rep0_ok_after [OF ok(1) a(2)] s1(2) ok1 last by blast
      from written [OF this] show ?thesis unfolding e s1(1) using l1 by simp
    qed
  qed
qed simp

subsection \<open>The calls of the decoder\<close>

lemma dec_rc_cong:
  "dec_fields options state reps (coder\<lparr>ld_probs := probs\<rparr>) = dec_fields options state reps coder"
  "dec_fields options state reps (coder\<lparr>ld_rc := rc\<rparr>) = dec_fields options state reps coder"
  "pending_write dict data p (coder\<lparr>ld_probs := probs\<rparr>) n = pending_write dict data p coder n"
  "pending_write dict data p (coder\<lparr>ld_rc := rc\<rparr>) n = pending_write dict data p coder n"
  by (simp_all add: dec_fields_def pending_write_def split: decoder_sequence.split)

lemma dec_at_rc: "dec_at st options data choices p n (coder\<lparr>ld_probs := probs, ld_rc := rc\<rparr>) d s = dec_at st options data choices p n coder d s"
  "dec_at st options data choices p n (coder\<lparr>ld_rc := rc\<rparr>) d s = dec_at st options data choices p n coder d s"
  unfolding dec_at_def dec_rc_cong by (rule refl)+

lemma dict_ok_limit: "dict_ok (d\<lparr>dc_limit := limit\<rparr>) h = dict_ok d h"
  by (simp add: dict_ok_def dict_get_def)

lemma dict_ok_wrap:
  assumes "dict_ok d h" and "dc_pos d = dc_size d"
  shows "dict_ok (d\<lparr>dc_pos := 0\<rparr>) h"
proof -
  have "\<not> length h < dc_size d" using assms by (auto simp: dict_ok_def)
  moreover have "dict_get (d\<lparr>dc_pos := 0\<rparr>) k = dict_get d k" if "k < dc_size d" for k
    using that assms(2) by (simp add: dict_get_def)
  ultimately show ?thesis using assms by (simp add: dict_ok_def)
qed

lemma dec_at_dict:
  "dict_ok d' (take p data) \<Longrightarrow> dc_size d' = dc_size d \<Longrightarrow> dc_need_reset d' = dc_need_reset d \<Longrightarrow> dec_at st options data choices p n coder d s
   \<Longrightarrow> dec_at st options data choices p n coder d' s"
  by (simp add: dec_at_def) blast

text \<open>What a call of \<open>lzma_decode\<close> starts with: the range decoder has been initialised, or the call does it.\<close>

definition dec_ready ::
  "prob_array stream \<Rightarrow> lzma_options_lzma \<Rightarrow> byte list \<Rightarrow> nat \<Rightarrow> lzma_decoder \<Rightarrow> lzma_dict \<Rightarrow> nat \<Rightarrow> bool" where
  "dec_ready st options data p coder d in_pos \<longleftrightarrow> (\<exists>choices n rc in_pos'. rc_read_init (st_in st) (st_size st) (ld_rc coder) in_pos = (LZMA_STREAM_END, rc, in_pos')
     \<and> dec_at st options data choices p n coder d (ld_probs coder, rc, in_pos'))"

lemma lzma_decode_ok:
  assumes st: "stream_ok st" "st_ptrs st = lzma_ptrs options" and options: "is_lclppb_valid options" and data: "length data < 2 ^ 32"
    and ready: "dec_ready st options data p coder d in_pos" and limit: "dc_pos d \<le> dc_limit d" "dc_limit d \<le> dc_size d"
  shows "\<exists>ret coder' d' in_pos' p'. lzma_decode (st_in st) (st_size st) coder d in_pos = Result (ret, coder', d', in_pos') \<and> p \<le> p'
    \<and> dc_pos d' = dc_pos d + (p' - p) \<and> dc_size d' = dc_size d \<and> dict_ok d' (take p' data) \<and> \<not> dc_need_reset d' \<and> p' \<le> length data
    \<and> (ret = LZMA_STREAM_END \<and> p' = length data \<and> in_pos' = st_off st + length (st_bytes st)
       \<or> ret = LZMA_OK \<and> dc_pos d' = dc_limit d \<and> dec_ready st options data p' coder' d' in_pos')"
proof -
  obtain choices n rc in_pos1 where r: "rc_read_init (st_in st) (st_size st) (ld_rc coder) in_pos = (LZMA_STREAM_END, rc, in_pos1)"
    "dec_at st options data choices p n coder d (ld_probs coder, rc, in_pos1)"
    using ready unfolding dec_ready_def by blast
  have unknown: "ld_uncompressed_size coder = LZMA_VLI_UNKNOWN" using r(2) by (auto simp: dec_at_def dec_fields_def)
  let ?coder = "coder\<lparr>ld_rc := rc\<rparr>"
  have "dec_result st options data p d
      (lzma_decode_loop (dc_limit d - dc_pos d + 1) (st_in st) (st_size st) (ld_sequence coder) ?coder d (ld_probs coder, rc, in_pos1))"
    by (rule decode_loop_ok [OF st options data]) (use r(2) limit in \<open>simp_all add: dec_at_rc\<close>)
  then obtain ret coder1 d1 probs1 rc1 in_pos' p' where l:
    "lzma_decode_loop (dc_limit d - dc_pos d + 1) (st_in st) (st_size st) (ld_sequence coder) ?coder d (ld_probs coder, rc, in_pos1)
       = Result (ret, coder1, d1, probs1, rc1, in_pos')" "p \<le> p'" "dc_pos d1 = dc_pos d + (p' - p)" "dc_limit d1 = dc_limit d" "dc_size d1 = dc_size d"
    "ret = LZMA_STREAM_END \<and> p' = length data \<and> dec_end st data coder1 d1 (probs1, rc1, in_pos')
       \<or> ret = LZMA_OK \<and> dc_pos d1 = dc_limit d1 \<and> (\<exists>choices n. dec_at st options data choices p' n coder1 d1 (probs1, rc1, in_pos'))"
    unfolding dec_result_def by (metis prod_cases3)
  have e: "lzma_decode (st_in st) (st_size st) coder d in_pos = Result (lzma_decode_out (dc_pos d) (dc_limit d) (ret, coder1, d1, probs1, rc1, in_pos'))"
    using l(1) by (simp add: lzma_decode_def r(1) unknown Let_def)
  have d1: "d1\<lparr>dc_limit := dc_limit d\<rparr> = d1" using l(4) by (cases d1) simp
  show ?thesis
  proof (cases "ret = LZMA_STREAM_END")
    case True
    then have x: "p' = length data" "dec_end st data coder1 d1 (probs1, rc1, in_pos')" using l(6) by auto
    have "lzma_decode_out (dc_pos d) (dc_limit d) (ret, coder1, d1, probs1, rc1, in_pos')
        = (LZMA_STREAM_END, coder1\<lparr>ld_probs := probs1, ld_rc := rd_reset rc1\<rparr>, d1, in_pos')"
      using True x(2) by (simp add: lzma_decode_out_def d1 dec_end_def Let_def)
    then show ?thesis using e l(2,3,5) x by (auto simp: dec_end_def)
  next
    case False
    then obtain choices' n' where x: "ret = LZMA_OK" "dc_pos d1 = dc_limit d1" "dec_at st options data choices' p' n' coder1 d1 (probs1, rc1, in_pos')"
      using l(6) by auto
    let ?coder1 = "coder1\<lparr>ld_probs := probs1, ld_rc := rc1\<rparr>"
    have y: "ld_uncompressed_size coder1 = LZMA_VLI_UNKNOWN" "dict_ok d1 (take p' data)" "\<not> dc_need_reset d1" "p' \<le> length data" "rd_init_bytes_left rc1 = 0"
      using x(3) by (auto simp: dec_at_def dec_fields_def in_step_def)
    have "lzma_decode_out (dc_pos d) (dc_limit d) (ret, coder1, d1, probs1, rc1, in_pos') = (LZMA_OK, ?coder1, d1, in_pos')"
      using y(1) x(1) by (simp add: lzma_decode_out_def d1 Let_def)
    moreover have "rc_read_init (st_in st) (st_size st) (ld_rc ?coder1) in_pos' = (LZMA_STREAM_END, rc1, in_pos')"
      using y(5) by (subst rc_read_init.simps) simp
    then have "dec_ready st options data p' ?coder1 d1 in_pos'" unfolding dec_ready_def using x(3) dec_at_rc(1) by fastforce
    ultimately show ?thesis using e l(2-5) x(2) y(2-4) by auto
  qed
qed

text \<open>The new bytes in the dictionary.\<close>

lemma dict_slice:
  assumes "dict_ok d h" and "k \<le> dc_pos d" and "k \<le> length h" and "k \<le> dc_size d"
  shows "slice (dc_pos d - k) (dc_pos d) (dc_buf d) = drop (length h - k) h"
proof (rule nth_equalityI)
  have l: "dc_pos d \<le> length (dc_buf d)" using assms(1) by (simp add: dict_ok_def)
  show "length (slice (dc_pos d - k) (dc_pos d) (dc_buf d)) = length (drop (length h - k) h)" using assms(2,3) l by (simp add: slice_def)
  fix i assume "i < length (slice (dc_pos d - k) (dc_pos d) (dc_buf d))"
  then have i: "i < k" using assms(2) l by (simp add: slice_def)
  have "k - 1 - i < length h" "k - 1 - i < dc_size d" using i assms(3,4) by simp_all
  then have "dict_get d (k - 1 - i) = h ! (length h - 1 - (k - 1 - i))" by (rule dict_get_ok [OF assms(1)])
  moreover have "dict_get d (k - 1 - i) = dc_buf d ! (dc_pos d - k + i)" using i assms(2) by (simp add: dict_get_def)
  moreover have "length h - 1 - (k - 1 - i) = length h - k + i" using i assms(3) by simp
  ultimately show "slice (dc_pos d - k) (dc_pos d) (dc_buf d) ! i = drop (length h - k) h ! i"
    using i assms(2,3) l by (simp add: slice_def)
qed

lemma decode_buffer_loop_ok:
  assumes st: "stream_ok st" "st_ptrs st = lzma_ptrs options" and options: "is_lclppb_valid options" and data: "length data < 2 ^ 32" "length data < out_size"
  shows "dec_ready st options data p coder d in_pos \<Longrightarrow> dict_ok d (take p data) \<Longrightarrow> p \<le> length data \<Longrightarrow> length data - p < fuel \<Longrightarrow>
    \<exists>coder' d'. lz_decode_buffer_loop fuel (lzma_decode (st_in st) (st_size st)) out_size coder d in_pos (take p data)
      = Result (LZMA_STREAM_END, coder', d', st_off st + length (st_bytes st), data)"
proof (induction fuel arbitrary: p coder d in_pos)
  case (Suc fuel)
  define d1 where "d1 = (if dc_pos d = dc_size d then d\<lparr>dc_pos := 0\<rparr> else d)"
  define d2 where "d2 = d1\<lparr>dc_limit := dc_pos d1 + min (out_size - length (take p data)) (dc_size d1 - dc_pos d1)\<rparr>"
  have size: "0 < dc_size d" "dc_pos d \<le> dc_size d" using Suc.prems(2) by (simp_all add: dict_ok_def)
  have ok1: "dict_ok d1 (take p data)" "dc_pos d1 < dc_size d1" "dc_size d1 = dc_size d" "dc_need_reset d1 = dc_need_reset d"
    using Suc.prems(2) dict_ok_wrap [OF Suc.prems(2)] size by (auto simp: d1_def)
  have ok2: "dict_ok d2 (take p data)" "dc_size d2 = dc_size d" "dc_need_reset d2 = dc_need_reset d" "dc_pos d2 = dc_pos d1"
    using ok1 by (simp_all add: d2_def dict_ok_limit)
  have limit: "dc_limit d2 = dc_pos d2 + min (out_size - p) (dc_size d2 - dc_pos d2)" using Suc.prems(3) by (simp add: d2_def)
  have room: "dc_pos d2 < dc_size d2" "0 < out_size - p" using ok1 ok2 data(2) Suc.prems(3) by simp_all
  then have lim: "dc_pos d2 < dc_limit d2" "dc_limit d2 \<le> dc_size d2" unfolding limit by linarith+
  have ready: "dec_ready st options data p coder d2 in_pos"
    using Suc.prems(1) dec_at_dict [OF ok2(1-3)] unfolding dec_ready_def by blast
  obtain ret coder' d' in_pos' p' where r: "lzma_decode (st_in st) (st_size st) coder d2 in_pos = Result (ret, coder', d', in_pos')" "p \<le> p'"
    "dc_pos d' = dc_pos d2 + (p' - p)" "dc_size d' = dc_size d2" "dict_ok d' (take p' data)" "\<not> dc_need_reset d'" "p' \<le> length data"
    "ret = LZMA_STREAM_END \<and> p' = length data \<and> in_pos' = st_off st + length (st_bytes st)
       \<or> ret = LZMA_OK \<and> dc_pos d' = dc_limit d2 \<and> dec_ready st options data p' coder' d' in_pos'"
    using lzma_decode_ok [OF st options data(1) ready less_imp_le [OF lim(1)] lim(2)] by blast
  have "dc_pos d' \<le> dc_size d'" using r(5) by (simp add: dict_ok_def)
  then have "slice (dc_pos d' - (p' - p)) (dc_pos d') (dc_buf d') = drop (length (take p' data) - (p' - p)) (take p' data)"
    using r(3,7) by (intro dict_slice [OF r(5)]) simp_all
  moreover have "dc_pos d' - (p' - p) = dc_pos d2" "length (take p' data) - (p' - p) = p" using r(2,3,7) by simp_all
  ultimately have "slice (dc_pos d2) (dc_pos d') (dc_buf d') = drop p (take p' data)" by simp
  then have out: "take p data @ slice (dc_pos d2) (dc_pos d') (dc_buf d') = take p' data"
    using r(2) by (metis append_take_drop_id min.absorb1 take_take)
  have step: "lz_decode_buffer_loop (Suc fuel) (lzma_decode (st_in st) (st_size st)) out_size coder d in_pos (take p data)
      = (if ret \<noteq> LZMA_OK \<or> length (take p' data) = out_size \<or> dc_pos d' < dc_size d' then Result (ret, coder', d', in_pos', take p' data)
         else lz_decode_buffer_loop fuel (lzma_decode (st_in st) (st_size st)) out_size coder' d' in_pos' (take p' data))"
    unfolding lz_decode_buffer_loop.simps Let_def d1_def [symmetric] d2_def [symmetric]
    using r(1,6) out ok2(4) by simp
  show ?case
  proof (cases "ret = LZMA_STREAM_END")
    case True
    then show ?thesis using step r(8) by auto
  next
    case False
    then have x: "ret = LZMA_OK" "dc_pos d' = dc_limit d2" "dec_ready st options data p' coder' d' in_pos'" using r(8) by auto
    have p': "length (take p' data) = p'" "p' \<noteq> out_size" using r(7) data(2) by simp_all
    have more: "p < p'" using x(2) r(3) lim(1) by simp
    have "p' - p < out_size - p" using r(7) data(2) more by simp
    then have "dc_pos d' = dc_size d'" using x(2) r(3,4) limit lim(2) by linarith
    then have "lz_decode_buffer_loop (Suc fuel) (lzma_decode (st_in st) (st_size st)) out_size coder d in_pos (take p data)
        = lz_decode_buffer_loop fuel (lzma_decode (st_in st) (st_size st)) out_size coder' d' in_pos' (take p' data)"
      unfolding step using x(1) p' by simp
    then show ?thesis using Suc.IH [OF x(3) r(5,7)] Suc.prems(4) more r(7) by simp
  qed
qed simp

subsection \<open>The round trip\<close>

lemma and_not_mask_shift: "(x :: u64) AND NOT (mask n) = push_bit n (drop_bit n x)"
  by (rule bit_word_eqI) (auto simp: bit_and_iff bit_not_iff bit_mask_iff bit_push_bit_iff bit_drop_bit_eq)

lemma lz_dict_size_ok:
  assumes "lz_dict_size wanted = Some n"
  shows "16 dvd unat n" and "0 < unat n"
proof -
  define w where "w = (if wanted < 4096 then 4096 else wanted)"
  have s: "n = (w + 15) AND NOT 15" "\<not> w > - 1 - 15" using assms by (auto simp: lz_dict_size_def w_def Let_def split: if_splits)
  have low: "4096 \<le> unat w" unfolding w_def by (auto simp: word_le_nat_alt not_less)
  have top: "unat (- 1 - 15 :: u64) = 2 ^ 64 - 16" by simp
  have high: "unat w \<le> 2 ^ 64 - 16" using s(2) unfolding not_less word_le_nat_alt top .
  have sum: "unat (w + 15) = unat w + 15" using high by (subst unat_add_small) simp_all
  have "(15 :: u64) = mask 4" by (simp add: mask_eq_exp_minus_1)
  then have "n = push_bit 4 (drop_bit 4 (w + 15))" unfolding s(1) by (simp only: and_not_mask_shift)
  then have "unat n = (unat w + 15) div 16 * 16"
    using unat_push_bit_mult [of "drop_bit 4 (w + 15)" 4] high by (simp add: unat_drop_bit_div sum)
  then show "16 dvd unat n" "0 < unat n" using low by simp_all
qed

lemma dict_init_ok:
  assumes "fresh \<noteq> []"
  shows "dict_ok (lz_dict_init fresh []) []" and "dc_size (lz_dict_init fresh []) = length fresh" and "\<not> dc_need_reset (lz_dict_init fresh [])"
  using assms by (simp_all add: lz_dict_init_def lz_decoder_reset_def dict_ok_def Let_def)

lemma decoder_initialised:
  assumes "is_lclppb_valid options" and "lzma_decoder_init options decoder = (ret, decoder')"
  shows "ret = LZMA_OK" and "dec_fields options 0 [0, 0, 0, 0] decoder'" and "ld_sequence decoder' = SEQ_IS_MATCH"
    and "ld_probs decoder' = probs_reset options (ld_probs decoder)" and "ld_rc decoder' = rd_reset (ld_rc decoder)"
  using assms by (auto simp: lzma_decoder_init_def lzma_decoder_reset_def lzma_decoder_uncompressed_def dec_fields_def probs_reset_def Let_def)

text \<open>A decoder that was just set up, in front of a stream, is ready for it.\<close>

lemma decoder_starts:
  assumes i: "lzma_decoder_init options decoder0 = (LZMA_OK, decoder)" and options: "is_lclppb_valid options"
    and dict: "dict_ok d []" "16 dvd dc_size d" "\<not> dc_need_reset d" and choices: "choices_ok (dc_size d) data 0 0 [0, 0, 0, 0] choices"
    and st: "stream_ok st" "st_ptrs st = lzma_ptrs options" "st_off st = 0" "iv_inside iv0 (st_last st)"
      "st_last st = iv_normalize (fold iv_step (choices_syms options data 0 0 [0, 0, 0, 0] choices) iv0)"
  shows "dec_ready st options data 0 decoder d 0"
proof -
  note d = decoder_initialised [OF options i]
  have mem: "\<forall>a\<in>st_ptrs st. ld_probs decoder a = bit_reset" unfolding st(2) d(4) using probs_reset_ok [OF options] by blast
  obtain rc where rc: "rc_read_init (st_in st) (st_size st) (ld_rc decoder) 0 = (LZMA_STREAM_END, rc, 5)" "in_step st iv0 (ld_probs decoder, rc, 5)"
    using read_init_ok [OF st(1,4) [unfolded iv0_def] mem] unfolding d(5) iv0_def st(3) by auto
  have "dec_at st options data choices 0 0 decoder d (ld_probs decoder, rc, 5)"
    unfolding dec_at_def
  proof (intro exI conjI)
    show "dec_fields options 0 [0, 0, 0, 0] decoder" by (rule d(2))
    show "dict_ok d (take 0 data)" using dict(1) by simp
    show "16 dvd dc_size d" "\<not> dc_need_reset d" by (rule dict)+
    show "pending_write (dc_size d) data 0 decoder 0" by (simp add: pending_write_def d(3))
    show "choices_ok (dc_size d) data (0 + 0) 0 [0, 0, 0, 0] choices" using choices by simp
    show "in_step st iv0 (ld_probs decoder, rc, 5)" by (rule rc(2))
    show "iv_ok iv0" by (rule iv0_ok)
    show "st_last st = iv_normalize (fold iv_step (choices_syms options data (0 + 0) 0 [0, 0, 0, 0] choices) iv0)" using st(5) by simp
  qed (simp_all add: rep0_ok_def is_literal_state_def)
  then show ?thesis using rc(1) unfolding dec_ready_def by blast
qed

text \<open>C3. For all options the encoder accepts, without a preset dictionary, all data, all choices that describe the data and enough room,
  \<open>lzma_encode\<close> ends with a stream from which the LZ decoder with the LZMA decoder gives back the data, stops behind its last
  byte and returns \<open>LZMA_STREAM_END\<close>, whatever the memory that it has allocated held and whatever follows the stream.\<close>

theorem lzma_roundtrip:
  assumes create: "lzma_lzma_encoder_create options encoder0 = (LZMA_OK, encoder)" "preset_dict_size options = 0"
      "length (rc_symbols (le_rc encoder0)) = RC_SYMBOLS_MAX" "length (rc_probs (le_rc encoder0)) = RC_SYMBOLS_MAX"
    and dict: "lz_dict_size (ucast (dict_size options)) = Some n" "length fresh = unat n"
    and choices: "choices_ok (unat n) data 0 0 [0, 0, 0, 0] (first_choice data @ choices)"
    and room: "length data < 2 ^ 32" "48 * length (first_choice data @ choices) + 100 \<le> out_size" "out_size + 1 < 2 ^ 64" "length data < dec_size"
  shows "\<exists>encoder' mf out decoder decoder' d. lzma_encode out_size choices encoder (whole_input data) [] = Some (LZMA_STREAM_END, encoder', mf, out)
    \<and> lzma_decoder_init options decoder0 = (LZMA_OK, decoder)
    \<and> lz_decode_buffer (lzma_decode (out @ rest) (length (out @ rest))) dec_size decoder (lz_dict_init fresh []) 0 []
      = Result (LZMA_STREAM_END, decoder', d, length out, data)"
proof -
  note options = encoder_created(1) [OF create]
  define syms where "syms = choices_syms options data 0 0 [0, 0, 0, 0] (first_choice data @ choices)"
  define iv where "iv = fold iv_step syms iv0"
  obtain encoder' mf out where e: "lzma_encode out_size choices encoder (whole_input data) [] = Some (LZMA_STREAM_END, encoder', mf, out)"
    "digits out = iv_value (iv_normalize iv)" "length out = iv_digits (iv_normalize iv) + 4"
    using lzma_encode_ok [OF create choices room(1-3)] unfolding iv_def syms_def by blast
  note run = iv_run_ok [OF iv0_ok, of syms, folded iv_def]
  define st where "st = \<lparr>st_in = [] @ out @ rest, st_size = length ([] @ out @ rest), st_off = length ([] :: byte list),
    st_last = iv_normalize iv, st_ptrs = lzma_ptrs options\<rparr>"
  note fin = finished_stream [OF e(2,3) conjunct1 [OF run] st_def]
  have fields: "st_in st = out @ rest" "st_size st = length (out @ rest)" "st_off st = 0" "st_last st = iv_normalize iv" "st_ptrs st = lzma_ptrs options"
    by (simp_all add: st_def)
  have bytes: "st_bytes st = out" using e(3) by (simp add: st_bytes_def fields)
  obtain ret decoder where i: "lzma_decoder_init options decoder0 = (ret, decoder)" by fastforce
  note d = decoder_initialised [OF options i]
  define dict where "dict = lz_dict_init fresh []"
  note sz = lz_dict_size_ok [OF dict(1)]
  have "fresh \<noteq> []" using sz(2) dict(2) by auto
  note dict0 = dict_init_ok [OF this, folded dict_def]
  have inside: "iv_inside iv0 (st_last st)" using iv_inside_trans [OF conjunct2 [OF run] fin(2)] .
  have ready: "dec_ready st options data 0 decoder dict 0"
    by (rule decoder_starts [OF i [unfolded d(1)] options dict0(1) _ dict0(3) _ fin(1) fields(5,3) inside])
      (use sz(1) dict(2) dict0(2) choices in \<open>simp_all add: fields(4) iv_def syms_def\<close>)
  have fuel: "length data - 0 < dec_size - length ([] :: byte list) + 1" using room(4) by simp
  have start: "dict_ok dict (take 0 data)" using dict0(1) by simp
  obtain decoder' d' where "lz_decode_buffer_loop (dec_size - length ([] :: byte list) + 1) (lzma_decode (st_in st) (st_size st)) dec_size decoder dict 0 (take 0 data)
      = Result (LZMA_STREAM_END, decoder', d', st_off st + length (st_bytes st), data)"
    using decode_buffer_loop_ok [OF fin(1) fields(5) options room(1,4) ready start _ fuel] by auto
  then have "lz_decode_buffer (lzma_decode (out @ rest) (length (out @ rest))) dec_size decoder dict 0 []
      = Result (LZMA_STREAM_END, decoder', d', length out, data)"
    by (simp add: lz_decode_buffer_def bytes fields(1-3))
  then show ?thesis using e(1) i d(1) unfolding dict_def by blast
qed

definition example_lzma_options :: lzma_options_lzma where
  "example_lzma_options = \<lparr>dict_size = 4096, preset_dict_size = 0, lc = 3, lp = 0, pb = 2, lzma_mode = 1, nice_len = 273, lzma_mf = 3, lzma_depth = 0\<rparr>"

definition example_len_prices :: len_prices where
  "example_len_prices = \<lparr>lp_prices = (\<lambda>i j. 0), lp_table_size = 0, lp_counters = (\<lambda>i. 0)\<rparr>"

definition example_encoder :: lzma_encoder where
  "example_encoder = \<lparr>le_rc = \<lparr>rc_low = 7, rc_cache_size = 7, rc_range = 7, rc_cache = 7, rc_count = 7, rc_pos = 7, rc_symbols = replicate 58 RC_FLUSH,
     rc_probs = replicate 58 (P_is_rep, 0)\<rparr>, le_state = 7, le_reps = [], le_fast_mode = False, le_is_initialized = True, le_is_flushed = True,
     le_pos_mask = 7, le_literal_context_bits = 7, le_literal_pos_mask = 7, le_probs = (\<lambda>prob. 7), le_match_len_prices = example_len_prices,
     le_rep_len_prices = example_len_prices, le_dist_table_size = 7, le_match_price_count = 7, le_align_price_count = 7\<rparr>"

definition example_decoder :: lzma_decoder where
  "example_decoder = \<lparr>ld_probs = (\<lambda>prob. 9), ld_rc = example_rd, ld_state = 9, ld_rep0 = 9, ld_rep1 = 9, ld_rep2 = 9, ld_rep3 = 9, ld_pos_mask = 9,
     ld_literal_context_bits = 9, ld_literal_pos_mask = 9, ld_uncompressed_size = 9, ld_sequence = SEQ_COPY, ld_symbol = 9, ld_len = 9\<rparr>"

lemma example_encoder_created:
  "lzma_lzma_encoder_create example_lzma_options example_encoder
    = (LZMA_OK, snd (lzma_lzma_encoder_create example_lzma_options example_encoder))"
  by (simp add: lzma_lzma_encoder_create_def lzma_lzma_encoder_reset_def is_options_valid_def is_lclppb_valid_def example_lzma_options_def Let_def)

text \<open>Two literals and a match that overlaps itself.\<close>

theorem lzma_roundtrip_witness:
  "\<exists>encoder' mf out decoder decoder' d.
     lzma_encode 1000 [(1, - 1, 1), (4, 5, 4)] (snd (lzma_lzma_encoder_create example_lzma_options example_encoder)) (whole_input [97, 98, 97, 98, 97, 98]) []
       = Some (LZMA_STREAM_END, encoder', mf, out)
   \<and> lzma_decoder_init example_lzma_options example_decoder = (LZMA_OK, decoder)
   \<and> lz_decode_buffer (lzma_decode (out @ [1, 2, 3]) (length (out @ [1, 2, 3]))) 7 decoder (lz_dict_init (replicate 4096 255) []) 0 []
     = Result (LZMA_STREAM_END, decoder', d, length out, [97, 98, 97, 98, 97, 98])"
proof (rule lzma_roundtrip [OF example_encoder_created])
  show "preset_dict_size example_lzma_options = 0" by (simp add: example_lzma_options_def)
  show "length (rc_symbols (le_rc example_encoder)) = 58" "length (rc_probs (le_rc example_encoder)) = 58" by (simp_all add: example_encoder_def)
  show "lz_dict_size (ucast (dict_size example_lzma_options)) = Some 4096" by (simp add: lz_dict_size_def example_lzma_options_def)
  show "length (replicate 4096 255) = unat (4096 :: u64)" by simp
  show "choices_ok (unat (4096 :: u64)) [97, 98, 97, 98, 97, 98] 0 0 [0, 0, 0, 0] (first_choice [97, 98, 97, 98, 97, 98] @ [(1, - 1, 1), (4, 5, 4)])"
    by (simp add: first_choice_def choice_ok_def next_reps_def upt_rec)
qed (simp_all add: first_choice_def)

end
