(* ===== verification/Spec2Isabelle.thy ===== *)
theory Spec2Isabelle
  imports Lzma_Prelude Vli Byte_Order Crc Sha256 Check Stream_Flags Common Delta Bcj Bcj_Ia64 Simple_Coder Lzma_Code Fastpos Filters Lzma2_Dict Filter_Flags Block Block_Header Rolling_Checksum Circular_Buffer Searches Rsync_Types Block_Reader Rsyncable_File File_Comparer New_Table Comparer_Search Comparer_Correct Comparer_Thread Rsync_Stream Rdiff Range_Coder Range_Coder_Correct Range_Decoder_Correct Range_Coder_Roundtrip Price Lz_Decoder Lzma_Common Lzma_Encoder Lzma_Decoder Lzma_Symbols Lzma_Memory Lzma_Choice Lzma_Encode_Correct Lzma_Decode_Correct Lzma_Roundtrip
begin

text \<open>
  A verification development for the C and C++ code of a backup program: its native part, src/BackupEngineNativePart,
  which compares versions of files in the manner of rsync, and the library liblzma, src/liblzma/src/liblzma, with which
  it compresses what it stores.

  The program. A backup of a file is a list of commands that copy ranges of the old version or name ranges of the
  new one. RsyncableFile cuts the old file into blocks and keeps a sorted table of their checksums and hashes; FileComparer slides
  a window over the new file, looks it up in this table and emits the commands, while a second thread builds the table of the
  new file; Rsync.cpp puts a version together from a chain of such lists. Files are read by StreamBlockReader, which keeps one
  asynchronous read outstanding and hands blocks over in circular buffers. The .xz format in which data is stored consists of
  a Stream Header, Blocks with their headers, an index and a Stream Footer; a Block is coded by a chain of filters
  (Delta and BCJ filters before LZMA), every one a coder with the interface of common.c, driven by lzma\_code.

  Conventions. Integers of the code are words of their width, sizes of memory are natural numbers where the code cannot
  overflow them, a struct or class is a record with its members, and a function that changes an object returns it. A result
  \<open>Inl e\<close> is an error or exception. Loops that need not end have fuel, and \<open>None\<close> says that it did not suffice. Memory
  newly allocated holds the bytes of a parameter \<open>fresh\<close>. What lies outside the sources is a parameter: the operating system's read
  (\<open>os_read\<close>, with \<open>file_reads\<close> for a file that nobody changes), CryptoPP's SHA-1 (\<open>sha1\<close>), and the
  errors of opening and seeking.

  The native part.

  \<^item> Rolling\_Checksum: RollingChecksum.h and .cpp. The checksum as a fold over lists (\<open>rolling_of\<close>); sliding
    the window agrees with computing from scratch.
  \<^item> Circular\_Buffer: circular\_buffer.h and .cpp. \<open>cb_contents\<close> is the queue it implements, the locale
    \<open>byte_queue\<close> the contract of pop and push; \<open>push_buffer_wrap_around_repeats\<close> exhibits the fault of
    \<open>push_buffer\<close>, which the readers avoid because their destinations never wrap around (\<open>cb_flat\<close>).
  \<^item> Searches: binary\_search.h and find\_all of MiscFunctions.h, on partitioned ranges.
  \<^item> Rsync\_Types: MiscTypes.h. Table items with their linear order and commands with the flag in bit 63.
  \<^item> Block\_Reader: StreamBlockReader.h and .cpp, three classes as records that extend each other. \<open>br_rest\<close> and
    \<open>bb_rest\<close> are the bytes not yet delivered; the locale \<open>byte_source\<close> is what the comparer relies on.
    \<open>pieces_read\<close> says what a sequence of reads gives. The loop of \<open>next_block\<close> is given two iterations for each byte of a block and
    two more. A read that \<open>cancel\<close> cancels is taken to be over at once.
  \<^item> Rsyncable\_File: RsyncableFile.h and .cpp. The block size, the table and the bitmap; \<open>file_items\<close> is the table
    of a file as a recursion over its blocks. One iteration for each byte and one more are enough.
  \<^item> File\_Comparer: FileComparer.h and .cpp, the abstract class and its subclass as one record. Comparer\_Search: the search is
    the unordered specification \<open>matches\<close>. New\_Table: the bytes that were read are cut into
    buffers (\<open>buffers_ok\<close>, \<open>collected\<close>) and become the table of the new file. Comparer\_Correct: \<open>window\<close>
    cuts the new file into what the commands cover, the window and the rest; every step of the machine keeps it, and the commands
    of a finished machine rebuild the file, under the hypothesis \<open>no_collision\<close> on the hash. The loops end: three iterations more than
    the new file has bytes are enough. A match always counts as a whole block, so the last command may announce bytes that the old file
    does not have; \<open>announced\<close> says when, and that it is right without them. The argument \<open>dbg\<close> is the preprocessor's
    \<open>_DEBUG\<close>: that build stops in such a case (\<open>Debug_break\<close>).
  \<^item> Comparer\_Thread: the two threads as an inductive step relation with a mutex and an auto-reset event. The buffers
    arrive in order in every interleaving; in some the second thread ends, in some both wait for ever. \<open>fc_process\<close> therefore ends where the main thread begins to
    wait; its field \<open>fc_queue\<close> is the list of the buffers it queued, and what the second thread makes of them is stated for the
    interleavings in which it ends. The terminator is queued without the mutex (\<open>request_thread_stop_can_race\<close>); the relation gives this
    race the outcomes of the two orders, where the language gives it none.
  \<^item> Rsync\_Stream: Rsync.h and .cpp. \<open>delivers\<close> is the contract of reconstruct\_section; a link over
    \<open>usable\<close> commands delivers when its two streams do, so a chain of any length does; the commands of the comparer are usable, also when the last one
    announces too many bytes. \<open>chain_seek_refuses\<close> exhibits the inverted condition of seek.
  \<^item> Rdiff: Rdiff.h and .cpp. \<open>lines_of\<close> specifies the lines of a text independently of the blocks it is read in.

  The compression library.

  \<^item> Lzma\_Prelude: return codes and lemmas on words and lists that several theories share. Vli: vli\_size.c,
    vli\_encoder.c, vli\_decoder.c, single-call and multi-call; \<open>vli_bytes\<close> is the canonical encoding.
    Byte\_Order: the little-endian accessors of tuklib\_integer.h.
  \<^item> Crc: the tables and both implementations of CRC32 and CRC64 against a bit-wise reference. Sha256: sha256.c
    against FIPS 180-4; the padding loop has 128 iterations, and 64 are enough for every state. Check: check.c.
  \<^item> Stream\_Flags: the Stream Header and Footer. Block, Block\_Header: the Block Header and the sizes of block\_util.c and
    index.h.
  \<^item> Common: common.c. Lzma\_Code: lzma\_code, with a log of the calls that reach the coder; \<open>lzma_code_until\<close>
    repeats it, with as much fuel as the bound the theorem states, in
    which \<open>timeouts\<close> counts the calls that \<open>LZMA_TIMED_OUT\<close> ends.
  \<^item> Delta; Bcj, Bcj\_Ia64: the filters of delta/ and simple/. Simple\_Coder: the buffering coder of simple\_coder.c.
    Their streaming theorems hold for every division of input and output over calls.
  \<^item> Fastpos: the two implementations of distance slots. Lzma2\_Dict: the dictionary byte of LZMA2.
    Filters, Filter\_Flags: filter\_common.c, filter\_encoder.c, filter\_decoder.c and the properties of the filters.

  \<^item> Range\_Coder: range\_common.h, range\_encoder.h and range\_decoder.h. Probabilities are a memory indexed by pointers, a queued
    symbol is a bit with its pointer. Range\_Coder\_Correct, Range\_Decoder\_Correct, Range\_Coder\_Roundtrip: the encoder computes
    a nested sequence of intervals (\<open>iv_step\<close>), its bytes are the digits of a number in the last one, and a decoder
    whose input is in that interval (\<open>in_step\<close>) reads the same symbols. Price: price.h with the table of price\_tablegen.c.
  \<^item> Lz\_Decoder: the dictionary of lz\_decoder.h with \<open>dict_ok\<close>, its content as a list, and the loop of decode\_buffer, which
    is given one iteration for each byte of room and one more. Lzma\_Common: the states and probabilities of lzma\_common.h.
  \<^item> Lzma\_Encoder, Lzma\_Decoder: lzma\_encoder.c and lzma\_decoder.c. Which of the possible symbols comes next is an
    argument of the encoder, a list of pairs of \<open>back\<close> and \<open>len\<close> as the choosing functions return them; the decoding loop is
    given one iteration for each byte of room and one more. A decoder that runs out of input gives \<open>Need_input\<close>.
  \<^item> Lzma\_Symbols: the bits of every kind of symbol as lists. Lzma\_Memory: the probabilities a stream uses. Lzma\_Choice:
    \<open>choices_ok\<close> says that the choices describe the data. Lzma\_Encode\_Correct, Lzma\_Decode\_Correct, Lzma\_Roundtrip: what the
    encoder writes is what the decoder reads, for every such list of choices.

  Groups of lemmas. Refinement lemmas relate a representation to lists of bytes (\<open>cb_contents\<close>, \<open>br_rest\<close>,
  \<open>bb_rest\<close>, \<open>nf_rest\<close>, \<open>io_step\<close> for coders); invariant lemmas carry \<open>cb_ok\<close>, \<open>br_ok\<close>,
  \<open>bb_ok\<close>, \<open>buffers_ok\<close>, \<open>window\<close>, \<open>mutex_ok\<close> and \<open>handed_over\<close> through every operation; reference lemmas equate a
  table-driven or streaming computation with a recursion on lists.

  Not modelled. In the native part: writing a table to a file, Shadow Copies (vss.cpp), attributes and links of files
  (fileops2.cpp), the exported wrappers, reading sparse files and links of a chain, whose seek refuses every
  offset inside the file, and the adapters of streams.cpp and lzma.cpp. In liblzma: the match finders and the choosing functions of the LZMA encoder, the LZMA decoder's resumption inside a symbol,
  the decoding of chained LZ filters, the LZMA2 coders, the index and its coders, the Block and Stream coders, the multithreaded encoder, the
  x86 BCJ filter, allocation and freeing as a heap. Outside: the command-line tools (xz, xzdec, lzmainfo), the headers of CryptoPP
  under src/include/cryptlib, the C# program src/BackupEngine and its libraries, and the test programs.

  Plan. Next come the index, the Block coders and the Stream coders, and then the adapters between the native part and liblzma.
\<close>

end
